(* ===== verification/Prelude.thy ===== *)
theory Prelude
  imports Main "HOL-Library.Word"
begin

text \<open>
  Shared vocabulary of the development: the result type of every stateful C function
  (a return value with the state after the call, or one of the ways control leaves
  without returning), its sequencing combinator, the error codes of inc/error.h, and
  generic facts on linked lists and words that the component theories use.
\<close>

unbundle bit_operations_syntax

named_theorems kres_simps \<open>evaluation of sequenced C calls\<close>
named_theorems layout_defs \<open>constants of the memory layout and the paging hardware\<close>

section \<open>Open modes (inc/lib.h)\<close>

definition O_RDONLY :: "32 word" where "O_RDONLY = 0"
definition O_WRONLY :: "32 word" where "O_WRONLY = 1"
definition O_RDWR :: "32 word" where "O_RDWR = 2"
definition O_ACCMODE :: "32 word" where "O_ACCMODE = 3"
definition O_CREAT :: "32 word" where "O_CREAT = 0x100"
definition O_TRUNC :: "32 word" where "O_TRUNC = 0x200"
definition O_EXCL :: "32 word" where "O_EXCL = 0x400"

section \<open>Results of stateful C functions\<close>

text \<open>
  A C function of the kernel either returns to its caller (Ret: the value and the
  state), or control leaves for good (Exit): a panic, a dereference the C
  standard leaves undefined (NULL or out of range), the switch to an environment, the halt
  of the CPU, a loop that never ends, or the kernel monitor loop.
\<close>

datatype kexit =
    Panicked string
  | Fault
  | Running nat
  | Halted
  | Spins
  | Monitor

datatype ('a, 's) kres =
    Ret 'a 's
  | Exit kexit 's

fun kbind :: "('a, 's) kres \<Rightarrow> ('a \<Rightarrow> 's \<Rightarrow> ('b, 's) kres) \<Rightarrow> ('b, 's) kres" where
  "kbind (Ret a s) f = f a s"
| "kbind (Exit e s) f = Exit e s"

text \<open>kassert is the source's assert and panic guard: the message if the condition fails.\<close>

definition kassert :: "string \<Rightarrow> bool \<Rightarrow> 's \<Rightarrow> (unit, 's) kres" where
  "kassert msg b s = (if b then Ret () s else Exit (Panicked msg) s)"

text \<open>A C loop whose body may leave: the calls in order, stopping at the first exit.\<close>

fun kforeach :: "('a \<Rightarrow> 's \<Rightarrow> (unit, 's) kres) \<Rightarrow> 'a list \<Rightarrow> 's \<Rightarrow> (unit, 's) kres" where
  "kforeach f [] s = Ret () s"
| "kforeach f (x # xs) s = kbind (f x s) (\<lambda>_. kforeach f xs)"

fun returns :: "('a, 's) kres \<Rightarrow> bool" where
  "returns (Ret a s) = True"
| "returns (Exit e s) = False"

fun res_state :: "('a, 's) kres \<Rightarrow> 's" where
  "res_state (Ret a s) = s"
| "res_state (Exit e s) = s"

lemma kbind_assoc: "kbind (kbind m f) g = kbind m (\<lambda>a s. kbind (f a s) g)"
  by (cases m) simp_all

lemma kbind_eq_Ret:
  "kbind m f = Ret b t \<longleftrightarrow> (\<exists>a s. m = Ret a s \<and> f a s = Ret b t)"
  by (cases m) simp_all

lemma kbind_RetE:
  assumes "kbind m f = Ret b t"
  obtains a s where "m = Ret a s" and "f a s = Ret b t"
  using assms by (cases m) simp_all

lemma kforeach_append:
  "kforeach f (xs @ ys) s = kbind (kforeach f xs s) (\<lambda>_. kforeach f ys)"
proof (induction xs arbitrary: s)
  case Nil
  then show ?case by simp
next
  case (Cons x xs)
  then show ?case by (cases "f x s") simp_all
qed

lemma kassert_simps [kres_simps]:
  "b \<Longrightarrow> kassert msg b s = Ret () s"
  "\<not> b \<Longrightarrow> kassert msg b s = Exit (Panicked msg) s"
  by (simp_all add: kassert_def)

section \<open>Error codes (inc/error.h)\<close>

text \<open>C returns the negated code in an int; so do the definitions here.\<close>

definition E_UNSPECIFIED :: int where "E_UNSPECIFIED = 1"
definition E_BAD_ENV :: int where "E_BAD_ENV = 2"
definition E_INVAL :: int where "E_INVAL = 3"
definition E_NO_MEM :: int where "E_NO_MEM = 4"
definition E_NO_FREE_ENV :: int where "E_NO_FREE_ENV = 5"
definition E_FAULT :: int where "E_FAULT = 6"
definition E_IPC_NOT_RECV :: int where "E_IPC_NOT_RECV = 7"
definition E_EOF :: int where "E_EOF = 8"
definition E_NO_DISK :: int where "E_NO_DISK = 9"
definition E_MAX_OPEN :: int where "E_MAX_OPEN = 10"
definition E_NOT_FOUND :: int where "E_NOT_FOUND = 11"
definition E_BAD_PATH :: int where "E_BAD_PATH = 12"
definition E_FILE_EXISTS :: int where "E_FILE_EXISTS = 13"
definition E_NOT_EXEC :: int where "E_NOT_EXEC = 14"
definition E_NOT_SUPP :: int where "E_NOT_SUPP = 15"
definition MAXERROR :: int where "MAXERROR = 16"

lemmas error_defs =
  E_UNSPECIFIED_def E_BAD_ENV_def E_INVAL_def E_NO_MEM_def E_NO_FREE_ENV_def
  E_FAULT_def E_IPC_NOT_RECV_def E_EOF_def E_NO_DISK_def E_MAX_OPEN_def
  E_NOT_FOUND_def E_BAD_PATH_def E_FILE_EXISTS_def E_NOT_EXEC_def E_NOT_SUPP_def
  MAXERROR_def

section \<open>Linked lists over an index array\<close>

text \<open>
  The kernel's free lists thread a link field through the elements of an array. The
  predicate says that following the links from a head visits exactly the given indices.
\<close>

fun chain :: "(nat \<Rightarrow> nat option) \<Rightarrow> nat option \<Rightarrow> nat list \<Rightarrow> bool" where
  "chain nxt p [] \<longleftrightarrow> p = None"
| "chain nxt p (x # xs) \<longleftrightarrow> p = Some x \<and> chain nxt (nxt x) xs"

lemma chain_cong: "(\<And>x. x \<in> set xs \<Longrightarrow> f x = g x) \<Longrightarrow> chain f p xs = chain g p xs"
  by (induction xs arbitrary: p) auto

lemma chain_upd [simp]: "i \<notin> set xs \<Longrightarrow> chain (f(i := v)) p xs = chain f p xs"
  by (rule chain_cong) auto

lemma chain_None [simp]: "chain f None xs \<longleftrightarrow> xs = []"
  by (cases xs) auto

lemma chain_Some: "chain f (Some x) xs \<longleftrightarrow> (\<exists>ys. xs = x # ys \<and> chain f (f x) ys)"
  by (cases xs) auto

lemma chain_unique: "chain f p xs \<Longrightarrow> chain f p ys \<Longrightarrow> xs = ys"
proof (induction xs arbitrary: p ys)
  case Nil
  then show ?case by simp
next
  case (Cons x xs)
  then show ?case by (auto simp: chain_Some)
qed

section \<open>Words\<close>

lemma word_less_1024_unat: "w < 1024 \<Longrightarrow> unat (w :: 32 word) < 1024"
  by (simp add: word_less_nat_alt)

lemma unat_of_nat_32: "n < 2 ^ 32 \<Longrightarrow> unat (of_nat n :: 32 word) = n"
  by (simp add: unat_of_nat take_bit_nat_eq_self)

lemma sint_of_int: "- (2 ^ 31) \<le> k \<Longrightarrow> k < 2 ^ 31 \<Longrightarrow> sint (word_of_int k :: 32 word) = k"
  using sint_sbintrunc' [where 'a = 32, of k] by (simp add: signed_take_bit_int_eq_self)

lemma sint_small: "p < 2 ^ 31 \<Longrightarrow> sint (of_nat p :: 32 word) = int p"
proof -
  assume "p < 2 ^ 31"
  then have "int p < 2 ^ 31" by (metis of_nat_less_iff of_nat_numeral of_nat_power)
  then show ?thesis using sint_of_int [of "int p"] by simp
qed

lemma sint_alt: "sint (w :: 32 word) = (if unat w < 2 ^ 31 then int (unat w) else int (unat w) - 2 ^ 32)"
proof (cases "unat w < 2 ^ 31")
  case True
  then show ?thesis using sint_small [OF True] by simp
next
  case False
  have lt: "unat w < 2 ^ 32" using unsigned_less [of w, where 'a = nat] by simp
  have "word_of_int (int (unat w) - 2 ^ 32) = w" by (simp add: wi_hom_syms(1) flip: word_of_int_power_hom)
  moreover have "- (2 ^ 31) \<le> int x - 2 ^ 32 \<and> int x - 2 ^ 32 < 2 ^ 31" if "\<not> x < 2 ^ 31" "x < 2 ^ 32" for x :: nat
    using that by simp
  ultimately show ?thesis using sint_of_int [of "int (unat w) - 2 ^ 32"] False lt by metis
qed

lemma sint_nonneg:
  assumes "0 \<le> sint (w :: 32 word)"
  shows "sint w = int (unat w)" "unat w < 2 ^ 31"
proof -
  have "int (unat w) < 2 ^ 32" using unsigned_less [of w, where 'a = int] by simp
  moreover have "sint w = int (unat w) - 2 ^ 32" if "\<not> unat w < 2 ^ 31" using that sint_alt [of w] by presburger
  ultimately show "unat w < 2 ^ 31" using assms by linarith
  then show "sint w = int (unat w)" using sint_alt [of w] by presburger
qed

end
