(* ===== verification/Mmu.thy ===== *)
theory Mmu
  imports Prelude
begin

text \<open>
  The paging and segmentation vocabulary shared by the kernel and the user library:
  the rounding macros of inc/types.h, the address arithmetic, page table flags and
  descriptors of inc/mmu.h, the layout constants of inc/memlayout.h and the
  physical/kernel-virtual conversions of kern/pmap.h. The lemmas are the bit-level facts
  that the page table proofs rest on: address (de)composition, and what a page table entry
  built from a frame and permissions decodes to.
\<close>

section \<open>Rounding (inc/types.h)\<close>

definition ROUNDDOWN :: "32 word \<Rightarrow> 32 word \<Rightarrow> 32 word" where
  "ROUNDDOWN a n = a - a mod n"

definition ROUNDUP :: "32 word \<Rightarrow> 32 word \<Rightarrow> 32 word" where
  "ROUNDUP a n = ROUNDDOWN (a + n - 1) n"

section \<open>Address arithmetic (inc/mmu.h)\<close>

definition PGNUM :: "32 word \<Rightarrow> 32 word" where
  "PGNUM la = drop_bit 12 la"

definition PDX :: "32 word \<Rightarrow> 32 word" where
  "PDX la = drop_bit 22 la AND 0x3FF"

definition PTX :: "32 word \<Rightarrow> 32 word" where
  "PTX la = drop_bit 12 la AND 0x3FF"

definition PGOFF :: "32 word \<Rightarrow> 32 word" where
  "PGOFF la = la AND 0xFFF"

definition PGADDR :: "32 word \<Rightarrow> 32 word \<Rightarrow> 32 word \<Rightarrow> 32 word" where
  "PGADDR d t off = push_bit 22 d OR push_bit 12 t OR off"

definition PTE_ADDR :: "32 word \<Rightarrow> 32 word" where
  "PTE_ADDR pte = pte AND NOT 0xFFF"

definition NPDENTRIES :: nat where [layout_defs]: "NPDENTRIES = 1024"
definition NPTENTRIES :: nat where [layout_defs]: "NPTENTRIES = 1024"
definition PGSIZE :: "32 word" where [layout_defs]: "PGSIZE = 4096"
definition PGSHIFT :: nat where [layout_defs]: "PGSHIFT = 12"
definition PTSIZE :: "32 word" where [layout_defs]: "PTSIZE = 4096 * 1024"

definition PTE_P :: "32 word" where [layout_defs]: "PTE_P = 0x001"
definition PTE_W :: "32 word" where [layout_defs]: "PTE_W = 0x002"
definition PTE_U :: "32 word" where [layout_defs]: "PTE_U = 0x004"
definition PTE_D :: "32 word" where [layout_defs]: "PTE_D = 0x040"
definition PTE_AVAIL :: "32 word" where [layout_defs]: "PTE_AVAIL = 0xE00"
definition PTE_SYSCALL :: "32 word" where
  "PTE_SYSCALL = PTE_AVAIL OR PTE_P OR PTE_W OR PTE_U"

definition PTE_SHARE :: "32 word" where [layout_defs]: "PTE_SHARE = 0x400"
definition PTE_COW :: "32 word" where [layout_defs]: "PTE_COW = 0x800"

definition FL_IF :: "32 word" where [layout_defs]: "FL_IF = 0x200"
definition FL_IOPL_MASK :: "32 word" where [layout_defs]: "FL_IOPL_MASK = 0x3000"
definition FL_IOPL_0 :: "32 word" where [layout_defs]: "FL_IOPL_0 = 0"
definition FL_IOPL_3 :: "32 word" where [layout_defs]: "FL_IOPL_3 = 0x3000"
definition FEC_WR :: "32 word" where [layout_defs]: "FEC_WR = 0x2"

section \<open>Memory layout (inc/memlayout.h)\<close>

definition KERNBASE :: "32 word" where [layout_defs]: "KERNBASE = 0xF0000000"
definition IOPHYSMEM :: "32 word" where [layout_defs]: "IOPHYSMEM = 0x0A0000"
definition EXTPHYSMEM :: "32 word" where [layout_defs]: "EXTPHYSMEM = 0x100000"
definition KSTACKTOP :: "32 word" where "KSTACKTOP = KERNBASE"
definition KSTKSIZE :: "32 word" where "KSTKSIZE = 8 * PGSIZE"
definition MMIOLIM :: "32 word" where "MMIOLIM = KSTACKTOP - PTSIZE"
definition MMIOBASE :: "32 word" where "MMIOBASE = MMIOLIM - PTSIZE"
definition ULIM :: "32 word" where "ULIM = MMIOBASE"
definition UVPT :: "32 word" where "UVPT = ULIM - PTSIZE"
definition UPAGES :: "32 word" where "UPAGES = UVPT - PTSIZE"
definition UENVS :: "32 word" where "UENVS = UPAGES - PTSIZE"
definition UVSYS :: "32 word" where "UVSYS = UENVS - PTSIZE"
definition UTOP :: "32 word" where "UTOP = UVSYS"
definition UXSTACKTOP :: "32 word" where "UXSTACKTOP = UTOP"
definition USTACKTOP :: "32 word" where "USTACKTOP = UTOP - 2 * PGSIZE"
definition UTEXT :: "32 word" where "UTEXT = 2 * PTSIZE"
definition UTEMP :: "32 word" where "UTEMP = PTSIZE"
definition PFTEMP :: "32 word" where "PFTEMP = UTEMP + PTSIZE - PGSIZE"
definition USTABDATA :: "32 word" where "USTABDATA = PTSIZE div 2"

definition GD_KT :: "16 word" where [layout_defs]: "GD_KT = 0x08"
definition GD_KD :: "16 word" where [layout_defs]: "GD_KD = 0x10"
definition GD_UT :: "16 word" where [layout_defs]: "GD_UT = 0x18"
definition GD_UD :: "16 word" where [layout_defs]: "GD_UD = 0x20"
definition GD_TSS0 :: "16 word" where [layout_defs]: "GD_TSS0 = 0x28"

text \<open>The chain of layout constants, evaluated.\<close>

lemma layout_values:
  "KSTACKTOP = 0xF0000000" "KSTKSIZE = 0x8000" "MMIOLIM = 0xEFC00000" "MMIOBASE = 0xEF800000"
  "ULIM = 0xEF800000" "UVPT = 0xEF400000" "UPAGES = 0xEF000000" "UENVS = 0xEEC00000"
  "UVSYS = 0xEE800000" "UTOP = 0xEE800000" "UXSTACKTOP = 0xEE800000"
  "USTACKTOP = 0xEE7FE000" "UTEXT = 0x800000" "UTEMP = 0x400000" "PFTEMP = 0x7FF000"
  "USTABDATA = 0x200000" "PTE_SYSCALL = 0xE07"
  by (simp_all add: KSTACKTOP_def KSTKSIZE_def MMIOLIM_def MMIOBASE_def ULIM_def UVPT_def
      UPAGES_def UENVS_def UVSYS_def UTOP_def UXSTACKTOP_def USTACKTOP_def UTEXT_def
      UTEMP_def PFTEMP_def USTABDATA_def PTE_SYSCALL_def layout_defs)

section \<open>Physical and kernel virtual addresses (kern/pmap.h)\<close>

text \<open>None is the panic of the macro; np is the global npages.\<close>

definition PADDR :: "32 word \<Rightarrow> 32 word option" where
  "PADDR kva = (if kva < KERNBASE then None else Some (kva - KERNBASE))"

definition KADDR :: "nat \<Rightarrow> 32 word \<Rightarrow> 32 word option" where
  "KADDR np pa = (if unat (PGNUM pa) \<ge> np then None else Some (pa + KERNBASE))"

definition page2pa :: "nat \<Rightarrow> 32 word" where
  "page2pa pp = push_bit 12 (of_nat pp)"

definition pa2page :: "nat \<Rightarrow> 32 word \<Rightarrow> nat option" where
  "pa2page np pa = (if unat (PGNUM pa) \<ge> np then None else Some (unat (PGNUM pa)))"

definition page2kva :: "nat \<Rightarrow> nat \<Rightarrow> 32 word option" where
  "page2kva np pp = KADDR np (page2pa pp)"

section \<open>Lemmas: decomposition of addresses\<close>

lemma mask_0x3FF: "(0x3FF :: 32 word) = mask 10"
  by (simp add: mask_eq_exp_minus_1)

lemma mask_0xFFF: "(0xFFF :: 32 word) = mask 12"
  by (simp add: mask_eq_exp_minus_1)

lemma and_0x3FF: "(x :: 32 word) AND 0x3FF = take_bit 10 x"
  by (simp only: mask_0x3FF take_bit_eq_mask)

lemma and_0xFFF: "(x :: 32 word) AND 0xFFF = take_bit 12 x"
  by (simp only: mask_0xFFF take_bit_eq_mask)

lemma PDX_alt: "PDX la = take_bit 10 (drop_bit 22 la)"
  by (simp only: PDX_def and_0x3FF)

lemma PTX_alt: "PTX la = take_bit 10 (drop_bit 12 la)"
  by (simp only: PTX_def and_0x3FF)

lemma PGOFF_alt: "PGOFF la = take_bit 12 la"
  by (simp only: PGOFF_def and_0xFFF)

lemma PTE_ADDR_alt: "PTE_ADDR pte = push_bit 12 (drop_bit 12 pte)"
  unfolding PTE_ADDR_def mask_0xFFF
  by (rule bit_word_eqI) (auto simp: bit_simps)

lemmas addr_alt = PGNUM_def PDX_alt PTX_alt PGOFF_alt PGADDR_def PTE_ADDR_alt

text \<open>The bit ranges of a linear address: offset, table index, directory index.\<close>

lemma split_12_22:
  fixes n :: nat
  obtains "n < 12" | "12 \<le> n" "n < 22" | "22 \<le> n"
  by linarith

lemma PGADDR_decompose: "PGADDR (PDX la) (PTX la) (PGOFF la) = la"
proof (rule bit_word_eqI)
  fix n
  assume "n < LENGTH(32)"
  then show "bit (PGADDR (PDX la) (PTX la) (PGOFF la)) n = bit la n"
    by (cases n rule: split_12_22) (auto simp: addr_alt bit_simps)
qed

lemma take_bit_word_id:
  fixes w :: "32 word"
  assumes "unat w < 2 ^ n"
  shows "take_bit n w = w"
proof -
  have "unat (take_bit n w) = unat w"
    using assms by (simp add: unsigned_take_bit_eq take_bit_nat_eq_self)
  then show ?thesis by (simp add: word_unat_eq_iff)
qed

lemma unat_32_less: "unat (w :: 32 word) < 4294967296"
proof -
  have "unat w < 2 ^ 32" using unsigned_less [of w] by simp
  then show ?thesis by simp
qed

lemma unat_PGNUM: "unat (PGNUM la) = unat la div 4096"
  by (simp add: PGNUM_def unat_drop_bit_eq drop_bit_eq_div unat_div)

lemma unat_PGOFF: "unat (PGOFF a) = unat a mod 4096"
  by (simp add: PGOFF_alt unsigned_take_bit_eq take_bit_eq_mod unat_mod)

lemma unat_PDX: "unat (PDX la) = unat la div 4194304"
  using unat_32_less [of la]
  by (simp add: PDX_alt unsigned_take_bit_eq unat_drop_bit_eq drop_bit_eq_div take_bit_eq_mod
      unat_div unat_mod)

lemma unat_PTX: "unat (PTX la) = unat la div 4096 mod 1024"
  by (simp add: PTX_alt unsigned_take_bit_eq unat_drop_bit_eq drop_bit_eq_div take_bit_eq_mod
      unat_div unat_mod)

lemma PDX_less: "unat (PDX la) < 1024"
  using unat_32_less [of la] by (simp add: unat_PDX)

lemma PTX_less: "unat (PTX la) < 1024"
  by (simp add: unat_PTX)

lemma PGNUM_less: "unat (PGNUM la) < 2 ^ 20"
  using unat_32_less [of la] by (simp add: unat_PGNUM)

lemma div_4194304: "(n :: nat) div 4194304 = n div 4096 div 1024"
  by (simp add: div_mult2_eq [symmetric])

lemma page_index_eq:
  "unat (PDX a) = unat (PDX b) \<and> unat (PTX a) = unat (PTX b) \<longleftrightarrow> PGNUM a = PGNUM b"
proof
  assume "unat (PDX a) = unat (PDX b) \<and> unat (PTX a) = unat (PTX b)"
  then have d: "(unat a div 4096) div 1024 = (unat b div 4096) div 1024"
    and m: "(unat a div 4096) mod 1024 = (unat b div 4096) mod 1024"
    by (simp_all add: unat_PDX unat_PTX div_4194304)
  have "unat a div 4096 = unat b div 4096"
    using d m by (metis div_mult_mod_eq)
  then show "PGNUM a = PGNUM b"
    by (simp add: unat_PGNUM word_unat_eq_iff)
next
  assume "PGNUM a = PGNUM b"
  then have "unat a div 4096 = unat b div 4096"
    by (metis unat_PGNUM)
  then show "unat (PDX a) = unat (PDX b) \<and> unat (PTX a) = unat (PTX b)"
    by (simp add: unat_PDX unat_PTX div_4194304)
qed

section \<open>Lemmas: page table entries\<close>

text \<open>What page2pa(pp) | perm | PTE_P decodes to.\<close>

lemma unat_page2pa: "pp < 2 ^ 20 \<Longrightarrow> unat (page2pa pp) = pp * 4096"
  by (simp add: page2pa_def push_bit_eq_mult unat_word_ariths unat_of_nat_32)

lemma unat_PGNUM_page2pa: "pp < 2 ^ 20 \<Longrightarrow> unat (PGNUM (page2pa pp)) = pp"
  by (simp add: unat_PGNUM unat_page2pa)

lemma take_bit_12_page2pa: "take_bit 12 (page2pa pp) = 0"
  by (simp add: page2pa_def take_bit_push_bit)

lemma page2pa_inj: "pp < 2 ^ 20 \<Longrightarrow> qq < 2 ^ 20 \<Longrightarrow> page2pa pp = page2pa qq \<longleftrightarrow> pp = qq"
  by (metis unat_PGNUM_page2pa)

text \<open>Permissions occupy the low twelve bits.\<close>

definition low_perm :: "32 word \<Rightarrow> bool" where
  "low_perm p \<longleftrightarrow> PTE_ADDR p = 0"

lemma low_perm_drop: "low_perm p \<longleftrightarrow> drop_bit 12 p = 0"
proof -
  have "push_bit 12 (drop_bit 12 p) = 0 \<longleftrightarrow> drop_bit 12 p = 0"
  proof
    assume a: "push_bit 12 (drop_bit 12 p) = 0"
    show "drop_bit 12 p = 0"
    proof (rule bit_word_eqI)
      fix n
      assume "n < LENGTH(32)"
      show "bit (drop_bit 12 p) n = bit 0 n"
      proof (cases "n + 12 < 32")
        case True
        have "bit (push_bit 12 (drop_bit 12 p)) (n + 12) = bit (0 :: 32 word) (n + 12)"
          by (simp only: a)
        with True show ?thesis by (simp add: bit_simps add.commute)
      next
        case False
        then show ?thesis by (auto simp: bit_simps dest: bit_imp_le_length)
      qed
    qed
  qed simp
  then show ?thesis by (simp only: low_perm_def PTE_ADDR_alt)
qed

lemma low_perm_or [simp]: "low_perm (p OR q) \<longleftrightarrow> low_perm p \<and> low_perm q"
  by (simp only: low_perm_drop drop_bit_or or_eq_0_iff)

lemma PGNUM_or_low: "low_perm p \<Longrightarrow> PGNUM (x OR p) = PGNUM x"
  by (simp only: low_perm_drop PGNUM_def drop_bit_or) simp

lemma PGNUM_PTE_ADDR: "PGNUM (PTE_ADDR pte) = PGNUM pte"
  unfolding addr_alt
  by (rule bit_word_eqI) (auto simp: bit_simps dest: bit_imp_le_length)

lemma PTE_ADDR_or_low: "low_perm p \<Longrightarrow> PTE_ADDR (x OR p) = PTE_ADDR x"
  by (simp only: low_perm_drop PTE_ADDR_alt drop_bit_or) simp

lemma PTE_ADDR_page2pa: "PTE_ADDR (page2pa pp) = page2pa pp"
  unfolding PTE_ADDR_alt page2pa_def
  by (rule bit_word_eqI) (auto simp: bit_simps)

lemma PGOFF_page2pa: "PGOFF (page2pa pp) = 0"
  by (simp only: PGOFF_alt take_bit_12_page2pa)

lemma PTE_ADDR_0 [simp]: "PTE_ADDR 0 = 0"
  by (simp add: PTE_ADDR_def)

text \<open>The flags as bits.\<close>

lemma and_PTE: "(w AND PTE_P \<noteq> 0) = bit w 0" "(w AND PTE_W \<noteq> 0) = bit w 1" "(w AND PTE_U \<noteq> 0) = bit w 2"
  "(w AND PTE_SHARE \<noteq> 0) = bit w 10" "(w AND PTE_COW \<noteq> 0) = bit w 11" "(w AND FEC_WR \<noteq> 0) = bit w 1"
proof -
  have pow: "(w AND 2 ^ n \<noteq> 0) = bit w n" for n :: nat and w :: "32 word"
    by (simp add: bit_iff_and_push_bit_not_eq_0 push_bit_eq_mult)
  show "(w AND PTE_P \<noteq> 0) = bit w 0" "(w AND PTE_W \<noteq> 0) = bit w 1" "(w AND PTE_U \<noteq> 0) = bit w 2"
    "(w AND PTE_SHARE \<noteq> 0) = bit w 10" "(w AND PTE_COW \<noteq> 0) = bit w 11" "(w AND FEC_WR \<noteq> 0) = bit w 1"
    using pow [of w 0] pow [of w 1] pow [of w 2] pow [of w 10] pow [of w 11]
    by (simp_all add: layout_defs)
qed

lemma and_PTE0: "(w AND PTE_P = 0) = (\<not> bit w 0)" "(w AND PTE_W = 0) = (\<not> bit w 1)"
  "(w AND PTE_U = 0) = (\<not> bit w 2)" "(w AND PTE_SHARE = 0) = (\<not> bit w 10)"
  "(w AND PTE_COW = 0) = (\<not> bit w 11)" "(w AND FEC_WR = 0) = (\<not> bit w 1)"
  using and_PTE [of w] by blast+

lemma new_pde_bits:
  "bit (page2pa x OR PTE_P OR PTE_W OR PTE_U) 1" "bit (page2pa x OR PTE_P OR PTE_W OR PTE_U) 2"
  by (simp_all add: bit_or_iff layout_defs bit_numeral_rec numeral_2_eq_2)

end
