(* ===== verification/Console.thy ===== *)
theory Console
  imports Prelude
begin

text \<open>
  kern/console.c: the keyboard decoder, the circular input buffer and the text-mode display.
  A device is what it delivers: the bytes the serial port has ready, the scan codes the
  keyboard has ready. Writes to I/O ports are recorded, latest first. The input buffer
  provides the interface fifo_buffer.
\<close>

section \<open>The interface: a bounded first-in first-out buffer\<close>

locale fifo_buffer =
  fixes ok :: "'s \<Rightarrow> bool"
    and queued :: "'s \<Rightarrow> 'a list"
    and cap :: nat
    and put :: "'a \<Rightarrow> 's \<Rightarrow> 's"
    and get :: "'s \<Rightarrow> ('a \<times> 's) option"
  assumes queued_cap: "ok s \<Longrightarrow> length (queued s) \<le> cap"
    and put_law: "ok s \<Longrightarrow> length (queued s) < cap \<Longrightarrow> ok (put a s) \<and> queued (put a s) = queued s @ [a]"
    and get_nil: "ok s \<Longrightarrow> queued s = [] \<Longrightarrow> get s = None"
    and get_cons: "ok s \<Longrightarrow> queued s = a # as \<Longrightarrow> \<exists>t. get s = Some (a, t) \<and> ok t \<and> queued t = as"
begin

lemma put_all:
  assumes "ok s" "length (queued s) + length as \<le> cap"
  shows "ok (fold put as s) \<and> queued (fold put as s) = queued s @ as"
  using assms by (induction as arbitrary: s) (simp_all add: put_law)

lemma get_iff:
  assumes "ok s"
  shows "get s = None \<longleftrightarrow> queued s = []"
    and "get s = Some (a, t) \<Longrightarrow> ok t \<and> queued s = a # queued t"
  using get_nil [OF assms] get_cons [OF assms] by (cases "queued s"; fastforce)+

lemma put_get:
  assumes "ok s" "queued s = []" "0 < cap"
  shows "\<exists>t. get (put a s) = Some (a, t) \<and> ok t \<and> queued t = []"
  using put_law [OF assms(1), of a] assms get_cons [of "put a s" a "[]"] by auto

end

text \<open>Taking everything out, at most n elements.\<close>

fun take_all :: "('s \<Rightarrow> ('a \<times> 's) option) \<Rightarrow> nat \<Rightarrow> 's \<Rightarrow> 'a list \<times> 's" where
  "take_all get 0 s = ([], s)"
| "take_all get (Suc n) s =
     (case get s of None \<Rightarrow> ([], s)
      | Some (a, t) \<Rightarrow> (case take_all get n t of (as, u) \<Rightarrow> (a # as, u)))"

context fifo_buffer begin

lemma take_all_queued:
  assumes "ok s"
  shows "\<exists>t. take_all get n s = (take n (queued s), t) \<and> ok t \<and> queued t = drop n (queued s)"
  using assms
proof (induction n arbitrary: s)
  case 0
  then show ?case by simp
next
  case (Suc n)
  show ?case
  proof (cases "queued s")
    case Nil
    then show ?thesis using get_nil [OF Suc.prems] Suc.prems by auto
  next
    case (Cons a as)
    then obtain t where t: "get s = Some (a, t)" "ok t" "queued t = as"
      using get_cons [OF Suc.prems] by auto
    then show ?thesis using Suc.IH [OF t(2)] Cons by auto
  qed
qed

lemma put_all_take_all:
  assumes "ok s" "queued s = []" "length as \<le> cap"
  shows "\<exists>t. take_all get cap (fold put as s) = (as, t) \<and> ok t \<and> queued t = []"
  using put_all [of s as] take_all_queued [of "fold put as s" cap] assms by auto

end

section \<open>The keyboard\<close>

definition SHIFT :: "32 word" where "SHIFT = 1"
definition CTL :: "32 word" where "CTL = 2"
definition ALT :: "32 word" where "ALT = 4"
definition CAPSLOCK :: "32 word" where "CAPSLOCK = 8"
definition NUMLOCK :: "32 word" where "NUMLOCK = 16"
definition SCROLLLOCK :: "32 word" where "SCROLLLOCK = 32"
definition E0ESC :: "32 word" where "E0ESC = 64"

definition KEY_HOME :: "8 word" where "KEY_HOME = 0xE0"
definition KEY_END :: "8 word" where "KEY_END = 0xE1"
definition KEY_UP :: "8 word" where "KEY_UP = 0xE2"
definition KEY_DN :: "8 word" where "KEY_DN = 0xE3"
definition KEY_LF :: "8 word" where "KEY_LF = 0xE4"
definition KEY_RT :: "8 word" where "KEY_RT = 0xE5"
definition KEY_PGUP :: "8 word" where "KEY_PGUP = 0xE6"
definition KEY_PGDN :: "8 word" where "KEY_PGDN = 0xE7"
definition KEY_INS :: "8 word" where "KEY_INS = 0xE8"
definition KEY_DEL :: "8 word" where "KEY_DEL = 0xE9"

lemmas kbd_defs = SHIFT_def CTL_def ALT_def CAPSLOCK_def NUMLOCK_def SCROLLLOCK_def E0ESC_def
  KEY_HOME_def KEY_END_def KEY_UP_def KEY_DN_def KEY_LF_def KEY_RT_def KEY_PGUP_def KEY_PGDN_def
  KEY_INS_def KEY_DEL_def

definition shiftcode :: "8 word \<Rightarrow> 32 word" where
  "shiftcode d =
     (if d = 0x1D \<or> d = 0x9D then CTL
      else if d = 0x2A \<or> d = 0x36 then SHIFT
      else if d = 0x38 \<or> d = 0xB8 then ALT else 0)"

definition togglecode :: "8 word \<Rightarrow> 32 word" where
  "togglecode d =
     (if d = 0x3A then CAPSLOCK else if d = 0x45 then NUMLOCK
      else if d = 0x46 then SCROLLLOCK else 0)"

definition bytes :: "string \<Rightarrow> 8 word list" where
  "bytes s = map of_char s"

text \<open>The designated initialisers from 0x9C on, common to the first two maps.\<close>

definition extmap :: "8 word \<Rightarrow> 8 word" where
  "extmap d =
     (if d = 0xC7 then KEY_HOME else if d = 0x9C then 10
      else if d = 0xB5 then 47 else if d = 0xC8 then KEY_UP
      else if d = 0xC9 then KEY_PGUP else if d = 0xCB then KEY_LF
      else if d = 0xCD then KEY_RT else if d = 0xCF then KEY_END
      else if d = 0xD0 then KEY_DN else if d = 0xD1 then KEY_PGDN
      else if d = 0xD2 then KEY_INS else if d = 0xD3 then KEY_DEL else 0)"

definition normal_rows :: "8 word list" where
  "normal_rows =
     [0, 0x1B] @ bytes ''123456'' @
     bytes ''7890-='' @ [8, 9] @
     bytes ''qwertyui'' @
     bytes ''op[]'' @ [10, 0] @ bytes ''as'' @
     bytes ''dfghjkl;'' @
     [39, 96, 0, 92] @ bytes ''zxcv'' @
     bytes ''bnm,./'' @ [0, 42] @
     [0, 32, 0, 0, 0, 0, 0, 0] @
     [0, 0, 0, 0, 0, 0, 0] @ bytes ''7'' @
     bytes ''89-456+1'' @
     bytes ''230.'' @ [0, 0, 0, 0]"

definition normalmap :: "8 word \<Rightarrow> 8 word" where
  "normalmap d = (if unat d < length normal_rows then normal_rows ! unat d else extmap d)"

definition shift_rows :: "8 word list" where
  "shift_rows =
     [0, 0x1B] @ bytes ''!@#$%^'' @
     bytes ''&*()_+'' @ [8, 9] @
     bytes ''QWERTYUI'' @
     bytes ''OP{}'' @ [10, 0] @ bytes ''AS'' @
     bytes ''DFGHJKL:'' @
     [34, 126, 0, 124] @ bytes ''ZXCV'' @
     bytes ''BNM<>?'' @ [0, 42] @
     [0, 32, 0, 0, 0, 0, 0, 0] @
     [0, 0, 0, 0, 0, 0, 0] @ bytes ''7'' @
     bytes ''89-456+1'' @
     bytes ''230.'' @ [0, 0, 0, 0]"

definition shiftmap :: "8 word \<Rightarrow> 8 word" where
  "shiftmap d = (if unat d < length shift_rows then shift_rows ! unat d else extmap d)"

text \<open>C(x) of the source: the control character of a letter, as a uint8_t.\<close>

definition ctl_of :: "8 word \<Rightarrow> 8 word" where
  "ctl_of x = x - 64"

definition ctl_rows :: "8 word list" where
  "ctl_rows =
     [0, 0, 0, 0, 0, 0, 0, 0] @
     [0, 0, 0, 0, 0, 0, 0, 0] @
     map ctl_of (bytes ''QWERTYUI'') @
     map ctl_of (bytes ''OP'') @ [0, 0, 13, 0] @ map ctl_of (bytes ''AS'') @
     map ctl_of (bytes ''DFGHJKL'') @ [0] @
     [0, 0, 0, ctl_of 92] @ map ctl_of (bytes ''ZXCV'') @
     map ctl_of (bytes ''BNM'') @ [0, 0, ctl_of 47, 0, 0]"

definition ctlmap :: "8 word \<Rightarrow> 8 word" where
  "ctlmap d =
     (if unat d < length ctl_rows then ctl_rows ! unat d
      else if d = 0x97 then KEY_HOME else if d = 0xB5 then ctl_of 47
      else if d = 0x9C \<or> d = 0xC7 then 0 else extmap d)"

definition charcode :: "32 word \<Rightarrow> 8 word \<Rightarrow> 8 word" where
  "charcode m = (if m = 0 then normalmap else if m = 1 then shiftmap else ctlmap)"

text \<open>
  kbd_proc_data on a scan code, with the static variable shift: the character
  (0 if none is finished), the new shift, and whether Ctrl-Alt-Del was pressed.
\<close>

definition kbd_proc_data :: "8 word \<Rightarrow> 32 word \<Rightarrow> int \<times> 32 word \<times> bool" where
  "kbd_proc_data data shift =
     (if data = 0xE0 then (0, shift OR E0ESC, False)
      else if data AND 0x80 \<noteq> 0 then
        (let data = (if shift AND E0ESC \<noteq> 0 then data else data AND 0x7F)
         in (0, shift AND NOT (shiftcode data OR E0ESC), False))
      else
        (let (data, shift) = (if shift AND E0ESC \<noteq> 0 then (data OR 0x80, shift AND NOT E0ESC)
                              else (data, shift));
             shift = shift OR shiftcode data;
             shift = shift XOR togglecode data;
             c = uint (charcode (shift AND (CTL OR SHIFT)) data);
             c = (if shift AND CAPSLOCK \<noteq> 0 then
                    (if 97 \<le> c \<and> c \<le> 122 then c - 32
                     else if 65 \<le> c \<and> c \<le> 90 then c + 32 else c)
                  else c)
         in (c, shift, NOT shift AND (CTL OR ALT) = 0 \<and> c = uint KEY_DEL)))"

text \<open>All the scan codes the controller has ready, as cons_intr calls for them.\<close>

fun kbd_values :: "8 word list \<Rightarrow> 32 word \<Rightarrow> int list \<times> 32 word" where
  "kbd_values [] shift = ([], shift)"
| "kbd_values (d # ds) shift =
     (case kbd_proc_data d shift of (c, shift, _) \<Rightarrow>
        (case kbd_values ds shift of (cs, shift) \<Rightarrow> (c # cs, shift)))"

section \<open>The input buffer\<close>

definition CONSBUFSIZE :: nat where "CONSBUFSIZE = 512"

record cons_state =
  cons_buf :: "nat \<Rightarrow> 8 word"
  cons_rpos :: nat
  cons_wpos :: nat
  kbd_shift :: "32 word"
  serial_exists :: bool

definition cons_put :: "8 word \<Rightarrow> cons_state \<Rightarrow> cons_state" where
  "cons_put c s =
     (let s1 = s\<lparr>cons_buf := (cons_buf s)(cons_wpos s := c), cons_wpos := cons_wpos s + 1\<rparr>
      in if cons_wpos s1 = CONSBUFSIZE then s1\<lparr>cons_wpos := 0\<rparr> else s1)"

text \<open>cons_intr on the values its argument returns before the first -1.\<close>

fun cons_intr :: "int list \<Rightarrow> cons_state \<Rightarrow> cons_state" where
  "cons_intr [] s = s"
| "cons_intr (c # cs) s =
     (if c = -1 then s
      else if c = 0 then cons_intr cs s
      else cons_intr cs (cons_put (word_of_int c) s))"

definition serial_intr :: "8 word list \<Rightarrow> cons_state \<Rightarrow> cons_state" where
  "serial_intr rx s = (if serial_exists s then cons_intr (map uint rx) s else s)"

definition kbd_intr :: "8 word list \<Rightarrow> cons_state \<Rightarrow> cons_state" where
  "kbd_intr codes s =
     (case kbd_values codes (kbd_shift s) of
        (cs, shift) \<Rightarrow> cons_intr cs (s\<lparr>kbd_shift := shift\<rparr>))"

definition cons_take :: "cons_state \<Rightarrow> (8 word \<times> cons_state) option" where
  "cons_take s =
     (if cons_rpos s \<noteq> cons_wpos s then
        (let c = cons_buf s (cons_rpos s); s1 = s\<lparr>cons_rpos := cons_rpos s + 1\<rparr>
         in Some (c, if cons_rpos s1 = CONSBUFSIZE then s1\<lparr>cons_rpos := 0\<rparr> else s1))
      else None)"

definition cons_getc :: "8 word list \<Rightarrow> 8 word list \<Rightarrow> cons_state \<Rightarrow> int \<times> cons_state" where
  "cons_getc rx codes s =
     (let s1 = kbd_intr codes (serial_intr rx s)
      in case cons_take s1 of
           Some (c, s2) \<Rightarrow> (uint c, s2)
         | None \<Rightarrow> (0, s1))"


definition cons_ok :: "cons_state \<Rightarrow> bool" where
  "cons_ok s \<longleftrightarrow> cons_rpos s < CONSBUFSIZE \<and> cons_wpos s < CONSBUFSIZE"

definition cons_len :: "cons_state \<Rightarrow> nat" where
  "cons_len s = (cons_wpos s + CONSBUFSIZE - cons_rpos s) mod CONSBUFSIZE"

definition cons_queued :: "cons_state \<Rightarrow> 8 word list" where
  "cons_queued s = map (\<lambda>i. cons_buf s ((cons_rpos s + i) mod CONSBUFSIZE)) [0..<cons_len s]"

lemma cons_len_split:
  assumes "cons_ok s"
  shows "cons_len s = (if cons_rpos s \<le> cons_wpos s then cons_wpos s - cons_rpos s
                       else cons_wpos s + 512 - cons_rpos s)"
proof (cases "cons_rpos s \<le> cons_wpos s")
  case True
  then have "cons_wpos s + 512 - cons_rpos s = (cons_wpos s - cons_rpos s) + 512" by simp
  then show ?thesis
    using assms True unfolding cons_len_def cons_ok_def CONSBUFSIZE_def
    by (simp only: mod_add_self2) (simp add: mod_less less_imp_diff_less)
next
  case False
  then show ?thesis
    using assms by (simp add: cons_len_def cons_ok_def CONSBUFSIZE_def)
qed

lemma cons_put_len:
  assumes "cons_ok s" "cons_len s < 511"
  shows "cons_ok (cons_put c s)" "cons_len (cons_put c s) = Suc (cons_len s)"
    and "cons_rpos (cons_put c s) = cons_rpos s"
    and "(cons_rpos s + cons_len s) mod 512 = cons_wpos s"
proof -
  show ok: "cons_ok (cons_put c s)" and r: "cons_rpos (cons_put c s) = cons_rpos s"
    using assms by (auto simp: cons_ok_def cons_put_def Let_def CONSBUFSIZE_def)
  show "cons_len (cons_put c s) = Suc (cons_len s)"
    using assms unfolding cons_len_split [OF ok] cons_len_split [OF assms(1)] r
    by (auto simp: cons_put_def Let_def CONSBUFSIZE_def cons_ok_def split: if_splits)
  show "(cons_rpos s + cons_len s) mod 512 = cons_wpos s"
    using assms(1) by (auto simp: cons_len_split cons_ok_def CONSBUFSIZE_def)
qed

lemma cons_put_buf: "cons_buf (cons_put c s) = (cons_buf s)(cons_wpos s := c)"
  by (simp add: cons_put_def Let_def)

lemma mod_512_inj:
  assumes "(a + i) mod 512 = (a + j) mod (512 :: nat)" "i < 512" "j < 512"
  shows "i = j"
proof -
  have "i = j" if "i \<le> j" "(a + j) mod 512 = (a + i) mod (512 :: nat)" "j < 512" for i j
    using that mod_eq_dvd_iff_nat [of "a + i" "a + j" 512] by (auto dest: dvd_imp_le)
  then show ?thesis using assms by (cases "i \<le> j") (simp, metis nat_le_linear)
qed


interpretation cring: fifo_buffer cons_ok cons_queued 511 cons_put cons_take
proof unfold_locales
  fix s :: cons_state and a as
  assume ok: "cons_ok s"
  show "length (cons_queued s) \<le> 511"
    using ok by (auto simp: cons_queued_def cons_len_split cons_ok_def CONSBUFSIZE_def)
  show "cons_ok (cons_put a s) \<and> cons_queued (cons_put a s) = cons_queued s @ [a]"
    if "length (cons_queued s) < 511"
  proof -
    have l: "cons_len s < 511" using that by (simp add: cons_queued_def)
    note put = cons_put_len [OF ok l]
    have "(cons_rpos s + i) mod 512 \<noteq> cons_wpos s" if "i < cons_len s" for i
      using mod_512_inj [of "cons_rpos s" i "cons_len s"] put(4) that l by auto
    then have "map (\<lambda>i. cons_buf (cons_put a s) ((cons_rpos s + i) mod 512)) [0..<cons_len s] =
        map (\<lambda>i. cons_buf s ((cons_rpos s + i) mod 512)) [0..<cons_len s]"
      by (simp add: cons_put_buf)
    then show ?thesis
      using put by (simp add: cons_queued_def CONSBUFSIZE_def cons_put_buf)
  qed
  show "cons_take s = None" if "cons_queued s = []"
    using that ok by (auto simp: cons_take_def cons_queued_def cons_len_split cons_ok_def CONSBUFSIZE_def split: if_splits)
  show "\<exists>t. cons_take s = Some (a, t) \<and> cons_ok t \<and> cons_queued t = as" if q: "cons_queued s = a # as"
  proof -
    have "cons_len s \<noteq> 0" using q by (cases "cons_len s = 0") (simp_all add: cons_queued_def)
    then obtain n where n: "cons_len s = Suc n" by (cases "cons_len s") auto
    then have ne: "cons_rpos s \<noteq> cons_wpos s" using ok by (auto simp: cons_len_split)
    let ?t = "s\<lparr>cons_rpos := (if cons_rpos s + 1 = 512 then 0 else cons_rpos s + 1)\<rparr>"
    have run: "cons_take s = Some (cons_buf s (cons_rpos s), ?t)"
      using ne by (simp add: cons_take_def Let_def CONSBUFSIZE_def)
    have okt: "cons_ok ?t" using ok by (auto simp: cons_ok_def CONSBUFSIZE_def)
    have len: "cons_len ?t = n"
      using n ok ne unfolding cons_len_split [OF okt] cons_len_split [OF ok]
      by (auto simp: cons_ok_def CONSBUFSIZE_def split: if_splits)
    have idx: "(cons_rpos ?t + i) mod 512 = (cons_rpos s + Suc i) mod 512" for i
    proof (cases "cons_rpos s = 511")
      case True
      have "(512 + i) mod 512 = i mod 512" by (rule mod_add_self1)
      then show ?thesis using True by simp
    qed simp
    have "cons_queued s = cons_buf s (cons_rpos s mod 512) # cons_queued ?t"
      unfolding cons_queued_def n len CONSBUFSIZE_def idx
      by (simp add: map_upt_Suc del: upt_Suc)
    moreover have "cons_rpos s mod 512 = cons_rpos s" using ok by (simp add: cons_ok_def CONSBUFSIZE_def)
    ultimately show ?thesis using q run okt by auto
  qed
qed


lemma cons_intr_fold:
  "-1 \<notin> set cs \<Longrightarrow> cons_intr cs s = fold cons_put (map word_of_int (filter (\<lambda>c. c \<noteq> 0) cs)) s"
  by (induction cs s rule: cons_intr.induct) auto

lemma fold_put_pos:
  assumes "cons_ok s"
  shows "cons_ok (fold cons_put cs s) \<and> cons_rpos (fold cons_put cs s) = cons_rpos s \<and>
    cons_wpos (fold cons_put cs s) = (cons_wpos s + length cs) mod 512"
  using assms
proof (induction cs arbitrary: s)
  case Nil
  then show ?case by (simp add: cons_ok_def CONSBUFSIZE_def)
next
  case (Cons c cs)
  have ok: "cons_ok (cons_put c s)" and pos: "cons_rpos (cons_put c s) = cons_rpos s"
    "cons_wpos (cons_put c s) = (cons_wpos s + 1) mod 512"
    using Cons.prems by (auto simp: cons_ok_def cons_put_def Let_def CONSBUFSIZE_def)
  show ?case using Cons.IH [OF ok] pos by (simp add: mod_simps)
qed

lemma kbd_values_nonneg: "c \<in> set (fst (kbd_values ds shift)) \<Longrightarrow> 0 \<le> c"
proof (induction ds arbitrary: shift)
  case Nil
  then show ?case by simp
next
  case (Cons d ds)
  have "0 \<le> fst (kbd_proc_data d sh)" for sh
    by (simp add: kbd_proc_data_def Let_def split: prod.splits)
  then show ?case using Cons by (auto split: prod.splits) (metis fst_conv)+
qed

section \<open>The display\<close>

definition CRT_ROWS :: nat where "CRT_ROWS = 25"
definition CRT_COLS :: nat where "CRT_COLS = 80"
definition CRT_SIZE :: nat where "CRT_SIZE = CRT_ROWS * CRT_COLS"
definition COM1 :: nat where "COM1 = 0x3F8"

lemmas crt_defs = CRT_ROWS_def CRT_COLS_def CRT_SIZE_def

text \<open>crt_pos is a 16-bit counter; the port writes are kept, latest first.\<close>

record display =
  crt_buf :: "nat \<Rightarrow> 16 word"
  crt_pos :: "16 word"
  addr_6845 :: nat
  ports :: "(nat \<times> 8 word) list"

definition outb :: "nat \<Rightarrow> 8 word \<Rightarrow> display \<Rightarrow> display" where
  "outb port v s = s\<lparr>ports := (port, v) # ports s\<rparr>"

text \<open>The busy-wait loops of the two ports are bounded and only read status registers.\<close>

definition serial_putc :: "32 word \<Rightarrow> display \<Rightarrow> display" where
  "serial_putc c s = outb COM1 (ucast c) s"

definition lpt_putc :: "32 word \<Rightarrow> display \<Rightarrow> display" where
  "lpt_putc c s = outb 0x37A 0x08 (outb 0x37A 0x0D (outb 0x378 (ucast c) s))"

definition crt_set :: "nat \<Rightarrow> 16 word \<Rightarrow> display \<Rightarrow> display" where
  "crt_set i w s = s\<lparr>crt_buf := (crt_buf s)(i := w)\<rparr>"

text \<open>The scroll at the end of cga_putc: a memmove of whole rows and a blank last row.\<close>

definition cga_scroll :: "display \<Rightarrow> display" where
  "cga_scroll s =
     (if CRT_SIZE \<le> unat (crt_pos s) then
        s\<lparr>crt_buf := (\<lambda>i. if i < CRT_SIZE - CRT_COLS then crt_buf s (i + CRT_COLS)
                           else if i < CRT_SIZE then 0x0720 else crt_buf s i),
          crt_pos := crt_pos s - of_nat CRT_COLS\<rparr>
      else s)"

definition cga_cursor :: "display \<Rightarrow> display" where
  "cga_cursor s =
     outb (addr_6845 s + 1) (ucast (crt_pos s))
       (outb (addr_6845 s) 15
         (outb (addr_6845 s + 1) (ucast (drop_bit 8 (crt_pos s)))
           (outb (addr_6845 s) 14 s)))"

text \<open>A character other than tab; the tab case calls cons_putc and so this function again.\<close>

definition cga_put1 :: "32 word \<Rightarrow> display \<Rightarrow> display" where
  "cga_put1 c s =
     (let c = (if c AND NOT 0xFF = 0 then c OR 0x0700 else c); k = c AND 0xFF
      in if k = 8 then
           (if crt_pos s > 0 then
              crt_set (unat (crt_pos s - 1)) (ucast ((c AND NOT 0xFF) OR 32)) (s\<lparr>crt_pos := crt_pos s - 1\<rparr>)
            else s)
         else if k = 10 then
           (let p = crt_pos s + of_nat CRT_COLS in s\<lparr>crt_pos := p - p mod of_nat CRT_COLS\<rparr>)
         else if k = 13 then s\<lparr>crt_pos := crt_pos s - crt_pos s mod of_nat CRT_COLS\<rparr>
         else crt_set (unat (crt_pos s)) (ucast c) (s\<lparr>crt_pos := crt_pos s + 1\<rparr>))"

definition cga_space :: "display \<Rightarrow> display" where
  "cga_space s = cga_cursor (cga_scroll (cga_put1 32 (lpt_putc 32 (serial_putc 32 s))))"

definition cga_putc :: "32 word \<Rightarrow> display \<Rightarrow> display" where
  "cga_putc c s =
     cga_cursor (cga_scroll
       (if (if c AND NOT 0xFF = 0 then c OR 0x0700 else c) AND 0xFF = 9
        then (cga_space ^^ 5) s else cga_put1 c s))"

definition cons_putc :: "32 word \<Rightarrow> display \<Rightarrow> display" where
  "cons_putc c s = cga_putc c (lpt_putc c (serial_putc c s))"

definition cputchar :: "32 word \<Rightarrow> display \<Rightarrow> display" where
  "cputchar c s = cons_putc c s"

text \<open>Outside of a call the cursor is on the screen, and no call writes outside of it.\<close>

definition cursor_ok :: "display \<Rightarrow> bool" where
  "cursor_ok s \<longleftrightarrow> unat (crt_pos s) < CRT_SIZE"

lemma outb_sel [simp]:
  "crt_pos (outb p v s) = crt_pos s" "crt_buf (outb p v s) = crt_buf s"
  "addr_6845 (outb p v s) = addr_6845 s"
  by (simp_all add: outb_def)

lemma crt_set_sel [simp]:
  "crt_pos (crt_set i w s) = crt_pos s" "crt_buf (crt_set i w s) = (crt_buf s)(i := w)"
  by (simp_all add: crt_set_def)

lemma cga_cursor_sel [simp]:
  "crt_pos (cga_cursor s) = crt_pos s" "crt_buf (cga_cursor s) = crt_buf s"
  by (simp_all add: cga_cursor_def)

lemma putc_sel [simp]:
  "crt_pos (serial_putc c s) = crt_pos s" "crt_buf (serial_putc c s) = crt_buf s"
  "crt_pos (lpt_putc c s) = crt_pos s" "crt_buf (lpt_putc c s) = crt_buf s"
  by (simp_all add: serial_putc_def lpt_putc_def)

lemma cga_put1_pos:
  assumes "cursor_ok s"
  shows "unat (crt_pos (cga_put1 c s)) < CRT_SIZE + CRT_COLS"
    and "CRT_SIZE \<le> i \<Longrightarrow> crt_buf (cga_put1 c s) i = crt_buf s i"
proof -
  let ?p = "crt_pos s"
  have p: "unat ?p < 2000" using assms by (simp add: cursor_ok_def crt_defs)
  have inc: "unat (?p + 1) = unat ?p + 1" "unat (?p + 80) = unat ?p + 80"
    using p by (simp_all add: unat_word_ariths)
  have dec: "?p > 0 \<Longrightarrow> unat (?p - 1) = unat ?p - 1"
    by (simp add: unat_sub word_le_nat_alt word_less_nat_alt)
  have cr: "unat (q - q mod 80) \<le> unat q" for q :: "16 word"
    by (simp add: unat_sub word_le_nat_alt unat_mod)
  have nl: "unat (?p + 80 - (?p + 80) mod 80) \<le> unat ?p + 80"
    using cr [of "?p + 80"] inc by simp
  show "unat (crt_pos (cga_put1 c s)) < CRT_SIZE + CRT_COLS"
    using p inc dec nl cr [of ?p] by (auto simp: cga_put1_def Let_def crt_defs)
  show "crt_buf (cga_put1 c s) i = crt_buf s i" if "CRT_SIZE \<le> i"
    using that p dec by (auto simp: cga_put1_def Let_def crt_defs)
qed

lemma cga_scroll_pos:
  assumes "unat (crt_pos s) < CRT_SIZE + CRT_COLS"
  shows "cursor_ok (cga_scroll s)"
    and "CRT_SIZE \<le> i \<Longrightarrow> crt_buf (cga_scroll s) i = crt_buf s i"
proof -
  have "2000 \<le> unat (crt_pos s) \<Longrightarrow> unat (crt_pos s - 80) = unat (crt_pos s) - 80"
    by (simp add: unat_sub word_le_nat_alt)
  then show "cursor_ok (cga_scroll s)"
    using assms by (auto simp: cursor_ok_def cga_scroll_def crt_defs)
  show "CRT_SIZE \<le> i \<Longrightarrow> crt_buf (cga_scroll s) i = crt_buf s i"
    by (simp add: cga_scroll_def crt_defs)
qed

lemma cga_step_pos:
  assumes "cursor_ok s"
  shows "cursor_ok (cga_cursor (cga_scroll (cga_put1 c s)))"
    and "CRT_SIZE \<le> i \<Longrightarrow> crt_buf (cga_cursor (cga_scroll (cga_put1 c s))) i = crt_buf s i"
  using cga_put1_pos [OF assms] cga_scroll_pos [of "cga_put1 c s"] by (simp_all add: cursor_ok_def)

lemma cga_space_pos:
  assumes "cursor_ok s"
  shows "cursor_ok (cga_space s)" and "CRT_SIZE \<le> i \<Longrightarrow> crt_buf (cga_space s) i = crt_buf s i"
  using cga_step_pos(1) [of "lpt_putc 32 (serial_putc 32 s)" 32]
    cga_step_pos(2) [of "lpt_putc 32 (serial_putc 32 s)" i 32] assms
  by (simp_all add: cga_space_def cursor_ok_def)

lemma cga_spaces_pos:
  assumes "cursor_ok s"
  shows "cursor_ok ((cga_space ^^ n) s) \<and> (\<forall>i \<ge> CRT_SIZE. crt_buf ((cga_space ^^ n) s) i = crt_buf s i)"
  using assms by (induction n) (simp_all add: cga_space_pos)


section \<open>Properties\<close>

definition demo_cons :: cons_state where
  "demo_cons = \<lparr>cons_buf = (\<lambda>_. 0), cons_rpos = 510, cons_wpos = 510, kbd_shift = 0, serial_exists = True\<rparr>"

lemma demo_cons_ok [simp]: "cons_ok demo_cons" "cons_queued demo_cons = []"
  by (simp_all add: demo_cons_def cons_ok_def cons_queued_def cons_len_def CONSBUFSIZE_def)

text \<open>
  C39. Input that fits in what is left of the 511 usable places of the console buffer is
  delivered completely and in order: after cons_intr has stored the characters a
  device returned, taking them out one by one gives what was waiting before and then every
  nonzero character, wherever the two positions stood in the circular buffer.
\<close>

theorem console_in_order:
  assumes "cons_ok s" "-1 \<notin> set cs"
    and "length (cons_queued s) + length (filter (\<lambda>c. c \<noteq> 0) cs) \<le> 511"
  shows "fst (take_all cons_take 511 (cons_intr cs s)) =
           cons_queued s @ map word_of_int (filter (\<lambda>c. c \<noteq> 0) cs)"
proof -
  let ?new = "map word_of_int (filter (\<lambda>c. c \<noteq> 0) cs) :: 8 word list"
  have put: "cons_ok (fold cons_put ?new s)" "cons_queued (fold cons_put ?new s) = cons_queued s @ ?new"
    using cring.put_all [OF assms(1), of ?new] assms(3) by simp_all
  then show ?thesis
    using cring.take_all_queued [OF put(1), of 511] assms(3)
    by (auto simp: cons_intr_fold [OF assms(2)])
qed

theorem console_in_order_witness:
  "fst (take_all cons_take 511 (cons_intr [104, 0, 105, 10] demo_cons)) = [104, 105, 10]"
  using console_in_order [of demo_cons "[104, 0, 105, 10]"] by simp

text \<open>
  The buffer has no guard against overrun: 512 characters arriving before any is read
  bring the write position around to the read position, so that all of them are lost and the buffer
  reads as empty.
\<close>

theorem console_overrun:
  assumes "cons_ok s" "cons_queued s = []" "-1 \<notin> set cs" "length (filter (\<lambda>c. c \<noteq> 0) cs) = 512"
  shows "cons_take (cons_intr cs s) = None"
proof -
  let ?new = "map word_of_int (filter (\<lambda>c. c \<noteq> 0) cs) :: 8 word list"
  have "cons_len s = 0" using assms(2) by (simp add: cons_queued_def)
  then have eq: "cons_wpos s = cons_rpos s" "cons_wpos s < 512"
    using assms(1) by (auto simp: cons_len_split cons_ok_def CONSBUFSIZE_def split: if_splits)
  have "cons_rpos (fold cons_put ?new s) = cons_wpos (fold cons_put ?new s)"
    using fold_put_pos [OF assms(1), of ?new] assms(4) eq by simp
  then show ?thesis by (simp add: cons_intr_fold [OF assms(3)] cons_take_def)
qed

theorem console_overrun_witness:
  "cons_take (cons_intr (replicate 512 97) demo_cons) = None"
  using console_overrun [of demo_cons "replicate 512 97"] by simp

text \<open>
  Writing any character to the console keeps the cursor on the 25 by 80 screen and writes no
  cell of the display buffer outside of it: not on a line feed in the last row, not on a tab, which
  writes five spaces and may scroll in the middle, and not on a backspace in the first cell.
\<close>

theorem cons_putc_on_screen:
  assumes "cursor_ok s"
  shows "cursor_ok (cons_putc c s) \<and> (\<forall>i \<ge> CRT_SIZE. crt_buf (cons_putc c s) i = crt_buf s i)"
proof -
  let ?s = "lpt_putc c (serial_putc c s)"
  let ?t = "(cga_space ^^ 5) ?s"
  have s: "cursor_ok ?s" using assms by (simp add: cursor_ok_def)
  have t: "cursor_ok ?t" "\<And>i. CRT_SIZE \<le> i \<Longrightarrow> crt_buf ?t i = crt_buf s i"
    using cga_spaces_pos [OF s, of 5] by auto
  have u: "unat (crt_pos ?t) < CRT_SIZE + CRT_COLS" using t(1) by (simp add: cursor_ok_def)
  show ?thesis
    using cga_step_pos(1) [OF s, of c] cga_step_pos(2) [OF s, of _ c] cga_scroll_pos [OF u] t
    by (simp add: cons_putc_def cga_putc_def cursor_ok_def del: funpow.simps)
qed

theorem cons_putc_on_screen_witness:
  "cursor_ok (cons_putc 10 \<lparr>crt_buf = (\<lambda>_. 0), crt_pos = 1999, addr_6845 = 0x3D4, ports = []\<rparr>)"
  using cons_putc_on_screen [of "\<lparr>crt_buf = (\<lambda>_. 0), crt_pos = 1999, addr_6845 = 0x3D4, ports = []\<rparr>" 10]
  by (simp add: cursor_ok_def crt_defs)

end
