(* ===== verification/KState.thy ===== *)
theory KState
  imports Mmu Console
begin

text \<open>
  The kernel's data: the trap frame of inc/trap.h, the environment structure of inc/env.h,
  the page descriptor of inc/memlayout.h, and one record holding the kernel's global
  variables. Pointers into the arrays pages and envs are indices
  (None is NULL). A pointer to a page directory or page table is the number of the
  physical frame it addresses, which is what KADDR and PADDR convert from and to; a pointer
  to an entry is the frame and the entry's index. Physical memory is a function from frame
  number and 32-bit word index.
\<close>

record PushRegs =
  reg_edi :: "32 word"
  reg_esi :: "32 word"
  reg_ebp :: "32 word"
  reg_oesp :: "32 word"
  reg_ebx :: "32 word"
  reg_edx :: "32 word"
  reg_ecx :: "32 word"
  reg_eax :: "32 word"

record Trapframe =
  tf_regs :: PushRegs
  tf_es :: "16 word"
  tf_ds :: "16 word"
  tf_trapno :: "32 word"
  tf_err :: "32 word"
  tf_eip :: "32 word"
  tf_cs :: "16 word"
  tf_eflags :: "32 word"
  tf_esp :: "32 word"
  tf_ss :: "16 word"

definition zero_regs :: PushRegs where
  "zero_regs = \<lparr>reg_edi = 0, reg_esi = 0, reg_ebp = 0, reg_oesp = 0, reg_ebx = 0,
     reg_edx = 0, reg_ecx = 0, reg_eax = 0\<rparr>"

definition zero_tf :: Trapframe where
  "zero_tf = \<lparr>tf_regs = zero_regs, tf_es = 0, tf_ds = 0, tf_trapno = 0, tf_err = 0,
     tf_eip = 0, tf_cs = 0, tf_eflags = 0, tf_esp = 0, tf_ss = 0\<rparr>"

datatype env_state = ENV_FREE | ENV_DYING | ENV_RUNNABLE | ENV_RUNNING | ENV_NOT_RUNNABLE

datatype EnvType = ENV_TYPE_IDLE | ENV_TYPE_KERNEL | ENV_TYPE_USER | ENV_TYPE_FS

definition LOG2NENV :: nat where "LOG2NENV = 10"
definition NENV :: nat where "NENV = 1024"

definition ENVX :: "32 word \<Rightarrow> 32 word" where
  "ENVX envid = envid AND (of_nat NENV - 1)"

record Env =
  env_tf :: Trapframe
  env_link :: "nat option"
  env_id :: "32 word"
  env_parent_id :: "32 word"
  env_type :: EnvType
  env_status :: env_state
  env_runs :: "32 word"
  env_pgdir :: "nat option"
  env_pgfault_upcall :: "32 word"
  env_ipc_recving :: bool
  env_ipc_dstva :: "32 word"
  env_ipc_value :: "32 word"
  env_ipc_from :: "32 word"
  env_ipc_perm :: "32 word"

record PageInfo =
  pp_link :: "nat option"
  pp_ref :: "16 word"

text \<open>
  What the kernel prints, by format string and with its arguments; the console itself and its
  input buffer are in Console.
\<close>

datatype kmsg =
    New_env "32 word" "32 word"
  | Free_env "32 word" "32 word"
  | Exiting "32 word"
  | Destroying "32 word" "32 word"
  | User_output "8 word list"
  | Mem_check_failed "32 word" "32 word"
  | User_fault "32 word" "32 word" "32 word"
  | Trap_frame Trapframe
  | Spurious_interrupt
  | No_runnable_env

record kstate =
  npages :: nat
  npages_basemem :: nat
  pages :: "nat \<Rightarrow> PageInfo"
  page_free_list :: "nat option"
  nextfree :: "32 word"
  mem :: "nat \<Rightarrow> nat \<Rightarrow> 32 word"
  kern_pgdir :: nat
  cr3 :: nat
  invlpgs :: "32 word list"
  user_mem_check_addr :: "32 word"
  envs :: "nat \<Rightarrow> Env"
  curenv :: "nat option"
  env_free_list :: "nat option"
  console :: cons_state
  kmsgs :: "kmsg list"
  vsys_gettime :: int

section \<open>Updates of one field of one array element\<close>

definition set_link :: "nat \<Rightarrow> nat option \<Rightarrow> kstate \<Rightarrow> kstate" where
  "set_link i l s = s\<lparr>pages := (pages s)(i := (pages s i)\<lparr>pp_link := l\<rparr>)\<rparr>"

definition set_ref :: "nat \<Rightarrow> 16 word \<Rightarrow> kstate \<Rightarrow> kstate" where
  "set_ref i r s = s\<lparr>pages := (pages s)(i := (pages s i)\<lparr>pp_ref := r\<rparr>)\<rparr>"

definition store :: "nat \<Rightarrow> nat \<Rightarrow> 32 word \<Rightarrow> kstate \<Rightarrow> kstate" where
  "store f i w s = s\<lparr>mem := (mem s)(f := (mem s f)(i := w))\<rparr>"

definition say :: "kmsg \<Rightarrow> kstate \<Rightarrow> kstate" where
  "say m s = s\<lparr>kmsgs := m # kmsgs s\<rparr>"

definition set_env :: "nat \<Rightarrow> Env \<Rightarrow> kstate \<Rightarrow> kstate" where
  "set_env i e s = s\<lparr>envs := (envs s)(i := e)\<rparr>"

lemma set_link_sel [simp]:
  "pages (set_link i l s) = (pages s)(i := (pages s i)\<lparr>pp_link := l\<rparr>)"
  "mem (set_link i l s) = mem s" "npages (set_link i l s) = npages s"
  "npages_basemem (set_link i l s) = npages_basemem s"
  "page_free_list (set_link i l s) = page_free_list s"
  "envs (set_link i l s) = envs s" "curenv (set_link i l s) = curenv s"
  "env_free_list (set_link i l s) = env_free_list s"
  "kern_pgdir (set_link i l s) = kern_pgdir s" "invlpgs (set_link i l s) = invlpgs s"
  "cr3 (set_link i l s) = cr3 s"
  by (simp_all add: set_link_def)

lemma set_ref_sel [simp]:
  "pages (set_ref i r s) = (pages s)(i := (pages s i)\<lparr>pp_ref := r\<rparr>)"
  "mem (set_ref i r s) = mem s" "npages (set_ref i r s) = npages s"
  "npages_basemem (set_ref i r s) = npages_basemem s"
  "page_free_list (set_ref i r s) = page_free_list s"
  "envs (set_ref i r s) = envs s" "curenv (set_ref i r s) = curenv s"
  "env_free_list (set_ref i r s) = env_free_list s"
  "kern_pgdir (set_ref i r s) = kern_pgdir s" "invlpgs (set_ref i r s) = invlpgs s"
  "cr3 (set_ref i r s) = cr3 s"
  by (simp_all add: set_ref_def)

lemma store_sel [simp]:
  "pages (store f i w s) = pages s"
  "mem (store f i w s) = (mem s)(f := (mem s f)(i := w))"
  "npages (store f i w s) = npages s"
  "npages_basemem (store f i w s) = npages_basemem s"
  "page_free_list (store f i w s) = page_free_list s"
  "envs (store f i w s) = envs s" "curenv (store f i w s) = curenv s"
  "env_free_list (store f i w s) = env_free_list s"
  "kern_pgdir (store f i w s) = kern_pgdir s" "invlpgs (store f i w s) = invlpgs s"
  "cr3 (store f i w s) = cr3 s"
  by (simp_all add: store_def)

lemma set_env_sel [simp]:
  "pages (set_env i e s) = pages s" "mem (set_env i e s) = mem s"
  "npages (set_env i e s) = npages s"
  "page_free_list (set_env i e s) = page_free_list s"
  "envs (set_env i e s) = (envs s)(i := e)" "curenv (set_env i e s) = curenv s"
  "env_free_list (set_env i e s) = env_free_list s"
  "kern_pgdir (set_env i e s) = kern_pgdir s" "invlpgs (set_env i e s) = invlpgs s"
  "cr3 (set_env i e s) = cr3 s"
  by (simp_all add: set_env_def)

lemma say_sel [simp]:
  "pages (say m s) = pages s" "mem (say m s) = mem s" "npages (say m s) = npages s"
  "page_free_list (say m s) = page_free_list s" "envs (say m s) = envs s"
  "curenv (say m s) = curenv s" "env_free_list (say m s) = env_free_list s"
  "kern_pgdir (say m s) = kern_pgdir s" "invlpgs (say m s) = invlpgs s" "cr3 (say m s) = cr3 s"
  by (simp_all add: say_def)

section \<open>A concrete machine for the examples\<close>

text \<open>
  The state at power-on of a machine with n page frames: all memory zero, no page
  and no environment in use. The examples that accompany the properties start from it.
\<close>

definition blank_env :: Env where
  "blank_env = \<lparr>env_tf = zero_tf, env_link = None, env_id = 0, env_parent_id = 0,
     env_type = ENV_TYPE_IDLE, env_status = ENV_FREE, env_runs = 0, env_pgdir = None,
     env_pgfault_upcall = 0, env_ipc_recving = False, env_ipc_dstva = 0, env_ipc_value = 0,
     env_ipc_from = 0, env_ipc_perm = 0\<rparr>"

definition blank_state :: "nat \<Rightarrow> nat \<Rightarrow> kstate" where
  "blank_state n base =
     \<lparr>npages = n, npages_basemem = base, pages = (\<lambda>_. \<lparr>pp_link = None, pp_ref = 0\<rparr>),
      page_free_list = None, nextfree = 0, mem = (\<lambda>_ _. 0), kern_pgdir = 0, cr3 = 0,
      invlpgs = [], user_mem_check_addr = 0, envs = (\<lambda>_. blank_env), curenv = None,
      env_free_list = None,
      console = \<lparr>cons_buf = (\<lambda>_. 0), cons_rpos = 0, cons_wpos = 0, kbd_shift = 0, serial_exists = True\<rparr>,
      kmsgs = [], vsys_gettime = 0\<rparr>"

end
