(* ===== verification/Pmap.thy ===== *)
theory Pmap
  imports KState
begin

text \<open>
  kern/pmap.c: the boot-time allocator, the physical page allocator with its free list and
  reference counts, and the two-level page tables with the operations that walk, map, look
  up and unmap. Definitions only; the proofs are in Pmap_Alloc, Pmap_Inv and Pmap_Map.
\<close>

section \<open>Boot-time allocation and the physical page allocator\<close>

text \<open>end_sym is the linker's symbol end.\<close>

definition boot_alloc :: "32 word \<Rightarrow> 32 word \<Rightarrow> kstate \<Rightarrow> (32 word, kstate) kres" where
  "boot_alloc end_sym n s =
     (let s1 = (if nextfree s = 0 then s\<lparr>nextfree := ROUNDUP end_sym PGSIZE\<rparr> else s);
          result = nextfree s1
      in if n > 0 then
           (let s2 = s1\<lparr>nextfree := nextfree s1 + ROUNDUP n PGSIZE\<rparr>
            in if nextfree s2 \<ge> KERNBASE + of_nat (npages s2) * PGSIZE
               then Exit (Panicked ''boot_alloc: out of memory'') s2
               else Ret result s2)
         else Ret result s1)"

text \<open>The two loops of page_init; ext_mem is the first page after the kernel.\<close>

fun page_init_free :: "nat \<Rightarrow> nat \<Rightarrow> nat \<Rightarrow> kstate \<Rightarrow> kstate" where
  "page_init_free 0 i ext_mem s = s"
| "page_init_free (Suc n) i ext_mem s =
     page_init_free n (Suc i) ext_mem
       (if i < npages_basemem s \<or> i \<ge> ext_mem
        then (set_link i (page_free_list s) (set_ref i 0 s))\<lparr>page_free_list := Some i\<rparr>
        else s)"

fun page_init_used :: "nat \<Rightarrow> nat \<Rightarrow> kstate \<Rightarrow> kstate" where
  "page_init_used 0 i s = s"
| "page_init_used (Suc n) i s = page_init_used n (Suc i) (set_ref i 1 s)"

definition page_init :: "32 word \<Rightarrow> kstate \<Rightarrow> (unit, kstate) kres" where
  "page_init end_sym s =
     kbind (boot_alloc end_sym 0 s) (\<lambda>kva s.
       case PADDR kva of
         None \<Rightarrow> Exit (Panicked ''PADDR called with invalid kva'') s
       | Some pa \<Rightarrow>
           (let ext_mem = unat (PGNUM pa);
                s1 = page_init_free (npages s - 1) 1 ext_mem s;
                s2 = set_ref 0 1 s1
            in Ret () (page_init_used (ext_mem - npages_basemem s2) (npages_basemem s2) s2)))"

definition ALLOC_ZERO :: "32 word" where "ALLOC_ZERO = 1"

text \<open>memset(page2kva(pp), 0, PGSIZE); page2kva panics on an invalid frame.\<close>

definition memset_page :: "nat \<Rightarrow> 32 word \<Rightarrow> kstate \<Rightarrow> (unit, kstate) kres" where
  "memset_page pp w s =
     (case page2kva (npages s) pp of
        None \<Rightarrow> Exit (Panicked ''KADDR called with invalid pa'') s
      | Some kva \<Rightarrow> Ret () (s\<lparr>mem := (mem s)(pp := (\<lambda>_. w))\<rparr>))"

definition page_alloc :: "32 word \<Rightarrow> kstate \<Rightarrow> (nat option, kstate) kres" where
  "page_alloc alloc_flags s =
     (case page_free_list s of
        None \<Rightarrow> Ret None s
      | Some result \<Rightarrow>
          (let s1 = s\<lparr>page_free_list := pp_link (pages s result)\<rparr>;
               s2 = set_link result None s1
           in if alloc_flags AND ALLOC_ZERO \<noteq> 0
              then kbind (memset_page result 0 s2) (\<lambda>_ s3. Ret (Some result) s3)
              else Ret (Some result) s2))"

definition page_free :: "nat \<Rightarrow> kstate \<Rightarrow> (unit, kstate) kres" where
  "page_free pp s =
     (if pp_ref (pages s pp) \<noteq> 0 \<or> pp_link (pages s pp) \<noteq> None
      then Exit (Panicked ''pp->pp_ref is nonzero or pp->pp_ref is not NULL'') s
      else Ret () ((set_link pp (page_free_list s) s)\<lparr>page_free_list := Some pp\<rparr>))"

definition page_decref :: "nat \<Rightarrow> kstate \<Rightarrow> (unit, kstate) kres" where
  "page_decref pp s =
     (let s1 = set_ref pp (pp_ref (pages s pp) - 1) s
      in if pp_ref (pages s1 pp) = 0 then page_free pp s1 else Ret () s1)"

section \<open>Page tables\<close>

text \<open>The frame a kernel virtual address above KERNBASE points into.\<close>

definition kva_frame :: "32 word \<Rightarrow> nat" where
  "kva_frame kva = unat (PGNUM (kva - KERNBASE))"

definition inc_ref :: "nat \<Rightarrow> kstate \<Rightarrow> kstate" where
  "inc_ref pp s = set_ref pp (pp_ref (pages s pp) + 1) s"

definition pgdir_walk ::
    "nat \<Rightarrow> 32 word \<Rightarrow> bool \<Rightarrow> kstate \<Rightarrow> ((nat \<times> nat) option, kstate) kres" where
  "pgdir_walk pgdir va create s =
     (let pde_t = unat (PDX va); pte_t_num = unat (PTX va)
      in kbind
           (if mem s pgdir pde_t AND PTE_P = 0 then
              (if create then
                 kbind (page_alloc ALLOC_ZERO s) (\<lambda>pg s.
                   case pg of
                     None \<Rightarrow> Ret False s
                   | Some pg \<Rightarrow>
                       Ret True (store pgdir pde_t (page2pa pg OR PTE_P OR PTE_W OR PTE_U)
                                  (inc_ref pg s)))
               else Ret False s)
            else Ret True s)
           (\<lambda>present s.
              if \<not> present then Ret None s
              else (case KADDR (npages s) (PTE_ADDR (mem s pgdir pde_t)) of
                      None \<Rightarrow> Exit (Panicked ''KADDR called with invalid pa'') s
                    | Some p \<Rightarrow> Ret (Some (kva_frame p, pte_t_num)) s)))"

text \<open>
  The loop of boot_map_region. The counter is a 32-bit word stepping by a page, so
  after 2^20 steps it has wrapped around the address space: the loop never ends.
\<close>

fun boot_map_loop ::
    "nat \<Rightarrow> nat \<Rightarrow> 32 word \<Rightarrow> 32 word \<Rightarrow> 32 word \<Rightarrow> 32 word \<Rightarrow> 32 word \<Rightarrow> kstate
      \<Rightarrow> (unit, kstate) kres" where
  "boot_map_loop fuel pgdir va sz pa perm i s =
     (if \<not> i < sz then Ret () s
      else if fuel = 0 then Exit Spins s
      else kbind (pgdir_walk pgdir (va + i) True s) (\<lambda>pte s.
             case pte of
               None \<Rightarrow> Exit Fault s
             | Some (f, j) \<Rightarrow>
                 boot_map_loop (fuel - 1) pgdir va sz pa perm (i + PGSIZE)
                   (store f j ((pa + i) OR perm OR PTE_P) s)))"

declare boot_map_loop.simps [simp del]

definition boot_map_region ::
    "nat \<Rightarrow> 32 word \<Rightarrow> 32 word \<Rightarrow> 32 word \<Rightarrow> 32 word \<Rightarrow> kstate \<Rightarrow> (unit, kstate) kres" where
  "boot_map_region pgdir va sz pa perm s = boot_map_loop (2 ^ 20) pgdir va sz pa perm 0 s"

definition page_lookup ::
    "nat \<Rightarrow> 32 word \<Rightarrow> kstate \<Rightarrow> (nat option \<times> (nat \<times> nat) option, kstate) kres" where
  "page_lookup pgdir va s =
     kbind (pgdir_walk pgdir va False s) (\<lambda>pte s.
       case pte of
         None \<Rightarrow> Ret (None, None) s
       | Some (f, j) \<Rightarrow>
           if mem s f j AND PTE_P = 0 then Ret (None, Some (f, j)) s
           else (case pa2page (npages s) (PTE_ADDR (mem s f j)) of
                   None \<Rightarrow> Exit (Panicked ''pa2page called with invalid pa'') s
                 | Some pp \<Rightarrow> Ret (Some pp, Some (f, j)) s))"

text \<open>invlpg is recorded: the addresses whose TLB entry was flushed, latest first.\<close>

definition tlb_invalidate :: "nat \<Rightarrow> 32 word \<Rightarrow> kstate \<Rightarrow> kstate" where
  "tlb_invalidate pgdir va s =
     (if (case curenv s of None \<Rightarrow> True | Some c \<Rightarrow> env_pgdir (envs s c) = Some pgdir)
      then s\<lparr>invlpgs := va # invlpgs s\<rparr>
      else s)"

definition page_remove :: "nat \<Rightarrow> 32 word \<Rightarrow> kstate \<Rightarrow> (unit, kstate) kres" where
  "page_remove pgdir va s =
     kbind (page_lookup pgdir va s) (\<lambda>r s.
       case r of
         (Some pg, Some (f, j)) \<Rightarrow>
           if mem s f j AND PTE_P = 0 then Ret () s
           else kbind (page_decref pg s) (\<lambda>_ s.
                  Ret () (tlb_invalidate pgdir va (store f j 0 s)))
       | _ \<Rightarrow> Ret () s)"

definition page_insert ::
    "nat \<Rightarrow> nat \<Rightarrow> 32 word \<Rightarrow> 32 word \<Rightarrow> kstate \<Rightarrow> (int, kstate) kres" where
  "page_insert pgdir pp va perm s =
     kbind (pgdir_walk pgdir va True s) (\<lambda>pte s.
       case pte of
         None \<Rightarrow> Ret (- E_NO_MEM) s
       | Some (f, j) \<Rightarrow>
           (let s1 = inc_ref pp s
            in kbind (if mem s1 f j AND PTE_P \<noteq> 0 then page_remove pgdir va s1 else Ret () s1)
                 (\<lambda>_ s2. Ret 0 (store f j (page2pa pp OR perm OR PTE_P) s2))))"

section \<open>Checking user memory\<close>

text \<open>
  The loop of user_mem_check: result and, on failure, user_mem_check_addr.
  As above, more than 2^20 page steps never happen without wrapping.
\<close>

fun user_mem_check_loop ::
    "nat \<Rightarrow> nat \<Rightarrow> 32 word \<Rightarrow> 32 word \<Rightarrow> 32 word \<Rightarrow> 32 word \<Rightarrow> kstate \<Rightarrow> (int, kstate) kres" where
  "user_mem_check_loop fuel pgdir va end_va perm i s =
     (if \<not> i < end_va then Ret 0 s
      else if fuel = 0 then Exit Spins s
      else kbind (pgdir_walk pgdir i False s) (\<lambda>pte s.
             if i \<ge> ULIM
                \<or> (case pte of
                     None \<Rightarrow> True
                   | Some (f, j) \<Rightarrow> mem s f j AND PTE_P = 0 \<or> mem s f j AND perm \<noteq> perm)
             then Ret (- E_FAULT) (s\<lparr>user_mem_check_addr := (if i < va then va else i)\<rparr>)
             else user_mem_check_loop (fuel - 1) pgdir va end_va perm (i + PGSIZE) s))"

declare user_mem_check_loop.simps [simp del]

definition user_mem_check ::
    "nat \<Rightarrow> 32 word \<Rightarrow> 32 word \<Rightarrow> 32 word \<Rightarrow> kstate \<Rightarrow> (int, kstate) kres" where
  "user_mem_check env va len perm s =
     (let begin_va = ROUNDDOWN va PGSIZE; end_va = ROUNDUP (va + len) PGSIZE
      in case env_pgdir (envs s env) of
           None \<Rightarrow> (if begin_va < end_va then Exit Fault s else Ret 0 s)
         | Some pgdir \<Rightarrow> user_mem_check_loop (2 ^ 20) pgdir va end_va perm begin_va s)"

end
