(* ===== verification/Pmap_Alloc.thy ===== *)
theory Pmap_Alloc
  imports Pmap
begin

text \<open>
  The physical page allocator implements a stack of free pages. The interface is the
  locale page_pool: the pages that can still be handed out, and the laws of taking
  and giving back; page_alloc and page_free of kern/pmap.c are shown to satisfy it
  on every state whose free list is well formed.
\<close>

section \<open>The interface: a pool of free pages\<close>

text \<open>
  pool s xs: in state s exactly the pages xs are free, in the
  order they will be handed out. idle s p: page p may be given back.
\<close>

locale page_pool =
  fixes pool :: "'s \<Rightarrow> 'p list \<Rightarrow> bool"
    and idle :: "'s \<Rightarrow> 'p \<Rightarrow> bool"
    and take_page :: "'s \<Rightarrow> ('p option, 's) kres"
    and give_page :: "'p \<Rightarrow> 's \<Rightarrow> (unit, 's) kres"
  assumes pool_distinct: "pool s xs \<Longrightarrow> distinct xs"
    and pool_unique: "pool s xs \<Longrightarrow> pool s ys \<Longrightarrow> xs = ys"
    and take_empty: "pool s [] \<Longrightarrow> take_page s = Ret None s"
    and take_cons: "pool s (x # xs) \<Longrightarrow> \<exists>t. take_page s = Ret (Some x) t \<and> pool t xs \<and> idle t x"
    and give_idle: "pool s xs \<Longrightarrow> idle s x \<Longrightarrow> x \<notin> set xs \<Longrightarrow>
                      \<exists>t. give_page x s = Ret () t \<and> pool t (x # xs)"
begin

lemma take_cases:
  assumes "pool s xs"
  obtains "xs = []" "take_page s = Ret None s"
  | x ys t where "xs = x # ys" "take_page s = Ret (Some x) t" "pool t ys" "idle t x" "x \<notin> set ys"
  using assms take_empty take_cons pool_distinct by (cases xs) fastforce+

lemma take_returns: "pool s xs \<Longrightarrow> \<exists>r t. take_page s = Ret r t \<and> (r = None \<longleftrightarrow> xs = [])"
  by (erule take_cases) auto

lemma take_not_free:
  assumes "pool s xs" "take_page s = Ret (Some p) t"
  shows "p \<in> set xs \<and> pool t (tl xs) \<and> p \<notin> set (tl xs)"
  using assms by (auto elim: take_cases)

lemma give_take:
  assumes "pool s xs" "idle s p" "p \<notin> set xs"
  shows "\<exists>t u. give_page p s = Ret () t \<and> take_page t = Ret (Some p) u \<and> pool u xs"
  using give_idle [OF assms] take_cons by blast

lemma take_give:
  assumes "pool s (p # xs)"
  shows "\<exists>t u. take_page s = Ret (Some p) t \<and> give_page p t = Ret () u \<and> pool u (p # xs)"
proof -
  obtain t where t: "take_page s = Ret (Some p) t" "pool t xs" "idle t p"
    using take_cons [OF assms] by blast
  have "p \<notin> set xs" using pool_distinct [OF assms] by simp
  then show ?thesis using t give_idle by blast
qed

lemma take_twice_differ:
  assumes "pool s xs" "take_page s = Ret (Some p) t" "take_page t = Ret (Some q) u"
  shows "p \<noteq> q"
  using take_not_free [OF assms(1,2)] take_not_free [of t "tl xs" q u] assms(3) by auto

end

section \<open>The free list of kern/pmap.c\<close>

definition free_list_ok :: "kstate \<Rightarrow> nat list \<Rightarrow> bool" where
  "free_list_ok s xs \<longleftrightarrow>
     npages s \<le> 2 ^ 20 \<and>
     chain (\<lambda>i. pp_link (pages s i)) (page_free_list s) xs \<and> distinct xs \<and>
     (\<forall>x \<in> set xs. x < npages s \<and> pp_ref (pages s x) = 0) \<and>
     (\<forall>x. x \<notin> set xs \<longrightarrow> pp_link (pages s x) = None)"

definition idle_page :: "kstate \<Rightarrow> nat \<Rightarrow> bool" where
  "idle_page s p \<longleftrightarrow> p < npages s \<and> pp_ref (pages s p) = 0"

lemma free_list_ok_distinct: "free_list_ok s xs \<Longrightarrow> distinct xs"
  by (simp add: free_list_ok_def)

lemma free_list_ok_unique: "free_list_ok s xs \<Longrightarrow> free_list_ok s ys \<Longrightarrow> xs = ys"
  unfolding free_list_ok_def by (blast intro: chain_unique)

lemma page2kva_valid: "pp < npages s \<Longrightarrow> npages s \<le> 2 ^ 20 \<Longrightarrow> page2kva (npages s) pp \<noteq> None"
  by (simp add: page2kva_def KADDR_def unat_PGNUM_page2pa)

text \<open>The state after taking the head of the free list.\<close>

definition pop_free :: "nat \<Rightarrow> kstate \<Rightarrow> kstate" where
  "pop_free x s = set_link x None (s\<lparr>page_free_list := pp_link (pages s x)\<rparr>)"

lemma pop_free_sel [simp]:
  "mem (pop_free x s) = mem s" "npages (pop_free x s) = npages s"
  "pp_ref (pages (pop_free x s) p) = pp_ref (pages s p)"
  "envs (pop_free x s) = envs s" "curenv (pop_free x s) = curenv s"
  "kern_pgdir (pop_free x s) = kern_pgdir s" "env_free_list (pop_free x s) = env_free_list s"
  "invlpgs (pop_free x s) = invlpgs s" "cr3 (pop_free x s) = cr3 s"
  by (simp_all add: pop_free_def)

lemma page_alloc_empty: "free_list_ok s [] \<Longrightarrow> page_alloc fl s = Ret None s"
  by (simp add: page_alloc_def free_list_ok_def)

lemma page_alloc_cons:
  assumes "free_list_ok s (x # xs)"
  shows "page_alloc fl s =
    Ret (Some x) (if fl AND ALLOC_ZERO \<noteq> 0
                  then (pop_free x s)\<lparr>mem := (mem s)(x := (\<lambda>_. 0))\<rparr> else pop_free x s)"
proof -
  have hd: "page_free_list s = Some x" and x: "x < npages s" "npages s \<le> 2 ^ 20"
    using assms by (auto simp: free_list_ok_def)
  obtain kva where "page2kva (npages s) x = Some kva"
    using page2kva_valid [OF x] by auto
  then show ?thesis
    by (simp add: page_alloc_def hd memset_page_def pop_free_def)
qed

lemma pop_free_ok:
  assumes "free_list_ok s (x # xs)"
  shows "free_list_ok (pop_free x s) xs"
  using assms by (auto simp: free_list_ok_def pop_free_def fun_upd_def intro: chain_cong [THEN iffD1, rotated])

lemma free_list_ok_mem [simp]: "free_list_ok (s\<lparr>mem := m\<rparr>) xs \<longleftrightarrow> free_list_ok s xs"
  by (simp add: free_list_ok_def)

lemma free_list_ok_store [simp]: "free_list_ok (store f i w s) xs \<longleftrightarrow> free_list_ok s xs"
  by (simp add: free_list_ok_def)

lemma page_free_push:
  assumes "free_list_ok s xs" "idle_page s p" "p \<notin> set xs"
  shows "page_free p s = Ret () ((set_link p (page_free_list s) s)\<lparr>page_free_list := Some p\<rparr>)"
    and "free_list_ok ((set_link p (page_free_list s) s)\<lparr>page_free_list := Some p\<rparr>) (p # xs)"
proof -
  show "page_free p s = Ret () ((set_link p (page_free_list s) s)\<lparr>page_free_list := Some p\<rparr>)"
    using assms by (simp add: page_free_def idle_page_def free_list_ok_def)
  have "chain (\<lambda>i. pp_link (pages (set_link p (page_free_list s) s) i)) (page_free_list s) xs"
    using assms by (auto simp: free_list_ok_def intro: chain_cong [THEN iffD1, rotated])
  then show "free_list_ok ((set_link p (page_free_list s) s)\<lparr>page_free_list := Some p\<rparr>) (p # xs)"
    using assms by (auto simp: free_list_ok_def idle_page_def)
qed

interpretation kpool: page_pool free_list_ok idle_page "page_alloc fl" page_free for fl
proof unfold_locales
  fix s xs ys x
  show "free_list_ok s xs \<Longrightarrow> distinct xs"
    by (rule free_list_ok_distinct)
  show "free_list_ok s xs \<Longrightarrow> free_list_ok s ys \<Longrightarrow> xs = ys"
    by (rule free_list_ok_unique)
  show "free_list_ok s [] \<Longrightarrow> page_alloc fl s = Ret None s"
    by (rule page_alloc_empty)
  show "\<exists>t. page_alloc fl s = Ret (Some x) t \<and> free_list_ok t xs \<and> idle_page t x"
    if "free_list_ok s (x # xs)"
    using that pop_free_ok [OF that] unfolding page_alloc_cons [OF that]
    by (auto simp: idle_page_def free_list_ok_def)
  show "free_list_ok s xs \<Longrightarrow> idle_page s x \<Longrightarrow> x \<notin> set xs \<Longrightarrow>
      \<exists>t. page_free x s = Ret () t \<and> free_list_ok t (x # xs)"
    using page_free_push by blast
qed

section \<open>Building the free list: page_init\<close>

lemma set_ref_free_list_ok:
  "free_list_ok s xs \<Longrightarrow> i \<notin> set xs \<Longrightarrow> free_list_ok (set_ref i r s) xs"
  by (auto simp: free_list_ok_def intro: chain_cong [THEN iffD1, rotated])

lemma page_init_free_npages [simp]:
  "npages (page_init_free n i e s) = npages s"
  "npages_basemem (page_init_free n i e s) = npages_basemem s"
  by (induction n i e s rule: page_init_free.induct) simp_all

lemma page_init_free_ok:
  assumes "free_list_ok s xs" "\<forall>x \<in> set xs. x < i" "i + n \<le> npages s"
  shows "free_list_ok (page_init_free n i e s)
           (rev (filter (\<lambda>p. p < npages_basemem s \<or> p \<ge> e) [i..<i + n]) @ xs)"
  using assms
proof (induction n arbitrary: i s xs)
  case 0
  then show ?case by simp
next
  case (Suc n)
  let ?P = "\<lambda>p. p < npages_basemem s \<or> p \<ge> e"
  have ups: "[i..<Suc (i + n)] = i # [Suc i..<Suc (i + n)]"
    by (simp add: upt_conv_Cons del: upt_Suc)
  show ?case
  proof (cases "?P i")
    case True
    have "i \<notin> set xs" using Suc.prems(2) by auto
    moreover have "free_list_ok (set_ref i 0 s) xs"
      using Suc.prems(1) \<open>i \<notin> set xs\<close> by (rule set_ref_free_list_ok)
    moreover have "idle_page (set_ref i 0 s) i"
      using Suc.prems(3) by (simp add: idle_page_def)
    ultimately have "free_list_ok
        ((set_link i (page_free_list s) (set_ref i 0 s))\<lparr>page_free_list := Some i\<rparr>) (i # xs)"
      using page_free_push(2) [of "set_ref i 0 s" xs i] by simp
    from Suc.IH [OF this, of "Suc i"] Suc.prems(2,3) True show ?thesis
      by (auto simp: ups less_Suc_eq simp del: upt_Suc)
  next
    case False
    then show ?thesis
      using Suc.IH [of s xs "Suc i"] Suc.prems by (auto simp: ups less_Suc_eq simp del: upt_Suc)
  qed
qed

lemma page_init_free_ref:
  "pp_ref (pages (page_init_free n i e s) p) =
     (if i \<le> p \<and> p < i + n \<and> (p < npages_basemem s \<or> p \<ge> e) then 0 else pp_ref (pages s p))"
  by (induction n i e s rule: page_init_free.induct) auto

lemma page_init_used_ok:
  assumes "free_list_ok s xs" "\<forall>x \<in> set xs. x < i \<or> i + n \<le> x"
  shows "free_list_ok (page_init_used n i s) xs"
  using assms
proof (induction n i s rule: page_init_used.induct)
  case (1 i s)
  then show ?case by simp
next
  case (2 n i s)
  have "free_list_ok (set_ref i 1 s) xs"
    using "2.prems" by (intro set_ref_free_list_ok) auto
  then show ?case using "2.IH" "2.prems"(2) by (simp add: less_Suc_eq_le) fastforce
qed

lemma page_init_used_ref:
  "pp_ref (pages (page_init_used n i s) p) =
     (if i \<le> p \<and> p < i + n then 1 else pp_ref (pages s p))"
  by (induction n i s rule: page_init_used.induct) auto

lemma page_init_used_npages [simp]: "npages (page_init_used n i s) = npages s"
  by (induction n i s rule: page_init_used.induct) simp_all

lemma page_init_free_list_refs:
  assumes "npages s \<le> 2 ^ 20" "0 < npages s"
    and "\<forall>i. pages s i = \<lparr>pp_link = None, pp_ref = 0\<rparr>" "page_free_list s = None"
    and "KERNBASE \<le> nextfree s"
  shows "\<exists>t. page_init end_sym s = Ret () t \<and>
     free_list_ok t (rev (filter (\<lambda>p. p < npages_basemem s \<or> kva_frame (nextfree s) \<le> p)
                            [1..<npages s])) \<and>
     (\<forall>p. pp_ref (pages t p) =
            (if p = 0 \<or> (npages_basemem s \<le> p \<and> p < kva_frame (nextfree s)) then 1 else 0))"
proof -
  let ?e = "kva_frame (nextfree s)"
  let ?free = "rev (filter (\<lambda>p. p < npages_basemem s \<or> ?e \<le> p) [1..<npages s])"
  let ?s1 = "page_init_free (npages s - 1) 1 ?e s"
  let ?s2 = "set_ref 0 1 ?s1"
  let ?t = "page_init_used (?e - npages_basemem s) (npages_basemem s) ?s2"
  have "nextfree s \<noteq> 0" using assms(5) by (auto simp: layout_defs)
  then have run: "page_init end_sym s = Ret () ?t"
    using assms(5) by (simp add: page_init_def boot_alloc_def PADDR_def kva_frame_def Let_def not_less)
  have "free_list_ok s []" using assms(1,3,4) by (simp add: free_list_ok_def)
  then have "free_list_ok ?s1 ?free"
    using page_init_free_ok [of s "[]" 1 "npages s - 1" ?e] assms(2) by simp
  then have "free_list_ok ?s2 ?free"
    by (rule set_ref_free_list_ok) auto
  then have ok: "free_list_ok ?t ?free"
    by (rule page_init_used_ok) auto
  have "\<forall>p. pp_ref (pages ?t p) = (if p = 0 \<or> (npages_basemem s \<le> p \<and> p < ?e) then 1 else 0)"
    using assms(3) by (auto simp: page_init_used_ref page_init_free_ref)
  with run ok show ?thesis by blast
qed

lemma page_init_free_list:
  assumes "npages s \<le> 2 ^ 20" "0 < npages s"
    and "\<forall>i. pages s i = \<lparr>pp_link = None, pp_ref = 0\<rparr>" "page_free_list s = None"
    and "KERNBASE \<le> nextfree s"
  shows "\<exists>t. page_init end_sym s = Ret () t \<and>
     free_list_ok t (rev (filter (\<lambda>p. p < npages_basemem s \<or> kva_frame (nextfree s) \<le> p)
                            [1..<npages s]))"
  using page_init_free_list_refs [OF assms] by blast

text \<open>
  C23. After page_init, run with the PageInfo array zeroed and the boot allocator
  already used, the free list is well formed and holds exactly the pages the comment in
  the source calls free: page 0, the I/O hole from the end of base memory and everything up to the
  first page the boot allocator has not handed out are excluded and have a reference.
\<close>

theorem page_init_builds_free_list:
  assumes "npages s \<le> 2 ^ 20" "0 < npages s"
    and "\<forall>i. pages s i = \<lparr>pp_link = None, pp_ref = 0\<rparr>" "page_free_list s = None"
    and "KERNBASE \<le> nextfree s"
  shows "\<exists>t. page_init end_sym s = Ret () t \<and>
     free_list_ok t (rev (filter (\<lambda>p. p < npages_basemem s \<or> kva_frame (nextfree s) \<le> p)
                            [1..<npages s])) \<and>
     (\<forall>p. pp_ref (pages t p) =
            (if p = 0 \<or> (npages_basemem s \<le> p \<and> p < kva_frame (nextfree s)) then 1 else 0))"
  by (rule page_init_free_list_refs [OF assms])

theorem page_init_builds_free_list_witness:
  "\<exists>t. page_init 0 ((blank_state 8 3)\<lparr>nextfree := 0xF0005000\<rparr>) = Ret () t \<and>
     free_list_ok t [7, 6, 5, 2, 1] \<and> pp_ref (pages t 4) = 1"
proof -
  let ?s = "(blank_state 8 3)\<lparr>nextfree := 0xF0005000\<rparr>"
  have f: "kva_frame (nextfree ?s) = 5"
    by (simp add: kva_frame_def unat_PGNUM layout_defs)
  have u: "[Suc 0..<8] = [1, 2, 3, 4, 5, 6, 7]" by (simp add: upt_rec)
  show ?thesis
    using page_init_builds_free_list [of ?s 0] f
    by (auto simp: blank_state_def layout_defs u)
qed

end
