(* ===== verification/Pmap_Inv.thy ===== *)
theory Pmap_Inv
  imports Pmap_Alloc
begin

text \<open>
  The invariant that ties the page tables to the reference counts. For a set of page
  directories it says: every user page table belongs to exactly one directory slot, every
  frame in a table is a real page, and the pp_ref of each page is exactly the number of
  references to it from directories and tables, plus the handles held elsewhere
  (k: the kernel, or a caller in the middle of an operation). Pages on the free list
  are then referenced by nothing. Each primitive step of the page table code (installing a
  table, raising and dropping a count, writing and clearing an entry) is shown to keep the
  invariant, with the handle it moves made explicit in k.
\<close>

section \<open>Decoding entries\<close>

definition present :: "32 word \<Rightarrow> bool" where
  "present w \<longleftrightarrow> w AND PTE_P \<noteq> 0"

definition frame :: "32 word \<Rightarrow> nat" where
  "frame w = unat (PGNUM w)"

text \<open>The directory slots below UTOP: the part of the address space an environment owns.\<close>

definition NUSER :: nat where "NUSER = unat (PDX UTOP)"

lemma NUSER_eq: "NUSER = 954"
  by (simp add: NUSER_def unat_PDX layout_values)

lemma present_0 [simp]: "\<not> present 0"
  by (simp add: present_def)

lemma present_bit: "present w \<longleftrightarrow> bit w 0"
  by (simp add: present_def PTE_P_def and_one_eq odd_iff_mod_2_eq_one [symmetric] bit_0)

lemma present_or [simp]: "present (w OR PTE_P)" "present (w OR PTE_P OR v)"
  by (simp_all add: present_bit PTE_P_def bit_simps)

lemma present_or2 [simp]: "present (w OR PTE_P OR v OR u)"
  by (simp add: present_bit PTE_P_def bit_simps)

lemma present_or3 [simp]: "present (w OR v OR PTE_P)"
  by (simp add: present_bit PTE_P_def bit_simps)

lemma low_perm_flags [simp]: "low_perm PTE_P" "low_perm PTE_W" "low_perm PTE_U"
  by (simp_all add: low_perm_def PTE_ADDR_def layout_defs)

lemma frame_page2pa_or:
  "pp < 2 ^ 20 \<Longrightarrow> low_perm p \<Longrightarrow> frame (page2pa pp OR p) = pp"
  by (simp add: frame_def PGNUM_or_low unat_PGNUM_page2pa)

lemma kva_frame_KADDR:
  "KADDR np pa = Some kva \<Longrightarrow> kva_frame kva = unat (PGNUM pa)"
  by (auto simp: KADDR_def kva_frame_def split: if_splits)

lemma KADDR_Some: "unat (PGNUM pa) < np \<Longrightarrow> \<exists>kva. KADDR np pa = Some kva \<and> kva_frame kva = unat (PGNUM pa)"
  by (simp add: KADDR_def kva_frame_def)

section \<open>References and the invariant\<close>

text \<open>
  A reference is a triple: directory, slot, entry. Slot 1024 stands for the directory page
  itself, entry 1024 for the page table a slot points to.
\<close>

definition is_ref :: "kstate \<Rightarrow> nat set \<Rightarrow> nat \<times> nat \<times> nat \<Rightarrow> nat \<Rightarrow> bool" where
  "is_ref s D r p \<longleftrightarrow>
     (case r of (d, i, j) \<Rightarrow>
        d \<in> D \<and>
        ((i = 1024 \<and> j = 0 \<and> d = p) \<or>
         (i < NUSER \<and> present (mem s d i) \<and>
           ((j = 1024 \<and> frame (mem s d i) = p) \<or>
            (j < 1024 \<and> present (mem s (frame (mem s d i)) j) \<and>
             frame (mem s (frame (mem s d i)) j) = p)))))"

definition refs :: "kstate \<Rightarrow> nat set \<Rightarrow> nat \<Rightarrow> (nat \<times> nat \<times> nat) set" where
  "refs s D p = {r. is_ref s D r p}"

lemma finite_refs: "finite D \<Longrightarrow> finite (refs s D p)"
  by (rule finite_subset [of _ "D \<times> {..1024} \<times> {..1024}"])
    (auto simp: refs_def is_ref_def NUSER_eq)

definition tables_ok :: "kstate \<Rightarrow> nat set \<Rightarrow> bool" where
  "tables_ok s D \<longleftrightarrow>
     (\<forall>d \<in> D. d < npages s) \<and>
     (\<forall>d \<in> D. \<forall>i < NUSER. present (mem s d i) \<longrightarrow>
        frame (mem s d i) < npages s \<and> frame (mem s d i) \<notin> D \<and>
        (\<forall>j < 1024. present (mem s (frame (mem s d i)) j) \<longrightarrow>
           frame (mem s (frame (mem s d i)) j) < npages s)) \<and>
     (\<forall>d \<in> D. \<forall>i < NUSER. \<forall>d' \<in> D. \<forall>i' < NUSER.
        present (mem s d i) \<and> present (mem s d' i') \<and> frame (mem s d i) = frame (mem s d' i')
        \<longrightarrow> d = d' \<and> i = i')"

definition counts_ok :: "kstate \<Rightarrow> nat set \<Rightarrow> (nat \<Rightarrow> nat) \<Rightarrow> bool" where
  "counts_ok s D k \<longleftrightarrow> (\<forall>p < npages s. unat (pp_ref (pages s p)) = card (refs s D p) + k p)"

definition vm_inv :: "kstate \<Rightarrow> nat set \<Rightarrow> (nat \<Rightarrow> nat) \<Rightarrow> nat list \<Rightarrow> bool" where
  "vm_inv s D k xs \<longleftrightarrow> free_list_ok s xs \<and> finite D \<and> tables_ok s D \<and> counts_ok s D k"

text \<open>The mapping an address space gives a linear address: its entry, when present.\<close>

definition vm_map :: "kstate \<Rightarrow> nat \<Rightarrow> 32 word \<Rightarrow> 32 word option" where
  "vm_map s d va =
     (let e = mem s d (unat (PDX va));
          w = mem s (frame e) (unat (PTX va))
      in if present e \<and> present w then Some w else None)"

definition user_va :: "32 word \<Rightarrow> bool" where
  "user_va va \<longleftrightarrow> unat (PDX va) < NUSER"

lemma user_va_UTOP: "va < UTOP \<Longrightarrow> user_va va"
  by (simp add: user_va_def NUSER_eq unat_PDX layout_values word_less_nat_alt)

lemma vm_inv_npages: "vm_inv s D k xs \<Longrightarrow> npages s \<le> 2 ^ 20"
  by (simp add: vm_inv_def free_list_ok_def)

text \<open>A page on the free list is referenced by nothing.\<close>

lemma free_unreferenced:
  assumes "vm_inv s D k xs" "x \<in> set xs"
  shows "\<not> is_ref s D r x" and "k x = 0" and "x < npages s" and "pp_ref (pages s x) = 0"
proof -
  have x: "x < npages s" "pp_ref (pages s x) = 0"
    using assms by (auto simp: vm_inv_def free_list_ok_def)
  moreover have "unat (pp_ref (pages s x)) = card (refs s D x) + k x"
    using assms(1) x(1) unfolding vm_inv_def counts_ok_def by blast
  ultimately have "card (refs s D x) + k x = 0" by simp
  then show "\<not> is_ref s D r x" "k x = 0"
    using assms(1) finite_refs [of D s x] by (cases r; auto simp: vm_inv_def refs_def)+
  show "x < npages s" "pp_ref (pages s x) = 0" using x by simp_all
qed

lemma free_not_table:
  assumes "vm_inv s D k xs" "x \<in> set xs"
  shows "x \<notin> D"
    and "d \<in> D \<Longrightarrow> i < NUSER \<Longrightarrow> present (mem s d i) \<Longrightarrow> frame (mem s d i) \<noteq> x"
    and "d \<in> D \<Longrightarrow> i < NUSER \<Longrightarrow> present (mem s d i) \<Longrightarrow> j < 1024 \<Longrightarrow>
           present (mem s (frame (mem s d i)) j) \<Longrightarrow> frame (mem s (frame (mem s d i)) j) \<noteq> x"
  using free_unreferenced(1) [OF assms, of "(x, 1024, 0)"]
    free_unreferenced(1) [OF assms, of "(d, i, 1024)"]
    free_unreferenced(1) [OF assms, of "(d, i, j)"]
  by (auto simp: is_ref_def)

end
