(* ===== verification/Pmap_Map.thy ===== *)
theory Pmap_Map
  imports Pmap_Inv
begin

text \<open>
  The page table operations of kern/pmap.c against their contract: pgdir_walk,
  page_lookup, page_remove and page_insert return, keep the invariant of Pmap_Inv and
  change the mapping of exactly one page of exactly one address space.
\<close>

section \<open>Primitive steps on the invariant\<close>

subsection \<open>Installing a page table\<close>

text \<open>The state after pgdir_walk has put the free page x into slot i of d.\<close>

definition new_pt :: "nat \<Rightarrow> nat \<Rightarrow> nat \<Rightarrow> kstate \<Rightarrow> kstate" where
  "new_pt d i x s =
     store d i (page2pa x OR PTE_P OR PTE_W OR PTE_U)
       (inc_ref x ((pop_free x s)\<lparr>mem := (mem s)(x := (\<lambda>_. 0))\<rparr>))"

lemma inc_ref_sel [simp]:
  "mem (inc_ref p s) = mem s" "npages (inc_ref p s) = npages s"
  "pp_ref (pages (inc_ref p s) q) = (if q = p then pp_ref (pages s p) + 1 else pp_ref (pages s q))"
  "pp_link (pages (inc_ref p s) q) = pp_link (pages s q)"
  "page_free_list (inc_ref p s) = page_free_list s"
  "envs (inc_ref p s) = envs s" "curenv (inc_ref p s) = curenv s"
  "kern_pgdir (inc_ref p s) = kern_pgdir s" "env_free_list (inc_ref p s) = env_free_list s"
  "invlpgs (inc_ref p s) = invlpgs s" "cr3 (inc_ref p s) = cr3 s"
  by (simp_all add: inc_ref_def)

lemma new_pt_mem:
  "mem (new_pt d i x s) =
     ((mem s)(x := (\<lambda>_. 0)))(d := (((mem s)(x := (\<lambda>_. 0))) d)
        (i := page2pa x OR PTE_P OR PTE_W OR PTE_U))"
  by (simp add: new_pt_def)

lemma new_pde_decode:
  assumes "x < 2 ^ 20"
  shows "present (page2pa x OR PTE_P OR PTE_W OR PTE_U)"
    and "frame (page2pa x OR PTE_P OR PTE_W OR PTE_U) = x"
  using assms by (simp_all add: or.assoc frame_page2pa_or)

lemma new_pt_is_ref:
  assumes inv: "vm_inv s D k (x # xs)" and d: "d \<in> D" and i: "i < NUSER"
    and np: "\<not> present (mem s d i)"
  shows "is_ref (new_pt d i x s) D r p \<longleftrightarrow> is_ref s D r p \<or> (r = (d, i, 1024) \<and> p = x)"
proof -
  have x20: "x < 2 ^ 20"
    using free_unreferenced(3) [OF inv, of x] vm_inv_npages [OF inv] by simp
  have xD: "x \<notin> D" and nx: "\<And>d i. d \<in> D \<Longrightarrow> i < NUSER \<Longrightarrow> present (mem s d i) \<Longrightarrow> frame (mem s d i) \<noteq> x"
    using free_not_table [OF inv] by auto
  have tD: "\<And>d i. d \<in> D \<Longrightarrow> i < NUSER \<Longrightarrow> present (mem s d i) \<Longrightarrow> frame (mem s d i) \<notin> D"
    using inv by (auto simp: vm_inv_def tables_ok_def)
  obtain d' i' j' where r: "r = (d', i', j')" by (cases r)
  show ?thesis
  proof (cases "d' \<in> D \<and> i' < NUSER")
    case False
    then show ?thesis using d i xD by (auto simp: r is_ref_def NUSER_eq)
  next
    case True
    then have d': "d' \<in> D" "i' < NUSER" "d' \<noteq> x" using xD by auto
    show ?thesis
    proof (cases "d' = d \<and> i' = i")
      case True
      then show ?thesis
        using d i np xD x20 new_pde_decode [OF x20]
        by (auto simp: r is_ref_def new_pt_mem NUSER_eq)
    next
      case False
      then have "mem (new_pt d i x s) d' i' = mem s d' i'"
        using d' by (auto simp: new_pt_mem)
      moreover have "present (mem s d' i') \<Longrightarrow>
          mem (new_pt d i x s) (frame (mem s d' i')) = mem s (frame (mem s d' i'))"
        using d' nx tD d by (auto simp: new_pt_mem)
      ultimately show ?thesis
        using False d' by (auto simp: r is_ref_def NUSER_eq)
    qed
  qed
qed


lemma free_page_lt: "vm_inv s D k xs \<Longrightarrow> x \<in> set xs \<Longrightarrow> x < 2 ^ 20"
  using free_unreferenced(3) [of s D k xs x] vm_inv_npages [of s D k xs] by simp

lemma new_pt_refs:
  assumes inv: "vm_inv s D k (x # xs)" and "d \<in> D" "i < NUSER" "\<not> present (mem s d i)"
  shows "refs (new_pt d i x s) D p = (if p = x then {(d, i, 1024)} else refs s D p)"
  using new_pt_is_ref [OF assms] free_unreferenced(1) [OF inv, of x]
  by (auto simp: refs_def)

lemma new_pt_slot:
  assumes inv: "vm_inv s D k (x # xs)" and d: "d \<in> D" and i: "i < NUSER"
    and d': "d' \<in> D" and i': "i' < NUSER"
  shows "mem (new_pt d i x s) d' i' =
           (if d' = d \<and> i' = i then page2pa x OR PTE_P OR PTE_W OR PTE_U else mem s d' i')"
    and "present (mem s d' i') \<Longrightarrow>
           mem (new_pt d i x s) (frame (mem s d' i')) = mem s (frame (mem s d' i'))"
    and "mem (new_pt d i x s) x j = 0"
  using free_not_table [OF inv, of x] assms inv
  by (auto simp: new_pt_mem vm_inv_def tables_ok_def)

lemma new_pt_sel [simp]:
  "npages (new_pt d i x s) = npages s"
  "pp_ref (pages (new_pt d i x s) p) = (if p = x then pp_ref (pages s x) + 1 else pp_ref (pages s p))"
  "envs (new_pt d i x s) = envs s" "curenv (new_pt d i x s) = curenv s"
  "invlpgs (new_pt d i x s) = invlpgs s"
  by (simp_all add: new_pt_def)

lemma new_pt_free_list:
  assumes "free_list_ok s (x # xs)"
  shows "free_list_ok (new_pt d i x s) xs"
proof -
  have "free_list_ok ((pop_free x s)\<lparr>mem := (mem s)(x := (\<lambda>_. 0))\<rparr>) xs"
    using pop_free_ok [OF assms] by simp
  moreover have "x \<notin> set xs" using assms by (auto simp: free_list_ok_def)
  ultimately show ?thesis
    by (simp add: new_pt_def inc_ref_def set_ref_free_list_ok)
qed

lemma new_pt_inv:
  assumes inv: "vm_inv s D k (x # xs)" and d: "d \<in> D" and i: "i < NUSER"
    and np: "\<not> present (mem s d i)"
  shows "vm_inv (new_pt d i x s) D k xs"
proof -
  let ?t = "new_pt d i x s"
  have x20: "x < 2 ^ 20" using free_page_lt [OF inv] by simp
  have xn: "x < npages s" "k x = 0" "pp_ref (pages s x) = 0"
    using free_unreferenced [OF inv, of x] by simp_all
  have fl: "free_list_ok ?t xs"
    using inv by (intro new_pt_free_list) (simp add: vm_inv_def)
  note slot = new_pt_slot [OF inv d i]
  note nt = free_not_table [OF inv, of x]
  have tabs: "tables_ok ?t D"
    using inv nt xn new_pde_decode [OF x20] np
    unfolding vm_inv_def tables_ok_def
    by (auto simp: slot)
  have cnt: "counts_ok ?t D k"
  proof (unfold counts_ok_def, intro allI impI)
    fix p
    assume "p < npages ?t"
    then have "p < npages s" by simp
    then show "unat (pp_ref (pages ?t p)) = card (refs ?t D p) + k p"
      using inv xn unfolding vm_inv_def counts_ok_def
      by (simp add: new_pt_refs [OF inv d i np])
  qed
  show ?thesis using inv fl tabs cnt by (simp add: vm_inv_def)
qed

lemma new_pt_vm_map:
  assumes inv: "vm_inv s D k (x # xs)" and d: "d \<in> D" and i: "i < NUSER"
    and np: "\<not> present (mem s d i)" and d': "d' \<in> D" and va: "user_va va"
  shows "vm_map (new_pt d i x s) d' va = vm_map s d' va"
proof -
  have x20: "x < 2 ^ 20" using free_page_lt [OF inv] by simp
  note slot = new_pt_slot [OF inv d i d', of "unat (PDX va)"]
  show ?thesis
    using va np slot new_pde_decode [OF x20]
    by (auto simp: vm_map_def user_va_def Let_def)
qed


subsection \<open>Raising and dropping a count\<close>

lemma unat_inc16: "unat (w :: 16 word) < 65535 \<Longrightarrow> unat (w + 1) = unat w + 1"
  by (simp add: unat_word_ariths)

lemma unat_dec16: "w \<noteq> 0 \<Longrightarrow> unat ((w :: 16 word) - 1) = unat w - 1"
  by (metis unat_minus_one)

lemma refs_cong: "mem s = mem t \<Longrightarrow> refs s D p = refs t D p"
  by (simp add: refs_def is_ref_def)

lemma tables_ok_cong: "mem s = mem t \<Longrightarrow> npages s = npages t \<Longrightarrow> tables_ok s D = tables_ok t D"
  by (simp add: tables_ok_def)

lemma vm_map_cong: "mem s = mem t \<Longrightarrow> vm_map s d va = vm_map t d va"
  by (simp add: vm_map_def)

lemma inc_ref_inv:
  assumes inv: "vm_inv s D k xs" and p: "p < npages s" "p \<notin> set xs"
    and ref: "unat (pp_ref (pages s p)) < 65535"
  shows "vm_inv (inc_ref p s) D (k(p := k p + 1)) xs"
proof -
  have "free_list_ok (inc_ref p s) xs"
    using inv p unfolding inc_ref_def by (intro set_ref_free_list_ok) (auto simp: vm_inv_def)
  moreover have "tables_ok (inc_ref p s) D"
    using inv tables_ok_cong [of "inc_ref p s" s] by (simp add: vm_inv_def)
  moreover have "counts_ok (inc_ref p s) D (k(p := k p + 1))"
    using inv unat_inc16 [OF ref] refs_cong [of "inc_ref p s" s]
    unfolding vm_inv_def counts_ok_def by auto
  ultimately show ?thesis using inv by (simp add: vm_inv_def)
qed

text \<open>Frame of the allocator: what page_free and page_decref may change.\<close>

definition only_pages :: "kstate \<Rightarrow> kstate \<Rightarrow> bool" where
  "only_pages s t \<longleftrightarrow> t = s\<lparr>pages := pages t, page_free_list := page_free_list t\<rparr>"

lemma only_pages_sel:
  assumes "only_pages s t"
  shows "mem t = mem s" "npages t = npages s" "envs t = envs s" "curenv t = curenv s"
    "invlpgs t = invlpgs s" "kern_pgdir t = kern_pgdir s" "env_free_list t = env_free_list s"
    "cr3 t = cr3 s"
proof -
  obtain P F where "t = s\<lparr>pages := P, page_free_list := F\<rparr>"
    using assms unfolding only_pages_def by blast
  then show "mem t = mem s" "npages t = npages s" "envs t = envs s" "curenv t = curenv s"
    "invlpgs t = invlpgs s" "kern_pgdir t = kern_pgdir s" "env_free_list t = env_free_list s"
    "cr3 t = cr3 s" by simp_all
qed

text \<open>No page is lost: a page without references is on the free list.\<close>

definition leak_free :: "kstate \<Rightarrow> nat list \<Rightarrow> bool" where
  "leak_free s xs \<longleftrightarrow> (\<forall>p < npages s. pp_ref (pages s p) = 0 \<longrightarrow> p \<in> set xs)"

lemma page_decref_inv:
  assumes inv: "vm_inv s D k xs" and p: "p < npages s" and k: "k p = Suc n"
  shows "\<exists>t ys. page_decref p s = Ret () t \<and> vm_inv t D (k(p := n)) ys \<and> only_pages s t \<and>
           set xs \<subseteq> set ys \<and> set ys \<subseteq> insert p (set xs) \<and> (leak_free s xs \<longrightarrow> leak_free t ys)"
proof -
  let ?r = "pp_ref (pages s p)"
  let ?s1 = "set_ref p (?r - 1) s"
  have cnt: "unat ?r = card (refs s D p) + Suc n"
    using inv p k unfolding vm_inv_def counts_ok_def by metis
  then have nz: "?r \<noteq> 0" by auto
  have pxs: "p \<notin> set xs"
    using free_unreferenced(4) [OF inv, of p] nz by auto
  have dec: "unat (?r - 1) = card (refs s D p) + n"
    using unat_dec16 [OF nz] cnt by simp
  have fl1: "free_list_ok ?s1 xs"
    using inv pxs by (intro set_ref_free_list_ok) (auto simp: vm_inv_def)
  have inv1: "vm_inv ?s1 D (k(p := n)) xs"
    using inv fl1 dec refs_cong [of ?s1 s] tables_ok_cong [of ?s1 s]
    unfolding vm_inv_def counts_ok_def by auto
  show ?thesis
  proof (cases "?r - 1 = 0")
    case False
    then have "page_decref p s = Ret () ?s1" by (simp add: page_decref_def)
    moreover have "only_pages s ?s1" by (simp add: only_pages_def set_ref_def)
    moreover have "leak_free s xs \<longrightarrow> leak_free ?s1 xs" using False by (simp add: leak_free_def)
    ultimately show ?thesis using inv1 by blast
  next
    case True
    let ?t = "(set_link p (page_free_list ?s1) ?s1)\<lparr>page_free_list := Some p\<rparr>"
    have idle: "idle_page ?s1 p" using True p by (simp add: idle_page_def)
    have "page_decref p s = Ret () ?t"
      using page_free_push(1) [OF fl1 idle pxs] True by (simp add: page_decref_def)
    moreover have "vm_inv ?t D (k(p := n)) (p # xs)"
      using inv1 page_free_push(2) [OF fl1 idle pxs] refs_cong [of ?t ?s1] tables_ok_cong [of ?t ?s1]
      unfolding vm_inv_def counts_ok_def by auto
    moreover have "only_pages s ?t" by (simp add: only_pages_def set_ref_def set_link_def)
    moreover have "leak_free s xs \<longrightarrow> leak_free ?t (p # xs)" by (simp add: leak_free_def)
    moreover have "set xs \<subseteq> set (p # xs)" "set (p # xs) \<subseteq> insert p (set xs)" by auto
    ultimately show ?thesis by blast
  qed
qed


subsection \<open>Writing an entry\<close>

text \<open>A slot of a user page table: entry j of the table in slot i of d.\<close>

definition pt_slot :: "kstate \<Rightarrow> nat set \<Rightarrow> nat \<Rightarrow> nat \<Rightarrow> nat \<Rightarrow> bool" where
  "pt_slot s D d i j \<longleftrightarrow> d \<in> D \<and> i < NUSER \<and> present (mem s d i) \<and> j < 1024"

lemma pt_slot_table:
  assumes "vm_inv s D k xs" "pt_slot s D d i j"
  shows "frame (mem s d i) \<notin> D" "frame (mem s d i) < npages s"
    and "present (mem s (frame (mem s d i)) j) \<Longrightarrow> frame (mem s (frame (mem s d i)) j) < npages s"
    and "d' \<in> D \<Longrightarrow> i' < NUSER \<Longrightarrow> present (mem s d' i') \<Longrightarrow>
           frame (mem s d' i') = frame (mem s d i) \<longleftrightarrow> d' = d \<and> i' = i"
  using assms by (auto simp: vm_inv_def tables_ok_def pt_slot_def)

lemma is_ref_store:
  assumes inv: "vm_inv s D k xs" and sl: "pt_slot s D d i j"
  shows "is_ref (store (frame (mem s d i)) j w s) D r p \<longleftrightarrow>
           (if r = (d, i, j) then present w \<and> frame w = p else is_ref s D r p)"
proof -
  note tb = pt_slot_table [OF inv sl]
  obtain d' i' j' where r: "r = (d', i', j')" by (cases r)
  have sl': "d \<in> D" "i < NUSER" "present (mem s d i)" "j < 1024"
    using sl by (simp_all add: pt_slot_def)
  show ?thesis
  proof (cases "d' \<in> D \<and> i' < NUSER \<and> present (mem s d' i')")
    case False
    then have ne: "r \<noteq> (d, i, j)" using sl' by (auto simp: r)
    show ?thesis
    proof (cases "d' \<in> D")
      case True
      then have "mem (store (frame (mem s d i)) j w s) d' = mem s d'" using tb(1) by auto
      then show ?thesis using False True ne by (simp add: r is_ref_def del: store_sel) blast
    next
      case False
      then show ?thesis using ne by (auto simp: r is_ref_def)
    qed
  next
    case True
    then have "d' \<noteq> frame (mem s d i)" using tb(1) by auto
    then have dir: "mem (store (frame (mem s d i)) j w s) d' = mem s d'" by simp
    show ?thesis
    proof (cases "d' = d \<and> i' = i")
      case True
      then show ?thesis
        using dir sl' by (simp add: r is_ref_def NUSER_eq del: store_sel) (simp add: conj_commute)
    next
      case False
      then have "mem (store (frame (mem s d i)) j w s) (frame (mem s d' i')) = mem s (frame (mem s d' i'))"
        using True tb(4) [of d' i'] by auto
      then show ?thesis using dir False by (simp add: r is_ref_def del: store_sel) blast
    qed
  qed
qed

lemma card_refs_store:
  assumes inv: "vm_inv s D k xs" and sl: "pt_slot s D d i j"
  defines "f \<equiv> frame (mem s d i)"
  shows "card (refs (store f j w s) D p) + of_bool (present (mem s f j) \<and> frame (mem s f j) = p)
         = card (refs s D p) + of_bool (present w \<and> frame w = p)"
proof -
  let ?r = "(d, i, j)"
  have old: "?r \<in> refs s D p \<longleftrightarrow> present (mem s f j) \<and> frame (mem s f j) = p"
    using sl by (auto simp: refs_def is_ref_def pt_slot_def f_def NUSER_eq)
  have new: "refs (store f j w s) D p = (refs s D p - {?r}) \<union> (if present w \<and> frame w = p then {?r} else {})"
    using is_ref_store [OF inv sl, of w] by (auto simp: refs_def f_def)
  have fin: "finite (refs s D p)" using inv finite_refs by (simp add: vm_inv_def)
  then have "card (refs (store f j w s) D p) = card (refs s D p - {?r}) + of_bool (present w \<and> frame w = p)"
  proof -
    have "card (B \<union> (if c then {?r} else {})) = card B + of_bool c" if "finite B" "?r \<notin> B" for B c
      using that by simp
    from this [of "refs s D p - {?r}"] fin show ?thesis unfolding new by blast
  qed
  moreover have "card (refs s D p - {?r}) + of_bool (?r \<in> refs s D p) = card (refs s D p)"
    using fin card_Suc_Diff1 [of "refs s D p" ?r] by (cases "?r \<in> refs s D p") auto
  ultimately show ?thesis using old by simp
qed

lemma store_inv:
  assumes inv: "vm_inv s D k xs" and sl: "pt_slot s D d i j"
  defines "f \<equiv> frame (mem s d i)"
  assumes w: "present w \<Longrightarrow> frame w < npages s"
    and k': "\<And>p. p < npages s \<Longrightarrow> k' p + of_bool (present w \<and> frame w = p)
                  = k p + of_bool (present (mem s f j) \<and> frame (mem s f j) = p)"
  shows "vm_inv (store f j w s) D k' xs"
proof -
  note tb = pt_slot_table [OF inv sl, folded f_def]
  have "free_list_ok (store f j w s) xs"
    using inv by (simp add: vm_inv_def free_list_ok_def)
  moreover have "tables_ok (store f j w s) D"
  proof -
    have dir: "mem (store f j w s) d' = mem s d'" if "d' \<in> D" for d'
      using tb(1) that by auto
    have tab: "frame (mem (store f j w s) g j') < npages s"
      if "present (mem (store f j w s) g j')" "present (mem s g j') \<Longrightarrow> frame (mem s g j') < npages s" for g j'
      using that w by (cases "g = f \<and> j' = j") auto
    show ?thesis
      using inv unfolding vm_inv_def tables_ok_def
      by (simp only: dir store_sel(3) cong: ball_cong) (metis tab)
  qed
  moreover have "counts_ok (store f j w s) D k'"
  proof (unfold counts_ok_def, intro allI impI)
    fix p assume "p < npages (store f j w s)"
    then have p: "p < npages s" by simp
    then have "unat (pp_ref (pages s p)) = card (refs s D p) + k p"
      using inv by (simp add: vm_inv_def counts_ok_def)
    then show "unat (pp_ref (pages (store f j w s) p)) = card (refs (store f j w s) D p) + k' p"
      using card_refs_store [OF inv sl, of w p, folded f_def] k' [OF p] by simp
  qed
  ultimately show ?thesis using inv by (simp add: vm_inv_def)
qed

lemma store_vm_map:
  assumes inv: "vm_inv s D k xs" and sl: "pt_slot s D d i j"
    and d': "d' \<in> D" and va: "user_va va"
  shows "vm_map (store (frame (mem s d i)) j w s) d' va =
           (if d' = d \<and> unat (PDX va) = i \<and> unat (PTX va) = j
            then (if present w then Some w else None) else vm_map s d' va)"
proof -
  note tb = pt_slot_table [OF inv sl]
  have "d' \<noteq> frame (mem s d i)" using tb(1) d' by auto
  then show ?thesis
    using tb(4) [of d' "unat (PDX va)"] d' va sl
    by (auto simp: vm_map_def user_va_def Let_def pt_slot_def)
qed


subsection \<open>What the operations leave alone\<close>

text \<open>Only the allocator, the memory and the TLB log may differ.\<close>

definition vm_frame :: "kstate \<Rightarrow> kstate \<Rightarrow> bool" where
  "vm_frame s t \<longleftrightarrow>
     t = s\<lparr>pages := pages t, page_free_list := page_free_list t, mem := mem t, invlpgs := invlpgs t\<rparr>"

lemma vm_frame_I:
  "t = s\<lparr>pages := p, page_free_list := f, mem := m, invlpgs := l\<rparr> \<Longrightarrow> vm_frame s t"
  by (simp add: vm_frame_def)

lemma vm_frame_E:
  assumes "vm_frame s t"
  obtains p f m l where "t = s\<lparr>pages := p, page_free_list := f, mem := m, invlpgs := l\<rparr>"
  using assms unfolding vm_frame_def by blast

lemma vm_frame_refl [simp]: "vm_frame s s"
  by (simp add: vm_frame_def)

lemma vm_frame_trans:
  assumes "vm_frame s t" "vm_frame t u"
  shows "vm_frame s u"
proof -
  obtain p f m l where t: "t = s\<lparr>pages := p, page_free_list := f, mem := m, invlpgs := l\<rparr>"
    using assms(1) by (rule vm_frame_E)
  obtain p' f' m' l' where "u = t\<lparr>pages := p', page_free_list := f', mem := m', invlpgs := l'\<rparr>"
    using assms(2) by (rule vm_frame_E)
  with t show ?thesis by (intro vm_frame_I) simp
qed

lemma vm_frame_sel:
  assumes "vm_frame s t"
  shows "npages t = npages s" "envs t = envs s" "curenv t = curenv s" "cr3 t = cr3 s"
    "kern_pgdir t = kern_pgdir s" "env_free_list t = env_free_list s" "kmsgs t = kmsgs s"
    "console t = console s"
  using assms by (auto elim!: vm_frame_E)

lemma only_pages_frame: "only_pages s t \<Longrightarrow> vm_frame s t"
  unfolding only_pages_def by (rule vm_frame_I [where m = "mem s" and l = "invlpgs s"]) simp

lemma store_frame: "vm_frame s (store f j w s)"
  unfolding store_def by (rule vm_frame_I [where p = "pages s" and f = "page_free_list s" and l = "invlpgs s"]) simp

lemma invlpgs_frame: "vm_frame s (s\<lparr>invlpgs := l\<rparr>)"
  by (rule vm_frame_I [where p = "pages s" and f = "page_free_list s" and m = "mem s"]) simp

text \<open>No page is lost, except perhaps one the caller holds without a reference.\<close>

definition leak_but :: "nat \<Rightarrow> kstate \<Rightarrow> nat list \<Rightarrow> bool" where
  "leak_but h s xs \<longleftrightarrow> (\<forall>p < npages s. p \<noteq> h \<longrightarrow> pp_ref (pages s p) = 0 \<longrightarrow> p \<in> set xs)"

lemma new_pt_frame: "vm_frame s (new_pt d i x s)"
  by (rule vm_frame_I [where p = "pages (new_pt d i x s)" and f = "page_free_list (new_pt d i x s)"
        and m = "mem (new_pt d i x s)" and l = "invlpgs s"])
    (simp add: new_pt_def store_def inc_ref_def set_ref_def pop_free_def set_link_def)

section \<open>The walk\<close>

lemma unat_PTX_1024: "unat (PTX va) < 1024"
  by (rule PTX_less)

lemma pgdir_walk_hit:
  assumes inv: "vm_inv s D k xs" and d: "d \<in> D" and va: "user_va va"
    and p: "present (mem s d (unat (PDX va)))"
  shows "pgdir_walk d va create s = Ret (Some (frame (mem s d (unat (PDX va))), unat (PTX va))) s"
proof -
  let ?e = "mem s d (unat (PDX va))"
  have "unat (PGNUM (PTE_ADDR ?e)) < npages s"
    using inv d va p by (simp add: vm_inv_def tables_ok_def user_va_def frame_def PGNUM_PTE_ADDR)
  then obtain kva where "KADDR (npages s) (PTE_ADDR ?e) = Some kva" "kva_frame kva = frame ?e"
    using KADDR_Some [of "PTE_ADDR ?e" "npages s"] by (auto simp: frame_def PGNUM_PTE_ADDR)
  then show ?thesis using p by (simp add: pgdir_walk_def Let_def present_def)
qed

lemma pgdir_walk_miss:
  "\<not> present (mem s d (unat (PDX va))) \<Longrightarrow> pgdir_walk d va False s = Ret None s"
  by (simp add: pgdir_walk_def Let_def present_def)

lemma pgdir_walk_full:
  assumes "vm_inv s D k []" "\<not> present (mem s d (unat (PDX va)))"
  shows "pgdir_walk d va create s = Ret None s"
  using assms page_alloc_empty [of s]
  by (simp add: pgdir_walk_def Let_def present_def vm_inv_def)

lemma pgdir_walk_new:
  assumes fl: "free_list_ok s (x # xs)" and np: "\<not> present (mem s d (unat (PDX va)))"
  shows "pgdir_walk d va True s = Ret (Some (x, unat (PTX va))) (new_pt d (unat (PDX va)) x s)"
proof -
  have xn: "x < npages s" "x < 2 ^ 20" using fl by (simp_all add: free_list_ok_def)
  have fr: "frame (page2pa x OR PTE_P OR PTE_W OR PTE_U) = x" using new_pde_decode [OF xn(2)] by simp
  have z: "ALLOC_ZERO AND ALLOC_ZERO \<noteq> 0" by (simp add: ALLOC_ZERO_def)
  have "unat (PGNUM (PTE_ADDR (page2pa x OR PTE_P OR PTE_W OR PTE_U))) < npages s"
    using fr xn(1) by (simp add: PGNUM_PTE_ADDR frame_def)
  then obtain kva where "KADDR (npages s) (PTE_ADDR (page2pa x OR PTE_P OR PTE_W OR PTE_U)) = Some kva"
    "kva_frame kva = x"
    using KADDR_Some fr by (metis PGNUM_PTE_ADDR frame_def)
  then show ?thesis
    using np z by (simp add: pgdir_walk_def Let_def present_def page_alloc_cons [OF fl] new_pt_def)
qed

lemma pgdir_walk_create:
  assumes "vm_inv s D k (x # xs)" "d \<in> D" "\<not> present (mem s d (unat (PDX va)))"
  shows "pgdir_walk d va True s = Ret (Some (x, unat (PTX va))) (new_pt d (unat (PDX va)) x s)"
  by (rule pgdir_walk_new [where xs = xs, OF _ assms(3)]) (use assms(1) in \<open>simp add: vm_inv_def\<close>)

text \<open>
  The walk that may create, in one statement: either the slot is there afterwards, in a state
  that keeps the invariant and every mapping, or there was no page for the table.
\<close>

definition same_maps :: "kstate \<Rightarrow> kstate \<Rightarrow> nat set \<Rightarrow> bool" where
  "same_maps s t D \<longleftrightarrow> (\<forall>d va. d \<in> D \<longrightarrow> user_va va \<longrightarrow> vm_map t d va = vm_map s d va)"

text \<open>
  Which frames hold tables, and what growing the tables by pages of the free list leaves alone: the
  directory entries in use, and the contents of all frames that are neither tables nor free.
\<close>

definition table_frame :: "kstate \<Rightarrow> nat set \<Rightarrow> nat \<Rightarrow> bool" where
  "table_frame s D q \<longleftrightarrow> q \<in> D \<or> (\<exists>d \<in> D. \<exists>i < NUSER. present (mem s d i) \<and> frame (mem s d i) = q)"

definition dirs_grow :: "kstate \<Rightarrow> nat set \<Rightarrow> nat list \<Rightarrow> kstate \<Rightarrow> bool" where
  "dirs_grow s D xs t \<longleftrightarrow>
     (\<forall>d \<in> D. \<forall>i. mem t d i = mem s d i \<or>
        (i < NUSER \<and> \<not> present (mem s d i) \<and>
         (\<exists>x \<in> set xs. mem t d i = page2pa x OR PTE_P OR PTE_W OR PTE_U)))"

definition data_same :: "kstate \<Rightarrow> nat set \<Rightarrow> nat list \<Rightarrow> kstate \<Rightarrow> bool" where
  "data_same s D xs t \<longleftrightarrow> (\<forall>q. \<not> table_frame s D q \<longrightarrow> q \<notin> set xs \<longrightarrow> mem t q = mem s q)"

lemma dirs_grow_refl [simp]: "dirs_grow s D xs s" "data_same s D xs s"
  by (simp_all add: dirs_grow_def data_same_def)

lemma table_frame_grow:
  assumes "dirs_grow s D xs t" "\<forall>x \<in> set xs. x < 2 ^ 20" "table_frame t D q"
  shows "table_frame s D q \<or> q \<in> set xs"
proof -
  consider "q \<in> D" | d i where "d \<in> D" "i < NUSER" "present (mem t d i)" "frame (mem t d i) = q"
    using assms(3) by (auto simp: table_frame_def)
  then show ?thesis
  proof cases
    case 1
    then show ?thesis by (simp add: table_frame_def)
  next
    case 2
    then consider "mem t d i = mem s d i"
      | x where "x \<in> set xs" "mem t d i = page2pa x OR PTE_P OR PTE_W OR PTE_U"
      using assms(1) unfolding dirs_grow_def by metis
    then show ?thesis
    proof cases
      case 1
      then show ?thesis using 2 by (auto simp: table_frame_def)
    next
      case (2 x)
      then show ?thesis
        using \<open>frame (mem t d i) = q\<close> new_pde_decode(2) [of x] assms(2) by metis
    qed
  qed
qed

lemma pgdir_walk_True:
  assumes inv: "vm_inv s D k xs" and d: "d \<in> D" and va: "user_va va"
    and room: "present (mem s d (unat (PDX va))) \<or> xs \<noteq> []"
  obtains t ys where "pgdir_walk d va True s = Ret (Some (frame (mem t d (unat (PDX va))), unat (PTX va))) t"
    "vm_inv t D k ys" "ys = xs \<or> ys = tl xs" "pt_slot t D d (unat (PDX va)) (unat (PTX va))"
    "same_maps s t D" "vm_frame s t" "\<And>p. p \<notin> set xs \<Longrightarrow> pages t p = pages s p"
    "\<And>q. q \<noteq> d \<Longrightarrow> q \<notin> set xs \<Longrightarrow> mem t q = mem s q" "\<And>h. leak_but h s xs \<Longrightarrow> leak_but h t ys"
    "present (mem s d (unat (PDX va))) \<Longrightarrow> mem t d (unat (PDX va)) = mem s d (unat (PDX va))"
    "\<not> present (mem s d (unat (PDX va))) \<Longrightarrow> frame (mem t d (unat (PDX va))) \<in> set xs"
    "dirs_grow s D xs t" "present (mem s d (unat (PDX va))) \<Longrightarrow> ys = xs"
proof (cases "present (mem s d (unat (PDX va)))")
  case True
  show thesis
    by (rule that [of s xs]) (use True d va inv pgdir_walk_hit [OF inv d va True, of True]
      in \<open>simp_all add: pt_slot_def user_va_def unat_PTX_1024 same_maps_def\<close>)
next
  case False
  then obtain x ys where xs: "xs = x # ys" using room by (cases xs) auto
  have i: "unat (PDX va) < NUSER" using va by (simp add: user_va_def)
  note inv' = inv [unfolded xs]
  have x20: "x < 2 ^ 20" using free_page_lt [OF inv'] by simp
  note slot = new_pt_slot(1) [OF inv' d i d i]
  show thesis
  proof (rule that [of "new_pt d (unat (PDX va)) x s" ys])
    show "pgdir_walk d va True s =
        Ret (Some (frame (mem (new_pt d (unat (PDX va)) x s) d (unat (PDX va))), unat (PTX va)))
          (new_pt d (unat (PDX va)) x s)"
      using pgdir_walk_create [OF inv' d False] new_pde_decode [OF x20] slot by simp
    show "vm_inv (new_pt d (unat (PDX va)) x s) D k ys"
      by (rule new_pt_inv [OF inv' d i False])
    show "pt_slot (new_pt d (unat (PDX va)) x s) D d (unat (PDX va)) (unat (PTX va))"
      using d i slot new_pde_decode [OF x20] by (simp add: pt_slot_def unat_PTX_1024)
    show "same_maps s (new_pt d (unat (PDX va)) x s) D"
      using new_pt_vm_map [OF inv' d i False] by (simp add: same_maps_def)
    show "pages (new_pt d (unat (PDX va)) x s) p = pages s p" if "p \<notin> set xs" for p
      using that by (simp add: xs new_pt_def inc_ref_def pop_free_def)
    show "mem (new_pt d (unat (PDX va)) x s) q = mem s q" if "q \<noteq> d" "q \<notin> set xs" for q
      using that by (simp add: xs new_pt_mem)
    show "leak_but h (new_pt d (unat (PDX va)) x s) ys" if "leak_but h s xs" for h
      using that free_unreferenced(4) [OF inv', of x] by (auto simp: leak_but_def xs)
    show "frame (mem (new_pt d (unat (PDX va)) x s) d (unat (PDX va))) \<in> set xs"
      using slot new_pde_decode [OF x20] by (simp add: xs)
    have "x \<notin> D" using free_not_table [OF inv', of x] by simp
    then show "dirs_grow s D xs (new_pt d (unat (PDX va)) x s)"
      using i False by (auto simp: dirs_grow_def new_pt_mem xs)
  qed (simp_all add: xs new_pt_frame False)
qed


section \<open>page_lookup and page_remove\<close>

lemma vm_inv_invlpgs [simp]: "vm_inv (s\<lparr>invlpgs := l\<rparr>) D k xs \<longleftrightarrow> vm_inv s D k xs"
  by (simp add: vm_inv_def free_list_ok_def tables_ok_def counts_ok_def refs_def is_ref_def)

lemma vm_map_invlpgs [simp]: "vm_map (s\<lparr>invlpgs := l\<rparr>) d va = vm_map s d va"
  by (simp add: vm_map_def)

lemma page_lookup_result:
  assumes inv: "vm_inv s D k xs" and d: "d \<in> D" and va: "user_va va"
  shows "page_lookup d va s =
    Ret (map_option frame (vm_map s d va),
         if present (mem s d (unat (PDX va)))
         then Some (frame (mem s d (unat (PDX va))), unat (PTX va)) else None) s"
proof (cases "present (mem s d (unat (PDX va)))")
  case False
  then show ?thesis by (simp add: page_lookup_def pgdir_walk_miss vm_map_def Let_def)
next
  case True
  let ?w = "mem s (frame (mem s d (unat (PDX va)))) (unat (PTX va))"
  have "?w AND PTE_P \<noteq> 0 \<Longrightarrow> unat (PGNUM ?w) < npages s"
    using inv d va True unat_PTX_1024
    by (simp add: vm_inv_def tables_ok_def user_va_def frame_def present_def [of ?w, unfolded frame_def])
  then show ?thesis
    using True pgdir_walk_hit [OF inv d va True, of False]
    by (cases "?w AND PTE_P = 0")
      (simp_all add: page_lookup_def vm_map_def Let_def present_def [of ?w] pa2page_def PGNUM_PTE_ADDR
        frame_def [of ?w])
qed

lemma page_decref_store:
  assumes "page_decref p (store f j w s) = Ret () t"
  shows "\<exists>u. page_decref p s = Ret () u \<and> t = store f j w u"
  using assms
  by (auto simp: page_decref_def page_free_def Let_def store_def set_ref_def set_link_def
      split: if_splits)

definition tlb_active :: "kstate \<Rightarrow> nat \<Rightarrow> bool" where
  "tlb_active s d \<longleftrightarrow> (case curenv s of None \<Rightarrow> True | Some c \<Rightarrow> env_pgdir (envs s c) = Some d)"

lemma page_remove_unmapped:
  assumes "vm_inv s D k xs" "d \<in> D" "user_va va" "vm_map s d va = None"
  shows "page_remove d va s = Ret () s"
  using page_lookup_result [OF assms(1-3)] assms(4) by (simp add: page_remove_def)

lemma vm_map_slot:
  assumes "vm_map s d va = Some w" "d \<in> D" "user_va va"
  shows "pt_slot s D d (unat (PDX va)) (unat (PTX va))"
    and "mem s (frame (mem s d (unat (PDX va)))) (unat (PTX va)) = w" and "present w"
  using assms by (auto simp: pt_slot_def vm_map_def Let_def user_va_def unat_PTX_1024 split: if_splits)

lemma page_remove_mapped:
  assumes inv: "vm_inv s D k xs" and d: "d \<in> D" and va: "user_va va" and m: "vm_map s d va = Some w"
  obtains t ys u where "page_remove d va s = Ret () t" "vm_inv t D k ys" "only_pages s u"
    "t = (store (frame (mem s d (unat (PDX va)))) (unat (PTX va)) 0 u)
          \<lparr>invlpgs := (if tlb_active s d then va # invlpgs s else invlpgs s)\<rparr>"
    "set xs \<subseteq> set ys" "set ys \<subseteq> insert (frame w) (set xs)" "leak_free s xs \<longrightarrow> leak_free t ys"
proof -
  let ?i = "unat (PDX va)" and ?j = "unat (PTX va)"
  let ?f = "frame (mem s d ?i)" and ?p = "frame w"
  note sl = vm_map_slot [OF m d va]
  let ?s1 = "store ?f ?j 0 s"
  have inv1: "vm_inv ?s1 D (k(?p := Suc (k ?p))) xs"
    using sl by (intro store_inv [OF inv sl(1)]) auto
  have p: "?p < npages ?s1"
    using pt_slot_table(3) [OF inv sl(1)] sl(2,3) by simp
  obtain t1 ys where t1: "page_decref ?p ?s1 = Ret () t1" "vm_inv t1 D k ys" "only_pages ?s1 t1"
    "set xs \<subseteq> set ys" "set ys \<subseteq> insert ?p (set xs)" "leak_free ?s1 xs \<longrightarrow> leak_free t1 ys"
    using page_decref_inv [OF inv1 p, of "k ?p"] by auto
  obtain u where u: "page_decref ?p s = Ret () u" "t1 = store ?f ?j 0 u"
    using page_decref_store [OF t1(1)] by auto
  have op: "only_pages s u"
    using u(1) by (auto simp: page_decref_def page_free_def Let_def only_pages_def set_ref_def
        set_link_def split: if_splits)
  let ?t = "t1\<lparr>invlpgs := (if tlb_active s d then va # invlpgs s else invlpgs s)\<rparr>"
  have sel: "curenv t1 = curenv s" "envs t1 = envs s" "invlpgs t1 = invlpgs s"
    using only_pages_sel [OF op] u(2) by simp_all
  have "t1\<lparr>invlpgs := invlpgs s\<rparr> = t1" by (simp flip: sel(3))
  then have "tlb_invalidate d va t1 = ?t"
    by (simp add: tlb_invalidate_def tlb_active_def sel(1,2) cong: option.case_cong) (simp add: sel(3))
  moreover have "mem s ?f ?j AND PTE_P \<noteq> 0" "present (mem s d ?i)"
    using sl by (auto simp: present_def pt_slot_def)
  ultimately have "page_remove d va s = Ret () ?t"
    using page_lookup_result [OF inv d va] m u by (simp add: page_remove_def)
  moreover have "leak_free s xs \<longrightarrow> leak_free ?t ys" using t1(6) by (simp add: leak_free_def)
  ultimately show thesis
    using that [of ?t ys u] t1 u op by simp
qed

lemma page_remove_effect:
  assumes "vm_inv s D k xs" "d \<in> D" "user_va va"
  shows "\<exists>t ys. page_remove d va s = Ret () t \<and> vm_inv t D k ys \<and> set xs \<subseteq> set ys \<and>
    (\<forall>d' \<in> D. \<forall>va'. user_va va' \<longrightarrow>
       vm_map t d' va' = (if d' = d \<and> PGNUM va' = PGNUM va then None else vm_map s d' va')) \<and>
    invlpgs t = (if vm_map s d va \<noteq> None \<and> tlb_active s d then va # invlpgs s else invlpgs s)"
proof (cases "vm_map s d va")
  case None
  then have "vm_map s d va' = None" if "PGNUM va' = PGNUM va" for va'
    using that None page_index_eq [of va' va] by (simp add: vm_map_def)
  then show ?thesis
    using page_remove_unmapped [OF assms None] assms(1) None by auto
next
  case (Some w)
  from page_remove_mapped [OF assms Some] obtain t ys u where
    t: "page_remove d va s = Ret () t" "vm_inv t D k ys" "set xs \<subseteq> set ys" and op: "only_pages s u" and
    td: "t = (store (frame (mem s d (unat (PDX va)))) (unat (PTX va)) 0 u)
          \<lparr>invlpgs := (if tlb_active s d then va # invlpgs s else invlpgs s)\<rparr>"
    by metis
  have "vm_map t d' va' = vm_map (store (frame (mem s d (unat (PDX va)))) (unat (PTX va)) 0 s) d' va'"
    for d' va'
    using only_pages_sel(1) [OF op] by (simp add: td vm_map_def)
  then show ?thesis
    using t td Some store_vm_map [OF assms(1) vm_map_slot(1) [OF Some assms(2,3)], of _ _ 0]
    by (auto simp: page_index_eq)
qed


section \<open>page_insert\<close>


lemma frame_new_pte:
  "pp < 2 ^ 20 \<Longrightarrow> low_perm perm \<Longrightarrow> frame (page2pa pp OR perm OR PTE_P) = pp"
  by (simp add: or.assoc frame_page2pa_or)

text \<open>The last step of page_insert: the count was raised, the slot is empty.\<close>

lemma fill_slot:
  assumes inv: "vm_inv s D (k(pp := Suc (k pp))) xs" and sl: "pt_slot s D d i j"
    and np: "\<not> present (mem s (frame (mem s d i)) j)"
    and pp: "pp < npages s" and perm: "low_perm perm"
  shows "vm_inv (store (frame (mem s d i)) j (page2pa pp OR perm OR PTE_P) s) D k xs"
proof (rule store_inv [OF inv sl])
  have "frame (page2pa pp OR perm OR PTE_P) = pp"
    using frame_new_pte [OF _ perm, of pp] pp vm_inv_npages [OF inv] by simp
  then show "frame (page2pa pp OR perm OR PTE_P) < npages s"
    "k p + of_bool (present (page2pa pp OR perm OR PTE_P) \<and> frame (page2pa pp OR perm OR PTE_P) = p)
     = (k(pp := Suc (k pp))) p + of_bool (present (mem s (frame (mem s d i)) j) \<and>
         frame (mem s (frame (mem s d i)) j) = p)" for p
    using np pp by auto
qed

lemma page_insert_effect:
  assumes inv: "vm_inv s D k xs" and d: "d \<in> D" and va: "user_va va"
    and pp: "pp < npages s" "pp \<notin> set xs" and ref: "unat (pp_ref (pages s pp)) < 65535"
    and perm: "low_perm perm"
    and room: "present (mem s d (unat (PDX va))) \<or> xs \<noteq> []"
  shows "\<exists>t ys. page_insert d pp va perm s = Ret 0 t \<and> vm_inv t D k ys \<and>
    (\<forall>d' \<in> D. \<forall>va'. user_va va' \<longrightarrow>
       vm_map t d' va' = (if d' = d \<and> PGNUM va' = PGNUM va
                          then Some (page2pa pp OR perm OR PTE_P) else vm_map s d' va')) \<and>
    vm_frame s t \<and> (leak_but pp s xs \<longrightarrow> leak_free t ys) \<and>
    (\<forall>q. q \<noteq> d \<longrightarrow> q \<notin> set xs \<longrightarrow>
       \<not> (present (mem s d (unat (PDX va))) \<and> frame (mem s d (unat (PDX va))) = q) \<longrightarrow> mem t q = mem s q) \<and>
    dirs_grow s D xs t \<and>
    (\<forall>q \<in> set ys. q \<in> set xs \<or> (\<exists>w. vm_map s d va = Some w \<and> q = frame w \<and> q \<noteq> pp)) \<and>
    length xs \<le> length ys + of_bool (\<not> present (mem s d (unat (PDX va))))"
proof -
  let ?i = "unat (PDX va)" and ?j = "unat (PTX va)" and ?w = "page2pa pp OR perm OR PTE_P"
  obtain t ys where
    walk: "pgdir_walk d va True s = Ret (Some (frame (mem t d ?i), ?j)) t" and
    invt: "vm_inv t D k ys" and ys: "ys = xs \<or> ys = tl xs" and sl: "pt_slot t D d ?i ?j" and
    same: "same_maps s t D" and fr: "vm_frame s t" and pg: "pages t pp = pages s pp" and
    mt: "\<And>q. q \<noteq> d \<Longrightarrow> q \<notin> set xs \<Longrightarrow> mem t q = mem s q" and
    lk: "leak_but pp s xs \<Longrightarrow> leak_but pp t ys" and
    tab: "present (mem s d ?i) \<Longrightarrow> mem t d ?i = mem s d ?i"
      "\<not> present (mem s d ?i) \<Longrightarrow> frame (mem t d ?i) \<in> set xs" and
    grow: "dirs_grow s D xs t" and keep: "present (mem s d ?i) \<Longrightarrow> ys = xs"
    by (rule pgdir_walk_True [OF inv d va room], rule that) (use pp(2) in \<open>assumption | blast\<close>)+
  let ?f = "frame (mem t d ?i)"
  have np: "npages t = npages s" using vm_frame_sel [OF fr] by simp
  let ?s1 = "inc_ref pp t"
  have fr1: "vm_frame t ?s1"
    by (rule only_pages_frame) (simp add: only_pages_def inc_ref_def set_ref_def)
  have inv1: "vm_inv ?s1 D (k(pp := Suc (k pp))) ys"
    using inc_ref_inv [OF invt, of pp] pp ys ref np pg list.set_sel(2) [of xs pp]
    by (cases xs) auto
  have sl1: "pt_slot ?s1 D d ?i ?j" using sl by (simp add: pt_slot_def)
  have "pp_ref (pages t pp) + 1 \<noteq> 0" using unat_inc16 [OF ref] pg by auto
  then have lk1: "leak_but pp s xs \<longrightarrow> leak_free ?s1 ys"
    using lk by (auto simp: leak_but_def leak_free_def)
  obtain t2 zs e where t2: "(if mem ?s1 ?f ?j AND PTE_P \<noteq> 0
        then page_remove d va ?s1 else Ret () ?s1) = Ret () t2"
    "vm_inv t2 D (k(pp := Suc (k pp))) zs" "mem t2 = (mem t)(?f := (mem t ?f)(?j := e))"
    "\<not> present e" "vm_frame ?s1 t2" "leak_free ?s1 ys \<longrightarrow> leak_free t2 zs"
    "\<forall>q \<in> set zs. q \<in> set ys \<or> (\<exists>w. vm_map ?s1 d va = Some w \<and> q = frame w)"
    "set ys \<subseteq> set zs"
  proof (cases "present (mem t ?f ?j)")
    case False
    then show thesis
      using that [of ?s1 ys "mem t ?f ?j"] inv1 by (simp add: present_def)
  next
    case True
    then obtain w where m: "vm_map ?s1 d va = Some w"
      using sl by (simp add: vm_map_def pt_slot_def)
    from page_remove_mapped [OF inv1 d va m] obtain t2 zs u where
      "page_remove d va ?s1 = Ret () t2" "vm_inv t2 D (k(pp := Suc (k pp))) zs" and u: "only_pages ?s1 u" and
      tu: "t2 = (store ?f ?j 0 u)
          \<lparr>invlpgs := (if tlb_active ?s1 d then va # invlpgs ?s1 else invlpgs ?s1)\<rparr>" and
      "leak_free ?s1 ys \<longrightarrow> leak_free t2 zs" "set zs \<subseteq> insert (frame w) (set ys)" "set ys \<subseteq> set zs"
      by (metis inc_ref_sel(1))
    moreover have "vm_frame ?s1 t2"
      unfolding tu by (rule vm_frame_trans [OF vm_frame_trans [OF only_pages_frame [OF u] store_frame] invlpgs_frame])
    ultimately show thesis
      using that [of t2 zs 0] True only_pages_sel(1) [OF u] m by (auto simp: present_def)
  qed
  have np2: "npages t2 = npages s" using vm_frame_sel(1) [OF t2(5)] np by simp
  have ft: "?f \<noteq> d" using pt_slot_table(1) [OF invt sl] d by auto
  have dir2: "mem t2 d = mem t d" unfolding t2(3) using ft by simp
  have sl2: "pt_slot t2 D d ?i ?j" using sl dir2 by (simp add: pt_slot_def)
  let ?t = "store ?f ?j ?w t2"
  have "page_insert d pp va perm s = Ret 0 ?t"
    using t2(1) by (simp add: page_insert_def walk Let_def del: inc_ref_sel split: if_splits)
  moreover have "vm_inv ?t D k zs"
    using fill_slot [OF t2(2) sl2 _ _ perm] t2(3,4) np2 pp(1) dir2 by simp
  moreover have "vm_map ?t d' va' = (if d' = d \<and> PGNUM va' = PGNUM va then Some ?w else vm_map s d' va')"
    if "d' \<in> D" "user_va va'" for d' va'
  proof -
    have "mem ?t = mem (store ?f ?j ?w t)"
      by (simp add: t2(3))
    then have "vm_map ?t d' va' = vm_map (store ?f ?j ?w t) d' va'"
      by (rule vm_map_cong)
    then show ?thesis
      using store_vm_map [OF invt sl that, of ?w] same that page_index_eq [of va' va]
      by (auto simp: same_maps_def)
  qed
  moreover have "vm_frame s ?t"
    by (rule vm_frame_trans [OF vm_frame_trans [OF vm_frame_trans [OF fr fr1] t2(5)] store_frame])
  moreover have "leak_but pp s xs \<longrightarrow> leak_free ?t zs"
    using lk1 t2(6) by (auto simp: leak_free_def)
  moreover have "mem ?t q = mem s q"
    if "q \<noteq> d" "q \<notin> set xs" "\<not> (present (mem s d ?i) \<and> frame (mem s d ?i) = q)" for q
  proof -
    have "q \<noteq> ?f" using tab that by (cases "present (mem s d ?i)") auto
    then show ?thesis using mt [OF that(1,2)] by (simp add: t2(3))
  qed
  moreover have "dirs_grow s D xs ?t"
    using grow pt_slot_table(1) [OF invt sl] by (auto simp: dirs_grow_def t2(3))
  moreover have "q \<in> set xs \<or> (\<exists>w. vm_map s d va = Some w \<and> q = frame w \<and> q \<noteq> pp)" if q: "q \<in> set zs" for q
  proof -
    have "q \<noteq> pp" using free_unreferenced(2) [OF t2(2) q] by auto
    moreover have "vm_map ?s1 d va = vm_map s d va"
      using same d va vm_map_cong [of ?s1 t] by (simp add: same_maps_def)
    moreover have "set ys \<subseteq> set xs" using ys by (cases xs) auto
    ultimately show ?thesis using t2(7) q by auto
  qed
  moreover have "length xs \<le> length zs + of_bool (\<not> present (mem s d ?i))"
  proof -
    have "distinct ys" using invt by (simp add: vm_inv_def free_list_ok_def)
    then have "length ys = card (set ys)" by (simp add: distinct_card)
    also have "\<dots> \<le> length zs" using card_mono [OF _ t2(8)] card_length [of zs] by force
    finally show ?thesis using keep ys by (cases "present (mem s d ?i)") auto
  qed
  ultimately show ?thesis by blast
qed

lemma page_insert_full:
  assumes "vm_inv s D k []" "\<not> present (mem s d (unat (PDX va)))"
  shows "page_insert d pp va perm s = Ret (- E_NO_MEM) s"
  using pgdir_walk_full [OF assms] by (simp add: page_insert_def)


section \<open>What a removal leaves alone\<close>

text \<open>
  A state reached from s0 by removing mappings: the handles k still account for
  every count, the directories are as they were, and no page was lost.
\<close>

definition vm_from :: "kstate \<Rightarrow> nat list \<Rightarrow> (nat \<Rightarrow> nat) \<Rightarrow> kstate \<Rightarrow> nat set \<Rightarrow> bool" where
  "vm_from s0 xs0 k s D \<longleftrightarrow>
     (\<exists>xs. vm_inv s D k xs \<and> set xs0 \<subseteq> set xs \<and> (leak_free s0 xs0 \<longrightarrow> leak_free s xs)) \<and>
     vm_frame s0 s \<and> (\<forall>d \<in> D. mem s d = mem s0 d)"

lemma page_remove_from:
  assumes from_s: "vm_from s0 xs0 k s D" and d: "d \<in> D" and va: "user_va va"
  shows "\<exists>t. page_remove d va s = Ret () t \<and> vm_from s0 xs0 k t D \<and>
    (\<forall>d' \<in> D. \<forall>va'. user_va va' \<longrightarrow>
       vm_map t d' va' = (if d' = d \<and> PGNUM va' = PGNUM va then None else vm_map s d' va'))"
proof -
  obtain xs where inv: "vm_inv s D k xs" and xs: "set xs0 \<subseteq> set xs" "leak_free s0 xs0 \<longrightarrow> leak_free s xs"
    and fr: "vm_frame s0 s" and dirs: "\<forall>d \<in> D. mem s d = mem s0 d"
    using from_s by (auto simp: vm_from_def)
  from page_remove_effect [OF inv d va] obtain t zs where t: "page_remove d va s = Ret () t"
    and maps: "\<forall>d' \<in> D. \<forall>va'. user_va va' \<longrightarrow>
       vm_map t d' va' = (if d' = d \<and> PGNUM va' = PGNUM va then None else vm_map s d' va')"
    by blast
  have "vm_from s0 xs0 k t D"
  proof (cases "vm_map s d va")
    case None
    then show ?thesis using page_remove_unmapped [OF inv d va] t from_s by simp
  next
    case (Some w)
    from page_remove_mapped [OF inv d va Some] t obtain ys u where
      ys: "vm_inv t D k ys" "set xs \<subseteq> set ys" "leak_free s xs \<longrightarrow> leak_free t ys" and
      u: "only_pages s u" and
      tu: "t = (store (frame (mem s d (unat (PDX va)))) (unat (PTX va)) 0 u)
                 \<lparr>invlpgs := (if tlb_active s d then va # invlpgs s else invlpgs s)\<rparr>"
      by (metis kres.inject(1))
    have "vm_frame s t"
      unfolding tu by (rule vm_frame_trans [OF vm_frame_trans [OF only_pages_frame [OF u] store_frame] invlpgs_frame])
    moreover have "mem t d' = mem s d'" if "d' \<in> D" for d'
      using that pt_slot_table(1) [OF inv vm_map_slot(1) [OF Some d va]] only_pages_sel(1) [OF u]
      by (auto simp: tu)
    ultimately show ?thesis
      using ys xs fr dirs vm_frame_trans [OF fr] unfolding vm_from_def by auto
  qed
  with t maps show ?thesis by blast
qed

section \<open>The interface: address spaces\<close>

text \<open>
  What the callers of the page tables rely on. view is the mapping of a legal
  address in a space, page_of the granularity at which mappings are made. A
  client sees that unmapping and mapping act on one page of one space.
\<close>

locale addr_space =
  fixes ok :: "'s \<Rightarrow> 'd set \<Rightarrow> bool"
    and view :: "'s \<Rightarrow> 'd \<Rightarrow> 'a \<Rightarrow> 'm option"
    and legal :: "'a \<Rightarrow> bool"
    and page_of :: "'a \<Rightarrow> 'n"
    and unmap :: "'d \<Rightarrow> 'a \<Rightarrow> 's \<Rightarrow> (unit, 's) kres"
  assumes unmap_law: "ok s D \<Longrightarrow> d \<in> D \<Longrightarrow> legal a \<Longrightarrow>
    \<exists>t. unmap d a s = Ret () t \<and> ok t D \<and>
      (\<forall>d' \<in> D. \<forall>b. legal b \<longrightarrow>
         view t d' b = (if d' = d \<and> page_of b = page_of a then None else view s d' b))"
begin

lemma unmap_all:
  assumes "ok s D" "d \<in> D" "\<forall>a \<in> set as. legal a"
  shows "\<exists>t. kforeach (unmap d) as s = Ret () t \<and> ok t D \<and>
    (\<forall>d' \<in> D. \<forall>b. legal b \<longrightarrow>
       view t d' b = (if d' = d \<and> page_of b \<in> page_of ` set as then None else view s d' b))"
  using assms
proof (induction as arbitrary: s)
  case Nil
  then show ?case by simp
next
  case (Cons a as)
  obtain u where u: "unmap d a s = Ret () u" "ok u D"
    "\<forall>d' \<in> D. \<forall>b. legal b \<longrightarrow>
       view u d' b = (if d' = d \<and> page_of b = page_of a then None else view s d' b)"
    using unmap_law [of s D d a] Cons.prems by auto
  obtain t where t: "kforeach (unmap d) as u = Ret () t" "ok t D"
    "\<forall>d' \<in> D. \<forall>b. legal b \<longrightarrow>
       view t d' b = (if d' = d \<and> page_of b \<in> page_of ` set as then None else view u d' b)"
    using Cons.IH [OF u(2)] Cons.prems by auto
  then show ?case using u by (auto intro!: exI [of _ t])
qed

lemma unmap_twice:
  assumes "ok s D" "d \<in> D" "legal a" "legal b"
  shows "\<exists>t u. kforeach (unmap d) [a, b] s = Ret () t \<and> kforeach (unmap d) [b, a] s = Ret () u \<and>
    (\<forall>d' \<in> D. \<forall>c. legal c \<longrightarrow> view t d' c = view u d' c)"
proof -
  obtain t where "kforeach (unmap d) [a, b] s = Ret () t"
    "\<forall>d' \<in> D. \<forall>c. legal c \<longrightarrow>
       view t d' c = (if d' = d \<and> page_of c \<in> page_of ` set [a, b] then None else view s d' c)"
    using unmap_all [of s D d "[a, b]"] assms by auto
  moreover obtain u where "kforeach (unmap d) [b, a] s = Ret () u"
    "\<forall>d' \<in> D. \<forall>c. legal c \<longrightarrow>
       view u d' c = (if d' = d \<and> page_of c \<in> page_of ` set [b, a] then None else view s d' c)"
    using unmap_all [of s D d "[b, a]"] assms by auto
  ultimately show ?thesis by (auto simp: insert_commute)
qed

end

locale mem_space = addr_space ok view legal page_of unmap
  for ok :: "'s \<Rightarrow> 'd set \<Rightarrow> bool"
    and view :: "'s \<Rightarrow> 'd \<Rightarrow> 'a \<Rightarrow> 'm option"
    and legal :: "'a \<Rightarrow> bool"
    and page_of :: "'a \<Rightarrow> 'n"
    and unmap :: "'d \<Rightarrow> 'a \<Rightarrow> 's \<Rightarrow> (unit, 's) kres" +
  fixes mappable :: "'s \<Rightarrow> 'p \<Rightarrow> 'f \<Rightarrow> bool"
    and entry :: "'p \<Rightarrow> 'f \<Rightarrow> 'm"
    and map_at :: "'d \<Rightarrow> 'p \<Rightarrow> 'a \<Rightarrow> 'f \<Rightarrow> 's \<Rightarrow> (int, 's) kres"
  assumes map_law: "ok s D \<Longrightarrow> d \<in> D \<Longrightarrow> legal a \<Longrightarrow> mappable s p f \<Longrightarrow>
    \<exists>r t. map_at d p a f s = Ret r t \<and> ok t D \<and>
      (\<forall>d' \<in> D. \<forall>b. legal b \<longrightarrow>
         view t d' b = (if r = 0 \<and> d' = d \<and> page_of b = page_of a then Some (entry p f)
                        else view s d' b))"
begin

lemma map_view:
  assumes "ok s D" "d \<in> D" "legal a" "mappable s p f" "map_at d p a f s = Ret 0 t"
  shows "view t d a = Some (entry p f)"
  using map_law [OF assms(1-4)] assms by auto

text \<open>Mapping a page and unmapping it again leaves only that page changed, and it unmapped.\<close>

lemma map_unmap:
  assumes "ok s D" "d \<in> D" "legal a" "mappable s p f" "map_at d p a f s = Ret 0 t"
  shows "\<exists>u. unmap d a t = Ret () u \<and> ok u D \<and>
    (\<forall>d' \<in> D. \<forall>b. legal b \<longrightarrow>
       view u d' b = (if d' = d \<and> page_of b = page_of a then None else view s d' b))"
proof -
  have t: "ok t D" "\<forall>d' \<in> D. \<forall>b. legal b \<longrightarrow>
      view t d' b = (if d' = d \<and> page_of b = page_of a then Some (entry p f) else view s d' b)"
    using map_law [OF assms(1-4)] assms(5) by auto
  then show ?thesis using unmap_law [OF t(1) assms(2,3)] by fastforce
qed

end

definition vm_ok :: "kstate \<Rightarrow> nat set \<Rightarrow> bool" where
  "vm_ok s D \<longleftrightarrow> (\<exists>k xs. vm_inv s D k xs)"

text \<open>A page in use whose count has room for one more mapping.\<close>

definition mappable_page :: "kstate \<Rightarrow> nat \<Rightarrow> 32 word \<Rightarrow> bool" where
  "mappable_page s pp perm \<longleftrightarrow>
     pp < npages s \<and> pp_ref (pages s pp) \<noteq> 0 \<and> unat (pp_ref (pages s pp)) < 65535 \<and> low_perm perm"

lemma vm_ok_insert:
  assumes "vm_ok s D" "d \<in> D" "user_va va" "mappable_page s pp perm"
  shows "\<exists>r t. page_insert d pp va perm s = Ret r t \<and> vm_ok t D \<and>
    (\<forall>d' \<in> D. \<forall>va'. user_va va' \<longrightarrow>
       vm_map t d' va' = (if r = 0 \<and> d' = d \<and> PGNUM va' = PGNUM va
                          then Some (page2pa pp OR perm OR PTE_P) else vm_map s d' va'))"
proof -
  obtain k xs where inv: "vm_inv s D k xs" using assms(1) by (auto simp: vm_ok_def)
  have pp: "pp < npages s" "pp \<notin> set xs" "unat (pp_ref (pages s pp)) < 65535" "low_perm perm"
    using assms(4) free_unreferenced(4) [OF inv] by (auto simp: mappable_page_def)
  show ?thesis
  proof (cases "present (mem s d (unat (PDX va))) \<or> xs \<noteq> []")
    case True
    from page_insert_effect [OF inv assms(2,3) pp True] obtain t ys where
      "page_insert d pp va perm s = Ret 0 t" "vm_inv t D k ys"
      "\<forall>d' \<in> D. \<forall>va'. user_va va' \<longrightarrow>
         vm_map t d' va' = (if d' = d \<and> PGNUM va' = PGNUM va
                            then Some (page2pa pp OR perm OR PTE_P) else vm_map s d' va')"
      by blast
    then show ?thesis unfolding vm_ok_def by (intro exI [of _ 0] exI [of _ t]) auto
  next
    case False
    then show ?thesis
      using page_insert_full [of s D k d va pp perm] inv assms(1) by (auto simp: error_defs)
  qed
qed

interpretation kspace: mem_space vm_ok vm_map user_va PGNUM page_remove
  mappable_page "\<lambda>pp perm. page2pa pp OR perm OR PTE_P" page_insert
proof unfold_locales
  fix s :: kstate and D d va
  assume "vm_ok s D" "d \<in> D" "user_va va"
  then show "\<exists>t. page_remove d va s = Ret () t \<and> vm_ok t D \<and>
      (\<forall>d' \<in> D. \<forall>b. user_va b \<longrightarrow>
         vm_map t d' b = (if d' = d \<and> PGNUM b = PGNUM va then None else vm_map s d' b))"
    using page_remove_effect unfolding vm_ok_def by blast
qed (rule vm_ok_insert)

text \<open>The same interface, keeping track of what a sequence of removals leaves alone.\<close>

interpretation kremove: addr_space "vm_from s0 xs0 k" vm_map user_va PGNUM page_remove for s0 xs0 k
  by unfold_locales (rule page_remove_from)

end
