(* ===== verification/Pmap_Props.thy ===== *)
theory Pmap_Props
  imports Pmap_Map
begin

text \<open>
  What kern/pmap.c guarantees to its callers: the effect of page_insert, page_remove and
  page_lookup on every address space, the answer of user_mem_check on every range (and
  where its 32-bit arithmetic makes it answer for no range at all), and what page_free
  does to a page that is already free. The examples use a small machine with two address
  spaces.
\<close>

section \<open>A machine with two address spaces\<close>

text \<open>
  Eight frames: 1 and 2 are empty page directories, 0, 6 and 7 pages in use by the kernel (one
  handle each), 3, 4 and 5 are free.
\<close>

definition demo_vm :: kstate where
  "demo_vm = (blank_state 8 8)\<lparr>page_free_list := Some 3,
     pages := (\<lambda>_. \<lparr>pp_link = None, pp_ref = 0\<rparr>)
       (0 := \<lparr>pp_link = None, pp_ref = 1\<rparr>, 1 := \<lparr>pp_link = None, pp_ref = 1\<rparr>,
        2 := \<lparr>pp_link = None, pp_ref = 1\<rparr>, 6 := \<lparr>pp_link = None, pp_ref = 1\<rparr>,
        7 := \<lparr>pp_link = None, pp_ref = 1\<rparr>,
        3 := \<lparr>pp_link = Some 4, pp_ref = 0\<rparr>, 4 := \<lparr>pp_link = Some 5, pp_ref = 0\<rparr>)\<rparr>"

definition demo_handles :: "nat \<Rightarrow> nat" where
  "demo_handles = (\<lambda>_. 0)(0 := 1, 6 := 1, 7 := 1)"

lemma demo_vm_sel [simp]:
  "mem demo_vm = (\<lambda>_ _. 0)" "npages demo_vm = 8" "curenv demo_vm = None" "invlpgs demo_vm = []"
  "pp_ref (pages demo_vm 6) = 1"
  by (simp_all add: demo_vm_def blank_state_def)

lemma demo_vm_refs: "refs demo_vm D p = (if p \<in> D then {(p, 1024, 0)} else {})"
  by (auto simp: refs_def is_ref_def NUSER_eq)

lemma demo_vm_inv: "vm_inv demo_vm {1, 2} demo_handles [3, 4, 5]"
proof -
  have "free_list_ok demo_vm [3, 4, 5]"
    by (simp add: free_list_ok_def demo_vm_def blank_state_def)
  moreover have "tables_ok demo_vm {1, 2}"
    by (simp add: tables_ok_def)
  moreover have "counts_ok demo_vm {1, 2} demo_handles"
    unfolding counts_ok_def demo_vm_refs
    by (auto simp: demo_vm_def blank_state_def demo_handles_def less_Suc_eq numeral_eq_Suc)
  ultimately show ?thesis by (simp add: vm_inv_def)
qed

lemma demo_vm_map [simp]: "vm_map demo_vm d va = None"
  by (simp add: vm_map_def)

lemma user_va_0 [simp]: "user_va 0"
  by (simp add: user_va_UTOP layout_values)

section \<open>Mapping and unmapping\<close>

text \<open>
  C1. page_insert, given a page in use or just allocated, permission bits in the low 12
  bits and a user address, returns 0 exactly when the page table is there or a page is
  left for it. It then maps the page at that address and changes no other mapping of any
  address space, whatever was mapped there before (the same page included); otherwise it
  returns -E_NO_MEM and changes nothing. The reference counts stay exact.
\<close>

theorem page_insert_correct:
  assumes "vm_inv s D k xs" "d \<in> D" "user_va va"
    and "pp < npages s" "pp \<notin> set xs" "unat (pp_ref (pages s pp)) < 65535" "low_perm perm"
  shows "if present (mem s d (unat (PDX va))) \<or> xs \<noteq> []
         then \<exists>t ys. page_insert d pp va perm s = Ret 0 t \<and> vm_inv t D k ys \<and>
                (\<forall>d' \<in> D. \<forall>va'. user_va va' \<longrightarrow>
                   vm_map t d' va' = (if d' = d \<and> PGNUM va' = PGNUM va
                                      then Some (page2pa pp OR perm OR PTE_P) else vm_map s d' va'))
         else page_insert d pp va perm s = Ret (- E_NO_MEM) s"
proof (cases "present (mem s d (unat (PDX va))) \<or> xs \<noteq> []")
  case True
  then show ?thesis unfolding if_P [OF True] using page_insert_effect [OF assms True] by blast
next
  case False
  then show ?thesis using page_insert_full [of s D k d va pp perm] assms(1) by simp
qed

theorem page_insert_correct_witness:
  "\<exists>t ys. page_insert 1 6 0 PTE_W demo_vm = Ret 0 t \<and> vm_inv t {1, 2} demo_handles ys \<and>
     vm_map t 1 0 = Some (page2pa 6 OR PTE_W OR PTE_P) \<and> vm_map t 2 0 = None"
  using page_insert_correct [OF demo_vm_inv, of 1 0 6 PTE_W] by auto

text \<open>
  C5. page_remove unmaps exactly the page of the given address in one address space. No
  other mapping of any address space changes, no free page is lost, the reference counts
  stay exact, and the TLB entry of the address is flushed when something was mapped and
  the address space is the one in use.
\<close>

theorem page_remove_correct:
  assumes "vm_inv s D k xs" "d \<in> D" "user_va va"
  shows "\<exists>t ys. page_remove d va s = Ret () t \<and> vm_inv t D k ys \<and> set xs \<subseteq> set ys \<and>
    (\<forall>d' \<in> D. \<forall>va'. user_va va' \<longrightarrow>
       vm_map t d' va' = (if d' = d \<and> PGNUM va' = PGNUM va then None else vm_map s d' va')) \<and>
    invlpgs t = (if vm_map s d va \<noteq> None \<and> tlb_active s d then va # invlpgs s else invlpgs s)"
  by (rule page_remove_effect [OF assms])

lemma demo_insert:
  obtains t ys where "page_insert 1 6 0 PTE_W demo_vm = Ret 0 t" "vm_inv t {1, 2} demo_handles ys"
    "vm_map t 1 0 = Some (page2pa 6 OR PTE_W OR PTE_P)" "vm_map t 2 0 = None"
  using page_insert_effect [OF demo_vm_inv, of 1 0 6 PTE_W] that by auto

theorem page_remove_correct_witness:
  "\<exists>s t ys. page_insert 1 6 0 PTE_W demo_vm = Ret 0 s \<and> vm_map s 1 0 \<noteq> None \<and>
     page_remove 1 0 s = Ret () t \<and> vm_inv t {1, 2} demo_handles ys \<and> vm_map t 1 0 = None"
proof -
  obtain s ys where s: "page_insert 1 6 0 PTE_W demo_vm = Ret 0 s" "vm_inv s {1, 2} demo_handles ys"
    "vm_map s 1 0 = Some (page2pa 6 OR PTE_W OR PTE_P)"
    by (rule demo_insert)
  obtain t zs where "page_remove 1 0 s = Ret () t" "vm_inv t {1, 2} demo_handles zs" "vm_map t 1 0 = None"
    using page_remove_correct [OF s(2), of 1 0] by auto
  then show ?thesis using s by (intro exI [of _ s] exI [of _ t] exI [of _ zs]) simp
qed

text \<open>
  page_lookup finds the page an address is mapped to, and the slot that holds the
  mapping, without changing anything.
\<close>

theorem page_lookup_correct:
  assumes "vm_inv s D k xs" "d \<in> D" "user_va va"
  shows "\<exists>slot. page_lookup d va s = Ret (map_option frame (vm_map s d va), slot) s \<and>
    (\<forall>w. vm_map s d va = Some w \<longrightarrow> (\<exists>f j. slot = Some (f, j) \<and> mem s f j = w))"
proof (cases "vm_map s d va")
  case None
  then show ?thesis using page_lookup_result [OF assms] by simp
next
  case (Some w)
  note sl = vm_map_slot [OF Some assms(2,3)]
  show ?thesis
    unfolding page_lookup_result [OF assms] using sl(2) Some sl(1) [unfolded pt_slot_def]
    by (intro exI [of _ "Some (frame (mem s d (unat (PDX va))), unat (PTX va))"]) simp
qed

theorem page_lookup_correct_witness:
  "\<exists>s slot. page_insert 1 6 0 PTE_W demo_vm = Ret 0 s \<and> page_lookup 1 0 s = Ret (Some 6, slot) s"
proof -
  obtain s ys where s: "page_insert 1 6 0 PTE_W demo_vm = Ret 0 s" "vm_inv s {1, 2} demo_handles ys"
    "vm_map s 1 0 = Some (page2pa 6 OR PTE_W OR PTE_P)"
    by (rule demo_insert)
  have "frame (page2pa 6 OR PTE_W OR PTE_P) = 6" by (rule frame_new_pte) simp_all
  then show ?thesis using page_lookup_correct [OF s(2), of 1 0] s(1,3) by auto
qed

section \<open>Checking user memory\<close>

text \<open>The page at a may be accessed with perm by the owner of directory d.\<close>

definition user_ok :: "kstate \<Rightarrow> nat \<Rightarrow> 32 word \<Rightarrow> 32 word \<Rightarrow> bool" where
  "user_ok s d perm a \<longleftrightarrow>
     a < ULIM \<and> (case vm_map s d a of None \<Rightarrow> False | Some w \<Rightarrow> w AND perm = perm)"

text \<open>Every table of the directory, the kernel's part included, is a real page.\<close>

definition walkable :: "kstate \<Rightarrow> nat \<Rightarrow> bool" where
  "walkable s d \<longleftrightarrow> (\<forall>i < 1024. present (mem s d i) \<longrightarrow> frame (mem s d i) < npages s)"

lemma pgdir_walk_look:
  assumes "walkable s d"
  shows "pgdir_walk d va False s =
    Ret (if present (mem s d (unat (PDX va)))
         then Some (frame (mem s d (unat (PDX va))), unat (PTX va)) else None) s"
proof (cases "present (mem s d (unat (PDX va)))")
  case True
  let ?e = "mem s d (unat (PDX va))"
  have "unat (PGNUM (PTE_ADDR ?e)) < npages s"
    using assms True PDX_less by (simp add: walkable_def frame_def PGNUM_PTE_ADDR)
  then obtain kva where "KADDR (npages s) (PTE_ADDR ?e) = Some kva" "kva_frame kva = frame ?e"
    using KADDR_Some [of "PTE_ADDR ?e" "npages s"] by (auto simp: frame_def PGNUM_PTE_ADDR)
  then show ?thesis using True by (simp add: pgdir_walk_def Let_def present_def)
qed (simp add: pgdir_walk_miss)

definition page_addr :: "nat \<Rightarrow> 32 word" where
  "page_addr a = of_nat a * PGSIZE"

lemma unat_page_addr: "a < 2 ^ 20 \<Longrightarrow> unat (page_addr a) = 4096 * a"
proof -
  assume "a < 2 ^ 20"
  then have "page_addr a = of_nat (4096 * a)" by (simp add: page_addr_def PGSIZE_def)
  then show ?thesis using \<open>a < 2 ^ 20\<close> by (simp add: unat_of_nat_32 del: of_nat_mult)
qed

lemma page_addr_Suc: "page_addr (Suc a) = page_addr a + PGSIZE"
  by (simp add: page_addr_def algebra_simps)

lemma user_mem_check_loop_result:
  assumes "walkable s d" "m \<le> fuel" "a + m < 2 ^ 20"
  shows "user_mem_check_loop fuel d va (page_addr (a + m)) perm (page_addr a) s =
    (case find (\<lambda>p. \<not> user_ok s d perm p) (map page_addr [a..<a + m]) of
       None \<Rightarrow> Ret 0 s
     | Some p \<Rightarrow> Ret (- E_FAULT) (s\<lparr>user_mem_check_addr := (if p < va then va else p)\<rparr>))"
  using assms(2,3)
proof (induction m arbitrary: a fuel)
  case 0
  then show ?case by (simp add: user_mem_check_loop.simps)
next
  case (Suc m)
  let ?p = "page_addr a"
  have lt: "?p < page_addr (a + Suc m)"
    using Suc.prems by (simp add: word_less_nat_alt unat_page_addr)
  have ups: "[a..<a + Suc m] = a # [Suc a..<Suc a + m]"
    by (simp add: upt_conv_Cons del: upt_Suc)
  have bad: "?p \<ge> ULIM \<or> (case (if present (mem s d (unat (PDX ?p)))
         then Some (frame (mem s d (unat (PDX ?p))), unat (PTX ?p)) else None) of
           None \<Rightarrow> True
         | Some (f, j) \<Rightarrow> mem s f j AND PTE_P = 0 \<or> mem s f j AND perm \<noteq> perm)
      \<longleftrightarrow> \<not> user_ok s d perm ?p"
    by (auto simp: user_ok_def vm_map_def Let_def present_def)
  have step: "user_mem_check_loop fuel d va (page_addr (a + Suc m)) perm ?p s =
      (if \<not> user_ok s d perm ?p
       then Ret (- E_FAULT) (s\<lparr>user_mem_check_addr := (if ?p < va then va else ?p)\<rparr>)
       else user_mem_check_loop (fuel - 1) d va (page_addr (a + Suc m)) perm (page_addr (Suc a)) s)"
    using lt Suc.prems bad
    by (subst user_mem_check_loop.simps) (simp add: pgdir_walk_look [OF assms(1)] page_addr_Suc)
  show ?case
    using Suc.IH [of "fuel - 1" "Suc a"] Suc.prems
    unfolding step ups by (simp del: upt_Suc)
qed

lemma ROUNDDOWN_page: "ROUNDDOWN va PGSIZE = page_addr (unat va div 4096)"
proof (rule word_unat_eq_iff [THEN iffD2])
  have "unat va div 4096 < 2 ^ 20" using unat_32_less [of va] by simp
  then have "unat (page_addr (unat va div 4096)) = 4096 * (unat va div 4096)"
    by (rule unat_page_addr)
  moreover have "unat (va - va mod PGSIZE) = unat va - unat va mod 4096"
    by (subst unat_sub) (simp_all add: word_le_nat_alt unat_mod PGSIZE_def)
  ultimately show "unat (ROUNDDOWN va PGSIZE) = unat (page_addr (unat va div 4096))"
    by (simp add: ROUNDDOWN_def minus_mod_eq_mult_div)
qed

lemma ROUNDUP_page_wrap: "ROUNDUP va PGSIZE = page_addr ((unat va + 4095) mod 2 ^ 32 div 4096)"
proof -
  have "unat (va + 4095) = (unat va + 4095) mod 2 ^ 32" by (simp add: unat_word_ariths)
  then show ?thesis
    unfolding ROUNDUP_def ROUNDDOWN_page by (simp add: PGSIZE_def add.commute)
qed

lemma ROUNDUP_page: "unat va + 4095 < 2 ^ 32 \<Longrightarrow> ROUNDUP va PGSIZE = page_addr ((unat va + 4095) div 4096)"
  unfolding ROUNDUP_page_wrap by (simp only: mod_less)

text \<open>The pages looked at, also when the end of the range wraps around.\<close>

lemma user_mem_check_pages:
  assumes "env_pgdir (envs s e) = Some d" "walkable s d"
  shows "user_mem_check e va len perm s =
    (case find (\<lambda>p. \<not> user_ok s d perm p)
            (map page_addr [unat va div 4096..<(unat va + unat len + 4095) mod 2 ^ 32 div 4096]) of
       None \<Rightarrow> Ret 0 s
     | Some p \<Rightarrow> Ret (- E_FAULT) (s\<lparr>user_mem_check_addr := (if p < va then va else p)\<rparr>))"
proof -
  let ?a = "unat va div 4096" and ?b = "(unat va + unat len + 4095) mod 2 ^ 32 div 4096"
  have small: "?a < 2 ^ 20" "?b < 2 ^ 20" using unat_32_less [of va] by simp_all
  have end_va: "ROUNDUP (va + len) PGSIZE = page_addr ?b"
    unfolding ROUNDUP_page_wrap by (simp add: unat_word_ariths mod_add_left_eq)
  show ?thesis
  proof (cases "?a \<le> ?b")
    case True
    then show ?thesis
      using user_mem_check_loop_result [OF assms(2), of "?b - ?a" "2 ^ 20" ?a va perm] small
      by (simp add: user_mem_check_def ROUNDDOWN_page assms(1) end_va del: power_numeral)
  next
    case False
    then have "\<not> page_addr ?a < page_addr ?b"
      using small by (simp add: word_less_nat_alt unat_page_addr)
    then show ?thesis using False
      by (simp add: user_mem_check_def ROUNDDOWN_page assms(1) end_va user_mem_check_loop.simps)
  qed
qed

lemma user_mem_check_result:
  assumes "env_pgdir (envs s e) = Some d" "walkable s d"
    and "unat va + unat len + 4095 < 2 ^ 32"
  shows "user_mem_check e va len perm s =
    (case find (\<lambda>p. \<not> user_ok s d perm p)
            (map page_addr [unat va div 4096..<(unat va + unat len + 4095) div 4096]) of
       None \<Rightarrow> Ret 0 s
     | Some p \<Rightarrow> Ret (- E_FAULT) (s\<lparr>user_mem_check_addr := (if p < va then va else p)\<rparr>))"
  using user_mem_check_pages [OF assms(1,2), of va len perm] assms(3) by (simp only: mod_less)

text \<open>
  C14. user_mem_check, for a range that ends at least a page below 2^32, returns 0 exactly
  when every page the range touches is below ULIM and mapped with all the permission bits
  asked for; otherwise it returns -E_FAULT and records the first bad address of the range.
  Nothing else of the state changes. For a range whose rounded end reaches 2^32 the end wraps around and at
  most the first page is looked at: if that is accessible, the answer is 0 whatever the rest of the range is.
\<close>

theorem user_mem_check_correct:
  assumes "env_pgdir (envs s e) = Some d" "walkable s d"
  shows "(unat va + unat len + 4095 < 2 ^ 32 \<longrightarrow>
     user_mem_check e va len perm s =
     (case find (\<lambda>p. \<not> user_ok s d perm p)
             (map page_addr [unat va div 4096..<(unat va + unat len + 4095) div 4096]) of
        None \<Rightarrow> Ret 0 s
      | Some p \<Rightarrow> Ret (- E_FAULT) (s\<lparr>user_mem_check_addr := (if p < va then va else p)\<rparr>))) \<and>
    (2 ^ 32 \<le> unat va + unat len + 4095 \<and> user_ok s d perm (ROUNDDOWN va PGSIZE) \<longrightarrow>
     user_mem_check e va len perm s = Ret 0 s)"
proof (intro conjI impI)
  assume "unat va + unat len + 4095 < 2 ^ 32"
  then show "user_mem_check e va len perm s =
     (case find (\<lambda>p. \<not> user_ok s d perm p)
             (map page_addr [unat va div 4096..<(unat va + unat len + 4095) div 4096]) of
        None \<Rightarrow> Ret 0 s
      | Some p \<Rightarrow> Ret (- E_FAULT) (s\<lparr>user_mem_check_addr := (if p < va then va else p)\<rparr>))"
    by (rule user_mem_check_result [OF assms])
next
  let ?a = "unat va div 4096" and ?n = "unat va + unat len + 4095"
  assume wrap: "2 ^ 32 \<le> ?n \<and> user_ok s d perm (ROUNDDOWN va PGSIZE)"
  then have "?n mod 2 ^ 32 \<le> ?n - 2 ^ 32" by (metis le_mod_geq mod_less_eq_dividend)
  then have "?n mod 2 ^ 32 \<le> unat va + 4094" using unat_32_less [of len] by simp
  then have "?n mod 2 ^ 32 div 4096 \<le> (unat va + 4094) div 4096" by (rule div_le_mono)
  also have "\<dots> \<le> Suc ?a" by simp
  finally have "[?a..<?n mod 2 ^ 32 div 4096] = [] \<or> [?a..<?n mod 2 ^ 32 div 4096] = [?a]"
    by (cases "?a < ?n mod 2 ^ 32 div 4096") (auto simp: le_Suc_eq)
  then show "user_mem_check e va len perm s = Ret 0 s"
    using user_mem_check_pages [OF assms, of va len perm] wrap ROUNDDOWN_page [of va] by fastforce
qed

theorem user_mem_check_correct_witness:
  "user_mem_check 0 0x3FFF 2 PTE_U (demo_vm\<lparr>envs := (\<lambda>_. blank_env\<lparr>env_pgdir := Some 1\<rparr>)\<rparr>) =
     Ret (- E_FAULT) (demo_vm\<lparr>envs := (\<lambda>_. blank_env\<lparr>env_pgdir := Some 1\<rparr>),
                        user_mem_check_addr := 0x3FFF\<rparr>)"
proof -
  have u: "[3..<5] = [3, 4 :: nat]" by (simp add: upt_rec)
  have m: "vm_map (demo_vm\<lparr>envs := e\<rparr>) d a = None" for e d a by (simp add: vm_map_def)
  show ?thesis
    using user_mem_check_correct [of "demo_vm\<lparr>envs := (\<lambda>_. blank_env\<lparr>env_pgdir := Some 1\<rparr>)\<rparr>"
        0 1 "0x3FFF" 2 PTE_U]
    by (simp add: walkable_def u user_ok_def m page_addr_def PGSIZE_def layout_values)
qed

text \<open>
  When the end of the range, rounded up, wraps around to or below its start, user_mem_check
  looks at no page and reports success, whatever the permissions: for instance for any
  address in the last page of memory, which belongs to the kernel, and a length that reaches
  no further than its end.
\<close>

theorem user_mem_check_wraps:
  assumes "ROUNDUP (va + len) PGSIZE \<le> ROUNDDOWN va PGSIZE"
  shows "user_mem_check e va len perm s = Ret 0 s"
  using assms
  by (auto simp: user_mem_check_def user_mem_check_loop.simps Let_def split: option.split)

theorem user_mem_check_wraps_witness:
  "user_mem_check 0 0xFFFFF010 100 (PTE_P OR PTE_U) demo_vm = Ret 0 demo_vm \<and> ULIM \<le> (0xFFFFF010 :: 32 word)"
  using user_mem_check_wraps [of "0xFFFFF010" 100 0 "PTE_P OR PTE_U" demo_vm]
  by (simp add: ROUNDUP_def ROUNDDOWN_def PGSIZE_def layout_values)

section \<open>Freeing a free page\<close>

lemma last_link:
  "chain nxt p xs \<Longrightarrow> distinct xs \<Longrightarrow> x \<in> set xs \<Longrightarrow> nxt x = None \<longleftrightarrow> x = last xs"
proof (induction xs arbitrary: p)
  case Nil
  then show ?case by simp
next
  case (Cons a xs)
  then show ?case by (cases xs) auto
qed

text \<open>
  page_free stops the kernel when it is given a page that is on the free list, unless
  it is the last page of the list: that one has no link, so the free goes through and
  closes the list into a cycle from which the page will be handed out for ever.
\<close>

theorem page_free_twice:
  assumes "free_list_ok s xs" "p \<in> set xs"
  shows "if p = last xs
         then \<exists>t. page_free p s = Ret () t \<and> page_free_list t = Some p \<and>
                pp_link (pages t p) = page_free_list s
         else page_free p s = Exit (Panicked ''pp->pp_ref is nonzero or pp->pp_ref is not NULL'') s"
  using assms last_link [of "\<lambda>i. pp_link (pages s i)" "page_free_list s" xs p]
  by (auto simp: page_free_def free_list_ok_def)

theorem page_free_twice_witness:
  "page_free 3 demo_vm = Exit (Panicked ''pp->pp_ref is nonzero or pp->pp_ref is not NULL'') demo_vm \<and>
   (\<exists>t. page_free 5 demo_vm = Ret () t \<and> page_free_list t = Some 5)"
proof -
  have "free_list_ok demo_vm [3, 4, 5]" using demo_vm_inv by (simp add: vm_inv_def)
  from page_free_twice [OF this, of 3] page_free_twice [OF this, of 5] show ?thesis by auto
qed

end
