(* ===== verification/Bytes.thy ===== *)
theory Bytes
  imports Prelude
begin

text \<open>
  Bytes and words: little-endian access to the bytes of a 32-bit word, as the processor
  does it, and C strings as the lists of their characters without the final NUL.
\<close>

section \<open>The bytes of a word\<close>

definition word_bytes :: "32 word \<Rightarrow> 8 word list" where
  "word_bytes w = map (\<lambda>i. ucast (drop_bit (8 * i) w)) [0..<4]"

definition get_byte :: "nat \<Rightarrow> 32 word \<Rightarrow> 8 word" where
  "get_byte i w = ucast (drop_bit (8 * i) w)"

definition set_byte :: "nat \<Rightarrow> 8 word \<Rightarrow> 32 word \<Rightarrow> 32 word" where
  "set_byte i b w = (w AND NOT (push_bit (8 * i) 0xFF)) OR push_bit (8 * i) (ucast b)"

lemma mask_0xFF: "(0xFF :: 32 word) = mask 8"
  by (simp add: mask_eq_exp_minus_1)

lemma word_bytes_nth [simp]: "i < 4 \<Longrightarrow> word_bytes w ! i = get_byte i w"
  by (simp add: word_bytes_def get_byte_def)

lemma length_word_bytes [simp]: "length (word_bytes w) = 4"
  by (simp add: word_bytes_def)

lemma get_set_byte:
  assumes "i < 4" "j < 4"
  shows "get_byte i (set_byte j b w) = (if i = j then b else get_byte i w)"
proof (rule bit_word_eqI)
  fix n assume n: "n < LENGTH(8)"
  have far: "i \<noteq> j \<Longrightarrow> \<not> (8 * j \<le> 8 * i + n \<and> 8 * i + n < 8 * j + 8)"
    using n by auto
  have top: "8 * i + n < 32" using assms n by simp
  show "bit (get_byte i (set_byte j b w)) n = bit (if i = j then b else get_byte i w) n"
    using n far top
    by (auto simp: get_byte_def set_byte_def mask_0xFF bit_simps dest: bit_imp_le_length)
qed

lemma get_byte_0 [simp]: "get_byte i 0 = 0"
  by (simp add: get_byte_def)

section \<open>Strings\<close>

text \<open>The characters of an ASCII literal.\<close>

definition chars :: "string \<Rightarrow> 8 word list" where
  "chars s = map of_char s"

end
