(* ===== verification/Env_Model.thy ===== *)
theory Env_Model
  imports Pmap Bytes
begin

text \<open>
  kern/env.c and kern/sched.c: the environment table, allocation and release of
  environments, loading of a program image, the context switch and the round-robin
  scheduler. Definitions only. The kernel is built without CONFIG_KSPACE (conf/lab.mk).
  Output arguments are returned: the result of env_alloc is the error or the environment.
\<close>

section \<open>Virtual memory accesses of the kernel\<close>

text \<open>
  The kernel reads and writes user memory through the page directory in CR3. A missing
  entry, or a write to a page without PTE_W (CR0_WP is set in mem_init), is a fault in the
  kernel.
\<close>

definition vtrans :: "kstate \<Rightarrow> 32 word \<Rightarrow> (nat \<times> 32 word) option" where
  "vtrans s va =
     (let e = mem s (cr3 s) (unat (PDX va));
          w = mem s (unat (PGNUM e)) (unat (PTX va))
      in if e AND PTE_P \<noteq> 0 \<and> w AND PTE_P \<noteq> 0 then Some (unat (PGNUM w), e AND w) else None)"

definition vread8 :: "kstate \<Rightarrow> 32 word \<Rightarrow> 8 word option" where
  "vread8 s va =
     (case vtrans s va of
        None \<Rightarrow> None
      | Some (f, _) \<Rightarrow> (let off = unat (PGOFF va) in Some (word_bytes (mem s f (off div 4)) ! (off mod 4))))"

definition vwrite8 :: "32 word \<Rightarrow> 8 word \<Rightarrow> kstate \<Rightarrow> (unit, kstate) kres" where
  "vwrite8 va b s =
     (case vtrans s va of
        None \<Rightarrow> Exit Fault s
      | Some (f, perm) \<Rightarrow>
          if perm AND PTE_W = 0 then Exit Fault s
          else (let off = unat (PGOFF va)
                in Ret () (store f (off div 4) (set_byte (off mod 4) b (mem s f (off div 4))) s)))"

fun vread :: "kstate \<Rightarrow> 32 word \<Rightarrow> nat \<Rightarrow> 8 word list option" where
  "vread s va 0 = Some []"
| "vread s va (Suc n) =
     (case vread8 s va of None \<Rightarrow> None
      | Some b \<Rightarrow> map_option ((#) b) (vread s (va + 1) n))"

fun vwrite :: "32 word \<Rightarrow> 8 word list \<Rightarrow> kstate \<Rightarrow> (unit, kstate) kres" where
  "vwrite va [] s = Ret () s"
| "vwrite va (b # bs) s = kbind (vwrite8 va b s) (\<lambda>_. vwrite (va + 1) bs)"

section \<open>The environment table\<close>

definition ENVGENSHIFT :: nat where "ENVGENSHIFT = 12"

text \<open>Inl r is the error, Inr e stores e, possibly NULL.\<close>

definition envid2env :: "32 word \<Rightarrow> bool \<Rightarrow> kstate \<Rightarrow> (int + nat option, kstate) kres" where
  "envid2env envid checkperm s =
     (if envid = 0 then Ret (Inr (curenv s)) s
      else
        (let e = unat (ENVX envid)
         in if env_status (envs s e) = ENV_FREE \<or> env_id (envs s e) \<noteq> envid
            then Ret (Inl (- E_BAD_ENV)) s
            else if checkperm \<and> Some e \<noteq> curenv s then
              (case curenv s of
                 None \<Rightarrow> Exit Fault s
               | Some c \<Rightarrow>
                   if env_parent_id (envs s e) \<noteq> env_id (envs s c) then Ret (Inl (- E_BAD_ENV)) s
                   else Ret (Inr (Some e)) s)
            else Ret (Inr (Some e)) s))"

fun env_init_loop :: "nat \<Rightarrow> nat \<Rightarrow> kstate \<Rightarrow> kstate" where
  "env_init_loop 0 i s = s"
| "env_init_loop (Suc n) i s =
     env_init_loop n (i + 1)
       (set_env i ((envs s i)\<lparr>env_link := Some ((i + 1) mod NENV), env_id := 0,
                              env_status := ENV_FREE\<rparr>) s)"

definition env_init :: "kstate \<Rightarrow> kstate" where
  "env_init s = (env_init_loop NENV 0 s)\<lparr>env_free_list := Some 0\<rparr>"

definition env_setup_vm :: "nat \<Rightarrow> kstate \<Rightarrow> (int, kstate) kres" where
  "env_setup_vm e s =
     kbind (page_alloc ALLOC_ZERO s) (\<lambda>p s.
       case p of
         None \<Rightarrow> Ret (- E_NO_MEM) s
       | Some p \<Rightarrow>
           (let s = inc_ref p s
            in case page2kva (npages s) p of
                 None \<Rightarrow> Exit (Panicked ''KADDR called with invalid pa'') s
               | Some kva \<Rightarrow>
                   (let s = set_env e ((envs s e)\<lparr>env_pgdir := Some p\<rparr>) s;
                        s = s\<lparr>mem := (mem s)(p := mem s (kern_pgdir s))\<rparr>
                    in Ret 0 (store p (unat (PDX UVPT)) (page2pa p OR PTE_P OR PTE_U) s))))"

definition env_gen :: "32 word \<Rightarrow> 32 word" where
  "env_gen old =
     (let generation = (old + push_bit ENVGENSHIFT 1) AND NOT (of_nat NENV - 1)
      in if sint generation \<le> 0 then push_bit ENVGENSHIFT 1 else generation)"

definition cur_id :: "kstate \<Rightarrow> 32 word" where
  "cur_id s = (case curenv s of None \<Rightarrow> 0 | Some c \<Rightarrow> env_id (envs s c))"

definition new_tf :: Trapframe where
  "new_tf = zero_tf\<lparr>tf_ds := GD_UD OR 3, tf_es := GD_UD OR 3, tf_ss := GD_UD OR 3,
     tf_esp := USTACKTOP, tf_cs := GD_UT OR 3, tf_eflags := 0 OR FL_IF\<rparr>"

definition env_alloc :: "32 word \<Rightarrow> kstate \<Rightarrow> (int + nat, kstate) kres" where
  "env_alloc parent_id s =
     (case env_free_list s of
        None \<Rightarrow> Ret (Inl (- E_NO_FREE_ENV)) s
      | Some e \<Rightarrow>
          kbind (env_setup_vm e s) (\<lambda>r s.
            if r < 0 then Ret (Inl r) s
            else
              (let s = set_env e ((envs s e)
                         \<lparr>env_id := env_gen (env_id (envs s e)) OR of_nat e,
                          env_parent_id := parent_id, env_type := ENV_TYPE_USER,
                          env_status := ENV_RUNNABLE, env_runs := 0, env_tf := new_tf,
                          env_pgfault_upcall := 0, env_ipc_recving := False\<rparr>) s;
                   s = s\<lparr>env_free_list := env_link (envs s e)\<rparr>
               in Ret (Inr e) (say (New_env (cur_id s) (env_id (envs s e))) s))))"

section \<open>Loading a program\<close>

fun region_alloc_loop :: "nat \<Rightarrow> nat \<Rightarrow> 32 word \<Rightarrow> 32 word \<Rightarrow> kstate \<Rightarrow> (unit, kstate) kres" where
  "region_alloc_loop fuel e begin_va end_va s =
     (if \<not> begin_va < end_va then Ret () s
      else if fuel = 0 then Exit Spins s
      else kbind (page_alloc 0 s) (\<lambda>pg s.
             case pg of
               None \<Rightarrow> Exit (Panicked ''region_alloc failed!'') s
             | Some pg \<Rightarrow>
                 (case env_pgdir (envs s e) of
                    None \<Rightarrow> Exit Fault s
                  | Some d \<Rightarrow>
                      kbind (page_insert d pg begin_va (PTE_W OR PTE_U) s) (\<lambda>_.
                        region_alloc_loop (fuel - 1) e (begin_va + PGSIZE) end_va))))"

declare region_alloc_loop.simps [simp del]

definition region_alloc :: "nat \<Rightarrow> 32 word \<Rightarrow> 32 word \<Rightarrow> kstate \<Rightarrow> (unit, kstate) kres" where
  "region_alloc e va len s =
     region_alloc_loop (2 ^ 20) e (ROUNDDOWN va PGSIZE) (ROUNDUP (va + len) PGSIZE) s"

text \<open>The image is a byte at every offset from its start; fields are little-endian.\<close>

definition le32 :: "(nat \<Rightarrow> 8 word) \<Rightarrow> nat \<Rightarrow> 32 word" where
  "le32 b o1 = ucast (b o1) OR push_bit 8 (ucast (b (o1 + 1))) OR push_bit 16 (ucast (b (o1 + 2)))
               OR push_bit 24 (ucast (b (o1 + 3)))"

definition le16 :: "(nat \<Rightarrow> 8 word) \<Rightarrow> nat \<Rightarrow> 16 word" where
  "le16 b o1 = ucast (b o1) OR push_bit 8 (ucast (b (o1 + 1)))"

definition ELF_MAGIC :: "32 word" where "ELF_MAGIC = 0x464C457F"
definition ELF_PROG_LOAD :: "32 word" where "ELF_PROG_LOAD = 1"

record Proghdr =
  p_type :: "32 word"
  p_offset :: "32 word"
  p_va :: "32 word"
  p_filesz :: "32 word"
  p_memsz :: "32 word"

definition read_proghdr :: "(nat \<Rightarrow> 8 word) \<Rightarrow> nat \<Rightarrow> Proghdr" where
  "read_proghdr b o1 = \<lparr>p_type = le32 b o1, p_offset = le32 b (o1 + 4), p_va = le32 b (o1 + 8),
     p_filesz = le32 b (o1 + 16), p_memsz = le32 b (o1 + 20)\<rparr>"

definition load_segment :: "nat \<Rightarrow> (nat \<Rightarrow> 8 word) \<Rightarrow> Proghdr \<Rightarrow> kstate \<Rightarrow> (unit, kstate) kres" where
  "load_segment e binary ph s =
     (if p_type ph = ELF_PROG_LOAD \<and> p_filesz ph \<le> p_memsz ph then
        kbind (region_alloc e (p_va ph) (p_memsz ph) s) (\<lambda>_ s.
          kbind (vwrite (p_va ph)
                   (map (\<lambda>i. binary (unat (p_offset ph) + i)) [0..<unat (p_filesz ph)]) s) (\<lambda>_.
            vwrite (p_va ph + p_filesz ph) (replicate (unat (p_memsz ph - p_filesz ph)) 0)))
      else Ret () s)"

definition load_icode :: "nat \<Rightarrow> (nat \<Rightarrow> 8 word) \<Rightarrow> kstate \<Rightarrow> (unit, kstate) kres" where
  "load_icode e binary s =
     (if le32 binary 0 \<noteq> ELF_MAGIC then Exit (Panicked ''Not executable!'') s
      else
        (let phoff = unat (le32 binary 28); phnum = unat (le16 binary 44)
         in case env_pgdir (envs s e) of
              None \<Rightarrow> Exit (Panicked ''PADDR called with invalid kva'') s
            | Some d \<Rightarrow>
                kbind (kforeach (\<lambda>i. load_segment e binary (read_proghdr binary (phoff + 32 * i)))
                         [0..<phnum] (s\<lparr>cr3 := d\<rparr>)) (\<lambda>_ s.
                  (let s = set_env e ((envs s e)\<lparr>env_tf := (env_tf (envs s e))\<lparr>tf_eip := le32 binary 24\<rparr>\<rparr>) s;
                       s = s\<lparr>cr3 := kern_pgdir s\<rparr>
                   in region_alloc e (USTACKTOP - PGSIZE) PGSIZE s))))"

definition env_create :: "(nat \<Rightarrow> 8 word) \<Rightarrow> EnvType \<Rightarrow> kstate \<Rightarrow> (unit, kstate) kres" where
  "env_create binary type s =
     kbind (env_alloc 0 s) (\<lambda>r s.
       case r of
         Inl r \<Rightarrow> Exit (Panicked ''env_alloc: %i'') s
       | Inr penv \<Rightarrow>
           kbind (load_icode penv binary (set_env penv ((envs s penv)\<lparr>env_type := type\<rparr>) s)) (\<lambda>_ s.
             (let e = envs s penv; tf = env_tf e;
                  fl = (if type = ENV_TYPE_FS then FL_IOPL_3 else FL_IOPL_0)
              in Ret () (set_env penv (e\<lparr>env_tf := tf\<lparr>tf_eflags := tf_eflags tf OR fl\<rparr>\<rparr>) s))))"

section \<open>Releasing an environment\<close>

definition free_pte :: "nat \<Rightarrow> nat \<Rightarrow> nat \<Rightarrow> nat \<Rightarrow> kstate \<Rightarrow> (unit, kstate) kres" where
  "free_pte pgdir pt pdeno pteno s =
     (if mem s pt pteno AND PTE_P \<noteq> 0
      then page_remove pgdir (PGADDR (of_nat pdeno) (of_nat pteno) 0) s
      else Ret () s)"

definition free_pde :: "nat \<Rightarrow> nat \<Rightarrow> kstate \<Rightarrow> (unit, kstate) kres" where
  "free_pde pgdir pdeno s =
     (if mem s pgdir pdeno AND PTE_P = 0 then Ret () s
      else
        (let pa = PTE_ADDR (mem s pgdir pdeno)
         in case KADDR (npages s) pa of
              None \<Rightarrow> Exit (Panicked ''KADDR called with invalid pa'') s
            | Some pt \<Rightarrow>
                kbind (kforeach (free_pte pgdir (kva_frame pt) pdeno) [0..<1024] s) (\<lambda>_ s.
                  (let s = store pgdir pdeno 0 s
                   in case pa2page (npages s) pa of
                        None \<Rightarrow> Exit (Panicked ''pa2page called with invalid pa'') s
                      | Some pg \<Rightarrow> page_decref pg s))))"

definition env_free :: "nat \<Rightarrow> kstate \<Rightarrow> (unit, kstate) kres" where
  "env_free e s =
     (let s = (if curenv s = Some e then s\<lparr>cr3 := kern_pgdir s\<rparr> else s);
          s = say (Free_env (cur_id s) (env_id (envs s e))) s
      in case env_pgdir (envs s e) of
           None \<Rightarrow> Exit Fault s
         | Some d \<Rightarrow>
             kbind (kforeach (free_pde d) [0..<unat (PDX UTOP)] s) (\<lambda>_ s.
               kbind (let s = set_env e ((envs s e)\<lparr>env_pgdir := None\<rparr>) s
                      in case pa2page (npages s) (page2pa d) of
                           None \<Rightarrow> Exit (Panicked ''pa2page called with invalid pa'') s
                         | Some pg \<Rightarrow> page_decref pg s) (\<lambda>_ s.
                 Ret () ((set_env e ((envs s e)\<lparr>env_status := ENV_FREE, env_link := env_free_list s\<rparr>) s)
                           \<lparr>env_free_list := Some e\<rparr>))))"

section \<open>Running\<close>

definition env_run :: "nat \<Rightarrow> kstate \<Rightarrow> ('a, kstate) kres" where
  "env_run e s =
     kbind (if curenv s \<noteq> Some e then
              (case curenv s of
                 None \<Rightarrow> Exit Fault s
               | Some c \<Rightarrow>
                   if env_status (envs s c) = ENV_RUNNING
                   then Ret () (set_env c ((envs s c)\<lparr>env_status := ENV_RUNNABLE\<rparr>) s)
                   else Ret () s)
            else Ret () s) (\<lambda>_ s.
       (let s = s\<lparr>curenv := Some e\<rparr>;
            s = set_env e ((envs s e)\<lparr>env_status := ENV_RUNNING, env_runs := env_runs (envs s e) + 1\<rparr>) s
        in case env_pgdir (envs s e) of
             None \<Rightarrow> Exit (Panicked ''PADDR called with invalid kva'') s
           | Some d \<Rightarrow> Exit (Running e) (s\<lparr>cr3 := d\<rparr>)))"

definition sched_halt :: "kstate \<Rightarrow> ('a, kstate) kres" where
  "sched_halt s =
     (if list_all (\<lambda>i. env_status (envs s i) \<notin> {ENV_RUNNABLE, ENV_RUNNING, ENV_DYING}) [0..<NENV]
      then Exit Monitor (say No_runnable_env s)
      else Exit Halted (s\<lparr>curenv := None\<rparr>))"

text \<open>The search loop of sched_yield takes at most NENV - 1 steps, its fuel.\<close>

fun sched_search :: "nat \<Rightarrow> nat \<Rightarrow> nat \<Rightarrow> kstate \<Rightarrow> nat" where
  "sched_search 0 cur e s = e"
| "sched_search (Suc fuel) cur e s =
     (if e \<noteq> cur \<and> env_status (envs s e) \<noteq> ENV_RUNNABLE
      then sched_search fuel cur ((e + 1) mod NENV) s else e)"

definition sched_yield :: "kstate \<Rightarrow> ('a, kstate) kres" where
  "sched_yield s =
     (let s = (if curenv s = None then s\<lparr>curenv := Some (NENV - 1)\<rparr> else s);
          cur = the (curenv s);
          e = sched_search NENV cur ((cur + 1) mod NENV) s
      in if env_status (envs s e) = ENV_RUNNABLE \<or> env_status (envs s e) = ENV_RUNNING
         then env_run e s else sched_halt s)"

definition env_destroy :: "nat \<Rightarrow> kstate \<Rightarrow> (unit, kstate) kres" where
  "env_destroy e s =
     kbind (env_free e s) (\<lambda>_ s.
       if curenv s = Some e then sched_yield (s\<lparr>curenv := None\<rparr>) else Ret () s)"

definition user_mem_assert :: "nat \<Rightarrow> 32 word \<Rightarrow> 32 word \<Rightarrow> 32 word \<Rightarrow> kstate \<Rightarrow> (unit, kstate) kres" where
  "user_mem_assert env va len perm s =
     kbind (user_mem_check env va len (perm OR PTE_U) s) (\<lambda>r s.
       if r < 0
       then env_destroy env (say (Mem_check_failed (env_id (envs s env)) (user_mem_check_addr s)) s)
       else Ret () s)"

end
