(* ===== verification/Env.thy ===== *)
theory Env
  imports Env_Model Pmap_Props
begin

text \<open>
  Lemmas on the environment table: identifiers, allocation from the free list as env_init
  builds it, the new address space, and the release of an address space table by table. The
  properties are in Env_Props.
\<close>

section \<open>Identifiers\<close>

lemma high_part: "(x :: 32 word) AND NOT (mask 10) = x - take_bit 10 x"
proof -
  have "x - take_bit 10 x = x AND NOT (take_bit 10 x)"
    by (rule disjunctive_diff) (simp add: bit_take_bit_iff)
  also have "\<dots> = x AND NOT (mask 10)"
    by (rule bit_eqI) (auto simp: bit_simps)
  finally show ?thesis by simp
qed

lemma NENV_mask: "of_nat NENV - 1 = (mask 10 :: 32 word)"
  by (simp add: NENV_def mask_eq_exp_minus_1)

lemma ENVX_take_bit: "ENVX x = take_bit 10 x"
  by (simp add: ENVX_def NENV_mask take_bit_eq_mask)

lemma ENVX_less: "unat (ENVX x) < NENV"
  using take_bit_nat_less_exp [of 10 "unat x"]
  by (simp add: ENVX_take_bit NENV_def unsigned_take_bit_eq)

lemma high_low_disjoint:
  assumes "e < NENV" "take_bit 10 g = (0 :: 32 word)"
  shows "ENVX (g OR of_nat e) = of_nat e" and "(g OR of_nat e) AND NOT (mask 10) = g"
proof -
  have e: "take_bit 10 (of_nat e :: 32 word) = of_nat e"
    using assms(1) by (simp add: NENV_def take_bit_of_nat take_bit_nat_eq_self)
  then show "ENVX (g OR of_nat e) = of_nat e"
    using assms(2) by (simp add: ENVX_take_bit take_bit_or)
  have "g AND NOT (mask 10) = g" using assms(2) by (simp add: high_part)
  moreover have "of_nat e AND NOT (mask 10) = (0 :: 32 word)" using e by (simp add: high_part)
  ultimately show "(g OR of_nat e) AND NOT (mask 10) = g" by (simp add: bit.conj_disj_distrib2)
qed

lemma env_gen_eq:
  "env_gen old = (let h = (old AND NOT (mask 10)) + 4096 in if sint h \<le> 0 then 4096 else h)"
proof -
  have "(unat old + 4096) mod 4294967296 mod 1024 = (unat old + 4096) mod 1024"
    by (rule mod_mod_cancel) simp
  also have "\<dots> = unat old mod 1024"
    by (subst mod_add_right_eq [symmetric]) simp
  finally have "unat (take_bit 10 (old + 4096)) = unat (take_bit 10 old)"
    by (simp add: unsigned_take_bit_eq take_bit_eq_mod unat_word_ariths)
  then have "take_bit 10 (old + 4096) = take_bit 10 old" by (simp add: word_unat_eq_iff)
  then have "(old + 4096) AND NOT (mask 10) = (old AND NOT (mask 10)) + 4096"
    by (simp add: high_part)
  then show ?thesis
    by (simp add: env_gen_def NENV_mask Let_def ENVGENSHIFT_def)
qed

lemma take_bit_high: "take_bit 10 ((x :: 32 word) AND NOT (mask 10)) = 0"
  by (rule bit_eqI) (auto simp: bit_simps)

lemma env_gen_low: "take_bit 10 (env_gen old) = 0"
  using take_bit_high by (simp add: env_gen_def NENV_mask Let_def ENVGENSHIFT_def)

lemma env_gen_pos: "0 < sint (env_gen old)"
  by (auto simp: env_gen_eq Let_def)

lemma env_gen_differs: "env_gen old \<noteq> old AND NOT (mask 10)"
proof
  assume *: "env_gen old = old AND NOT (mask 10)"
  show False
  proof (cases "sint ((old AND NOT (mask 10)) + 4096) \<le> 0")
    case True
    then have "old AND NOT (mask 10) = 4096" using * by (simp add: env_gen_eq)
    then show False using True by simp
  next
    case False
    then show False using * by (simp add: env_gen_eq)
  qed
qed

definition new_id :: "32 word \<Rightarrow> nat \<Rightarrow> 32 word" where
  "new_id old e = env_gen old OR of_nat e"

lemma new_id_facts:
  assumes "e < NENV"
  shows "unat (ENVX (new_id old e)) = e" "new_id old e \<noteq> old" "0 < sint (new_id old e)" "new_id old e \<noteq> 0"
proof -
  note hl = high_low_disjoint [OF assms env_gen_low [of old], folded new_id_def]
  show "unat (ENVX (new_id old e)) = e"
    using assms by (simp add: hl(1) unat_of_nat_32 NENV_def)
  show "new_id old e \<noteq> old" using hl(2) env_gen_differs [of old] by auto
  have "\<not> bit (env_gen old) 31" using env_gen_pos [of old] bit_last_iff [of "env_gen old"] by simp
  moreover have "\<not> bit (of_nat e :: 32 word) 31"
  proof -
    have "take_bit 10 (of_nat e :: 32 word) = of_nat e"
      using assms by (simp add: NENV_def take_bit_of_nat take_bit_nat_eq_self)
    moreover have "\<not> bit (take_bit 10 (of_nat e :: 32 word)) 31" by (simp add: bit_take_bit_iff)
    ultimately show ?thesis by simp
  qed
  ultimately have "0 \<le> sint (new_id old e)"
    using bit_last_iff [of "new_id old e"] by (simp add: new_id_def bit_or_iff)
  moreover have nz: "new_id old e \<noteq> 0"
    using hl(2) env_gen_pos [of old] by auto
  ultimately show "0 < sint (new_id old e)" by (simp add: order_less_le signed_eq_0_iff)
  show "new_id old e \<noteq> 0" by (rule nz)
qed

text \<open>
  The generations of a slot: multiples of 1024 that grow by 4096 and start again at 4096 after 2^31, so an identifier
  comes back after 2^19 - 1 uses of its slot at the earliest.
\<close>

definition gen_id :: "nat \<Rightarrow> nat \<Rightarrow> 32 word" where
  "gen_id m e = of_nat (1024 * m) OR of_nat e"

lemma gen_id_high:
  assumes "e < NENV"
  shows "gen_id m e AND NOT (mask 10) = of_nat (1024 * m)"
proof -
  have "take_bit 10 (of_nat (1024 * m) :: 32 word) = of_nat (take_bit 10 (1024 * m))"
    by (simp only: take_bit_of_nat)
  also have "take_bit 10 (1024 * m) = 0" by (simp add: take_bit_eq_mod)
  finally show ?thesis unfolding gen_id_def using high_low_disjoint(2) assms by simp
qed

lemma gen_id_step:
  assumes "e < NENV" "m < 2 ^ 21"
  shows "new_id (gen_id m e) e = gen_id (if m + 4 < 2 ^ 21 then m + 4 else 4) e"
proof -
  have gen: "env_gen (gen_id m e) = (let h = of_nat (1024 * (m + 4)) in if sint h \<le> 0 then 4096 else h)"
    by (simp add: env_gen_eq gen_id_high [OF assms(1)] algebra_simps)
  have u: "unat (of_nat (1024 * (m + 4)) :: 32 word) = 1024 * (m + 4)" using assms(2) by (subst unat_of_nat_32) simp_all
  have "sint (of_nat (1024 * (m + 4)) :: 32 word) \<le> 0 \<longleftrightarrow> \<not> m + 4 < 2 ^ 21"
    unfolding sint_alt u using assms(2) by simp
  then have "env_gen (gen_id m e) = (if m + 4 < 2 ^ 21 then of_nat (1024 * (m + 4)) else of_nat (1024 * 4))"
    unfolding gen Let_def by simp
  then show ?thesis unfolding new_id_def by (cases "m + 4 < 2 ^ 21") (simp_all only: gen_id_def if_True if_False not_True_eq_False not_False_eq_True)
qed

lemma word_of_unat: "of_nat (unat (w :: 32 word)) = w"
  by simp

lemma new_id_gen:
  assumes "e < NENV"
  shows "\<exists>m. new_id old e = gen_id m e \<and> 0 < m \<and> m < 2 ^ 21"
proof -
  let ?g = "env_gen old"
  have "unat (take_bit 10 ?g) = 0" by (simp add: env_gen_low)
  then have low: "unat ?g mod 1024 = 0" by (simp add: take_bit_eq_mod unat_mod)
  define n where "n = unat ?g"
  have "0 < (if n < 2 ^ 31 then int n else int n - 2 ^ 32)" "n < 2 ^ 32"
    using env_gen_pos [of old] unat_32_less [of ?g] unfolding sint_alt n_def by simp_all
  then have "0 < n \<and> n < 2 ^ 31" by (auto split: if_splits)
  then have pos: "0 < unat ?g \<and> unat ?g < 2 ^ 31" by (simp add: n_def)
  have div: "1024 * (unat ?g div 1024) = unat ?g" using mult_div_mod_eq [of 1024 "unat ?g"] unfolding low by (simp only: add_0_right)
  have "?g = of_nat (1024 * (unat ?g div 1024))" unfolding div word_of_unat ..
  moreover have "0 < q \<and> q < 2 ^ 21" if "1024 * q = unat ?g" for q using that [symmetric] pos by simp
  ultimately show ?thesis using div unfolding new_id_def gen_id_def by metis
qed

lemma gen_id_iterate:
  assumes "e < NENV" "0 < m" "m < 2 ^ 21" "k < 2 ^ 19 - 1"
  shows "\<exists>n. ((\<lambda>i. new_id i e) ^^ k) (gen_id m e) = gen_id n e \<and> n < 2 ^ 21 \<and>
    (n = m + 4 * k \<or> (\<exists>j < k. n = 4 * (j + 1) \<and> 2 ^ 21 \<le> m + 4 * (k - j)))"
  using assms(4)
proof (induction k)
  case 0
  then show ?case using assms by auto
next
  case (Suc k)
  then obtain n where n: "((\<lambda>i. new_id i e) ^^ k) (gen_id m e) = gen_id n e" "n < 2 ^ 21"
    "n = m + 4 * k \<or> (\<exists>j < k. n = 4 * (j + 1) \<and> 2 ^ 21 \<le> m + 4 * (k - j))" by auto
  let ?n = "if n + 4 < 2 ^ 21 then n + 4 else 4"
  have "((\<lambda>i. new_id i e) ^^ Suc k) (gen_id m e) = gen_id ?n e" using n(1) gen_id_step [OF assms(1) n(2)] by simp
  moreover have "?n = m + 4 * Suc k \<or> (\<exists>j < Suc k. ?n = 4 * (j + 1) \<and> 2 ^ 21 \<le> m + 4 * (Suc k - j))"
    using n(3)
  proof
    assume "n = m + 4 * k"
    then show ?thesis by (cases "n + 4 < 2 ^ 21") auto
  next
    assume "\<exists>j < k. n = 4 * (j + 1) \<and> 2 ^ 21 \<le> m + 4 * (k - j)"
    then obtain j where j: "j < k" "n = 4 * (j + 1)" "2 ^ 21 \<le> m + 4 * (k - j)" by blast
    then have "?n = 4 * (Suc j + 1)" using Suc.prems by simp
    then show ?thesis using j by (intro disjI2 exI [of _ "Suc j"]) simp
  qed
  ultimately show ?case by (intro exI [of _ ?n]) auto
qed

lemma gen_id_inj:
  assumes "e < NENV" "m < 2 ^ 21" "n < 2 ^ 21" "gen_id m e = gen_id n e"
  shows "m = n"
proof -
  have "unat (of_nat (1024 * m) :: 32 word) = unat (of_nat (1024 * n) :: 32 word)"
    using gen_id_high [OF assms(1)] assms(4) by metis
  moreover have "unat (of_nat (1024 * x) :: 32 word) = 1024 * x" if "x < 2 ^ 21" for x
    using that by (subst unat_of_nat_32) simp_all
  ultimately show ?thesis using assms(2,3) by simp
qed

lemma new_id_not_again:
  assumes "e < NENV" "0 < k" "k < 2 ^ 19 - 1"
  shows "((\<lambda>i. new_id i e) ^^ k) (new_id old e) \<noteq> new_id old e"
proof -
  obtain m where m: "new_id old e = gen_id m e" "0 < m" "m < 2 ^ 21" using new_id_gen [OF assms(1)] by blast
  obtain n where n: "((\<lambda>i. new_id i e) ^^ k) (gen_id m e) = gen_id n e" "n < 2 ^ 21"
    "n = m + 4 * k \<or> (\<exists>j < k. n = 4 * (j + 1) \<and> 2 ^ 21 \<le> m + 4 * (k - j))"
    using gen_id_iterate [OF assms(1) m(2,3) assms(3)] by blast
  have "n \<noteq> m" using n(3) assms(2,3) by auto
  then show ?thesis using gen_id_inj [OF assms(1) n(2) m(3)] n(1) m(1) by auto
qed


section \<open>Allocation\<close>

definition alloc_env :: "32 word \<Rightarrow> nat \<Rightarrow> nat \<Rightarrow> Env \<Rightarrow> Env" where
  "alloc_env parent x e old = old\<lparr>env_pgdir := Some x, env_id := new_id (env_id old) e,
     env_parent_id := parent, env_type := ENV_TYPE_USER, env_status := ENV_RUNNABLE, env_runs := 0,
     env_tf := new_tf, env_pgfault_upcall := 0, env_ipc_recving := False\<rparr>"

text \<open>The new page directory: the kernel's, with the self map at UVPT.\<close>

definition new_dir :: "nat \<Rightarrow> kstate \<Rightarrow> nat \<Rightarrow> 32 word" where
  "new_dir x s = (((mem s)(x := (\<lambda>_. 0))) (kern_pgdir s))(unat (PDX UVPT) := page2pa x OR PTE_P OR PTE_U)"

lemma inc_ref_free_list:
  "free_list_ok s xs \<Longrightarrow> p \<notin> set xs \<Longrightarrow> free_list_ok (inc_ref p s) xs"
  by (simp add: inc_ref_def set_ref_free_list_ok)

lemma env_setup_vm_empty: "free_list_ok s [] \<Longrightarrow> env_setup_vm e s = Ret (- E_NO_MEM) s"
  by (simp add: env_setup_vm_def page_alloc_empty)

lemma env_setup_vm_cons:
  assumes "free_list_ok s (x # xs)"
  obtains t where "env_setup_vm e s = Ret 0 t" "free_list_ok t xs"
    "envs t = (envs s)(e := (envs s e)\<lparr>env_pgdir := Some x\<rparr>)" "curenv t = curenv s"
    "env_free_list t = env_free_list s" "mem t = (mem s)(x := new_dir x s)" "npages t = npages s"
    "\<And>p. pp_ref (pages t p) = (if p = x then pp_ref (pages s x) + 1 else pp_ref (pages s p))"
    "kern_pgdir t = kern_pgdir s" "invlpgs t = invlpgs s" "cr3 t = cr3 s"
proof -
  have x: "x < npages s" "npages s \<le> 2 ^ 20" "x \<notin> set xs"
    using assms by (auto simp: free_list_ok_def)
  obtain kva where kva: "page2kva (npages s) x = Some kva"
    using page2kva_valid [OF x(1,2)] by auto
  have z: "ALLOC_ZERO AND ALLOC_ZERO \<noteq> 0" by (simp add: ALLOC_ZERO_def)
  let ?s1 = "inc_ref x ((pop_free x s)\<lparr>mem := (mem s)(x := (\<lambda>_. 0))\<rparr>)"
  let ?s2 = "set_env e ((envs s e)\<lparr>env_pgdir := Some x\<rparr>) ?s1"
  let ?t = "store x (unat (PDX UVPT)) (page2pa x OR PTE_P OR PTE_U)
              (?s2\<lparr>mem := (mem ?s2)(x := mem ?s2 (kern_pgdir ?s2))\<rparr>)"
  have "free_list_ok ?s1 xs"
    using pop_free_ok [OF assms] x(3) by (intro inc_ref_free_list) simp_all
  then have fl: "free_list_ok ?t xs" by (simp add: free_list_ok_def)
  have "env_setup_vm e s = Ret 0 ?t"
    using kva z by (simp add: env_setup_vm_def page_alloc_cons [OF assms] Let_def)
  moreover have "mem ?t = (mem s)(x := new_dir x s)"
    by (simp add: new_dir_def)
  ultimately show thesis
    by (intro that [of ?t]) (use fl in \<open>simp_all del: store_sel(2)\<close>)
qed

lemma env_alloc_none:
  "env_free_list s = None \<Longrightarrow> env_alloc parent s = Ret (Inl (- E_NO_FREE_ENV)) s"
  by (simp add: env_alloc_def)

lemma env_alloc_nomem:
  "env_free_list s = Some e \<Longrightarrow> free_list_ok s [] \<Longrightarrow> env_alloc parent s = Ret (Inl (- E_NO_MEM)) s"
  by (simp add: env_alloc_def env_setup_vm_empty error_defs)

lemma env_alloc_cons:
  assumes "free_list_ok s (x # xs)" "env_free_list s = Some e"
  obtains t where "env_alloc parent s = Ret (Inr e) t" "free_list_ok t xs"
    "envs t = (envs s)(e := alloc_env parent x e (envs s e))" "curenv t = curenv s"
    "env_free_list t = env_link (envs s e)" "mem t = (mem s)(x := new_dir x s)" "npages t = npages s"
    "\<And>p. pp_ref (pages t p) = (if p = x then pp_ref (pages s x) + 1 else pp_ref (pages s p))"
    "kern_pgdir t = kern_pgdir s" "invlpgs t = invlpgs s" "cr3 t = cr3 s"
proof -
  from env_setup_vm_cons [OF assms(1), of e] obtain u where
    u: "env_setup_vm e s = Ret 0 u" "free_list_ok u xs"
    "envs u = (envs s)(e := (envs s e)\<lparr>env_pgdir := Some x\<rparr>)" "curenv u = curenv s"
    "mem u = (mem s)(x := new_dir x s)" "npages u = npages s"
    "\<And>p. pp_ref (pages u p) = (if p = x then pp_ref (pages s x) + 1 else pp_ref (pages s p))"
    "kern_pgdir u = kern_pgdir s" "invlpgs u = invlpgs s" "cr3 u = cr3 s"
    by metis
  let ?v = "set_env e (alloc_env parent x e (envs s e)) u"
  let ?t = "say (New_env (cur_id (?v\<lparr>env_free_list := env_link (envs s e)\<rparr>)) (new_id (env_id (envs s e)) e))
              (?v\<lparr>env_free_list := env_link (envs s e)\<rparr>)"
  have "env_alloc parent s = Ret (Inr e) ?t"
    using u by (simp add: env_alloc_def assms(2) Let_def alloc_env_def new_id_def)
  moreover have "free_list_ok ?t xs" using u(2) by (simp add: free_list_ok_def)
  ultimately show thesis by (intro that [of ?t]) (use u in simp_all)
qed

text \<open>Allocating n environments in a row, none of them ever freed.\<close>

fun env_alloc_many :: "nat \<Rightarrow> kstate \<Rightarrow> (nat list, kstate) kres" where
  "env_alloc_many 0 s = Ret [] s"
| "env_alloc_many (Suc n) s =
     kbind (env_alloc 0 s) (\<lambda>r s.
       case r of Inl r \<Rightarrow> Ret [] s | Inr e \<Rightarrow> kbind (env_alloc_many n s) (\<lambda>es. Ret (e # es)))"

definition circular :: "kstate \<Rightarrow> bool" where
  "circular s \<longleftrightarrow> (\<forall>i < NENV. env_link (envs s i) = Some ((i + 1) mod NENV))"

lemma env_init_loop_env:
  "envs (env_init_loop n i s) j =
     (if i \<le> j \<and> j < i + n
      then (envs s j)\<lparr>env_link := Some ((j + 1) mod NENV), env_id := 0, env_status := ENV_FREE\<rparr>
      else envs s j)"
  by (induction n i s rule: env_init_loop.induct) auto

lemma env_init_loop_sel [simp]:
  "pages (env_init_loop n i s) = pages s" "mem (env_init_loop n i s) = mem s"
  "npages (env_init_loop n i s) = npages s" "page_free_list (env_init_loop n i s) = page_free_list s"
  "curenv (env_init_loop n i s) = curenv s"
  by (induction n i s rule: env_init_loop.induct) simp_all

lemma env_init_circular: "circular (env_init s)" "env_free_list (env_init s) = Some 0"
  by (simp_all add: circular_def env_init_def env_init_loop_env)

lemma circular_alloc_many:
  assumes "free_list_ok s xs" "n \<le> length xs" "circular s" "env_free_list s = Some e" "e < NENV"
  shows "\<exists>t. env_alloc_many n s = Ret (map (\<lambda>k. (e + k) mod NENV) [0..<n]) t"
  using assms
proof (induction n arbitrary: s xs e)
  case 0
  then show ?case by simp
next
  case (Suc n)
  then obtain x ys where xs: "xs = x # ys" by (cases xs) auto
  from env_alloc_cons [OF Suc.prems(1) [unfolded xs] Suc.prems(4), of 0] obtain t where
    t: "env_alloc 0 s = Ret (Inr e) t" "free_list_ok t ys"
      "envs t = (envs s)(e := alloc_env 0 x e (envs s e))" "env_free_list t = env_link (envs s e)"
    by metis
  have e': "env_free_list t = Some ((e + 1) mod NENV)" "(e + 1) mod NENV < NENV"
    using t(4) Suc.prems(3,5) by (simp_all add: circular_def NENV_def)
  have "circular t" using Suc.prems(3) t(3) by (auto simp: circular_def alloc_env_def)
  from Suc.IH [OF t(2) _ this e'] Suc.prems(2) obtain u where
    "env_alloc_many n t = Ret (map (\<lambda>k. ((e + 1) mod NENV + k) mod NENV) [0..<n]) u"
    by (auto simp: xs)
  moreover have "map (\<lambda>k. (e + k) mod NENV) [0..<Suc n] =
      e # map (\<lambda>k. ((e + 1) mod NENV + k) mod NENV) [0..<n]"
    using Suc.prems(5) by (simp add: map_upt_Suc mod_add_left_eq del: upt_Suc)
  ultimately show ?case using t(1) by simp
qed


section \<open>A new address space\<close>

definition kernel_dir_ok :: "kstate \<Rightarrow> bool" where
  "kernel_dir_ok s \<longleftrightarrow> (\<forall>i < NUSER. \<not> present (mem s (kern_pgdir s) i))"

lemma new_dir_user: "kernel_dir_ok s \<Longrightarrow> i < NUSER \<Longrightarrow> \<not> present (new_dir x s i)"
  by (auto simp: new_dir_def kernel_dir_ok_def NUSER_eq unat_PDX layout_values)

lemma vm_inv_add_dir:
  assumes inv: "vm_inv s D k (x # xs)" and fl: "free_list_ok t xs"
    and m: "mem t = (mem s)(x := f)" and f: "\<And>i. i < NUSER \<Longrightarrow> \<not> present (f i)"
    and np: "npages t = npages s"
    and ref: "\<And>p. pp_ref (pages t p) = (if p = x then pp_ref (pages s x) + 1 else pp_ref (pages s p))"
  shows "vm_inv t (insert x D) k xs"
    and "\<And>d va. d \<in> D \<Longrightarrow> user_va va \<Longrightarrow> vm_map t d va = vm_map s d va"
    and "\<And>va. user_va va \<Longrightarrow> vm_map t x va = None"
proof -
  note un = free_unreferenced [OF inv, of x]
  note nt = free_not_table [OF inv, of x]
  have xD: "x \<notin> D" using nt by simp
  have slot: "mem t d i = mem s d i" if "d \<in> D" for d i using that xD by (auto simp: m)
  have tab: "mem t (frame (mem s d i)) = mem s (frame (mem s d i))"
    if "d \<in> D" "i < NUSER" "present (mem s d i)" for d i
    using nt(2) [of d i] that by (auto simp: m)
  have isr: "is_ref t (insert x D) r p \<longleftrightarrow> is_ref s D r p \<or> (r = (x, 1024, 0) \<and> p = x)" for r p
  proof -
    obtain d i j where r: "r = (d, i, j)" by (cases r)
    show ?thesis
    proof (cases "d = x")
      case True
      then show ?thesis using xD f by (auto simp: r is_ref_def m)
    next
      case False
      then show ?thesis
        using slot [of d i] tab [of d i] unfolding r is_ref_def by (cases "d \<in> D") auto
    qed
  qed
  have refs: "refs t (insert x D) p = (if p = x then {(x, 1024, 0)} else refs s D p)" for p
    using isr un(1) by (auto simp: refs_def)
  have "tables_ok t (insert x D)"
    unfolding tables_ok_def
  proof (intro conjI ballI allI impI)
    fix d assume d: "d \<in> insert x D"
    then show "d < npages t" using inv un(3) np by (auto simp: vm_inv_def tables_ok_def)
    fix i assume i: "i < NUSER" "present (mem t d i)"
    then have dD: "d \<in> D" using d f by (auto simp: m)
    then show "frame (mem t d i) < npages t" "frame (mem t d i) \<notin> insert x D"
      using inv i nt(2) [of d i] slot np by (auto simp: vm_inv_def tables_ok_def)
    show "frame (mem t (frame (mem t d i)) j) < npages t"
      if "j < 1024" "present (mem t (frame (mem t d i)) j)" for j
      using inv i dD slot tab [of d i] np that by (auto simp: vm_inv_def tables_ok_def)
  next
    fix d i d' i'
    assume "d \<in> insert x D" "i < NUSER" "d' \<in> insert x D" "i' < NUSER"
      "present (mem t d i) \<and> present (mem t d' i') \<and> frame (mem t d i) = frame (mem t d' i')"
    moreover from this have "d \<in> D" "d' \<in> D" using f by (auto simp: m)
    ultimately show "d = d'" "i = i'"
      using inv slot unfolding vm_inv_def tables_ok_def by metis+
  qed
  moreover have "counts_ok t (insert x D) k"
    using inv un unfolding vm_inv_def counts_ok_def by (auto simp: refs ref np)
  ultimately show "vm_inv t (insert x D) k xs"
    using inv fl by (simp add: vm_inv_def)
  show "vm_map t d va = vm_map s d va" if "d \<in> D" "user_va va" for d va
    using slot [OF that(1)] tab [OF that(1), of "unat (PDX va)"] that(2)
    by (auto simp: vm_map_def Let_def user_va_def)
  show "vm_map t x va = None" if "user_va va" for va
    using that f by (simp add: vm_map_def user_va_def m)
qed

section \<open>Releasing an address space\<close>

lemma PDX_PGADDR:
  assumes "i < 1024" "j < 1024"
  shows "unat (PDX (PGADDR (of_nat i) (of_nat j) 0)) = i" "unat (PTX (PGADDR (of_nat i) (of_nat j) 0)) = j"
proof -
  have low: "\<not> bit (of_nat n :: 32 word) m" if "n < 1024" "10 \<le> m" for n m
  proof -
    have "take_bit 10 (of_nat n :: 32 word) = of_nat n"
      using that by (simp add: take_bit_of_nat take_bit_nat_eq_self)
    then show ?thesis using that(2) by (metis bit_take_bit_iff not_le)
  qed
  have "PDX (PGADDR (of_nat i) (of_nat j) 0) = of_nat i"
  proof (rule bit_eqI)
    fix n assume "possible_bit TYPE(32 word) n"
    then have n: "n < 32" by simp
    show "bit (PDX (PGADDR (of_nat i) (of_nat j) 0)) n \<longleftrightarrow> bit (of_nat i :: 32 word) n"
      using n low [OF assms(1), of n] low [OF assms(2), of "n + 10"]
      by (cases "n < 10") (auto simp: PDX_alt PGADDR_def bit_take_bit_iff bit_drop_bit_eq bit_or_iff
          bit_push_bit_iff add.commute)
  qed
  then show "unat (PDX (PGADDR (of_nat i) (of_nat j) 0)) = i" using assms(1) by (simp add: unat_of_nat_32)
  have "PTX (PGADDR (of_nat i) (of_nat j) 0) = of_nat j"
  proof (rule bit_eqI)
    fix n assume "possible_bit TYPE(32 word) n"
    then have n: "n < 32" by simp
    show "bit (PTX (PGADDR (of_nat i) (of_nat j) 0)) n \<longleftrightarrow> bit (of_nat j :: 32 word) n"
      using n low [OF assms(2), of n]
      by (cases "n < 10") (auto simp: PTX_alt PGADDR_def bit_take_bit_iff bit_drop_bit_eq bit_or_iff
          bit_push_bit_iff add.commute)
  qed
  then show "unat (PTX (PGADDR (of_nat i) (of_nat j) 0)) = j" using assms(2) by (simp add: unat_of_nat_32)
qed

text \<open>The entries of one table: the loop over pteno is a sequence of removals.\<close>

lemma free_pte_is_remove:
  assumes inv: "vm_inv s D k xs" and d: "d \<in> D" and i: "i < NUSER" and j: "j < 1024"
    and p: "present (mem s d i)"
  shows "free_pte d (frame (mem s d i)) i j s = page_remove d (PGADDR (of_nat i) (of_nat j) 0) s"
proof -
  let ?va = "PGADDR (of_nat i) (of_nat j) 0"
  have ix: "unat (PDX ?va) = i" "unat (PTX ?va) = j" using PDX_PGADDR i j by (simp_all add: NUSER_eq)
  have va: "user_va ?va" using i by (simp add: user_va_def ix)
  show ?thesis
  proof (cases "present (mem s (frame (mem s d i)) j)")
    case False
    then have "vm_map s d ?va = None" by (simp add: vm_map_def ix)
    then show ?thesis using False page_remove_unmapped [OF inv d va] by (simp add: free_pte_def present_def)
  qed (simp add: free_pte_def present_def)
qed

lemma free_ptes:
  assumes "vm_from s0 xs0 k s D" "d \<in> D" "i < NUSER" "present (mem s0 d i)" "set js \<subseteq> {..<1024}"
  shows "kforeach (free_pte d (frame (mem s0 d i)) i) js s =
         kforeach (page_remove d) (map (\<lambda>j. PGADDR (of_nat i) (of_nat j) 0) js) s"
  using assms(1,5)
proof (induction js arbitrary: s)
  case Nil
  then show ?case by simp
next
  case (Cons j js)
  let ?va = "PGADDR (of_nat i) (of_nat j) 0"
  have va: "user_va ?va"
    using assms(3) Cons.prems(2) PDX_PGADDR [of i j] by (simp add: user_va_def NUSER_eq)
  obtain xs where inv: "vm_inv s D k xs" and same: "mem s d = mem s0 d"
    using Cons.prems(1) assms(2) by (auto simp: vm_from_def)
  obtain t where t: "page_remove d ?va s = Ret () t" "vm_from s0 xs0 k t D"
    using kremove.unmap_law [OF Cons.prems(1) assms(2) va] by auto
  have "free_pte d (frame (mem s0 d i)) i j s = Ret () t"
    using free_pte_is_remove [OF inv assms(2,3)] assms(4) Cons.prems(2) t(1) by (simp add: same)
  then show ?case using Cons.IH [OF t(2)] Cons.prems(2) t(1) by simp
qed

text \<open>Taking an empty table out of its directory leaves its page with a handle to drop.\<close>

lemma clear_pde:
  assumes inv: "vm_inv s D k xs" and d: "d \<in> D" and i: "i < NUSER" and p: "present (mem s d i)"
    and empty: "\<And>j. j < 1024 \<Longrightarrow> \<not> present (mem s (frame (mem s d i)) j)"
  shows "vm_inv (store d i 0 s) D (k(frame (mem s d i) := Suc (k (frame (mem s d i))))) xs"
    and "\<And>d' va. d' \<in> D \<Longrightarrow> user_va va \<Longrightarrow> vm_map (store d i 0 s) d' va = vm_map s d' va"
proof -
  let ?f = "frame (mem s d i)" and ?t = "store d i 0 s"
  have fD: "?f \<notin> D" using inv d i p by (auto simp: vm_inv_def tables_ok_def)
  have tab: "frame (mem s d' i') \<noteq> d" if "d' \<in> D" "i' < NUSER" "present (mem s d' i')" for d' i'
    using inv d that by (auto simp: vm_inv_def tables_ok_def)
  have isr: "is_ref ?t D r q \<longleftrightarrow> is_ref s D r q \<and> r \<noteq> (d, i, 1024)" for r q
  proof -
    obtain d' i' j' where r: "r = (d', i', j')" by (cases r)
    show ?thesis
    proof (cases "d' = d \<and> i' = i")
      case True
      then show ?thesis using i empty by (auto simp: r is_ref_def NUSER_eq)
    next
      case False
      then have "mem ?t d' i' = mem s d' i'" by auto
      then show ?thesis using False tab [of d' i'] by (auto simp: r is_ref_def)
    qed
  qed
  have refs: "refs ?t D q = refs s D q - {(d, i, 1024)}" for q
    using isr by (auto simp: refs_def)
  have "is_ref s D (d, i, 1024) q \<longleftrightarrow> q = ?f" for q
    using d i p by (auto simp: is_ref_def NUSER_eq)
  then have mem_r: "(d, i, 1024) \<in> refs s D q \<longleftrightarrow> q = ?f" for q by (simp add: refs_def)
  have fin: "finite (refs s D q)" for q using inv finite_refs by (simp add: vm_inv_def)
  have card: "card (refs ?t D q) + of_bool (q = ?f) = card (refs s D q)" for q
  proof (cases "q = ?f")
    case True
    then show ?thesis using card_Suc_Diff1 [OF fin mem_r [THEN iffD2]] refs by simp
  next
    case False
    then have "refs s D q - {(d, i, 1024)} = refs s D q" using mem_r by blast
    then show ?thesis using False refs by simp
  qed
  have "tables_ok ?t D"
    unfolding tables_ok_def
  proof (intro conjI ballI allI impI)
    fix d1 assume d1: "d1 \<in> D"
    then show "d1 < npages ?t" using inv by (auto simp: vm_inv_def tables_ok_def)
    fix i1 assume i1: "i1 < NUSER" "present (mem ?t d1 i1)"
    then have old: "mem ?t d1 i1 = mem s d1 i1" "present (mem s d1 i1)" by (auto split: if_splits)
    then show "frame (mem ?t d1 i1) < npages ?t" "frame (mem ?t d1 i1) \<notin> D"
      using inv d1 i1(1) by (simp_all add: vm_inv_def tables_ok_def del: store_sel(2))
    show "frame (mem ?t (frame (mem ?t d1 i1)) j) < npages ?t"
      if "j < 1024" "present (mem ?t (frame (mem ?t d1 i1)) j)" for j
    proof -
      have "mem ?t (frame (mem s d1 i1)) = mem s (frame (mem s d1 i1))"
        using tab [OF d1 i1(1) old(2)] by simp
      then show ?thesis
        using inv d1 i1(1) old(2) that unfolding vm_inv_def tables_ok_def old(1) by simp
    qed
  next
    fix d1 i1 d2 i2
    assume a: "d1 \<in> D" "i1 < NUSER" "d2 \<in> D" "i2 < NUSER"
      "present (mem ?t d1 i1) \<and> present (mem ?t d2 i2) \<and> frame (mem ?t d1 i1) = frame (mem ?t d2 i2)"
    then have "mem ?t d1 i1 = mem s d1 i1" "mem ?t d2 i2 = mem s d2 i2" by (auto split: if_splits)
    then show "d1 = d2" "i1 = i2" using inv a unfolding vm_inv_def tables_ok_def by metis+
  qed
  moreover have "counts_ok ?t D (k(?f := Suc (k ?f)))"
  proof (unfold counts_ok_def, intro allI impI)
    fix q assume "q < npages ?t"
    then have "unat (pp_ref (pages s q)) = card (refs s D q) + k q"
      using inv by (simp add: vm_inv_def counts_ok_def)
    then show "unat (pp_ref (pages ?t q)) = card (refs ?t D q) + (k(?f := Suc (k ?f))) q"
      using card [of q] by auto
  qed
  ultimately show "vm_inv ?t D (k(?f := Suc (k ?f))) xs"
    using inv by (simp add: vm_inv_def)
  show "vm_map ?t d' va = vm_map s d' va" if "d' \<in> D" "user_va va" for d' va
  proof (cases "d' = d \<and> unat (PDX va) = i")
    case True
    then have "vm_map s d' va = None" using empty PTX_less by (auto simp: vm_map_def Let_def)
    then show ?thesis using True by (simp add: vm_map_def)
  next
    case False
    then have "mem ?t d' (unat (PDX va)) = mem s d' (unat (PDX va))" by auto
    then show ?thesis
      using tab [of d' "unat (PDX va)"] that by (auto simp: vm_map_def Let_def user_va_def)
  qed
qed


lemma vm_from_start: "vm_inv s D k xs \<Longrightarrow> vm_from s xs k s D"
  by (auto simp: vm_from_def)

text \<open>All the pages of slot i, by their addresses.\<close>

definition slot_pages :: "nat \<Rightarrow> 32 word list" where
  "slot_pages i = map (\<lambda>j. PGADDR (of_nat i) (of_nat j) 0) [0..<1024]"

lemma slot_pages_user: "i < NUSER \<Longrightarrow> \<forall>a \<in> set (slot_pages i). user_va a"
  using PDX_PGADDR by (auto simp: slot_pages_def user_va_def NUSER_eq)

lemma slot_pages_PGNUM: "i < 1024 \<Longrightarrow> PGNUM va \<in> PGNUM ` set (slot_pages i) \<longleftrightarrow> unat (PDX va) = i"
proof -
  assume i: "i < 1024"
  have eq: "PGNUM va = PGNUM (PGADDR (of_nat i) (of_nat j) 0) \<longleftrightarrow> unat (PDX va) = i \<and> unat (PTX va) = j"
    if "j < 1024" for j
    using page_index_eq [of "PGADDR (of_nat i) (of_nat j) 0" va] PDX_PGADDR [OF i that] by auto
  have "PGNUM va \<in> PGNUM ` set (slot_pages i) \<longleftrightarrow>
      (\<exists>j < 1024. PGNUM va = PGNUM (PGADDR (of_nat i) (of_nat j) 0))"
    by (auto simp: slot_pages_def)
  also have "\<dots> \<longleftrightarrow> unat (PDX va) = i" using eq PTX_less [of va] by blast
  finally show ?thesis .
qed

lemma free_pde_effect:
  assumes inv: "vm_inv s D k xs" and d: "d \<in> D" and i: "i < NUSER"
  shows "\<exists>t ys. free_pde d i s = Ret () t \<and> vm_inv t D k ys \<and> vm_frame s t \<and> set xs \<subseteq> set ys \<and>
    (leak_free s xs \<longrightarrow> leak_free t ys) \<and> \<not> present (mem t d i) \<and>
    (\<forall>i'. i' \<noteq> i \<longrightarrow> mem t d i' = mem s d i') \<and> (\<forall>d' \<in> D. d' \<noteq> d \<longrightarrow> mem t d' = mem s d') \<and>
    (\<forall>d' \<in> D. \<forall>va. user_va va \<longrightarrow>
       vm_map t d' va = (if d' = d \<and> unat (PDX va) = i then None else vm_map s d' va))"
proof (cases "present (mem s d i)")
  case False
  then have "free_pde d i s = Ret () s" by (simp add: free_pde_def present_def)
  moreover have "vm_map s d va = None" if "unat (PDX va) = i" for va
    using that False by (simp add: vm_map_def)
  ultimately show ?thesis
    using inv False by (intro exI [of _ s] exI [of _ xs]) auto
next
  case True
  let ?f = "frame (mem s d i)" and ?pa = "PTE_ADDR (mem s d i)"
  have f: "?f < npages s" using inv d i True by (simp add: vm_inv_def tables_ok_def)
  obtain kva where kva: "KADDR (npages s) ?pa = Some kva" "kva_frame kva = ?f"
    using KADDR_Some [of ?pa "npages s"] f by (auto simp: frame_def PGNUM_PTE_ADDR)
  have i1024: "i < 1024" using i by (simp add: NUSER_eq)
  obtain t1 where t1: "kforeach (page_remove d) (slot_pages i) s = Ret () t1" "vm_from s xs k t1 D"
    "\<forall>d' \<in> D. \<forall>b. user_va b \<longrightarrow>
       vm_map t1 d' b = (if d' = d \<and> PGNUM b \<in> PGNUM ` set (slot_pages i) then None else vm_map s d' b)"
    using kremove.unmap_all [OF vm_from_start [OF inv] d slot_pages_user [OF i]] by blast
  have loop: "kforeach (free_pte d ?f i) [0..<1024] s = Ret () t1"
    using free_ptes [OF vm_from_start [OF inv] d i True, of "[0..<1024]"] t1(1)
    by (simp add: slot_pages_def lessThan_atLeast0)
  obtain zs where inv1: "vm_inv t1 D k zs" and zs: "set xs \<subseteq> set zs" "leak_free s xs \<longrightarrow> leak_free t1 zs"
    and fr1: "vm_frame s t1" and dirs: "\<forall>d \<in> D. mem t1 d = mem s d"
    using t1(2) by (auto simp: vm_from_def)
  have same: "mem t1 d i = mem s d i" using dirs d by simp
  have empty: "\<not> present (mem t1 (frame (mem t1 d i)) j)" if "j < 1024" for j
  proof -
    let ?va = "PGADDR (of_nat i) (of_nat j) 0"
    have ix: "unat (PDX ?va) = i" "unat (PTX ?va) = j" using PDX_PGADDR i1024 that by simp_all
    have "vm_map t1 d ?va = None"
      using t1(3) d i slot_pages_PGNUM [OF i1024, of ?va] by (simp add: user_va_def ix)
    then show ?thesis using True by (auto simp: vm_map_def ix same split: if_splits)
  qed
  have pres1: "present (mem t1 d i)" using True same by simp
  note cl = clear_pde [OF inv1 d i pres1 empty, unfolded same]
  let ?t2 = "store d i 0 t1"
  have np: "npages ?t2 = npages s" using vm_frame_sel [OF fr1] by simp
  obtain t ys where t: "page_decref ?f ?t2 = Ret () t" "vm_inv t D k ys" "only_pages ?t2 t"
    "set zs \<subseteq> set ys" "leak_free ?t2 zs \<longrightarrow> leak_free t ys"
    using page_decref_inv [OF cl(1), of ?f "k ?f"] f np by auto
  have mt: "mem t = mem ?t2" using only_pages_sel(1) [OF t(3)] .
  have "free_pde d i s = Ret () t"
    using True loop t(1) kva f np
    by (simp add: free_pde_def present_def Let_def pa2page_def PGNUM_PTE_ADDR flip: frame_def)
  moreover have "vm_frame s t"
    by (rule vm_frame_trans [OF vm_frame_trans [OF fr1 store_frame] only_pages_frame [OF t(3)]])
  moreover have "set xs \<subseteq> set ys" "leak_free s xs \<longrightarrow> leak_free t ys"
    using zs t(4,5) by (auto simp: leak_free_def)
  moreover have "\<not> present (mem t d i)" "\<forall>i'. i' \<noteq> i \<longrightarrow> mem t d i' = mem s d i'"
    "\<forall>d' \<in> D. d' \<noteq> d \<longrightarrow> mem t d' = mem s d'"
    using dirs d by (simp_all add: mt)
  moreover have "vm_map t d' va = (if d' = d \<and> unat (PDX va) = i then None else vm_map s d' va)"
    if "d' \<in> D" "user_va va" for d' va
    using cl(2) [OF _ that] vm_map_cong [OF mt, of d' va] t1(3) that slot_pages_PGNUM [OF i1024, of va] by simp
  ultimately show ?thesis using t(2) by blast
qed

lemma free_pdes:
  assumes "vm_inv s D k xs" "d \<in> D" "set is \<subseteq> {..<NUSER}"
  shows "\<exists>t ys. kforeach (free_pde d) is s = Ret () t \<and> vm_inv t D k ys \<and> vm_frame s t \<and> set xs \<subseteq> set ys \<and>
    (leak_free s xs \<longrightarrow> leak_free t ys) \<and> (\<forall>i \<in> set is. \<not> present (mem t d i)) \<and>
    (\<forall>i. i \<notin> set is \<longrightarrow> mem t d i = mem s d i) \<and> (\<forall>d' \<in> D. d' \<noteq> d \<longrightarrow> mem t d' = mem s d') \<and>
    (\<forall>d' \<in> D. \<forall>va. user_va va \<longrightarrow>
       vm_map t d' va = (if d' = d \<and> unat (PDX va) \<in> set is then None else vm_map s d' va))"
  using assms
proof (induction "is" arbitrary: s xs)
  case Nil
  then show ?case by (intro exI [of _ s] exI [of _ xs]) simp
next
  case (Cons i "is")
  have i: "i < NUSER" and iss: "set is \<subseteq> {..<NUSER}" using Cons.prems(3) by auto
  obtain t ys where t: "free_pde d i s = Ret () t" "vm_inv t D k ys" "vm_frame s t" "set xs \<subseteq> set ys"
    "leak_free s xs \<longrightarrow> leak_free t ys" "\<not> present (mem t d i)"
    "\<forall>i'. i' \<noteq> i \<longrightarrow> mem t d i' = mem s d i'" "\<forall>d' \<in> D. d' \<noteq> d \<longrightarrow> mem t d' = mem s d'"
    "\<forall>d' \<in> D. \<forall>va. user_va va \<longrightarrow>
       vm_map t d' va = (if d' = d \<and> unat (PDX va) = i then None else vm_map s d' va)"
    using free_pde_effect [OF Cons.prems(1,2) i] by blast
  obtain u zs where u: "kforeach (free_pde d) is t = Ret () u" "vm_inv u D k zs" "vm_frame t u" "set ys \<subseteq> set zs"
    "leak_free t ys \<longrightarrow> leak_free u zs" "\<forall>i \<in> set is. \<not> present (mem u d i)"
    "\<forall>i. i \<notin> set is \<longrightarrow> mem u d i = mem t d i"
    "\<forall>d' \<in> D. d' \<noteq> d \<longrightarrow> mem u d' = mem t d'"
    "\<forall>d' \<in> D. \<forall>va. user_va va \<longrightarrow>
       vm_map u d' va = (if d' = d \<and> unat (PDX va) \<in> set is then None else vm_map t d' va)"
    using Cons.IH [OF t(2) Cons.prems(2) iss] by blast
  have "\<forall>i' \<in> set (i # is). \<not> present (mem u d i')" using t(6) u(6,7) by (cases "i \<in> set is") auto
  moreover have "\<forall>i'. i' \<notin> set (i # is) \<longrightarrow> mem u d i' = mem s d i'" using t(7) u(7) by simp
  moreover have "\<forall>d' \<in> D. d' \<noteq> d \<longrightarrow> mem u d' = mem s d'" using t(8) u(8) by simp
  moreover have "\<forall>d' \<in> D. \<forall>va. user_va va \<longrightarrow>
      vm_map u d' va = (if d' = d \<and> unat (PDX va) \<in> set (i # is) then None else vm_map s d' va)"
  proof (intro ballI allI impI)
    fix d' va assume "d' \<in> D" "user_va va"
    then show "vm_map u d' va = (if d' = d \<and> unat (PDX va) \<in> set (i # is) then None else vm_map s d' va)"
      using t(9) [rule_format, of d' va] u(9) [rule_format, of d' va]
      by (auto split: if_splits)
  qed
  moreover have "kforeach (free_pde d) (i # is) s = Ret () u" using t(1) u(1) by simp
  ultimately show ?case
    using u(2) vm_frame_trans [OF t(3) u(3)] t(4,5) u(4,5) by blast
qed

text \<open>A directory without user tables can be given up: its page keeps one handle.\<close>

lemma drop_dir:
  assumes inv: "vm_inv s D k xs" and d: "d \<in> D" and empty: "\<And>i. i < NUSER \<Longrightarrow> \<not> present (mem s d i)"
  shows "vm_inv s (D - {d}) (k(d := Suc (k d))) xs"
proof -
  have isr: "is_ref s (D - {d}) r q \<longleftrightarrow> is_ref s D r q \<and> r \<noteq> (d, 1024, 0)" for r q
    using empty by (cases r) (auto simp: is_ref_def)
  have refs: "refs s (D - {d}) q = refs s D q - {(d, 1024, 0)}" for q
    using isr by (auto simp: refs_def)
  have mem_r: "(d, 1024, 0) \<in> refs s D q \<longleftrightarrow> q = d" for q
    using d by (auto simp: refs_def is_ref_def NUSER_eq)
  have fin: "finite (refs s D q)" for q using inv finite_refs by (simp add: vm_inv_def)
  have card: "card (refs s (D - {d}) q) + of_bool (q = d) = card (refs s D q)" for q
  proof (cases "q = d")
    case True
    then show ?thesis using card_Suc_Diff1 [OF fin mem_r [THEN iffD2]] refs by simp
  next
    case False
    then have "refs s D q - {(d, 1024, 0)} = refs s D q" using mem_r by blast
    then show ?thesis using False refs by simp
  qed
  have "tables_ok s (D - {d})" using inv by (auto simp: vm_inv_def tables_ok_def)
  moreover have "counts_ok s (D - {d}) (k(d := Suc (k d)))"
  proof (unfold counts_ok_def, intro allI impI)
    fix q assume "q < npages s"
    then have "unat (pp_ref (pages s q)) = card (refs s D q) + k q"
      using inv by (simp add: vm_inv_def counts_ok_def)
    then show "unat (pp_ref (pages s q)) = card (refs s (D - {d}) q) + (k(d := Suc (k d))) q"
      using card [of q] by auto
  qed
  ultimately show ?thesis using inv by (simp add: vm_inv_def)
qed

lemma vm_inv_cong:
  assumes "pages t = pages s" "mem t = mem s" "npages t = npages s" "page_free_list t = page_free_list s"
  shows "vm_inv t D k xs \<longleftrightarrow> vm_inv s D k xs"
  using assms by (simp add: vm_inv_def free_list_ok_def tables_ok_def counts_ok_def refs_def is_ref_def)

lemma env_free_effect:
  assumes inv: "vm_inv s D k xs" and d: "d \<in> D" and e: "env_pgdir (envs s e) = Some d"
  shows "\<exists>t ys. env_free e s = Ret () t \<and> vm_inv t (D - {d}) k ys \<and> set xs \<subseteq> set ys \<and>
    (leak_free s xs \<longrightarrow> leak_free t ys) \<and>
    (\<forall>d' \<in> D - {d}. \<forall>va. user_va va \<longrightarrow> vm_map t d' va = vm_map s d' va) \<and>
    envs t = (envs s)(e := (envs s e)\<lparr>env_pgdir := None, env_status := ENV_FREE,
                                       env_link := env_free_list s\<rparr>) \<and>
    env_free_list t = Some e \<and> curenv t = curenv s \<and>
    cr3 t = (if curenv s = Some e then kern_pgdir s else cr3 s)"
proof -
  let ?s0 = "if curenv s = Some e then s\<lparr>cr3 := kern_pgdir s\<rparr> else s"
  let ?s = "say (Free_env (cur_id ?s0) (env_id (envs ?s0 e))) ?s0"
  have s: "pages ?s = pages s" "mem ?s = mem s" "npages ?s = npages s" "page_free_list ?s = page_free_list s"
    "envs ?s = envs s" "curenv ?s = curenv s" "env_free_list ?s = env_free_list s"
    "cr3 ?s = (if curenv s = Some e then kern_pgdir s else cr3 s)" by simp_all
  have inv0: "vm_inv ?s D k xs" using vm_inv_cong [OF s(1-4)] inv by simp
  obtain u ys where u: "kforeach (free_pde d) [0..<NUSER] ?s = Ret () u" "vm_inv u D k ys" "vm_frame ?s u"
    "set xs \<subseteq> set ys" "leak_free ?s xs \<longrightarrow> leak_free u ys" "\<forall>i \<in> set [0..<NUSER]. \<not> present (mem u d i)"
    "\<forall>d' \<in> D. \<forall>va. user_va va \<longrightarrow>
       vm_map u d' va = (if d' = d \<and> unat (PDX va) \<in> set [0..<NUSER] then None else vm_map ?s d' va)"
    using free_pdes [OF inv0 d, of "[0..<NUSER]"] by (auto simp: lessThan_atLeast0)
  note fu = vm_frame_sel [OF u(3)]
  let ?v = "set_env e ((envs u e)\<lparr>env_pgdir := None\<rparr>) u"
  have inv1: "vm_inv ?v (D - {d}) (k(d := Suc (k d))) ys"
    using drop_dir [OF u(2) d] u(6) vm_inv_cong [of ?v u] by simp
  have dn: "d < npages ?v" "npages ?v \<le> 2 ^ 20"
    using inv d s(3) fu(1) vm_inv_npages [OF inv] by (auto simp: vm_inv_def tables_ok_def)
  obtain w zs where w: "page_decref d ?v = Ret () w" "vm_inv w (D - {d}) k zs" "only_pages ?v w"
    "set ys \<subseteq> set zs" "leak_free ?v ys \<longrightarrow> leak_free w zs"
    using page_decref_inv [OF inv1 dn(1), of "k d"] by auto
  note fw = only_pages_sel [OF w(3)]
  let ?t = "(set_env e ((envs w e)\<lparr>env_status := ENV_FREE, env_link := env_free_list w\<rparr>) w)\<lparr>env_free_list := Some e\<rparr>"
  have "pa2page (npages ?v) (page2pa d) = Some d"
    using dn by (simp add: pa2page_def unat_PGNUM_page2pa)
  then have "env_free e s = Ret () ?t"
    using u(1) w(1) s(5) e by (simp add: env_free_def Let_def flip: NUSER_def)
  moreover have "vm_inv ?t (D - {d}) k zs"
    using w(2) vm_inv_cong [of ?t w] by simp
  moreover have "leak_free s xs \<longrightarrow> leak_free ?t zs"
    using u(5) w(5) by (simp add: leak_free_def)
  moreover have "vm_map ?t d' va = vm_map s d' va" if "d' \<in> D - {d}" "user_va va" for d' va
    using u(7) that vm_map_cong [of ?t u d' va] fw(1) vm_map_cong [of ?s s d' va] s(2) by auto
  moreover have "envs ?t = (envs s)(e := (envs s e)\<lparr>env_pgdir := None, env_status := ENV_FREE,
                                       env_link := env_free_list s\<rparr>)"
    using fw fu by simp
  moreover have "curenv ?t = curenv s" "cr3 ?t = (if curenv s = Some e then kern_pgdir s else cr3 s)"
    using fw fu s(6,8) by simp_all
  ultimately show ?thesis using u(4) w(4) by (intro exI [of _ ?t] exI [of _ zs]) auto
qed

section \<open>The environment an identifier names\<close>

definition env_target :: "kstate \<Rightarrow> nat \<Rightarrow> 32 word \<Rightarrow> bool \<Rightarrow> nat option" where
  "env_target s c envid checkperm =
     (let e = unat (ENVX envid)
      in if envid = 0 then Some c
         else if env_id (envs s e) = envid \<and> env_status (envs s e) \<noteq> ENV_FREE \<and>
                 (checkperm \<longrightarrow> e = c \<or> env_parent_id (envs s e) = env_id (envs s c))
         then Some e else None)"

lemma envid2env_target:
  "curenv s = Some c \<Longrightarrow> envid2env envid checkperm s =
     Ret (case env_target s c envid checkperm of None \<Rightarrow> Inl (- E_BAD_ENV) | Some e \<Rightarrow> Inr (Some e)) s"
  by (auto simp: envid2env_def env_target_def Let_def)

lemma env_target_family:
  "env_target s c envid True = Some e \<Longrightarrow> e = c \<or> env_parent_id (envs s e) = env_id (envs s c)"
  by (auto simp: env_target_def Let_def split: if_splits)

end
