(* ===== verification/Sched.thy ===== *)
theory Sched
  imports Env
begin

text \<open>
  Lemmas on the scheduler of kern/sched.c and the context switch: the search of sched_yield is a
  find in circular order, env_run leaves one environment running, and every turn of another environment
  brings a waiting one closer to its own.
\<close>

section \<open>The scheduler\<close>

lemma sched_search_find:
  assumes "c < NENV" "1 \<le> j" "j \<le> NENV" "NENV - j \<le> fuel"
  shows "sched_search fuel c ((c + j) mod NENV) s =
    (case find (\<lambda>e. env_status (envs s e) = ENV_RUNNABLE) (map (\<lambda>j. (c + j) mod NENV) [j..<NENV]) of
       None \<Rightarrow> c | Some e \<Rightarrow> e)"
  using assms(2-4)
proof (induction "NENV - j" arbitrary: j fuel)
  case 0
  then have "j = NENV" by simp
  then show ?case using assms(1) by (cases fuel) simp_all
next
  case (Suc n)
  then have j: "j < NENV" and ups: "[j..<NENV] = j # [Suc j..<NENV]" by (simp_all add: upt_conv_Cons)
  obtain f where f: "fuel = Suc f" using Suc.prems j by (cases fuel) auto
  have ne: "(c + j) mod NENV \<noteq> c"
  proof (cases "c + j < NENV")
    case False
    then have "(c + j) mod NENV = c + j - NENV" using assms(1) j by (simp add: mod_if)
    then show ?thesis using j False by simp
  qed (use Suc.prems in simp)
  have "((c + j) mod NENV + 1) mod NENV = (c + Suc j) mod NENV" by (simp add: mod_simps)
  then show ?case
    using Suc.hyps(1) [of "Suc j" f] Suc.hyps(2) Suc.prems j ne by (simp add: f ups)
qed

text \<open>Where the search starts: the environment that ran last, or the last slot.\<close>

definition sched_from :: "kstate \<Rightarrow> nat" where
  "sched_from s = (case curenv s of None \<Rightarrow> NENV - 1 | Some c \<Rightarrow> c)"

definition sched_choice :: "kstate \<Rightarrow> nat option" where
  "sched_choice s =
     (case find (\<lambda>e. env_status (envs s e) = ENV_RUNNABLE)
             (map (\<lambda>j. (sched_from s + j) mod NENV) [1..<NENV]) of
        Some e \<Rightarrow> Some e
      | None \<Rightarrow> if env_status (envs s (sched_from s)) \<in> {ENV_RUNNABLE, ENV_RUNNING}
                then Some (sched_from s) else None)"

lemma sched_yield_choice:
  assumes "sched_from s < NENV"
  shows "sched_yield s =
    (case sched_choice s of
       Some e \<Rightarrow> env_run e (s\<lparr>curenv := Some (sched_from s)\<rparr>)
     | None \<Rightarrow> sched_halt (s\<lparr>curenv := Some (sched_from s)\<rparr>))"
proof -
  let ?s = "s\<lparr>curenv := Some (sched_from s)\<rparr>"
  let ?c = "sched_from s"
  have cur: "(if curenv s = None then s\<lparr>curenv := Some (NENV - 1)\<rparr> else s) = ?s"
    by (cases "curenv s") (simp_all add: sched_from_def)
  have from_s: "sched_from ?s = ?c" by (simp add: sched_from_def)
  have "sched_search NENV ?c ((?c + 1) mod NENV) ?s =
    (case find (\<lambda>e. env_status (envs ?s e) = ENV_RUNNABLE) (map (\<lambda>j. (?c + j) mod NENV) [1..<NENV]) of
       None \<Rightarrow> ?c | Some e \<Rightarrow> e)"
    using assms by (intro sched_search_find) (simp_all add: NENV_def)
  moreover have "find P xs = Some e \<Longrightarrow> P e" for P e and xs :: "nat list"
    by (auto simp: find_Some_iff)
  ultimately show ?thesis
    unfolding sched_yield_def cur Let_def sched_choice_def from_s
    by (auto split: option.splits)
qed

definition single_running :: "kstate \<Rightarrow> bool" where
  "single_running s \<longleftrightarrow> (\<forall>i < NENV. env_status (envs s i) = ENV_RUNNING \<longrightarrow> curenv s = Some i)"

lemma env_run_effect:
  assumes "curenv s = Some c"
  shows "env_run e s =
    (let s1 = (if e \<noteq> c \<and> env_status (envs s c) = ENV_RUNNING
               then set_env c ((envs s c)\<lparr>env_status := ENV_RUNNABLE\<rparr>) s else s);
         s2 = set_env e ((envs s1 e)\<lparr>env_status := ENV_RUNNING, env_runs := env_runs (envs s1 e) + 1\<rparr>)
                (s1\<lparr>curenv := Some e\<rparr>)
     in case env_pgdir (envs s e) of
          None \<Rightarrow> Exit (Panicked ''PADDR called with invalid kva'') s2
        | Some d \<Rightarrow> Exit (Running e) (s2\<lparr>cr3 := d\<rparr>))"
  using assms by (simp add: env_run_def Let_def split: option.split)

lemma env_run_exit:
  assumes "curenv s = Some c" "env_run e s = Exit (Running e') t"
  shows "e' = e" "curenv t = Some e" "env_status (envs t e) = ENV_RUNNING"
    "Some (cr3 t) = env_pgdir (envs s e)" "single_running s \<Longrightarrow> single_running t"
    "\<And>i. i \<noteq> e \<Longrightarrow> i \<noteq> c \<Longrightarrow> envs t i = envs s i"
    "c \<noteq> e \<Longrightarrow> env_status (envs s c) = ENV_RUNNABLE \<Longrightarrow> env_status (envs t c) = ENV_RUNNABLE"
proof -
  let ?s1 = "if e \<noteq> c \<and> env_status (envs s c) = ENV_RUNNING
             then set_env c ((envs s c)\<lparr>env_status := ENV_RUNNABLE\<rparr>) s else s"
  let ?E = "(envs ?s1 e)\<lparr>env_status := ENV_RUNNING, env_runs := env_runs (envs ?s1 e) + 1\<rparr>"
  obtain d where d: "env_pgdir (envs s e) = Some d"
    using assms(2) unfolding env_run_effect [OF assms(1)] by (cases "env_pgdir (envs s e)") (simp_all add: Let_def)
  have e': "e' = e" and t: "t = (set_env e ?E (?s1\<lparr>curenv := Some e\<rparr>))\<lparr>cr3 := d\<rparr>"
    using assms(2) unfolding env_run_effect [OF assms(1)] Let_def d option.case kres.inject kexit.inject
    by blast+
  have et: "envs t = (envs ?s1)(e := ?E)" "curenv t = Some e" by (simp_all add: t)
  have s1: "envs ?s1 i = envs s i" if "i \<noteq> c" for i using that by simp
  have c1: "c \<noteq> e \<Longrightarrow> env_status (envs ?s1 c) \<noteq> ENV_RUNNING" by simp
  show "e' = e" "curenv t = Some e" "env_status (envs t e) = ENV_RUNNING" "Some (cr3 t) = env_pgdir (envs s e)"
    by (simp_all add: e' et d) (simp add: t)
  show "envs t i = envs s i" if "i \<noteq> e" "i \<noteq> c" for i using that s1 et(1) by simp
  show "env_status (envs t c) = ENV_RUNNABLE" if "c \<noteq> e" "env_status (envs s c) = ENV_RUNNABLE"
    using that et(1) by simp
  show "single_running t" if "single_running s"
    unfolding single_running_def
  proof (intro allI impI)
    fix i assume i: "i < NENV" "env_status (envs t i) = ENV_RUNNING"
    show "curenv t = Some i"
    proof (rule ccontr)
      assume "curenv t \<noteq> Some i"
      then have "i \<noteq> e" by (simp add: et)
      then have "env_status (envs ?s1 i) = ENV_RUNNING" "i \<noteq> c" using i(2) c1 by (auto simp: et)
      then have "env_status (envs s i) = ENV_RUNNING" using s1 by metis
      then show False using that i(1) \<open>i \<noteq> c\<close> assms(1) by (auto simp: single_running_def)
    qed
  qed
qed


text \<open>The number of environments the search passes before it comes to e.\<close>

definition turns :: "nat \<Rightarrow> nat \<Rightarrow> nat" where
  "turns c e = (e + NENV - Suc c) mod NENV"

lemma turns_next:
  assumes "c < NENV" "e < NENV" "e' < NENV" "e' \<noteq> e" "turns c e' \<le> turns c e"
  shows "turns e' e < turns c e"
proof -
  have t: "turns a b = (if a < b then b - Suc a else b + NENV - Suc a)" if "a < NENV" "b < NENV" for a b
  proof (cases "a < b")
    case True
    then have "b + NENV - Suc a = (b - Suc a) + NENV" by simp
    then have "turns a b = ((b - Suc a) + NENV) mod NENV" by (simp only: turns_def)
    also have "\<dots> = (b - Suc a) mod NENV" by (rule mod_add_self2)
    also have "\<dots> = b - Suc a" using that by (intro mod_less) simp
    finally show ?thesis using True by simp
  next
    case False
    then show ?thesis using that by (simp add: turns_def)
  qed
  show ?thesis using assms by (auto simp: t split: if_splits)
qed


lemma find_map_first:
  assumes "find P (map f [1..<n]) = Some y"
  obtains j where "1 \<le> j" "j < n" "y = f j" "P (f j)" "\<And>i. 1 \<le> i \<Longrightarrow> i < j \<Longrightarrow> \<not> P (f i)"
proof -
  obtain i where i: "i < n - 1" "P (f (1 + i))" "y = f (1 + i)" "\<forall>j < i. \<not> P (f (1 + j))"
    using assms by (auto simp: find_Some_iff)
  show thesis
  proof (rule that [of "1 + i"])
    show "\<not> P (f k)" if "1 \<le> k" "k < 1 + i" for k
      using i(4) [rule_format, of "k - 1"] that by simp
  qed (use i in auto)
qed

lemma turns_step:
  assumes "c < NENV" "1 \<le> j" "j < NENV"
  shows "turns c ((c + j) mod NENV) = j - 1"
proof (cases "c + j < NENV")
  case True
  then have "(c + j) mod NENV + NENV - Suc c = (j - 1) + NENV" using assms by simp
  then have "turns c ((c + j) mod NENV) = ((j - 1) + NENV) mod NENV" by (simp only: turns_def)
  also have "\<dots> = (j - 1) mod NENV" by (rule mod_add_self2)
  also have "\<dots> = j - 1" using assms by (intro mod_less) simp
  finally show ?thesis .
next
  case False
  then have "(c + j) mod NENV = c + j - NENV" using assms by (simp add: mod_if)
  then show ?thesis using False assms by (simp add: turns_def)
qed

end
