(* ===== verification/Env_Props.thy ===== *)
theory Env_Props
  imports Sched
begin

text \<open>
  What kern/env.c and kern/sched.c guarantee: that identifiers
  are not reused before their generation wraps around, that an environment starts with an empty address space and gives
  back all of it, and that the scheduler is fair. The examples use two environments on the
  machine of Pmap_Props.
\<close>

section \<open>Identifiers, allocation and release\<close>

text \<open>
  Two environments on the machine of Pmap_Props: environment 0 runs in directory 1,
  its child 1 is runnable in directory 2, environment 2 heads the free list.
\<close>

definition demo_env :: kstate where
  "demo_env = demo_vm\<lparr>curenv := Some 0, env_free_list := Some 2,
     envs := (\<lambda>i. blank_env\<lparr>env_link := Some ((i + 1) mod NENV)\<rparr>)
       (0 := blank_env\<lparr>env_id := 0x1000, env_status := ENV_RUNNING, env_pgdir := Some 1\<rparr>,
        1 := blank_env\<lparr>env_id := 0x1001, env_parent_id := 0x1000, env_status := ENV_RUNNABLE,
                       env_pgdir := Some 2\<rparr>)\<rparr>"

lemma demo_env_sel [simp]:
  "curenv demo_env = Some 0" "env_free_list demo_env = Some 2" "kern_pgdir demo_env = 0"
  "env_id (envs demo_env 0) = 0x1000" "env_status (envs demo_env 0) = ENV_RUNNING"
  "env_pgdir (envs demo_env 0) = Some 1" "env_id (envs demo_env (Suc 0)) = 0x1001"
  "env_status (envs demo_env (Suc 0)) = ENV_RUNNABLE" "env_pgdir (envs demo_env (Suc 0)) = Some 2"
  "env_parent_id (envs demo_env (Suc 0)) = 0x1000" "env_status (envs demo_env 2) = ENV_FREE"
  "env_id (envs demo_env 2) = 0" "mem demo_env = (\<lambda>_ _. 0)"
  by (simp_all add: demo_env_def demo_vm_def blank_state_def blank_env_def)

lemma demo_env_inv: "vm_inv demo_env {1, 2} demo_handles [3, 4, 5]"
  using demo_vm_inv vm_inv_cong [of demo_env demo_vm] by (simp add: demo_env_def)

lemma demo_env_map [simp]: "vm_map demo_env d va = None"
  by (simp add: vm_map_def)

lemma demo_env_fl: "free_list_ok demo_env [3, 4, 5]"
  using demo_env_inv by (simp add: vm_inv_def)

text \<open>
  C16. The identifier env_alloc gives an environment is positive, finds the environment, and differs from the
  identifier the slot had before, which is then refused as stale. When the slot has since been given out again k times,
  0 < k < 2^19 - 1, the identifier is refused in whatever state the system is; it can come back after that. The environment starts out runnable,
  with no page fault handler, not receiving, in user mode with interrupts enabled.
\<close>

theorem env_alloc_fresh_id:
  assumes "free_list_ok s (x # xs)" "env_free_list s = Some e" "e < NENV"
  shows "\<exists>t. env_alloc parent s = Ret (Inr e) t \<and> 0 < sint (env_id (envs t e)) \<and>
    envid2env (env_id (envs t e)) False t = Ret (Inr (Some e)) t \<and>
    (unat (ENVX (env_id (envs s e))) = e \<and> env_id (envs s e) \<noteq> 0 \<longrightarrow>
       envid2env (env_id (envs s e)) False t = Ret (Inl (- E_BAD_ENV)) t) \<and>
    (\<forall>k u. 0 < k \<and> k < 2 ^ 19 - 1 \<and> env_id (envs u e) = ((\<lambda>id. env_gen id OR of_nat e) ^^ k) (env_id (envs t e)) \<longrightarrow>
       envid2env (env_id (envs t e)) False u = Ret (Inl (- E_BAD_ENV)) u) \<and>
    env_status (envs t e) = ENV_RUNNABLE \<and> env_parent_id (envs t e) = parent \<and>
    env_pgfault_upcall (envs t e) = 0 \<and> \<not> env_ipc_recving (envs t e) \<and>
    tf_cs (env_tf (envs t e)) AND 3 = 3 \<and> tf_eflags (env_tf (envs t e)) = FL_IF"
proof -
  from env_alloc_cons [OF assms(1,2), of parent] obtain t where
    t: "env_alloc parent s = Ret (Inr e) t" "envs t = (envs s)(e := alloc_env parent x e (envs s e))"
    by metis
  note nid = new_id_facts [OF assms(3), of "env_id (envs s e)"]
  have id: "env_id (envs t e) = new_id (env_id (envs s e)) e" "env_status (envs t e) = ENV_RUNNABLE"
    by (simp_all add: t(2) alloc_env_def)
  have "envid2env (env_id (envs t e)) False t = Ret (Inr (Some e)) t"
    using nid(1,4) id by (simp add: envid2env_def)
  moreover have "envid2env (env_id (envs s e)) False t = Ret (Inl (- E_BAD_ENV)) t"
    if "unat (ENVX (env_id (envs s e))) = e" "env_id (envs s e) \<noteq> 0"
    using that id nid(2) by (simp add: envid2env_def)
  moreover have "envid2env (env_id (envs t e)) False u = Ret (Inl (- E_BAD_ENV)) u"
    if "0 < k" "k < 2 ^ 19 - 1" "env_id (envs u e) = ((\<lambda>id. env_gen id OR of_nat e) ^^ k) (env_id (envs t e))" for k u
    using new_id_not_again [OF assms(3) that(1,2), of "env_id (envs s e)"] that(3) nid(1,4)
    by (simp add: envid2env_def id(1) new_id_def [symmetric])
  ultimately show ?thesis
    using t(1) nid(3) id by (auto simp: t(2) alloc_env_def new_tf_def GD_UT_def FL_IF_def)
qed

theorem env_alloc_fresh_id_witness:
  "\<exists>t. env_alloc 0x1000 demo_env = Ret (Inr 2) t \<and> env_status (envs t 2) = ENV_RUNNABLE \<and>
     0 < sint (env_id (envs t 2))"
  using env_alloc_fresh_id [OF demo_env_fl, of 2 "0x1000"] by (auto simp: NENV_def)

text \<open>
  C17. A new environment starts with an empty address space of its own: no user address is mapped, no
  mapping of an existing address space changes, and the reference counts stay exact.
\<close>

theorem env_alloc_empty_space:
  assumes "vm_inv s D k (x # xs)" "env_free_list s = Some e" "kernel_dir_ok s"
  shows "\<exists>t. env_alloc parent s = Ret (Inr e) t \<and> env_pgdir (envs t e) = Some x \<and>
    vm_inv t (insert x D) k xs \<and> x \<notin> D \<and> (\<forall>va. user_va va \<longrightarrow> vm_map t x va = None) \<and>
    (\<forall>d \<in> D. \<forall>va. user_va va \<longrightarrow> vm_map t d va = vm_map s d va)"
proof -
  have fl: "free_list_ok s (x # xs)" using assms(1) by (simp add: vm_inv_def)
  from env_alloc_cons [OF fl assms(2), of parent] obtain t where
    t: "env_alloc parent s = Ret (Inr e) t" "free_list_ok t xs" "mem t = (mem s)(x := new_dir x s)"
      "envs t = (envs s)(e := alloc_env parent x e (envs s e))" "npages t = npages s"
      "\<And>p. pp_ref (pages t p) = (if p = x then pp_ref (pages s x) + 1 else pp_ref (pages s p))"
    by metis
  note add = vm_inv_add_dir [OF assms(1) t(2,3) new_dir_user [OF assms(3)] t(5,6)]
  have "x \<notin> D" using free_not_table(1) [OF assms(1), of x] by simp
  then show ?thesis using t(1,4) add by (auto simp: alloc_env_def)
qed

theorem env_alloc_empty_space_witness:
  "\<exists>t. env_alloc 0x1000 demo_env = Ret (Inr 2) t \<and> vm_inv t {3, 1, 2} demo_handles [4, 5] \<and> vm_map t 3 0 = None"
  using env_alloc_empty_space [OF demo_env_inv, of 2 "0x1000"] by (auto simp: kernel_dir_ok_def)

text \<open>
  env_init links the environments into a ring, not a list: allocating again and again after it
  hands out the slots 0 to 1023 in order and then slot 0 once more, although its environment is still in use. The
  error -E_NO_FREE_ENV never occurs.
\<close>

theorem env_alloc_wraps:
  assumes "free_list_ok s xs" "n \<le> length xs"
  shows "\<exists>t. env_alloc_many n (env_init s) = Ret (map (\<lambda>k. k mod NENV) [0..<n]) t"
proof -
  have "free_list_ok (env_init s) xs" using assms(1) by (simp add: free_list_ok_def env_init_def)
  from circular_alloc_many [OF this assms(2) env_init_circular] show ?thesis by (simp add: NENV_def)
qed

theorem env_alloc_wraps_witness:
  "\<exists>s t es. page_init 0 ((blank_state 2000 2000)\<lparr>nextfree := 0xF0005000\<rparr>) = Ret () s \<and>
     env_alloc_many 1025 (env_init s) = Ret es t \<and> es ! 0 = 0 \<and> es ! 1024 = 0"
proof -
  let ?s0 = "(blank_state 2000 2000)\<lparr>nextfree := 0xF0005000\<rparr>"
  let ?fl = "rev (filter (\<lambda>p. p < npages_basemem ?s0 \<or> kva_frame (nextfree ?s0) \<le> p) [1..<npages ?s0])"
  have "\<exists>s. page_init 0 ?s0 = Ret () s \<and> free_list_ok s ?fl"
    by (rule page_init_free_list) (simp_all add: blank_state_def layout_defs)
  then obtain s where s: "page_init 0 ?s0 = Ret () s" "free_list_ok s ?fl" by blast
  have "filter (\<lambda>p. p < 2000 \<or> kva_frame (nextfree ?s0) \<le> p) [1..<2000] = [1..<2000]"
    by (rule filter_True) auto
  then have "length ?fl = 1999" by (simp add: blank_state_def)
  then show ?thesis
    using env_alloc_wraps [OF s(2), of 1025] s(1) by (auto simp: NENV_def)
qed

text \<open>
  C9. env_free gives back everything the environment owned and nothing else: its address space is gone, no
  mapping of another address space changes, every page that was free still is, a page that loses its
  last reference returns to the free list, and the environment heads the list of free environments. When it
  was the current one, the kernel's own page directory is loaded first.
\<close>

theorem env_free_correct:
  assumes "vm_inv s D k xs" "d \<in> D" "env_pgdir (envs s e) = Some d"
  shows "\<exists>t ys. env_free e s = Ret () t \<and> vm_inv t (D - {d}) k ys \<and> set xs \<subseteq> set ys \<and>
    (leak_free s xs \<longrightarrow> leak_free t ys) \<and>
    (\<forall>d' \<in> D - {d}. \<forall>va. user_va va \<longrightarrow> vm_map t d' va = vm_map s d' va) \<and>
    envs t = (envs s)(e := (envs s e)\<lparr>env_pgdir := None, env_status := ENV_FREE,
                                       env_link := env_free_list s\<rparr>) \<and>
    env_free_list t = Some e \<and> curenv t = curenv s \<and>
    cr3 t = (if curenv s = Some e then kern_pgdir s else cr3 s)"
  by (rule env_free_effect [OF assms])

theorem env_free_correct_witness:
  "\<exists>t ys. env_free 1 demo_env = Ret () t \<and> vm_inv t {1} demo_handles ys \<and> {3, 4, 5} \<subseteq> set ys \<and>
     env_status (envs t 1) = ENV_FREE"
proof -
  have D: "{1, 2} - {2} = {1 :: nat}" by auto
  obtain t ys where "env_free 1 demo_env = Ret () t" "vm_inv t ({1, 2} - {2}) demo_handles ys"
    "set [3, 4, 5] \<subseteq> set ys" "env_status (envs t 1) = ENV_FREE"
    using env_free_correct [OF demo_env_inv, of 2 1] by auto
  then show ?thesis unfolding D by auto
qed

section \<open>Scheduling\<close>

text \<open>
  C10. sched_yield runs the first runnable environment after the current one in circular order, the current one
  itself if there is no other, and otherwise halts the processor or, with no live environment at all, enters the
  monitor. When it runs one, that environment is the only one marked running and its page directory is
  loaded.
\<close>

theorem sched_yield_round_robin:
  assumes "sched_from s < NENV" "single_running s"
  shows "case (sched_yield s :: (unit, kstate) kres) of
      Exit (Running e) t \<Rightarrow> sched_choice s = Some e \<and> curenv t = Some e \<and> single_running t \<and>
        env_status (envs t e) = ENV_RUNNING \<and> env_pgdir (envs s e) = Some (cr3 t)
    | Exit (Panicked _) _ \<Rightarrow> (\<exists>e. sched_choice s = Some e \<and> env_pgdir (envs s e) = None)
    | Exit r _ \<Rightarrow> sched_choice s = None \<and> r = (if \<forall>i < NENV. env_status (envs s i) \<notin>
                     {ENV_RUNNABLE, ENV_RUNNING, ENV_DYING} then Monitor else Halted)
    | Ret _ _ \<Rightarrow> False"
proof -
  let ?s = "s\<lparr>curenv := Some (sched_from s)\<rparr>"
  have run: "(sched_yield s :: (unit, kstate) kres) = (case sched_choice s of Some e \<Rightarrow> env_run e ?s | None \<Rightarrow> sched_halt ?s)"
    by (rule sched_yield_choice [OF assms(1)])
  have single: "single_running ?s"
    using assms(2) by (auto simp: single_running_def sched_from_def split: option.splits)
  show ?thesis
  proof (cases "sched_choice s")
    case None
    then show ?thesis
      using run by (auto simp: sched_halt_def list_all_iff)
  next
    case (Some e)
    have cur: "curenv ?s = Some (sched_from s)" by simp
    show ?thesis
    proof (cases "env_pgdir (envs s e)")
      case None
      then show ?thesis using run Some env_run_effect [OF cur, of e, where 'a = unit] by (simp add: Let_def)
    next
      case (Some d)
      then obtain t where t: "(env_run e ?s :: (unit, kstate) kres) = Exit (Running e) t"
        using env_run_effect [OF cur, of e, where 'a = unit] by (simp add: Let_def)
      then show ?thesis
        using run \<open>sched_choice s = Some e\<close> env_run_exit [OF cur t] single by simp
    qed
  qed
qed


lemma demo_env_sched: "sched_choice demo_env = Some 1" "sched_from demo_env = 0" "single_running demo_env"
proof -
  show f: "sched_from demo_env = 0" by (simp add: sched_from_def)
  have N: "Suc 0 < NENV" "Suc 0 mod NENV = Suc 0" "NENV \<noteq> Suc 0" by (simp_all add: NENV_def)
  have "[Suc 0..<NENV] = Suc 0 # [Suc (Suc 0)..<NENV]" by (rule upt_conv_Cons [OF N(1)])
  then show "sched_choice demo_env = Some 1" by (simp add: sched_choice_def f N)
  show "single_running demo_env"
    by (auto simp: single_running_def demo_env_def blank_env_def)
qed

theorem sched_yield_round_robin_witness:
  "\<exists>t. (sched_yield demo_env :: (unit, kstate) kres) = Exit (Running 1) t \<and> curenv t = Some 1 \<and> cr3 t = 2"
proof -
  have "\<exists>t. (sched_yield demo_env :: (unit, kstate) kres) = Exit (Running 1) t"
    using sched_yield_choice [of demo_env, where 'a = unit] env_run_effect [of "demo_env\<lparr>curenv := Some 0\<rparr>" 0 1, where 'a = unit]
    by (simp add: demo_env_sched NENV_def Let_def)
  then obtain t where "(sched_yield demo_env :: (unit, kstate) kres) = Exit (Running 1) t" by blast
  then show ?thesis
    using sched_yield_round_robin [of demo_env] by (simp add: demo_env_sched NENV_def)
qed




end
