(* ===== verification/Kclock.thy ===== *)
theory Kclock
  imports Prelude
begin

text \<open>
  The clock: the calendar arithmetic of inc/time.h and the reading of the CMOS clock in
  kern/kclock.c. C's int is an integer that wraps at 32 bits where a sum can
  leave its range. An index outside of months is None.
\<close>

section \<open>Calendar arithmetic\<close>

record tm =
  tm_sec :: int
  tm_min :: int
  tm_hour :: int
  tm_mday :: int
  tm_mon :: int
  tm_year :: int

definition c_int :: "int \<Rightarrow> int" where
  "c_int x = sint (word_of_int x :: 32 word)"

definition is_leap_year :: "int \<Rightarrow> bool" where
  "is_leap_year year \<longleftrightarrow> year mod 400 = 0 \<or> (year mod 4 = 0 \<and> year mod 100 \<noteq> 0)"

definition d_to_s :: "int \<Rightarrow> int" where
  "d_to_s d = d * 24 * 60 * 60"

definition year_days :: "int \<Rightarrow> int" where
  "year_days year = 365 + of_bool (is_leap_year year)"

definition months :: "int \<Rightarrow> int list" where
  "months year = [31, 28 + of_bool (is_leap_year year), 31, 30, 31, 30, 31, 31, 30, 31, 30, 31]"

text \<open>The two loops of timestamp.\<close>

fun years_to_s :: "nat \<Rightarrow> int \<Rightarrow> int" where
  "years_to_s 0 year = 0"
| "years_to_s (Suc n) year = d_to_s (year_days year) + years_to_s n (year + 1)"

definition months_to_s :: "nat \<Rightarrow> int \<Rightarrow> int option" where
  "months_to_s n year =
     (if n \<le> 12 then Some (sum_list (map d_to_s (take n (months year)))) else None)"

definition timestamp :: "tm \<Rightarrow> int option" where
  "timestamp t =
     (let n = nat (tm_year t + 2000 - 1970); year = 1970 + int n
      in map_option
           (\<lambda>m. c_int (years_to_s n 1970 + m + d_to_s (tm_mday t) + tm_hour t * 60 * 60
                        + tm_min t * 60 + tm_sec t))
           (months_to_s (nat (tm_mon t)) year))"

text \<open>
  The loops of mktime: repeated subtraction while the time is greater (the years, the
  months, the days) or at least (the hours, the minutes) one more unit.
\<close>

function year_loop :: "int \<Rightarrow> int \<Rightarrow> int \<times> int" where
  "year_loop time year =
     (if time > d_to_s (year_days (1900 + year))
      then year_loop (time - d_to_s (year_days (1900 + year))) (year + 1)
      else (time, year))"
  by pat_completeness auto
termination
  by (relation "measure (\<lambda>(time, year). nat time)") (auto simp: d_to_s_def year_days_def of_bool_def split: if_splits)

fun month_loop :: "int list \<Rightarrow> int \<Rightarrow> int \<Rightarrow> (int \<times> int) option" where
  "month_loop [] time month = None"
| "month_loop (d # ds) time month =
     (if time > d_to_s d then month_loop ds (time - d_to_s d) (month + 1) else Some (time, month))"

function day_loop :: "int \<Rightarrow> int \<Rightarrow> int \<times> int" where
  "day_loop time day = (if time > d_to_s 1 then day_loop (time - d_to_s 1) (day + 1) else (time, day))"
  by pat_completeness auto
termination
  by (relation "measure (\<lambda>(time, day). nat time)") (auto simp: d_to_s_def)

function unit_loop :: "nat \<Rightarrow> int \<Rightarrow> int \<Rightarrow> int \<times> int" where
  "unit_loop u time n =
     (if u > 0 \<and> time \<ge> int u then unit_loop u (time - int u) (n + 1) else (time, n))"
  by pat_completeness auto
termination
  by (relation "measure (\<lambda>(u, time, n). nat time)") auto

declare year_loop.simps [simp del] day_loop.simps [simp del] unit_loop.simps [simp del]

definition mktime :: "int \<Rightarrow> tm option" where
  "mktime time =
     (case year_loop time 70 of (time, year) \<Rightarrow>
        map_option
          (\<lambda>(time, month).
             case day_loop time 0 of (time, day) \<Rightarrow>
               case unit_loop 3600 time 0 of (time, hour) \<Rightarrow>
                 case unit_loop 60 time 0 of (time, minute) \<Rightarrow>
                   \<lparr>tm_sec = time, tm_min = minute, tm_hour = hour, tm_mday = day,
                    tm_mon = month, tm_year = year\<rparr>)
          (month_loop (months (1900 + year)) time 0))"

section \<open>Reading the CMOS clock\<close>

definition RTC_SEC :: nat where "RTC_SEC = 0"
definition RTC_MIN :: nat where "RTC_MIN = 2"
definition RTC_HOUR :: nat where "RTC_HOUR = 4"
definition RTC_DAY :: nat where "RTC_DAY = 7"
definition RTC_MON :: nat where "RTC_MON = 8"
definition RTC_YEAR :: nat where "RTC_YEAR = 9"
definition RTC_AREG :: nat where "RTC_AREG = 10"
definition RTC_UPDATE_IN_PROGRESS :: "8 word" where "RTC_UPDATE_IN_PROGRESS = 0x80"

definition BCD2BIN :: "8 word \<Rightarrow> int" where
  "BCD2BIN bcd = uint (bcd AND 15) + uint (drop_bit 4 bcd) * 10"

text \<open>
  The device is a function cmos from the number of the read (a read is the pair of
  port accesses in mc146818_read) and the register to its value at that moment.
\<close>

definition mc146818_read :: "(nat \<Rightarrow> nat \<Rightarrow> 8 word) \<Rightarrow> nat \<Rightarrow> nat \<Rightarrow> 8 word" where
  "mc146818_read cmos n reg = cmos n reg"

definition get_time :: "(nat \<Rightarrow> nat \<Rightarrow> 8 word) \<Rightarrow> nat \<Rightarrow> int option" where
  "get_time cmos n =
     timestamp \<lparr>tm_sec = BCD2BIN (mc146818_read cmos n RTC_SEC),
                tm_min = BCD2BIN (mc146818_read cmos (n + 1) RTC_MIN),
                tm_hour = BCD2BIN (mc146818_read cmos (n + 2) RTC_HOUR),
                tm_mday = BCD2BIN (mc146818_read cmos (n + 3) RTC_DAY),
                tm_mon = BCD2BIN (mc146818_read cmos (n + 4) RTC_MON) - 1,
                tm_year = BCD2BIN (mc146818_read cmos (n + 5) RTC_YEAR)\<rparr>"

text \<open>
  gettime repeats while the two readings differ and no update is in progress; a
  clock that changes on every reading keeps it going, so the loop has fuel (None: no result
  within that many rounds, or an index out of range). The register A is read first in the
  condition, after the 12 reads of the two times.
\<close>

fun gettime_loop :: "nat \<Rightarrow> (nat \<Rightarrow> nat \<Rightarrow> 8 word) \<Rightarrow> nat \<Rightarrow> int option" where
  "gettime_loop 0 cmos n = None"
| "gettime_loop (Suc fuel) cmos n =
     (case (get_time cmos n, get_time cmos (n + 6)) of
        (Some t1, Some t2) \<Rightarrow>
          if mc146818_read cmos (n + 12) RTC_AREG AND RTC_UPDATE_IN_PROGRESS = 0 \<and> t1 \<noteq> t2
          then gettime_loop fuel cmos (n + 13) else Some t1
      | _ \<Rightarrow> None)"

section \<open>Lemmas\<close>

lemma c_int_id: "- (2 ^ 31) \<le> x \<Longrightarrow> x < 2 ^ 31 \<Longrightarrow> c_int x = x"
  by (simp add: c_int_def signed_of_int signed_take_bit_int_eq_self)

lemma year_days_bounds: "365 \<le> year_days y" "year_days y \<le> 366"
  by (simp_all add: year_days_def)

lemma d_to_s_simps: "d_to_s d = 86400 * d"
  by (simp add: d_to_s_def)

lemma year_loop_years:
  assumes "0 < r" "r \<le> d_to_s (year_days (1900 + (y + int n)))"
  shows "year_loop (years_to_s n (1900 + y) + r) y = (r, y + int n)"
  using assms
proof (induction n arbitrary: y)
  case 0
  then show ?case by (simp add: year_loop.simps)
next
  case (Suc n)
  have pos: "0 \<le> years_to_s n z" for z
    by (induction n arbitrary: z) (simp_all add: d_to_s_simps year_days_def)
  have "year_loop (years_to_s (Suc n) (1900 + y) + r) y
      = year_loop (years_to_s n (1900 + (y + 1)) + r) (y + 1)"
    using Suc.prems(1) pos [of "1900 + y + 1"] by (subst year_loop.simps) (simp add: algebra_simps)
  also have "\<dots> = (r, y + int (Suc n))"
    using Suc.IH [of "y + 1"] Suc.prems by (simp add: algebra_simps)
  finally show ?case .
qed

lemma month_loop_months:
  assumes "n < length ds" "\<forall>d \<in> set ds. 0 < d" "0 < r" "r \<le> d_to_s (ds ! n)"
  shows "month_loop ds (sum_list (map d_to_s (take n ds)) + r) m = Some (r, m + int n)"
  using assms
proof (induction n arbitrary: ds m)
  case 0
  then show ?case by (cases ds) auto
next
  case (Suc n)
  then obtain d ds' where ds: "ds = d # ds'" by (cases ds) auto
  have "0 \<le> sum_list (map d_to_s (take n ds'))"
    using Suc.prems(2) by (intro sum_list_nonneg) (auto simp: ds d_to_s_simps dest!: in_set_takeD intro: less_imp_le)
  then show ?case
    using Suc.IH [of ds' "m + 1"] Suc.prems by (simp add: ds algebra_simps)
qed

lemma day_loop_days:
  assumes "0 < r" "r \<le> 86400"
  shows "day_loop (86400 * int n + r) m = (r, m + int n)"
  using assms
proof (induction n arbitrary: m)
  case 0
  then show ?case by (simp add: day_loop.simps d_to_s_simps)
next
  case (Suc n)
  have "day_loop (86400 * int (Suc n) + r) m = day_loop (86400 * int n + r) (m + 1)"
    using Suc.prems by (subst day_loop.simps) (simp add: d_to_s_simps algebra_simps)
  then show ?case using Suc by simp
qed

lemma unit_loop_units:
  assumes "0 \<le> r" "r < int u"
  shows "unit_loop u (int u * int n + r) m = (r, m + int n)"
  using assms
proof (induction n arbitrary: m)
  case 0
  then show ?case by (simp add: unit_loop.simps)
next
  case (Suc n)
  have "unit_loop u (int u * int (Suc n) + r) m = unit_loop u (int u * int n + r) (m + 1)"
    using Suc.prems by (subst unit_loop.simps) (simp add: algebra_simps)
  then show ?case using Suc by simp
qed

text \<open>A point in time inside year 1970 + y: which month, day and second of the day.\<close>

lemma mktime_parts:
  assumes "n < 12" "0 < sod" "sod \<le> 86400" "86400 * int d + sod \<le> d_to_s (months (1970 + int y) ! n)"
    and "sum_list (map d_to_s (take n (months (1970 + int y)))) + (86400 * int d + sod)
           \<le> d_to_s (year_days (1970 + int y))"
  shows "mktime (years_to_s y 1970 + sum_list (map d_to_s (take n (months (1970 + int y))))
                 + (86400 * int d + sod)) =
    Some \<lparr>tm_sec = sod mod 3600 mod 60, tm_min = sod mod 3600 div 60, tm_hour = sod div 3600,
          tm_mday = int d, tm_mon = int n, tm_year = 70 + int y\<rparr>"
proof -
  let ?ms = "months (1970 + int y)"
  let ?m = "sum_list (map d_to_s (take n ?ms))" and ?r = "86400 * int d + sod"
  have m: "0 \<le> ?m" by (intro sum_list_nonneg) (auto simp: d_to_s_simps months_def dest!: in_set_takeD)
  have "year_loop (years_to_s y (1900 + 70) + (?m + ?r)) 70 = (?m + ?r, 70 + int y)"
    using m assms by (intro year_loop_years) (simp_all add: algebra_simps)
  moreover have "month_loop ?ms (?m + ?r) 0 = Some (?r, 0 + int n)"
    using assms by (intro month_loop_months) (auto simp: months_def)
  moreover have "day_loop ?r 0 = (sod, 0 + int d)"
    using assms by (intro day_loop_days) simp_all
  moreover have "unit_loop 3600 sod 0 = (sod mod 3600, 0 + sod div 3600)"
    using unit_loop_units [of "sod mod 3600" 3600 "nat (sod div 3600)" 0]
      pos_imp_zdiv_nonneg_iff [of 3600 sod] assms(2) by simp
  moreover have "unit_loop 60 (sod mod 3600) 0 = (sod mod 3600 mod 60, 0 + sod mod 3600 div 60)"
    using unit_loop_units [of "sod mod 3600 mod 60" 60 "nat (sod mod 3600 div 60)" 0]
      pos_imp_zdiv_nonneg_iff [of 60 "sod mod 3600"] by simp
  ultimately show ?thesis by (simp add: mktime_def add.assoc)
qed


section \<open>Round trip through a timestamp\<close>

definition valid_tm :: "tm \<Rightarrow> bool" where
  "valid_tm t \<longleftrightarrow> 0 \<le> tm_sec t \<and> tm_sec t < 60 \<and> 0 \<le> tm_min t \<and> tm_min t < 60 \<and>
     0 \<le> tm_hour t \<and> tm_hour t < 24 \<and> 0 \<le> tm_mon t \<and> tm_mon t < 12 \<and>
     1 \<le> tm_mday t \<and> tm_mday t \<le> months (tm_year t + 2000) ! nat (tm_mon t) \<and>
     0 \<le> tm_year t \<and> tm_year t \<le> 36"

definition second_of_day :: "tm \<Rightarrow> int" where
  "second_of_day t = tm_hour t * 60 * 60 + tm_min t * 60 + tm_sec t"

lemma years_to_s_bounds: "0 \<le> years_to_s n y \<and> years_to_s n y \<le> 31622400 * int n"
proof (induction n arbitrary: y)
  case (Suc n)
  have "0 \<le> d_to_s (year_days y)" "d_to_s (year_days y) \<le> 31622400"
    using year_days_bounds [of y] by (simp_all add: d_to_s_simps)
  then show ?case using Suc.IH [of "y + 1"] by simp
qed simp

lemma months_prefix:
  assumes "n < 12"
  shows "0 \<le> sum_list (map d_to_s (take n (months y)))"
    and "sum_list (map d_to_s (take n (months y))) + d_to_s (months y ! n) \<le> d_to_s (year_days y)"
    and "d_to_s (months y ! n) \<le> 2678400"
proof -
  have len: "length (months y) = 12" by (simp add: months_def)
  have pos: "0 \<le> sum_list (map d_to_s ds)" if "set ds \<subseteq> set (months y)" for ds
    using that by (intro sum_list_nonneg) (auto simp: months_def d_to_s_simps)
  show "0 \<le> sum_list (map d_to_s (take n (months y)))" by (rule pos) (rule set_take_subset)
  have "months y = take n (months y) @ months y ! n # drop (Suc n) (months y)"
    using assms len by (simp add: id_take_nth_drop)
  then have "sum_list (map d_to_s (months y)) = sum_list (map d_to_s (take n (months y)))
      + d_to_s (months y ! n) + sum_list (map d_to_s (drop (Suc n) (months y)))"
    by (metis (no_types, lifting) add.assoc list.simps(9) map_append sum_list.Cons sum_list_append)
  moreover have "sum_list (map d_to_s (months y)) = d_to_s (year_days y)"
    by (simp add: months_def year_days_def d_to_s_simps)
  moreover have "0 \<le> sum_list (map d_to_s (drop (Suc n) (months y)))" by (rule pos) (rule set_drop_subset)
  ultimately show "sum_list (map d_to_s (take n (months y))) + d_to_s (months y ! n) \<le> d_to_s (year_days y)"
    by simp
  have "months y ! n \<in> set (months y)" using assms len by simp
  then show "d_to_s (months y ! n) \<le> 2678400" by (auto simp: months_def d_to_s_simps)
qed

lemma months_Suc:
  assumes "Suc n < 12"
  shows "sum_list (map d_to_s (take (Suc n) (months y))) =
    sum_list (map d_to_s (take n (months y))) + d_to_s (months y ! n)"
proof -
  have "n < length (months y)" using assms by (simp add: months_def)
  then show ?thesis by (simp add: take_Suc_conv_app_nth)
qed

lemma years_Suc: "years_to_s (Suc n) y = years_to_s n y + d_to_s (year_days (y + int n))"
proof (induction n arbitrary: y)
  case (Suc n)
  have "y + 1 + int n = y + int (Suc n)" by simp
  then have "years_to_s (Suc n) (y + 1) = years_to_s n (y + 1) + d_to_s (year_days (y + int (Suc n)))"
    using Suc.IH [of "y + 1"] by argo
  then show ?case by (simp only: years_to_s.simps(2) [of "Suc n" y] years_to_s.simps(2) [of n y] add.assoc)
qed simp

text \<open>The timestamp of a valid time, and the names of its parts.\<close>

lemma timestamp_valid:
  assumes "valid_tm t"
  obtains y n d where "tm_year t + 30 = int y" "tm_mon t = int n" "tm_mday t = int d" "n < 12" "1 \<le> d"
    "int d \<le> months (1970 + int y) ! n" "y \<le> 66"
    "timestamp t = Some (years_to_s y 1970 + sum_list (map d_to_s (take n (months (1970 + int y))))
                         + (86400 * int d + second_of_day t))"
proof -
  let ?y = "nat (tm_year t + 30)" and ?n = "nat (tm_mon t)" and ?d = "nat (tm_mday t)"
  have v: "tm_year t + 30 = int ?y" "tm_mon t = int ?n" "tm_mday t = int ?d" "?n < 12" "1 \<le> ?d"
    "?y \<le> 66" "0 \<le> second_of_day t" "second_of_day t < 86400" "tm_year t \<le> 36"
    using assms by (auto simp: valid_tm_def second_of_day_def)
  have d: "int ?d \<le> months (1970 + int ?y) ! ?n"
    using assms v(1) by (simp add: valid_tm_def algebra_simps)
  let ?sum = "years_to_s ?y 1970 + sum_list (map d_to_s (take ?n (months (1970 + int ?y))))
              + (86400 * int ?d + second_of_day t)"
  have "c_int ?sum = ?sum"
    using years_to_s_bounds [of ?y 1970] months_prefix [OF v(4), of "1970 + int ?y"] d v
    by (intro c_int_id) (simp_all add: d_to_s_simps year_days_def of_bool_def split: if_splits)
  moreover have "tm_year t + 2000 - 1970 = int ?y" using v(1) by simp
  then have "timestamp t = Some (c_int (years_to_s ?y 1970
      + sum_list (map d_to_s (take ?n (months (1970 + int ?y)))) + d_to_s (tm_mday t)
      + tm_hour t * 60 * 60 + tm_min t * 60 + tm_sec t))"
    using v(4) by (simp add: timestamp_def months_to_s_def Let_def)
  moreover have "years_to_s ?y 1970
      + sum_list (map d_to_s (take ?n (months (1970 + int ?y)))) + d_to_s (tm_mday t)
      + tm_hour t * 60 * 60 + tm_min t * 60 + tm_sec t = ?sum"
    using v(3) by (simp add: second_of_day_def d_to_s_simps del: int_nat_eq) 
  ultimately have "timestamp t = Some ?sum" by metis
  then show thesis by (rule that [OF v(1-5) d v(6)])
qed

lemma second_of_day_parts:
  assumes "valid_tm t"
  shows "second_of_day t div 3600 = tm_hour t" "second_of_day t mod 3600 div 60 = tm_min t"
    "second_of_day t mod 3600 mod 60 = tm_sec t" "0 \<le> second_of_day t" "second_of_day t < 86400"
proof -
  have h: "second_of_day t = 3600 * tm_hour t + (60 * tm_min t + tm_sec t)"
    by (simp add: second_of_day_def)
  have b: "0 \<le> 60 * tm_min t + tm_sec t" "60 * tm_min t + tm_sec t < 3600"
    using assms by (simp_all add: valid_tm_def)
  have m: "second_of_day t mod 3600 = 60 * tm_min t + tm_sec t"
    unfolding h using b by (simp add: mod_pos_pos_trivial)
  show "second_of_day t div 3600 = tm_hour t" unfolding h using b by (simp add: div_pos_pos_trivial)
  show "second_of_day t mod 3600 div 60 = tm_min t" "second_of_day t mod 3600 mod 60 = tm_sec t"
    unfolding m using assms by (simp_all add: valid_tm_def)
  show "0 \<le> second_of_day t" "second_of_day t < 86400"
    using assms by (simp_all add: valid_tm_def second_of_day_def)
qed

text \<open>
  C40. A time read from the clock, with a clock year from 0 to 36 for 2000 to 2036, survives the conversion to a timestamp and back, unless it is
  midnight or falls on the last day of its month, but for the year: timestamp counts tm_year from 2000 and mktime from
  1900, as inc/time.h documents it, so it comes back with 100 added. No loop reads past the table of months.
\<close>

theorem clock_roundtrip:
  assumes "valid_tm t" "0 < second_of_day t" "tm_mday t < months (tm_year t + 2000) ! nat (tm_mon t)"
  shows "Option.bind (timestamp t) mktime = Some (t\<lparr>tm_year := tm_year t + 100\<rparr>)"
proof -
  from timestamp_valid [OF assms(1)] obtain y n d where
    v: "tm_year t + 30 = int y" "tm_mon t = int n" "tm_mday t = int d" "n < 12" and
    ts: "timestamp t = Some (years_to_s y 1970 + sum_list (map d_to_s (take n (months (1970 + int y))))
                         + (86400 * int d + second_of_day t))" by metis
  note s = second_of_day_parts [OF assms(1)]
  have y: "tm_year t + 2000 = 1970 + int y" using v(1) by simp
  have "int d < months (1970 + int y) ! n" using assms(3) v unfolding y by simp
  then have r: "86400 * int d + second_of_day t \<le> d_to_s (months (1970 + int y) ! n)"
    using s by (simp add: d_to_s_simps)
  moreover note months_prefix [OF v(4), of "1970 + int y"]
  ultimately show ?thesis
    using mktime_parts [OF v(4) assms(2) _ r] s v by (simp add: ts)
qed

theorem clock_roundtrip_witness:
  "Option.bind (timestamp \<lparr>tm_sec = 7, tm_min = 30, tm_hour = 12, tm_mday = 28, tm_mon = 11, tm_year = 17\<rparr>) mktime =
   Some \<lparr>tm_sec = 7, tm_min = 30, tm_hour = 12, tm_mday = 28, tm_mon = 11, tm_year = 117\<rparr>"
  using clock_roundtrip [of "\<lparr>tm_sec = 7, tm_min = 30, tm_hour = 12, tm_mday = 28, tm_mon = 11, tm_year = 17\<rparr>"]
  by (simp add: valid_tm_def second_of_day_def months_def)

text \<open>
  On the last day of a month (other than at midnight) the conversion back answers the day 0 of the next
  month, and of January of the next year on the 31 December: mktime moves on when the time is
  greater than the month, but counts its days from 0 while timestamp counts them from 1.
\<close>

theorem clock_last_day:
  assumes "valid_tm t" "0 < second_of_day t" "tm_mday t = months (tm_year t + 2000) ! nat (tm_mon t)"
  shows "Option.bind (timestamp t) mktime =
    Some (if tm_mon t < 11 then t\<lparr>tm_mday := 0, tm_mon := tm_mon t + 1, tm_year := tm_year t + 100\<rparr>
          else t\<lparr>tm_mday := 0, tm_mon := 0, tm_year := tm_year t + 101\<rparr>)"
proof -
  from timestamp_valid [OF assms(1)] obtain y n d where
    v: "tm_year t + 30 = int y" "tm_mon t = int n" "tm_mday t = int d" "n < 12" and
    ts: "timestamp t = Some (years_to_s y 1970 + sum_list (map d_to_s (take n (months (1970 + int y))))
                         + (86400 * int d + second_of_day t))" by metis
  note s = second_of_day_parts [OF assms(1)]
  have y: "tm_year t + 2000 = 1970 + int y" using v(1) by simp
  have d: "int d = months (1970 + int y) ! n" using assms(3) v unfolding y by simp
  show ?thesis
  proof (cases "n < 11")
    case True
    let ?ms = "months (1970 + int y)"
    have "Suc n < 12" using True by simp
    note p = months_prefix [OF this, of "1970 + int y"]
    have "28 \<le> ?ms ! Suc n" using True by (auto simp: months_def less_Suc_eq numeral_eq_Suc)
    then have r: "86400 * int 0 + second_of_day t \<le> d_to_s (?ms ! Suc n)"
      using s by (simp add: d_to_s_simps)
    show ?thesis
      using mktime_parts [OF \<open>Suc n < 12\<close> assms(2) _ r] p s r v True months_Suc [OF \<open>Suc n < 12\<close>, of "1970 + int y"] d
      by (simp add: ts d_to_s_simps algebra_simps)
  next
    case False
    then have n: "n = 11" using v(4) by simp
    have r: "86400 * int 0 + second_of_day t \<le> d_to_s (months (1970 + int (Suc y)) ! 0)"
      using s by (simp add: d_to_s_simps months_def)
    have "years_to_s (Suc y) 1970 = years_to_s y 1970 + sum_list (map d_to_s (take n (months (1970 + int y)))) + 86400 * int d"
      unfolding years_Suc d n by (simp add: months_def d_to_s_simps year_days_def)
    then have "timestamp t = Some (years_to_s (Suc y) 1970
        + sum_list (map d_to_s (take 0 (months (1970 + int (Suc y))))) + (86400 * int 0 + second_of_day t))"
      by (simp add: ts)
    moreover have "86400 * int 0 + second_of_day t \<le> d_to_s (year_days (1970 + int (Suc y)))"
      using s year_days_bounds(1) [of "1970 + int (Suc y)"] by (simp add: d_to_s_simps)
    ultimately show ?thesis
      using mktime_parts [OF _ assms(2) _ r] s v n by simp
  qed
qed

theorem clock_last_day_witness:
  "Option.bind (timestamp \<lparr>tm_sec = 0, tm_min = 0, tm_hour = 12, tm_mday = 31, tm_mon = 2, tm_year = 17\<rparr>) mktime =
   Some \<lparr>tm_sec = 0, tm_min = 0, tm_hour = 12, tm_mday = 0, tm_mon = 3, tm_year = 117\<rparr>"
  using clock_last_day [of "\<lparr>tm_sec = 0, tm_min = 0, tm_hour = 12, tm_mday = 31, tm_mon = 2, tm_year = 17\<rparr>"]
  by (simp add: valid_tm_def second_of_day_def months_def)

end
