(* ===== verification/Syscall.thy ===== *)
theory Syscall
  imports Env_Model Kclock
begin

text \<open>
  kern/syscall.c and the trap handling of kern/trap.c: every system call with all its checks in
  the order of the code, the dispatcher, and the path from a trap to the next environment.
  What the devices deliver during the call is the argument io. Definitions only.
\<close>

record sys_io =
  io_serial :: "8 word list"
  io_kbd :: "8 word list"
  io_cmos :: "nat \<Rightarrow> nat \<Rightarrow> 8 word"
  io_rounds :: nat
  io_cr2 :: "32 word"

section \<open>System calls\<close>

definition with_cur :: "(nat \<Rightarrow> kstate \<Rightarrow> ('a, kstate) kres) \<Rightarrow> kstate \<Rightarrow> ('a, kstate) kres" where
  "with_cur f s = (case curenv s of None \<Rightarrow> Exit Fault s | Some c \<Rightarrow> f c s)"

text \<open>envid2env followed by an early return of the error, or the rest of the call.\<close>

definition on_env ::
    "32 word \<Rightarrow> bool \<Rightarrow> (int \<Rightarrow> int) \<Rightarrow> (nat \<Rightarrow> kstate \<Rightarrow> (int, kstate) kres) \<Rightarrow> kstate \<Rightarrow> (int, kstate) kres" where
  "on_env envid checkperm err f s =
     kbind (envid2env envid checkperm s) (\<lambda>r s.
       case r of
         Inl r \<Rightarrow> Ret (err r) s
       | Inr None \<Rightarrow> Exit Fault s
       | Inr (Some e) \<Rightarrow> f e s)"

text \<open>
  The %s conversion with a precision, applied to user memory (lib/printfmt.c): each character
  is read before the precision is consulted. A negative precision means no limit.
\<close>

fun print_str :: "nat \<Rightarrow> nat option \<Rightarrow> 32 word \<Rightarrow> kstate \<Rightarrow> (8 word list, kstate) kres" where
  "print_str fuel precision p s =
     (case vread8 s p of
        None \<Rightarrow> Exit Fault s
      | Some ch \<Rightarrow>
          if ch = 0 \<or> precision = Some 0 then Ret [] s
          else if fuel = 0 then Exit Spins s
          else kbind (print_str (fuel - 1) (map_option (\<lambda>n. n - 1) precision) (p + 1) s)
                 (\<lambda>cs. Ret (ch # cs)))"

declare print_str.simps [simp del]

definition sys_cputs :: "32 word \<Rightarrow> 32 word \<Rightarrow> kstate \<Rightarrow> (int, kstate) kres" where
  "sys_cputs str len = with_cur (\<lambda>c s.
     kbind (user_mem_assert c str len PTE_U s) (\<lambda>_ s.
       kbind (print_str (2 ^ 32) (if sint len < 0 then None else Some (unat len)) str s) (\<lambda>cs s.
         Ret 0 (say (User_output cs) s))))"

definition sys_cgetc :: "sys_io \<Rightarrow> kstate \<Rightarrow> (int, kstate) kres" where
  "sys_cgetc io s =
     (case cons_getc (io_serial io) (io_kbd io) (console s) of
        (c, con) \<Rightarrow> Ret c (s\<lparr>console := con\<rparr>))"

definition sys_getenvid :: "kstate \<Rightarrow> (int, kstate) kres" where
  "sys_getenvid = with_cur (\<lambda>c s. Ret (sint (env_id (envs s c))) s)"

definition sys_env_destroy :: "32 word \<Rightarrow> kstate \<Rightarrow> (int, kstate) kres" where
  "sys_env_destroy envid =
     on_env envid True (\<lambda>r. r) (\<lambda>e s.
       kbind (env_destroy e
                (if curenv s = Some e then say (Exiting (cur_id s)) s
                 else say (Destroying (cur_id s) (env_id (envs s e))) s))
         (\<lambda>_. Ret 0))"

definition sys_yield :: "kstate \<Rightarrow> (unit, kstate) kres" where
  "sys_yield s = sched_yield s"

definition sys_exofork :: "kstate \<Rightarrow> (int, kstate) kres" where
  "sys_exofork = with_cur (\<lambda>c s.
     kbind (env_alloc (env_id (envs s c)) s) (\<lambda>r s.
       case r of
         Inl r \<Rightarrow> Ret (- E_NO_FREE_ENV) s
       | Inr child \<Rightarrow>
           (let tf = env_tf (envs s c);
                s = set_env child ((envs s child)\<lparr>env_status := ENV_NOT_RUNNABLE,
                      env_tf := tf\<lparr>tf_regs := (tf_regs tf)\<lparr>reg_eax := 0\<rparr>\<rparr>\<rparr>) s
            in Ret (sint (env_id (envs s child))) s)))"

definition status_of_int :: "32 word \<Rightarrow> env_state option" where
  "status_of_int n =
     (if n = 0 then Some ENV_FREE else if n = 1 then Some ENV_DYING
      else if n = 2 then Some ENV_RUNNABLE else if n = 3 then Some ENV_RUNNING
      else if n = 4 then Some ENV_NOT_RUNNABLE else None)"

definition sys_env_set_status :: "32 word \<Rightarrow> 32 word \<Rightarrow> kstate \<Rightarrow> (int, kstate) kres" where
  "sys_env_set_status envid status =
     on_env envid True (\<lambda>r. - E_BAD_ENV) (\<lambda>task s.
       case status_of_int status of
         None \<Rightarrow> Ret (- E_INVAL) s
       | Some st \<Rightarrow>
           if st \<noteq> ENV_FREE \<and> st \<noteq> ENV_RUNNABLE \<and> st \<noteq> ENV_NOT_RUNNABLE then Ret (- E_INVAL) s
           else Ret 0 (set_env task ((envs s task)\<lparr>env_status := st\<rparr>) s))"

text \<open>The layout of struct Trapframe, 68 bytes.\<close>

definition tf_of_bytes :: "8 word list \<Rightarrow> Trapframe" where
  "tf_of_bytes bs =
     (let b = (\<lambda>i. bs ! i)
      in \<lparr>tf_regs = \<lparr>reg_edi = le32 b 0, reg_esi = le32 b 4, reg_ebp = le32 b 8, reg_oesp = le32 b 12,
                     reg_ebx = le32 b 16, reg_edx = le32 b 20, reg_ecx = le32 b 24, reg_eax = le32 b 28\<rparr>,
          tf_es = le16 b 32, tf_ds = le16 b 36, tf_trapno = le32 b 40, tf_err = le32 b 44,
          tf_eip = le32 b 48, tf_cs = le16 b 52, tf_eflags = le32 b 56, tf_esp = le32 b 60,
          tf_ss = le16 b 64\<rparr>)"

definition sys_env_set_trapframe :: "32 word \<Rightarrow> 32 word \<Rightarrow> kstate \<Rightarrow> (int, kstate) kres" where
  "sys_env_set_trapframe envid tfp =
     on_env envid True (\<lambda>r. - E_BAD_ENV) (\<lambda>env s.
       kbind (user_mem_assert env tfp 68 0 s) (\<lambda>_ s.
         case vread s tfp 68 of
           None \<Rightarrow> Exit Fault s
         | Some bs \<Rightarrow>
             (let tf = tf_of_bytes bs
              in Ret 0 (set_env env ((envs s env)\<lparr>env_tf :=
                   tf\<lparr>tf_ds := tf_ds tf OR 3, tf_es := tf_es tf OR 3, tf_ss := tf_ss tf OR 3,
                      tf_cs := tf_cs tf OR 3,
                      tf_eflags := (tf_eflags tf OR FL_IF) AND NOT FL_IOPL_MASK\<rparr>\<rparr>) s))))"

definition sys_env_set_pgfault_upcall :: "32 word \<Rightarrow> 32 word \<Rightarrow> kstate \<Rightarrow> (int, kstate) kres" where
  "sys_env_set_pgfault_upcall envid func =
     on_env envid True (\<lambda>r. r) (\<lambda>e s.
       Ret 0 (set_env e ((envs s e)\<lparr>env_pgfault_upcall := func\<rparr>) s))"

text \<open>The checks on perm that the page calls share.\<close>

definition perm_bad :: "32 word \<Rightarrow> bool" where
  "perm_bad perm \<longleftrightarrow> perm AND (PTE_U OR PTE_P) \<noteq> PTE_U OR PTE_P \<or> perm AND NOT PTE_SYSCALL \<noteq> 0"

definition sys_page_alloc :: "32 word \<Rightarrow> 32 word \<Rightarrow> 32 word \<Rightarrow> kstate \<Rightarrow> (int, kstate) kres" where
  "sys_page_alloc envid va perm =
     on_env envid True (\<lambda>r. r) (\<lambda>e s.
       if va \<ge> UTOP then Ret (- E_INVAL) s
       else if perm_bad perm then Ret (- E_INVAL) s
       else kbind (page_alloc 1 s) (\<lambda>pg s.
              case pg of
                None \<Rightarrow> Ret (- E_NO_MEM) s
              | Some pg \<Rightarrow>
                  (case env_pgdir (envs s e) of
                     None \<Rightarrow> Exit Fault s
                   | Some d \<Rightarrow>
                       kbind (page_insert d pg va perm s) (\<lambda>ret s.
                         if ret \<noteq> 0 then kbind (page_free pg s) (\<lambda>_. Ret ret)
                         else Ret 0 s))))"

definition sys_page_map ::
    "32 word \<Rightarrow> 32 word \<Rightarrow> 32 word \<Rightarrow> 32 word \<Rightarrow> 32 word \<Rightarrow> kstate \<Rightarrow> (int, kstate) kres" where
  "sys_page_map srcenvid srcva dstenvid dstva perm =
     on_env srcenvid True (\<lambda>r. - E_BAD_ENV) (\<lambda>srcenv.
       on_env dstenvid True (\<lambda>r. - E_BAD_ENV) (\<lambda>dstenv s.
         if srcva \<ge> UTOP \<or> PGOFF srcva \<noteq> 0 \<or> dstva \<ge> UTOP \<or> PGOFF dstva \<noteq> 0 then Ret (- E_INVAL) s
         else if perm_bad perm then Ret (- E_INVAL) s
         else
           (case env_pgdir (envs s srcenv) of
              None \<Rightarrow> Exit Fault s
            | Some sd \<Rightarrow>
                kbind (page_lookup sd srcva s) (\<lambda>r s.
                  case r of
                    (Some page, Some (f, j)) \<Rightarrow>
                      if perm AND PTE_W \<noteq> 0 \<and> mem s f j AND PTE_W = 0 then Ret (- E_INVAL) s
                      else (case env_pgdir (envs s dstenv) of
                              None \<Rightarrow> Exit Fault s
                            | Some dd \<Rightarrow>
                                kbind (page_insert dd page dstva perm s) (\<lambda>r s.
                                  if r \<noteq> 0 then Ret (- E_NO_MEM) s else Ret 0 s))
                  | _ \<Rightarrow> Ret (- E_INVAL) s))))"

definition sys_page_unmap :: "32 word \<Rightarrow> 32 word \<Rightarrow> kstate \<Rightarrow> (int, kstate) kres" where
  "sys_page_unmap envid va =
     on_env envid True (\<lambda>r. - E_BAD_ENV) (\<lambda>task s.
       if va \<ge> UTOP \<or> PGOFF va \<noteq> 0 then Ret (- E_INVAL) s
       else (case env_pgdir (envs s task) of
               None \<Rightarrow> Exit Fault s
             | Some d \<Rightarrow> kbind (page_remove d va s) (\<lambda>_. Ret 0)))"

text \<open>
  sys_ipc_try_send: the page transfer, which may end the call, and then the delivery.
  The alignment test is the source's: the address AND the truth value of its offset being nonzero.
\<close>

definition ipc_page :: "nat \<Rightarrow> nat \<Rightarrow> 32 word \<Rightarrow> 32 word \<Rightarrow> kstate \<Rightarrow> (int, kstate) kres" where
  "ipc_page c env srcva perm s =
     (if srcva AND (if PGOFF srcva \<noteq> 0 then 1 else 0) \<noteq> 0 then Ret (- E_INVAL) s
      else if perm AND PTE_U = 0 \<or> perm AND PTE_P = 0 \<or> perm AND NOT PTE_SYSCALL \<noteq> 0
      then Ret (- E_INVAL) s
      else
        (case env_pgdir (envs s c) of
           None \<Rightarrow> Exit Fault s
         | Some sd \<Rightarrow>
             kbind (page_lookup sd srcva s) (\<lambda>r s.
               case r of
                 (Some page, Some (f, j)) \<Rightarrow>
                   if perm AND PTE_W \<noteq> 0 \<and> mem s f j AND PTE_W = 0 then Ret (- E_INVAL) s
                   else if env_ipc_dstva (envs s env) < UTOP then
                     (case env_pgdir (envs s env) of
                        None \<Rightarrow> Exit Fault s
                      | Some dd \<Rightarrow>
                          kbind (page_insert dd page (env_ipc_dstva (envs s env)) perm s) (\<lambda>r s.
                            if r \<noteq> 0 then Ret (- E_NO_MEM) s else Ret 0 s))
                   else Ret 0 s
               | _ \<Rightarrow> Ret (- E_INVAL) s)))"

definition sys_ipc_try_send ::
    "32 word \<Rightarrow> 32 word \<Rightarrow> 32 word \<Rightarrow> 32 word \<Rightarrow> kstate \<Rightarrow> (int, kstate) kres" where
  "sys_ipc_try_send envid value srcva perm = with_cur (\<lambda>c.
     on_env envid False (\<lambda>r. - E_BAD_ENV) (\<lambda>env s.
       if \<not> env_ipc_recving (envs s env) then Ret (- E_IPC_NOT_RECV) s
       else
         kbind (if srcva < UTOP then ipc_page c env srcva perm s else Ret 0 s) (\<lambda>r s.
           if r \<noteq> 0 then Ret r s
           else Ret 0 (set_env env ((envs s env)
                  \<lparr>env_ipc_perm := (if srcva < UTOP then perm else 0), env_ipc_recving := False,
                   env_ipc_from := env_id (envs s c), env_ipc_value := value,
                   env_status := ENV_RUNNABLE\<rparr>) s))))"

definition sys_ipc_recv :: "32 word \<Rightarrow> kstate \<Rightarrow> (int, kstate) kres" where
  "sys_ipc_recv dstva = with_cur (\<lambda>c s.
     if dstva < UTOP \<and> dstva \<noteq> 0 \<and> PGOFF dstva \<noteq> 0 then Ret (- E_INVAL) s
     else
       (let e = envs s c; tf = env_tf e;
            e = e\<lparr>env_ipc_dstva := (if dstva < UTOP then dstva else UTOP), env_ipc_recving := True,
                  env_status := ENV_NOT_RUNNABLE,
                  env_tf := tf\<lparr>tf_regs := (tf_regs tf)\<lparr>reg_eax := 0\<rparr>\<rparr>\<rparr>
        in kbind (sys_yield (set_env c e s)) (\<lambda>_. Ret 0)))"

definition sys_gettime :: "sys_io \<Rightarrow> kstate \<Rightarrow> (int, kstate) kres" where
  "sys_gettime io s =
     (case gettime_loop (io_rounds io) (io_cmos io) 0 of None \<Rightarrow> Exit Spins s | Some t \<Rightarrow> Ret t s)"

text \<open>The dispatcher, by the numbers of inc/syscall.h.\<close>

definition syscall ::
    "sys_io \<Rightarrow> 32 word \<Rightarrow> 32 word \<Rightarrow> 32 word \<Rightarrow> 32 word \<Rightarrow> 32 word \<Rightarrow> 32 word \<Rightarrow> kstate
      \<Rightarrow> (int, kstate) kres" where
  "syscall io syscallno a1 a2 a3 a4 a5 s =
     (if syscallno = 0 then sys_cputs a1 a2 s
      else if syscallno = 1 then sys_cgetc io s
      else if syscallno = 2 then sys_getenvid s
      else if syscallno = 3 then sys_env_destroy a1 s
      else if syscallno = 7 then sys_exofork s
      else if syscallno = 8 then sys_env_set_status a1 a2 s
      else if syscallno = 4 then sys_page_alloc a1 a2 a3 s
      else if syscallno = 5 then sys_page_map a1 a2 a3 a4 a5 s
      else if syscallno = 6 then sys_page_unmap a1 a2 s
      else if syscallno = 11 then kbind (sys_yield s) (\<lambda>_. Ret 0)
      else if syscallno = 10 then sys_env_set_pgfault_upcall a1 a2 s
      else if syscallno = 12 then sys_ipc_try_send a1 a2 a3 a4 s
      else if syscallno = 13 then sys_ipc_recv a1 s
      else if syscallno = 9 then sys_env_set_trapframe a1 a2 s
      else if syscallno = 14 then sys_gettime io s
      else Exit (Panicked ''syscall not implemented'') s)"

section \<open>Traps\<close>

definition T_BRKPT :: "32 word" where "T_BRKPT = 3"
definition T_PGFLT :: "32 word" where "T_PGFLT = 14"
definition T_SYSCALL :: "32 word" where "T_SYSCALL = 48"
definition IRQ_OFFSET :: "32 word" where "IRQ_OFFSET = 32"
definition IRQ_KBD :: "32 word" where "IRQ_KBD = 1"
definition IRQ_SERIAL :: "32 word" where "IRQ_SERIAL = 4"
definition IRQ_SPURIOUS :: "32 word" where "IRQ_SPURIOUS = 7"
definition IRQ_CLOCK :: "32 word" where "IRQ_CLOCK = 8"

definition excnames :: "string list" where
  "excnames =
     [''Divide error'', ''Debug'', ''Non-Maskable Interrupt'', ''Breakpoint'', ''Overflow'',
      ''BOUND Range Exceeded'', ''Invalid Opcode'', ''Device Not Available'', ''Double Fault'',
      ''Coprocessor Segment Overrun'', ''Invalid TSS'', ''Segment Not Present'', ''Stack Fault'',
      ''General Protection'', ''Page Fault'', ''(unknown trap)'', ''x87 FPU Floating-Point Error'',
      ''Alignment Check'', ''Machine-Check'', ''SIMD Floating-Point Exception'']"

definition trapname :: "32 word \<Rightarrow> string" where
  "trapname trapno =
     (if unat trapno < length excnames then excnames ! unat trapno
      else if trapno = T_SYSCALL then ''System call''
      else if 32 \<le> sint trapno \<and> sint trapno < 48 then ''Hardware Interrupt''
      else ''(unknown trap)'')"

text \<open>The words of struct UTrapframe, in order.\<close>

definition utf_words :: "32 word \<Rightarrow> Trapframe \<Rightarrow> 32 word list" where
  "utf_words fault_va tf =
     [fault_va, tf_err tf, reg_edi (tf_regs tf), reg_esi (tf_regs tf), reg_ebp (tf_regs tf),
      reg_oesp (tf_regs tf), reg_ebx (tf_regs tf), reg_edx (tf_regs tf), reg_ecx (tf_regs tf),
      reg_eax (tf_regs tf), tf_eip tf, tf_eflags tf, tf_esp tf]"

definition UTF_SIZE :: "32 word" where "UTF_SIZE = 52"

definition utf_addr :: "32 word \<Rightarrow> 32 word" where
  "utf_addr esp =
     (if UXSTACKTOP - PGSIZE \<le> esp \<and> esp \<le> UXSTACKTOP - 1 then esp - UTF_SIZE - 4
      else UXSTACKTOP - UTF_SIZE)"

definition page_fault_handler :: "sys_io \<Rightarrow> kstate \<Rightarrow> (unit, kstate) kres" where
  "page_fault_handler io = with_cur (\<lambda>c s.
     (let tf = env_tf (envs s c); fault_va = io_cr2 io
      in if tf_cs tf = GD_KT then Exit (Panicked ''Kernel page fault!'') s
         else if env_pgfault_upcall (envs s c) \<noteq> 0 then
           (let a = utf_addr (tf_esp tf)
            in kbind (user_mem_assert c a UTF_SIZE PTE_W s) (\<lambda>_ s.
                 kbind (vwrite a (concat (map word_bytes (utf_words fault_va tf))) s) (\<lambda>_ s.
                   env_run c (set_env c ((envs s c)\<lparr>env_tf := (env_tf (envs s c))
                     \<lparr>tf_eip := env_pgfault_upcall (envs s c), tf_esp := a\<rparr>\<rparr>) s))))
         else env_destroy c (say (Trap_frame tf) (say (User_fault (env_id (envs s c)) fault_va (tf_eip tf)) s))))"

definition trap_dispatch :: "sys_io \<Rightarrow> kstate \<Rightarrow> (unit, kstate) kres" where
  "trap_dispatch io = with_cur (\<lambda>c s.
     (let tf = env_tf (envs s c); no = tf_trapno tf
      in if no = IRQ_OFFSET + IRQ_SPURIOUS then Ret () (say (Trap_frame tf) (say Spurious_interrupt s))
         else if no = IRQ_OFFSET + IRQ_CLOCK then
           (case gettime_loop (io_rounds io) (io_cmos io) 0 of
              None \<Rightarrow> Exit Spins s
            | Some t \<Rightarrow> sched_yield (s\<lparr>vsys_gettime := t\<rparr>))
         else if no = T_PGFLT then page_fault_handler io s
         else if no = T_BRKPT then Exit Monitor s
         else if no = T_SYSCALL then
           (let r = tf_regs tf
            in kbind (syscall io (reg_eax r) (reg_edx r) (reg_ecx r) (reg_ebx r) (reg_edi r) (reg_esi r) s)
                 (\<lambda>v s. Ret () (set_env c ((envs s c)\<lparr>env_tf := (env_tf (envs s c))
                    \<lparr>tf_regs := (tf_regs (env_tf (envs s c)))\<lparr>reg_eax := word_of_int v\<rparr>\<rparr>\<rparr>) s)))
         else if no = IRQ_OFFSET + IRQ_KBD then Ret () (s\<lparr>console := kbd_intr (io_kbd io) (console s)\<rparr>)
         else if no = IRQ_OFFSET + IRQ_SERIAL then
           Ret () (s\<lparr>console := serial_intr (io_serial io) (console s)\<rparr>)
         else if tf_cs tf = GD_KT then Exit (Panicked ''unhandled trap in kernel'') (say (Trap_frame tf) s)
         else env_destroy c (say (Trap_frame tf) s)))"

text \<open>trap with the frame the processor pushed; interrupts are off and no CPU has panicked.\<close>

definition trap :: "sys_io \<Rightarrow> Trapframe \<Rightarrow> kstate \<Rightarrow> (unit, kstate) kres" where
  "trap io tf s =
     kbind (kassert ''assertion failed: curenv'' (curenv s \<noteq> None) s) (\<lambda>_. with_cur (\<lambda>c s.
       kbind (if env_status (envs s c) = ENV_DYING
              then kbind (env_free c s) (\<lambda>_ s. sched_yield (s\<lparr>curenv := None\<rparr>))
              else Ret () s) (\<lambda>_ s.
         kbind (trap_dispatch io (set_env c ((envs s c)\<lparr>env_tf := tf\<rparr>) s)) (\<lambda>_ s.
           case curenv s of
             Some e \<Rightarrow> if env_status (envs s e) = ENV_RUNNING then env_run e s else sched_yield s
           | None \<Rightarrow> sched_yield s))))"

end
