(* ===== verification/Syscall_Lemmas.thy ===== *)
theory Syscall_Lemmas
  imports Syscall Sched
begin

text \<open>
  Lemmas for the system calls: the caller's target environment, taking a page from the allocator,
  and the permission bits a caller may ask for.
\<close>

lemma on_env_target:
  "curenv s = Some c \<Longrightarrow> on_env envid checkperm err f s =
     (case env_target s c envid checkperm of None \<Rightarrow> Ret (err (- E_BAD_ENV)) s | Some e \<Rightarrow> f e s)"
  by (simp add: on_env_def envid2env_target split: option.split)

lemma with_cur_Some: "curenv s = Some c \<Longrightarrow> with_cur f s = f c s"
  by (simp add: with_cur_def)

lemma perm_ok_low: "\<not> perm_bad perm \<Longrightarrow> low_perm perm"
proof -
  assume "\<not> perm_bad perm"
  then have z: "perm AND NOT PTE_SYSCALL = 0" by (simp add: perm_bad_def)
  have "NOT PTE_SYSCALL AND NOT 0xFFF = (NOT 0xFFF :: 32 word)" by (simp add: layout_values)
  then have "perm AND NOT 0xFFF = (perm AND NOT PTE_SYSCALL) AND NOT 0xFFF" by (simp only: and.assoc)
  then show ?thesis using z by (simp add: low_perm_def PTE_ADDR_def)
qed

lemma page_alloc_inv:
  assumes inv: "vm_inv s D k (x # xs)" and z: "fl AND ALLOC_ZERO \<noteq> 0"
  obtains t where "page_alloc fl s = Ret (Some x) t" "vm_inv t D k xs" "same_maps s t D" "vm_frame s t"
    "mem t = (mem s)(x := (\<lambda>_. 0))" "pp_ref (pages t x) = 0" "x < npages t" "x \<notin> set xs"
    "leak_free s (x # xs) \<Longrightarrow> leak_but x t xs"
    "\<And>d i. d \<in> D \<Longrightarrow> mem t d i = mem s d i"
proof -
  let ?t = "(pop_free x s)\<lparr>mem := (mem s)(x := (\<lambda>_. 0))\<rparr>"
  have fl: "free_list_ok s (x # xs)" using inv by (simp add: vm_inv_def)
  note un = free_unreferenced [OF inv, of x] and nt = free_not_table [OF inv, of x]
  have xD: "x \<notin> D" using nt by simp
  have slot: "mem ?t d i = mem s d i" if "d \<in> D" for d i using that xD by auto
  have tab: "mem ?t (frame (mem s d i)) = mem s (frame (mem s d i))"
    if "d \<in> D" "i < NUSER" "present (mem s d i)" for d i
    using nt(2) [of d i] that by auto
  have isr: "is_ref ?t D r p \<longleftrightarrow> is_ref s D r p" for r p
  proof -
    obtain d i j where r: "r = (d, i, j)" by (cases r)
    show ?thesis
    proof (cases "d \<in> D \<and> i < NUSER \<and> present (mem s d i)")
      case True
      then show ?thesis by (simp only: r is_ref_def prod.case slot [of d i] tab [of d i])
    next
      case False
      have "d \<in> D \<Longrightarrow> mem ?t d i = mem s d i" by (rule slot)
      then show ?thesis using False unfolding r is_ref_def prod.case by metis
    qed
  qed
  have refs: "refs ?t D p = refs s D p" for p using isr by (simp add: refs_def)
  have tabs: "tables_ok ?t D"
    unfolding tables_ok_def
  proof (intro conjI ballI allI impI)
    fix d assume d: "d \<in> D"
    then show "d < npages ?t" using inv by (auto simp: vm_inv_def tables_ok_def)
    fix i assume i: "i < NUSER" "present (mem ?t d i)"
    then show "frame (mem ?t d i) < npages ?t" "frame (mem ?t d i) \<notin> D"
      using inv d slot by (auto simp: vm_inv_def tables_ok_def)
    show "frame (mem ?t (frame (mem ?t d i)) j) < npages ?t"
      if "j < 1024" "present (mem ?t (frame (mem ?t d i)) j)" for j
      using inv i d slot [OF d] tab [of d i] that unfolding vm_inv_def tables_ok_def by simp
  next
    fix d i d' i'
    assume "d \<in> D" "i < NUSER" "d' \<in> D" "i' < NUSER"
      "present (mem ?t d i) \<and> present (mem ?t d' i') \<and> frame (mem ?t d i) = frame (mem ?t d' i')"
    then show "d = d'" "i = i'"
      using inv slot unfolding vm_inv_def tables_ok_def by metis+
  qed
  have fl': "free_list_ok ?t xs" using pop_free_ok [OF fl] by simp
  have cnt: "counts_ok ?t D k" using inv by (simp add: vm_inv_def counts_ok_def refs)
  have "vm_map ?t d va = vm_map s d va" if "d \<in> D" "user_va va" for d va
    using slot [OF that(1)] tab [OF that(1), of "unat (PDX va)"] that(2)
    by (auto simp: vm_map_def Let_def user_va_def)
  moreover have "vm_frame s ?t"
    by (rule vm_frame_I [where p = "pages ?t" and f = "page_free_list ?t" and m = "mem ?t" and l = "invlpgs s"])
      (simp add: pop_free_def set_link_def)
  moreover have "x \<notin> set xs" using fl by (auto simp: free_list_ok_def)
  moreover have "leak_free s (x # xs) \<Longrightarrow> leak_but x ?t xs" by (auto simp: leak_free_def leak_but_def)
  ultimately show thesis
    using that [of ?t] fl' tabs cnt inv un slot z page_alloc_cons [OF fl, of fl]
    by (simp add: vm_inv_def same_maps_def)
qed

lemma data_same_insert:
  assumes "d \<in> D" "user_va va"
    and "\<forall>q. q \<noteq> d \<longrightarrow> q \<notin> set xs \<longrightarrow>
           \<not> (present (mem s d (unat (PDX va))) \<and> frame (mem s d (unat (PDX va))) = q) \<longrightarrow> mem t q = mem s q"
  shows "data_same s D xs t"
  unfolding data_same_def
proof (intro allI impI)
  fix q assume "\<not> table_frame s D q" "q \<notin> set xs"
  then show "mem t q = mem s q"
    using assms unfolding table_frame_def user_va_def by metis
qed

lemma sys_page_alloc_effect:
  assumes inv: "vm_inv s D k xs" and c: "curenv s = Some c" and e: "env_target s c envid True = Some e"
    and d: "env_pgdir (envs s e) = Some d" "d \<in> D" and va: "va < UTOP" and perm: "\<not> perm_bad perm"
  shows "\<exists>r t ys. sys_page_alloc envid va perm s = Ret r t \<and> vm_inv t D k ys \<and> vm_frame s t \<and>
    (leak_free s xs \<longrightarrow> leak_free t ys) \<and>
    r = (if xs \<noteq> [] \<and> (present (mem s d (unat (PDX va))) \<or> tl xs \<noteq> []) then 0 else - E_NO_MEM) \<and>
    (if r = 0 then (\<exists>pp \<in> set xs. mem t pp = (\<lambda>_. 0) \<and>
       (\<forall>d' \<in> D. \<forall>va'. user_va va' \<longrightarrow>
          vm_map t d' va' = (if d' = d \<and> PGNUM va' = PGNUM va
                             then Some (page2pa pp OR perm OR PTE_P) else vm_map s d' va')) \<and>
       pp \<notin> set ys \<and> \<not> table_frame t D pp)
     else same_maps s t D) \<and>
    data_same s D xs t \<and> dirs_grow s D xs t \<and>
    (\<forall>q \<in> set ys. q \<in> set xs \<or> (\<exists>w. vm_map s d va = Some w \<and> q = frame w)) \<and>
    length xs \<le> length ys + 2"
proof -
  have uva: "user_va va" by (rule user_va_UTOP [OF va])
  have one: "1 AND ALLOC_ZERO \<noteq> 0" by (simp add: ALLOC_ZERO_def)
  have start: "sys_page_alloc envid va perm s =
      kbind (page_alloc 1 s) (\<lambda>pg s.
              case pg of
                None \<Rightarrow> Ret (- E_NO_MEM) s
              | Some pg \<Rightarrow>
                  (case env_pgdir (envs s e) of
                     None \<Rightarrow> Exit Fault s
                   | Some d \<Rightarrow>
                       kbind (page_insert d pg va perm s) (\<lambda>ret s.
                         if ret \<noteq> 0 then kbind (page_free pg s) (\<lambda>_. Ret ret)
                         else Ret 0 s)))"
  proof -
    have "\<not> UTOP \<le> va" using va by simp
    then show ?thesis using perm by (simp add: sys_page_alloc_def on_env_target [OF c] e)
  qed
  show ?thesis
  proof (cases xs)
    case Nil
    then have "page_alloc 1 s = Ret None s" using inv page_alloc_empty by (simp add: vm_inv_def)
    then show ?thesis
      using inv start Nil by (intro exI [of _ "- E_NO_MEM"] exI [of _ s] exI [of _ xs])
        (simp add: same_maps_def error_defs)
  next
    case (Cons x ys)
    obtain t where t: "page_alloc 1 s = Ret (Some x) t" "vm_inv t D k ys" "same_maps s t D" "vm_frame s t"
      "mem t = (mem s)(x := (\<lambda>_. 0))" "pp_ref (pages t x) = 0" "x < npages t" "x \<notin> set ys"
      "leak_free s (x # ys) \<Longrightarrow> leak_but x t ys" "\<And>d i. d \<in> D \<Longrightarrow> mem t d i = mem s d i"
      using page_alloc_inv [OF inv [unfolded Cons] one] by metis
    have envt: "envs t = envs s" using vm_frame_sel(2) [OF t(4)] .
    have mt: "mem t d (unat (PDX va)) = mem s d (unat (PDX va))" using t(10) d(2) by simp
    show ?thesis
    proof (cases "present (mem s d (unat (PDX va))) \<or> ys \<noteq> []")
      case True
      then have room: "present (mem t d (unat (PDX va))) \<or> ys \<noteq> []" by (simp add: mt)
      obtain u zs where u: "page_insert d x va perm t = Ret 0 u" "vm_inv u D k zs" "vm_frame t u"
        "leak_but x t ys \<longrightarrow> leak_free u zs"
        "\<forall>d' \<in> D. \<forall>va'. user_va va' \<longrightarrow>
           vm_map u d' va' = (if d' = d \<and> PGNUM va' = PGNUM va
                              then Some (page2pa x OR perm OR PTE_P) else vm_map t d' va')"
        "\<forall>q. q \<noteq> d \<longrightarrow> q \<notin> set ys \<longrightarrow>
           \<not> (present (mem t d (unat (PDX va))) \<and> frame (mem t d (unat (PDX va))) = q) \<longrightarrow> mem u q = mem t q"
        "dirs_grow t D ys u"
        "\<forall>q \<in> set zs. q \<in> set ys \<or> (\<exists>w. vm_map t d va = Some w \<and> q = frame w \<and> q \<noteq> x)"
        "length ys \<le> length zs + of_bool (\<not> present (mem t d (unat (PDX va))))"
        using page_insert_effect [OF t(2) d(2) uva t(7,8) _ perm_ok_low [OF perm] room] t(6) by auto
      have "x \<noteq> d" "\<not> (present (mem t d (unat (PDX va))) \<and> frame (mem t d (unat (PDX va))) = x)"
        using free_not_table(1,2) [OF inv, of x] d(2) uva by (auto simp: Cons mt user_va_def)
      then have zero: "mem u x = (\<lambda>_. 0)" using u(6) t(5,8) by simp
      have run: "sys_page_alloc envid va perm s = Ret 0 u"
        using start t(1) u(1) envt d(1) by simp
      have maps: "\<forall>d' \<in> D. \<forall>va'. user_va va' \<longrightarrow>
           vm_map u d' va' = (if d' = d \<and> PGNUM va' = PGNUM va
                              then Some (page2pa x OR perm OR PTE_P) else vm_map s d' va')"
        using u(5) t(3) by (simp add: same_maps_def)
      have "data_same t D ys u" by (rule data_same_insert [OF d(2) uva u(6)])
      moreover have same_table: "table_frame t D q \<longleftrightarrow> table_frame s D q" for q
        using t(10) unfolding table_frame_def by (intro disj_cong bex_cong refl ex_cong) simp
      ultimately have data: "data_same s D xs u" using t(5) by (simp add: data_same_def Cons)
      have grow: "dirs_grow s D xs u" using u(7) t(10) by (auto simp: dirs_grow_def Cons)
      have sub: "\<forall>q \<in> set zs. q \<in> set xs \<or> (\<exists>w. vm_map s d va = Some w \<and> q = frame w)"
        using u(8) t(3) d(2) uva unfolding same_maps_def Cons by auto
      have nt: "\<not> table_frame u D x"
        using same_table [of x] table_frame_grow [OF u(7), of x] free_not_table(1,2) [OF inv, of x] t(2,8)
          vm_inv_npages [OF t(2)] free_unreferenced(3) [OF t(2)]
        unfolding table_frame_def [of s] by (fastforce simp: Cons)
      have len: "length xs \<le> length zs + 2"
        using u(9) by (cases "present (mem t d (unat (PDX va)))") (simp_all add: Cons)
      have "x \<notin> set zs" using u(8) t(8) by blast
      then have res: "\<exists>pp \<in> set xs. mem u pp = (\<lambda>_. 0) \<and>
         (\<forall>d' \<in> D. \<forall>va'. user_va va' \<longrightarrow>
          vm_map u d' va' = (if d' = d \<and> PGNUM va' = PGNUM va
                             then Some (page2pa pp OR perm OR PTE_P) else vm_map s d' va')) \<and>
         pp \<notin> set zs \<and> \<not> table_frame u D pp"
        using zero maps nt by (intro bexI [of _ x]) (simp_all add: Cons)
      show ?thesis
        using run u(2) vm_frame_trans [OF t(4) u(3)] t(9) u(4) res True data grow sub len
        by (intro exI [of _ 0] exI [of _ u] exI [of _ zs]) (simp add: Cons)
    next
      case False
      then have ys: "ys = []" and np: "\<not> present (mem t d (unat (PDX va)))" by (simp_all add: mt)
      have ins: "page_insert d x va perm t = Ret (- E_NO_MEM) t"
        using page_insert_full [of t D k d va x perm] t(2) np by (simp add: ys)
      have idle: "idle_page t x" using t(6,7) by (simp add: idle_page_def)
      have flt: "free_list_ok t ys" using t(2) by (simp add: vm_inv_def)
      let ?u = "(set_link x (page_free_list t) t)\<lparr>page_free_list := Some x\<rparr>"
      note push = page_free_push [OF flt idle t(8)]
      have run: "sys_page_alloc envid va perm s = Ret (- E_NO_MEM) ?u"
        using start t(1) ins envt d(1) push(1) by (simp add: error_defs)
      have "vm_inv ?u D k (x # ys)"
        using t(2) push(2) refs_cong [of ?u t] tables_ok_cong [of ?u t]
        unfolding vm_inv_def counts_ok_def by auto
      moreover have "vm_frame s ?u"
        by (rule vm_frame_trans [OF t(4)], rule only_pages_frame) (simp add: only_pages_def set_link_def)
      moreover have "leak_free s xs \<longrightarrow> leak_free ?u (x # ys)"
        using t(9) by (auto simp: Cons leak_but_def leak_free_def)
      moreover have "same_maps s ?u D"
        using t(3) vm_map_cong [of ?u t] by (simp add: same_maps_def)
      moreover have "data_same s D xs ?u" "dirs_grow s D xs ?u"
        using t(5,10) by (simp_all add: data_same_def dirs_grow_def Cons)
      ultimately show ?thesis
        using run False by (intro exI [of _ "- E_NO_MEM"] exI [of _ ?u] exI [of _ "x # ys"])
          (simp add: Cons error_defs)
    qed
  qed
qed


section \<open>Sharing a page\<close>

lemma lookup_page:
  assumes inv: "vm_inv s D k xs" and d: "d \<in> D" and va: "va < UTOP"
  shows "vm_map s d va = None \<Longrightarrow> \<exists>sl. page_lookup d va s = Ret (None, sl) s"
    and "vm_map s d va = Some w \<Longrightarrow>
      \<exists>f j. page_lookup d va s = Ret (Some (frame w), Some (f, j)) s \<and> mem s f j = w"
proof -
  note r = page_lookup_result [OF inv d user_va_UTOP [OF va]]
  show "vm_map s d va = None \<Longrightarrow> \<exists>sl. page_lookup d va s = Ret (None, sl) s" by (simp add: r)
  assume m: "vm_map s d va = Some w"
  note sl = vm_map_slot [OF m d user_va_UTOP [OF va]]
  show "\<exists>f j. page_lookup d va s = Ret (Some (frame w), Some (f, j)) s \<and> mem s f j = w"
    using r m sl(2) sl(1) [unfolded pt_slot_def] by auto
qed

lemma mapped_page:
  assumes inv: "vm_inv s D k xs" and d: "d \<in> D" and va: "user_va va" and m: "vm_map s d va = Some w"
  shows "frame w < npages s" "frame w \<notin> set xs"
proof -
  note sl = vm_map_slot [OF m d va]
  show "frame w < npages s" using pt_slot_table(3) [OF inv sl(1)] sl(2,3) by simp
  show "frame w \<notin> set xs"
    using free_not_table(3) [OF inv, of "frame w" d "unat (PDX va)" "unat (PTX va)"] sl(1,2,3)
    by (auto simp: pt_slot_def)
qed

definition counts_fit :: "kstate \<Rightarrow> bool" where
  "counts_fit s \<longleftrightarrow> (\<forall>p < npages s. unat (pp_ref (pages s p)) < 65535)"

text \<open>What mapping the page of one mapping at another address does, or why it cannot.\<close>

definition shared :: "kstate \<Rightarrow> nat set \<Rightarrow> (nat \<Rightarrow> nat) \<Rightarrow> nat list \<Rightarrow> 32 word \<Rightarrow> nat \<Rightarrow> 32 word
    \<Rightarrow> 32 word \<Rightarrow> int \<Rightarrow> kstate \<Rightarrow> bool" where
  "shared s D k xs w dd dstva perm r t \<longleftrightarrow>
     (\<exists>ys. vm_inv t D k ys \<and> (leak_free s xs \<longrightarrow> leak_free t ys) \<and>
        (\<forall>q \<in> set ys. q \<in> set xs \<or> (\<exists>w'. vm_map s dd dstva = Some w' \<and> q = frame w' \<and> q \<noteq> frame w)) \<and>
        length xs \<le> length ys + of_bool (r = 0 \<and> \<not> present (mem s dd (unat (PDX dstva))))) \<and>
     vm_frame s t \<and> data_same s D xs t \<and> dirs_grow s D xs t \<and>
     (\<forall>d' \<in> D. \<forall>va'. user_va va' \<longrightarrow>
        vm_map t d' va' = (if r = 0 \<and> d' = dd \<and> PGNUM va' = PGNUM dstva
                           then Some (page2pa (frame w) OR perm OR PTE_P) else vm_map s d' va')) \<and>
     (r \<noteq> 0 \<longrightarrow> t = s)"

lemma shared_unchanged: "vm_inv s D k xs \<Longrightarrow> r \<noteq> 0 \<Longrightarrow> shared s D k xs w dd dstva perm r s"
  by (auto simp: shared_def)

lemma share_page:
  assumes inv: "vm_inv s D k xs" and ref: "unat (pp_ref (pages s (frame w))) < 65535"
    and sd: "sd \<in> D" and srcva: "srcva < UTOP" and m: "vm_map s sd srcva = Some w"
    and dd: "dd \<in> D" and dstva: "dstva < UTOP" and perm: "low_perm perm"
  shows "\<exists>r t. page_insert dd (frame w) dstva perm s = Ret r t \<and> shared s D k xs w dd dstva perm r t \<and>
    r = (if present (mem s dd (unat (PDX dstva))) \<or> xs \<noteq> [] then 0 else - E_NO_MEM)"
proof -
  note mp = mapped_page [OF inv sd user_va_UTOP [OF srcva] m]
  show ?thesis
  proof (cases "present (mem s dd (unat (PDX dstva))) \<or> xs \<noteq> []")
    case True
    from page_insert_effect [OF inv dd user_va_UTOP [OF dstva] mp ref perm True] obtain t ys where
      t: "page_insert dd (frame w) dstva perm s = Ret 0 t" "vm_inv t D k ys"
        "\<forall>d' \<in> D. \<forall>va'. user_va va' \<longrightarrow>
           vm_map t d' va' = (if d' = dd \<and> PGNUM va' = PGNUM dstva
                              then Some (page2pa (frame w) OR perm OR PTE_P) else vm_map s d' va')"
        "vm_frame s t" "leak_but (frame w) s xs \<longrightarrow> leak_free t ys"
        "\<forall>q. q \<noteq> dd \<longrightarrow> q \<notin> set xs \<longrightarrow>
           \<not> (present (mem s dd (unat (PDX dstva))) \<and> frame (mem s dd (unat (PDX dstva))) = q) \<longrightarrow> mem t q = mem s q"
        "dirs_grow s D xs t"
        "\<forall>q \<in> set ys. q \<in> set xs \<or> (\<exists>w'. vm_map s dd dstva = Some w' \<and> q = frame w' \<and> q \<noteq> frame w)"
        "length xs \<le> length ys + of_bool (\<not> present (mem s dd (unat (PDX dstva))))"
      by blast
    have "leak_free s xs \<longrightarrow> leak_free t ys" using t(5) by (auto simp: leak_free_def leak_but_def)
    moreover have "data_same s D xs t" by (rule data_same_insert [OF dd user_va_UTOP [OF dstva] t(6)])
    ultimately have "shared s D k xs w dd dstva perm 0 t"
      using t(2-4,7-9) unfolding shared_def by auto
    then show ?thesis using t(1) unfolding if_P [OF True] by blast
  next
    case False
    then have "page_insert dd (frame w) dstva perm s = Ret (- E_NO_MEM) s"
      using page_insert_full [of s D k dd dstva "frame w" perm] inv by simp
    moreover have "shared s D k xs w dd dstva perm (- E_NO_MEM) s"
      by (rule shared_unchanged [OF inv]) (simp add: error_defs)
    ultimately show ?thesis unfolding if_not_P [OF False] by blast
  qed
qed

lemma counts_fit_mapped:
  assumes "vm_inv s D k xs" "counts_fit s" "d \<in> D" "va < UTOP" "vm_map s d va = Some w"
  shows "unat (pp_ref (pages s (frame w))) < 65535"
  using mapped_page(1) [OF assms(1,3) user_va_UTOP [OF assms(4)] assms(5)] assms(2) by (simp add: counts_fit_def)

lemma sys_page_map_ref:
  assumes inv: "vm_inv s D k xs" and c: "curenv s = Some c"
    and fit: "\<And>w. vm_map s sd srcva = Some w \<Longrightarrow> unat (pp_ref (pages s (frame w))) < 65535"
    and se: "env_target s c srcenvid True = Some se" "env_pgdir (envs s se) = Some sd" "sd \<in> D"
    and de: "env_target s c dstenvid True = Some de" "env_pgdir (envs s de) = Some dd" "dd \<in> D"
    and src: "srcva < UTOP" "PGOFF srcva = 0" and dst: "dstva < UTOP" "PGOFF dstva = 0"
    and perm: "\<not> perm_bad perm"
  shows "\<exists>r t. sys_page_map srcenvid srcva dstenvid dstva perm s = Ret r t \<and>
    (case vm_map s sd srcva of
       None \<Rightarrow> r = - E_INVAL \<and> t = s
     | Some w \<Rightarrow>
         (if perm AND PTE_W \<noteq> 0 \<and> w AND PTE_W = 0 then r = - E_INVAL \<and> t = s
          else r = (if present (mem s dd (unat (PDX dstva))) \<or> xs \<noteq> [] then 0 else - E_NO_MEM) \<and>
               shared s D k xs w dd dstva perm r t))"
proof -
  have ok: "\<not> (srcva \<ge> UTOP \<or> PGOFF srcva \<noteq> 0 \<or> dstva \<ge> UTOP \<or> PGOFF dstva \<noteq> 0)"
    using src dst by auto
  have start: "sys_page_map srcenvid srcva dstenvid dstva perm s =
      kbind (page_lookup sd srcva s) (\<lambda>r s.
                  case r of
                    (Some page, Some (f, j)) \<Rightarrow>
                      if perm AND PTE_W \<noteq> 0 \<and> mem s f j AND PTE_W = 0 then Ret (- E_INVAL) s
                      else (case env_pgdir (envs s de) of
                              None \<Rightarrow> Exit Fault s
                            | Some dd \<Rightarrow>
                                kbind (page_insert dd page dstva perm s) (\<lambda>r s.
                                  if r \<noteq> 0 then Ret (- E_NO_MEM) s else Ret 0 s))
                  | _ \<Rightarrow> Ret (- E_INVAL) s)"
    using ok perm by (simp add: sys_page_map_def on_env_target [OF c] se(1,2) de(1))
  show ?thesis
  proof (cases "vm_map s sd srcva")
    case None
    then obtain sl where "page_lookup sd srcva s = Ret (None, sl) s"
      using lookup_page(1) [OF inv se(3) src(1)] by blast
    then show ?thesis using start None by simp
  next
    case (Some w)
    then obtain f j where lk: "page_lookup sd srcva s = Ret (Some (frame w), Some (f, j)) s" "mem s f j = w"
      using lookup_page(2) [OF inv se(3) src(1)] by blast
    show ?thesis
    proof (cases "perm AND PTE_W \<noteq> 0 \<and> w AND PTE_W = 0")
      case True
      then show ?thesis using start lk Some by simp
    next
      case False
      obtain r t where r: "page_insert dd (frame w) dstva perm s = Ret r t" "shared s D k xs w dd dstva perm r t"
        "r = (if present (mem s dd (unat (PDX dstva))) \<or> xs \<noteq> [] then 0 else - E_NO_MEM)"
        using share_page [OF inv fit [OF Some] se(3) src(1) Some de(3) dst(1) perm_ok_low [OF perm]] by blast
      have "sys_page_map srcenvid srcva dstenvid dstva perm s = Ret r t"
        using start lk False de(2) r(1,3) by (auto split: if_splits)
      then show ?thesis using Some False r(2,3) by auto
    qed
  qed
qed

lemmas sys_page_map_effect =
  sys_page_map_ref [OF _ _ counts_fit_mapped]

section \<open>Sending a message\<close>

text \<open>What the receiver's environment becomes.\<close>

definition delivered :: "32 word \<Rightarrow> 32 word \<Rightarrow> 32 word \<Rightarrow> Env \<Rightarrow> Env" where
  "delivered from value perm e = e\<lparr>env_ipc_perm := perm, env_ipc_recving := False,
     env_ipc_from := from, env_ipc_value := value, env_status := ENV_RUNNABLE\<rparr>"

lemma perm_bad_alt:
  "perm AND PTE_U = 0 \<or> perm AND PTE_P = 0 \<or> perm AND NOT PTE_SYSCALL \<noteq> 0 \<longleftrightarrow> perm_bad perm"
proof -
  have one: "perm AND 1 = (if bit perm 0 then 1 else 0)"
    by (simp add: and_one_eq bit_0 odd_iff_mod_2_eq_one)
  have four: "perm AND 4 = (if bit perm 2 then 4 else 0)"
    by (rule bit_eqI) (auto simp: bit_simps bit_numeral_rec numeral_2_eq_2 intro!: gr0I split: nat.splits)
  have both: "perm AND (4 OR 1) = (perm AND 4) OR (perm AND 1)"
    by (rule bit.conj_disj_distrib)
  have P: "PTE_U = 4" "PTE_P = 1" by (simp_all add: layout_defs)
  show ?thesis
    unfolding perm_bad_def P both one four
    by (cases "bit perm 0"; cases "bit perm 2") simp_all
qed

lemma sys_ipc_try_send_refused:
  assumes c: "curenv s = Some c" and e: "env_target s c envid False = Some e"
  shows "\<not> env_ipc_recving (envs s e) \<Longrightarrow> sys_ipc_try_send envid value srcva perm s = Ret (- E_IPC_NOT_RECV) s"
  using c e by (simp add: sys_ipc_try_send_def with_cur_Some on_env_target)

lemma sys_ipc_try_send_value:
  assumes c: "curenv s = Some c" and e: "env_target s c envid False = Some e"
    and r: "env_ipc_recving (envs s e)" and v: "\<not> srcva < UTOP"
  shows "sys_ipc_try_send envid value srcva perm s =
    Ret 0 (set_env e (delivered (env_id (envs s c)) value 0 (envs s e)) s)"
  using c e r v by (simp add: sys_ipc_try_send_def with_cur_Some on_env_target delivered_def)

lemma sys_ipc_try_send_page:
  assumes inv: "vm_inv s D k xs" and fit: "counts_fit s" and c: "curenv s = Some c"
    and e: "env_target s c envid False = Some e" and r: "env_ipc_recving (envs s e)"
    and sd: "env_pgdir (envs s c) = Some sd" "sd \<in> D" and dd: "env_pgdir (envs s e) = Some dd" "dd \<in> D"
    and src: "srcva < UTOP" "even srcva \<or> PGOFF srcva = 0" and perm: "\<not> perm_bad perm"
  shows "\<exists>r t. sys_ipc_try_send envid value srcva perm s =
      Ret r (if r = 0 then set_env e (delivered (env_id (envs s c)) value perm (envs s e)) t else s) \<and>
    (case vm_map s sd srcva of
       None \<Rightarrow> r = - E_INVAL
     | Some w \<Rightarrow>
         if perm AND PTE_W \<noteq> 0 \<and> w AND PTE_W = 0 then r = - E_INVAL
         else if env_ipc_dstva (envs s e) < UTOP then
           r = (if present (mem s dd (unat (PDX (env_ipc_dstva (envs s e))))) \<or> xs \<noteq> [] then 0 else - E_NO_MEM) \<and>
           shared s D k xs w dd (env_ipc_dstva (envs s e)) perm r t
         else r = 0 \<and> t = s)"
proof -
  let ?dst = "env_ipc_dstva (envs s e)"
  have al: "srcva AND (if PGOFF srcva \<noteq> 0 then 1 else 0) = 0"
    using src(2) by (auto simp: and_one_eq odd_iff_mod_2_eq_one even_iff_mod_2_eq_zero)
  have page: "ipc_page c e srcva perm s =
             kbind (page_lookup sd srcva s) (\<lambda>r s.
               case r of
                 (Some page, Some (f, j)) \<Rightarrow>
                   if perm AND PTE_W \<noteq> 0 \<and> mem s f j AND PTE_W = 0 then Ret (- E_INVAL) s
                   else if env_ipc_dstva (envs s e) < UTOP then
                     (case env_pgdir (envs s e) of
                        None \<Rightarrow> Exit Fault s
                      | Some dd \<Rightarrow>
                          kbind (page_insert dd page (env_ipc_dstva (envs s e)) perm s) (\<lambda>r s.
                            if r \<noteq> 0 then Ret (- E_NO_MEM) s else Ret 0 s))
                   else Ret 0 s
               | _ \<Rightarrow> Ret (- E_INVAL) s)"
    using al perm sd(1) unfolding ipc_page_def perm_bad_alt by simp
  have send: "sys_ipc_try_send envid value srcva perm s =
     kbind (ipc_page c e srcva perm s) (\<lambda>r s.
       if r \<noteq> 0 then Ret r s
       else Ret 0 (set_env e ((envs s e)\<lparr>env_ipc_perm := perm, env_ipc_recving := False,
              env_ipc_from := env_id (envs s c), env_ipc_value := value, env_status := ENV_RUNNABLE\<rparr>) s))"
    using c e r src(1) by (simp add: sys_ipc_try_send_def with_cur_Some on_env_target)
  have err: "- E_INVAL \<noteq> 0" "- E_NO_MEM \<noteq> 0" by (simp_all add: error_defs)
  show ?thesis
  proof (cases "vm_map s sd srcva")
    case None
    then obtain sl where "page_lookup sd srcva s = Ret (None, sl) s"
      using lookup_page(1) [OF inv sd(2) src(1)] by blast
    then show ?thesis using send page None err by (intro exI [of _ "- E_INVAL"] exI [of _ s]) simp
  next
    case (Some w)
    then obtain f j where lk: "page_lookup sd srcva s = Ret (Some (frame w), Some (f, j)) s" "mem s f j = w"
      using lookup_page(2) [OF inv sd(2) src(1)] by blast
    show ?thesis
    proof (cases "perm AND PTE_W \<noteq> 0 \<and> w AND PTE_W = 0")
      case True
      then show ?thesis
        using send page lk Some err by (intro exI [of _ "- E_INVAL"] exI [of _ s]) simp
    next
      case nw: False
      show ?thesis
      proof (cases "?dst < UTOP")
        case False
        then show ?thesis
          using send page lk Some nw
          by (intro exI [of _ 0] exI [of _ s]) (auto simp: delivered_def)
      next
        case True
        obtain r t where rt: "page_insert dd (frame w) ?dst perm s = Ret r t" "shared s D k xs w dd ?dst perm r t"
          "r = (if present (mem s dd (unat (PDX ?dst))) \<or> xs \<noteq> [] then 0 else - E_NO_MEM)"
          using share_page [OF inv counts_fit_mapped [OF inv fit sd(2) src(1) Some] sd(2) src(1) Some dd(2) True perm_ok_low [OF perm]] by blast
        have same: "envs t = envs s" and t0: "r \<noteq> 0 \<Longrightarrow> t = s"
          using rt(2) vm_frame_sel(2) [of s t] by (auto simp: shared_def)
        have pg: "ipc_page c e srcva perm s = Ret r t"
          using page lk nw True dd(1) rt(1,3) t0 by (auto split: if_splits)
        have "sys_ipc_try_send envid value srcva perm s =
            Ret r (if r = 0 then set_env e (delivered (env_id (envs s c)) value perm (envs s e)) t else s)"
          using send pg same t0 by (cases "r = 0") (auto simp: delivered_def)
        then show ?thesis using Some nw True rt(2,3) by auto
      qed
    qed
  qed
qed

section \<open>Reading user memory\<close>

lemma vread_all:
  "(\<And>i. i < n \<Longrightarrow> vread8 s (va + of_nat i) = Some (f i)) \<Longrightarrow> vread s va n = Some (map f [0..<n])"
proof (induction n arbitrary: va f)
  case 0
  then show ?case by simp
next
  case (Suc n)
  have "vread s (va + 1) n = Some (map (\<lambda>i. f (Suc i)) [0..<n])"
  proof (rule Suc.IH)
    fix i assume "i < n"
    then show "vread8 s (va + 1 + of_nat i) = Some (f (Suc i))"
      using Suc.prems [of "Suc i"] by (simp add: algebra_simps)
  qed
  then show ?case using Suc.prems [of 0] by (simp add: map_upt_Suc del: upt_Suc)
qed

lemma vread_take:
  "vread s va n = Some bs \<Longrightarrow> length bs = n \<and> (\<forall>i < n. vread8 s (va + of_nat i) = Some (bs ! i))"
proof (induction n arbitrary: va bs)
  case 0
  then show ?case by simp
next
  case (Suc n)
  then obtain b cs where b: "vread8 s va = Some b" "vread s (va + 1) n = Some cs" "bs = b # cs"
    by (auto split: option.splits)
  show ?case using Suc.IH [OF b(2)] b(1,3) by (auto simp: less_Suc_eq_0_disj algebra_simps)
qed

text \<open>Printing n characters reads one more unless a NUL ends the string.\<close>

lemma print_str_read:
  assumes "vread s p n = Some bs" "n \<le> fuel"
  shows "print_str fuel (Some n) p s =
    (if 0 \<in> set bs \<or> vread8 s (p + of_nat n) \<noteq> None then Ret (takeWhile (\<lambda>b. b \<noteq> 0) bs) s else Exit Fault s)"
  using assms
proof (induction n arbitrary: p bs fuel)
  case 0
  then show ?case by (subst print_str.simps) (auto split: option.split)
next
  case (Suc n)
  then obtain b cs where b: "vread8 s p = Some b" "vread s (p + 1) n = Some cs" "bs = b # cs"
    by (auto split: option.splits)
  obtain f where f: "fuel = Suc f" "n \<le> f" using Suc.prems(2) by (cases fuel) auto
  have "p + of_nat (Suc n) = p + 1 + of_nat n" by simp
  then show ?case
    using Suc.IH [OF b(2) f(2)] b f
    by (subst print_str.simps) (simp add: algebra_simps split: if_splits)
qed

end
