(* ===== verification/Syscall_Props.thy ===== *)
theory Syscall_Props
  imports Syscall_Lemmas Env_Props
begin

text \<open>
  What the system calls guarantee. The examples use the two environments of Env_Props, where
  environment 0 has a page mapped at address 0 and its child waits for a message.
\<close>

section \<open>Two environments, one page, one receiver\<close>

definition demo_ipc :: kstate where
  "demo_ipc = demo_env\<lparr>page_free_list := Some 4,
     pages := (\<lambda>_. \<lparr>pp_link = None, pp_ref = 0\<rparr>)
       (0 := \<lparr>pp_link = None, pp_ref = 1\<rparr>, 1 := \<lparr>pp_link = None, pp_ref = 1\<rparr>,
        2 := \<lparr>pp_link = None, pp_ref = 1\<rparr>, 3 := \<lparr>pp_link = None, pp_ref = 1\<rparr>,
        7 := \<lparr>pp_link = None, pp_ref = 1\<rparr>, 6 := \<lparr>pp_link = None, pp_ref = 2\<rparr>,
        4 := \<lparr>pp_link = Some 5, pp_ref = 0\<rparr>),
     mem := (\<lambda>_ _. 0)(1 := (\<lambda>_. 0)(0 := 0x3007), 3 := (\<lambda>_. 0)(0 := 0x6007)), cr3 := 1,
     envs := (envs demo_env)(1 := (envs demo_env 1)\<lparr>env_status := ENV_NOT_RUNNABLE,
       env_ipc_recving := True, env_ipc_dstva := 0x5000\<rparr>)\<rparr>"

lemma demo_ipc_sel [simp]:
  "npages demo_ipc = 8" "curenv demo_ipc = Some 0" "env_pgdir (envs demo_ipc 0) = Some 1"
  "env_pgdir (envs demo_ipc (Suc 0)) = Some 2" "env_ipc_recving (envs demo_ipc (Suc 0))"
  "env_ipc_dstva (envs demo_ipc (Suc 0)) = 0x5000" "env_id (envs demo_ipc (Suc 0)) = 0x1001"
  "env_id (envs demo_ipc 0) = 0x1000" "env_status (envs demo_ipc (Suc 0)) = ENV_NOT_RUNNABLE"
  "env_parent_id (envs demo_ipc (Suc 0)) = 0x1000" "cr3 demo_ipc = 1"
  "mem demo_ipc = (\<lambda>_ _. 0)(1 := (\<lambda>_. 0)(0 := 0x3007), 3 := (\<lambda>_. 0)(0 := 0x6007))"
  by (simp_all add: demo_ipc_def demo_env_def demo_vm_def blank_state_def blank_env_def)

lemma demo_ptes [simp]:
  "present 0x3007" "frame 0x3007 = 3" "present 0x6007" "frame 0x6007 = 6"
  by (simp_all add: present_def PTE_P_def frame_def unat_PGNUM)

lemma demo_ipc_refs:
  "refs demo_ipc {1, 2} p =
     (if p \<in> {1, 2} then {(p, 1024, 0)} else if p = 3 then {(1, 0, 1024)}
      else if p = 6 then {(1, 0, 0)} else {})"
  by (auto simp: refs_def is_ref_def NUSER_eq split: if_splits)

lemma demo_ipc_inv: "vm_inv demo_ipc {1, 2} demo_handles [4, 5]"
proof -
  have "free_list_ok demo_ipc [4, 5]"
    by (simp add: free_list_ok_def) (simp add: demo_ipc_def demo_env_def demo_vm_def blank_state_def)
  moreover have "tables_ok demo_ipc {1, 2}"
    by (auto simp: tables_ok_def split: if_splits)
  moreover have "counts_ok demo_ipc {1, 2} demo_handles"
    unfolding counts_ok_def demo_ipc_refs demo_ipc_sel(1)
  proof (intro allI impI)
    fix p :: nat assume "p < 8"
    then have "p = 0 \<or> p = 1 \<or> p = 2 \<or> p = 3 \<or> p = 4 \<or> p = 5 \<or> p = 6 \<or> p = 7" by arith
    then show "unat (pp_ref (pages demo_ipc p)) =
        card (if p \<in> {1, 2} then {(p, 1024, 0)} else if p = 3 then {(1, 0, 1024)}
              else if p = 6 then {(1, 0, 0)} else {}) + demo_handles p"
      by (elim disjE) (simp_all add: demo_ipc_def demo_handles_def)
  qed
  ultimately show ?thesis by (simp add: vm_inv_def)
qed

lemma demo_ipc_map [simp]: "vm_map demo_ipc 1 0 = Some 0x6007" "vm_map demo_ipc (Suc 0) 0 = Some 0x6007"
  by (simp_all add: vm_map_def unat_PDX unat_PTX)

lemma demo_ipc_leak_free: "leak_free demo_ipc [4, 5]"
  unfolding leak_free_def demo_ipc_sel(1)
proof (intro allI impI)
  fix p :: nat assume "p < 8" and r: "pp_ref (pages demo_ipc p) = 0"
  then have "p = 0 \<or> p = 1 \<or> p = 2 \<or> p = 3 \<or> p = 4 \<or> p = 5 \<or> p = 6 \<or> p = 7" by arith
  then show "p \<in> set [4, 5]" using r by (elim disjE) (simp_all add: demo_ipc_def)
qed

lemma demo_ipc_fit: "counts_fit demo_ipc"
  by (simp add: counts_fit_def) (simp add: demo_ipc_def)

lemma demo_ipc_target [simp]:
  "env_target demo_ipc 0 0 chk = Some 0" "env_target demo_ipc 0 0x1001 chk = Some 1"
  by (simp_all add: env_target_def ENVX_def NENV_def)


section \<open>Memory\<close>

text \<open>
  C13. sys_page_alloc, called by an environment for itself or a child with an address below UTOP
  and allowed permission bits, succeeds exactly if a page is free and one more when the page table is
  missing. It then maps a zeroed page that was free at that address of that environment and changes no
  other mapping of any environment; otherwise it returns -E_NO_MEM, having given the page back and
  changed no mapping. Either way no page is lost and the contents of the pages in use stay.
\<close>

theorem sys_page_alloc_correct:
  assumes "vm_inv s D k xs" "leak_free s xs" "curenv s = Some c" "env_target s c envid True = Some e"
    and "env_pgdir (envs s e) = Some d" "d \<in> D" "va < UTOP" "\<not> perm_bad perm"
  shows "(e = c \<or> env_parent_id (envs s e) = env_id (envs s c)) \<and>
    (\<exists>r t ys. sys_page_alloc envid va perm s = Ret r t \<and> vm_inv t D k ys \<and> leak_free t ys \<and>
       r = (if xs \<noteq> [] \<and> (present (mem s d (unat (PDX va))) \<or> tl xs \<noteq> []) then 0 else - E_NO_MEM) \<and>
       (if r = 0 then (\<exists>pp \<in> set xs. mem t pp = (\<lambda>_. 0) \<and>
          (\<forall>d' \<in> D. \<forall>va'. user_va va' \<longrightarrow>
             vm_map t d' va' = (if d' = d \<and> PGNUM va' = PGNUM va
                                then Some (page2pa pp OR perm OR PTE_P) else vm_map s d' va')))
        else same_maps s t D) \<and>
       data_same s D xs t)"
proof -
  from sys_page_alloc_effect [OF assms(1,3-8)] obtain r t ys where
    t: "sys_page_alloc envid va perm s = Ret r t" "vm_inv t D k ys" "leak_free s xs \<longrightarrow> leak_free t ys"
      "r = (if xs \<noteq> [] \<and> (present (mem s d (unat (PDX va))) \<or> tl xs \<noteq> []) then 0 else - E_NO_MEM)"
      "if r = 0 then (\<exists>pp \<in> set xs. mem t pp = (\<lambda>_. 0) \<and>
         (\<forall>d' \<in> D. \<forall>va'. user_va va' \<longrightarrow>
            vm_map t d' va' = (if d' = d \<and> PGNUM va' = PGNUM va
                               then Some (page2pa pp OR perm OR PTE_P) else vm_map s d' va')) \<and> pp \<notin> set ys \<and> \<not> table_frame t D pp)
       else same_maps s t D"
    and same: "data_same s D xs t"
    by blast
  have "if r = 0 then (\<exists>pp \<in> set xs. mem t pp = (\<lambda>_. 0) \<and>
         (\<forall>d' \<in> D. \<forall>va'. user_va va' \<longrightarrow>
            vm_map t d' va' = (if d' = d \<and> PGNUM va' = PGNUM va
                               then Some (page2pa pp OR perm OR PTE_P) else vm_map s d' va')))
       else same_maps s t D"
    using t(5) by (cases "r = 0") auto
  then show ?thesis
    using t(1-4) same env_target_family [OF assms(4)] assms(2) by blast
qed

theorem sys_page_alloc_correct_witness:
  "\<exists>t. sys_page_alloc 0x1001 0x800000 (PTE_U OR PTE_P) demo_ipc = Ret 0 t \<and> vm_map t 2 0x800000 \<noteq> None"
proof -
  have va: "(0x800000 :: 32 word) < UTOP" and perm: "\<not> perm_bad (PTE_U OR PTE_P)"
    by (simp_all add: perm_bad_def layout_values layout_defs)
  have uva: "user_va 0x800000" by (rule user_va_UTOP [OF va])
  from sys_page_alloc_correct [OF demo_ipc_inv demo_ipc_leak_free demo_ipc_sel(2) demo_ipc_target(2) _ _ va perm, of 2]
  show ?thesis using uva by (auto split: if_splits)
qed


text \<open>
  C12. sys_page_map shares a page between the caller and its children without extending anybody's rights: a
  source address that is not mapped, or a writable mapping of a page the source can only read,
  is -E_INVAL; otherwise the destination address, and no other address of any environment, maps
  the very page the source maps, or, for want of a page table, the call fails with -E_NO_MEM and changes
  nothing.
\<close>

theorem sys_page_map_correct:
  assumes "vm_inv s D k xs" "counts_fit s" "curenv s = Some c"
    and "env_target s c srcenvid True = Some se" "env_pgdir (envs s se) = Some sd" "sd \<in> D"
    and "env_target s c dstenvid True = Some de" "env_pgdir (envs s de) = Some dd" "dd \<in> D"
    and "srcva < UTOP" "PGOFF srcva = 0" "dstva < UTOP" "PGOFF dstva = 0" "\<not> perm_bad perm"
  shows "\<exists>r t. sys_page_map srcenvid srcva dstenvid dstva perm s = Ret r t \<and>
    (case vm_map s sd srcva of
       None \<Rightarrow> r = - E_INVAL \<and> t = s
     | Some w \<Rightarrow>
         (if perm AND PTE_W \<noteq> 0 \<and> w AND PTE_W = 0 then r = - E_INVAL \<and> t = s
          else r = (if present (mem s dd (unat (PDX dstva))) \<or> xs \<noteq> [] then 0 else - E_NO_MEM) \<and>
               shared s D k xs w dd dstva perm r t))"
  by (rule sys_page_map_effect [OF assms(1,3,1,2,6,10) _ assms(4-14)])

theorem sys_page_map_correct_witness:
  "\<exists>t. sys_page_map 0 0 0x1001 0x3000 (PTE_U OR PTE_P) demo_ipc = Ret 0 t \<and>
     vm_map t 2 0x3000 = Some (page2pa 6 OR (PTE_U OR PTE_P) OR PTE_P) \<and> vm_map t 1 0 = Some 0x6007"
proof -
  have va: "(0 :: 32 word) < UTOP" "(0x3000 :: 32 word) < UTOP" "PGOFF 0 = 0" "PGOFF 0x3000 = 0"
    and perm: "\<not> perm_bad (PTE_U OR PTE_P)" and r: "(PTE_U OR PTE_P) AND PTE_W = 0"
    by (simp_all add: perm_bad_def layout_values layout_defs PGOFF_def)
  have uva: "user_va 0x3000" by (rule user_va_UTOP [OF va(2)])
  from sys_page_map_correct [OF demo_ipc_inv demo_ipc_fit demo_ipc_sel(2) demo_ipc_target(1) _ _ demo_ipc_target(2) _ _
      va(1,3,2,4) perm, of 1 2]
  show ?thesis using uva r by (auto simp: shared_def)
qed

section \<open>Messages\<close>

text \<open>
  C11. sys_ipc_try_send to a receiver that waits, with a page at an address the sender has mapped: unless the
  page is missing, the permissions exceed the sender's or the receiver's page table cannot be allocated, the
  receiver wakes up with the value, the sender's identifier and the permissions, and the page appears at the
  address it asked for and nowhere else. On an error the state is untouched, so the receiver still waits.
  The test on the address only refuses odd addresses: an even one that is not page-aligned sends the
  page around it.
\<close>

theorem ipc_send_page_correct:
  assumes "vm_inv s D k xs" "counts_fit s" "curenv s = Some c"
    and "env_target s c envid False = Some e" "env_ipc_recving (envs s e)"
    and "env_pgdir (envs s c) = Some sd" "sd \<in> D" "env_pgdir (envs s e) = Some dd" "dd \<in> D"
    and "srcva < UTOP" "even srcva \<or> PGOFF srcva = 0" "\<not> perm_bad perm"
  shows "\<exists>r t. sys_ipc_try_send envid value srcva perm s =
      Ret r (if r = 0 then set_env e (delivered (env_id (envs s c)) value perm (envs s e)) t else s) \<and>
    (case vm_map s sd srcva of
       None \<Rightarrow> r = - E_INVAL
     | Some w \<Rightarrow>
         if perm AND PTE_W \<noteq> 0 \<and> w AND PTE_W = 0 then r = - E_INVAL
         else if env_ipc_dstva (envs s e) < UTOP then
           r = (if present (mem s dd (unat (PDX (env_ipc_dstva (envs s e))))) \<or> xs \<noteq> [] then 0 else - E_NO_MEM) \<and>
           shared s D k xs w dd (env_ipc_dstva (envs s e)) perm r t
         else r = 0 \<and> t = s)"
  by (rule sys_ipc_try_send_page [OF assms])

theorem ipc_send_page_correct_witness:
  "\<exists>t. sys_ipc_try_send 0x1001 42 0 (PTE_U OR PTE_P) demo_ipc = Ret 0 t \<and>
     vm_map t 2 0x5000 = Some (page2pa 6 OR (PTE_U OR PTE_P) OR PTE_P) \<and>
     env_ipc_value (envs t 1) = 42 \<and> env_ipc_from (envs t 1) = 0x1000 \<and> env_status (envs t 1) = ENV_RUNNABLE"
proof -
  have va: "(0 :: 32 word) < UTOP" "(0x5000 :: 32 word) < UTOP" "even (0 :: 32 word) \<or> PGOFF 0 = 0"
    and perm: "\<not> perm_bad (PTE_U OR PTE_P)" and r: "(PTE_U OR PTE_P) AND PTE_W = 0"
    by (simp_all add: perm_bad_def layout_values layout_defs PGOFF_def)
  have uva: "user_va 0x5000" by (rule user_va_UTOP [OF va(2)])
  have m: "vm_map (set_env i f t) d a = vm_map t d a" for i f t d a by (simp add: vm_map_def)
  from ipc_send_page_correct [OF demo_ipc_inv demo_ipc_fit demo_ipc_sel(2) demo_ipc_target(2) _ _ _ _ _ va(1,3) perm,
      of 1 2 42]
  show ?thesis using uva r va(2) by (auto simp: shared_def m delivered_def)
qed

text \<open>
  C20. A message without a page reaches exactly the environments that wait for one: to any other the call is
  -E_IPC_NOT_RECV and has no effect; a waiting one gets value and sender, becomes runnable and no longer
  receives, so that a second message to it is refused.
\<close>

theorem ipc_send_value_correct:
  assumes "curenv s = Some c" "env_target s c envid False = Some e" "UTOP \<le> srcva"
  shows "if env_ipc_recving (envs s e)
    then let t = set_env e (delivered (env_id (envs s c)) value 0 (envs s e)) s
         in sys_ipc_try_send envid value srcva perm s = Ret 0 t \<and>
            (env_target t c envid False = Some e \<longrightarrow>
               sys_ipc_try_send envid value' srcva perm t = Ret (- E_IPC_NOT_RECV) t)
    else sys_ipc_try_send envid value srcva perm s = Ret (- E_IPC_NOT_RECV) s"
proof (cases "env_ipc_recving (envs s e)")
  case True
  have n: "\<not> srcva < UTOP" using assms(3) by simp
  let ?t = "set_env e (delivered (env_id (envs s c)) value 0 (envs s e)) s"
  have "curenv ?t = Some c" "\<not> env_ipc_recving (envs ?t e)" using assms(1) by (simp_all add: delivered_def)
  then show ?thesis
    using True sys_ipc_try_send_value [OF assms(1,2) True n] sys_ipc_try_send_refused [of ?t c envid e]
    by (simp add: Let_def)
next
  case False
  then show ?thesis using sys_ipc_try_send_refused [OF assms(1,2)] by simp
qed

theorem ipc_send_value_correct_witness:
  "\<exists>t. sys_ipc_try_send 0x1001 42 0xFFFFFFFF 0 demo_ipc = Ret 0 t \<and>
     sys_ipc_try_send 0x1001 43 0xFFFFFFFF 0 t = Ret (- E_IPC_NOT_RECV) t"
proof -
  let ?t = "set_env 1 (delivered 0x1000 42 0 (envs demo_ipc 1)) demo_ipc"
  have v: "UTOP \<le> (0xFFFFFFFF :: 32 word)" by (simp add: layout_values)
  have "env_target ?t 0 0x1001 False = Some 1"
    by (simp add: env_target_def ENVX_def NENV_def delivered_def)
  then show ?thesis
    using ipc_send_value_correct [OF demo_ipc_sel(2) demo_ipc_target(2) v, of 42 0 43] by (simp add: Let_def)
qed

lemma find_elem: "find P xs = Some x \<Longrightarrow> x \<in> set xs"
  by (auto simp: find_Some_iff)

lemma find_holds: "find P xs = Some x \<Longrightarrow> P x"
  by (auto simp: find_Some_iff)

lemma circular_other: "c < NENV \<Longrightarrow> 1 \<le> j \<Longrightarrow> j < NENV \<Longrightarrow> (c + j) mod NENV \<noteq> c"
  by (cases "c + j < NENV") (auto simp: mod_if)

text \<open>
  C19. sys_ipc_recv with a page-aligned address, or none, does not return: the caller is left waiting with the
  address recorded (UTOP when it wants no page) and 0 as the result it will see. The first runnable environment after the
  caller in circular order runs next, never the caller; if there is none, the processor halts or, with no other
  live environment at all, stops in the monitor. Runnable environments are taken to have a page directory, as env_alloc gives them.
\<close>

theorem ipc_recv_blocks:
  assumes "curenv s = Some c" "c < NENV" "UTOP \<le> dstva \<or> PGOFF dstva = 0"
    and "\<forall>d < NENV. env_status (envs s d) = ENV_RUNNABLE \<longrightarrow> env_pgdir (envs s d) \<noteq> None"
  shows "case sys_ipc_recv dstva s of
      Ret _ _ \<Rightarrow> False
    | Exit r t \<Rightarrow>
        (case find (\<lambda>d. env_status (envs s d) = ENV_RUNNABLE) (map (\<lambda>j. (c + j) mod NENV) [1..<NENV]) of
           Some d \<Rightarrow> r = Running d \<and> d \<noteq> c \<and> curenv t = Some d \<and> env_status (envs t d) = ENV_RUNNING \<and> Some (cr3 t) = env_pgdir (envs s d)
         | None \<Rightarrow> r = (if \<forall>i < NENV. i \<noteq> c \<longrightarrow> env_status (envs s i) \<notin> {ENV_RUNNABLE, ENV_RUNNING, ENV_DYING}
                       then Monitor else Halted)) \<and>
        env_ipc_recving (envs t c) \<and> env_status (envs t c) = ENV_NOT_RUNNABLE \<and>
        env_ipc_dstva (envs t c) = (if dstva < UTOP then dstva else UTOP) \<and>
        reg_eax (tf_regs (env_tf (envs t c))) = 0"
proof -
  let ?e = "(envs s c)\<lparr>env_ipc_dstva := (if dstva < UTOP then dstva else UTOP), env_ipc_recving := True,
              env_status := ENV_NOT_RUNNABLE,
              env_tf := (env_tf (envs s c))\<lparr>tf_regs := (tf_regs (env_tf (envs s c)))\<lparr>reg_eax := 0\<rparr>\<rparr>\<rparr>"
  let ?s = "set_env c ?e s" and ?others = "map (\<lambda>j. (c + j) mod NENV) [1..<NENV]"
  have ok: "\<not> (dstva < UTOP \<and> dstva \<noteq> 0 \<and> PGOFF dstva \<noteq> 0)" using assms(3) by auto
  have run: "sys_ipc_recv dstva s = kbind (sched_yield ?s :: (unit, kstate) kres) (\<lambda>_. Ret 0)"
    using assms(1) unfolding sys_ipc_recv_def with_cur_def by (simp add: ok Let_def sys_yield_def)
  have f: "sched_from ?s = c" using assms(1) by (simp add: sched_from_def)
  have cur: "?s\<lparr>curenv := Some c\<rparr> = ?s" using assms(1) by (simp add: set_env_def)
  have lt: "sched_from ?s < NENV" using f assms(2) by simp
  have y: "(sched_yield ?s :: (unit, kstate) kres) =
      (case sched_choice ?s of Some e \<Rightarrow> env_run e ?s | None \<Rightarrow> sched_halt ?s)"
    using sched_yield_choice [OF lt, where 'a = unit] unfolding f cur .
  have other: "d < NENV \<and> d \<noteq> c" if "d \<in> set ?others" for d
    using that circular_other [OF assms(2)] by (auto simp: NENV_def)
  have same: "find (\<lambda>d. env_status (envs ?s d) = ENV_RUNNABLE) ?others = find (\<lambda>d. env_status (envs s d) = ENV_RUNNABLE) ?others"
  proof (rule find_cong [OF refl])
    fix d assume "d \<in> set ?others"
    then have "d \<noteq> c" using other by blast
    then show "(env_status (envs ?s d) = ENV_RUNNABLE) = (env_status (envs s d) = ENV_RUNNABLE)" by simp
  qed
  have blocked: "(env_status (envs ?s c) \<in> {ENV_RUNNABLE, ENV_RUNNING}) = False" by simp
  have "(case x of Some e \<Rightarrow> Some e | None \<Rightarrow> if False then Some c else None) = x" for x :: "nat option"
    by (simp split: option.split)
  then have choice: "sched_choice ?s = find (\<lambda>d. env_status (envs s d) = ENV_RUNNABLE) ?others"
    unfolding sched_choice_def f blocked same .
  show ?thesis
  proof (cases "sched_choice ?s")
    case None
    have idle: "list_all (\<lambda>i. env_status (envs ?s i) \<notin> {ENV_RUNNABLE, ENV_RUNNING, ENV_DYING}) [0..<NENV] \<longleftrightarrow>
        (\<forall>i < NENV. i \<noteq> c \<longrightarrow> env_status (envs s i) \<notin> {ENV_RUNNABLE, ENV_RUNNING, ENV_DYING})"
      by (auto simp: list_all_iff)
    show ?thesis
      unfolding run y choice [symmetric] None option.case sched_halt_def idle
      by (cases "\<forall>i < NENV. i \<noteq> c \<longrightarrow> env_status (envs s i) \<notin> {ENV_RUNNABLE, ENV_RUNNING, ENV_DYING}")
        (simp_all only: if_True if_False, simp_all)
  next
    case (Some e)
    have e: "e < NENV" "e \<noteq> c" "env_status (envs s e) = ENV_RUNNABLE"
      using other [OF find_elem [OF Some [unfolded choice]]] find_holds [OF Some [unfolded choice]] by simp_all
    then obtain d where d: "env_pgdir (envs s e) = Some d" using assms(4) by auto
    have c: "curenv ?s = Some c" using assms(1) by simp
    show ?thesis
      unfolding run y choice [symmetric] Some option.case env_run_effect [OF c, where 'a = unit]
      using e d by (simp add: Let_def)
  qed
qed

theorem ipc_recv_blocks_witness:
  "\<exists>t. sys_ipc_recv 0x5000 demo_env = Exit (Running 1) t \<and> curenv t = Some 1 \<and> env_ipc_recving (envs t 0)"
proof -
  have dst: "UTOP \<le> (0x5000 :: 32 word) \<or> PGOFF 0x5000 = 0" by (simp add: PGOFF_def)
  have dirs: "\<forall>d < NENV. env_status (envs demo_env d) = ENV_RUNNABLE \<longrightarrow> env_pgdir (envs demo_env d) \<noteq> None"
    by (auto simp: demo_env_def demo_vm_def blank_env_def)
  have "[Suc 0..<NENV] = Suc 0 # [Suc (Suc 0)..<NENV]" by (rule upt_conv_Cons) (simp add: NENV_def)
  then have "find (\<lambda>d. env_status (envs demo_env d) = ENV_RUNNABLE) (map (\<lambda>j. (0 + j) mod NENV) [1..<NENV]) = Some 1"
    by (simp add: NENV_def)
  then show ?thesis
    using ipc_recv_blocks [OF demo_env_sel(1) _ dst dirs]
    by (cases "sys_ipc_recv 0x5000 demo_env") (simp_all add: NENV_def)
qed


section \<open>Environments\<close>

lemma sys_exofork_effect:
  assumes inv: "vm_inv s D k (x # ys)" and ker: "kernel_dir_ok s" and c: "curenv s = Some c"
    and e: "env_free_list s = Some e" "e < NENV" "e \<noteq> c"
  obtains t where "sys_exofork s = Ret (sint (env_id (envs t e))) t" "0 < sint (env_id (envs t e))"
    "env_status (envs t e) = ENV_NOT_RUNNABLE" "env_parent_id (envs t e) = env_id (envs s c)"
    "env_tf (envs t e) = (env_tf (envs s c))\<lparr>tf_regs := (tf_regs (env_tf (envs s c)))\<lparr>reg_eax := 0\<rparr>\<rparr>"
    "env_pgdir (envs t e) = Some x" "vm_inv t (insert x D) k ys"
    "\<And>va. user_va va \<Longrightarrow> vm_map t x va = None"
    "\<And>d va. d \<in> D \<Longrightarrow> user_va va \<Longrightarrow> vm_map t d va = vm_map s d va"
    "\<And>i. i \<noteq> e \<Longrightarrow> envs t i = envs s i" "mem t = (mem s)(x := new_dir x s)" "npages t = npages s"
    "\<And>p. p \<noteq> x \<Longrightarrow> pp_ref (pages t p) = pp_ref (pages s p)" "curenv t = Some c" "cr3 t = cr3 s"
    "env_target t c (env_id (envs t e)) True = Some e"
proof -
  have fl: "free_list_ok s (x # ys)" using inv by (simp add: vm_inv_def)
  from env_alloc_cons [OF fl e(1), of "env_id (envs s c)"] obtain t where
    t: "env_alloc (env_id (envs s c)) s = Ret (Inr e) t" "free_list_ok t ys" "mem t = (mem s)(x := new_dir x s)"
      "envs t = (envs s)(e := alloc_env (env_id (envs s c)) x e (envs s e))" "npages t = npages s"
      "\<And>p. pp_ref (pages t p) = (if p = x then pp_ref (pages s x) + 1 else pp_ref (pages s p))"
      "curenv t = curenv s" "cr3 t = cr3 s"
    by metis
  note add = vm_inv_add_dir [OF inv t(2,3) new_dir_user [OF ker] t(5,6)]
  let ?tf = "(env_tf (envs s c))\<lparr>tf_regs := (tf_regs (env_tf (envs s c)))\<lparr>reg_eax := 0\<rparr>\<rparr>"
  let ?u = "set_env e ((envs t e)\<lparr>env_status := ENV_NOT_RUNNABLE, env_tf := ?tf\<rparr>) t"
  note nid = new_id_facts [OF e(2), of "env_id (envs s e)"]
  have "sys_exofork s = Ret (sint (env_id (envs ?u e))) ?u"
    using c t(1,4) e(3) by (simp add: sys_exofork_def with_cur_Some Let_def)
  moreover have "vm_inv ?u (insert x D) k ys" using add(1) vm_inv_cong [of ?u t] by simp
  moreover have "vm_map ?u d va = vm_map t d va" for d va by (simp add: vm_map_def)
  moreover have "env_target ?u c (env_id (envs ?u e)) True = Some e"
    using e(3) nid(1,4) by (simp add: env_target_def t(4) alloc_env_def)
  moreover have "set_env e a t = t\<lparr>envs := (envs t)(e := a)\<rparr>" for a by (simp add: set_env_def)
  ultimately show thesis
    using t add(2,3) nid(3) c by (intro that [of ?u]) (simp_all add: alloc_env_def)
qed

text \<open>
  C22. sys_exofork makes a child of the caller that resumes at the same point with result 0 but does not run yet,
  in an empty address space of its own, and returns the child's identifier, which is positive, to the parent. When no
  environment or no page is left, the result is -E_NO_FREE_ENV in both cases and nothing changes.
\<close>

theorem sys_exofork_correct:
  assumes "vm_inv s D k xs" "kernel_dir_ok s" "curenv s = Some c"
    and "\<forall>e. env_free_list s = Some e \<longrightarrow> e < NENV \<and> e \<noteq> c"
  shows "case (env_free_list s, xs) of
      (Some e, x # ys) \<Rightarrow>
        (\<exists>t. sys_exofork s = Ret (sint (env_id (envs t e))) t \<and> 0 < sint (env_id (envs t e)) \<and>
           env_status (envs t e) = ENV_NOT_RUNNABLE \<and> env_parent_id (envs t e) = env_id (envs s c) \<and>
           env_tf (envs t e) = (env_tf (envs s c))\<lparr>tf_regs := (tf_regs (env_tf (envs s c)))\<lparr>reg_eax := 0\<rparr>\<rparr> \<and>
           env_pgdir (envs t e) = Some x \<and> vm_inv t (insert x D) k ys \<and>
           (\<forall>va. user_va va \<longrightarrow> vm_map t x va = None) \<and>
           (\<forall>d \<in> D. \<forall>va. user_va va \<longrightarrow> vm_map t d va = vm_map s d va) \<and>
           (\<forall>i. i \<noteq> e \<longrightarrow> envs t i = envs s i))
    | _ \<Rightarrow> sys_exofork s = Ret (- E_NO_FREE_ENV) s"
proof (cases "env_free_list s")
  case None
  then show ?thesis using assms(3) env_alloc_none by (simp add: sys_exofork_def with_cur_Some)
next
  case (Some e)
  then have e: "e < NENV" "e \<noteq> c" using assms(4) by auto
  show ?thesis
  proof (cases xs)
    case Nil
    then have "free_list_ok s []" using assms(1) by (simp add: vm_inv_def)
    then show ?thesis using assms(3) Some Nil env_alloc_nomem [OF Some]
      by (simp add: sys_exofork_def with_cur_Some)
  next
    case (Cons x ys)
    show ?thesis
      by (rule sys_exofork_effect [OF assms(1) [unfolded Cons] assms(2,3) Some e])
        (use Some Cons in \<open>auto intro!: exI\<close>)
  qed
qed

theorem sys_exofork_correct_witness:
  "\<exists>t. sys_exofork demo_env = Ret (sint (env_id (envs t 2))) t \<and> env_status (envs t 2) = ENV_NOT_RUNNABLE \<and>
     env_parent_id (envs t 2) = 0x1000 \<and> env_pgdir (envs t 2) = Some 3"
  using sys_exofork_correct [OF demo_env_inv, of 0] by (auto simp: kernel_dir_ok_def NENV_def)

text \<open>
  sys_env_set_status accepts the statuses free, runnable and not runnable for the caller and its children. With
  ENV_FREE it succeeds although it releases nothing: the environment keeps its page directory, is on no free
  list and from then on cannot be named any more, not even to destroy it.
\<close>

theorem sys_env_set_status_correct:
  assumes "curenv s = Some c" "env_target s c envid True = Some e"
  shows "(status \<in> {2, 4} \<longrightarrow> sys_env_set_status envid status s =
            Ret 0 (set_env e ((envs s e)\<lparr>env_status := (if status = 2 then ENV_RUNNABLE else ENV_NOT_RUNNABLE)\<rparr>) s)) \<and>
    (status \<notin> {0, 2, 4} \<longrightarrow> sys_env_set_status envid status s = Ret (- E_INVAL) s) \<and>
    (\<exists>t. sys_env_set_status envid 0 s = Ret 0 t \<and> env_status (envs t e) = ENV_FREE \<and>
       env_pgdir (envs t e) = env_pgdir (envs s e) \<and> env_free_list t = env_free_list s \<and>
       (envid \<noteq> 0 \<longrightarrow> sys_env_destroy envid t = Ret (- E_BAD_ENV) t))"
proof -
  let ?t = "set_env e ((envs s e)\<lparr>env_status := ENV_FREE\<rparr>) s"
  have free: "sys_env_set_status envid 0 s = Ret 0 ?t"
    using assms by (simp add: sys_env_set_status_def on_env_target status_of_int_def)
  have "env_target ?t c envid True = None" if "envid \<noteq> 0"
    using assms(2) that by (auto simp: env_target_def Let_def split: if_splits)
  then have dead: "envid \<noteq> 0 \<longrightarrow> sys_env_destroy envid ?t = Ret (- E_BAD_ENV) ?t"
    using assms(1) by (simp add: sys_env_destroy_def on_env_target)
  have "status \<in> {2, 4} \<longrightarrow> sys_env_set_status envid status s =
      Ret 0 (set_env e ((envs s e)\<lparr>env_status := (if status = 2 then ENV_RUNNABLE else ENV_NOT_RUNNABLE)\<rparr>) s)"
    using assms by (auto simp: sys_env_set_status_def on_env_target status_of_int_def)
  moreover have "status \<notin> {0, 2, 4} \<longrightarrow> sys_env_set_status envid status s = Ret (- E_INVAL) s"
    using assms by (auto simp: sys_env_set_status_def on_env_target status_of_int_def)
  ultimately show ?thesis using free dead by auto
qed

theorem sys_env_set_status_correct_witness:
  "\<exists>t. sys_env_set_status 0x1001 0 demo_ipc = Ret 0 t \<and> env_pgdir (envs t 1) = Some 2 \<and>
     sys_env_destroy 0x1001 t = Ret (- E_BAD_ENV) t"
  using sys_env_set_status_correct [OF demo_ipc_sel(2) demo_ipc_target(2)] by auto

text \<open>
  C21. Whatever frame an environment installs with sys_env_set_trapframe, the environment it is installed in
  will run at privilege level 3 in every segment, with interrupts on and without I/O privilege.
\<close>

theorem sys_env_set_trapframe_safe:
  assumes "curenv s = Some c" "env_target s c envid True = Some e"
    and "sys_env_set_trapframe envid tfp s = Ret r t"
  shows "r = 0 \<and> (let tf = env_tf (envs t e)
    in tf_cs tf AND 3 = 3 \<and> tf_ds tf AND 3 = 3 \<and> tf_es tf AND 3 = 3 \<and> tf_ss tf AND 3 = 3 \<and>
       tf_eflags tf AND FL_IF = FL_IF \<and> tf_eflags tf AND FL_IOPL_MASK = 0)"
proof -
  have start: "sys_env_set_trapframe envid tfp s =
       kbind (user_mem_assert e tfp 68 0 s) (\<lambda>_ s.
         case vread s tfp 68 of
           None \<Rightarrow> Exit Fault s
         | Some bs \<Rightarrow>
             (let tf = tf_of_bytes bs
              in Ret 0 (set_env e ((envs s e)\<lparr>env_tf :=
                   tf\<lparr>tf_ds := tf_ds tf OR 3, tf_es := tf_es tf OR 3, tf_ss := tf_ss tf OR 3,
                      tf_cs := tf_cs tf OR 3,
                      tf_eflags := (tf_eflags tf OR FL_IF) AND NOT FL_IOPL_MASK\<rparr>\<rparr>) s)))"
    using assms(1,2) by (simp add: sys_env_set_trapframe_def on_env_target)
  obtain s1 bs where r: "r = 0" and t: "t = set_env e ((envs s1 e)\<lparr>env_tf :=
      (tf_of_bytes bs)\<lparr>tf_ds := tf_ds (tf_of_bytes bs) OR 3, tf_es := tf_es (tf_of_bytes bs) OR 3,
        tf_ss := tf_ss (tf_of_bytes bs) OR 3, tf_cs := tf_cs (tf_of_bytes bs) OR 3,
        tf_eflags := (tf_eflags (tf_of_bytes bs) OR FL_IF) AND NOT FL_IOPL_MASK\<rparr>\<rparr>) s1"
    using assms(3) unfolding start by (auto simp: kbind_eq_Ret Let_def split: option.splits)
  have low: "(w OR 3) AND 3 = 3" for w :: "16 word"
    by (rule bit_eqI) (auto simp: bit_simps)
  have fl: "((w OR FL_IF) AND NOT FL_IOPL_MASK) AND FL_IF = FL_IF"
    "((w OR FL_IF) AND NOT FL_IOPL_MASK) AND FL_IOPL_MASK = 0" for w :: "32 word"
  proof -
    show "((w OR FL_IF) AND NOT FL_IOPL_MASK) AND FL_IOPL_MASK = 0"
      by (rule bit_eqI) (auto simp: bit_simps)
    have "FL_IF AND NOT FL_IOPL_MASK = FL_IF" by (simp add: FL_IF_def FL_IOPL_MASK_def)
    then have "bit FL_IF n \<Longrightarrow> \<not> bit FL_IOPL_MASK n" for n
      by (metis bit_and_iff bit_not_iff)
    then show "((w OR FL_IF) AND NOT FL_IOPL_MASK) AND FL_IF = FL_IF"
      by (intro bit_eqI) (auto simp: bit_simps)
  qed
  show ?thesis by (simp add: r t low fl Let_def)
qed


lemma demo_ipc_read: "a < 4096 \<Longrightarrow> vread8 demo_ipc a = Some 0"
proof -
  assume a: "a < 4096"
  then have "unat a < 4096" by (simp add: word_less_nat_alt)
  then have ix: "unat (PDX a) = 0" "unat (PTX a) = 0" by (simp_all add: unat_PDX unat_PTX)
  have "word_bytes 0 ! (k mod 4) = 0" for k
    by (simp add: word_bytes_def)
  then show ?thesis
    by (simp add: vread8_def vtrans_def ix Let_def unat_PGNUM PTE_P_def)
qed

lemma demo_ipc_check: "unat len \<le> 4096 \<Longrightarrow> 0 < unat len \<Longrightarrow> user_mem_check 0 0 len PTE_U demo_ipc = Ret 0 demo_ipc"
proof -
  assume len: "unat len \<le> 4096" "0 < unat len"
  then have d: "(unat len + 4095) div 4096 = 1" by simp
  have w: "walkable demo_ipc 1" by (simp add: walkable_def)
  have ok: "user_ok demo_ipc 1 PTE_U 0" by (simp add: user_ok_def layout_values layout_defs)
  show ?thesis
    using user_mem_check_result [of demo_ipc 0 1 0 len PTE_U] len w ok d
    by (simp add: page_addr_def)
qed

theorem sys_env_set_trapframe_safe_witness:
  "\<exists>t. sys_env_set_trapframe 0 0 demo_ipc = Ret 0 t \<and> tf_cs (env_tf (envs t 0)) AND 3 = 3"
proof -
  have "vread demo_ipc 0 68 = Some (map (\<lambda>_. 0) [0..<68])"
    by (rule vread_all) (simp add: demo_ipc_read word_less_nat_alt unat_of_nat_32)
  moreover have "user_mem_check 0 0 68 PTE_U demo_ipc = Ret 0 demo_ipc" by (rule demo_ipc_check) simp_all
  ultimately obtain t where "sys_env_set_trapframe 0 0 demo_ipc = Ret 0 t"
    by (simp add: sys_env_set_trapframe_def on_env_target user_mem_assert_def Let_def)
  then show ?thesis
    using sys_env_set_trapframe_safe [OF demo_ipc_sel(2) demo_ipc_target(1), of 0 0 t] by (auto simp: Let_def)
qed

section \<open>Output\<close>

text \<open>
  sys_cputs, on a range the caller may read, prints the characters up to the first NUL or the given length.
  But it reads one byte beyond the range when there is no NUL in it: if that byte is not mapped, as when the range
  ends with the last mapped page, the kernel takes a page fault, which it does not survive.
\<close>

theorem sys_cputs_correct:
  assumes "curenv s = Some c" "user_mem_check c str len PTE_U s = Ret 0 s" "0 \<le> sint len"
    and "vread s str (unat len) = Some bs"
  shows "sys_cputs str len s =
    (if 0 \<in> set bs \<or> vread8 s (str + len) \<noteq> None
     then Ret 0 (say (User_output (takeWhile (\<lambda>b. b \<noteq> 0) bs)) s) else Exit Fault s)"
proof -
  have "unat len \<le> 2 ^ 32" using unat_32_less [of len] by simp
  from print_str_read [OF assms(4) this]
  have "print_str (2 ^ 32) (Some (unat len)) str s =
      (if 0 \<in> set bs \<or> vread8 s (str + len) \<noteq> None then Ret (takeWhile (\<lambda>b. b \<noteq> 0) bs) s else Exit Fault s)"
    by simp
  then show ?thesis
    using assms(1-3) by (simp add: sys_cputs_def with_cur_Some user_mem_assert_def)
qed

definition demo_text :: kstate where
  "demo_text = demo_ipc\<lparr>mem := (mem demo_ipc)(6 := (\<lambda>_. 0x61616161))\<rparr>"

lemma demo_text_sel [simp]:
  "curenv demo_text = Some 0" "env_pgdir (envs demo_text 0) = Some 1" "cr3 demo_text = 1" "npages demo_text = 8"
  "mem demo_text = (\<lambda>_ _. 0)(1 := (\<lambda>_. 0)(0 := 0x3007), 3 := (\<lambda>_. 0)(0 := 0x6007), 6 := (\<lambda>_. 0x61616161))"
  by (simp_all add: demo_text_def)

lemma demo_text_check: "user_mem_check 0 0xFFE 2 PTE_U demo_text = Ret 0 demo_text"
proof -
  have w: "walkable demo_text 1" by (simp add: walkable_def)
  have ok: "user_ok demo_text 1 PTE_U 0"
    by (simp add: user_ok_def layout_values layout_defs vm_map_def unat_PDX unat_PTX)
  show ?thesis
    using user_mem_check_result [of demo_text 0 1 "0xFFE" 2 PTE_U] w ok
    by (simp add: page_addr_def)
qed

theorem sys_cputs_correct_witness: "sys_cputs 0xFFE 2 demo_text = Exit Fault demo_text"
proof -
  have b: "vread8 demo_text (0xFFE + of_nat i) = Some 0x61" if "i < 2" for i
  proof -
    have "i = 0 \<or> i = 1" using that by arith
    then show ?thesis
      by (elim disjE) (simp_all add: vread8_def vtrans_def Let_def unat_PDX unat_PTX unat_PGNUM PTE_P_def PGOFF_def
          word_bytes_def)
  qed
  have r: "vread demo_text 0xFFE (unat (2 :: 32 word)) = Some (map (\<lambda>_. 0x61) [0..<2])"
    using vread_all [of 2 demo_text "0xFFE" "\<lambda>_. 0x61"] b by simp
  have e: "vread8 demo_text (0xFFE + 2) = None"
    by (simp add: vread8_def vtrans_def Let_def unat_PDX unat_PTX unat_PGNUM PTE_P_def)
  have nz: "(0 :: 8 word) \<notin> set (map (\<lambda>_. 0x61) [0..<2 :: nat])" by auto
  show ?thesis
    using sys_cputs_correct [OF demo_text_sel(1) demo_text_check _ r] e nz by (simp del: set_map)
qed

end
