(* ===== verification/Block_Cache.thy ===== *)
theory Block_Cache
  imports Mmu Bytes
begin

text \<open>
  fs/bc.c and the block bitmap of fs/fs.c: the file server maps disk block b at address
  DISKMAP + b * BLKSIZE of its own address space. A block is read in by the page fault handler
  when it is first touched and written back by flush_block when its page is dirty. Every access
  to that region is therefore a stateful operation here. Definitions only.
\<close>

section \<open>Constants (inc/fs.h, fs/fs.h)\<close>

definition BLKSIZE :: "32 word" where [layout_defs]: "BLKSIZE = 4096"
definition BLKBITSIZE :: "32 word" where [layout_defs]: "BLKBITSIZE = 4096 * 8"
definition MAXNAMELEN :: nat where [layout_defs]: "MAXNAMELEN = 128"
definition NDIRECT :: "32 word" where [layout_defs]: "NDIRECT = 10"
definition NINDIRECT :: "32 word" where [layout_defs]: "NINDIRECT = 1024"
definition BLKFILES :: nat where [layout_defs]: "BLKFILES = 16"
definition FTYPE_REG :: "32 word" where [layout_defs]: "FTYPE_REG = 0"
definition FTYPE_DIR :: "32 word" where [layout_defs]: "FTYPE_DIR = 1"
definition FS_MAGIC :: "32 word" where [layout_defs]: "FS_MAGIC = 0x4A0530AE"
definition DISKMAP :: "32 word" where [layout_defs]: "DISKMAP = 0x10000000"
definition DISKSIZE :: "32 word" where [layout_defs]: "DISKSIZE = 0xC0000000"

text \<open>
  The addresses of the super block's fields (struct Super: magic number, number of blocks, root
  directory) and of the bitmap. super and bitmap are set to them in fs_init.
\<close>

definition SUPER :: "32 word" where [layout_defs]: "SUPER = 0x10001000"
definition s_nblocks_at :: "32 word" where [layout_defs]: "s_nblocks_at = 0x10001004"
definition s_root_at :: "32 word" where [layout_defs]: "s_root_at = 0x10001008"
definition BITMAP :: "32 word" where [layout_defs]: "BITMAP = 0x10002000"

section \<open>The state of the file server's memory\<close>

text \<open>
  super_on and bitmap_on say whether the pointers super and bitmap are set yet. A cached block has
  its words in bcache; bdirty is the dirty bit of its page, and btables says which page tables of the
  region (1024 blocks each) exist. The disk and the kernel are outside: no_page and bad_block are the blocks
  for which sys_page_alloc or the disk driver fail. Warnings are the codes printed.
\<close>

record fs =
  super_on :: bool
  bitmap_on :: bool
  bcache :: "nat \<Rightarrow> (nat \<Rightarrow> 32 word) option"
  bdirty :: "nat \<Rightarrow> bool"
  btables :: "nat \<Rightarrow> bool"
  disk :: "nat \<Rightarrow> nat \<Rightarrow> 32 word"
  no_page :: "nat \<Rightarrow> bool"
  bad_block :: "nat \<Rightarrow> bool"
  warnings :: "int list"

definition blk_of :: "32 word \<Rightarrow> nat" where
  "blk_of a = unat ((a - DISKMAP) div BLKSIZE)"

definition idx_of :: "32 word \<Rightarrow> nat" where
  "idx_of a = unat (PGOFF a) div 4"

text \<open>The word at a mapped address, and writing it; the processor sets the dirty bit.\<close>

definition peek :: "fs \<Rightarrow> 32 word \<Rightarrow> 32 word" where
  "peek s a = (case bcache s (blk_of a) of None \<Rightarrow> 0 | Some c \<Rightarrow> c (idx_of a))"

definition poke :: "32 word \<Rightarrow> 32 word \<Rightarrow> fs \<Rightarrow> fs" where
  "poke a w s =
     s\<lparr>bcache := (bcache s)(blk_of a :=
          map_option (\<lambda>c. c(idx_of a := w)) (bcache s (blk_of a))),
       bdirty := (bdirty s)(blk_of a := True)\<rparr>"

section \<open>Reading a block in\<close>

text \<open>
  block_is_free, given the way to touch memory: inside the page fault handler a
  further fault nests on the exception stack.
\<close>

definition block_is_free_by :: "(32 word \<Rightarrow> fs \<Rightarrow> (unit, fs) kres) \<Rightarrow> 32 word \<Rightarrow> fs \<Rightarrow> (bool, fs) kres" where
  "block_is_free_by tch blockno s =
     (if \<not> super_on s then Ret False s
      else kbind (tch s_nblocks_at s) (\<lambda>_ s.
        if blockno \<ge> peek s s_nblocks_at then Ret False s
        else (let a = BITMAP + 4 * (blockno div 32)
              in kbind (tch a s) (\<lambda>_ s.
                   Ret (peek s a AND push_bit (unat (blockno mod 32)) 1 \<noteq> 0) s))))"

text \<open>The block of a page from the disk, its page table included.\<close>

definition read_in :: "nat \<Rightarrow> fs \<Rightarrow> fs" where
  "read_in b s = s\<lparr>bcache := (bcache s)(b := Some (disk s b)), bdirty := (bdirty s)(b := False),
                   btables := (btables s)(b div 1024 := True)\<rparr>"

text \<open>
  Touching an address: nothing if its block is cached, else bc_pgfault. The number bounds the
  faults that nest on the exception stack. The call that clears the dirty bit is given the faulting
  address itself, so sys_page_map refuses it unless it is page-aligned.
\<close>

primrec bc_touch :: "nat \<Rightarrow> 32 word \<Rightarrow> fs \<Rightarrow> (unit, fs) kres" where
  "bc_touch 0 = (\<lambda>addr s. if bcache s (blk_of addr) \<noteq> None then Ret () s else Exit Fault s)"
| "bc_touch (Suc n) = (\<lambda>addr s.
     if bcache s (blk_of addr) \<noteq> None then Ret () s
     else if addr < DISKMAP \<or> addr \<ge> DISKMAP + DISKSIZE then Exit (Panicked ''page fault in FS'') s
     else
       (let b = blk_of addr
        in kbind (if super_on s then kbind (bc_touch n s_nblocks_at s) (\<lambda>_ s.
                    Ret (of_nat b \<ge> peek s s_nblocks_at) s)
                  else Ret False s) (\<lambda>bad s.
             if bad then Exit (Panicked ''reading non-existent block'') s
             else if no_page s b then Exit (Panicked ''bc_pgfault: alloc'') s
             else if bad_block s b then Exit (Panicked ''bc_pgfault: ide read'') s
             else
               (let s = read_in b s
                in if PGOFF addr \<noteq> 0 then Exit (Panicked ''in bc_pgfault, sys_page_map'') s
                   else if bitmap_on s then
                     kbind (block_is_free_by (bc_touch n) (of_nat b) s) (\<lambda>free s.
                       if free then Exit (Panicked ''reading free block'') s else Ret () s)
                   else Ret () s))))"

definition BC_DEPTH :: nat where "BC_DEPTH = 3"

definition touch :: "32 word \<Rightarrow> fs \<Rightarrow> (unit, fs) kres" where
  "touch = bc_touch BC_DEPTH"

definition load32 :: "32 word \<Rightarrow> fs \<Rightarrow> (32 word, fs) kres" where
  "load32 a s = kbind (touch a s) (\<lambda>_ s. Ret (peek s a) s)"

definition store32 :: "32 word \<Rightarrow> 32 word \<Rightarrow> fs \<Rightarrow> (unit, fs) kres" where
  "store32 a w s = kbind (touch a s) (\<lambda>_ s. Ret () (poke a w s))"

definition load8 :: "32 word \<Rightarrow> fs \<Rightarrow> (8 word, fs) kres" where
  "load8 a s = kbind (touch a s) (\<lambda>_ s. Ret (get_byte (unat (a mod 4)) (peek s a)) s)"

definition store8 :: "32 word \<Rightarrow> 8 word \<Rightarrow> fs \<Rightarrow> (unit, fs) kres" where
  "store8 a b s =
     kbind (touch a s) (\<lambda>_ s. Ret () (poke a (set_byte (unat (a mod 4)) b (peek s a)) s))"

text \<open>memmove out of and into the disk region; both go upwards here.\<close>

fun load_bytes :: "nat \<Rightarrow> 32 word \<Rightarrow> fs \<Rightarrow> (8 word list, fs) kres" where
  "load_bytes 0 a s = Ret [] s"
| "load_bytes (Suc n) a s =
     kbind (load8 a s) (\<lambda>b s. kbind (load_bytes n (a + 1) s) (\<lambda>bs. Ret (b # bs)))"

fun store_bytes :: "8 word list \<Rightarrow> 32 word \<Rightarrow> fs \<Rightarrow> (unit, fs) kres" where
  "store_bytes [] a s = Ret () s"
| "store_bytes (b # bs) a s = kbind (store8 a b s) (\<lambda>_. store_bytes bs (a + 1))"

text \<open>memset(a, 0, BLKSIZE).\<close>

definition clear_block :: "32 word \<Rightarrow> fs \<Rightarrow> (unit, fs) kres" where
  "clear_block a s = kbind (touch a s) (\<lambda>_ s.
     Ret () (s\<lparr>bcache := (bcache s)(blk_of a := Some (\<lambda>_. 0)), bdirty := (bdirty s)(blk_of a := True)\<rparr>))"

section \<open>fs/bc.c\<close>

definition diskaddr :: "32 word \<Rightarrow> fs \<Rightarrow> (32 word, fs) kres" where
  "diskaddr blockno s =
     (if blockno = 0 then Exit (Panicked ''bad block number in diskaddr'') s
      else kbind (if super_on s then load32 s_nblocks_at s else Ret (blockno + 1) s) (\<lambda>n s.
        if super_on s \<and> blockno \<ge> n then Exit (Panicked ''bad block number in diskaddr'') s
        else Ret (DISKMAP + blockno * BLKSIZE) s))"

definition va_is_mapped :: "32 word \<Rightarrow> fs \<Rightarrow> bool" where
  "va_is_mapped va s \<longleftrightarrow> bcache s (blk_of va) \<noteq> None"

definition va_is_dirty :: "32 word \<Rightarrow> fs \<Rightarrow> bool" where
  "va_is_dirty va s \<longleftrightarrow> bdirty s (blk_of va)"

text \<open>
  flush_block reads the page table entry through uvpt before anything else, which faults outside the
  cache, and so panics, when there is no page table for the region.
\<close>

definition flush_block :: "32 word \<Rightarrow> fs \<Rightarrow> (unit, fs) kres" where
  "flush_block addr s =
     (let b = blk_of addr; pgva = ROUNDDOWN addr BLKSIZE
      in if \<not> btables s (b div 1024) then Exit (Panicked ''page fault in FS'') s
         else if addr < DISKMAP \<or> addr \<ge> DISKMAP + DISKSIZE then Exit (Panicked ''flush_block of bad va'') s
         else if \<not> va_is_mapped pgva s \<or> \<not> va_is_dirty pgva s then Ret () s
         else if bad_block s b then Exit (Panicked ''flush_block: ide write'') s
         else Ret () (s\<lparr>disk := (disk s)(b := the (bcache s b)), bdirty := (bdirty s)(b := False)\<rparr>))"

section \<open>The block bitmap (fs/fs.c)\<close>

definition block_is_free :: "32 word \<Rightarrow> fs \<Rightarrow> (bool, fs) kres" where
  "block_is_free = block_is_free_by touch"

definition free_block :: "32 word \<Rightarrow> fs \<Rightarrow> (unit, fs) kres" where
  "free_block blockno s =
     (if blockno = 0 then Exit (Panicked ''attempt to free zero block'') s
      else (let a = BITMAP + 4 * (blockno div 32)
            in kbind (load32 a s) (\<lambda>w. store32 a (w OR push_bit (unat (blockno mod 32)) 1))))"

text \<open>
  The loop of alloc_block. Its bound is a 32-bit product, so the counter takes at most 2^32
  steps to reach it.
\<close>

fun alloc_loop :: "nat \<Rightarrow> 32 word \<Rightarrow> fs \<Rightarrow> (32 word, fs) kres" where
  "alloc_loop fuel blockno s =
     kbind (load32 s_nblocks_at s) (\<lambda>n s.
       if blockno = n * BLKBITSIZE then Ret (word_of_int (- E_NO_DISK)) s
       else if fuel = 0 then Exit Spins s
       else kbind (block_is_free blockno s) (\<lambda>free s.
         if free then
           (if blockno = 0 then Exit (Panicked ''free zero block'') s
            else (let a = BITMAP + 4 * (blockno div 32)
                  in kbind (load32 a s) (\<lambda>w s.
                       kbind (store32 a (w AND NOT (push_bit (unat (blockno mod 32)) 1)) s) (\<lambda>_ s.
                         kbind (diskaddr blockno s) (\<lambda>d s.
                           kbind (flush_block d s) (\<lambda>_. Ret blockno))))))
         else alloc_loop (fuel - 1) (blockno + 1) s))"

declare alloc_loop.simps [simp del]

definition alloc_block :: "fs \<Rightarrow> (32 word, fs) kres" where
  "alloc_block s = alloc_loop (2 ^ 32) 0 s"

definition check_super :: "fs \<Rightarrow> (unit, fs) kres" where
  "check_super s =
     kbind (load32 SUPER s) (\<lambda>m s.
       if m \<noteq> FS_MAGIC then Exit (Panicked ''bad file system magic number'') s
       else kbind (load32 s_nblocks_at s) (\<lambda>n s.
         if n > DISKSIZE div BLKSIZE then Exit (Panicked ''file system is too large'') s
         else Ret () s))"

fun check_bitmap_loop :: "nat \<Rightarrow> 32 word \<Rightarrow> fs \<Rightarrow> (unit, fs) kres" where
  "check_bitmap_loop fuel i s =
     kbind (load32 s_nblocks_at s) (\<lambda>n s.
       if \<not> i * BLKBITSIZE < n then Ret () s
       else if fuel = 0 then Exit Spins s
       else kbind (block_is_free (2 + i) s) (\<lambda>free s.
         kbind (kassert ''assertion failed: !block_is_free(2+i)'' (\<not> free) s) (\<lambda>_.
           check_bitmap_loop (fuel - 1) (i + 1))))"

declare check_bitmap_loop.simps [simp del]

definition check_bitmap :: "fs \<Rightarrow> (unit, fs) kres" where
  "check_bitmap s =
     kbind (check_bitmap_loop (2 ^ 32) 0 s) (\<lambda>_ s.
       kbind (block_is_free 0 s) (\<lambda>f0 s.
         kbind (kassert ''assertion failed: !block_is_free(0)'' (\<not> f0) s) (\<lambda>_ s.
           kbind (block_is_free 1 s) (\<lambda>f1.
             kassert ''assertion failed: !block_is_free(1)'' (\<not> f1)))))"

end
