(* ===== verification/Fs_Model.thy ===== *)
theory Fs_Model
  imports Block_Cache "HOL-Library.Signed_Division"
begin

text \<open>
  fs/fs.c above the bitmap: the blocks of a file, directories, path names, reading, writing and
  truncating files. A pointer to a struct File is the address of that structure in the disk region.
  Output arguments are returned beside the result. Definitions only.
\<close>

section \<open>struct File (inc/fs.h)\<close>

definition f_size_at :: "32 word \<Rightarrow> 32 word" where "f_size_at f = f + 128"
definition f_type_at :: "32 word \<Rightarrow> 32 word" where "f_type_at f = f + 132"
definition f_direct_at :: "32 word \<Rightarrow> 32 word \<Rightarrow> 32 word" where "f_direct_at f i = f + 136 + 4 * i"
definition f_indirect_at :: "32 word \<Rightarrow> 32 word" where "f_indirect_at f = f + 176"
definition file_size :: "32 word" where "file_size = 256"

lemmas file_fields = f_size_at_def f_type_at_def f_direct_at_def f_indirect_at_def file_size_def

text \<open>Division of an off_t by BLKSIZE, as C does it on a signed number.\<close>

definition blk_div :: "32 word \<Rightarrow> 32 word" where
  "blk_div p = word_of_int (sint p sdiv 4096)"

definition blk_mod :: "32 word \<Rightarrow> 32 word" where
  "blk_mod p = word_of_int (sint p smod 4096)"

text \<open>(size + BLKSIZE - 1) / BLKSIZE.\<close>

definition nblocks_of :: "32 word \<Rightarrow> 32 word" where
  "nblocks_of sz = blk_div (sz + BLKSIZE - 1)"

section \<open>Start-up\<close>

definition check_bc :: "fs \<Rightarrow> (unit, fs) kres" where
  "check_bc s =
     kbind (diskaddr 1 s) (\<lambda>a s.
       kbind (load_bytes 264 a s) (\<lambda>backup s.
         kbind (store_bytes (chars ''OOPS!'' @ [10, 0]) a s) (\<lambda>_ s.
           kbind (flush_block a s) (\<lambda>_ s.
             kbind (kassert ''assertion failed: va_is_mapped(diskaddr(1))'' (va_is_mapped a s) s) (\<lambda>_ s.
               kbind (kassert ''assertion failed: !va_is_dirty(diskaddr(1))'' (\<not> va_is_dirty a s) s) (\<lambda>_ s.
                 (let s = s\<lparr>bcache := (bcache s)(blk_of a := None)\<rparr>
                  in kbind (kassert ''assertion failed: !va_is_mapped(diskaddr(1))'' (\<not> va_is_mapped a s) s) (\<lambda>_ s.
                       kbind (load_bytes 7 a s) (\<lambda>bs s.
                         kbind (kassert ''assertion failed: strcmp'' (bs = chars ''OOPS!'' @ [10, 0]) s) (\<lambda>_ s.
                           kbind (store_bytes backup a s) (\<lambda>_. flush_block a)))))))))))"

definition bc_init :: "fs \<Rightarrow> (unit, fs) kres" where
  "bc_init s =
     kbind (check_bc s) (\<lambda>_ s.
       kbind (diskaddr 1 s) (\<lambda>a s. kbind (load_bytes 264 a s) (\<lambda>_. Ret ())))"

text \<open>fs_init after the disk has been selected.\<close>

definition fs_init :: "fs \<Rightarrow> (unit, fs) kres" where
  "fs_init s =
     kbind (bc_init s) (\<lambda>_ s.
       kbind (diskaddr 1 s) (\<lambda>_ s.
         kbind (check_super (s\<lparr>super_on := True\<rparr>)) (\<lambda>_ s.
           kbind (diskaddr 2 s) (\<lambda>_ s. check_bitmap (s\<lparr>bitmap_on := True\<rparr>)))))"

section \<open>The blocks of a file\<close>

text \<open>The slot that holds the number of a block: Inl is the error, Inr the slot's address.\<close>

definition file_block_walk :: "32 word \<Rightarrow> 32 word \<Rightarrow> bool \<Rightarrow> fs \<Rightarrow> (int + 32 word, fs) kres" where
  "file_block_walk f filebno alloc s =
     (if filebno < NDIRECT then Ret (Inr (f_direct_at f filebno)) s
      else if filebno < NDIRECT + NINDIRECT then
        kbind (load32 (f_indirect_at f) s) (\<lambda>ind s.
          kbind
            (if ind = 0 then
               if \<not> alloc then Ret (Some (- E_NOT_FOUND)) s
               else kbind (alloc_block s) (\<lambda>b s.
                      kbind (store32 (f_indirect_at f) b s) (\<lambda>_ s.
                        kbind (load32 (f_indirect_at f) s) (\<lambda>ind s.
                          if ind = 0 then Ret (Some (- E_NO_DISK)) s
                          else kbind (diskaddr ind s) (\<lambda>a s.
                                 kbind (clear_block a s) (\<lambda>_. Ret None)))))
             else Ret None s)
            (\<lambda>err s.
               case err of
                 Some r \<Rightarrow> Ret (Inl r) s
               | None \<Rightarrow>
                   kbind (load32 (f_indirect_at f) s) (\<lambda>ind s.
                     kbind (diskaddr ind s) (\<lambda>a. Ret (Inr (a + 4 * (filebno - NDIRECT)))))))
      else Ret (Inl (- E_INVAL)) s)"

text \<open>The address of a block of a file, allocated if the file has none there.\<close>

definition file_get_block :: "32 word \<Rightarrow> 32 word \<Rightarrow> fs \<Rightarrow> (int + 32 word, fs) kres" where
  "file_get_block f filebno s =
     kbind (file_block_walk f filebno True s) (\<lambda>r s.
       case r of
         Inl r \<Rightarrow> Ret (Inl r) s
       | Inr slot \<Rightarrow>
           kbind (load32 slot s) (\<lambda>b s.
             kbind (if b = 0 then kbind (alloc_block s) (\<lambda>nb. store32 slot nb) else Ret () s) (\<lambda>_ s.
               kbind (load32 slot s) (\<lambda>b s.
                 if b = 0 then Ret (Inl (- E_NO_DISK)) s
                 else kbind (diskaddr b s) (\<lambda>a. Ret (Inr a))))))"

definition file_free_block :: "32 word \<Rightarrow> 32 word \<Rightarrow> fs \<Rightarrow> (int, fs) kres" where
  "file_free_block f filebno s =
     kbind (file_block_walk f filebno False s) (\<lambda>r s.
       case r of
         Inl r \<Rightarrow> Ret r s
       | Inr slot \<Rightarrow>
           kbind (load32 slot s) (\<lambda>b s.
             if b \<noteq> 0 then kbind (free_block b s) (\<lambda>_ s. kbind (store32 slot 0 s) (\<lambda>_. Ret 0))
             else Ret 0 s))"

fun truncate_loop :: "nat \<Rightarrow> 32 word \<Rightarrow> 32 word \<Rightarrow> 32 word \<Rightarrow> fs \<Rightarrow> (unit, fs) kres" where
  "truncate_loop fuel f bno old_nblocks s =
     (if \<not> bno < old_nblocks then Ret () s
      else if fuel = 0 then Exit Spins s
      else kbind (file_free_block f bno s) (\<lambda>r s.
             truncate_loop (fuel - 1) f (bno + 1) old_nblocks
               (if r < 0 then s\<lparr>warnings := r # warnings s\<rparr> else s)))"

declare truncate_loop.simps [simp del]

definition file_truncate_blocks :: "32 word \<Rightarrow> 32 word \<Rightarrow> fs \<Rightarrow> (unit, fs) kres" where
  "file_truncate_blocks f newsize s =
     kbind (load32 (f_size_at f) s) (\<lambda>size s.
       (let old_nblocks = nblocks_of size; new_nblocks = nblocks_of newsize
        in kbind (truncate_loop (2 ^ 32) f new_nblocks old_nblocks s) (\<lambda>_ s.
             if new_nblocks \<le> NDIRECT then
               kbind (load32 (f_indirect_at f) s) (\<lambda>ind s.
                 if ind \<noteq> 0 then kbind (free_block ind s) (\<lambda>_. store32 (f_indirect_at f) 0) else Ret () s)
             else Ret () s)))"

definition file_set_size :: "32 word \<Rightarrow> 32 word \<Rightarrow> fs \<Rightarrow> (int, fs) kres" where
  "file_set_size f newsize s =
     kbind (load32 (f_size_at f) s) (\<lambda>size s.
       kbind (if sint size > sint newsize then file_truncate_blocks f newsize s else Ret () s) (\<lambda>_ s.
         kbind (store32 (f_size_at f) newsize s) (\<lambda>_ s.
           kbind (flush_block f s) (\<lambda>_. Ret 0))))"

fun flush_loop :: "nat \<Rightarrow> 32 word \<Rightarrow> 32 word \<Rightarrow> fs \<Rightarrow> (unit, fs) kres" where
  "flush_loop fuel f i s =
     kbind (load32 (f_size_at f) s) (\<lambda>size s.
       if \<not> sint i < sint (nblocks_of size) then Ret () s
       else if fuel = 0 then Exit Spins s
       else kbind (file_block_walk f i False s) (\<lambda>r s.
         case r of
           Inl _ \<Rightarrow> flush_loop (fuel - 1) f (i + 1) s
         | Inr slot \<Rightarrow>
             kbind (load32 slot s) (\<lambda>b s.
               if b = 0 then flush_loop (fuel - 1) f (i + 1) s
               else kbind (diskaddr b s) (\<lambda>a s.
                      kbind (flush_block a s) (\<lambda>_. flush_loop (fuel - 1) f (i + 1))))))"

declare flush_loop.simps [simp del]

definition file_flush :: "32 word \<Rightarrow> fs \<Rightarrow> (unit, fs) kres" where
  "file_flush f s =
     kbind (flush_loop (2 ^ 32) f 0 s) (\<lambda>_ s.
       kbind (flush_block f s) (\<lambda>_ s.
         kbind (load32 (f_indirect_at f) s) (\<lambda>ind s.
           if ind \<noteq> 0 then kbind (diskaddr ind s) (\<lambda>a. flush_block a) else Ret () s)))"

fun sync_loop :: "nat \<Rightarrow> 32 word \<Rightarrow> fs \<Rightarrow> (unit, fs) kres" where
  "sync_loop fuel i s =
     kbind (load32 s_nblocks_at s) (\<lambda>n s.
       if \<not> i < n then Ret () s
       else if fuel = 0 then Exit Spins s
       else kbind (diskaddr i s) (\<lambda>a s.
              kbind (flush_block a s) (\<lambda>_. sync_loop (fuel - 1) (i + 1))))"

declare sync_loop.simps [simp del]

definition fs_sync :: "fs \<Rightarrow> (unit, fs) kres" where
  "fs_sync s = sync_loop (2 ^ 32) 1 s"

section \<open>Reading and writing\<close>

text \<open>
  The loops of file_read and file_write. Each step but the last ends at a block boundary, so there are
  at most 2^20 + 1 of them before the position wraps around. The bytes read so far come back with an
  error too, as they are in the caller's buffer.
\<close>

definition piece :: "32 word \<Rightarrow> 32 word \<Rightarrow> 32 word" where
  "piece pos end_pos = min (BLKSIZE - blk_mod pos) (end_pos - pos)"

fun read_loop :: "nat \<Rightarrow> 32 word \<Rightarrow> 32 word \<Rightarrow> 32 word \<Rightarrow> fs \<Rightarrow> (int option \<times> 8 word list, fs) kres" where
  "read_loop fuel f pos end_pos s =
     (if \<not> pos < end_pos then Ret (None, []) s
      else if fuel = 0 then Exit Spins s
      else kbind (file_get_block f (blk_div pos) s) (\<lambda>r s.
        case r of
          Inl r \<Rightarrow> Ret (Some r, []) s
        | Inr blk \<Rightarrow>
            (let bn = piece pos end_pos
             in kbind (load_bytes (unat bn) (blk + blk_mod pos) s) (\<lambda>bs s.
                  kbind (read_loop (fuel - 1) f (pos + bn) end_pos s) (\<lambda>(r, rest).
                    Ret (r, bs @ rest))))))"

declare read_loop.simps [simp del]

definition file_read :: "32 word \<Rightarrow> 32 word \<Rightarrow> 32 word \<Rightarrow> fs \<Rightarrow> (int \<times> 8 word list, fs) kres" where
  "file_read f count offset s =
     kbind (load32 (f_size_at f) s) (\<lambda>size s.
       if sint offset \<ge> sint size then Ret (0, []) s
       else (let count = min count (size - offset)
             in kbind (read_loop (2 ^ 20 + 1) f offset (offset + count) s) (\<lambda>(r, bs).
                  Ret (case r of Some r \<Rightarrow> r | None \<Rightarrow> sint count, bs))))"

fun write_loop :: "nat \<Rightarrow> 32 word \<Rightarrow> 8 word list \<Rightarrow> 32 word \<Rightarrow> 32 word \<Rightarrow> fs \<Rightarrow> (int option, fs) kres" where
  "write_loop fuel f buf pos end_pos s =
     (if \<not> pos < end_pos then Ret None s
      else if fuel = 0 then Exit Spins s
      else kbind (file_get_block f (blk_div pos) s) (\<lambda>r s.
        case r of
          Inl r \<Rightarrow> Ret (Some r) s
        | Inr blk \<Rightarrow>
            (let bn = piece pos end_pos
             in kbind (store_bytes (take (unat bn) buf) (blk + blk_mod pos) s) (\<lambda>_ s.
                  write_loop (fuel - 1) f (drop (unat bn) buf) (pos + bn) end_pos s))))"

declare write_loop.simps [simp del]

text \<open>The count is the length of the buffer.\<close>

definition file_write :: "32 word \<Rightarrow> 8 word list \<Rightarrow> 32 word \<Rightarrow> fs \<Rightarrow> (int, fs) kres" where
  "file_write f buf offset s =
     (let count = of_nat (length buf)
      in kbind (load32 (f_size_at f) s) (\<lambda>size s.
           kbind (if offset + count > size then file_set_size f (offset + count) s else Ret 0 s) (\<lambda>r s.
             if r < 0 then Ret r s
             else kbind (write_loop (2 ^ 20 + 1) f buf offset (offset + count) s) (\<lambda>r.
                    Ret (case r of Some r \<Rightarrow> r | None \<Rightarrow> sint count)))))"

section \<open>Directories and path names\<close>

text \<open>strcmp(a, name) == 0 for a string in the disk region.\<close>

fun str_eq_at :: "32 word \<Rightarrow> 8 word list \<Rightarrow> fs \<Rightarrow> (bool, fs) kres" where
  "str_eq_at a [] s = kbind (load8 a s) (\<lambda>b. Ret (b = 0))"
| "str_eq_at a (c # cs) s =
     kbind (load8 a s) (\<lambda>b s. if b = c \<and> b \<noteq> 0 then str_eq_at (a + 1) cs s else Ret False s)"

fun find_entry :: "(32 word \<Rightarrow> fs \<Rightarrow> (bool, fs) kres) \<Rightarrow> nat \<Rightarrow> 32 word \<Rightarrow> fs \<Rightarrow> (32 word option, fs) kres" where
  "find_entry test 0 f s = Ret None s"
| "find_entry test (Suc n) f s =
     kbind (test f s) (\<lambda>found s. if found then Ret (Some f) s else find_entry test n (f + file_size) s)"

text \<open>
  The double loop that dir_lookup and dir_alloc_file share: the first entry that satisfies the test, None
  if there is none, or the error of file_get_block. At most 2^20 blocks, as a size has 32 bits.
\<close>

fun scan_dir :: "(32 word \<Rightarrow> fs \<Rightarrow> (bool, fs) kres) \<Rightarrow> nat \<Rightarrow> 32 word \<Rightarrow> 32 word \<Rightarrow> 32 word \<Rightarrow> fs
    \<Rightarrow> (int + 32 word option, fs) kres" where
  "scan_dir test fuel dir i nblock s =
     (if \<not> i < nblock then Ret (Inr None) s
      else if fuel = 0 then Exit Spins s
      else kbind (file_get_block dir i s) (\<lambda>r s.
        case r of
          Inl r \<Rightarrow> Ret (Inl r) s
        | Inr blk \<Rightarrow>
            kbind (find_entry test BLKFILES blk s) (\<lambda>e s.
              case e of
                Some f \<Rightarrow> Ret (Inr (Some f)) s
              | None \<Rightarrow> scan_dir test (fuel - 1) dir (i + 1) nblock s)))"

declare scan_dir.simps [simp del]

definition dir_lookup :: "32 word \<Rightarrow> 8 word list \<Rightarrow> fs \<Rightarrow> (int + 32 word, fs) kres" where
  "dir_lookup dir name s =
     kbind (load32 (f_size_at dir) s) (\<lambda>size s.
       kbind (kassert ''assertion failed: (dir->f_size % BLKSIZE) == 0'' (blk_mod size = 0) s) (\<lambda>_ s.
         kbind (scan_dir (\<lambda>f. str_eq_at f name) (2 ^ 32) dir 0 (blk_div size) s) (\<lambda>r.
           Ret (case r of Inl r \<Rightarrow> Inl r | Inr None \<Rightarrow> Inl (- E_NOT_FOUND) | Inr (Some f) \<Rightarrow> Inr f))))"

definition dir_alloc_file :: "32 word \<Rightarrow> fs \<Rightarrow> (int + 32 word, fs) kres" where
  "dir_alloc_file dir s =
     kbind (load32 (f_size_at dir) s) (\<lambda>size s.
       kbind (kassert ''assertion failed: (dir->f_size % BLKSIZE) == 0'' (blk_mod size = 0) s) (\<lambda>_ s.
         (let nblock = blk_div size
          in kbind (scan_dir (\<lambda>f s. kbind (load8 f s) (\<lambda>b. Ret (b = 0))) (2 ^ 32) dir 0 nblock s) (\<lambda>r s.
               case r of
                 Inl r \<Rightarrow> Ret (Inl r) s
               | Inr (Some f) \<Rightarrow> Ret (Inr f) s
               | Inr None \<Rightarrow>
                   kbind (load32 (f_size_at dir) s) (\<lambda>size s.
                     kbind (store32 (f_size_at dir) (size + BLKSIZE) s) (\<lambda>_.
                       file_get_block dir nblock))))))"

definition skip_slash :: "8 word list \<Rightarrow> 8 word list" where
  "skip_slash p = dropWhile (\<lambda>c. c = 47) p"

text \<open>
  walk_path: the result, the directory and the file (None is NULL) and, when only the last element is
  missing, its name. The path is the list of its characters; each step consumes one element of it.
\<close>

record walk =
  w_res :: int
  w_dir :: "32 word option"
  w_file :: "32 word option"
  w_last :: "8 word list option"

function walk_loop :: "8 word list \<Rightarrow> 32 word option \<Rightarrow> 32 word \<Rightarrow> fs \<Rightarrow> (walk, fs) kres" where
  "walk_loop path dir f s =
     (if path = [] then Ret \<lparr>w_res = 0, w_dir = dir, w_file = Some f, w_last = None\<rparr> s
      else
        (let name = takeWhile (\<lambda>c. c \<noteq> 47) path
         in if length name \<ge> MAXNAMELEN
            then Ret \<lparr>w_res = - E_BAD_PATH, w_dir = None, w_file = None, w_last = None\<rparr> s
            else
              (let path' = skip_slash (dropWhile (\<lambda>c. c \<noteq> 47) path)
               in kbind (load32 (f_type_at f) s) (\<lambda>ty s.
                    if ty \<noteq> FTYPE_DIR
                    then Ret \<lparr>w_res = - E_NOT_FOUND, w_dir = None, w_file = None, w_last = None\<rparr> s
                    else kbind (dir_lookup f name s) (\<lambda>r s.
                      case r of
                        Inl r \<Rightarrow>
                          if r = - E_NOT_FOUND \<and> path' = []
                          then Ret \<lparr>w_res = r, w_dir = Some f, w_file = None, w_last = Some name\<rparr> s
                          else Ret \<lparr>w_res = r, w_dir = None, w_file = None, w_last = None\<rparr> s
                      | Inr f' \<Rightarrow> walk_loop path' (Some f) f' s)))))"
  by pat_completeness auto
termination
proof (relation "measure (\<lambda>(path, dir, f, s). length path)", goal_cases)
  case 1
  then show ?case by simp
next
  case (2 path dir f s name path' ty s' r s'' f')
  have "length (skip_slash (dropWhile (\<lambda>c. c \<noteq> 47) path)) < length path"
    if "path \<noteq> []" for path :: "8 word list"
  proof (cases path)
    case Nil
    then show ?thesis using that by simp
  next
    case (Cons c cs)
    have "length (dropWhile P xs) \<le> length xs" for P and xs :: "8 word list"
      by (rule length_dropWhile_le)
    then show ?thesis
      using Cons by (cases "c = 47")
        (auto simp: skip_slash_def intro: le_imp_less_Suc order_trans)
  qed
  then show ?case using 2 by simp
qed

declare walk_loop.simps [simp del]

definition walk_path :: "8 word list \<Rightarrow> fs \<Rightarrow> (walk, fs) kres" where
  "walk_path path s = walk_loop (skip_slash path) None s_root_at s"

definition file_open :: "8 word list \<Rightarrow> fs \<Rightarrow> (int + 32 word, fs) kres" where
  "file_open path s =
     kbind (walk_path path s) (\<lambda>w.
       Ret (if w_res w = 0 then Inr (the (w_file w)) else Inl (w_res w)))"

definition file_create :: "8 word list \<Rightarrow> fs \<Rightarrow> (int + 32 word, fs) kres" where
  "file_create path s =
     kbind (walk_path path s) (\<lambda>w s.
       if w_res w = 0 then Ret (Inl (- E_FILE_EXISTS)) s
       else if w_res w \<noteq> - E_NOT_FOUND \<or> w_dir w = None then Ret (Inl (w_res w)) s
       else (let dir = the (w_dir w)
             in kbind (dir_alloc_file dir s) (\<lambda>r s.
                  case r of
                    Inl r \<Rightarrow> Ret (Inl r) s
                  | Inr f \<Rightarrow>
                      kbind (store_bytes (the (w_last w) @ [0]) f s) (\<lambda>_ s.
                        kbind (file_flush dir s) (\<lambda>_. Ret (Inr f))))))"

end
