(* ===== verification/Fs_Base.thy ===== *)
theory Fs_Base
  imports Fs_Model
begin

text \<open>
  The block cache as a view of the disk: reading a word gives the cached word, or the disk's if the block
  is not in memory, and touching a block does not change the view.
\<close>

section \<open>Addresses in the disk region\<close>

definition at :: "nat \<Rightarrow> nat \<Rightarrow> 32 word" where
  "at b i = DISKMAP + of_nat (b * 4096 + i)"

lemma unat_at_off:
  assumes "b < 786432" "i < 4096"
  shows "unat (at b i - DISKMAP) = b * 4096 + i"
proof -
  have "b * 4096 + i < 2 ^ 32" using assms by simp
  then show ?thesis by (simp only: at_def add_diff_cancel_left' unat_of_nat_32)
qed

lemma unat_at:
  assumes "b < 786432" "i < 4096"
  shows "unat (at b i) = 268435456 + b * 4096 + i"
proof -
  have "at b i = of_nat (268435456 + b * 4096 + i)" by (simp add: at_def DISKMAP_def)
  moreover have "268435456 + b * 4096 + i < 2 ^ 32" using assms by simp
  ultimately show ?thesis by (metis unat_of_nat_32)
qed

lemma blk_of_at [simp]: "b < 786432 \<Longrightarrow> i < 4096 \<Longrightarrow> blk_of (at b i) = b"
  by (simp add: blk_of_def unat_div unat_at_off BLKSIZE_def)

lemma unat_PGOFF_at: "b < 786432 \<Longrightarrow> i < 4096 \<Longrightarrow> unat (PGOFF (at b i)) = i"
proof -
  assume "b < 786432" "i < 4096"
  moreover have "(268435456 + b * 4096 + i) mod 4096 = i mod 4096"
  proof -
    have "268435456 + b * 4096 + i = i + (65536 + b) * 4096" by simp
    then show ?thesis by (simp only: mod_mult_self1)
  qed
  moreover have "unat (PGOFF w) = unat w mod 4096" for w
    unfolding PGOFF_alt unsigned_take_bit_eq by (simp add: take_bit_eq_mod)
  ultimately show ?thesis by (simp add: unat_at)
qed

lemma idx_of_at [simp]: "b < 786432 \<Longrightarrow> i < 4096 \<Longrightarrow> idx_of (at b i) = i div 4"
  by (simp add: idx_of_def unat_PGOFF_at)

lemma PGOFF_at [simp]: "b < 786432 \<Longrightarrow> i < 4096 \<Longrightarrow> PGOFF (at b i) = 0 \<longleftrightarrow> i = 0"
  by (metis unat_PGOFF_at unat_eq_zero)

lemma mod_4_at [simp]: "b < 786432 \<Longrightarrow> i < 4096 \<Longrightarrow> unat (at b i mod 4) = i mod 4"
proof -
  assume a: "b < 786432" "i < 4096"
  have "268435456 + b * 4096 + i = i + (67108864 + b * 1024) * 4" by simp
  then have "(268435456 + b * 4096 + i) mod 4 = i mod 4" by (simp only: mod_mult_self1)
  then show ?thesis by (simp only: unat_mod unat_at [OF a]) simp
qed

lemma at_range [simp]:
  assumes "b < 786432" "i < 4096"
  shows "\<not> at b i < DISKMAP" "\<not> DISKMAP + DISKSIZE \<le> at b i"
proof -
  have d: "unat DISKMAP = 268435456" "unat (DISKMAP + DISKSIZE) = 3489660928"
    by (simp_all add: DISKMAP_def DISKSIZE_def)
  show "\<not> at b i < DISKMAP" "\<not> DISKMAP + DISKSIZE \<le> at b i"
    unfolding word_less_nat_alt word_le_nat_alt d unat_at [OF assms] using assms by simp_all
qed

lemma at_add: "at b i + of_nat j = at b (i + j)"
  by (simp add: at_def)

lemma at_numeral [simp]: "at b i + numeral k = at b (i + numeral k)" "at b i + 1 = at b (Suc i)"
  using at_add [of b i "numeral k"] at_add [of b i 1] by (simp_all only: of_nat_numeral of_nat_1 Suc_eq_plus1)

lemma layout_at:
  "SUPER = at (Suc 0) 0" "s_nblocks_at = at (Suc 0) 4" "s_root_at = at (Suc 0) 8" "BITMAP = at 2 0"
  by (simp_all add: at_def layout_defs)

lemma bitmap_at: "b < 2 ^ 32 \<Longrightarrow> BITMAP + 4 * (of_nat b div 32) = at (2 + b div 32768) (4 * (b div 32 mod 1024))"
proof -
  assume b: "b < 2 ^ 32"
  have "of_nat b div (32 :: 32 word) = of_nat (b div 32)"
    using b by (simp add: word_unat_eq_iff unat_div unat_of_nat_32)
  moreover have "(2 + b div 32768) * 4096 + 4 * (b div 32 mod 1024) = 2 * 4096 + 4 * (b div 32)"
  proof -
    have "(2 + x) * 4096 + 4 * y = 2 * 4096 + 4 * z" if "z = x * 1024 + y" for x y z :: nat
      using that by simp
    moreover have "b div 32 = b div 32768 * 1024 + b div 32 mod 1024"
      using div_mult_mod_eq [of "b div 32" 1024] by (simp add: div_mult2_eq [symmetric])
    ultimately show ?thesis by blast
  qed
  ultimately have "at (2 + b div 32768) (4 * (b div 32 mod 1024)) = DISKMAP + of_nat (2 * 4096 + 4 * (b div 32))"
    and "of_nat b div (32 :: 32 word) = of_nat (b div 32)"
    by (simp_all only: at_def)
  then show ?thesis by (simp add: layout_defs)
qed

section \<open>The view and the well-formed states\<close>

definition view :: "fs \<Rightarrow> nat \<Rightarrow> nat \<Rightarrow> 32 word" where
  "view s b = (case bcache s b of None \<Rightarrow> disk s b | Some c \<Rightarrow> c)"

definition cached :: "fs \<Rightarrow> nat \<Rightarrow> bool" where
  "cached s b \<longleftrightarrow> bcache s b \<noteq> None"

definition nblk :: "fs \<Rightarrow> nat" where
  "nblk s = unat (view s (Suc 0) (Suc 0))"

definition free_bit :: "fs \<Rightarrow> nat \<Rightarrow> bool" where
  "free_bit s b \<longleftrightarrow> bit (view s (2 + b div 32768) (b div 32 mod 1024)) (b mod 32)"

text \<open>The first block after the bitmap.\<close>

definition data_start :: "fs \<Rightarrow> nat" where
  "data_start s = 2 + (nblk s + 32767) div 32768"

text \<open>
  The states after fs_init as long as the devices work: super block and bitmap are in memory, they and the zero block
  are marked in use, and the size of the disk is such that the bound of alloc_block does not wrap. The page tables exist, as
  they do for the disks of at most 1024 blocks that fsformat builds.
\<close>

definition fs_ok :: "fs \<Rightarrow> bool" where
  "fs_ok s \<longleftrightarrow>
     super_on s \<and> bitmap_on s \<and> data_start s < nblk s \<and> nblk s < 131072 \<and>
     (\<forall>b. 1 \<le> b \<and> b < data_start s \<longrightarrow> cached s b) \<and>
     (\<forall>b < data_start s. \<not> free_bit s b) \<and>
     (\<forall>b < nblk s. btables s (b div 1024) \<and> \<not> no_page s b \<and> \<not> bad_block s b)"

lemma data_start_gt: "0 < nblk s \<Longrightarrow> 2 < data_start s"
proof -
  assume "0 < nblk s"
  then have "32768 div 32768 \<le> (nblk s + 32767) div 32768" by (intro div_le_mono) simp
  then show ?thesis by (simp add: data_start_def)
qed

lemma fs_ok_bounds:
  assumes "fs_ok s"
  shows "2 < data_start s" "data_start s < nblk s" "nblk s < 131072" "cached s (Suc 0)"
    and "b < nblk s \<Longrightarrow> 2 + b div 32768 < data_start s"
proof -
  have n: "data_start s < nblk s" using assms by (simp add: fs_ok_def)
  then show "2 < data_start s" using data_start_gt by simp
  show "data_start s < nblk s" "nblk s < 131072" using assms by (simp_all add: fs_ok_def)
  show "cached s (Suc 0)" using assms \<open>2 < data_start s\<close> by (simp add: fs_ok_def)
  show "b < nblk s \<Longrightarrow> 2 + b div 32768 < data_start s"
  proof -
    assume "b < nblk s"
    then have "b + 32768 \<le> nblk s + 32767" by simp
    then have "(b + 32768) div 32768 \<le> (nblk s + 32767) div 32768" by (rule div_le_mono)
    then show ?thesis by (simp add: data_start_def)
  qed
qed

lemma fs_ok_bitmap_cached: "fs_ok s \<Longrightarrow> b < nblk s \<Longrightarrow> cached s (2 + b div 32768)"
  using fs_ok_bounds(5) [of s b] by (simp add: fs_ok_def)

lemma view_cached: "cached s b \<Longrightarrow> bcache s b = Some (view s b)"
  by (auto simp: cached_def view_def)

lemma peek_view: "cached s b \<Longrightarrow> b < 786432 \<Longrightarrow> i < 4096 \<Longrightarrow> peek s (at b i) = view s b (i div 4)"
  by (simp add: peek_def view_cached)

section \<open>Touching a block\<close>

definition fetch :: "nat \<Rightarrow> fs \<Rightarrow> fs" where
  "fetch b s = (if cached s b then s else read_in b s)"

lemma fetch_view [simp]: "view (fetch b s) = view s"
  by (auto simp: fetch_def read_in_def view_def cached_def fun_eq_iff split: option.split)

lemma fetch_cached [simp]: "cached (fetch b s) c \<longleftrightarrow> c = b \<or> cached s c"
  by (auto simp: fetch_def read_in_def cached_def)

lemma fetch_sel [simp]:
  "super_on (fetch b s) = super_on s" "bitmap_on (fetch b s) = bitmap_on s" "nblk (fetch b s) = nblk s"
  "data_start (fetch b s) = data_start s" "free_bit (fetch b s) = free_bit s" "disk (fetch b s) = disk s"
  "no_page (fetch b s) = no_page s" "bad_block (fetch b s) = bad_block s" "warnings (fetch b s) = warnings s"
proof -
  show "nblk (fetch b s) = nblk s" by (simp add: nblk_def)
  then show "data_start (fetch b s) = data_start s" by (simp add: data_start_def)
  show "free_bit (fetch b s) = free_bit s" by (simp add: fun_eq_iff free_bit_def)
qed (simp_all add: fetch_def read_in_def)

lemma fetch_tables [simp]: "btables s c \<Longrightarrow> btables (fetch b s) c"
  by (simp add: fetch_def read_in_def)

lemma fetch_same [simp]: "cached s b \<Longrightarrow> fetch b s = s"
  by (simp add: fetch_def)

lemma fs_ok_fetch [simp]: "fs_ok s \<Longrightarrow> fs_ok (fetch b s)"
  by (simp add: fs_ok_def)

lemma bc_touch_cached: "cached s b \<Longrightarrow> b < 786432 \<Longrightarrow> i < 4096 \<Longrightarrow> bc_touch n (at b i) s = Ret () s"
  by (cases n) (simp_all add: cached_def)

lemma block_is_free_by_ok:
  assumes "fs_ok s" "b < 2 ^ 32"
  shows "block_is_free_by (bc_touch n) (of_nat b) s = Ret (b < nblk s \<and> free_bit s b) s"
proof -
  note bnd = fs_ok_bounds [OF assms(1)]
  have c1: "bc_touch n s_nblocks_at s = Ret () s" and p1: "peek s s_nblocks_at = view s (Suc 0) (Suc 0)"
    using bnd(4) by (simp_all add: layout_at bc_touch_cached peek_view)
  have le: "view s (Suc 0) (Suc 0) \<le> of_nat b \<longleftrightarrow> nblk s \<le> b"
    using assms(2) by (simp add: word_le_nat_alt nblk_def unat_of_nat_32)
  show ?thesis
  proof (cases "b < nblk s")
    case False
    then show ?thesis using assms(1) by (simp add: block_is_free_by_def fs_ok_def c1 p1 le)
  next
    case True
    have lt: "2 + b div 32768 < 786432" using bnd(3,5) True bnd(2) by fastforce
    have c: "cached s (2 + b div 32768)" by (rule fs_ok_bitmap_cached [OF assms(1) True])
    have m: "unat ((of_nat b :: 32 word) mod 32) = b mod 32"
      using assms(2) by (simp add: unat_mod unat_of_nat_32)
    have i: "4 * (b div 32 mod 1024) < 4096" by simp
    have "bc_touch n (BITMAP + 4 * (of_nat b div 32)) s = Ret () s"
      and "peek s (BITMAP + 4 * (of_nat b div 32)) = view s (2 + b div 32768) (b div 32 mod 1024)"
      unfolding bitmap_at [OF assms(2)] using bc_touch_cached [OF c lt i] peek_view [OF c lt i] by simp_all
    moreover have "w AND push_bit k 1 \<noteq> 0 \<longleftrightarrow> bit w k" if "k < 32" for w :: "32 word" and k
      by (simp add: bit_iff_and_push_bit_not_eq_0)
    ultimately show ?thesis
      using True assms(1) by (simp add: block_is_free_by_def fs_ok_def c1 p1 le free_bit_def m)
  qed
qed

text \<open>A block that may be touched at an offset: in memory, or in use and touched at its start.\<close>

definition ready :: "fs \<Rightarrow> nat \<Rightarrow> nat \<Rightarrow> bool" where
  "ready s b i \<longleftrightarrow> b < nblk s \<and> i < 4096 \<and> (cached s b \<or> i = 0 \<and> \<not> free_bit s b)"

lemma touch_ok:
  assumes "fs_ok s" "ready s b i"
  shows "touch (at b i) s = Ret () (fetch b s)"
proof -
  note bnd = fs_ok_bounds [OF assms(1)]
  have b: "b < 786432" "i < 4096" "b < nblk s" using assms bnd(3) by (simp_all add: ready_def)
  show ?thesis
  proof (cases "cached s b")
    case True
    then show ?thesis using b by (simp add: touch_def bc_touch_cached)
  next
    case False
    then have i: "i = 0" "\<not> free_bit s b" and n: "bcache s b = None"
      using assms(2) by (simp_all add: ready_def cached_def)
    have c1: "bc_touch k s_nblocks_at s = Ret () s" for k
      using bnd(4) by (simp add: layout_at bc_touch_cached)
    have p1: "peek s s_nblocks_at = view s (Suc 0) (Suc 0)"
      using bnd(4) by (simp add: layout_at peek_view)
    have le: "\<not> view s (Suc 0) (Suc 0) \<le> of_nat b"
      using b(1,3) by (simp add: word_le_nat_alt nblk_def unat_of_nat_32)
    have f: "fetch b s = read_in b s" using False by (simp add: fetch_def)
    have free: "block_is_free_by (bc_touch k) (of_nat b) (read_in b s) = Ret False (read_in b s)" for k
      using block_is_free_by_ok [OF fs_ok_fetch [OF assms(1), of b], of b k] b(1) i(2)
      by (simp add: f [symmetric])
    have env: "super_on s" "bitmap_on (read_in b s)" "\<not> no_page s b" "\<not> bad_block s b"
      using assms(1) b(3) by (simp_all add: fs_ok_def read_in_def)
    have B: "touch = bc_touch (Suc 2)" by (simp add: touch_def BC_DEPTH_def)
    show ?thesis
      unfolding B bc_touch.simps(2)
      using b n i(1) env by (simp add: c1 p1 le free f Let_def)
  qed
qed

section \<open>Loads and stores\<close>

lemma load32_ok:
  assumes "fs_ok s" "ready s b i"
  shows "load32 (at b i) s = Ret (view s b (i div 4)) (fetch b s)"
proof -
  have "b < 786432" "i < 4096" using assms fs_ok_bounds(3) [OF assms(1)] by (simp_all add: ready_def)
  then show ?thesis by (simp add: load32_def touch_ok [OF assms] peek_view)
qed

definition put :: "nat \<Rightarrow> nat \<Rightarrow> 32 word \<Rightarrow> fs \<Rightarrow> fs" where
  "put b k w s = poke (at b (4 * k)) w s"

lemma poke_put: "b < 786432 \<Longrightarrow> i < 4096 \<Longrightarrow> poke (at b i) w s = put b (i div 4) w s"
  by (simp add: put_def poke_def)

lemma put_sel [simp]:
  assumes "cached s b" "b < 786432" "k < 1024"
  shows "view (put b k w s) = (view s)(b := (view s b)(k := w))"
    and "cached (put b k w s) = cached s"
    and "bcache (put b k w s) c = None \<longleftrightarrow> bcache s c = None"
proof -
  obtain f where f: "bcache s b = Some f" using assms(1) by (auto simp: cached_def)
  show "bcache (put b k w s) c = None \<longleftrightarrow> bcache s c = None" for c
    using assms(2,3) f by (simp add: put_def poke_def)
  then show "cached (put b k w s) = cached s" by (simp add: cached_def fun_eq_iff)
  show "view (put b k w s) = (view s)(b := (view s b)(k := w))"
  proof
    fix c
    show "view (put b k w s) c = ((view s)(b := (view s b)(k := w))) c"
      using assms(2,3) f by (simp add: put_def poke_def view_def split: option.split)
  qed
qed

lemma put_env [simp]:
  "super_on (put b k w s) = super_on s" "bitmap_on (put b k w s) = bitmap_on s"
  "btables (put b k w s) = btables s" "disk (put b k w s) = disk s" "no_page (put b k w s) = no_page s"
  "bad_block (put b k w s) = bad_block s" "warnings (put b k w s) = warnings s"
  by (simp_all add: put_def poke_def)

lemma store32_ok:
  assumes "fs_ok s" "ready s b i"
  shows "store32 (at b i) w s = Ret () (put b (i div 4) w (fetch b s))"
proof -
  have "b < 786432" "i < 4096" using assms fs_ok_bounds(3) [OF assms(1)] by (simp_all add: ready_def)
  then show ?thesis by (simp add: store32_def touch_ok [OF assms] poke_put)
qed

text \<open>The bytes of a block, and the words the byte operations leave.\<close>

definition vbyte :: "fs \<Rightarrow> nat \<Rightarrow> nat \<Rightarrow> 8 word" where
  "vbyte s b i = get_byte (i mod 4) (view s b (i div 4))"

definition put8 :: "nat \<Rightarrow> nat \<Rightarrow> 8 word \<Rightarrow> fs \<Rightarrow> fs" where
  "put8 b i x s = put b (i div 4) (set_byte (i mod 4) x (view s b (i div 4))) s"

lemma load8_ok:
  assumes "fs_ok s" "ready s b i"
  shows "load8 (at b i) s = Ret (vbyte s b i) (fetch b s)"
proof -
  have "b < 786432" "i < 4096" using assms fs_ok_bounds(3) [OF assms(1)] by (simp_all add: ready_def)
  then show ?thesis by (simp add: load8_def touch_ok [OF assms] peek_view vbyte_def)
qed

lemma store8_ok:
  assumes "fs_ok s" "ready s b i"
  shows "store8 (at b i) x s = Ret () (put8 b i x (fetch b s))"
proof -
  have "b < 786432" "i < 4096" using assms fs_ok_bounds(3) [OF assms(1)] by (simp_all add: ready_def)
  then show ?thesis by (simp add: store8_def touch_ok [OF assms] peek_view poke_put put8_def)
qed

lemma word_index_eq: "(i :: nat) = j \<longleftrightarrow> i div 4 = j div 4 \<and> i mod 4 = j mod 4"
  by (metis div_mult_mod_eq)

lemma put8_sel [simp]:
  assumes "cached s b" "b < 786432" "i < 4096"
  shows "vbyte (put8 b i x s) c j = (if c = b \<and> j = i then x else vbyte s c j)"
    and "cached (put8 b i x s) = cached s"
    and "c \<noteq> b \<Longrightarrow> view (put8 b i x s) c = view s c"
proof -
  have k: "i div 4 < 1024" using assms(3) by simp
  show "cached (put8 b i x s) = cached s" using put_sel(2) [OF assms(1,2) k] by (simp add: put8_def)
  show "c \<noteq> b \<Longrightarrow> view (put8 b i x s) c = view s c" using put_sel(1) [OF assms(1,2) k] by (simp add: put8_def)
  show "vbyte (put8 b i x s) c j = (if c = b \<and> j = i then x else vbyte s c j)"
    using put_sel(1) [OF assms(1,2) k] word_index_eq [of j i]
    by (auto simp: put8_def vbyte_def get_set_byte)
qed

lemma put8_env [simp]:
  "super_on (put8 b i x s) = super_on s" "bitmap_on (put8 b i x s) = bitmap_on s"
  "btables (put8 b i x s) = btables s" "disk (put8 b i x s) = disk s" "no_page (put8 b i x s) = no_page s"
  "bad_block (put8 b i x s) = bad_block s" "warnings (put8 b i x s) = warnings s"
  by (simp_all add: put8_def)

text \<open>
  What later states must keep: the devices, and at least the blocks in memory. Writing outside of the super block's size and
  the bitmap keeps a state well formed.
\<close>

definition same_env :: "fs \<Rightarrow> fs \<Rightarrow> bool" where
  "same_env s t \<longleftrightarrow>
     super_on t = super_on s \<and> bitmap_on t = bitmap_on s \<and> no_page t = no_page s \<and> bad_block t = bad_block s \<and>
     (\<forall>c. btables s c \<longrightarrow> btables t c) \<and> (\<forall>b. cached s b \<longrightarrow> cached t b)"

lemma same_env_refl [simp]: "same_env s s"
  by (simp add: same_env_def)

lemma same_env_trans: "same_env s t \<Longrightarrow> same_env t u \<Longrightarrow> same_env s u"
  by (simp add: same_env_def)

lemma same_env_fetch [simp]: "same_env s (fetch b s)"
  by (simp add: same_env_def)

lemma same_env_put [simp]: "cached s b \<Longrightarrow> b < 786432 \<Longrightarrow> k < 1024 \<Longrightarrow> same_env s (put b k w s)"
  by (simp add: same_env_def)

lemma same_env_put8 [simp]: "cached s b \<Longrightarrow> b < 786432 \<Longrightarrow> i < 4096 \<Longrightarrow> same_env s (put8 b i w s)"
  by (simp add: same_env_def)

text \<open>The data blocks: behind the bitmap, in the disk and in use.\<close>

definition data_block :: "fs \<Rightarrow> nat \<Rightarrow> bool" where
  "data_block s b \<longleftrightarrow> data_start s \<le> b \<and> b < nblk s \<and> \<not> free_bit s b"

lemma metadata_same:
  assumes "fs_ok s" "view t (Suc 0) (Suc 0) = view s (Suc 0) (Suc 0)"
    and "\<And>b. 2 \<le> b \<Longrightarrow> b < data_start s \<Longrightarrow> view t b = view s b"
  shows "nblk t = nblk s" "data_start t = data_start s" "b < nblk s \<Longrightarrow> free_bit t b = free_bit s b"
proof -
  show n: "nblk t = nblk s" using assms(2) by (simp add: nblk_def)
  then show "data_start t = data_start s" by (simp add: data_start_def)
  show "b < nblk s \<Longrightarrow> free_bit t b = free_bit s b"
    using fs_ok_bounds(5) [OF assms(1)] assms(3) by (simp add: free_bit_def)
qed

lemma fs_ok_same:
  assumes "fs_ok s" "same_env s t" "view t (Suc 0) (Suc 0) = view s (Suc 0) (Suc 0)"
    and "\<And>b. 2 \<le> b \<Longrightarrow> b < data_start s \<Longrightarrow> view t b = view s b"
  shows "fs_ok t"
proof -
  note m = metadata_same [OF assms(1,3,4)]
  have "data_start s < nblk s" by (rule fs_ok_bounds(2) [OF assms(1)])
  then show ?thesis
    using assms(1,2) m by (auto simp: fs_ok_def same_env_def)
qed

lemma data_block_bounds:
  assumes "fs_ok s" "data_block s b"
  shows "b < 786432" "2 < b" "b \<noteq> 0" "b \<noteq> Suc 0" "b < nblk s"
  using fs_ok_bounds(1,3) [OF assms(1)] assms(2) by (simp_all add: data_block_def)

end
