(* ===== verification/Fs_Bitmap.thy ===== *)
theory Fs_Bitmap
  imports Fs_Base
begin

text \<open>
  The block allocator: what diskaddr, flush_block, alloc_block and free_block do in a well-formed state.
\<close>

lemma diskaddr_ok:
  assumes "fs_ok s" "b < 2 ^ 32"
  shows "diskaddr (of_nat b) s =
    (if 0 < b \<and> b < nblk s then Ret (at b 0) s else Exit (Panicked ''bad block number in diskaddr'') s)"
proof -
  note bnd = fs_ok_bounds [OF assms(1)]
  have l: "load32 s_nblocks_at s = Ret (view s (Suc 0) (Suc 0)) s"
    using load32_ok [OF assms(1), of "Suc 0" 4] bnd(1,2,4) by (simp add: layout_at ready_def)
  have le: "view s (Suc 0) (Suc 0) \<le> of_nat b \<longleftrightarrow> nblk s \<le> b"
    using assms(2) by (simp add: word_le_nat_alt nblk_def unat_of_nat_32)
  have z: "(of_nat b :: 32 word) = 0 \<longleftrightarrow> b = 0"
    unfolding word_unat_eq_iff using assms(2) by (simp add: unat_of_nat_32)
  have a: "DISKMAP + of_nat b * BLKSIZE = at b 0" by (simp add: at_def BLKSIZE_def)
  have on: "super_on s" using assms(1) by (simp add: fs_ok_def)
  show ?thesis
    by (cases "b = 0") (auto simp: diskaddr_def l le z a on)
qed

lemma diskaddr_unat:
  assumes "fs_ok s"
  shows "diskaddr w s =
    (if 0 < unat w \<and> unat w < nblk s then Ret (at (unat w) 0) s
     else Exit (Panicked ''bad block number in diskaddr'') s)"
  using diskaddr_ok [OF assms, of "unat w"] unat_32_less [of w] by simp

lemma free_bit_start: "fs_ok s \<Longrightarrow> free_bit s b \<Longrightarrow> data_start s \<le> b"
  by (rule ccontr) (simp add: fs_ok_def)

section \<open>Flushing\<close>

definition flushed :: "nat \<Rightarrow> fs \<Rightarrow> fs" where
  "flushed b s = (if cached s b \<and> bdirty s b
     then s\<lparr>disk := (disk s)(b := view s b), bdirty := (bdirty s)(b := False)\<rparr> else s)"

lemma flushed_sel [simp]:
  "view (flushed b s) = view s" "cached (flushed b s) = cached s" "super_on (flushed b s) = super_on s"
  "bitmap_on (flushed b s) = bitmap_on s" "btables (flushed b s) = btables s" "no_page (flushed b s) = no_page s"
  "bad_block (flushed b s) = bad_block s" "warnings (flushed b s) = warnings s"
proof -
  show "view (flushed b s) = view s"
    by (rule ext) (auto simp: flushed_def view_def cached_def split: option.split)
  show "cached (flushed b s) = cached s" by (rule ext) (simp add: flushed_def cached_def)
qed (simp_all add: flushed_def)

lemma same_env_flushed [simp]: "same_env s (flushed b s)"
  by (simp add: same_env_def)

lemma fs_ok_flushed [simp]: "fs_ok s \<Longrightarrow> fs_ok (flushed b s)"
  by (rule fs_ok_same) simp_all

lemma flush_block_ok:
  assumes "fs_ok s" "b < nblk s" "i < 4096"
  shows "flush_block (at b i) s = Ret () (flushed b s)"
proof -
  have b: "b < 786432" using fs_ok_bounds(3) [OF assms(1)] assms(2) by simp
  have r: "ROUNDDOWN (at b i) BLKSIZE = at b 0"
  proof -
    have "at b i mod 4096 = PGOFF (at b i)"
      by (simp add: word_unat_eq_iff PGOFF_alt unsigned_take_bit_eq take_bit_eq_mod unat_mod)
    then have "at b i mod 4096 = of_nat i"
      using unat_PGOFF_at [OF b assms(3)] assms(3) by (simp add: word_unat_eq_iff unat_of_nat_32)
    then show ?thesis by (simp add: ROUNDDOWN_def BLKSIZE_def at_def)
  qed
  have env: "btables s (b div 1024)" "\<not> bad_block s b" using assms(1,2) by (simp_all add: fs_ok_def)
  show ?thesis
    using b assms(3) env
    by (auto simp: flush_block_def Let_def r va_is_mapped_def va_is_dirty_def flushed_def cached_def view_def)
qed

section \<open>The bitmap\<close>

definition mark :: "nat \<Rightarrow> bool \<Rightarrow> fs \<Rightarrow> fs" where
  "mark b v s = (let w = view s (2 + b div 32768) (b div 32 mod 1024)
     in put (2 + b div 32768) (b div 32 mod 1024)
          (if v then w OR push_bit (b mod 32) 1 else w AND NOT (push_bit (b mod 32) 1)) s)"

lemma bit_pos:
  "c = b \<longleftrightarrow> c div 32768 = b div 32768 \<and> c div 32 mod 1024 = b div 32 mod 1024 \<and> c mod 32 = b mod (32 :: nat)"
proof -
  have "n = (n div 32768 * 1024 + n div 32 mod 1024) * 32 + n mod 32" for n :: nat
  proof -
    have "n div 32768 = n div 32 div 1024" by (simp add: div_mult2_eq [symmetric])
    then show ?thesis by (simp only: div_mult_mod_eq)
  qed
  then show ?thesis by metis
qed

lemma mark_ok:
  assumes "fs_ok s" "b < nblk s"
  shows "same_env s (mark b v s)"
    and "nblk (mark b v s) = nblk s" "data_start (mark b v s) = data_start s"
    and "free_bit (mark b v s) c = (if c = b then v else free_bit s c)"
    and "c = Suc 0 \<or> data_start s \<le> c \<Longrightarrow> view (mark b v s) c = view s c"
    and "cached (mark b v s) = cached s"
    and "data_start s \<le> b \<or> \<not> v \<Longrightarrow> fs_ok (mark b v s)"
proof -
  note bnd = fs_ok_bounds [OF assms(1)]
  have c: "cached s (2 + b div 32768)" by (rule fs_ok_bitmap_cached [OF assms])
  have d: "2 + b div 32768 < data_start s" by (rule bnd(5) [OF assms(2)])
  have lt: "2 + b div 32768 < 786432" "b div 32 mod 1024 < 1024" using d bnd(2,3) by simp_all
  note p = put_sel [OF c lt]
  show env: "same_env s (mark b v s)" using same_env_put [OF c lt] by (simp add: mark_def Let_def)
  have vw: "view (mark b v s) c = view s c" if "c \<noteq> 2 + b div 32768" for c
    using that p(1) by (simp add: mark_def Let_def)
  show n: "nblk (mark b v s) = nblk s" using vw [of "Suc 0"] by (simp add: nblk_def)
  then show ds: "data_start (mark b v s) = data_start s" by (simp add: data_start_def)
  show fb: "free_bit (mark b v s) c = (if c = b then v else free_bit s c)" for c
  proof (cases "c div 32768 = b div 32768 \<and> c div 32 mod 1024 = b div 32 mod 1024")
    case True
    then show ?thesis using p(1) bit_pos [of c b]
      by (auto simp: free_bit_def mark_def Let_def bit_simps)
  next
    case False
    then have "view (mark b v s) (2 + c div 32768) (c div 32 mod 1024) = view s (2 + c div 32768) (c div 32 mod 1024)"
      using p(1) by (auto simp: mark_def Let_def)
    then show ?thesis using False bit_pos [of c b] by (auto simp: free_bit_def)
  qed
  show "c = Suc 0 \<or> data_start s \<le> c \<Longrightarrow> view (mark b v s) c = view s c" for c
    using vw [of c] d by auto
  show "cached (mark b v s) = cached s" using p(2) by (simp add: mark_def Let_def)
  show "fs_ok (mark b v s)" if "data_start s \<le> b \<or> \<not> v"
    using assms(1) env that by (auto simp: fs_ok_def same_env_def n ds fb)
qed

lemma block_is_free_ok:
  "fs_ok s \<Longrightarrow> b < 2 ^ 32 \<Longrightarrow> block_is_free (of_nat b) s = Ret (b < nblk s \<and> free_bit s b) s"
  by (simp add: block_is_free_def touch_def block_is_free_by_ok)

lemma bitmap_ready:
  assumes "fs_ok s" "b < nblk s"
  shows "ready s (2 + b div 32768) (4 * (b div 32 mod 1024))"
proof -
  have "2 + b div 32768 < nblk s" using fs_ok_bounds(2,5) [OF assms(1)] assms(2) by fastforce
  moreover have "4 * (b div 32 mod 1024) < 4096" by simp
  ultimately show ?thesis using fs_ok_bitmap_cached [OF assms] by (simp add: ready_def)
qed

lemma unat_of_nat_mod_32: "b < 2 ^ 32 \<Longrightarrow> unat ((of_nat b :: 32 word) mod 32) = b mod 32"
  by (simp add: unat_mod unat_of_nat_32)

lemma free_block_ok:
  assumes "fs_ok s" "0 < b" "b < nblk s"
  shows "free_block (of_nat b) s = Ret () (mark b True s)"
proof -
  have b: "b < 2 ^ 32" using fs_ok_bounds(3) [OF assms(1)] assms(3) by simp
  have nz: "(of_nat b :: 32 word) \<noteq> 0" using b assms(2) by (metis of_nat_0 unat_of_nat_32 unat_0 less_irrefl)
  have c: "fetch (2 + b div 32768) s = s"
    by (rule fetch_same) (rule fs_ok_bitmap_cached [OF assms(1,3)])
  show ?thesis
    using load32_ok [OF assms(1) bitmap_ready [OF assms(1,3)]] store32_ok [OF assms(1) bitmap_ready [OF assms(1,3)]] nz c
    by (simp add: free_block_def bitmap_at [OF b] mark_def unat_of_nat_mod_32 [OF b])
qed

section \<open>Allocation\<close>

definition allocated :: "nat \<Rightarrow> fs \<Rightarrow> fs" where
  "allocated b s = flushed b (mark b False s)"

lemma alloc_loop_none:
  assumes "fs_ok s" "\<And>b. k \<le> b \<Longrightarrow> b < nblk s \<Longrightarrow> \<not> free_bit s b"
    and "k \<le> nblk s * 32768" "nblk s * 32768 - k \<le> fuel"
  shows "alloc_loop fuel (of_nat k) s = Ret (word_of_int (- E_NO_DISK)) s"
  using assms(2-4)
proof (induction fuel arbitrary: k)
  case (0 k)
  note bnd = fs_ok_bounds [OF assms(1)]
  have l: "load32 s_nblocks_at s = Ret (view s (Suc 0) (Suc 0)) s"
    using load32_ok [OF assms(1), of "Suc 0" 4] bnd(1,2,4) by (simp add: layout_at ready_def)
  have "view s (Suc 0) (Suc 0) * BLKBITSIZE = of_nat (nblk s * 32768)"
    by (simp add: nblk_def BLKBITSIZE_def)
  moreover have "k = nblk s * 32768" using 0 by simp
  ultimately show ?case by (subst alloc_loop.simps) (simp add: l)
next
  case (Suc fuel k)
  note bnd = fs_ok_bounds [OF assms(1)]
  have l: "load32 s_nblocks_at s = Ret (view s (Suc 0) (Suc 0)) s"
    using load32_ok [OF assms(1), of "Suc 0" 4] bnd(1,2,4) by (simp add: layout_at ready_def)
  have n: "view s (Suc 0) (Suc 0) * BLKBITSIZE = of_nat (nblk s * 32768)"
    by (simp add: nblk_def BLKBITSIZE_def)
  show ?case
  proof (cases "k = nblk s * 32768")
    case True
    then show ?thesis unfolding True by (subst alloc_loop.simps) (simp add: l n)
  next
    case False
    then have k: "k < nblk s * 32768" using Suc.prems by simp
    then have k32: "k < 2 ^ 32" "nblk s * 32768 < 2 ^ 32" using bnd(3) by simp_all
    then have ne: "(of_nat k :: 32 word) \<noteq> of_nat (nblk s * 32768)" using False by (metis unat_of_nat_32)
    have "alloc_loop fuel (of_nat (Suc k)) s = Ret (word_of_int (- E_NO_DISK)) s"
      using k Suc.prems by (intro Suc.IH) auto
    moreover have "block_is_free (of_nat k) s = Ret False s"
      using block_is_free_ok [OF assms(1) k32(1)] Suc.prems(1) [of k] by simp
    ultimately show ?thesis using ne
      by (subst alloc_loop.simps) (simp add: l n add.commute)
  qed
qed

lemma alloc_loop_some:
  assumes "fs_ok s" "k \<le> b" "b < nblk s" "free_bit s b" "\<And>c. k \<le> c \<Longrightarrow> c < b \<Longrightarrow> \<not> free_bit s c"
    and "b - k < fuel"
  shows "alloc_loop fuel (of_nat k) s = Ret (of_nat b) (allocated b s)"
  using assms(2,5,6)
proof (induction fuel arbitrary: k)
  case 0
  then show ?case by simp
next
  case (Suc fuel k)
  note bnd = fs_ok_bounds [OF assms(1)]
  have l: "load32 s_nblocks_at s = Ret (view s (Suc 0) (Suc 0)) s"
    using load32_ok [OF assms(1), of "Suc 0" 4] bnd(1,2,4) by (simp add: layout_at ready_def)
  have n: "view s (Suc 0) (Suc 0) * BLKBITSIZE = of_nat (nblk s * 32768)"
    by (simp add: nblk_def BLKBITSIZE_def)
  have k32: "k < 2 ^ 32" "nblk s * 32768 < 2 ^ 32" "k < nblk s * 32768" using bnd(3) Suc.prems assms(3) by simp_all
  then have ne: "(of_nat k :: 32 word) \<noteq> of_nat (nblk s * 32768)" by (metis unat_of_nat_32 less_irrefl)
  show ?case
  proof (cases "k = b")
    case True
    have ds: "data_start s \<le> b" "0 < b" using free_bit_start [OF assms(1,4)] bnd(1) by simp_all
    have nz: "(of_nat b :: 32 word) \<noteq> 0" using k32(1) True ds(2)
      by (metis of_nat_0 unat_of_nat_32 unat_0 less_irrefl)
    have c: "fetch (2 + b div 32768) s = s"
      by (rule fetch_same) (rule fs_ok_bitmap_cached [OF assms(1,3)])
    note r = bitmap_ready [OF assms(1,3)]
    have b32: "b < 2 ^ 32" using k32(1) True by simp
    note mk = mark_ok [OF assms(1,3), where v = False]
    have fk: "fs_ok (mark b False s)" using mk(7) by simp
    have st: "store32 (BITMAP + 4 * (of_nat b div 32))
        (view s (2 + b div 32768) (b div 32 mod 1024) AND NOT (push_bit (b mod 32) 1)) s = Ret () (mark b False s)"
      using store32_ok [OF assms(1) r] c by (simp add: bitmap_at [OF b32] mark_def)
    have ld: "load32 (BITMAP + 4 * (of_nat b div 32)) s = Ret (view s (2 + b div 32768) (b div 32 mod 1024)) s"
      using load32_ok [OF assms(1) r] c by (simp add: bitmap_at [OF b32])
    have da: "diskaddr (of_nat b) (mark b False s) = Ret (at b 0) (mark b False s)"
      using diskaddr_ok [OF fk b32] ds(2) assms(3) mk(2) by simp
    have fl: "flush_block (at b 0) (mark b False s) = Ret () (allocated b s)"
      using flush_block_ok [OF fk, of b 0] assms(3) mk(2) by (simp add: allocated_def)
    have fr: "block_is_free (of_nat b) s = Ret True s"
      using block_is_free_ok [OF assms(1) b32] assms(3,4) by simp
    show ?thesis
      using ne nz unfolding True
      by (subst alloc_loop.simps) (simp add: l n fr unat_of_nat_mod_32 [OF b32] ld st [simplified] da fl)
  next
    case False
    have "alloc_loop fuel (of_nat (Suc k)) s = Ret (of_nat b) (allocated b s)"
      using False Suc.prems by (intro Suc.IH) auto
    moreover have "block_is_free (of_nat k) s = Ret False s"
      using block_is_free_ok [OF assms(1) k32(1)] False Suc.prems by simp
    ultimately show ?thesis using ne
      by (subst alloc_loop.simps) (simp add: l n add.commute)
  qed
qed

definition free_set :: "fs \<Rightarrow> nat set" where
  "free_set s = {b. b < nblk s \<and> free_bit s b}"

lemma finite_free_set [simp]: "finite (free_set s)"
  by (simp add: free_set_def)

lemma alloc_block_none: "fs_ok s \<Longrightarrow> free_set s = {} \<Longrightarrow> alloc_block s = Ret (word_of_int (- E_NO_DISK)) s"
  using alloc_loop_none [of s 0 "2 ^ 32"] fs_ok_bounds(3) [of s]
  by (auto simp: alloc_block_def free_set_def)

lemma alloc_block_some:
  assumes "fs_ok s" "free_set s \<noteq> {}"
  shows "alloc_block s = Ret (of_nat (Min (free_set s))) (allocated (Min (free_set s)) s)"
proof -
  let ?b = "Min (free_set s)"
  have b: "?b < nblk s" "free_bit s ?b" using Min_in [OF finite_free_set assms(2)] by (simp_all add: free_set_def)
  have "\<not> free_bit s c" if "c < ?b" for c
  proof
    assume "free_bit s c"
    then have "c \<in> free_set s" using that b(1) by (simp add: free_set_def)
    then show False using Min_le [OF finite_free_set] that by fastforce
  qed
  then show ?thesis
    using alloc_loop_some [OF assms(1), of 0 ?b "2 ^ 32"] b fs_ok_bounds(3) [OF assms(1)] by (simp add: alloc_block_def)
qed

lemma allocated_ok:
  assumes "fs_ok s" "b \<in> free_set s"
  shows "fs_ok (allocated b s)" "same_env s (allocated b s)" "nblk (allocated b s) = nblk s"
    "data_start (allocated b s) = data_start s" "free_set (allocated b s) = free_set s - {b}"
    "data_block (allocated b s) c \<longleftrightarrow> c = b \<or> data_block s c"
    "c = Suc 0 \<or> data_start s \<le> c \<Longrightarrow> view (allocated b s) c = view s c"
    "cached (allocated b s) = cached s" "\<not> data_block s b" "data_start s \<le> b" "b < nblk s"
proof -
  have b: "b < nblk s" "free_bit s b" using assms(2) by (simp_all add: free_set_def)
  note m = mark_ok [OF assms(1) b(1), where v = False]
  show d: "data_start s \<le> b" by (rule free_bit_start [OF assms(1) b(2)])
  have v: "view (allocated b s) = view (mark b False s)" by (simp add: allocated_def)
  have f: "free_bit (allocated b s) c = free_bit (mark b False s) c" for c by (simp add: free_bit_def v)
  show "fs_ok (allocated b s)" using m(7) by (simp add: allocated_def)
  show "same_env s (allocated b s)" unfolding allocated_def by (rule same_env_trans [OF m(1) same_env_flushed])
  show n: "nblk (allocated b s) = nblk s" using m(2) by (simp add: nblk_def v)
  show ds: "data_start (allocated b s) = data_start s" by (simp add: data_start_def n)
  show "free_set (allocated b s) = free_set s - {b}" by (auto simp: free_set_def n f m(4))
  show "data_block (allocated b s) c \<longleftrightarrow> c = b \<or> data_block s c"
    using b d by (auto simp: data_block_def n ds f m(4))
  show "c = Suc 0 \<or> data_start s \<le> c \<Longrightarrow> view (allocated b s) c = view s c" using m(5) by (simp add: v)
  show "cached (allocated b s) = cached s" using m(6) by (simp add: allocated_def)
  show "\<not> data_block s b" "b < nblk s" using b by (simp_all add: data_block_def)
qed

end
