(* ===== verification/Fs_File.thy ===== *)
theory Fs_File
  imports Fs_Bitmap
begin

text \<open>
  The blocks of one file. A struct File lies at offset fo of block fb; its well-formedness says that
  the blocks it names are in use, pairwise different and none of them the one that holds the structure.
\<close>

section \<open>Well-formed files\<close>

definition ind_no :: "fs \<Rightarrow> nat \<Rightarrow> nat \<Rightarrow> 32 word" where
  "ind_no s fb fo = view s fb (fo div 4 + 44)"

definition slot :: "fs \<Rightarrow> nat \<Rightarrow> nat \<Rightarrow> nat \<Rightarrow> 32 word" where
  "slot s fb fo n =
     (if n < 10 then view s fb (fo div 4 + 34 + n)
      else if ind_no s fb fo = 0 then 0 else view s (unat (ind_no s fb fo)) (n - 10))"

definition file_at :: "fs \<Rightarrow> nat \<Rightarrow> nat \<Rightarrow> bool" where
  "file_at s fb fo \<longleftrightarrow>
     fo mod 4 = 0 \<and> fo + 256 \<le> 4096 \<and> cached s fb \<and> (fb = Suc 0 \<and> 8 \<le> fo \<or> data_block s fb)"

definition file_ok :: "fs \<Rightarrow> nat \<Rightarrow> nat \<Rightarrow> bool" where
  "file_ok s fb fo \<longleftrightarrow>
     file_at s fb fo \<and>
     (ind_no s fb fo \<noteq> 0 \<longrightarrow>
        data_block s (unat (ind_no s fb fo)) \<and> unat (ind_no s fb fo) \<noteq> fb \<and> cached s (unat (ind_no s fb fo))) \<and>
     (\<forall>n < 1034. slot s fb fo n \<noteq> 0 \<longrightarrow>
        data_block s (unat (slot s fb fo n)) \<and> unat (slot s fb fo n) \<noteq> fb \<and> slot s fb fo n \<noteq> ind_no s fb fo) \<and>
     (\<forall>m < 1034. \<forall>n < 1034. slot s fb fo m = slot s fb fo n \<and> slot s fb fo m \<noteq> 0 \<longrightarrow> m = n)"

lemma file_ok_file_at: "file_ok s fb fo \<Longrightarrow> file_at s fb fo"
  by (simp add: file_ok_def)

lemma file_ok_ind:
  "file_ok s fb fo \<Longrightarrow> ind_no s fb fo \<noteq> 0 \<Longrightarrow>
     data_block s (unat (ind_no s fb fo)) \<and> unat (ind_no s fb fo) \<noteq> fb \<and> cached s (unat (ind_no s fb fo))"
  unfolding file_ok_def by blast

lemma file_ok_slot:
  "file_ok s fb fo \<Longrightarrow> n < 1034 \<Longrightarrow> slot s fb fo n \<noteq> 0 \<Longrightarrow>
     data_block s (unat (slot s fb fo n)) \<and> unat (slot s fb fo n) \<noteq> fb \<and> slot s fb fo n \<noteq> ind_no s fb fo"
  unfolding file_ok_def by blast

lemma file_ok_inj:
  "file_ok s fb fo \<Longrightarrow> m < 1034 \<Longrightarrow> n < 1034 \<Longrightarrow> slot s fb fo m = slot s fb fo n \<Longrightarrow> slot s fb fo m \<noteq> 0 \<Longrightarrow> m = n"
  unfolding file_ok_def by blast

lemma file_ok_cong:
  assumes "file_ok s fb fo" "ind_no t fb fo = ind_no s fb fo" "\<And>n. n < 1034 \<Longrightarrow> slot t fb fo n = slot s fb fo n"
    and "\<And>c. data_block s c \<Longrightarrow> data_block t c" "\<And>c. cached s c \<Longrightarrow> cached t c"
  shows "file_ok t fb fo"
proof -
  have "file_at t fb fo" using file_ok_file_at [OF assms(1)] assms(4,5) by (auto simp: file_at_def)
  then show ?thesis
    unfolding file_ok_def assms(2)
    using file_ok_ind [OF assms(1)] file_ok_slot [OF assms(1)] file_ok_inj [OF assms(1)] assms(3-5) by metis
qed

lemma file_at_bounds:
  assumes "fs_ok s" "file_at s fb fo"
  shows "fb < 786432" "fb < nblk s" "cached s fb" "fetch fb s = s" "fo + j < 4096 \<Longrightarrow> ready s fb (fo + j)"
    and "fb \<noteq> 0" "fo div 4 + 64 \<le> 1024" "(fo + 4 * j) div 4 = fo div 4 + j" "fo mod 4 = 0"
    and "Suc 0 = fb \<Longrightarrow> 2 \<le> fo div 4" "fb = Suc 0 \<or> data_start s \<le> fb"
proof -
  note b = fs_ok_bounds [OF assms(1)]
  show "fb < 786432" "fb < nblk s" "fb \<noteq> 0"
    using assms data_block_bounds [OF assms(1), of fb] b(1,2) by (auto simp: file_at_def)
  show c: "cached s fb" and "fetch fb s = s" using assms(2) by (simp_all add: file_at_def)
  show "fo + j < 4096 \<Longrightarrow> ready s fb (fo + j)" using c \<open>fb < nblk s\<close> by (simp add: ready_def)
  show "fo div 4 + 64 \<le> 1024" "(fo + 4 * j) div 4 = fo div 4 + j" "fo mod 4 = 0" "Suc 0 = fb \<Longrightarrow> 2 \<le> fo div 4"
    using assms(2) fs_ok_bounds(1) [OF assms(1)] by (auto simp: file_at_def data_block_def)
  show "fb = Suc 0 \<or> data_start s \<le> fb" using assms(2) by (auto simp: file_at_def data_block_def)
qed

lemma unat_nz: "(w :: 32 word) \<noteq> 0 \<Longrightarrow> 0 < unat w"
  by (simp add: unat_gt_0)

text \<open>
  What every operation on the blocks of a file keeps, whichever blocks it allocates: the structure, the
  other structures in the same block, and the slots that were filled. The contents of other blocks are data_same.
\<close>

definition file_step :: "fs \<Rightarrow> nat \<Rightarrow> nat \<Rightarrow> fs \<Rightarrow> bool" where
  "file_step s fb fo t \<longleftrightarrow>
     fs_ok t \<and> file_ok t fb fo \<and> same_env s t \<and> nblk t = nblk s \<and> data_start t = data_start s \<and>
     free_set t \<subseteq> free_set s \<and> (\<forall>c. data_block s c \<longrightarrow> data_block t c) \<and>
     (\<forall>k. k < fo div 4 + 34 \<or> fo div 4 + 45 \<le> k \<longrightarrow> view t fb k = view s fb k) \<and>
     (\<forall>n < 1034. slot s fb fo n \<noteq> 0 \<longrightarrow> slot t fb fo n = slot s fb fo n) \<and>
     (if ind_no s fb fo \<noteq> 0 then ind_no t fb fo = ind_no s fb fo
      else ind_no t fb fo = 0 \<or> \<not> data_block s (unat (ind_no t fb fo)))"

definition data_same :: "fs \<Rightarrow> nat \<Rightarrow> nat \<Rightarrow> fs \<Rightarrow> bool" where
  "data_same s fb fo t \<longleftrightarrow>
     (\<forall>c. data_block s c \<and> c \<noteq> fb \<and> c \<noteq> unat (ind_no s fb fo) \<longrightarrow> view t c = view s c)"

lemma file_step_trans:
  assumes "file_step s fb fo t" "file_step t fb fo u"
  shows "file_step s fb fo u"
proof -
  have "same_env s u" using assms same_env_trans by (auto simp: file_step_def)
  moreover have "\<forall>n < 1034. slot s fb fo n \<noteq> 0 \<longrightarrow> slot u fb fo n = slot s fb fo n"
    using assms by (simp add: file_step_def)
  moreover have "if ind_no s fb fo \<noteq> 0 then ind_no u fb fo = ind_no s fb fo
      else ind_no u fb fo = 0 \<or> \<not> data_block s (unat (ind_no u fb fo))"
    using assms by (auto simp: file_step_def split: if_splits)
  ultimately show ?thesis using assms by (simp add: file_step_def) blast
qed

lemma data_same_trans:
  assumes "file_step s fb fo t" "data_same s fb fo t" "data_same t fb fo u"
  shows "data_same s fb fo u"
  unfolding data_same_def
proof (intro allI impI)
  fix c assume c: "data_block s c \<and> c \<noteq> fb \<and> c \<noteq> unat (ind_no s fb fo)"
  then have "data_block t c" "c \<noteq> unat (ind_no t fb fo)"
    using assms(1) unsigned_0 by (auto simp: file_step_def data_block_def split: if_splits)
  then show "view u c = view s c" using c assms(2,3) by (simp add: data_same_def)
qed

lemma file_step_refl: "fs_ok s \<Longrightarrow> file_ok s fb fo \<Longrightarrow> file_step s fb fo s"
  by (simp add: file_step_def)

lemma data_same_refl: "data_same s fb fo s"
  by (simp add: data_same_def)

section \<open>Finding and filling a slot\<close>

definition slot_at :: "fs \<Rightarrow> nat \<Rightarrow> nat \<Rightarrow> nat \<Rightarrow> 32 word" where
  "slot_at s fb fo n = (if n < 10 then at fb (fo + 136 + 4 * n) else at (unat (ind_no s fb fo)) (4 * (n - 10)))"

lemma load_indirect:
  assumes "fs_ok s" "file_at s fb fo"
  shows "load32 (f_indirect_at (at fb fo)) s = Ret (ind_no s fb fo) s"
proof -
  note f = file_at_bounds [OF assms]
  have "fo + 176 < 4096" using f(7,9) by simp
  then show ?thesis
    using load32_ok [OF assms(1) f(5) [of 176]] f(4) f(8) [of 44] by (simp add: f_indirect_at_def ind_no_def)
qed

lemma walk_direct:
  "n < 10 \<Longrightarrow> file_block_walk (at fb fo) (of_nat n) alloc s = Ret (Inr (slot_at s fb fo n)) s"
proof -
  assume n: "n < 10"
  have "(of_nat n :: 32 word) < NDIRECT" using n by (simp add: NDIRECT_def word_less_nat_alt unat_of_nat_32)
  moreover have "f_direct_at (at fb fo) (of_nat n) = at fb (fo + 136 + 4 * n)"
    by (simp add: f_direct_at_def at_def)
  ultimately show ?thesis using n by (simp add: file_block_walk_def slot_at_def)
qed

lemma indirect_range:
  assumes "10 \<le> n" "n < 1034"
  shows "\<not> (of_nat n :: 32 word) < NDIRECT" "(of_nat n :: 32 word) < NDIRECT + NINDIRECT"
    "at b 0 + 4 * (of_nat n - NDIRECT) = at b (4 * (n - 10))"
proof -
  show "\<not> (of_nat n :: 32 word) < NDIRECT" "(of_nat n :: 32 word) < NDIRECT + NINDIRECT"
    using assms by (simp_all add: NDIRECT_def NINDIRECT_def word_less_nat_alt unat_of_nat_32)
  have "(of_nat n :: 32 word) - NDIRECT = of_nat (n - 10)" using assms(1) by (simp add: NDIRECT_def of_nat_diff)
  then show "at b 0 + 4 * (of_nat n - NDIRECT) = at b (4 * (n - 10))" by (simp add: at_def)
qed

lemma walk_indirect:
  assumes "fs_ok s" "file_ok s fb fo" "10 \<le> n" "n < 1034" "ind_no s fb fo \<noteq> 0"
  shows "file_block_walk (at fb fo) (of_nat n) alloc s = Ret (Inr (slot_at s fb fo n)) s"
proof -
  have f: "file_at s fb fo" and d: "data_block s (unat (ind_no s fb fo))"
    using file_ok_file_at [OF assms(2)] file_ok_ind [OF assms(2,5)] by simp_all
  have "diskaddr (ind_no s fb fo) s = Ret (at (unat (ind_no s fb fo)) 0) s"
    using diskaddr_unat [OF assms(1), of "ind_no s fb fo"] data_block_bounds [OF assms(1) d] by simp
  then show ?thesis
    using assms(3,5) indirect_range [OF assms(3,4)]
    by (simp add: file_block_walk_def load_indirect [OF assms(1) f] slot_at_def)
qed

lemma walk_absent:
  assumes "fs_ok s" "file_ok s fb fo" "10 \<le> n" "n < 1034" "ind_no s fb fo = 0"
  shows "file_block_walk (at fb fo) (of_nat n) False s = Ret (Inl (- E_NOT_FOUND)) s"
proof -
  have f: "file_at s fb fo" using assms(2) by (simp add: file_ok_def)
  show ?thesis
    using assms(5) indirect_range [OF assms(3,4)] by (simp add: file_block_walk_def load_indirect [OF assms(1) f])
qed

lemma walk_out_of_range:
  "1034 \<le> n \<Longrightarrow> n < 2 ^ 32 \<Longrightarrow> file_block_walk f (of_nat n) alloc s = Ret (Inl (- E_INVAL)) s"
  by (simp add: file_block_walk_def NDIRECT_def NINDIRECT_def word_less_nat_alt unat_of_nat_32)

text \<open>Clearing a block that is in use.\<close>

definition cleared :: "nat \<Rightarrow> fs \<Rightarrow> fs" where
  "cleared b s = s\<lparr>bcache := (bcache s)(b := Some (\<lambda>_. 0)), bdirty := (bdirty s)(b := True)\<rparr>"

lemma cleared_sel [simp]:
  "view (cleared b s) = (view s)(b := (\<lambda>_. 0))" "cached (cleared b s) c \<longleftrightarrow> c = b \<or> cached s c"
  "super_on (cleared b s) = super_on s" "bitmap_on (cleared b s) = bitmap_on s" "btables (cleared b s) = btables s"
  "no_page (cleared b s) = no_page s" "bad_block (cleared b s) = bad_block s"
proof -
  show "view (cleared b s) = (view s)(b := (\<lambda>_. 0))"
    by (rule ext) (simp add: view_def cleared_def split: option.split)
qed (auto simp: cleared_def cached_def)

lemma clear_block_ok:
  "fs_ok s \<Longrightarrow> ready s b 0 \<Longrightarrow> clear_block (at b 0) s = Ret () (cleared b (fetch b s))"
proof -
  assume a: "fs_ok s" "ready s b 0"
  then have "b < 786432" using fs_ok_bounds(3) [OF a(1)] by (simp add: ready_def)
  then show ?thesis by (simp add: clear_block_def touch_ok [OF a] cleared_def)
qed


text \<open>Writing a number into a slot.\<close>

definition set_slot :: "nat \<Rightarrow> nat \<Rightarrow> nat \<Rightarrow> 32 word \<Rightarrow> fs \<Rightarrow> fs" where
  "set_slot fb fo n w s =
     (if n < 10 then put fb (fo div 4 + 34 + n) w s else put (unat (ind_no s fb fo)) (n - 10) w s)"

lemma slot_ready:
  assumes "fs_ok s" "file_ok s fb fo" "n < 1034" "n < 10 \<or> ind_no s fb fo \<noteq> 0"
  shows "load32 (slot_at s fb fo n) s = Ret (slot s fb fo n) s"
    and "store32 (slot_at s fb fo n) w s = Ret () (set_slot fb fo n w s)"
proof -
  have f: "file_at s fb fo" using assms(2) by (simp add: file_ok_def)
  note b = file_at_bounds [OF assms(1) f]
  show "load32 (slot_at s fb fo n) s = Ret (slot s fb fo n) s"
    "store32 (slot_at s fb fo n) w s = Ret () (set_slot fb fo n w s)"
  proof (atomize (full), cases "n < 10")
    case True
    have r: "ready s fb (fo + (136 + 4 * n))" using True b(7,9) by (intro b(5)) simp
    have i: "(fo + (136 + 4 * n)) div 4 = fo div 4 + 34 + n" using b(8) [of "34 + n"] by simp
    show "load32 (slot_at s fb fo n) s = Ret (slot s fb fo n) s \<and>
        store32 (slot_at s fb fo n) w s = Ret () (set_slot fb fo n w s)"
      using load32_ok [OF assms(1) r] store32_ok [OF assms(1) r] True b(4)
      unfolding i by (simp add: slot_at_def slot_def set_slot_def add.assoc)
  next
    case False
    let ?i = "unat (ind_no s fb fo)"
    have d: "data_block s ?i" "cached s ?i" using False assms(4) file_ok_ind [OF assms(2)] by simp_all
    then have r: "ready s ?i (4 * (n - 10))" using assms(3) by (simp add: ready_def data_block_def)
    show "load32 (slot_at s fb fo n) s = Ret (slot s fb fo n) s \<and>
        store32 (slot_at s fb fo n) w s = Ret () (set_slot fb fo n w s)"
      using load32_ok [OF assms(1) r] store32_ok [OF assms(1) r] False d(2) assms(4)
      by (simp add: slot_at_def slot_def set_slot_def)
  qed
qed

text \<open>A newly allocated block is no part of the file yet.\<close>

lemma new_block_fresh:
  assumes "fs_ok s" "file_ok s fb fo" "b \<in> free_set s"
  shows "b \<noteq> fb" "ind_no s fb fo \<noteq> 0 \<Longrightarrow> b \<noteq> unat (ind_no s fb fo)"
    "m < 1034 \<Longrightarrow> slot s fb fo m \<noteq> 0 \<Longrightarrow> b \<noteq> unat (slot s fb fo m)"
    "unat (of_nat b :: 32 word) = b" "(of_nat b :: 32 word) \<noteq> 0" "b \<noteq> Suc 0" "b < 786432"
proof -
  have nd: "\<not> data_block s b" and d: "data_start s \<le> b" "b < nblk s"
    using allocated_ok(9-11) [OF assms(1,3)] by simp_all
  then show "b \<noteq> Suc 0" "b < 786432" using fs_ok_bounds(1,3) [OF assms(1)] by simp_all
  then show "b \<noteq> fb" "ind_no s fb fo \<noteq> 0 \<Longrightarrow> b \<noteq> unat (ind_no s fb fo)"
    "m < 1034 \<Longrightarrow> slot s fb fo m \<noteq> 0 \<Longrightarrow> b \<noteq> unat (slot s fb fo m)"
    using nd file_ok_file_at [OF assms(2)] file_ok_ind [OF assms(2)] file_ok_slot [OF assms(2)]
    by (auto simp: file_at_def)
  show u: "unat (of_nat b :: 32 word) = b" using \<open>b < 786432\<close> by (simp add: unat_of_nat_32)
  show "(of_nat b :: 32 word) \<noteq> 0" using u d(1) fs_ok_bounds(1) [OF assms(1)] by auto
qed

lemma allocated_file:
  assumes "fs_ok s" "file_ok s fb fo" "b \<in> free_set s"
  shows "view (allocated b s) fb = view s fb" "ind_no (allocated b s) fb fo = ind_no s fb fo"
    "n < 1034 \<Longrightarrow> slot (allocated b s) fb fo n = slot s fb fo n" "file_ok (allocated b s) fb fo"
    "data_same s fb fo (allocated b s)"
proof -
  note a = allocated_ok [OF assms(1,3)]
  have f: "file_at s fb fo" using assms(2) by (simp add: file_ok_def)
  have vd: "view (allocated b s) c = view s c" if "data_block s c" for c
    using a(7) that by (simp add: data_block_def)
  show v: "view (allocated b s) fb = view s fb"
    using vd [of fb] f a(7) [of fb] by (auto simp: file_at_def)
  show i: "ind_no (allocated b s) fb fo = ind_no s fb fo" by (simp add: ind_no_def v)
  show sl: "n < 1034 \<Longrightarrow> slot (allocated b s) fb fo n = slot s fb fo n" for n
    using vd [of "unat (ind_no s fb fo)"] file_ok_ind [OF assms(2)] by (simp add: slot_def i v)
  show "file_ok (allocated b s) fb fo"
    using file_ok_cong [OF assms(2) i sl] by (simp add: a(6,8))
  show "data_same s fb fo (allocated b s)" by (simp add: data_same_def vd)
qed


section \<open>Writes outside of the bitmap\<close>

text \<open>Writes that leave the size of the disk and the bitmap alone.\<close>

definition off_meta :: "fs \<Rightarrow> fs \<Rightarrow> bool" where
  "off_meta s t \<longleftrightarrow> same_env s t \<and> view t (Suc 0) (Suc 0) = view s (Suc 0) (Suc 0) \<and>
     (\<forall>b. 2 \<le> b \<and> b < data_start s \<longrightarrow> view t b = view s b)"

lemma off_meta_ok:
  assumes "fs_ok s" "off_meta s t"
  shows "fs_ok t" "nblk t = nblk s" "data_start t = data_start s" "data_block t c = data_block s c"
    "free_set t = free_set s" "same_env s t"
proof -
  have a: "same_env s t" "view t (Suc 0) (Suc 0) = view s (Suc 0) (Suc 0)"
    "\<And>b. 2 \<le> b \<Longrightarrow> b < data_start s \<Longrightarrow> view t b = view s b"
    using assms(2) by (simp_all add: off_meta_def)
  show "fs_ok t" by (rule fs_ok_same [OF assms(1) a])
  note m = metadata_same [OF assms(1) a(2,3)]
  show "same_env s t" by (rule a(1))
  show n: "nblk t = nblk s" and d: "data_start t = data_start s" using m(1,2) by simp_all
  show "data_block t c = data_block s c" using m(3) by (auto simp: data_block_def n d)
  show "free_set t = free_set s" using m(3) by (auto simp: free_set_def n)
qed

lemma off_meta_put:
  assumes "fs_ok s" "cached s c" "c < nblk s" "k < 1024" "c = Suc 0 \<and> 2 \<le> k \<or> data_start s \<le> c"
  shows "off_meta s (put c k w s)"
proof -
  have c: "c < 786432" using fs_ok_bounds(3) [OF assms(1)] assms(3) by simp
  then show ?thesis
    using assms(2,4,5) fs_ok_bounds(1) [OF assms(1)] by (auto simp: off_meta_def)
qed

lemma off_meta_fetch [simp]: "off_meta s (fetch b s)"
  by (simp add: off_meta_def)

lemma off_meta_cleared: "fs_ok s \<Longrightarrow> data_start s \<le> b \<Longrightarrow> off_meta s (cleared b s)"
  using fs_ok_bounds(1) [of s] by (auto simp: off_meta_def same_env_def)

lemma off_meta_trans: "off_meta s t \<Longrightarrow> off_meta t u \<Longrightarrow> off_meta s u"
  by (auto simp: off_meta_def data_start_def nblk_def dest: same_env_trans)

text \<open>A step that stays off the bitmap and keeps what the file's structure and slots say.\<close>

lemma file_step_off_meta:
  assumes "fs_ok s" "file_ok s fb fo" "off_meta s t" "file_ok t fb fo"
    and "\<And>k. k < fo div 4 + 34 \<or> fo div 4 + 45 \<le> k \<Longrightarrow> view t fb k = view s fb k"
    and "\<And>n. n < 1034 \<Longrightarrow> slot s fb fo n \<noteq> 0 \<Longrightarrow> slot t fb fo n = slot s fb fo n"
    and "if ind_no s fb fo \<noteq> 0 then ind_no t fb fo = ind_no s fb fo
         else ind_no t fb fo = 0 \<or> \<not> data_block s (unat (ind_no t fb fo))"
  shows "file_step s fb fo t"
  using off_meta_ok [OF assms(1,3)] assms(4-7) by (simp add: file_step_def)

lemma file_step_allocated:
  assumes "fs_ok s" "file_ok s fb fo" "b \<in> free_set s"
  shows "file_step s fb fo (allocated b s)"
  using allocated_ok [OF assms(1,3)] allocated_file [OF assms] by (auto simp: file_step_def)

section \<open>Filling a slot\<close>

lemma set_slot_view:
  assumes "fs_ok s" "file_ok s fb fo" "n < 1034" "n < 10 \<or> ind_no s fb fo \<noteq> 0"
  obtains c k where "set_slot fb fo n w s = put c k w s" "view (set_slot fb fo n w s) = (view s)(c := (view s c)(k := w))"
    "cached (set_slot fb fo n w s) = cached s" "off_meta s (set_slot fb fo n w s)"
    "if n < 10 then c = fb \<and> k = fo div 4 + 34 + n else c = unat (ind_no s fb fo) \<and> k = n - 10"
proof -
  note f = file_ok_file_at [OF assms(2)]
  note b = file_at_bounds [OF assms(1) f]
  define c where "c = (if n < 10 then fb else unat (ind_no s fb fo))"
  define k where "k = (if n < 10 then fo div 4 + 34 + n else n - 10)"
  have st: "set_slot fb fo n w s = put c k w s" by (simp add: set_slot_def c_def k_def)
  have i: "\<not> n < 10 \<Longrightarrow> data_block s (unat (ind_no s fb fo)) \<and> cached s (unat (ind_no s fb fo))"
    using file_ok_ind [OF assms(2)] assms(4) by simp
  have c: "cached s c" "c < nblk s" "c < 786432"
    using b(1,2,3) i data_block_bounds [OF assms(1)] by (auto simp: c_def)
  have k: "k < 1024" using b(7) assms(3) by (auto simp: k_def)
  have m: "c = Suc 0 \<and> 2 \<le> k \<or> data_start s \<le> c"
    using b(11) i by (auto simp: c_def k_def data_block_def)
  show thesis
    using that [of c k] put_sel [OF c(1,3) k] off_meta_put [OF assms(1) c(1,2) k m]
    by (simp add: st) (simp add: c_def k_def)
qed

lemma set_slot_step:
  assumes "fs_ok s" "file_ok s fb fo" "n < 1034" "n < 10 \<or> ind_no s fb fo \<noteq> 0" "slot s fb fo n = 0"
    and "data_block s (unat w)" "unat w \<noteq> fb" "w \<noteq> ind_no s fb fo" "\<And>m. m < 1034 \<Longrightarrow> slot s fb fo m \<noteq> w"
  defines "t \<equiv> set_slot fb fo n w s"
  shows "file_step s fb fo t" "data_same s fb fo t" "slot t fb fo m = (if m = n then w else slot s fb fo m)"
    "ind_no t fb fo = ind_no s fb fo" "free_set t = free_set s" "cached t = cached s"
proof -
  obtain c k where vt: "view t = (view s)(c := (view s c)(k := w))" and ct: "cached t = cached s"
    and om: "off_meta s t" and ck: "if n < 10 then c = fb \<and> k = fo div 4 + 34 + n else c = unat (ind_no s fb fo) \<and> k = n - 10"
    using set_slot_view [OF assms(1-4), of w] unfolding t_def by metis
  note m = off_meta_ok [OF assms(1) om]
  have ind: "\<not> n < 10 \<Longrightarrow> unat (ind_no s fb fo) \<noteq> fb" using file_ok_ind [OF assms(2)] assms(4) by simp
  show it: "ind_no t fb fo = ind_no s fb fo" using ck ind by (auto simp: ind_no_def vt split: if_splits)
  have ii: "ind_no s fb fo \<noteq> 0 \<Longrightarrow> unat (ind_no s fb fo) \<noteq> fb" using file_ok_ind [OF assms(2)] by simp
  show sl: "slot t fb fo m = (if m = n then w else slot s fb fo m)" for m
  proof (cases "n < 10")
    case True
    then have "c = fb" "k = fo div 4 + 34 + n" using ck by simp_all
    then show ?thesis using True ii by (cases "ind_no s fb fo = 0") (simp_all add: slot_def it vt)
  next
    case False
    then have "c = unat (ind_no s fb fo)" "k = n - 10" "ind_no s fb fo \<noteq> 0" using ck assms(4) by simp_all
    moreover have "m - 10 = n - 10 \<longleftrightarrow> m = n" if "\<not> m < 10" using that False by auto
    ultimately show ?thesis using False ind by (cases "m < 10") (auto simp: slot_def it vt)
  qed
  show "free_set t = free_set s" "cached t = cached s" by (rule m(5)) (rule ct)
  have wn: "w \<noteq> 0" using assms(6) data_block_bounds(3) [OF assms(1)] by force
  have ok: "file_ok t fb fo"
    unfolding file_ok_def it sl
  proof (intro conjI allI impI)
    show "file_at t fb fo" using file_ok_file_at [OF assms(2)] by (simp add: file_at_def ct m(4))
  qed (use file_ok_ind [OF assms(2)] file_ok_slot [OF assms(2)] file_ok_inj [OF assms(2)] assms(6-9) ct m(4) in
        \<open>auto split: if_splits\<close>)
  show "file_step s fb fo t"
  proof (rule file_step_off_meta [OF assms(1,2) om ok])
    show "view t fb k' = view s fb k'" if "k' < fo div 4 + 34 \<or> fo div 4 + 45 \<le> k'" for k'
      using that ck ind by (auto simp: vt split: if_splits)
    show "slot t fb fo m = slot s fb fo m" if "slot s fb fo m \<noteq> 0" for m using that assms(5) by (auto simp: sl)
    show "if ind_no s fb fo \<noteq> 0 then ind_no t fb fo = ind_no s fb fo
      else ind_no t fb fo = 0 \<or> \<not> data_block s (unat (ind_no t fb fo))" by (simp add: it)
  qed
  show "data_same s fb fo t" using ck by (auto simp: data_same_def vt split: if_splits)
qed


text \<open>The state after alloc_block has supplied an indirect block.\<close>

definition indirect :: "nat \<Rightarrow> nat \<Rightarrow> nat \<Rightarrow> fs \<Rightarrow> fs" where
  "indirect fb fo b s = cleared b (fetch b (put fb (fo div 4 + 44) (of_nat b) (allocated b s)))"

lemma indirect_step:
  assumes "fs_ok s" "file_ok s fb fo" "ind_no s fb fo = 0" "b \<in> free_set s"
  defines "t \<equiv> indirect fb fo b s"
  shows "file_step s fb fo t" "data_same s fb fo t" "m < 1034 \<Longrightarrow> slot t fb fo m = slot s fb fo m"
    "ind_no t fb fo = of_nat b" "free_set t = free_set s - {b}"
    "kbind (store32 (f_indirect_at (at fb fo)) (of_nat b) (allocated b s)) (\<lambda>_ s.
       kbind (load32 (f_indirect_at (at fb fo)) s) (\<lambda>ind s.
         if ind = 0 then Ret (Some (- E_NO_DISK)) s
         else kbind (diskaddr ind s) (\<lambda>a s. kbind (clear_block a s) (\<lambda>_. Ret None)))) = Ret None t"
proof -
  let ?a = "allocated b s"
  define p where "p = put fb (fo div 4 + 44) (of_nat b) ?a"
  have t: "t = cleared b (fetch b p)" by (simp add: t_def indirect_def p_def)
  note al = allocated_ok [OF assms(1,4)] and af = allocated_file [OF assms(1,2,4)]
  note nb = new_block_fresh [OF assms(1,2,4)]
  have fa: "file_at ?a fb fo" by (rule file_ok_file_at [OF af(4)])
  note bd = file_at_bounds [OF al(1) fa]
  have k: "fo div 4 + 44 < 1024" using bd(7) by simp
  have pv: "view p = (view ?a)(fb := (view ?a fb)(fo div 4 + 44 := of_nat b))" "cached p = cached ?a"
    unfolding p_def by (rule put_sel(1) [OF bd(3,1) k], rule put_sel(2) [OF bd(3,1) k])
  have m1: "fb = Suc 0 \<and> 2 \<le> fo div 4 + 44 \<or> data_start ?a \<le> fb" using bd(11) by auto
  have op: "off_meta ?a p" unfolding p_def by (rule off_meta_put [OF al(1) bd(3,2) k m1])
  have okp: "fs_ok p" using off_meta_ok [OF al(1) op] by simp
  have dsp: "data_start p \<le> b" using off_meta_ok(3) [OF al(1) op] al(4,10) by simp
  have ot: "off_meta ?a t"
    unfolding t using op off_meta_trans off_meta_fetch off_meta_cleared fs_ok_fetch okp dsp by (metis fetch_sel(4))
  note m = off_meta_ok [OF al(1) ot]
  have vt: "view t = (view ?a)(fb := (view ?a fb)(fo div 4 + 44 := of_nat b), b := (\<lambda>_. 0))"
    unfolding t by (simp add: pv)
  show it: "ind_no t fb fo = of_nat b" using nb(1) by (simp add: ind_no_def vt)
  show sl: "slot t fb fo m = slot s fb fo m" if "m < 1034" for m
    using that nb(1,4,5) assms(3) by (simp add: slot_def it vt af(1))
  show "free_set t = free_set s - {b}" using m(5) al(5) by simp
  have ct: "cached t b" "\<And>c. cached s c \<Longrightarrow> cached t c" by (simp_all add: t pv(2) al(8))
  have dt: "data_block t c \<longleftrightarrow> c = b \<or> data_block s c" for c using m(4) al(6) by simp
  have ok: "file_ok t fb fo"
    unfolding file_ok_def it nb(4)
  proof (intro conjI allI impI)
    show "file_at t fb fo" using file_ok_file_at [OF assms(2)] by (auto simp: file_at_def ct dt)
    show "data_block t b" "b \<noteq> fb" "cached t b" using nb(1) by (simp_all add: dt ct)
    fix n :: nat assume n: "n < 1034" and nz: "slot t fb fo n \<noteq> 0"
    then show "data_block t (unat (slot t fb fo n))" "unat (slot t fb fo n) \<noteq> fb" "slot t fb fo n \<noteq> of_nat b"
      using file_ok_slot [OF assms(2) n] nb(3) [OF n] nb(4) by (auto simp: sl dt)
  next
    fix i n :: nat assume "i < 1034" "n < 1034" "slot t fb fo i = slot t fb fo n \<and> slot t fb fo i \<noteq> 0"
    then show "i = n" using file_ok_inj [OF assms(2), of i n] by (auto simp: sl)
  qed
  have fx: "view t fb k' = view s fb k'" if "k' < fo div 4 + 34 \<or> fo div 4 + 45 \<le> k'" for k'
    using that nb(1) by (auto simp: vt af(1))
  show "file_step s fb fo t"
    unfolding file_step_def
  proof (intro conjI allI impI)
    show "fs_ok t" "nblk t = nblk s" "data_start t = data_start s" using m al by simp_all
    show "file_ok t fb fo" by (rule ok)
    show "same_env s t" by (rule same_env_trans [OF al(2) m(6)])
    show "free_set t \<subseteq> free_set s" using m(5) al(5) by auto
    show "if ind_no s fb fo \<noteq> 0 then ind_no t fb fo = ind_no s fb fo
      else ind_no t fb fo = 0 \<or> \<not> data_block s (unat (ind_no t fb fo))"
      using assms(3) al(9) by (simp add: it nb(4))
  qed (use fx sl dt in auto)
  show "data_same s fb fo t"
    using al(7,9) nb(1) by (auto simp: data_same_def vt data_block_def)
  have r: "ready ?a fb (fo + 176)" using bd(7,9) by (intro bd(5)) simp
  have st: "store32 (f_indirect_at (at fb fo)) (of_nat b) ?a = Ret () p"
    using store32_ok [OF al(1) r] bd(4) bd(8) [of 44] by (simp add: f_indirect_at_def p_def)
  have fp: "file_at p fb fo"
    using fa off_meta_ok(4) [OF al(1) op] by (simp add: file_at_def pv(2))
  have ip: "ind_no p fb fo = of_nat b" by (simp add: ind_no_def pv)
  have np: "nblk p = nblk s" using off_meta_ok(2) [OF al(1) op] al(3) by simp
  have da: "diskaddr (of_nat b) p = Ret (at b 0) p"
    using diskaddr_unat [OF okp, of "of_nat b"] nb(4) unat_nz [OF nb(5)] np al(11) by simp
  have "data_block p b" using off_meta_ok(4) [OF al(1) op] al(6) by simp
  then have "ready p b 0" using data_block_bounds(3) [OF okp, of b] by (auto simp: ready_def data_block_def)
  then have "clear_block (at b 0) p = Ret () t" using clear_block_ok [OF okp] by (simp add: t)
  then show "kbind (store32 (f_indirect_at (at fb fo)) (of_nat b) ?a) (\<lambda>_ s.
       kbind (load32 (f_indirect_at (at fb fo)) s) (\<lambda>ind s.
         if ind = 0 then Ret (Some (- E_NO_DISK)) s
         else kbind (diskaddr ind s) (\<lambda>a s. kbind (clear_block a s) (\<lambda>_. Ret None)))) = Ret None t"
    using nb(5) by (simp add: st load_indirect [OF okp fp] ip da)
qed


section \<open>file_get_block\<close>

text \<open>The free blocks a call may need.\<close>

definition needed :: "fs \<Rightarrow> nat \<Rightarrow> nat \<Rightarrow> nat \<Rightarrow> nat" where
  "needed s fb fo n =
     (if slot s fb fo n \<noteq> 0 then 0 else if 10 \<le> n \<and> ind_no s fb fo = 0 then 2 else 1)"

lemma walk_ok:
  assumes "fs_ok s" "file_ok s fb fo" "n < 1034" "10 \<le> n \<and> ind_no s fb fo = 0 \<Longrightarrow> free_set s \<noteq> {}"
  obtains t where "file_block_walk (at fb fo) (of_nat n) True s = Ret (Inr (slot_at t fb fo n)) t"
    "file_step s fb fo t" "data_same s fb fo t" "\<And>m. m < 1034 \<Longrightarrow> slot t fb fo m = slot s fb fo m"
    "n < 10 \<or> ind_no t fb fo \<noteq> 0"
    "card (free_set s) = card (free_set t) + (if 10 \<le> n \<and> ind_no s fb fo = 0 then 1 else 0)"
    "n < 10 \<or> ind_no s fb fo \<noteq> 0 \<Longrightarrow> t = s"
proof (cases "10 \<le> n \<and> ind_no s fb fo = 0")
  case False
  then have "file_block_walk (at fb fo) (of_nat n) True s = Ret (Inr (slot_at s fb fo n)) s"
    using walk_direct walk_indirect [OF assms(1,2)] assms(3) by (cases "n < 10") auto
  then show thesis
    using that [of s] False file_step_refl [OF assms(1,2)] data_same_refl by auto
next
  case True
  let ?b = "Min (free_set s)"
  have b: "?b \<in> free_set s" using Min_in [OF finite_free_set assms(4)] True by simp
  note i = indirect_step [OF assms(1,2) _ b]
  let ?t = "indirect fb fo ?b s"
  have f: "file_step s fb fo ?t" "ind_no ?t fb fo = of_nat ?b" using i True by blast+
  then have ok: "fs_ok ?t" "file_ok ?t fb fo" by (simp_all add: file_step_def)
  have nz: "ind_no ?t fb fo \<noteq> 0" using f(2) new_block_fresh(5) [OF assms(1,2) b] by simp
  have al: "alloc_block s = Ret (of_nat ?b) (allocated ?b s)"
    using alloc_block_some [OF assms(1)] b by auto
  have l: "load32 (f_indirect_at (at fb fo)) s = Ret 0 s"
    using load_indirect [OF assms(1) file_ok_file_at [OF assms(2)]] True by simp
  have "file_block_walk (at fb fo) (of_nat n) True s =
     kbind (Ret None ?t) (\<lambda>err s. case err of Some r \<Rightarrow> Ret (Inl r) s
       | None \<Rightarrow> kbind (load32 (f_indirect_at (at fb fo)) s) (\<lambda>ind s.
             kbind (diskaddr ind s) (\<lambda>a. Ret (Inr (a + 4 * (of_nat n - NDIRECT))))))"
    using i(6) True indirect_range(1,2) [OF _ assms(3)] by (simp add: file_block_walk_def l al)
  also have "\<dots> = file_block_walk (at fb fo) (of_nat n) True ?t"
    using nz True indirect_range(1,2) [OF _ assms(3)] load_indirect [OF ok(1) file_ok_file_at [OF ok(2)]]
    by (simp add: file_block_walk_def)
  also have "\<dots> = Ret (Inr (slot_at ?t fb fo n)) ?t"
    using walk_indirect [OF ok _ assms(3) nz] True by simp
  finally have w: "file_block_walk (at fb fo) (of_nat n) True s = Ret (Inr (slot_at ?t fb fo n)) ?t" .
  have "card (free_set s) = card (free_set ?t) + 1"
    using i(5) True card_Suc_Diff1 [OF finite_free_set b] by simp
  then show thesis
    using that [OF w f(1)] i(2,3) True nz by auto
qed

lemma file_get_block_effect:
  assumes "fs_ok s" "file_ok s fb fo" "n < 1034" "needed s fb fo n \<le> card (free_set s)"
  obtains t where "file_get_block (at fb fo) (of_nat n) s = Ret (Inr (at (unat (slot t fb fo n)) 0)) t"
    "file_step s fb fo t" "data_same s fb fo t" "slot t fb fo n \<noteq> 0"
    "\<And>m. m < 1034 \<Longrightarrow> m \<noteq> n \<Longrightarrow> slot t fb fo m = slot s fb fo m"
    "n < 10 \<or> ind_no t fb fo \<noteq> 0"
    "card (free_set s) \<le> card (free_set t) + needed s fb fo n" "slot s fb fo n \<noteq> 0 \<Longrightarrow> t = s"
    "n < 10 \<Longrightarrow> ind_no t fb fo = ind_no s fb fo"
proof -
  have sz: "slot s fb fo n \<noteq> 0 \<Longrightarrow> n < 10 \<or> ind_no s fb fo \<noteq> 0" by (auto simp: slot_def split: if_splits)
  have "10 \<le> n \<and> ind_no s fb fo = 0 \<Longrightarrow> free_set s \<noteq> {}"
    using assms(4) sz by (cases "slot s fb fo n = 0") (auto simp: needed_def)
  then obtain u where w: "file_block_walk (at fb fo) (of_nat n) True s = Ret (Inr (slot_at u fb fo n)) u"
    and u: "file_step s fb fo u" "data_same s fb fo u" "\<And>m. m < 1034 \<Longrightarrow> slot u fb fo m = slot s fb fo m"
      "n < 10 \<or> ind_no u fb fo \<noteq> 0"
      "card (free_set s) = card (free_set u) + (if 10 \<le> n \<and> ind_no s fb fo = 0 then 1 else 0)"
      "n < 10 \<or> ind_no s fb fo \<noteq> 0 \<Longrightarrow> u = s"
    using walk_ok [OF assms(1-3)] by metis
  have ok: "fs_ok u" "file_ok u fb fo" using u(1) by (simp_all add: file_step_def)
  note sr = slot_ready [OF ok assms(3) u(4)]
  show thesis
  proof (cases "slot s fb fo n = 0")
    case False
    then have us: "u = s" using sz u(6) by simp
    have "data_block s (unat (slot s fb fo n))" using file_ok_slot [OF assms(2,3) False] by simp
    then have "diskaddr (slot s fb fo n) s = Ret (at (unat (slot s fb fo n)) 0) s"
      using diskaddr_unat [OF assms(1)] data_block_bounds [OF assms(1)] by simp
    then have "file_get_block (at fb fo) (of_nat n) s = Ret (Inr (at (unat (slot s fb fo n)) 0)) s"
      using False w sr(1) by (simp add: file_get_block_def us)
    then show thesis using that [of s] False u(4) us file_step_refl [OF assms(1,2)] data_same_refl by auto
  next
    case True
    let ?b = "Min (free_set u)"
    have "free_set u \<noteq> {}" using assms(4) True u(5) by (auto simp: needed_def split: if_splits)
    then have b: "?b \<in> free_set u" by (rule Min_in [OF finite_free_set])
    have al: "alloc_block u = Ret (of_nat ?b) (allocated ?b u)" using alloc_block_some [OF ok(1)] b by auto
    let ?a = "allocated ?b u"
    note a = allocated_ok [OF ok(1) b] and af = allocated_file [OF ok b] and nb = new_block_fresh [OF ok b]
    have i: "n < 10 \<or> ind_no ?a fb fo \<noteq> 0" using u(4) af(2) by simp
    have z: "slot ?a fb fo n = 0" using True u(3) af(3) assms(3) by simp
    let ?t = "set_slot fb fo n (of_nat ?b) ?a"
    have step: "file_step ?a fb fo ?t" "data_same ?a fb fo ?t"
      "slot ?t fb fo m = (if m = n then of_nat ?b else slot ?a fb fo m)"
      "ind_no ?t fb fo = ind_no ?a fb fo" "free_set ?t = free_set ?a" for m
    proof -
      have q: "data_block ?a (unat (of_nat ?b :: 32 word))" "unat (of_nat ?b :: 32 word) \<noteq> fb" 
        "(of_nat ?b :: 32 word) \<noteq> ind_no ?a fb fo"
        using a(6) nb(1,2,4,5) af(2) by (auto simp del: unat_of_nat)
      have q2: "slot ?a fb fo m \<noteq> of_nat ?b" if "m < 1034" for m
        using nb(3) [of m] nb(4,5) that af(3) [of m] by metis
      show "file_step ?a fb fo ?t" "data_same ?a fb fo ?t"
        "slot ?t fb fo m = (if m = n then of_nat ?b else slot ?a fb fo m)"
        "ind_no ?t fb fo = ind_no ?a fb fo" "free_set ?t = free_set ?a" for m
        using set_slot_step [OF a(1) af(4) assms(3) i z q q2] by blast+
    qed
    have t_ok: "fs_ok ?t" "file_ok ?t fb fo" using step(1) by (simp_all add: file_step_def)
    have sa: "slot_at ?a fb fo n = slot_at u fb fo n" "slot_at ?t fb fo n = slot_at u fb fo n"
      using af(2) step(4) by (simp_all add: slot_at_def)
    have st: "store32 (slot_at u fb fo n) (of_nat ?b) ?a = Ret () ?t"
      using slot_ready(2) [OF a(1) af(4) assms(3) i] unfolding sa .
    have i2: "n < 10 \<or> ind_no ?t fb fo \<noteq> 0" using i step(4) by simp
    have ld: "load32 (slot_at u fb fo n) ?t = Ret (of_nat ?b) ?t"
      using slot_ready(1) [OF t_ok assms(3) i2] unfolding sa step(3) by simp
    have "nblk ?t = nblk u" using step(1) a(3) by (simp add: file_step_def)
    then have da: "diskaddr (of_nat ?b) ?t = Ret (at ?b 0) ?t"
      using diskaddr_unat [OF t_ok(1), of "of_nat ?b"] nb(4) unat_nz [OF nb(5)] a(11) by simp
    have "slot u fb fo n = 0" using True u(3) assms(3) by simp
    then have g: "file_get_block (at fb fo) (of_nat n) s = Ret (Inr (at (unat (slot ?t fb fo n)) 0)) ?t"
      using w sr(1) nb(4,5) by (simp add: file_get_block_def al st ld da step(3))
    have fs: "file_step s fb fo ?t"
      by (rule file_step_trans [OF u(1) file_step_trans [OF file_step_allocated [OF ok b] step(1)]])
    have ds: "data_same s fb fo ?t"
      by (rule data_same_trans [OF u(1,2) data_same_trans [OF file_step_allocated [OF ok b] af(5) step(2)]])
    have "card (free_set u) = card (free_set ?a) + 1"
      using a(5) card_Suc_Diff1 [OF finite_free_set b] by simp
    then have cd: "card (free_set s) \<le> card (free_set ?t) + needed s fb fo n"
      using u(5) True step(5) by (simp add: needed_def)
    show thesis
    proof (rule that [OF g fs ds])
      show "slot ?t fb fo n \<noteq> 0" using nb(5) step(3) by simp
      show "slot ?t fb fo m = slot s fb fo m" if "m < 1034" "m \<noteq> n" for m using that step(3) af(3) u(3) by simp
      show "n < 10 \<Longrightarrow> ind_no ?t fb fo = ind_no s fb fo" using step(4) af(2) u(6) by simp
    qed (use i2 cd True in auto)
  qed
qed

text \<open>
  On a full disk the error of alloc_block is stored as the block number, so the next call of diskaddr panics.
\<close>

lemma no_disk_number: "unat (word_of_int (- E_NO_DISK) :: 32 word) = 4294967287"
  by (simp add: E_NO_DISK_def)

lemma diskaddr_no_disk:
  "fs_ok s \<Longrightarrow> diskaddr (word_of_int (- E_NO_DISK)) s = Exit (Panicked ''bad block number in diskaddr'') s"
  using diskaddr_unat [of s "word_of_int (- E_NO_DISK)"] fs_ok_bounds(3) [of s]
  by (simp only: no_disk_number) simp

lemma file_get_block_full:
  assumes "fs_ok s" "file_ok s fb fo" "n < 1034" "slot s fb fo n = 0" "free_set s = {}"
  shows "\<exists>t. file_get_block (at fb fo) (of_nat n) s = Exit (Panicked ''bad block number in diskaddr'') t"
proof -
  let ?e = "word_of_int (- E_NO_DISK) :: 32 word"
  note al = alloc_block_none [OF assms(1,5)]
  have nz: "?e \<noteq> 0" using no_disk_number by (metis unat_0 zero_neq_numeral)
  have fa: "file_at s fb fo" by (rule file_ok_file_at [OF assms(2)])
  note bd = file_at_bounds [OF assms(1) fa]
  show ?thesis
  proof (cases "n < 10 \<or> ind_no s fb fo \<noteq> 0")
    case True
    obtain c k where v: "view (set_slot fb fo n ?e s) = (view s)(c := (view s c)(k := ?e))"
      "cached (set_slot fb fo n ?e s) = cached s" "off_meta s (set_slot fb fo n ?e s)"
      and ck: "if n < 10 then c = fb \<and> k = fo div 4 + 34 + n else c = unat (ind_no s fb fo) \<and> k = n - 10"
      using set_slot_view [OF assms(1-3) True] by metis
    let ?t = "set_slot fb fo n ?e s"
    have okt: "fs_ok ?t" using off_meta_ok(1) [OF assms(1) v(3)] .
    have c: "c < 786432" "c < nblk s" "cached s c" "k < 1024"
      using ck True bd(1,2,3,7) assms(3) file_ok_ind [OF assms(2)] data_block_bounds [OF assms(1)]
      by (auto split: if_splits)
    have r: "ready ?t c (4 * k)" using c off_meta_ok(2) [OF assms(1) v(3)] v(2) by (simp add: ready_def)
    have sa: "slot_at s fb fo n = at c (4 * k)"
    proof (cases "n < 10")
      case True
      have "fo = 4 * (fo div 4)" using bd(9) by auto
      then have "fo + 136 + 4 * n = 4 * (fo div 4 + 34 + n)" by simp
      then show ?thesis using True ck by (simp add: slot_at_def)
    next
      case False
      then show ?thesis using ck by (simp add: slot_at_def)
    qed
    have ld: "load32 (slot_at s fb fo n) ?t = Ret ?e ?t"
      using load32_ok [OF okt r] v(1,2) c(3) by (simp add: sa)
    have w: "file_block_walk (at fb fo) (of_nat n) True s = Ret (Inr (slot_at s fb fo n)) s"
      using walk_direct walk_indirect [OF assms(1,2)] True assms(3) by (cases "n < 10") auto
    note sr = slot_ready [OF assms(1-3) True]
    show ?thesis
      using nz by (simp add: file_get_block_def w sr(1) assms(4) al sr(2) ld diskaddr_no_disk [OF okt] del: of_int_minus)
  next
    case False
    have l: "load32 (f_indirect_at (at fb fo)) s = Ret 0 s" using load_indirect [OF assms(1) fa] False by simp
    have r: "ready s fb (fo + 176)" using bd(7,9) by (intro bd(5)) simp
    define p where "p = put fb (fo div 4 + 44) ?e s"
    have k: "fo div 4 + 44 < 1024" using bd(7) by simp
    have st: "store32 (f_indirect_at (at fb fo)) ?e s = Ret () p"
      using store32_ok [OF assms(1) r] bd(4) bd(8) [of 44] by (simp add: f_indirect_at_def p_def del: of_int_minus)
    have om: "off_meta s p" unfolding p_def using bd(11) by (intro off_meta_put [OF assms(1) bd(3,2) k]) auto
    have fp: "file_at p fb fo" using fa off_meta_ok(4) [OF assms(1) om] put_sel(2) [OF bd(3,1) k]
      by (simp add: file_at_def p_def)
    have okp: "fs_ok p" using off_meta_ok(1) [OF assms(1) om] .
    have ip: "ind_no p fb fo = ?e" using put_sel(1) [OF bd(3,1) k] by (simp add: ind_no_def p_def del: of_int_minus)
    show ?thesis
      using nz False indirect_range(1,2) [OF _ assms(3)]
      by (simp add: file_get_block_def file_block_walk_def l al st load_indirect [OF okp fp] ip
          diskaddr_no_disk [OF okp] del: of_int_minus)
  qed
qed

end
