(* ===== verification/Fs_Data.thy ===== *)
theory Fs_Data
  imports Fs_File
begin

text \<open>
  The bytes of a file: copying into and out of a block, the loops of file_read and file_write, and
  what a file contains after them.
\<close>

section \<open>Copying bytes\<close>

lemma load_bytes_ok:
  assumes "fs_ok s" "ready s b i" "i + n \<le> 4096" "0 < n"
  shows "load_bytes n (at b i) s = Ret (map (\<lambda>j. vbyte s b (i + j)) [0..<n]) (fetch b s)"
  using assms
proof (induction n arbitrary: i s)
  case 0
  then show ?case by simp
next
  case (Suc n)
  have vb: "vbyte (fetch b s) = vbyte s" by (simp add: fun_eq_iff vbyte_def)
  show ?case
  proof (cases "n = 0")
    case True
    then show ?thesis by (simp add: load8_ok [OF Suc.prems(1,2)])
  next
    case False
    have r: "ready (fetch b s) b (Suc i)" using Suc.prems(2,3) False by (simp add: ready_def)
    have "load_bytes n (at b (Suc i)) (fetch b s) = Ret (map (\<lambda>j. vbyte s b (Suc i + j)) [0..<n]) (fetch b s)"
      using Suc.IH [OF fs_ok_fetch [OF Suc.prems(1)] r] Suc.prems(3) False by (simp add: vb)
    then show ?thesis
      by (simp add: load8_ok [OF Suc.prems(1,2)] map_upt_Suc del: upt_Suc)
  qed
qed

lemma vbyte_view: "view t b = view s b \<Longrightarrow> vbyte t b = vbyte s b"
  by (simp add: vbyte_def fun_eq_iff)

lemma store_bytes_ok:
  assumes "fs_ok s" "ready s b i" "i + length bs \<le> 4096" "bs \<noteq> []" "data_start s \<le> b"
  shows "\<exists>t. store_bytes bs (at b i) s = Ret () t \<and> off_meta s t \<and> cached t b \<and>
    (\<forall>c. c \<noteq> b \<longrightarrow> view t c = view s c) \<and>
    (\<forall>j. vbyte t b j = (if i \<le> j \<and> j < i + length bs then bs ! (j - i) else vbyte s b j))"
  using assms
proof (induction bs arbitrary: i s)
  case Nil
  then show ?case by simp
next
  case (Cons x bs)
  have lt: "b < 786432" "i < 4096" "b < nblk s"
    using Cons.prems(2) fs_ok_bounds(3) [OF Cons.prems(1)] by (simp_all add: ready_def)
  have c: "cached (fetch b s) b" by simp
  let ?u = "put8 b i x (fetch b s)"
  have k: "i div 4 < 1024" using lt(2) by simp
  have om: "off_meta s ?u"
    using off_meta_trans [OF off_meta_fetch off_meta_put [OF fs_ok_fetch [OF Cons.prems(1), of b] c _ k]] lt(3) Cons.prems(5)
    by (simp add: put8_def)
  note m = off_meta_ok [OF Cons.prems(1) om]
  have vb: "vbyte (fetch b s) = vbyte s" by (simp add: fun_eq_iff vbyte_def)
  have u: "vbyte ?u b j = (if j = i then x else vbyte s b j)" "cached ?u b" "d \<noteq> b \<Longrightarrow> view ?u d = view s d" for j d
    using put8_sel [OF c lt(1,2)] by (simp_all add: vb)
  show ?case
  proof (cases "bs = []")
    case True
    then show ?thesis using om u by (auto simp: store8_ok [OF Cons.prems(1,2)])
  next
    case False
    have r: "ready ?u b (Suc i)" using lt(3) m(2) u(2) Cons.prems(3) False by (auto simp: ready_def neq_Nil_conv)
    obtain t where t: "store_bytes bs (at b (Suc i)) ?u = Ret () t" "off_meta ?u t" "cached t b"
      "\<forall>c. c \<noteq> b \<longrightarrow> view t c = view ?u c"
      "\<forall>j. vbyte t b j = (if Suc i \<le> j \<and> j < Suc i + length bs then bs ! (j - Suc i) else vbyte ?u b j)"
      using Cons.IH [OF m(1) r _ False] Cons.prems(3,5) m(3) by auto
    have "vbyte t b j = (if i \<le> j \<and> j < i + length (x # bs) then (x # bs) ! (j - i) else vbyte s b j)" for j
      using t(5) u(1) by (auto simp: nth_Cons' not_less le_Suc_eq Suc_le_eq)
    then show ?thesis
      using t(1-4) off_meta_trans [OF om t(2)] u(3) by (auto simp: store8_ok [OF Cons.prems(1,2)])
  qed
qed

text \<open>Writing into a data block of a file keeps its structure.\<close>

lemma store_file_step:
  assumes "fs_ok s" "file_ok s fb fo" "n < 1034" "slot s fb fo n \<noteq> 0" "off_meta s t"
    and "\<And>c. c \<noteq> unat (slot s fb fo n) \<Longrightarrow> view t c = view s c"
  shows "file_step s fb fo t" "ind_no t fb fo = ind_no s fb fo" "m < 1034 \<Longrightarrow> slot t fb fo m = slot s fb fo m"
proof -
  note d = file_ok_slot [OF assms(2-4)]
  have vf: "view t fb = view s fb" using d assms(6) [of fb] by auto
  show it: "ind_no t fb fo = ind_no s fb fo" by (simp add: ind_no_def vf)
  have ne: "ind_no s fb fo \<noteq> 0 \<Longrightarrow> view t (unat (ind_no s fb fo)) = view s (unat (ind_no s fb fo))"
    using d by (intro assms(6)) (metis word_unat_eq_iff)
  show sl: "m < 1034 \<Longrightarrow> slot t fb fo m = slot s fb fo m" for m by (simp add: slot_def it vf ne)
  have ok: "file_ok t fb fo"
    using file_ok_cong [OF assms(2) it sl] off_meta_ok(4,6) [OF assms(1,5)] by (simp add: same_env_def)
  show "file_step s fb fo t"
    by (rule file_step_off_meta [OF assms(1,2,5) ok]) (simp_all add: vf sl it)
qed

section \<open>Positions\<close>

text \<open>Positions below the largest file size.\<close>

lemma blk_div_small: "p < 2 ^ 31 \<Longrightarrow> blk_div (of_nat p) = of_nat (p div 4096)"
proof -
  assume p: "p < 2 ^ 31"
  have "int p sdiv 4096 = int (p div 4096)" by (simp add: signed_divide_int_def zdiv_int sgn_if)
  then show ?thesis by (simp add: blk_div_def sint_small [OF p])
qed

lemma blk_mod_small: "p < 2 ^ 31 \<Longrightarrow> blk_mod (of_nat p) = of_nat (p mod 4096)"
proof -
  assume p: "p < 2 ^ 31"
  have "int p smod 4096 = int (p mod 4096)" by (simp add: signed_modulo_int_def zmod_int sgn_if)
  then show ?thesis by (simp add: blk_mod_def sint_small [OF p])
qed

definition chunk :: "nat \<Rightarrow> nat \<Rightarrow> nat" where
  "chunk p e = min (4096 - p mod 4096) (e - p)"

lemma unat_piece: "p \<le> e \<Longrightarrow> e < 2 ^ 31 \<Longrightarrow> piece (of_nat p) (of_nat e) = of_nat (chunk p e)"
proof -
  assume a: "p \<le> e" "e < 2 ^ 31"
  have m: "p mod 4096 < 4096" by simp
  have A: "BLKSIZE - of_nat (p mod 4096) = of_nat (4096 - p mod 4096)"
    using m by (simp add: BLKSIZE_def of_nat_diff)
  have B: "(of_nat e :: 32 word) - of_nat p = of_nat (e - p)" using a(1) by (simp add: of_nat_diff)
  have C: "min (of_nat x :: 32 word) (of_nat y) = of_nat (min x y)" if "x < 2 ^ 31" "y < 2 ^ 31" for x y
    using that by (simp add: min_def word_le_nat_alt unat_of_nat_32)
  have p: "p < 2 ^ 31" using a by simp
  show ?thesis
    unfolding piece_def blk_mod_small [OF p] A B chunk_def by (rule C) (use a in simp_all)
qed

lemma div_mod_within:
  assumes "p mod 4096 + j < (4096::nat)"
  shows "(p + j) div 4096 = p div 4096" "(p + j) mod 4096 = p mod 4096 + j"
proof -
  have k: "(4096 * q + r) div 4096 = q" "(4096 * q + r) mod 4096 = r" if "r < 4096" for q r :: nat using that by simp_all
  have e: "p + j = 4096 * (p div 4096) + (p mod 4096 + j)" by simp
  show "(p + j) div 4096 = p div 4096" "(p + j) mod 4096 = p mod 4096 + j"
    using k [OF assms] e by metis+
qed

lemma chunk_facts:
  assumes "p < e"
  shows "0 < chunk p e" "p mod 4096 + chunk p e \<le> 4096" "p + chunk p e \<le> e"
    "p + chunk p e < e \<Longrightarrow> (p + chunk p e) mod 4096 = 0 \<and> (p + chunk p e) div 4096 = Suc (p div 4096)"
    "j < chunk p e \<Longrightarrow> (p + j) div 4096 = p div 4096 \<and> (p + j) mod 4096 = p mod 4096 + j"
proof -
  have m: "p mod 4096 < 4096" by simp
  show "0 < chunk p e" "p mod 4096 + chunk p e \<le> 4096" "p + chunk p e \<le> e"
    using assms m by (auto simp: chunk_def)
  have d: "p = p div 4096 * 4096 + p mod 4096" by simp
  show "(p + chunk p e) mod 4096 = 0 \<and> (p + chunk p e) div 4096 = Suc (p div 4096)" if "p + chunk p e < e"
  proof -
    have "chunk p e = 4096 - p mod 4096" using that by (auto simp: chunk_def)
    moreover have "q * 4096 + r + (4096 - r) = Suc q * 4096" if "r < 4096" for q r :: nat using that by simp
    ultimately have "p + chunk p e = Suc (p div 4096) * 4096" using d m by metis
    then show ?thesis by simp
  qed
  show "(p + j) div 4096 = p div 4096 \<and> (p + j) mod 4096 = p mod 4096 + j" if "j < chunk p e"
    using div_mod_within [of p j] that by (auto simp: chunk_def)
qed

section \<open>Reading\<close>

definition fbyte :: "fs \<Rightarrow> nat \<Rightarrow> nat \<Rightarrow> nat \<Rightarrow> 8 word" where
  "fbyte s fb fo p = vbyte s (unat (slot s fb fo (p div 4096))) (p mod 4096)"

text \<open>The position may be accessed: its block is in memory or it is the block's first byte.\<close>

definition at_ready :: "fs \<Rightarrow> nat \<Rightarrow> nat \<Rightarrow> nat \<Rightarrow> bool" where
  "at_ready s fb fo p \<longleftrightarrow>
     p mod 4096 = 0 \<or> slot s fb fo (p div 4096) \<noteq> 0 \<and> cached s (unat (slot s fb fo (p div 4096)))"

lemma at_ready_ready:
  assumes "fs_ok s" "file_ok s fb fo" "p div 4096 < 1034" "slot s fb fo (p div 4096) \<noteq> 0" "at_ready s fb fo p"
  shows "ready s (unat (slot s fb fo (p div 4096))) (p mod 4096)"
  using file_ok_slot [OF assms(2-4)] assms(5) data_block_bounds(3) [OF assms(1), of "unat (slot s fb fo (p div 4096))"]
  by (auto simp: at_ready_def ready_def data_block_def)

lemma same_view_file:
  assumes "fs_ok s" "file_ok s fb fo" "same_env s t" "view t = view s"
  shows "fs_ok t" "file_ok t fb fo" "slot t fb fo n = slot s fb fo n" "fbyte t fb fo p = fbyte s fb fo p"
    "free_set t = free_set s"
proof -
  have om: "off_meta s t" using assms(3,4) by (simp add: off_meta_def)
  show "fs_ok t" "free_set t = free_set s" using off_meta_ok [OF assms(1) om] by simp_all
  have i: "ind_no t fb fo = ind_no s fb fo" by (simp add: ind_no_def assms(4))
  show sl: "slot t fb fo n = slot s fb fo n" for n by (simp add: slot_def i assms(4))
  show "file_ok t fb fo"
    using file_ok_cong [OF assms(2) i sl] off_meta_ok(4) [OF assms(1) om] assms(3) by (simp add: same_env_def)
  show "fbyte t fb fo p = fbyte s fb fo p" by (simp add: fbyte_def sl vbyte_def assms(4))
qed

lemma get_block_present:
  assumes "fs_ok s" "file_ok s fb fo" "n < 1034" "slot s fb fo n \<noteq> 0"
  shows "file_get_block (at fb fo) (of_nat n) s = Ret (Inr (at (unat (slot s fb fo n)) 0)) s"
proof -
  have "needed s fb fo n \<le> card (free_set s)" using assms(4) by (simp add: needed_def)
  then show ?thesis using file_get_block_effect [OF assms(1-3)] assms(4) by metis
qed

lemma read_loop_ok:
  assumes "fs_ok s" "file_ok s fb fo" "p \<le> e" "e \<le> 1034 * 4096"
    and "\<And>m. p div 4096 \<le> m \<Longrightarrow> m * 4096 < e \<Longrightarrow> slot s fb fo m \<noteq> 0"
    and "p < e \<Longrightarrow> at_ready s fb fo p" "e \<le> p \<or> (e - 1) div 4096 - p div 4096 < fuel"
  shows "\<exists>t. read_loop fuel (at fb fo) (of_nat p) (of_nat e) s = Ret (None, map (fbyte s fb fo) [p..<e]) t \<and>
    fs_ok t \<and> view t = view s \<and> same_env s t"
  using assms
proof (induction fuel arbitrary: p s)
  case (0 p s)
  then have "p = e" by simp
  then show ?case using 0 by (subst read_loop.simps) simp
next
  case (Suc fuel p s)
  note ok = Suc.prems(1,2)
  show ?case
  proof (cases "p < e")
    case False
    then have "p = e" using Suc.prems(3) by simp
    then show ?thesis using ok by (subst read_loop.simps) simp
  next
    case True
    let ?n = "p div 4096" and ?b = "unat (slot s fb fo (p div 4096))"
    have e31: "p < 2 ^ 31" "e < 2 ^ 31" using True Suc.prems(4) by simp_all
    have n: "?n < 1034" using True Suc.prems(4) by simp
    have nz: "slot s fb fo ?n \<noteq> 0" by (rule Suc.prems(5)) (use True in simp_all)
    note c = chunk_facts [OF True]
    have lt: "(of_nat p :: 32 word) < of_nat e" using e31 True by (simp add: word_less_nat_alt unat_of_nat_32)
    have r: "ready s ?b (p mod 4096)" by (rule at_ready_ready [OF ok n nz Suc.prems(6) [OF True]])
    have lb: "load_bytes (chunk p e) (at ?b (p mod 4096)) s =
        Ret (map (\<lambda>j. vbyte s ?b (p mod 4096 + j)) [0..<chunk p e]) (fetch ?b s)"
      by (rule load_bytes_ok [OF ok(1) r c(2,1)])
    have bytes: "map (\<lambda>j. vbyte s ?b (p mod 4096 + j)) [0..<chunk p e] = map (fbyte s fb fo) [p..<p + chunk p e]"
      using c(5) by (intro nth_equalityI) (simp_all add: fbyte_def)
    have cu: "unat (of_nat (chunk p e) :: 32 word) = chunk p e"
      using c(2) by (intro unat_of_nat_32) simp
    note sv = same_view_file [OF ok same_env_fetch [of s ?b] fetch_view [of ?b s]]
    have "\<exists>t. read_loop fuel (at fb fo) (of_nat (p + chunk p e)) (of_nat e) (fetch ?b s) =
        Ret (None, map (fbyte (fetch ?b s) fb fo) [p + chunk p e..<e]) t \<and> fs_ok t \<and> view t = view (fetch ?b s) \<and>
        same_env (fetch ?b s) t"
    proof (rule Suc.IH [OF sv(1,2) c(3) Suc.prems(4)])
      show "slot (fetch ?b s) fb fo m \<noteq> 0" if "(p + chunk p e) div 4096 \<le> m" "m * 4096 < e" for m
        using that Suc.prems(5) [of m] sv(3) div_le_mono [of p "p + chunk p e" 4096] by simp
      show "at_ready (fetch ?b s) fb fo (p + chunk p e)" if "p + chunk p e < e"
        using c(4) that by (simp add: at_ready_def)
      show "e \<le> p + chunk p e \<or> (e - 1) div 4096 - (p + chunk p e) div 4096 < fuel"
      proof (cases "p + chunk p e < e")
        case True
        then have "p + chunk p e \<le> e - 1" by simp
        then have "Suc (p div 4096) \<le> (e - 1) div 4096"
          using c(4) [OF True] div_le_mono [of "p + chunk p e" "e - 1" 4096] by simp
        moreover have "(e - 1) div 4096 - p div 4096 < Suc fuel" using Suc.prems(7) \<open>p < e\<close> by simp
        ultimately have "(e - 1) div 4096 - Suc (p div 4096) < fuel" by linarith
        then show ?thesis using c(4) [OF True] by simp
      qed simp
    qed
    then obtain t where t: "read_loop fuel (at fb fo) (of_nat (p + chunk p e)) (of_nat e) (fetch ?b s) =
        Ret (None, map (fbyte s fb fo) [p + chunk p e..<e]) t" "fs_ok t" "view t = view s" "same_env s t"
      using sv(4) same_env_trans [OF same_env_fetch [of s ?b]] by auto
    have split: "[p..<e] = [p..<p + chunk p e] @ [p + chunk p e..<e]"
      using c(3) upt_add_eq_append [of p "p + chunk p e" "e - (p + chunk p e)"] by simp
    have "read_loop (Suc fuel) (at fb fo) (of_nat p) (of_nat e) s = Ret (None, map (fbyte s fb fo) [p..<e]) t"
      unfolding split map_append bytes [symmetric]
      using lt t(1) by (subst read_loop.simps)
        (simp add: blk_div_small [OF e31(1)] get_block_present [OF ok n nz] unat_piece [OF Suc.prems(3) e31(2)] cu
          blk_mod_small [OF e31(1)] at_add lb)
    then show ?thesis using t(2-4) by blast
  qed
qed


section \<open>Writing\<close>

text \<open>What remains to be done needs at most a block for every block of the range, and the indirect block.\<close>

definition room :: "fs \<Rightarrow> nat \<Rightarrow> nat \<Rightarrow> nat \<Rightarrow> nat \<Rightarrow> bool" where
  "room s fb fo p e \<longleftrightarrow> p < e \<longrightarrow>
     (e - 1) div 4096 - p div 4096 + 1 + (if ind_no s fb fo = 0 then 1 else 0) \<le> card (free_set s)"

lemma get_block_bytes:
  assumes "fs_ok s" "file_ok s fb fo" "file_step s fb fo t" "data_same s fb fo t" "m < 1034" "slot s fb fo m \<noteq> 0"
  shows "slot t fb fo m = slot s fb fo m" "vbyte t (unat (slot s fb fo m)) = vbyte s (unat (slot s fb fo m))"
proof -
  note d = file_ok_slot [OF assms(2,5,6)]
  show "slot t fb fo m = slot s fb fo m" using assms(3,5,6) by (simp add: file_step_def)
  have "unat (slot s fb fo m) \<noteq> unat (ind_no s fb fo)" using d by (metis word_unat_eq_iff)
  then show "vbyte t (unat (slot s fb fo m)) = vbyte s (unat (slot s fb fo m))"
    using d assms(4) by (intro vbyte_view) (simp add: data_same_def)
qed

text \<open>What a write to the positions from p up to e leaves of the rest of the file.\<close>

definition wrote :: "fs \<Rightarrow> nat \<Rightarrow> nat \<Rightarrow> nat \<Rightarrow> 8 word list \<Rightarrow> fs \<Rightarrow> bool" where
  "wrote s fb fo p bs t \<longleftrightarrow>
     file_step s fb fo t \<and>
     (\<forall>j < length bs. slot t fb fo ((p + j) div 4096) \<noteq> 0 \<and> cached t (unat (slot t fb fo ((p + j) div 4096))) \<and>
        fbyte t fb fo (p + j) = bs ! j) \<and>
     (\<forall>q < 1034 * 4096. (q < p \<or> p + length bs \<le> q) \<and> slot s fb fo (q div 4096) \<noteq> 0 \<longrightarrow>
        fbyte t fb fo q = fbyte s fb fo q)"

lemma wrote_append:
  assumes "wrote s fb fo p xs t" "wrote t fb fo (p + length xs) ys u" "p + length xs + length ys \<le> 1034 * 4096"
  shows "wrote s fb fo p (xs @ ys) u"
proof -
  have st: "file_step s fb fo t" and tu: "file_step t fb fo u" using assms(1,2) by (simp_all add: wrote_def)
  have tu': "n < 1034 \<Longrightarrow> slot t fb fo n \<noteq> 0 \<Longrightarrow> slot u fb fo n = slot t fb fo n" "cached t c \<Longrightarrow> cached u c" for n c
    using tu by (simp_all add: file_step_def same_env_def)
  have st': "n < 1034 \<Longrightarrow> slot s fb fo n \<noteq> 0 \<Longrightarrow> slot t fb fo n = slot s fb fo n" for n
    using st by (simp add: file_step_def)
  have old: "fbyte u fb fo q = fbyte t fb fo q"
    if "q < 1034 * 4096" "q < p + length xs \<or> p + length xs + length ys \<le> q" "slot t fb fo (q div 4096) \<noteq> 0" for q
    using assms(2) that by (simp add: wrote_def)
  have J: "slot u fb fo ((p + j) div 4096) \<noteq> 0 \<and> cached u (unat (slot u fb fo ((p + j) div 4096))) \<and>
      fbyte u fb fo (p + j) = (xs @ ys) ! j" if j: "j < length (xs @ ys)" for j
  proof (cases "j < length xs")
    case True
    then have t: "slot t fb fo ((p + j) div 4096) \<noteq> 0" "cached t (unat (slot t fb fo ((p + j) div 4096)))"
      "fbyte t fb fo (p + j) = xs ! j" using assms(1) by (simp_all add: wrote_def)
    moreover have "(p + j) div 4096 < 1034" "p + j < 1034 * 4096" using True assms(3) by simp_all
    ultimately show ?thesis using tu' old [of "p + j"] True by (simp add: nth_append)
  next
    case False
    define i where "i = j - length xs"
    have i: "i < length ys" "j = length xs + i" using False j by (simp_all add: i_def)
    have "slot u fb fo ((p + length xs + i) div 4096) \<noteq> 0 \<and>
        cached u (unat (slot u fb fo ((p + length xs + i) div 4096))) \<and>
        fbyte u fb fo (p + length xs + i) = ys ! i" using assms(2) i(1) by (simp add: wrote_def)
    then show ?thesis using i(2) by (simp add: nth_append add.assoc)
  qed
  show ?thesis
    unfolding wrote_def
  proof (intro conjI allI impI)
    show "file_step s fb fo u" by (rule file_step_trans [OF st tu])
    fix j assume "j < length (xs @ ys)"
    from J [OF this] show "slot u fb fo ((p + j) div 4096) \<noteq> 0" "cached u (unat (slot u fb fo ((p + j) div 4096)))"
      "fbyte u fb fo (p + j) = (xs @ ys) ! j" by blast+
  next
    fix q assume q: "q < 1034 * 4096" "(q < p \<or> p + length (xs @ ys) \<le> q) \<and> slot s fb fo (q div 4096) \<noteq> 0"
    then have "slot t fb fo (q div 4096) \<noteq> 0" using st' [of "q div 4096"] by simp
    moreover have "fbyte t fb fo q = fbyte s fb fo q" using q assms(1) by (auto simp: wrote_def)
    ultimately show "fbyte u fb fo q = fbyte s fb fo q" using old [of q] q by auto
  qed
qed

text \<open>One piece: the block is found or allocated, then written.\<close>

lemma write_piece:
  assumes "fs_ok s" "file_ok s fb fo" "n < 1034" "needed s fb fo n \<le> card (free_set s)"
    and "at_ready s fb fo p" "n = p div 4096" "bs \<noteq> []" "p mod 4096 + length bs \<le> 4096"
  obtains u t where "file_get_block (at fb fo) (of_nat n) s = Ret (Inr (at (unat (slot u fb fo n)) 0)) u"
    "store_bytes bs (at (unat (slot u fb fo n)) (p mod 4096)) u = Ret () t" "wrote s fb fo p bs t"
    "card (free_set s) \<le> card (free_set t) + needed s fb fo n" "10 \<le> n \<Longrightarrow> ind_no t fb fo \<noteq> 0"
    "n < 10 \<Longrightarrow> ind_no t fb fo = ind_no s fb fo"
proof -
  obtain u where u: "file_get_block (at fb fo) (of_nat n) s = Ret (Inr (at (unat (slot u fb fo n)) 0)) u"
    "file_step s fb fo u" "data_same s fb fo u" "slot u fb fo n \<noteq> 0" "n < 10 \<or> ind_no u fb fo \<noteq> 0"
    "card (free_set s) \<le> card (free_set u) + needed s fb fo n" "n < 10 \<Longrightarrow> ind_no u fb fo = ind_no s fb fo"
    using file_get_block_effect [OF assms(1-4)] by metis
  have ok: "fs_ok u" "file_ok u fb fo" using u(2) by (simp_all add: file_step_def)
  let ?b = "unat (slot u fb fo n)"
  have ar: "at_ready u fb fo p"
  proof (cases "p mod 4096 = 0")
    case False
    then have "slot s fb fo n \<noteq> 0" "cached s (unat (slot s fb fo n))" using assms(5,6) by (simp_all add: at_ready_def)
    moreover have "slot u fb fo n = slot s fb fo n" using u(2) assms(3) calculation(1) by (simp add: file_step_def)
    moreover have "cached s c \<Longrightarrow> cached u c" for c using u(2) by (simp add: file_step_def same_env_def)
    ultimately show ?thesis using assms(6) by (simp add: at_ready_def)
  qed (simp add: at_ready_def)
  have r: "ready u ?b (p mod 4096)" using at_ready_ready [OF ok _ _ ar] assms(3,6) u(4) by simp
  have d: "data_start u \<le> ?b" using file_ok_slot [OF ok(2) assms(3) u(4)] by (simp add: data_block_def)
  obtain t where t: "store_bytes bs (at ?b (p mod 4096)) u = Ret () t" "off_meta u t" "cached t ?b"
    "\<And>c. c \<noteq> ?b \<Longrightarrow> view t c = view u c"
    "\<And>j. vbyte t ?b j = (if p mod 4096 \<le> j \<and> j < p mod 4096 + length bs then bs ! (j - p mod 4096) else vbyte u ?b j)"
    using store_bytes_ok [OF ok(1) r assms(8,7) d] by (elim exE conjE) (rule that; blast)
  note sf = store_file_step [OF ok assms(3) u(4) t(2,4)]
  have sl: "m < 1034 \<Longrightarrow> slot t fb fo m = slot u fb fo m" for m by (rule sf(3))
  have dm: "(p + j) div 4096 = n \<and> (p + j) mod 4096 = p mod 4096 + j" if "j < length bs" for j
    unfolding assms(6) by (intro conjI div_mod_within) (use that assms(8) in linarith)+
  have "wrote s fb fo p bs t"
    unfolding wrote_def
  proof (intro conjI allI impI)
    show "file_step s fb fo t" by (rule file_step_trans [OF u(2) sf(1)])
    fix j assume j: "j < length bs"
    show "slot t fb fo ((p + j) div 4096) \<noteq> 0" "cached t (unat (slot t fb fo ((p + j) div 4096)))"
      "fbyte t fb fo (p + j) = bs ! j"
      using dm [OF j] sl [OF assms(3)] u(4) t(3,5) j by (simp_all add: fbyte_def)
  next
    fix q assume q: "q < 1034 * 4096" "(q < p \<or> p + length bs \<le> q) \<and> slot s fb fo (q div 4096) \<noteq> 0"
    let ?m = "q div 4096"
    have m: "?m < 1034" using q by simp
    note gb = get_block_bytes [OF assms(1,2) u(2,3) m]
    have su: "slot u fb fo ?m = slot s fb fo ?m" "vbyte u (unat (slot s fb fo ?m)) = vbyte s (unat (slot s fb fo ?m))"
      using gb q by simp_all
    show "fbyte t fb fo q = fbyte s fb fo q"
    proof (cases "?m = n")
      case True
      have "\<not> (p mod 4096 \<le> q mod 4096 \<and> q mod 4096 < p mod 4096 + length bs)"
      proof -
        have "q = n * 4096 + q mod 4096" "p = n * 4096 + p mod 4096"
          using div_mult_mod_eq [of q 4096] div_mult_mod_eq [of p 4096] True assms(6) by metis+
        then show ?thesis using q by linarith
      qed
      then show ?thesis using True su sl [OF m] t(5) by (auto simp: fbyte_def)
    next
      case False
      then have "unat (slot s fb fo ?m) \<noteq> ?b"
        using file_ok_inj [OF ok(2) m assms(3)] su(1) q u(4) by (metis word_unat_eq_iff)
      then show ?thesis using su sl [OF m] vbyte_view [OF t(4)] by (simp add: fbyte_def)
    qed
  qed
  then show thesis
    using that [OF u(1) t(1)] u(5-7) sf(2) off_meta_ok(5) [OF ok(1) t(2)] by auto
qed

lemma write_loop_ok:
  assumes "fs_ok s" "file_ok s fb fo" "e = p + length buf" "e \<le> 1034 * 4096"
    and "p < e \<Longrightarrow> at_ready s fb fo p" "room s fb fo p e" "e \<le> p \<or> (e - 1) div 4096 - p div 4096 < fuel"
  shows "\<exists>t. write_loop fuel (at fb fo) buf (of_nat p) (of_nat e) s = Ret None t \<and> wrote s fb fo p buf t"
  using assms
proof (induction fuel arbitrary: p s buf)
  case (0 p s)
  then show ?case using file_step_refl by (subst write_loop.simps) (auto simp: wrote_def)
next
  case (Suc fuel p s buf)
  note ok = Suc.prems(1,2)
  show ?case
  proof (cases "p < e")
    case False
    then show ?thesis using Suc.prems(3) file_step_refl [OF ok] by (subst write_loop.simps) (auto simp: wrote_def)
  next
    case True
    let ?n = "p div 4096" and ?c = "chunk p e"
    have e31: "p < 2 ^ 31" "e < 2 ^ 31" using True Suc.prems(4) by simp_all
    have n: "?n < 1034" using True Suc.prems(4) by simp
    note c = chunk_facts [OF True]
    have ce: "?n \<le> (e - 1) div 4096" using True by (intro div_le_mono) simp
    have nd: "needed s fb fo ?n \<le> card (free_set s)"
      using Suc.prems(6) True by (auto simp: needed_def room_def split: if_splits)
    have pe: "p \<le> e" using True by simp
    have lt: "(of_nat p :: 32 word) < of_nat e" using e31 True by (simp add: word_less_nat_alt unat_of_nat_32)
    have cu: "unat (of_nat ?c :: 32 word) = ?c" using c(2) by (intro unat_of_nat_32) simp
    have ln: "length (take ?c buf) = ?c" "take ?c buf \<noteq> []" using c(1,3) Suc.prems(3) by auto
    obtain u t where u: "file_get_block (at fb fo) (of_nat ?n) s = Ret (Inr (at (unat (slot u fb fo ?n)) 0)) u"
      "store_bytes (take ?c buf) (at (unat (slot u fb fo ?n)) (p mod 4096)) u = Ret () t"
      and t: "wrote s fb fo p (take ?c buf) t" "card (free_set s) \<le> card (free_set t) + needed s fb fo ?n"
        "10 \<le> ?n \<Longrightarrow> ind_no t fb fo \<noteq> 0" "?n < 10 \<Longrightarrow> ind_no t fb fo = ind_no s fb fo"
      using write_piece [OF ok n nd Suc.prems(5) [OF True] refl ln(2)] c(2) ln(1) by metis
    have okt: "fs_ok t" "file_ok t fb fo" using t(1) by (simp_all add: wrote_def file_step_def)
    have "\<exists>v. write_loop fuel (at fb fo) (drop ?c buf) (of_nat (p + ?c)) (of_nat e) t = Ret None v \<and>
        wrote t fb fo (p + ?c) (drop ?c buf) v"
    proof (rule Suc.IH [OF okt _ Suc.prems(4)])
      show "e = p + ?c + length (drop ?c buf)" using c(3) Suc.prems(3) by simp
      show "at_ready t fb fo (p + ?c)" if "p + ?c < e" using c(4) [OF that] by (simp add: at_ready_def)
      have next_n: "Suc ?n \<le> (e - 1) div 4096 \<and> (p + ?c) div 4096 = Suc ?n" if "p + ?c < e"
        using c(4) [OF that] that div_le_mono [of "p + ?c" "e - 1" 4096] by simp
      show "room t fb fo (p + ?c) e"
        unfolding room_def
      proof
        assume lt: "p + ?c < e"
        obtain d where d: "(e - 1) div 4096 = Suc ?n + d" using next_n [OF lt] le_Suc_ex by blast
        have "d + 2 + (if ind_no s fb fo = 0 then 1 else 0) \<le> card (free_set s)"
          using Suc.prems(6) True d by (simp add: room_def)
        then have "d + 1 + (if ind_no t fb fo = 0 then 1 else 0) \<le> card (free_set t)"
          using t(2-4) by (cases "?n < 10") (auto simp: needed_def split: if_splits)
        then show "(e - 1) div 4096 - (p + ?c) div 4096 + 1 + (if ind_no t fb fo = 0 then 1 else 0) \<le> card (free_set t)"
          using next_n [OF lt] d by simp
      qed
      show "e \<le> p + ?c \<or> (e - 1) div 4096 - (p + ?c) div 4096 < fuel"
        using next_n Suc.prems(7) True by (cases "p + ?c < e") linarith+
    qed
    then obtain v where v: "write_loop fuel (at fb fo) (drop ?c buf) (of_nat (p + ?c)) (of_nat e) t = Ret None v"
      "wrote t fb fo (p + ?c) (drop ?c buf) v" by blast
    have "wrote s fb fo p (take ?c buf @ drop ?c buf) v"
      using ln(1) v(2) Suc.prems(3,4) c(3) by (intro wrote_append [OF t(1)]) simp_all
    moreover have "write_loop (Suc fuel) (at fb fo) buf (of_nat p) (of_nat e) s = Ret None v"
      using lt v(1) u by (subst write_loop.simps)
        (simp add: blk_div_small [OF e31(1)] unat_piece [OF pe e31(2)] cu blk_mod_small [OF e31(1)] at_add)
    ultimately show ?thesis by auto
  qed
qed

end
