(* ===== verification/Fs_Props.thy ===== *)
theory Fs_Props
  imports Fs_Data
begin

text \<open>
  The properties of the file system, and a small disk on which they are applied.
\<close>

section \<open>Path names\<close>

text \<open>The elements of a path, and the meaning of a path that is given as the list of its elements.\<close>

fun split_slash :: "8 word list \<Rightarrow> 8 word list list" where
  "split_slash [] = [[]]"
| "split_slash (c # cs) =
     (if c = 47 then [] # split_slash cs
      else (c # hd (split_slash cs)) # tl (split_slash cs))"

definition elements :: "8 word list \<Rightarrow> 8 word list list" where
  "elements path = filter (\<lambda>e. e \<noteq> []) (split_slash path)"

fun resolve :: "8 word list list \<Rightarrow> 32 word option \<Rightarrow> 32 word \<Rightarrow> fs \<Rightarrow> (walk, fs) kres" where
  "resolve [] dir f s = Ret \<lparr>w_res = 0, w_dir = dir, w_file = Some f, w_last = None\<rparr> s"
| "resolve (name # rest) dir f s =
     (if 128 \<le> length name
      then Ret \<lparr>w_res = - E_BAD_PATH, w_dir = None, w_file = None, w_last = None\<rparr> s
      else kbind (load32 (f_type_at f) s) (\<lambda>ty s.
        if ty \<noteq> FTYPE_DIR
        then Ret \<lparr>w_res = - E_NOT_FOUND, w_dir = None, w_file = None, w_last = None\<rparr> s
        else kbind (dir_lookup f name s) (\<lambda>r s.
          case r of
            Inr f' \<Rightarrow> resolve rest (Some f) f' s
          | Inl e \<Rightarrow>
              if e = - E_NOT_FOUND \<and> rest = []
              then Ret \<lparr>w_res = e, w_dir = Some f, w_file = None, w_last = Some name\<rparr> s
              else Ret \<lparr>w_res = e, w_dir = None, w_file = None, w_last = None\<rparr> s)))"

lemma split_slash_eq:
  "split_slash p = takeWhile (\<lambda>c. c \<noteq> 47) p #
     (case dropWhile (\<lambda>c. c \<noteq> 47) p of [] \<Rightarrow> [] | _ # cs \<Rightarrow> split_slash cs)"
  by (induction p) auto

lemma elements_skip: "elements (skip_slash p) = elements p"
  by (induction p) (auto simp: elements_def skip_slash_def)

lemma elements_Cons:
  assumes "p \<noteq> []" "hd p \<noteq> 47"
  shows "elements p = takeWhile (\<lambda>c. c \<noteq> 47) p # elements (skip_slash (dropWhile (\<lambda>c. c \<noteq> 47) p))"
proof -
  have t: "takeWhile (\<lambda>c. c \<noteq> 47) p \<noteq> []" using assms by (cases p) auto
  have "elements (dropWhile (\<lambda>c. c \<noteq> 47) p) =
      filter (\<lambda>e. e \<noteq> []) (case dropWhile (\<lambda>c. c \<noteq> 47) p of [] \<Rightarrow> [] | _ # cs \<Rightarrow> split_slash cs)"
  proof (cases "dropWhile (\<lambda>c. c \<noteq> 47) p")
    case (Cons c cs)
    then have "c = 47" using hd_dropWhile [of "\<lambda>c. c \<noteq> 47" p] by (metis list.distinct(1) list.sel(1))
    then show ?thesis using Cons by (simp add: elements_def)
  qed (simp only: elements_def split_slash.simps list.case filter.simps simp_thms if_False)
  then show ?thesis
    using t unfolding elements_skip by (subst elements_def, subst split_slash_eq) simp
qed

lemma elements_Nil: "hd p \<noteq> 47 \<Longrightarrow> elements p = [] \<longleftrightarrow> p = []"
  using elements_Cons by (cases "p = []") (auto simp: elements_def)

lemma skip_slash_hd: "skip_slash p \<noteq> [] \<Longrightarrow> hd (skip_slash p) \<noteq> 47"
  using hd_dropWhile [of "\<lambda>c. c = 47" p] by (simp add: skip_slash_def)

lemma walk_loop_resolve: "path = [] \<or> hd path \<noteq> 47 \<Longrightarrow> walk_loop path dir f s = resolve (elements path) dir f s"
proof (induction "length path" arbitrary: path dir f s rule: less_induct)
  case less
  show ?case
  proof (cases "path = []")
    case True
    then show ?thesis by (subst walk_loop.simps) (simp add: elements_def)
  next
    case False
    let ?name = "takeWhile (\<lambda>c. c \<noteq> 47) path" and ?rest = "skip_slash (dropWhile (\<lambda>c. c \<noteq> 47) path)"
    have h: "hd path \<noteq> 47" using less.prems False by blast
    have len: "length ?rest < length path"
    proof -
      have "length ?rest \<le> length (dropWhile (\<lambda>c. c \<noteq> 47) path)"
        unfolding skip_slash_def by (rule length_dropWhile_le)
      also have "\<dots> < length path" using h False by (cases path) (auto simp: le_imp_less_Suc length_dropWhile_le)
      finally show ?thesis .
    qed
    have rest: "?rest = [] \<or> hd ?rest \<noteq> 47" using skip_slash_hd by blast
    have nil: "elements ?rest = [] \<longleftrightarrow> ?rest = []" using elements_Nil rest by (cases "?rest = []") (simp_all add: elements_def)
    have k: "(case r of
          Inl r \<Rightarrow> if r = - E_NOT_FOUND \<and> ?rest = [] then A r else B r
        | Inr f' \<Rightarrow> walk_loop ?rest (Some f) f' s) =
      (case r of
          Inr f' \<Rightarrow> resolve (elements ?rest) (Some f) f' s
        | Inl e \<Rightarrow> if e = - E_NOT_FOUND \<and> elements ?rest = [] then A e else B e)" for r s A B
      using less.hyps [OF len rest] nil by (cases r) simp_all
    show ?thesis
      unfolding elements_Cons [OF False h]
      by (subst walk_loop.simps) (simp only: False Let_def MAXNAMELEN_def resolve.simps k if_False)
  qed
qed

text \<open>
  C35. walk_path resolves the elements of a path one by one, whatever slashes separate or surround them.
\<close>

theorem walk_path_elements: "walk_path path s = resolve (elements path) None s_root_at s"
  unfolding walk_path_def
  using walk_loop_resolve [of "skip_slash path" None s_root_at s] skip_slash_hd [of path]
  by (cases "skip_slash path = []") (simp_all only: elements_skip [of path, symmetric] simp_thms)

section \<open>The size of a file\<close>

definition fsize :: "fs \<Rightarrow> nat \<Rightarrow> nat \<Rightarrow> 32 word" where
  "fsize s fb fo = view s fb (fo div 4 + 32)"

lemma load_size:
  assumes "fs_ok s" "file_at s fb fo"
  shows "load32 (f_size_at (at fb fo)) s = Ret (fsize s fb fo) s"
proof -
  note f = file_at_bounds [OF assms]
  have "ready s fb (fo + 128)" using f(5) [of 128] assms(2) by (simp add: file_at_def)
  then show ?thesis using load32_ok [OF assms(1)] f(4) f(8) [of 32]
    by (simp add: f_size_at_def fsize_def)
qed

text \<open>Only the size of the file has changed.\<close>

lemma size_changed:
  assumes "fs_ok s" "file_ok s fb fo" "off_meta s t"
    and "view t = (view s)(fb := (view s fb)(fo div 4 + 32 := w))" "cached t = cached s"
  shows "fs_ok t" "file_ok t fb fo" "ind_no t fb fo = ind_no s fb fo"
    "n < 1034 \<Longrightarrow> slot t fb fo n = slot s fb fo n" "free_set t = free_set s" "fsize t fb fo = w"
    "q < 1034 * 4096 \<Longrightarrow> slot s fb fo (q div 4096) \<noteq> 0 \<Longrightarrow> fbyte t fb fo q = fbyte s fb fo q"
    "nblk t = nblk s"
proof -
  note m = off_meta_ok [OF assms(1,3)]
  note v = assms(4,5)
  show i: "ind_no t fb fo = ind_no s fb fo" by (simp add: ind_no_def v)
  have d: "ind_no s fb fo \<noteq> 0 \<Longrightarrow> unat (ind_no s fb fo) \<noteq> fb" using file_ok_ind [OF assms(2)] by blast
  show sl: "n < 1034 \<Longrightarrow> slot t fb fo n = slot s fb fo n" for n
    using d by (simp add: slot_def i v)
  show "fsize t fb fo = w" "free_set t = free_set s" "fs_ok t" "nblk t = nblk s"
    using m by (simp_all add: v fsize_def)
  show "file_ok t fb fo"
    by (rule file_ok_cong [OF assms(2) i sl]) (simp_all add: v m)
  show "fbyte t fb fo q = fbyte s fb fo q" if "q < 1034 * 4096" "slot s fb fo (q div 4096) \<noteq> 0"
  proof -
    have n: "q div 4096 < 1034" using that(1) by simp
    have "unat (slot s fb fo (q div 4096)) \<noteq> fb" using file_ok_slot [OF assms(2) n that(2)] by blast
    then show ?thesis by (simp add: fbyte_def sl [OF n] vbyte_def v)
  qed
qed

lemma put_size:
  assumes "fs_ok s" "file_at s fb fo"
  shows "off_meta s (put fb (fo div 4 + 32) w s)" "cached (put fb (fo div 4 + 32) w s) = cached s"
    "view (put fb (fo div 4 + 32) w s) = (view s)(fb := (view s fb)(fo div 4 + 32 := w))"
    "store32 (f_size_at (at fb fo)) w s = Ret () (put fb (fo div 4 + 32) w s)"
proof -
  note f = file_at_bounds [OF assms]
  have k: "fo div 4 + 32 < 1024" using f(7) by simp
  show "off_meta s (put fb (fo div 4 + 32) w s)"
    using f(11) k by (intro off_meta_put [OF assms(1) f(3,2) k]) auto
  show "cached (put fb (fo div 4 + 32) w s) = cached s"
    "view (put fb (fo div 4 + 32) w s) = (view s)(fb := (view s fb)(fo div 4 + 32 := w))"
    using put_sel(1,2) [OF f(3,1) k] by simp_all
  have r: "ready s fb (fo + 128)" using f(5) [of 128] assms(2) by (simp add: file_at_def)
  show "store32 (f_size_at (at fb fo)) w s = Ret () (put fb (fo div 4 + 32) w s)"
    using store32_ok [OF assms(1) r] f(4) f(8) [of 32] by (simp add: f_size_at_def)
qed

definition resized :: "nat \<Rightarrow> nat \<Rightarrow> 32 word \<Rightarrow> fs \<Rightarrow> fs" where
  "resized fb fo w s = flushed fb (put fb (fo div 4 + 32) w s)"

lemma resized_meta:
  assumes "fs_ok s" "file_at s fb fo"
  shows "off_meta s (resized fb fo w s)" "cached (resized fb fo w s) = cached s"
    "view (resized fb fo w s) = (view s)(fb := (view s fb)(fo div 4 + 32 := w))"
proof -
  note p = put_size [OF assms, of w]
  show "cached (resized fb fo w s) = cached s"
    "view (resized fb fo w s) = (view s)(fb := (view s fb)(fo div 4 + 32 := w))"
    using p(2,3) by (simp_all add: resized_def)
  show "off_meta s (resized fb fo w s)"
    using p(1) same_env_trans [OF _ same_env_flushed] by (simp add: off_meta_def resized_def)
qed

lemma file_set_size_grow:
  assumes "fs_ok s" "file_ok s fb fo" "sint (fsize s fb fo) \<le> sint w"
  shows "file_set_size (at fb fo) w s = Ret 0 (resized fb fo w s)"
proof -
  have fa: "file_at s fb fo" by (rule file_ok_file_at [OF assms(2)])
  note f = file_at_bounds [OF assms(1) fa] and p = put_size [OF assms(1) fa, of w]
  have fo: "fo < 4096" using fa by (simp add: file_at_def)
  note m = off_meta_ok [OF assms(1) p(1)]
  have fl: "flush_block (at fb fo) (put fb (fo div 4 + 32) w s) = Ret () (resized fb fo w s)"
    unfolding resized_def by (rule flush_block_ok [OF m(1) _ fo]) (simp add: m f(2))
  show ?thesis
    using assms(3) by (simp add: file_set_size_def load_size [OF assms(1) fa] p(4) fl)
qed

section \<open>Writing, then reading back\<close>

text \<open>What a write leaves: the size, the bytes, and the bytes that are outside the range.\<close>

definition written :: "fs \<Rightarrow> nat \<Rightarrow> nat \<Rightarrow> nat \<Rightarrow> 8 word list \<Rightarrow> fs \<Rightarrow> bool" where
  "written s fb fo p buf t \<longleftrightarrow>
     fs_ok t \<and> file_ok t fb fo \<and>
     unat (fsize t fb fo) = max (unat (fsize s fb fo)) (p + length buf) \<and>
     (\<forall>j < length buf. slot t fb fo ((p + j) div 4096) \<noteq> 0 \<and> cached t (unat (slot t fb fo ((p + j) div 4096))) \<and>
        fbyte t fb fo (p + j) = buf ! j) \<and>
     (\<forall>q < 1034 * 4096. (q < p \<or> p + length buf \<le> q) \<and> slot s fb fo (q div 4096) \<noteq> 0 \<longrightarrow>
        fbyte t fb fo q = fbyte s fb fo q)"

lemma file_write_effect:
  assumes "fs_ok s" "file_ok s fb fo" "buf \<noteq> []" "p + length buf \<le> 1034 * 4096"
    and "unat (fsize s fb fo) < 2 ^ 31" "at_ready s fb fo p" "room s fb fo p (p + length buf)"
  shows "\<exists>t. file_write (at fb fo) buf (of_nat p) s = Ret (int (length buf)) t \<and> written s fb fo p buf t"
proof -
  let ?e = "p + length buf"
  define grow where "grow \<longleftrightarrow> unat (fsize s fb fo) < ?e"
  define u where "u = (if grow then resized fb fo (of_nat ?e) s else s)"
  have e31: "?e < 2 ^ 31" "length buf < 2 ^ 31" using assms(4) by simp_all
  have se: "sint (of_nat ?e :: 32 word) = int ?e" "sint (of_nat (length buf) :: 32 word) = int (length buf)"
    using e31 by (simp_all only: sint_small)
  have ss: "sint (fsize s fb fo) = int (unat (fsize s fb fo))"
    using sint_small [OF assms(5)] by simp
  have gr: "of_nat p + of_nat (length buf) > fsize s fb fo \<longleftrightarrow> grow"
  proof -
    have "unat (of_nat ?e :: 32 word) = ?e" by (rule unat_of_nat_32) (use e31 in simp)
    then show ?thesis unfolding word_less_nat_alt grow_def of_nat_add [symmetric] by simp
  qed
  have sz: "(if of_nat p + of_nat (length buf) > fsize s fb fo
      then file_set_size (at fb fo) (of_nat p + of_nat (length buf)) s else Ret 0 s) = Ret 0 u"
  proof (cases grow)
    case True
    then have "sint (fsize s fb fo) \<le> sint (of_nat ?e :: 32 word)" unfolding se ss grow_def by (simp only: of_nat_le_iff less_imp_le)
    then show ?thesis unfolding gr using True file_set_size_grow [OF assms(1,2)] by (simp add: u_def)
  qed (unfold gr, simp add: u_def)
  note rm = resized_meta [OF assms(1) file_ok_file_at [OF assms(2)], of "of_nat ?e"]
  note r = size_changed [OF assms(1,2) rm(1,3,2)]
  have u: "fs_ok u" "file_ok u fb fo" "ind_no u fb fo = ind_no s fb fo" "cached u = cached s"
    "\<And>n. n < 1034 \<Longrightarrow> slot u fb fo n = slot s fb fo n" "free_set u = free_set s"
    "\<And>q. q < 1034 * 4096 \<Longrightarrow> slot s fb fo (q div 4096) \<noteq> 0 \<Longrightarrow> fbyte u fb fo q = fbyte s fb fo q"
    using r rm(2) assms(1,2) by (simp_all add: u_def)
  have us: "unat (fsize u fb fo) = max (unat (fsize s fb fo)) ?e"
  proof (cases grow)
    case True
    have "unat (of_nat ?e :: 32 word) = ?e" by (rule unat_of_nat_32) (use e31 in simp)
    then show ?thesis using True r(6) by (simp add: u_def grow_def)
  qed (simp add: u_def grow_def)
  have p: "p div 4096 < 1034" using assms(3,4) by (cases buf) auto
  have "\<exists>t. write_loop (2 ^ 20 + 1) (at fb fo) buf (of_nat p) (of_nat ?e) u = Ret None t \<and> wrote u fb fo p buf t"
  proof (rule write_loop_ok [OF u(1,2) refl assms(4)])
    show "at_ready u fb fo p" using assms(6) p by (simp add: at_ready_def u)
    show "room u fb fo p ?e" using assms(7) by (simp add: room_def u)
    have "(?e - 1) div 4096 \<le> 1034" using assms(4) by simp
    then have "(?e - 1) div 4096 - p div 4096 < 2 ^ 20 + 1" by simp
    then show "?e \<le> p \<or> (?e - 1) div 4096 - p div 4096 < 2 ^ 20 + 1" by blast
  qed
  then obtain t where t: "write_loop (2 ^ 20 + 1) (at fb fo) buf (of_nat p) (of_nat ?e) u = Ret None t"
    "wrote u fb fo p buf t" by blast
  have "file_write (at fb fo) buf (of_nat p) s = Ret (int (length buf)) t"
    using sz t(1) se(2) load_size [OF assms(1) file_ok_file_at [OF assms(2)]]
    by (simp add: file_write_def Let_def)
  moreover have "written s fb fo p buf t"
  proof -
    have fs: "file_step u fb fo t" using t(2) by (simp add: wrote_def)
    have q: "\<And>q. q < 1034 * 4096 \<Longrightarrow> q < p \<or> ?e \<le> q \<Longrightarrow> slot s fb fo (q div 4096) \<noteq> 0 \<Longrightarrow>
        fbyte t fb fo q = fbyte s fb fo q"
      using t(2) u(5,7) by (simp add: wrote_def)
    have "fsize t fb fo = fsize u fb fo" using fs by (simp add: file_step_def fsize_def)
    then show ?thesis
      using fs q us t(2) by (simp add: written_def file_step_def wrote_def)
  qed
  ultimately show ?thesis by blast
qed

lemma file_read_written:
  assumes "written s fb fo p buf t" "buf \<noteq> []" "p + length buf \<le> 1034 * 4096" "unat (fsize s fb fo) < 2 ^ 31"
  shows "\<exists>u. file_read (at fb fo) (of_nat (length buf)) (of_nat p) t = Ret (int (length buf), buf) u \<and>
    fs_ok u \<and> file_ok u fb fo \<and> (\<forall>q. fbyte u fb fo q = fbyte t fb fo q)"
proof -
  let ?e = "p + length buf" and ?n = "unat (fsize t fb fo)"
  have ok: "fs_ok t" "file_ok t fb fo" and n: "?n = max (unat (fsize s fb fo)) ?e" using assms(1) by (simp_all add: written_def)
  have b: "\<And>j. j < length buf \<Longrightarrow> slot t fb fo ((p + j) div 4096) \<noteq> 0 \<and>
      cached t (unat (slot t fb fo ((p + j) div 4096))) \<and> fbyte t fb fo (p + j) = buf ! j"
    using assms(1) by (simp add: written_def)
  have len: "0 < length buf" using assms(2) by simp
  have bytes: "map (fbyte t fb fo) [p..<?e] = buf" using b by (intro nth_equalityI) simp_all
  have n31: "?n < 2 ^ 31" "?e \<le> ?n" "p < 2 ^ 31" using n assms(3,4) by auto
  have sl: "slot t fb fo m \<noteq> 0" if "p div 4096 \<le> m" "m * 4096 < ?e" for m
  proof (cases "p \<le> m * 4096")
    case True
    then show ?thesis using b [of "m * 4096 - p"] that(2) by simp
  next
    case False
    then have "p div 4096 = m" using that(1) by (metis div_le_mono le_antisym nat_le_linear nonzero_mult_div_cancel_right zero_neq_numeral)
    then show ?thesis using b [of 0] len by simp
  qed
  have "at_ready t fb fo p" using b [of 0] len by (simp add: at_ready_def)
  moreover have "(?e - 1) div 4096 - p div 4096 < 2 ^ 20 + 1"
  proof -
    have "(?e - 1) div 4096 \<le> 1034" using assms(3) by simp
    then show ?thesis by simp
  qed
  ultimately obtain u where u: "read_loop (2 ^ 20 + 1) (at fb fo) (of_nat p) (of_nat ?e) t = Ret (None, buf) u"
    "fs_ok u" "view u = view t" "same_env t u"
    using read_loop_ok [OF ok, of p ?e "2 ^ 20 + 1"] sl assms(3) unfolding bytes by auto
  have ss: "sint (fsize t fb fo) = int ?n" using sint_small [OF n31(1)] by simp
  have sp: "sint (of_nat p :: 32 word) = int p" by (rule sint_small [OF n31(3)])
  have lt: "\<not> sint (fsize t fb fo) \<le> sint (of_nat p :: 32 word)" unfolding ss sp of_nat_le_iff using n31(2) len by linarith
  have mn: "min (of_nat (length buf)) (fsize t fb fo - of_nat p) = (of_nat (length buf) :: 32 word)"
  proof -
    have "fsize t fb fo - of_nat p = (of_nat (?n - p) :: 32 word)" using n31(2) by (simp add: of_nat_diff)
    moreover have "unat (of_nat (?n - p) :: 32 word) = ?n - p" by (rule unat_of_nat_32) (use n31(1) in simp)
    moreover have "unat (of_nat (length buf) :: 32 word) = length buf" by (rule unat_of_nat_32) (use assms(3) in simp)
    moreover have "length buf \<le> ?n - p" using n31(2) by linarith
    ultimately show ?thesis by (simp add: min_def word_le_nat_alt)
  qed
  have sl: "sint (of_nat (length buf) :: 32 word) = int (length buf)" by (rule sint_small) (use assms(3) in simp)
  have "file_read (at fb fo) (of_nat (length buf)) (of_nat p) t = Ret (int (length buf), buf) u"
    using u(1) lt by (simp add: file_read_def load_size [OF ok(1) file_ok_file_at [OF ok(2)]] mn sl Let_def)
  then show ?thesis using u(2) same_view_file [OF ok u(4,3)] by blast
qed

section \<open>Synchronising\<close>

lemma sync_loop_ok:
  assumes "fs_ok s" "0 < i" "i \<le> nblk s" "nblk s - i \<le> fuel"
  shows "sync_loop fuel (of_nat i) s = Ret () (fold flushed [i..<nblk s] s)"
  using assms
proof (induction fuel arbitrary: i s)
  case (0 i s)
  note b = fs_ok_bounds [OF 0(1)]
  have r: "ready s (Suc 0) 4" using b(1,2,4) by (simp add: ready_def)
  have "i = nblk s" using 0 by simp
  moreover have "unat (of_nat i :: 32 word) = i" by (rule unat_of_nat_32) (use b(3) 0(3) in simp)
  ultimately show ?case
    using load32_ok [OF 0(1) r] b(4) by (subst sync_loop.simps) (simp add: layout_at nblk_def word_less_nat_alt)
next
  case (Suc fuel i s)
  note b = fs_ok_bounds [OF Suc.prems(1)]
  have r: "ready s (Suc 0) 4" using b(1,2,4) by (simp add: ready_def)
  have u: "unat (of_nat i :: 32 word) = i" by (rule unat_of_nat_32) (use b(3) Suc.prems(3) in simp)
  have n: "load32 s_nblocks_at s = Ret (view s (Suc 0) (Suc 0)) s"
    using load32_ok [OF Suc.prems(1) r] b(4) by (simp add: layout_at)
  show ?case
  proof (cases "i = nblk s")
    case True
    then show ?thesis using u by (subst sync_loop.simps) (simp add: n nblk_def word_less_nat_alt)
  next
    case False
    then have lt: "i < nblk s" using Suc.prems(3) by simp
    have d: "diskaddr (of_nat i) s = Ret (at i 0) s"
      using diskaddr_ok [OF Suc.prems(1), of i] lt b(3) Suc.prems(2) by simp
    have nf: "nblk (flushed i s) = nblk s" by (simp add: nblk_def)
    have "sync_loop fuel (of_nat i + 1) (flushed i s) = Ret () (fold flushed [Suc i..<nblk s] (flushed i s))"
      using Suc.IH [of "flushed i s" "Suc i"] Suc.prems lt by (simp add: nf add.commute)
    moreover have "(of_nat i :: 32 word) < view s (Suc 0) (Suc 0)"
      using lt u by (simp add: word_less_nat_alt nblk_def)
    ultimately show ?thesis
      using lt by (subst sync_loop.simps) (simp add: n d flush_block_ok [OF Suc.prems(1) lt] upt_conv_Cons)
  qed
qed

lemma flushed_disk:
  "disk (flushed c s) b = (if b = c \<and> cached s c \<and> bdirty s c then view s c else disk s b)"
  "bdirty (flushed c s) b \<longleftrightarrow> bdirty s b \<and> \<not> (b = c \<and> cached s c)"
  by (auto simp: flushed_def)

lemma fold_flushed_mem:
  "view (fold flushed bs s) = view s \<and> cached (fold flushed bs s) = cached s"
  by (induction bs arbitrary: s) simp_all

lemma fold_flushed_dirty:
  "bdirty (fold flushed bs s) b \<longleftrightarrow> bdirty s b \<and> \<not> (b \<in> set bs \<and> cached s b)"
  by (induction bs arbitrary: s) (auto simp: flushed_disk)

lemma fold_flushed_disk:
  "disk (fold flushed bs s) b = (if b \<in> set bs \<and> cached s b \<and> bdirty s b then view s b else disk s b)"
proof (induction bs arbitrary: s)
  case (Cons c bs)
  show ?case
    by (subst fold_simps(2), subst Cons.IH, simp only: flushed_disk flushed_sel, cases "b = c")
      (simp_all split: if_split)
qed simp

text \<open>
  C36. fs_sync returns, changes nothing the server sees, and leaves on the disk what the server sees, provided the
  blocks in memory that are not dirty agreed with the disk.
\<close>

theorem fs_sync_writes_all:
  assumes "fs_ok s" "\<And>b. cached s b \<Longrightarrow> \<not> bdirty s b \<Longrightarrow> view s b = disk s b"
  shows "\<exists>t. fs_sync s = Ret () t \<and> view t = view s \<and>
    (\<forall>b. 1 \<le> b \<and> b < nblk s \<longrightarrow> disk t b = view s b \<and> \<not> (cached t b \<and> bdirty t b))"
proof -
  note b = fs_ok_bounds [OF assms(1)]
  have "fs_sync s = Ret () (fold flushed [1..<nblk s] s)"
    unfolding fs_sync_def using sync_loop_ok [OF assms(1), of 1 "2 ^ 32"] b(1-3) by simp
  moreover have "disk (fold flushed [1..<nblk s] s) c = view s c" if "1 \<le> c" "c < nblk s" for c
  proof (cases "cached s c")
    case True
    then show ?thesis using that assms(2) [of c] by (simp add: fold_flushed_disk)
  next
    case False
    then show ?thesis by (simp add: fold_flushed_disk view_def cached_def)
  qed
  ultimately show ?thesis
    by (intro exI [of _ "fold flushed [1..<nblk s] s"]) (simp add: fold_flushed_mem fold_flushed_dirty)
qed

section \<open>A small disk\<close>

text \<open>
  Eight blocks: the super block and the bitmap are in memory, the blocks from 3 on are free, and the root directory is an empty
  structure in the super block. In full_disk no block is free.
\<close>

definition small_disk :: "32 word \<Rightarrow> fs" where
  "small_disk bits =
     \<lparr>super_on = True, bitmap_on = True,
      bcache = (\<lambda>_. None)(1 := Some ((\<lambda>_. 0)(0 := FS_MAGIC, 1 := 8)), 2 := Some ((\<lambda>_. 0)(0 := bits))),
      bdirty = (\<lambda>b. b = 1 \<or> b = 2), btables = (\<lambda>_. True), disk = (\<lambda>_. (\<lambda>_. 0)), no_page = (\<lambda>_. False),
      bad_block = (\<lambda>_. False), warnings = []\<rparr>"

lemma small_disk_sel [simp]:
  "view (small_disk w) (Suc 0) = (\<lambda>_. 0)(0 := FS_MAGIC, 1 := 8)" "view (small_disk w) 2 = (\<lambda>_. 0)(0 := w)"
  "cached (small_disk w) b \<longleftrightarrow> b = 1 \<or> b = 2" "nblk (small_disk w) = 8" "data_start (small_disk w) = 3"
  "b < 8 \<Longrightarrow> free_bit (small_disk w) b \<longleftrightarrow> bit w b" "disk (small_disk w) b k = 0"
  "bdirty (small_disk w) b \<longleftrightarrow> b = 1 \<or> b = 2"
proof -
  show v: "view (small_disk w) (Suc 0) = (\<lambda>_. 0)(0 := FS_MAGIC, 1 := 8)" "view (small_disk w) 2 = (\<lambda>_. 0)(0 := w)"
    by (simp_all add: view_def small_disk_def)
  then show "nblk (small_disk w) = 8" by (simp add: nblk_def)
  then show "data_start (small_disk w) = 3" by (simp add: data_start_def)
  show "b < 8 \<Longrightarrow> free_bit (small_disk w) b \<longleftrightarrow> bit w b" by (simp add: free_bit_def v)
qed (auto simp: cached_def small_disk_def)

lemma small_disk_ok: "w AND 7 = 0 \<Longrightarrow> fs_ok (small_disk w)"
proof -
  assume w: "w AND 7 = 0"
  have "\<not> bit w b" if "b < 3" for b
  proof
    assume b: "bit w b"
    have "bit (7 :: 32 word) b" using that by (auto simp: less_Suc_eq numeral_3_eq_3)
    then have "bit (w AND 7) b" using b by (simp add: bit_and_iff)
    then show False using w by simp
  qed
  then show ?thesis by (auto simp: fs_ok_def) (auto simp: small_disk_def)
qed

lemma small_disk_file: "file_ok (small_disk w) (Suc 0) 8"
  by (auto simp: file_ok_def file_at_def ind_no_def slot_def)

lemma small_disk_free: "free_set (small_disk w) = {b \<in> {0..<8}. bit w b}"
  by (auto simp: free_set_def)

lemma small_disk_free_248: "free_set (small_disk 248) = {3, 4, 5, 6, 7}"
  unfolding small_disk_free by (auto simp: less_Suc_eq eval_nat_numeral)

lemma small_disk_free_0: "free_set (small_disk 0) = {}"
  unfolding small_disk_free by simp

theorem fs_sync_writes_all_witness:
  "\<exists>t. fs_sync (small_disk 248) = Ret () t \<and> disk t 1 1 = 8 \<and> disk (small_disk 248) 1 1 = 0"
proof -
  have "\<exists>t. fs_sync (small_disk 248) = Ret () t \<and> view t = view (small_disk 248) \<and>
    (\<forall>b. 1 \<le> b \<and> b < nblk (small_disk 248) \<longrightarrow> disk t b = view (small_disk 248) b \<and> \<not> (cached t b \<and> bdirty t b))"
    by (rule fs_sync_writes_all) (auto simp: small_disk_ok)
  then show ?thesis by force
qed

section \<open>Allocation\<close>

text \<open>
  C29. alloc_block takes the free block with the least number and marks it, alone, as in use; no block outside the bitmap changes.
  When no block is free the result is E_NO_DISK, as a block number, and nothing changes.
\<close>

theorem alloc_block_least:
  assumes "fs_ok s"
  shows "if free_set s = {} then alloc_block s = Ret (word_of_int (- E_NO_DISK)) s
    else \<exists>b t. alloc_block s = Ret (of_nat b) t \<and> b \<in> free_set s \<and> (\<forall>c \<in> free_set s. b \<le> c) \<and>
      free_set t = free_set s - {b} \<and> fs_ok t \<and> (\<forall>c \<ge> data_start s. view t c = view s c)"
proof (cases "free_set s = {}")
  case False
  let ?b = "Min (free_set s)"
  have b: "?b \<in> free_set s" "\<forall>c \<in> free_set s. ?b \<le> c" using False by simp_all
  note a = allocated_ok [OF assms b(1)]
  have "\<forall>c \<ge> data_start s. view (allocated ?b s) c = view s c" using a(7) by blast
  then show ?thesis
    using alloc_block_some [OF assms False] a(1,5) b False by (intro if_not_P [THEN iffD2] exI conjI) simp_all
qed (simp add: alloc_block_none assms)

theorem alloc_block_least_witness:
  "(\<exists>t. alloc_block (small_disk 248) = Ret 3 t \<and> free_set t = {4, 5, 6, 7}) \<and>
   alloc_block (small_disk 0) = Ret (word_of_int (- E_NO_DISK)) (small_disk 0)"
proof
  obtain b t where t: "alloc_block (small_disk 248) = Ret (of_nat b) t" "b \<in> free_set (small_disk 248)"
    "\<forall>c \<in> free_set (small_disk 248). b \<le> c" "free_set t = free_set (small_disk 248) - {b}"
    using alloc_block_least [of "small_disk 248"] by (auto simp: small_disk_ok small_disk_free_248)
  then have "b = 3" by (auto simp: small_disk_free_248)
  then show "\<exists>t. alloc_block (small_disk 248) = Ret 3 t \<and> free_set t = {4, 5, 6, 7}"
    using t by (intro exI [of _ t]) (auto simp: small_disk_free_248)
  show "alloc_block (small_disk 0) = Ret (word_of_int (- E_NO_DISK)) (small_disk 0)"
    using alloc_block_least [of "small_disk 0"] by (simp add: small_disk_ok small_disk_free_0)
qed

text \<open>A block given back by free_block is free afterwards, and no other block is.\<close>

theorem free_block_frees:
  assumes "fs_ok s" "data_start s \<le> b" "b < nblk s"
  shows "\<exists>t. free_block (of_nat b) s = Ret () t \<and> free_set t = insert b (free_set s) \<and> fs_ok t \<and>
    (\<forall>c \<ge> data_start s. view t c = view s c)"
proof -
  note m = mark_ok [OF assms(1,3), where v = True]
  have "0 < b" using assms(2) fs_ok_bounds(1) [OF assms(1)] by simp
  then have "free_block (of_nat b) s = Ret () (mark b True s)" by (rule free_block_ok [OF assms(1) _ assms(3)])
  moreover have "free_set (mark b True s) = insert b (free_set s)" using m assms(3) by (auto simp: free_set_def)
  moreover have "\<forall>c \<ge> data_start s. view (mark b True s) c = view s c" using m(5) by blast
  moreover have "fs_ok (mark b True s)" using m(7) assms(2) by blast
  ultimately show ?thesis by blast
qed

theorem free_block_frees_witness:
  "\<exists>t. free_block 5 (small_disk 0) = Ret () t \<and> free_set t = {5}"
  using free_block_frees [of "small_disk 0" 5] by (auto simp: small_disk_ok small_disk_free_0)

text \<open>
  On a full disk, asking for a block of a file that has none there does not return E_NO_DISK: the negative result of
  alloc_block is stored as a block number and diskaddr panics on it.
\<close>

theorem full_disk_panics:
  assumes "fs_ok s" "file_ok s fb fo" "n < 1034" "slot s fb fo n = 0" "free_set s = {}"
  shows "\<exists>t. file_get_block (at fb fo) (of_nat n) s = Exit (Panicked ''bad block number in diskaddr'') t"
  by (rule file_get_block_full [OF assms])

theorem full_disk_panics_witness:
  "\<exists>t. file_get_block s_root_at 0 (small_disk 0) = Exit (Panicked ''bad block number in diskaddr'') t"
  using full_disk_panics [of "small_disk 0" 1 8 0]
  by (simp add: small_disk_ok small_disk_file small_disk_free_0 layout_at slot_def)

text \<open>The first access to a block of the disk panics unless it is to the first byte of the block.\<close>

theorem unaligned_fault_panics:
  assumes "fs_ok s" "b < nblk s" "\<not> cached s b" "0 < i" "i < 4096"
  shows "\<exists>t. load8 (at b i) s = Exit (Panicked ''in bc_pgfault, sys_page_map'') t"
proof -
  note bd = fs_ok_bounds [OF assms(1)]
  have b: "b < 786432" using assms(2) bd(3) by simp
  have d: "\<not> no_page s b" "\<not> bad_block s b" "super_on s" using assms(1,2) by (simp_all add: fs_ok_def)
  have "unat (of_nat b :: 32 word) = b" by (rule unat_of_nat_32) (use b in simp)
  then have n: "\<not> view s (Suc 0) (Suc 0) \<le> of_nat b" using assms(2) by (simp add: word_le_nat_alt nblk_def)
  have t: "bc_touch (Suc (Suc 0)) s_nblocks_at s = Ret () s" "peek s s_nblocks_at = view s (Suc 0) (Suc 0)"
    using bc_touch_cached [OF bd(4), of 4 "Suc (Suc 0)"] by (simp_all add: layout_at peek_view bd(4) del: bc_touch.simps)
  have "touch (at b i) s = Exit (Panicked ''in bc_pgfault, sys_page_map'') (read_in b s)"
    unfolding touch_def BC_DEPTH_def numeral_3_eq_3 bc_touch.simps(2) [of "Suc (Suc 0)"]
    using assms(3-5) b d n t by (simp add: cached_def del: bc_touch.simps)
  then show ?thesis by (simp add: load8_def)
qed

theorem unaligned_fault_panics_witness:
  "\<exists>t. load8 0x10003001 (small_disk 0) = Exit (Panicked ''in bc_pgfault, sys_page_map'') t"
  using unaligned_fault_panics [of "small_disk 0" 3 1] by (simp add: small_disk_ok at_def DISKMAP_def)

text \<open>
  C28. What file_write writes file_read reads back, the file grows to the end of the write, and every other byte that
  had a block keeps its value. The first position is in a block that is in memory or starts one, and there are free blocks enough.
\<close>

theorem file_write_read:
  assumes "fs_ok s" "file_ok s fb fo" "buf \<noteq> []" "p + length buf \<le> 1034 * 4096"
    and "unat (fsize s fb fo) < 2 ^ 31" "at_ready s fb fo p" "room s fb fo p (p + length buf)"
  shows "\<exists>t u. file_write (at fb fo) buf (of_nat p) s = Ret (int (length buf)) t \<and>
    unat (fsize t fb fo) = max (unat (fsize s fb fo)) (p + length buf) \<and>
    file_read (at fb fo) (of_nat (length buf)) (of_nat p) t = Ret (int (length buf), buf) u \<and>
    fs_ok u \<and> file_ok u fb fo \<and>
    (\<forall>q < 1034 * 4096. (q < p \<or> p + length buf \<le> q) \<and> slot s fb fo (q div 4096) \<noteq> 0 \<longrightarrow>
       fbyte u fb fo q = fbyte s fb fo q)"
proof -
  obtain t where t: "file_write (at fb fo) buf (of_nat p) s = Ret (int (length buf)) t" "written s fb fo p buf t"
    using file_write_effect [OF assms] by blast
  obtain u where "file_read (at fb fo) (of_nat (length buf)) (of_nat p) t = Ret (int (length buf), buf) u"
    "fs_ok u" "file_ok u fb fo" "\<And>q. fbyte u fb fo q = fbyte t fb fo q"
    using file_read_written [OF t(2) assms(3-5)] by blast
  then show ?thesis using t by (intro exI [of _ t] exI [of _ u]) (simp add: written_def)
qed

theorem file_write_read_witness:
  "\<exists>t u. file_write s_root_at [72, 105] 0 (small_disk 248) = Ret 2 t \<and>
     file_read s_root_at 2 0 t = Ret (2, [72, 105]) u"
proof -
  have r: "room (small_disk 248) (Suc 0) 8 0 (Suc (Suc 0))" by (simp add: room_def small_disk_free_248)
  show ?thesis
    using file_write_read [of "small_disk 248" 1 8 "[72, 105]" 0] r
    by (auto simp: small_disk_ok small_disk_file layout_at fsize_def at_ready_def)
qed

end
