(* ===== verification/Serv.thy ===== *)
theory Serv
  imports Fs_Model
begin

text \<open>
  fs/serv.c: the open file table of the file server and its requests. The contents of a request page are its 4096
  bytes. The kernel is outside: how many address spaces map an Fd page, and whether a page can be allocated for it, are part
  of the state, and what the clients do with the pages they share is a step of its own. Definitions only.
\<close>

section \<open>State\<close>

definition MAXOPEN :: nat where "MAXOPEN = 1024"
definition MAXPATHLEN :: nat where "MAXPATHLEN = 1024"
definition FILEVA :: "32 word" where "FILEVA = 0xD0000000"

text \<open>An entry of opentab; the page o_fd of entry i is always FILEVA + i * PGSIZE. Then struct Fd, in that page.\<close>

record open_file =
  o_fileid :: "32 word"
  o_file :: "32 word"
  o_mode :: "32 word"

record fd_page =
  fd_dev_id :: "32 word"
  fd_offset :: "32 word"
  fd_omode :: "32 word"
  fd_file_id :: "32 word"

definition zero_fd :: fd_page where
  "zero_fd = \<lparr>fd_dev_id = 0, fd_offset = 0, fd_omode = 0, fd_file_id = 0\<rparr>"

text \<open>
  fd_refs is what pageref gives for the page: 0 when the server has not mapped it, 1 when nobody else has. fd_alloc_err is the
  error that sys_page_alloc gives for it, if it fails.
\<close>

record server =
  s_fs :: fs
  opentab :: "nat \<Rightarrow> open_file"
  o_fd :: "nat \<Rightarrow> fd_page"
  fd_refs :: "nat \<Rightarrow> nat"
  fd_alloc_err :: "nat \<Rightarrow> int option"

type_synonym page = "nat \<Rightarrow> 8 word"

definition page32 :: "page \<Rightarrow> nat \<Rightarrow> 32 word" where
  "page32 p i = ucast (p i) OR push_bit 8 (ucast (p (i + 1))) OR push_bit 16 (ucast (p (i + 2))) OR
                push_bit 24 (ucast (p (i + 3)))"

definition set_page32 :: "nat \<Rightarrow> 32 word \<Rightarrow> page \<Rightarrow> page" where
  "set_page32 i w p = p(i := get_byte 0 w, i + 1 := get_byte 1 w, i + 2 := get_byte 2 w, i + 3 := get_byte 3 w)"

definition on_fs :: "(fs \<Rightarrow> ('a, fs) kres) \<Rightarrow> server \<Rightarrow> ('a, server) kres" where
  "on_fs f s = (case f (s_fs s) of Ret a t \<Rightarrow> Ret a (s\<lparr>s_fs := t\<rparr>) | Exit e t \<Rightarrow> Exit e (s\<lparr>s_fs := t\<rparr>))"

section \<open>The open file table\<close>

definition serve_init :: "server \<Rightarrow> server" where
  "serve_init s = s\<lparr>opentab := (\<lambda>i. if i < MAXOPEN then (opentab s i)\<lparr>o_fileid := of_nat i\<rparr> else opentab s i)\<rparr>"

text \<open>The result of openfile_alloc and the entry, when there is one.\<close>

fun openfile_scan :: "nat list \<Rightarrow> server \<Rightarrow> int \<times> nat option \<times> server" where
  "openfile_scan [] s = (- E_MAX_OPEN, None, s)"
| "openfile_scan (i # is) s =
     (if fd_refs s i \<ge> 2 then openfile_scan is s
      else
        (case (if fd_refs s i = 0 then fd_alloc_err s i else None) of
           Some r \<Rightarrow> (r, None, s)
         | None \<Rightarrow>
             (let e = (opentab s i)\<lparr>o_fileid := o_fileid (opentab s i) + of_nat MAXOPEN\<rparr>
              in (sint (o_fileid e), Some i,
                  s\<lparr>opentab := (opentab s)(i := e), o_fd := (o_fd s)(i := zero_fd), fd_refs := (fd_refs s)(i := 1)\<rparr>))))"

definition openfile_alloc :: "server \<Rightarrow> int \<times> nat option \<times> server" where
  "openfile_alloc s = openfile_scan [0..<MAXOPEN] s"

definition openfile_lookup :: "32 word \<Rightarrow> server \<Rightarrow> int + nat" where
  "openfile_lookup fileid s =
     (let i = unat (fileid mod of_nat MAXOPEN)
      in if fd_refs s i \<le> 1 \<or> o_fileid (opentab s i) \<noteq> fileid then Inl (- E_INVAL) else Inr i)"

section \<open>The requests\<close>

text \<open>serve_open: its result, and the page and permissions for the client.\<close>

definition serve_open :: "page \<Rightarrow> server \<Rightarrow> (int \<times> nat option \<times> 32 word, server) kres" where
  "serve_open p s =
     (let path = takeWhile (\<lambda>c. c \<noteq> 0) (map p [0..<MAXPATHLEN - 1]); omode = page32 p MAXPATHLEN;
          (r, e, s) = openfile_alloc s
      in if r < 0 then Ret (r, None, 0) s
         else
           (let i = the e
            in kbind (if omode AND O_CREAT \<noteq> 0 then
                        kbind (on_fs (file_create path) s) (\<lambda>r s.
                          case r of
                            Inl r \<Rightarrow>
                              if omode AND O_EXCL = 0 \<and> r = - E_FILE_EXISTS then on_fs (file_open path) s
                              else Ret (Inl r) s
                          | Inr f \<Rightarrow> Ret (Inr f) s)
                      else on_fs (file_open path) s) (\<lambda>r s.
                 case r of
                   Inl r \<Rightarrow> Ret (r, None, 0) s
                 | Inr f \<Rightarrow>
                     kbind (if omode AND O_TRUNC \<noteq> 0 then on_fs (file_set_size f 0) s else Ret 0 s) (\<lambda>r s.
                       if r < 0 then Ret (r, None, 0) s
                       else kbind (on_fs (file_open path) s) (\<lambda>r s.
                         case r of
                           Inl r \<Rightarrow> Ret (r, None, 0) s
                         | Inr f \<Rightarrow>
                             Ret (0, Some i, PTE_P OR PTE_U OR PTE_W OR PTE_SHARE)
                               (s\<lparr>opentab := (opentab s)(i := (opentab s i)\<lparr>o_file := f, o_mode := omode\<rparr>),
                                  o_fd := (o_fd s)(i := (o_fd s i)\<lparr>fd_file_id := o_fileid (opentab s i),
                                    fd_omode := omode AND O_ACCMODE, fd_dev_id := 102\<rparr>)\<rparr>))))))"

definition with_file :: "page \<Rightarrow> (nat \<Rightarrow> 32 word \<Rightarrow> server \<Rightarrow> (int \<times> page, server) kres) \<Rightarrow> server \<Rightarrow> (int \<times> page, server) kres" where
  "with_file p f s =
     (case openfile_lookup (page32 p 0) s of
        Inl r \<Rightarrow> Ret (r, p) s
      | Inr i \<Rightarrow> f i (o_file (opentab s i)) s)"

definition serve_set_size :: "page \<Rightarrow> server \<Rightarrow> (int \<times> page, server) kres" where
  "serve_set_size p = with_file p (\<lambda>i f s.
     kbind (on_fs (file_set_size f (page32 p 4)) s) (\<lambda>r. Ret (r, p)))"

definition serve_read :: "page \<Rightarrow> server \<Rightarrow> (int \<times> page, server) kres" where
  "serve_read p = with_file p (\<lambda>i f s.
     kbind (on_fs (file_read f (min (page32 p 4) PGSIZE) (fd_offset (o_fd s i))) s) (\<lambda>(r, bs) s.
       (let p' = (\<lambda>j. if j < length bs then bs ! j else p j)
        in if r < 0 then Ret (r, p') s
           else Ret (r, p') (s\<lparr>o_fd := (o_fd s)(i := (o_fd s i)\<lparr>fd_offset := fd_offset (o_fd s i) + word_of_int r\<rparr>)\<rparr>))))"

text \<open>
  The bytes that serve_write hands to file_write: the page of the request is followed in memory by the first block of the disk,
  and only the size of the page bounds the count, not the room that is left behind the header. Those last bytes are read here
  before the write begins.
\<close>

definition req_bytes :: "nat \<Rightarrow> page \<Rightarrow> server \<Rightarrow> (8 word list, server) kres" where
  "req_bytes n p s =
     kbind (if n > 4088 then on_fs (load_bytes (n - 4088) DISKMAP) s else Ret [] s) (\<lambda>rest.
       Ret (map p [8..<8 + min n 4088] @ rest))"

definition serve_write :: "page \<Rightarrow> server \<Rightarrow> (int \<times> page, server) kres" where
  "serve_write p = with_file p (\<lambda>i f s.
     (let writesize = min (page32 p 4) PGSIZE; end_pos = fd_offset (o_fd s i) + writesize
      in kbind (on_fs (load32 (f_size_at f)) s) (\<lambda>sz s.
           kbind (if end_pos > sz then on_fs (store32 (f_size_at f) end_pos) s else Ret () s) (\<lambda>_ s.
             kbind (req_bytes (unat writesize) p s) (\<lambda>bs s.
               kbind (on_fs (file_write f bs (fd_offset (o_fd s i))) s) (\<lambda>r s.
                 if r < 0 then Ret (r, p) s
                 else Ret (r, p)
                   (s\<lparr>o_fd := (o_fd s)(i := (o_fd s i)\<lparr>fd_offset := fd_offset (o_fd s i) + word_of_int r\<rparr>)\<rparr>)))))))"

text \<open>strcpy from a name on the disk into the page; a name without NUL that reaches the end of the page is a fault here.\<close>

fun copy_name :: "nat \<Rightarrow> 32 word \<Rightarrow> nat \<Rightarrow> page \<Rightarrow> fs \<Rightarrow> (page, fs) kres" where
  "copy_name fuel a j p s =
     kbind (load8 a s) (\<lambda>b s.
       if b = 0 then Ret (p(j := b)) s
       else if fuel = 0 then Exit Fault s
       else copy_name (fuel - 1) (a + 1) (j + 1) (p(j := b)) s)"

declare copy_name.simps [simp del]

definition serve_stat :: "page \<Rightarrow> server \<Rightarrow> (int \<times> page, server) kres" where
  "serve_stat p = with_file p (\<lambda>i f s.
     kbind (on_fs (copy_name 4095 f 0 p) s) (\<lambda>p s.
       kbind (on_fs (load32 (f_size_at f)) s) (\<lambda>sz s.
         kbind (on_fs (load32 (f_type_at f)) s) (\<lambda>ty.
           Ret (0, set_page32 132 (if ty = FTYPE_DIR then 1 else 0) (set_page32 128 sz p))))))"

definition serve_flush :: "page \<Rightarrow> server \<Rightarrow> (int \<times> page, server) kres" where
  "serve_flush p = with_file p (\<lambda>i f s. kbind (on_fs (file_flush f) s) (\<lambda>_. Ret (0, p)))"

definition serve_sync :: "page \<Rightarrow> server \<Rightarrow> (int \<times> page, server) kres" where
  "serve_sync p s = kbind (on_fs fs_sync s) (\<lambda>_. Ret (0, p))"

section \<open>The main loop\<close>

text \<open>The table of handlers; FSREQ_OPEN is 1, and FSREQ_REMOVE (7) has none.\<close>

definition handlers :: "32 word \<Rightarrow> (page \<Rightarrow> server \<Rightarrow> (int \<times> page, server) kres) option" where
  "handlers req =
     (if req = 3 then Some serve_read
      else if req = 5 then Some serve_stat
      else if req = 6 then Some serve_flush
      else if req = 4 then Some serve_write
      else if req = 2 then Some serve_set_size
      else if req = 8 then Some serve_sync
      else None)"

text \<open>
  One round of serve for a message that has arrived: the reply (result, Fd page, permissions), or none for a message without a page,
  and the contents of the page that the client shares.
\<close>

definition serve_round :: "32 word \<Rightarrow> 32 word \<Rightarrow> page \<Rightarrow> server
    \<Rightarrow> ((int \<times> nat option \<times> 32 word) option \<times> page, server) kres" where
  "serve_round req perm p s =
     (if perm AND PTE_P = 0 then Ret (None, p) s
      else if req = 1 then
        kbind (serve_open p s) (\<lambda>(r, pg, perm'). Ret (Some (r, pg, if pg = None then perm else perm'), p))
      else
        (case handlers req of
           Some h \<Rightarrow> kbind (h p s) (\<lambda>(r, p'). Ret (Some (r, None, perm), p'))
         | None \<Rightarrow> Ret (Some (- E_INVAL, None, perm), p) s))"

text \<open>
  The server among its clients: a round, after which the client may or may not have mapped the page it was given; a client that
  shares an Fd page with another one, closes it, or writes into it.
\<close>

inductive serv_step :: "server \<Rightarrow> server \<Rightarrow> bool" where
  round: "serve_round req perm p s = Ret (Some (r, None, pm), p') t \<Longrightarrow> serv_step s t"
| hang: "serve_round req perm p s = Ret (None, p') t \<Longrightarrow> serv_step s t"
| opened: "serve_round req perm p s = Ret (Some (r, Some i, pm), p') t \<Longrightarrow>
     serv_step s (t\<lparr>fd_refs := (fd_refs t)(i := fd_refs t i + 1)\<rparr>)"
| refused: "serve_round req perm p s = Ret (Some (r, Some i, pm), p') t \<Longrightarrow> serv_step s t"
| share: "2 \<le> fd_refs s i \<Longrightarrow> serv_step s (s\<lparr>fd_refs := (fd_refs s)(i := fd_refs s i + 1)\<rparr>)"
| close: "2 \<le> fd_refs s i \<Longrightarrow> serv_step s (s\<lparr>fd_refs := (fd_refs s)(i := fd_refs s i - 1)\<rparr>)"
| scribble: "2 \<le> fd_refs s i \<Longrightarrow> serv_step s (s\<lparr>o_fd := (o_fd s)(i := d)\<rparr>)"

inductive serv_reachable :: "server \<Rightarrow> bool" where
  start: "fd_refs s = (\<lambda>_. 0) \<Longrightarrow> serv_reachable (serve_init s)"
| step: "serv_reachable s \<Longrightarrow> serv_step s t \<Longrightarrow> serv_reachable t"

inductive_cases serv_stepE: "serv_step s t"

end
