(* ===== verification/Serv_Props.thy ===== *)
theory Serv_Props
  imports Serv Fs_Props
begin

text \<open>
  The properties of the file server: its table of open files among clients that come and go, and the requests.
\<close>

section \<open>What a request leaves of the table\<close>

definition same_tab :: "server \<Rightarrow> server \<Rightarrow> bool" where
  "same_tab s t \<longleftrightarrow> (\<forall>i. o_fileid (opentab t i) = o_fileid (opentab s i)) \<and> fd_refs t = fd_refs s \<and> fd_alloc_err t = fd_alloc_err s"

lemma same_tab_refl [simp]: "same_tab s s"
  by (simp add: same_tab_def)

lemma same_tab_trans: "same_tab s t \<Longrightarrow> same_tab t u \<Longrightarrow> same_tab s u"
  by (simp add: same_tab_def)

lemma same_tab_upd [simp]: "same_tab s (t\<lparr>o_fd := d\<rparr>) \<longleftrightarrow> same_tab s t"
  by (simp add: same_tab_def)

text \<open>A call that, when it returns, has left the table as in the state s; sequences of such calls are such calls.\<close>

definition tab_kept :: "server \<Rightarrow> ('a, server) kres \<Rightarrow> bool" where
  "tab_kept s m \<longleftrightarrow> (\<forall>a t. m = Ret a t \<longrightarrow> same_tab s t)"

named_theorems tab_intros

lemma tab_kept_Ret [tab_intros]: "same_tab s t \<Longrightarrow> tab_kept s (Ret a t)"
  by (simp add: tab_kept_def)

lemma tab_kept_on_fs [tab_intros]: "same_tab s u \<Longrightarrow> tab_kept s (on_fs f u)"
  by (auto simp: tab_kept_def on_fs_def same_tab_def split: kres.split)

lemma tab_kept_bind [tab_intros]:
  "tab_kept s m \<Longrightarrow> (\<And>a t. same_tab s t \<Longrightarrow> tab_kept s (f a t)) \<Longrightarrow> tab_kept s (kbind m f)"
  by (cases m) (auto simp: tab_kept_def)

lemma tab_kept_if [tab_intros]: "(b \<Longrightarrow> tab_kept s m) \<Longrightarrow> (\<not> b \<Longrightarrow> tab_kept s n) \<Longrightarrow> tab_kept s (if b then m else n)"
  by simp

lemma tab_kept_sum [tab_intros]:
  "(\<And>a. tab_kept s (f a)) \<Longrightarrow> (\<And>b. tab_kept s (g b)) \<Longrightarrow> tab_kept s (case x of Inl a \<Rightarrow> f a | Inr b \<Rightarrow> g b)"
  by (cases x) simp_all

lemma tab_kept_prod [tab_intros]:
  "(\<And>a b. tab_kept s (f a b t)) \<Longrightarrow> tab_kept s ((case x of (a, b) \<Rightarrow> f a b) t)"
  by (cases x) simp

lemma tab_kept_with_file [tab_intros]:
  "same_tab s u \<Longrightarrow> (\<And>i fa t. same_tab s t \<Longrightarrow> tab_kept s (f i fa t)) \<Longrightarrow> tab_kept s (with_file p f u)"
  unfolding with_file_def by (intro tab_intros)

lemma tab_kept_req_bytes [tab_intros]: "same_tab s u \<Longrightarrow> tab_kept s (req_bytes n p u)"
  unfolding req_bytes_def by (intro tab_intros)

lemma handler_kept: "handlers req = Some h \<Longrightarrow> tab_kept s (h p s)"
proof -
  assume "handlers req = Some h"
  then have "h = serve_read \<or> h = serve_stat \<or> h = serve_flush \<or> h = serve_write \<or> h = serve_set_size \<or> h = serve_sync"
    by (auto simp: handlers_def split: if_split_asm)
  moreover have "tab_kept s (serve_read p s)"
    unfolding serve_read_def Let_def by (intro tab_intros) simp_all
  moreover have "tab_kept s (serve_stat p s)"
    unfolding serve_stat_def by (intro tab_intros) simp_all
  moreover have "tab_kept s (serve_flush p s)"
    unfolding serve_flush_def by (intro tab_intros) simp_all
  moreover have "tab_kept s (serve_write p s)"
    unfolding serve_write_def Let_def by (intro tab_intros) simp_all
  moreover have "tab_kept s (serve_set_size p s)"
    unfolding serve_set_size_def by (intro tab_intros) simp_all
  moreover have "tab_kept s (serve_sync p s)"
    unfolding serve_sync_def by (intro tab_intros) simp_all
  ultimately show ?thesis by blast
qed

section \<open>Allocating an entry\<close>

definition taken :: "nat \<Rightarrow> server \<Rightarrow> server" where
  "taken i s =
     s\<lparr>opentab := (opentab s)(i := (opentab s i)\<lparr>o_fileid := o_fileid (opentab s i) + 1024\<rparr>),
       o_fd := (o_fd s)(i := zero_fd), fd_refs := (fd_refs s)(i := 1)\<rparr>"

lemma openfile_scan_cases:
  "(\<forall>i \<in> set is. 2 \<le> fd_refs s i) \<and> openfile_scan is s = (- E_MAX_OPEN, None, s) \<or>
   (\<exists>i \<in> set is. fd_refs s i < 2 \<and>
      (openfile_scan is s = (sint (o_fileid (opentab s i) + 1024), Some i, taken i s) \<or>
       (\<exists>e. fd_refs s i = 0 \<and> fd_alloc_err s i = Some e \<and> openfile_scan is s = (e, None, s))))"
proof (induction "is")
  case (Cons i "is")
  show ?case
  proof (cases "fd_refs s i \<ge> 2")
    case True
    then show ?thesis using Cons by auto
  next
    case False
    then show ?thesis
      by (cases "fd_refs s i = 0"; cases "fd_alloc_err s i") (auto simp: taken_def MAXOPEN_def Let_def)
  qed
qed simp

text \<open>What an allocation and the rest of serve_open do to the table.\<close>

lemma serve_open_tab:
  assumes "serve_open p s = Ret b t"
  shows "same_tab s t \<or> (\<exists>i < 1024. fd_refs s i < 2 \<and> same_tab (taken i s) t)"
proof -
  obtain r e u where u: "openfile_alloc s = (r, e, u)" by (metis prod_cases3)
  have "tab_kept u (serve_open p s)"
    unfolding serve_open_def u Let_def prod.case
    by (intro tab_intros) (auto simp: same_tab_def)
  then have "same_tab u t" using assms by (cases b) (simp add: tab_kept_def)
  moreover have "u = s \<or> (\<exists>i < 1024. fd_refs s i < 2 \<and> u = taken i s)"
    using openfile_scan_cases [of "[0..<MAXOPEN]" s] u by (auto simp: openfile_alloc_def MAXOPEN_def)
  ultimately show ?thesis by blast
qed

lemma serve_round_tab:
  assumes "serve_round req perm p s = Ret b t"
  shows "same_tab s t \<or> (\<exists>i < 1024. fd_refs s i < 2 \<and> same_tab (taken i s) t)"
  using assms handler_kept [of req _ s p] serve_open_tab [of p s]
  by (auto simp: serve_round_def kbind_eq_Ret tab_kept_def split: if_split_asm option.split_asm)

section \<open>The table among the clients\<close>

text \<open>One step changes an identifier only by adding 1024 to that of an entry that no client shares.\<close>

lemma serv_step_ids:
  assumes "serv_step s t"
  shows "o_fileid (opentab t i) = o_fileid (opentab s i) \<or>
    i < 1024 \<and> fd_refs s i < 2 \<and> o_fileid (opentab t i) = o_fileid (opentab s i) + 1024"
proof -
  have r: "o_fileid (opentab u i) = o_fileid (opentab s i) \<or>
      i < 1024 \<and> fd_refs s i < 2 \<and> o_fileid (opentab u i) = o_fileid (opentab s i) + 1024"
    if "serve_round req perm p s = Ret b u" for req perm p b u
    using serve_round_tab [OF that] by (auto simp: same_tab_def taken_def split: if_split_asm)
  show ?thesis using assms by (cases rule: serv_step.cases) (auto dest: r)
qed

definition tab_ok :: "server \<Rightarrow> bool" where
  "tab_ok s \<longleftrightarrow> (\<forall>i < 1024. o_fileid (opentab s i) mod 1024 = of_nat i)"

lemma mod_1024_add: "((w :: 32 word) + 1024) mod 1024 = w mod 1024"
proof -
  have "(1024 :: nat) dvd 2 ^ LENGTH(32)" by simp
  then show ?thesis by (simp add: word_unat_eq_iff unat_mod unat_word_ariths(1) mod_mod_cancel)
qed

lemma serv_reachable_ok: "serv_reachable s \<Longrightarrow> tab_ok s"
proof (induction rule: serv_reachable.induct)
  case (start s)
  show ?case
    unfolding tab_ok_def
  proof (intro allI impI)
    fix i :: nat assume i: "i < 1024"
    then have "unat (of_nat i :: 32 word) = i" by (intro unat_of_nat_32) simp
    then show "o_fileid (opentab (serve_init s) i) mod 1024 = of_nat i"
      using i by (simp add: serve_init_def MAXOPEN_def word_unat_eq_iff unat_mod)
  qed
next
  case (step s t)
  then show ?case
    unfolding tab_ok_def using serv_step_ids [OF step(2)] mod_1024_add by metis
qed

text \<open>A call that gives the client no page but that of the entry i.\<close>

definition gives :: "nat \<Rightarrow> (int \<times> nat option \<times> 32 word, server) kres \<Rightarrow> bool" where
  "gives i m \<longleftrightarrow> (\<forall>r j pm t. m = Ret (r, Some j, pm) t \<longrightarrow> j = i)"

lemma gives_bind: "(\<And>a t. gives i (f a t)) \<Longrightarrow> gives i (kbind m f)"
  by (cases m) (auto simp: gives_def)

lemma gives_if: "gives i m \<Longrightarrow> gives i n \<Longrightarrow> gives i (if b then m else n)"
  by simp

lemma gives_sum: "(\<And>a. gives i (f a t)) \<Longrightarrow> (\<And>b. gives i (g b t)) \<Longrightarrow> gives i ((case x of Inl a \<Rightarrow> f a | Inr b \<Rightarrow> g b) t)"
  by (cases x) simp_all

lemma gives_Ret: "gives i (Ret (r, None, pm) t)" "gives i (Ret (r, Some i, pm) t)"
  by (simp_all add: gives_def)

text \<open>An entry that no client shares is shared again only after it has been given a new identifier.\<close>

lemma serve_open_gives:
  assumes "serve_open p s = Ret (r, Some j, pm) t" "\<And>i r. fd_alloc_err s i = Some r \<Longrightarrow> r < 0"
  shows "fd_refs s j < 2 \<and> same_tab (taken j s) t"
proof -
  obtain q e u where u: "openfile_alloc s = (q, e, u)" by (metis prod_cases3)
  have q: "0 \<le> q" using assms(1) by (cases "q < 0") (simp_all add: serve_open_def u Let_def)
  then obtain i where i: "e = Some i" "fd_refs s i < 2" "u = taken i s"
    using openfile_scan_cases [of "[0..<MAXOPEN]" s] u
    by (auto simp: openfile_alloc_def E_MAX_OPEN_def dest: assms(2))
  have "tab_kept u (serve_open p s)"
    unfolding serve_open_def u Let_def prod.case by (intro tab_intros) (auto simp: same_tab_def)
  then have "same_tab u t" using assms(1) by (simp add: tab_kept_def)
  moreover have "gives i (serve_open p s)"
    unfolding serve_open_def u Let_def prod.case i(1) option.sel
    by (intro gives_if gives_bind gives_Ret, (split sum.split, intro conjI allI impI gives_if gives_bind gives_Ret)+)
  then have "j = i" using assms(1) by (simp add: gives_def)
  ultimately show ?thesis using i by simp
qed

lemma serv_step_errs: "serv_step s t \<Longrightarrow> fd_alloc_err t = fd_alloc_err s"
  by (cases rule: serv_step.cases) (auto dest!: serve_round_tab simp: same_tab_def taken_def)

lemma serv_step_shares:
  assumes "serv_step s t" "fd_refs s i < 2" "o_fileid (opentab t i) = o_fileid (opentab s i)"
    and err: "\<And>i r. fd_alloc_err s i = Some r \<Longrightarrow> r < 0"
  shows "fd_refs t i < 2"
proof -
  have r: "fd_refs u i < 2" if "serve_round req perm p s = Ret b u" for req perm p b u
    using serve_round_tab [OF that] assms(2) by (auto simp: same_tab_def taken_def)
  from assms(1) show ?thesis
  proof cases
    case (opened req perm p q j pm p' u)
    then obtain pm' where "serve_open p s = Ret (q, Some j, pm') u"
      by (auto simp: serve_round_def kbind_eq_Ret split: if_split_asm option.split_asm)
    then have "same_tab (taken j s) u" using serve_open_gives err by blast
    then have "j \<noteq> i" using opened(1) assms(3) by (auto simp: same_tab_def taken_def)
    then show ?thesis using opened r by auto
  qed (use r assms(2) in auto)
qed

lemma serv_steps_refused:
  assumes "(serv_step ^^ n) t u" "fd_refs t i < 2" "\<And>i r. fd_alloc_err t i = Some r \<Longrightarrow> r < 0"
  shows "\<exists>m \<le> n. o_fileid (opentab u i) = o_fileid (opentab t i) + of_nat (1024 * m) \<and> (m = 0 \<longrightarrow> fd_refs u i < 2) \<and>
    fd_alloc_err u = fd_alloc_err t"
  using assms(1)
proof (induction n arbitrary: u)
  case 0
  then show ?case using assms(2) by auto
next
  case (Suc n)
  then obtain v where v: "(serv_step ^^ n) t v" "serv_step v u" by auto
  obtain m where m: "m \<le> n" "o_fileid (opentab v i) = o_fileid (opentab t i) + of_nat (1024 * m)" "m = 0 \<longrightarrow> fd_refs v i < 2"
    "fd_alloc_err v = fd_alloc_err t" using Suc.IH [OF v(1)] by blast
  have err: "fd_alloc_err u = fd_alloc_err t" using serv_step_errs [OF v(2)] m(4) by simp
  show ?case
  proof (cases "o_fileid (opentab u i) = o_fileid (opentab v i)")
    case True
    then have "m = 0 \<longrightarrow> fd_refs u i < 2" using serv_step_shares [OF v(2) _ True] m(3,4) assms(3) by metis
    then show ?thesis using True m err by (intro exI [of _ m]) simp
  next
    case False
    then have "o_fileid (opentab u i) = o_fileid (opentab v i) + 1024" using serv_step_ids [OF v(2), of i] by blast
    then show ?thesis using m err by (intro exI [of _ "Suc m"]) (simp add: algebra_simps)
  qed
qed

text \<open>
  C30. Whatever requests arrive and whatever the clients do with the pages they share: a file identifier that the server
  accepts names one entry, no other identifier names that entry, and it stays valid until the last client has closed the file. From then
  on it is refused, also when the entry has been used again any number of times and is shared, for the next 2^22 - 1 steps: an entry has 2^22 identifiers.
  The kernel's error codes for a failing allocation are taken to be negative.
\<close>

theorem fileid_valid_while_open:
  assumes "serv_reachable s" "serv_step s t" "openfile_lookup fid s = Inr i"
  shows "i < 1024 \<and> (\<forall>fid'. openfile_lookup fid' s = Inr i \<longrightarrow> fid' = fid) \<and>
    openfile_lookup fid t = (if 2 \<le> fd_refs t i then Inr i else Inl (- E_INVAL)) \<and>
    ((\<forall>j r. fd_alloc_err t j = Some r \<longrightarrow> r < 0) \<and> fd_refs t i < 2 \<longrightarrow>
       (\<forall>n u. (serv_step ^^ n) t u \<and> n < 2 ^ 22 \<longrightarrow> openfile_lookup fid u = Inl (- E_INVAL)))"
proof -
  have l: "i = unat (fid mod 1024)" "2 \<le> fd_refs s i" "o_fileid (opentab s i) = fid"
    using assms(3) by (auto simp: openfile_lookup_def MAXOPEN_def Let_def split: if_split_asm)
  have id: "o_fileid (opentab t i) = fid" using serv_step_ids [OF assms(2), of i] l(2,3) by auto
  moreover have "i < 1024" unfolding l(1) using word_mod_less_divisor [of 1024 fid] by (simp add: word_less_nat_alt)
  moreover have "fid' = fid" if "openfile_lookup fid' s = Inr i" for fid'
    using that l(3) by (auto simp: openfile_lookup_def Let_def split: if_split_asm)
  moreover have "openfile_lookup fid u = Inl (- E_INVAL)"
    if prem: "\<forall>j r. fd_alloc_err t j = Some r \<longrightarrow> r < 0" "fd_refs t i < 2" "(serv_step ^^ n) t u" "n < 2 ^ 22" for n u
  proof -
    obtain m where m: "m \<le> n" "o_fileid (opentab u i) = fid + of_nat (1024 * m)" "m = 0 \<longrightarrow> fd_refs u i < 2"
      using serv_steps_refused [OF prem(3,2)] prem(1) id by metis
    have "unat (of_nat (1024 * m) :: 32 word) = 1024 * m" using m(1) prem(4) by (intro unat_of_nat_32) simp
    then have "m \<noteq> 0 \<Longrightarrow> of_nat (1024 * m) \<noteq> (0 :: 32 word)" by (metis mult_eq_0_iff unsigned_0 zero_neq_numeral)
    then show ?thesis using m(2,3) l(1) by (cases "m = 0") (auto simp: openfile_lookup_def MAXOPEN_def)
  qed
  ultimately show ?thesis using l(1) by (auto simp: openfile_lookup_def MAXOPEN_def)
qed

text \<open>
  C38. openfile_alloc answers E_MAX_OPEN exactly when all 1024 entries are shared with clients; otherwise the entry it gives was shared with nobody, its
  page is cleared, its identifier is 1024 more than before, so that the old one is refused from then on, and no other entry changes.
\<close>

theorem openfile_alloc_correct:
  assumes "\<And>i. fd_alloc_err s i = None" "tab_ok s"
  shows "if \<forall>i < 1024. 2 \<le> fd_refs s i then openfile_alloc s = (- E_MAX_OPEN, None, s)
    else \<exists>i t. openfile_alloc s = (sint (o_fileid (opentab s i) + 1024), Some i, t) \<and> i < 1024 \<and> fd_refs s i < 2 \<and>
      fd_refs t = (fd_refs s)(i := 1) \<and> o_fd t = (o_fd s)(i := zero_fd) \<and> s_fs t = s_fs s \<and>
      opentab t = (opentab s)(i := (opentab s i)\<lparr>o_fileid := o_fileid (opentab s i) + 1024\<rparr>) \<and>
      (\<forall>refs. openfile_lookup (o_fileid (opentab s i)) (t\<lparr>fd_refs := refs\<rparr>) = Inl (- E_INVAL)) \<and>
      openfile_lookup (o_fileid (opentab s i) + 1024) (t\<lparr>fd_refs := (fd_refs t)(i := 2)\<rparr>) = Inr i"
proof (cases "\<forall>i < 1024. 2 \<le> fd_refs s i")
  case True
  then show ?thesis
    using openfile_scan_cases [of "[0..<MAXOPEN]" s] by (auto simp: openfile_alloc_def MAXOPEN_def)
next
  case False
  then obtain i where i: "i < 1024" "fd_refs s i < 2"
    "openfile_alloc s = (sint (o_fileid (opentab s i) + 1024), Some i, taken i s)"
    using openfile_scan_cases [of "[0..<MAXOPEN]" s] assms(1) False by (fastforce simp: openfile_alloc_def MAXOPEN_def)
  have m: "unat (o_fileid (opentab s i) mod 1024) = i"
    using assms(2) i(1) unat_of_nat_32 [of i] by (simp add: tab_ok_def)
  then have m': "unat ((o_fileid (opentab s i) + 1024) mod 1024) = i" by (simp add: mod_1024_add)
  have "openfile_lookup (o_fileid (opentab s i)) (taken i s\<lparr>fd_refs := refs\<rparr>) = Inl (- E_INVAL)" for refs
    by (simp add: openfile_lookup_def MAXOPEN_def taken_def m)
  moreover have "openfile_lookup (o_fileid (opentab s i) + 1024) (taken i s\<lparr>fd_refs := (fd_refs (taken i s))(i := 2)\<rparr>) = Inr i"
    by (simp add: openfile_lookup_def MAXOPEN_def taken_def m')
  ultimately show ?thesis
    using False i by (intro if_not_P [THEN iffD2] exI [of _ i] exI [of _ "taken i s"]) (auto simp: taken_def)
qed

text \<open>A server that has just started on the small disk.\<close>

definition start_server :: "server" where
  "start_server = serve_init
     \<lparr>s_fs = small_disk 248, opentab = (\<lambda>_. \<lparr>o_fileid = 0, o_file = 0, o_mode = 0\<rparr>), o_fd = (\<lambda>_. zero_fd),
      fd_refs = (\<lambda>_. 0), fd_alloc_err = (\<lambda>_. None)\<rparr>"

lemma start_server_sel:
  "serv_reachable start_server" "tab_ok start_server" "fd_refs start_server i = 0" "fd_alloc_err start_server i = None"
  "i < 1024 \<Longrightarrow> o_fileid (opentab start_server i) = of_nat i"
proof -
  show r: "serv_reachable start_server"
    unfolding start_server_def by (rule serv_reachable.start) simp
  then show "tab_ok start_server" by (rule serv_reachable_ok)
qed (simp_all add: start_server_def serve_init_def MAXOPEN_def)

theorem openfile_alloc_correct_witness:
  "\<exists>i t. openfile_alloc start_server = (sint (of_nat i + 1024 :: 32 word), Some i, t) \<and> fd_refs t i = 1 \<and>
     openfile_lookup (of_nat i) t = Inl (- E_INVAL)"
proof -
  have n: "\<not> (\<forall>i < 1024. 2 \<le> fd_refs start_server i)" by (auto simp: start_server_sel intro: exI [of _ 0])
  obtain i t where t: "openfile_alloc start_server = (sint (o_fileid (opentab start_server i) + 1024), Some i, t)"
    "i < 1024" "fd_refs t = (fd_refs start_server)(i := 1)"
    "\<And>refs. openfile_lookup (o_fileid (opentab start_server i)) (t\<lparr>fd_refs := refs\<rparr>) = Inl (- E_INVAL)"
    using openfile_alloc_correct [of start_server, OF start_server_sel(4,2)] unfolding if_not_P [OF n] by blast
  have "t\<lparr>fd_refs := fd_refs t\<rparr> = t" by simp
  then have "openfile_lookup (of_nat i) t = Inl (- E_INVAL)" using t(4) [of "fd_refs t"] t(2) by (simp add: start_server_sel)
  then show ?thesis using t(1-3) by (intro exI [of _ i] exI [of _ t]) (simp add: start_server_sel)
qed

text \<open>A client opens the root directory.\<close>

definition root_page :: page where
  "root_page = (\<lambda>j. if j = 0 then 47 else 0)"

lemma open_root:
  "\<exists>t perm. serve_round 1 7 root_page start_server = Ret (Some (0, Some 0, perm), root_page) t \<and>
     o_fileid (opentab t 0) = 1024 \<and> o_file (opentab t 0) = s_root_at \<and> fd_refs t 0 = 1 \<and> s_fs t = small_disk 248"
proof -
  have p: "takeWhile (\<lambda>c. c \<noteq> 0) (map root_page [0..<MAXPATHLEN - 1]) = [47]"
  proof -
    have "0 < MAXPATHLEN - 1" "Suc 0 < MAXPATHLEN - 1" by (simp_all add: MAXPATHLEN_def)
    then have "[0..<MAXPATHLEN - 1] = 0 # Suc 0 # [Suc (Suc 0)..<MAXPATHLEN - 1]" by (simp add: upt_conv_Cons)
    then show ?thesis by (simp add: root_page_def)
  qed
  have m: "page32 root_page MAXPATHLEN = 0" by (simp add: page32_def root_page_def MAXPATHLEN_def)
  have "0 < MAXOPEN" by (simp add: MAXOPEN_def)
  then have u: "[0..<MAXOPEN] = 0 # [Suc 0..<MAXOPEN]" by (simp add: upt_conv_Cons)
  have a: "openfile_alloc start_server = (1024, Some 0, taken 0 start_server)"
    unfolding openfile_alloc_def u by (simp add: start_server_sel taken_def) (simp add: MAXOPEN_def)
  have o: "file_open [47] f = Ret (Inr s_root_at) f" for f
    by (simp add: file_open_def walk_path_def skip_slash_def, subst walk_loop.simps, simp)
  have f: "on_fs (file_open [47]) s = Ret (Inr s_root_at) s" for s by (simp add: on_fs_def o)
  let ?u = "taken 0 start_server"
  let ?t = "?u\<lparr>opentab := (opentab ?u)(0 := (opentab ?u 0)\<lparr>o_file := s_root_at, o_mode := 0\<rparr>),
    o_fd := (o_fd ?u)(0 := (o_fd ?u 0)\<lparr>fd_file_id := o_fileid (opentab ?u 0), fd_omode := 0 AND O_ACCMODE, fd_dev_id := 102\<rparr>)\<rparr>"
  have so: "serve_open root_page start_server = Ret (0, Some 0, PTE_P OR PTE_U OR PTE_W OR PTE_SHARE) ?t"
    unfolding serve_open_def p m a Let_def prod.case by (simp add: f)
  have "serve_round 1 7 root_page start_server = Ret (Some (0, Some 0, PTE_P OR PTE_U OR PTE_W OR PTE_SHARE), root_page) ?t"
    by (simp add: serve_round_def so PTE_P_def)
  moreover have "o_fileid (opentab ?t 0) = 1024" "o_file (opentab ?t 0) = s_root_at" "fd_refs ?t 0 = 1" "s_fs ?t = small_disk 248"
    by (simp_all add: taken_def start_server_sel) (simp add: start_server_def serve_init_def)
  ultimately show ?thesis by blast
qed

theorem fileid_valid_while_open_witness:
  "\<exists>s t. openfile_lookup 1024 s = Inr 0 \<and> serv_step s t \<and> openfile_lookup 1024 t = Inl (- E_INVAL)"
proof -
  obtain u perm where u: "serve_round 1 7 root_page start_server = Ret (Some (0, Some 0, perm), root_page) u"
    "o_fileid (opentab u 0) = 1024" "fd_refs u 0 = 1" using open_root by blast
  define s where "s = u\<lparr>fd_refs := (fd_refs u)(0 := fd_refs u 0 + 1)\<rparr>"
  define t where "t = s\<lparr>fd_refs := (fd_refs s)(0 := fd_refs s 0 - 1)\<rparr>"
  have r: "serv_reachable s"
    using serv_reachable.step [OF start_server_sel(1) serv_step.opened [OF u(1)]] by (simp add: s_def)
  have l: "openfile_lookup 1024 s = Inr 0" using u(2,3) by (simp add: openfile_lookup_def MAXOPEN_def s_def)
  have st: "serv_step s t" unfolding t_def by (rule serv_step.close) (simp add: s_def u(3))
  have "fd_refs t 0 = 1" by (simp add: t_def s_def u(3))
  then have "openfile_lookup 1024 t = Inl (- E_INVAL)" using fileid_valid_while_open [OF r st l] by simp
  then show ?thesis using l st by blast
qed

section \<open>Writing through the server\<close>

text \<open>The bytes a request of n bytes writes: those of the page behind the header, then the first ones of the disk.\<close>

definition wbyte :: "page \<Rightarrow> fs \<Rightarrow> nat \<Rightarrow> 8 word" where
  "wbyte p s j = (if j < 4088 then p (8 + j) else vbyte s 0 (j - 4088))"

lemma req_bytes_ok:
  assumes "fs_ok (s_fs s)" "n \<le> 4096"
  shows "\<exists>t. req_bytes n p s = Ret (map (wbyte p (s_fs s)) [0..<n]) (s\<lparr>s_fs := t\<rparr>) \<and>
    fs_ok t \<and> same_env (s_fs s) t \<and> view t = view (s_fs s)"
proof (cases "n > 4088")
  case False
  then have "map p [8..<8 + min n 4088] = map (wbyte p (s_fs s)) [0..<n]"
    by (intro nth_equalityI) (simp_all add: wbyte_def del: upt_rec_numeral)
  then show ?thesis
    using False assms(1) by (intro exI [of _ "s_fs s"]) (simp add: req_bytes_def del: upt_rec_numeral)
next
  case True
  note b = fs_ok_bounds [OF assms(1)]
  have "\<not> free_bit (s_fs s) 0" using assms(1) b(1) by (simp add: fs_ok_def)
  then have r: "ready (s_fs s) 0 0" using b(1,2) by (simp add: ready_def)
  have d: "DISKMAP = at 0 0" by (simp add: at_def)
  have l: "load_bytes (n - 4088) DISKMAP (s_fs s) = Ret (map (\<lambda>j. vbyte (s_fs s) 0 (0 + j)) [0..<n - 4088]) (fetch 0 (s_fs s))"
    unfolding d by (rule load_bytes_ok [OF assms(1) r]) (use True assms(2) in simp_all)
  have "map p [8..<8 + min n 4088] @ map (\<lambda>j. vbyte (s_fs s) 0 (0 + j)) [0..<n - 4088] = map (wbyte p (s_fs s)) [0..<n]"
    using True by (intro nth_equalityI) (auto simp: wbyte_def nth_append simp del: upt_rec_numeral)
  then show ?thesis
    using True fs_ok_fetch [OF assms(1), of 0] by (intro exI [of _ "fetch 0 (s_fs s)"]) (simp add: req_bytes_def on_fs_def l del: upt_rec_numeral)
qed

text \<open>
  C31. serve_write writes the bytes of the request at the position of the open file and advances the position; but it bounds the count by the size of the
  page and not by the room behind the header, so the last 8 bytes of a request of 4096 or more are not the client's: they are the
  first 8 bytes of block 0 of the disk.
\<close>

theorem serve_write_effect:
  assumes "openfile_lookup (page32 p 0) s = Inr i" "o_file (opentab s i) = at fb fo"
    and "fs_ok (s_fs s)" "file_ok (s_fs s) fb fo" "unat (fsize (s_fs s) fb fo) < 2 ^ 31"
    and "w = min (unat (page32 p 4)) 4096" "0 < w" "fd_offset (o_fd s i) = of_nat pos" "pos + w \<le> 1034 * 4096"
    and "at_ready (s_fs s) fb fo pos" "room (s_fs s) fb fo pos (pos + w)"
  shows "\<exists>t. serve_write p s = Ret (int w, p) t \<and> fd_offset (o_fd t i) = of_nat (pos + w) \<and>
    fs_ok (s_fs t) \<and> file_ok (s_fs t) fb fo \<and>
    unat (fsize (s_fs t) fb fo) = max (unat (fsize (s_fs s) fb fo)) (pos + w) \<and>
    (\<forall>j < w. fbyte (s_fs t) fb fo (pos + j) = (if j < 4088 then p (8 + j) else vbyte (s_fs s) 0 (j - 4088)))"
proof -
  let ?s = "s_fs s" and ?e = "pos + w"
  have fa: "file_at ?s fb fo" by (rule file_ok_file_at [OF assms(4)])
  have w4: "w \<le> 4096" using assms(6) by simp
  have w: "w \<le> 4096" "min (page32 p 4) PGSIZE = of_nat w"
  proof -
    show "w \<le> 4096" by (rule w4)
    have "unat (min (page32 p 4) PGSIZE) = w" by (simp add: assms(6) PGSIZE_def min_def word_le_nat_alt)
    then show "min (page32 p 4) PGSIZE = of_nat w" using w4 by (simp add: word_unat_eq_iff unat_of_nat_32 del: of_nat_numeral)
  qed
  have ue: "unat (of_nat ?e :: 32 word) = ?e" by (rule unat_of_nat_32) (use assms(9) in simp)
  define grow where "grow \<longleftrightarrow> unat (fsize ?s fb fo) < ?e"
  define u where "u = (if grow then put fb (fo div 4 + 32) (of_nat ?e) ?s else ?s)"
  note ps = put_size [OF assms(3) fa, of "of_nat ?e"]
  note sc = size_changed [OF assms(3,4) ps(1,3,2)]
  have st: "(if of_nat ?e > fsize ?s fb fo then on_fs (store32 (f_size_at (at fb fo)) (of_nat ?e)) s else Ret () s)
      = Ret () (s\<lparr>s_fs := u\<rparr>)"
    unfolding word_less_nat_alt ue grow_def [symmetric] by (simp add: u_def on_fs_def ps(4) del: of_nat_add)
  have u: "fs_ok u" "file_ok u fb fo" "ind_no u fb fo = ind_no ?s fb fo" "cached u = cached ?s"
    "\<And>n. n < 1034 \<Longrightarrow> slot u fb fo n = slot ?s fb fo n" "free_set u = free_set ?s" 
    using sc ps(2) assms(3,4) by (simp_all add: u_def)
  have us: "unat (fsize u fb fo) = max (unat (fsize ?s fb fo)) ?e"
    using sc(6) ue by (auto simp: u_def grow_def)
  have u0: "vbyte u 0 = vbyte ?s 0"
  proof -
    have "fb \<noteq> 0" by (rule file_at_bounds(6) [OF assms(3) fa])
    then show ?thesis using ps(3) by (intro vbyte_view) (simp add: u_def)
  qed
  obtain v where v: "req_bytes w p (s\<lparr>s_fs := u\<rparr>) = Ret (map (wbyte p u) [0..<w]) (s\<lparr>s_fs := v\<rparr>)"
    "fs_ok v" "same_env u v" "view v = view u"
    using req_bytes_ok [of "s\<lparr>s_fs := u\<rparr>" w p] u(1) w(1) by auto
  note sv = same_view_file [OF u(1,2) v(3,4)]
  have i: "ind_no v fb fo = ind_no u fb fo" "fsize v fb fo = fsize u fb fo" by (simp_all add: ind_no_def fsize_def v(4))
  have "\<exists>t. file_write (at fb fo) (map (wbyte p u) [0..<w]) (of_nat pos) v = Ret (int (length (map (wbyte p u) [0..<w]))) t \<and>
      written v fb fo pos (map (wbyte p u) [0..<w]) t"
  proof (rule file_write_effect [OF v(2) sv(2)])
    have "pos div 4096 < 1034" using assms(7,9) by simp
    then show "at_ready v fb fo pos" using assms(10) u(4,5) v(3) sv(3) by (auto simp: at_ready_def same_env_def)
    show "unat (fsize v fb fo) < 2 ^ 31" using us assms(5,9) by (simp add: i)
    show "room v fb fo pos (pos + length (map (wbyte p u) [0..<w]))" using assms(11) by (simp add: room_def i u sv(5))
  qed (use assms(7,9) in simp_all)
  then obtain t where t: "file_write (at fb fo) (map (wbyte p u) [0..<w]) (of_nat pos) v = Ret (int w) t"
    "written v fb fo pos (map (wbyte p u) [0..<w]) t" by auto
  have ld: "on_fs (load32 (f_size_at (at fb fo))) s = Ret (fsize ?s fb fo) s"
    by (simp add: on_fs_def load_size [OF assms(3) fa])
  have wr: "on_fs (file_write (at fb fo) (map (wbyte p u) [0..<w]) (of_nat pos)) (s\<lparr>s_fs := v\<rparr>) = Ret (int w) (s\<lparr>s_fs := t\<rparr>)"
    by (simp add: on_fs_def t(1))
  have uw: "unat (of_nat w :: 32 word) = w" by (rule unat_of_nat_32) (use w4 in simp)
  have stf: "kbind (if of_nat pos + of_nat w > fsize ?s fb fo
        then on_fs (store32 (f_size_at (at fb fo)) (of_nat pos + of_nat w)) s else Ret () s) f = f () (s\<lparr>s_fs := u\<rparr>)" for f :: "unit \<Rightarrow> server \<Rightarrow> (int \<times> page, server) kres"
    using st by (simp only: of_nat_add kbind.simps)
  have sw: "serve_write p s = Ret (int w, p) (s\<lparr>s_fs := t, o_fd := (o_fd s)(i := (o_fd s i)\<lparr>fd_offset := of_nat pos + of_nat w\<rparr>)\<rparr>)"
    by (simp add: serve_write_def with_file_def assms(1,2,8) w(2) Let_def ld uw stf v(1) wr cong: if_cong split del: if_split)
  show ?thesis
    unfolding sw using t(2) us u0 by (simp add: written_def i wbyte_def)
qed

text \<open>A request that writes 4096 bytes with the code 65 to the open root directory.\<close>

definition write_page :: page where
  "write_page = (\<lambda>j. if j = 1 then 4 else if j = 5 then 16 else if j < 8 then 0 else 65)"

theorem serve_write_effect_witness:
  "\<exists>s t. serve_write write_page s = Ret (4096, write_page) t \<and>
     fbyte (s_fs t) (Suc 0) 8 4087 = 65 \<and> fbyte (s_fs t) (Suc 0) 8 4088 = 0"
proof -
  obtain u perm where u: "serve_round 1 7 root_page start_server = Ret (Some (0, Some 0, perm), root_page) u"
    "o_fileid (opentab u 0) = 1024" "o_file (opentab u 0) = s_root_at" "fd_refs u 0 = 1" "s_fs u = small_disk 248"
    using open_root by blast
  define s where "s = u\<lparr>fd_refs := (fd_refs u)(0 := 2), o_fd := (o_fd u)(0 := zero_fd)\<rparr>"
  have p: "page32 write_page 0 = 1024" "page32 write_page 4 = 4096" by (simp_all add: page32_def write_page_def)
  have l: "openfile_lookup (page32 write_page 0) s = Inr 0"
    using u(2) by (simp add: p openfile_lookup_def MAXOPEN_def s_def)
  have f: "s_fs s = small_disk 248" "o_file (opentab s 0) = at (Suc 0) 8" "fd_offset (o_fd s 0) = of_nat 0"
    using u(3,5) by (simp_all add: s_def layout_at zero_fd_def)
  have r: "room (s_fs s) (Suc 0) 8 0 (0 + 4096)" by (simp add: room_def small_disk_free_248 f)
  have sz: "unat (fsize (s_fs s) (Suc 0) 8) < 2 ^ 31" by (simp add: fsize_def f)
  have ok: "fs_ok (s_fs s)" "file_ok (s_fs s) (Suc 0) 8" by (simp_all add: f small_disk_ok small_disk_file)
  have ar: "at_ready (s_fs s) (Suc 0) 8 0" by (simp add: at_ready_def)
  obtain t where t: "serve_write write_page s = Ret (int 4096, write_page) t"
    "\<And>j. j < 4096 \<Longrightarrow> fbyte (s_fs t) (Suc 0) 8 (0 + j) =
       (if j < 4088 then write_page (8 + j) else vbyte (s_fs s) 0 (j - 4088))"
    using serve_write_effect [OF l f(2) ok sz _ _ f(3) _ ar r] by (auto simp: p)
  have "vbyte (s_fs s) 0 0 = 0" by (simp add: f vbyte_def view_def small_disk_def)
  then show ?thesis
    using t(1) t(2) [of 4087] t(2) [of 4088] by (intro exI [of _ s] exI [of _ t]) (simp add: write_page_def)
qed

end
