(* ===== verification/Strings.thy ===== *)
theory Strings
  imports Bytes
begin

text \<open>
  lib/string.c over a flat memory of 2^32 bytes, all of them mapped. The loops that only a NUL ends are partial
  functions: None means that the loop never ends. memset and memmove are the versions with
  the string instructions, which the source selects.
\<close>

type_synonym mem = "32 word \<Rightarrow> 8 word"

section \<open>Lengths and copies\<close>

partial_function (option) strlen_loop :: "mem \<Rightarrow> 32 word \<Rightarrow> 32 word \<Rightarrow> 32 word option" where
  "strlen_loop m s n = (if m s \<noteq> 0 then strlen_loop m (s + 1) (n + 1) else Some n)"

definition strlen :: "mem \<Rightarrow> 32 word \<Rightarrow> 32 word option" where
  "strlen m s = strlen_loop m s 0"

fun strnlen_loop :: "mem \<Rightarrow> 32 word \<Rightarrow> nat \<Rightarrow> 32 word \<Rightarrow> 32 word" where
  "strnlen_loop m s left n =
     (case left of 0 \<Rightarrow> n | Suc k \<Rightarrow> if m s \<noteq> 0 then strnlen_loop m (s + 1) k (n + 1) else n)"

definition strnlen :: "mem \<Rightarrow> 32 word \<Rightarrow> 32 word \<Rightarrow> 32 word" where
  "strnlen m s sz = strnlen_loop m s (unat sz) 0"

partial_function (option) strcpy_loop :: "32 word \<Rightarrow> 32 word \<Rightarrow> mem \<Rightarrow> mem option" where
  "strcpy_loop dst src m =
     (let c = m src; m' = m(dst := c)
      in if c \<noteq> 0 then strcpy_loop (dst + 1) (src + 1) m' else Some m')"

definition strcpy :: "32 word \<Rightarrow> 32 word \<Rightarrow> mem \<Rightarrow> (32 word \<times> mem) option" where
  "strcpy dst src m = map_option (\<lambda>m'. (dst, m')) (strcpy_loop dst src m)"

definition strcat :: "32 word \<Rightarrow> 32 word \<Rightarrow> mem \<Rightarrow> (32 word \<times> mem) option" where
  "strcat dst src m =
     (case strlen m dst of
        None \<Rightarrow> None
      | Some len \<Rightarrow> map_option (\<lambda>(_, m'). (dst, m')) (strcpy (dst + len) src m))"

fun strncpy_loop :: "nat \<Rightarrow> 32 word \<Rightarrow> 32 word \<Rightarrow> mem \<Rightarrow> mem" where
  "strncpy_loop 0 dst src m = m"
| "strncpy_loop (Suc n) dst src m =
     (let m' = m(dst := m src)
      in strncpy_loop n (dst + 1) (if m' src \<noteq> 0 then src + 1 else src) m')"

definition strncpy :: "32 word \<Rightarrow> 32 word \<Rightarrow> 32 word \<Rightarrow> mem \<Rightarrow> 32 word \<times> mem" where
  "strncpy dst src sz m = (dst, strncpy_loop (unat sz) dst src m)"

text \<open>The loop of strlcpy has already subtracted one from the size.\<close>

fun strlcpy_loop :: "nat \<Rightarrow> 32 word \<Rightarrow> 32 word \<Rightarrow> mem \<Rightarrow> 32 word \<times> mem" where
  "strlcpy_loop 0 dst src m = (dst, m)"
| "strlcpy_loop (Suc n) dst src m =
     (if m src \<noteq> 0 then strlcpy_loop n (dst + 1) (src + 1) (m(dst := m src)) else (dst, m))"

definition strlcpy :: "32 word \<Rightarrow> 32 word \<Rightarrow> 32 word \<Rightarrow> mem \<Rightarrow> 32 word \<times> mem" where
  "strlcpy dst src sz m =
     (if sz > 0 then
        (let (d, m') = strlcpy_loop (unat sz - 1) dst src m in (d - dst, m'(d := 0)))
      else (0, m))"

section \<open>Comparing and searching\<close>

definition byte_diff :: "8 word \<Rightarrow> 8 word \<Rightarrow> int" where
  "byte_diff a b = uint a - uint b"

partial_function (option) strcmp :: "mem \<Rightarrow> 32 word \<Rightarrow> 32 word \<Rightarrow> int option" where
  "strcmp m p q =
     (if m p \<noteq> 0 \<and> m p = m q then strcmp m (p + 1) (q + 1) else Some (byte_diff (m p) (m q)))"

fun strncmp_loop :: "mem \<Rightarrow> nat \<Rightarrow> 32 word \<Rightarrow> 32 word \<Rightarrow> int" where
  "strncmp_loop m 0 p q = 0"
| "strncmp_loop m (Suc n) p q =
     (if m p \<noteq> 0 \<and> m p = m q then strncmp_loop m n (p + 1) (q + 1) else byte_diff (m p) (m q))"

definition strncmp :: "mem \<Rightarrow> 32 word \<Rightarrow> 32 word \<Rightarrow> 32 word \<Rightarrow> int" where
  "strncmp m p q n = strncmp_loop m (unat n) p q"

partial_function (option) strchr :: "mem \<Rightarrow> 32 word \<Rightarrow> 8 word \<Rightarrow> 32 word option" where
  "strchr m s c =
     (if m s \<noteq> 0 then (if m s = c then Some s else strchr m (s + 1) c) else Some 0)"

partial_function (option) strfind :: "mem \<Rightarrow> 32 word \<Rightarrow> 8 word \<Rightarrow> 32 word option" where
  "strfind m s c =
     (if m s \<noteq> 0 then (if m s = c then Some s else strfind m (s + 1) c) else Some s)"

fun memcmp_loop :: "mem \<Rightarrow> nat \<Rightarrow> 32 word \<Rightarrow> 32 word \<Rightarrow> int" where
  "memcmp_loop m 0 p q = 0"
| "memcmp_loop m (Suc n) p q =
     (if m p \<noteq> m q then byte_diff (m p) (m q) else memcmp_loop m n (p + 1) (q + 1))"

definition memcmp :: "mem \<Rightarrow> 32 word \<Rightarrow> 32 word \<Rightarrow> 32 word \<Rightarrow> int" where
  "memcmp m v1 v2 n = memcmp_loop m (unat n) v1 v2"

lemma unat_Suc_less:
  assumes "s < (e :: 32 word)"
  shows "unat (s + 1) = Suc (unat s)"
proof -
  have "Suc (unat s) < 2 ^ 32" using assms unsigned_less [of e, where 'a = nat] by (simp add: word_less_nat_alt)
  then show ?thesis by (simp add: unat_word_ariths(1))
qed

function memfind_loop :: "mem \<Rightarrow> 8 word \<Rightarrow> 32 word \<Rightarrow> 32 word \<Rightarrow> 32 word" where
  "memfind_loop m c ends s =
     (if s < ends then (if m s = c then s else memfind_loop m c ends (s + 1)) else s)"
  by pat_completeness auto
termination
proof (relation "measure (\<lambda>(m, c, ends, s). unat ends - unat s)", goal_cases)
  case (2 m c ends s)
  show ?case using 2(1) unat_Suc_less [OF 2(1)] by (simp add: word_less_nat_alt)
qed simp

declare memfind_loop.simps [simp del]

definition memfind :: "mem \<Rightarrow> 32 word \<Rightarrow> 32 word \<Rightarrow> 32 word \<Rightarrow> 32 word" where
  "memfind m s c n = memfind_loop m (ucast c) (s + n) s"

section \<open>memset and memmove\<close>

text \<open>rep stosb and rep stosl, with the direction flag clear.\<close>

fun rep_stosb :: "nat \<Rightarrow> 32 word \<Rightarrow> 8 word \<Rightarrow> mem \<Rightarrow> mem" where
  "rep_stosb 0 d c m = m"
| "rep_stosb (Suc k) d c m = rep_stosb k (d + 1) c (m(d := c))"

definition store4 :: "32 word \<Rightarrow> 32 word \<Rightarrow> mem \<Rightarrow> mem" where
  "store4 a w m = m(a := get_byte 0 w, a + 1 := get_byte 1 w, a + 2 := get_byte 2 w, a + 3 := get_byte 3 w)"

definition fetch4 :: "mem \<Rightarrow> 32 word \<Rightarrow> 32 word" where
  "fetch4 m a = ucast (m a) OR push_bit 8 (ucast (m (a + 1))) OR push_bit 16 (ucast (m (a + 2))) OR
                push_bit 24 (ucast (m (a + 3)))"

fun rep_stosl :: "nat \<Rightarrow> 32 word \<Rightarrow> 32 word \<Rightarrow> mem \<Rightarrow> mem" where
  "rep_stosl 0 d w m = m"
| "rep_stosl (Suc k) d w m = rep_stosl k (d + 4) w (store4 d w m)"

definition memset :: "32 word \<Rightarrow> 32 word \<Rightarrow> 32 word \<Rightarrow> mem \<Rightarrow> mem" where
  "memset v c n m =
     (if n = 0 then m
      else if v mod 4 = 0 \<and> n mod 4 = 0 then
        (let c = c AND 0xFF; c = push_bit 24 c OR push_bit 16 c OR push_bit 8 c OR c
         in rep_stosl (unat (n div 4)) v c m)
      else rep_stosb (unat n) v (ucast c) m)"

text \<open>rep movsb and rep movsl; the step is negative when the direction flag is set.\<close>

fun rep_movsb :: "32 word \<Rightarrow> nat \<Rightarrow> 32 word \<Rightarrow> 32 word \<Rightarrow> mem \<Rightarrow> mem" where
  "rep_movsb step 0 d s m = m"
| "rep_movsb step (Suc k) d s m = rep_movsb step k (d + step) (s + step) (m(d := m s))"

fun rep_movsl :: "32 word \<Rightarrow> nat \<Rightarrow> 32 word \<Rightarrow> 32 word \<Rightarrow> mem \<Rightarrow> mem" where
  "rep_movsl step 0 d s m = m"
| "rep_movsl step (Suc k) d s m = rep_movsl step k (d + step) (s + step) (store4 d (fetch4 m s) m)"

definition memmove :: "32 word \<Rightarrow> 32 word \<Rightarrow> 32 word \<Rightarrow> mem \<Rightarrow> mem" where
  "memmove dst src n m =
     (if src < dst \<and> src + n > dst then
        (let s = src + n; d = dst + n
         in if s mod 4 = 0 \<and> d mod 4 = 0 \<and> n mod 4 = 0
            then rep_movsl (- 4) (unat (n div 4)) (d - 4) (s - 4) m
            else rep_movsb (- 1) (unat n) (d - 1) (s - 1) m)
      else if src mod 4 = 0 \<and> dst mod 4 = 0 \<and> n mod 4 = 0
      then rep_movsl 4 (unat (n div 4)) dst src m
      else rep_movsb 1 (unat n) dst src m)"

definition memcpy :: "32 word \<Rightarrow> 32 word \<Rightarrow> 32 word \<Rightarrow> mem \<Rightarrow> mem" where
  "memcpy = memmove"

section \<open>strtol\<close>

partial_function (option) skip_blanks :: "mem \<Rightarrow> 32 word \<Rightarrow> 32 word option" where
  "skip_blanks m s = (if m s = 32 \<or> m s = 9 then skip_blanks m (s + 1) else Some s)"

definition digit_of :: "8 word \<Rightarrow> 32 word option" where
  "digit_of c =
     (if 48 \<le> c \<and> c \<le> 57 then Some (ucast c - 48)
      else if 97 \<le> c \<and> c \<le> 122 then Some (ucast c - 97 + 10)
      else if 65 \<le> c \<and> c \<le> 90 then Some (ucast c - 65 + 10)
      else None)"

partial_function (option) digits_loop :: "mem \<Rightarrow> 32 word \<Rightarrow> 32 word \<Rightarrow> 32 word \<Rightarrow> (32 word \<times> 32 word) option" where
  "digits_loop m base s val =
     (case digit_of (m s) of
        None \<Rightarrow> Some (s, val)
      | Some dig \<Rightarrow>
          if sint dig \<ge> sint base then Some (s, val)
          else digits_loop m base (s + 1) (val * base + dig))"

definition strtol :: "32 word \<Rightarrow> 32 word \<Rightarrow> 32 word \<Rightarrow> mem \<Rightarrow> (32 word \<times> mem) option" where
  "strtol s endptr base m =
     (case skip_blanks m s of
        None \<Rightarrow> None
      | Some s \<Rightarrow>
          (let neg = (m s \<noteq> 43 \<and> m s = 45);
               s = (if m s = 43 \<or> m s = 45 then s + 1 else s);
               (s, base) =
                 (if (base = 0 \<or> base = 16) \<and> m s = 48 \<and> m (s + 1) = 120 then (s + 2, 16)
                  else if base = 0 \<and> m s = 48 then (s + 1, 8)
                  else if base = 0 then (s, 10)
                  else (s, base))
           in case digits_loop m base s 0 of
                None \<Rightarrow> None
              | Some (s, val) \<Rightarrow>
                  Some (if neg then - val else val, if endptr \<noteq> 0 then store4 endptr s m else m)))"

end
