(* ===== verification/Printfmt.thy ===== *)
theory Printfmt
  imports Strings
begin

text \<open>
  lib/printfmt.c. The function that prints a character is a parameter and acts on a state of which rd gives the
  memory, so formats, strings and arguments are read from the memory as it is at that moment. ap is the address of
  the next argument. None means that the function never ends or, for the division by a base of zero and the
  table entry of the most negative error code, has no defined behaviour. Definitions only.
\<close>

section \<open>Numbers\<close>

definition put_n :: "(32 word \<Rightarrow> 's \<Rightarrow> 's) \<Rightarrow> nat \<Rightarrow> 32 word \<Rightarrow> 's \<Rightarrow> 's" where
  "put_n putch k c s = (putch c ^^ k) s"

definition digit_char :: "64 word \<Rightarrow> 32 word" where
  "digit_char d = ucast (chars ''0123456789abcdef'' ! unat d)"

partial_function (option) printnum ::
    "(32 word \<Rightarrow> 's \<Rightarrow> 's) \<Rightarrow> 64 word \<Rightarrow> 32 word \<Rightarrow> 32 word \<Rightarrow> 8 word \<Rightarrow> 's \<Rightarrow> 's option" where
  "printnum putch num base width padc s =
     (if base = 0 then None
      else Option.bind
        (if num \<ge> ucast base then printnum putch (num div ucast base) base (width - 1) padc s
         else Some (put_n putch (nat (sint (width - 1))) (scast padc) s))
        (\<lambda>s. Some (putch (digit_char (num mod ucast base)) s)))"

section \<open>The arguments\<close>

definition va_arg32 :: "mem \<Rightarrow> 32 word \<Rightarrow> 32 word \<times> 32 word" where
  "va_arg32 m ap = (fetch4 m ap, ap + 4)"

definition va_arg64 :: "mem \<Rightarrow> 32 word \<Rightarrow> 64 word \<times> 32 word" where
  "va_arg64 m ap = (push_bit 32 (ucast (fetch4 m (ap + 4))) OR ucast (fetch4 m ap), ap + 8)"

definition getuint :: "mem \<Rightarrow> nat \<Rightarrow> 32 word \<Rightarrow> 64 word \<times> 32 word" where
  "getuint m lflag ap =
     (if lflag \<ge> 2 then va_arg64 m ap
      else (let (w, ap) = va_arg32 m ap in (ucast w, ap)))"

definition getint :: "mem \<Rightarrow> nat \<Rightarrow> 32 word \<Rightarrow> 64 word \<times> 32 word" where
  "getint m lflag ap =
     (if lflag \<ge> 2 then va_arg64 m ap
      else (let (w, ap) = va_arg32 m ap in (scast w, ap)))"

section \<open>Strings\<close>

text \<open>A string constant of the program, as a memory that holds it at address 0.\<close>

definition literal :: "string \<Rightarrow> 's \<Rightarrow> mem" where
  "literal str = (\<lambda>_ a. if unat a < length str then chars str ! unat a else 0)"

definition error_string :: "nat \<Rightarrow> string option" where
  "error_string err =
     (if err = nat E_UNSPECIFIED then Some ''unspecified error''
      else if err = nat E_BAD_ENV then Some ''bad environment''
      else if err = nat E_INVAL then Some ''invalid parameter''
      else if err = nat E_NO_MEM then Some ''out of memory''
      else if err = nat E_NO_FREE_ENV then Some ''out of environments''
      else if err = nat E_FAULT then Some ''segmentation fault''
      else if err = nat E_IPC_NOT_RECV then Some ''env is not recving''
      else if err = nat E_EOF then Some ''unexpected end of file''
      else if err = nat E_NO_DISK then Some ''no free space on disk''
      else if err = nat E_MAX_OPEN then Some ''too many files are open''
      else if err = nat E_NOT_FOUND then Some ''file or block not found''
      else if err = nat E_BAD_PATH then Some ''invalid path''
      else if err = nat E_FILE_EXISTS then Some ''file already exists''
      else if err = nat E_NOT_EXEC then Some ''file is not a valid executable''
      else if err = nat E_NOT_SUPP then Some ''operation not supported''
      else None)"

text \<open>
  The middle loop of the case of %s: the characters up to the NUL or the precision. The result is the width
  that is left.
\<close>

partial_function (option) str_loop ::
    "('s \<Rightarrow> mem) \<Rightarrow> (32 word \<Rightarrow> 's \<Rightarrow> 's) \<Rightarrow> bool \<Rightarrow> 32 word \<Rightarrow> 32 word \<Rightarrow> 32 word \<Rightarrow> 's \<Rightarrow> (32 word \<times> 's) option" where
  "str_loop rd putch altflag p precision width s =
     (let ch = scast (rd s p) :: 32 word
      in if ch = 0 then Some (width, s)
         else if \<not> (sint precision < 0 \<or> sint (precision - 1) \<ge> 0) then Some (width, s)
         else str_loop rd putch altflag (p + 1) (if sint precision < 0 then precision else precision - 1) (width - 1)
                (if altflag \<and> (sint ch < 32 \<or> sint ch > 126) then putch 63 s else putch ch s))"

definition print_string ::
    "('s \<Rightarrow> mem) \<Rightarrow> (32 word \<Rightarrow> 's \<Rightarrow> 's) \<Rightarrow> bool \<Rightarrow> 8 word \<Rightarrow> 32 word \<Rightarrow> 32 word \<Rightarrow> 32 word \<Rightarrow> 's \<Rightarrow> 's option" where
  "print_string rd putch altflag padc precision width p s =
     (let (width, s) =
        (if sint width > 0 \<and> padc \<noteq> 45 then
           (let width = width - strnlen (rd s) p precision
            in (if sint width > 0 then 0 else width, put_n putch (nat (sint width)) (scast padc) s))
         else (width, s))
      in Option.bind (str_loop rd putch altflag p precision width s)
           (\<lambda>(width, s). Some (put_n putch (nat (sint width)) 32 s)))"

section \<open>vprintfmt\<close>

record pf_flags =
  padc :: "8 word"
  width :: "32 word"
  precision :: "32 word"
  lflag :: nat
  altflag :: bool

definition pf_init :: pf_flags where
  "pf_init = \<lparr>padc = 32, width = - 1, precision = - 1, lflag = 0, altflag = False\<rparr>"

text \<open>The digits of a width or precision; ch is the first of them.\<close>

partial_function (option) width_loop :: "mem \<Rightarrow> 32 word \<Rightarrow> 8 word \<Rightarrow> 32 word \<Rightarrow> (32 word \<times> 32 word) option" where
  "width_loop m prec ch fmt =
     (let prec = prec * 10 + ucast ch - 48; ch = m fmt
      in if ch < 48 \<or> ch > 57 then Some (prec, fmt) else width_loop m prec ch (fmt + 1))"

definition process_precision :: "32 word \<Rightarrow> pf_flags \<Rightarrow> pf_flags" where
  "process_precision prec fl =
     (if sint (width fl) < 0 then fl\<lparr>width := prec, precision := - 1\<rparr> else fl\<lparr>precision := prec\<rparr>)"

text \<open>Backing up to the character after the last percent sign.\<close>

partial_function (option) back_up :: "mem \<Rightarrow> 32 word \<Rightarrow> 32 word option" where
  "back_up m fmt = (if m (fmt - 1) \<noteq> 37 then back_up m (fmt - 1) else Some fmt)"

text \<open>
  printfmt(putch, putdat, ''error %d'', err) and printfmt(putch, putdat, ''%s'', p), the two calls that the case of %i makes.
\<close>

definition print_error :: "('s \<Rightarrow> mem) \<Rightarrow> (32 word \<Rightarrow> 's \<Rightarrow> 's) \<Rightarrow> 32 word \<Rightarrow> 's \<Rightarrow> 's option" where
  "print_error rd putch err s =
     (let err = (if sint err < 0 then - err else err)
      in if sint err < 0 then None
         else case (if sint err \<ge> MAXERROR then None else error_string (unat err)) of
           None \<Rightarrow> printnum putch (ucast err) 10 (- 1) 32 (fold putch (map ucast (chars ''error '')) s)
         | Some str \<Rightarrow> print_string (literal str) putch False 32 (- 1) (- 1) 0 s)"

text \<open>
  One conversion character after the flags: the state and the next argument, or None in the inner option if it is none of the
  conversions.
\<close>

definition convert ::
    "('s \<Rightarrow> mem) \<Rightarrow> (32 word \<Rightarrow> 's \<Rightarrow> 's) \<Rightarrow> 8 word \<Rightarrow> pf_flags \<Rightarrow> 32 word \<Rightarrow> 's \<Rightarrow> (32 word \<times> 's) option option" where
  "convert rd putch ch fl ap s =
     (let number = (\<lambda>num base ap s. Some (map_option (Pair ap) (printnum putch num base (width fl) (padc fl) s)))
      in if ch = 99 then (let (c, ap) = va_arg32 (rd s) ap in Some (Some (ap, putch c s)))
      else if ch = 105 then
        (let (err, ap) = va_arg32 (rd s) ap in Some (map_option (Pair ap) (print_error rd putch err s)))
      else if ch = 115 then
        (let (p, ap) = va_arg32 (rd s) ap
         in Some (map_option (Pair ap)
              (if p = 0 then print_string (literal ''(null)'') putch (altflag fl) (padc fl) (precision fl) (width fl) 0 s
               else print_string rd putch (altflag fl) (padc fl) (precision fl) (width fl) p s)))
      else if ch = 100 then
        (let (num, ap) = getint (rd s) (lflag fl) ap
         in if sint num < 0 then number (- num) 10 ap (putch 45 s) else number num 10 ap s)
      else if ch = 117 then (let (num, ap) = getuint (rd s) (lflag fl) ap in number num 10 ap s)
      else if ch = 111 then (let (num, ap) = getuint (rd s) (lflag fl) ap in number num 8 ap s)
      else if ch = 112 then
        (let s = putch 120 (putch 48 s); (p, ap) = va_arg32 (rd s) ap in number (ucast p) 16 ap s)
      else if ch = 120 then (let (num, ap) = getuint (rd s) (lflag fl) ap in number num 16 ap s)
      else if ch = 37 then Some (Some (ap, putch (ucast ch) s))
      else None)"

text \<open>
  One step of vprintfmt: without flags it is at the head of the outer loop, with flags at the label reswitch. The step
  says where to go on, or that the format has ended.
\<close>

datatype 's pf_next = Stop 's | Next "pf_flags option" "32 word" "32 word" 's

definition pf_step ::
    "('s \<Rightarrow> mem) \<Rightarrow> (32 word \<Rightarrow> 's \<Rightarrow> 's) \<Rightarrow> pf_flags option \<Rightarrow> 32 word \<Rightarrow> 32 word \<Rightarrow> 's \<Rightarrow> 's pf_next option" where
  "pf_step rd putch st fmt ap s =
     (let ch = rd s fmt
      in case st of
        None \<Rightarrow>
          if ch = 37 then Some (Next (Some pf_init) (fmt + 1) ap s)
          else if ch = 0 then Some (Stop s)
          else Some (Next None (fmt + 1) ap (putch (ucast ch) s))
      | Some fl \<Rightarrow>
          if ch = 45 \<or> ch = 48 then Some (Next (Some (fl\<lparr>padc := ch\<rparr>)) (fmt + 1) ap s)
          else if 49 \<le> ch \<and> ch \<le> 57 then
            map_option (\<lambda>(prec, fmt). Next (Some (process_precision prec fl)) fmt ap s) (width_loop (rd s) 0 ch (fmt + 1))
          else if ch = 42 then
            (let (prec, ap) = va_arg32 (rd s) ap in Some (Next (Some (process_precision prec fl)) (fmt + 1) ap s))
          else if ch = 46 then
            Some (Next (Some (if sint (width fl) < 0 then fl\<lparr>width := 0\<rparr> else fl)) (fmt + 1) ap s)
          else if ch = 35 then Some (Next (Some (fl\<lparr>altflag := True\<rparr>)) (fmt + 1) ap s)
          else if ch = 108 then Some (Next (Some (fl\<lparr>lflag := lflag fl + 1\<rparr>)) (fmt + 1) ap s)
          else (case convert rd putch ch fl ap s of
            Some r \<Rightarrow> map_option (\<lambda>(ap, s). Next None (fmt + 1) ap s) r
          | None \<Rightarrow>
              (let s = putch 37 s in map_option (\<lambda>fmt. Next None fmt ap s) (back_up (rd s) fmt))))"

partial_function (option) pf_loop ::
    "('s \<Rightarrow> mem) \<Rightarrow> (32 word \<Rightarrow> 's \<Rightarrow> 's) \<Rightarrow> pf_flags option \<Rightarrow> 32 word \<Rightarrow> 32 word \<Rightarrow> 's \<Rightarrow> 's option" where
  "pf_loop rd putch st fmt ap s =
     Option.bind (pf_step rd putch st fmt ap s) (\<lambda>r.
       case r of Stop s \<Rightarrow> Some s | Next st fmt ap s \<Rightarrow> pf_loop rd putch st fmt ap s)"

definition vprintfmt ::
    "('s \<Rightarrow> mem) \<Rightarrow> (32 word \<Rightarrow> 's \<Rightarrow> 's) \<Rightarrow> 32 word \<Rightarrow> 32 word \<Rightarrow> 's \<Rightarrow> 's option" where
  "vprintfmt rd putch fmt ap s = pf_loop rd putch None fmt ap s"

section \<open>Printing into a buffer\<close>

record sprintbuf =
  sb_mem :: mem
  sb_buf :: "32 word"
  sb_ebuf :: "32 word"
  sb_cnt :: "32 word"

definition sprintputch :: "32 word \<Rightarrow> sprintbuf \<Rightarrow> sprintbuf" where
  "sprintputch ch b =
     (let b = b\<lparr>sb_cnt := sb_cnt b + 1\<rparr>
      in if sb_buf b < sb_ebuf b then b\<lparr>sb_mem := (sb_mem b)(sb_buf b := ucast ch), sb_buf := sb_buf b + 1\<rparr> else b)"

definition vsnprintf :: "32 word \<Rightarrow> 32 word \<Rightarrow> 32 word \<Rightarrow> 32 word \<Rightarrow> mem \<Rightarrow> (int \<times> mem) option" where
  "vsnprintf buf n fmt ap m =
     (if buf = 0 \<or> sint n < 1 then Some (- E_INVAL, m)
      else map_option (\<lambda>b. (sint (sb_cnt b), (sb_mem b)(sb_buf b := 0)))
        (vprintfmt sb_mem sprintputch fmt ap \<lparr>sb_mem = m, sb_buf = buf, sb_ebuf = buf + n - 1, sb_cnt = 0\<rparr>))"

definition snprintf :: "32 word \<Rightarrow> 32 word \<Rightarrow> 32 word \<Rightarrow> 32 word \<Rightarrow> mem \<Rightarrow> (int \<times> mem) option" where
  "snprintf = vsnprintf"

end
