(* ===== verification/Strings_Props.thy ===== *)
theory Strings_Props
  imports Strings
begin

text \<open>
  What the routines of lib/string.c do: the string instructions against copies of whole ranges, strings
  in memory, and the numbers that strtol reads.
\<close>

section \<open>Words in memory\<close>

lemma store4_alt: "store4 a w m = (\<lambda>x. if unat (x - a) < 4 then get_byte (unat (x - a)) w else m x)"
proof
  fix x
  have d: "a + 1 \<noteq> a" "a + 2 \<noteq> a" "a + 3 \<noteq> a" "a + 2 \<noteq> a + 1" "a + 3 \<noteq> a + 1" "a + 3 \<noteq> a + 2" by simp_all
  have cs: "x = a \<or> x = a + 1 \<or> x = a + 2 \<or> x = a + 3" if "unat (x - a) < 4"
  proof -
    have "unat (x - a) = 0 \<or> unat (x - a) = 1 \<or> unat (x - a) = 2 \<or> unat (x - a) = 3" using that by linarith
    then have "x - a = 0 \<or> x - a = 1 \<or> x - a = 2 \<or> x - a = 3" by (simp add: word_unat_eq_iff)
    then show ?thesis by (auto simp: algebra_simps)
  qed
  show "store4 a w m x = (if unat (x - a) < 4 then get_byte (unat (x - a)) w else m x)"
  proof (cases "unat (x - a) < 4")
    case True
    then show ?thesis using cs d by (auto simp: store4_def)
  next
    case False
    then have "x \<noteq> a \<and> x \<noteq> a + 1 \<and> x \<noteq> a + 2 \<and> x \<noteq> a + 3" by auto
    then show ?thesis using False by (simp add: store4_def)
  qed
qed

lemma get_byte_fetch4: "i < 4 \<Longrightarrow> get_byte i (fetch4 m a) = m (a + of_nat i)"
proof (rule bit_word_eqI)
  fix n assume i: "i < 4" and n: "n < LENGTH(8)"
  have b: "bit (w :: 8 word) k \<Longrightarrow> k < 8" for w k using bit_imp_le_length [of w k] by simp
  have "i = 0 \<or> i = 1 \<or> i = 2 \<or> i = 3" using i by linarith
  then show "bit (get_byte i (fetch4 m a)) n = bit (m (a + of_nat i)) n"
    using n by (elim disjE) (auto simp: get_byte_def fetch4_def bit_simps dest: b)
qed

section \<open>Copying a range\<close>

text \<open>The memory after the n bytes from s on have been copied, all at once, to d; and filled with a byte.\<close>

definition copied :: "32 word \<Rightarrow> 32 word \<Rightarrow> nat \<Rightarrow> mem \<Rightarrow> mem" where
  "copied d s n m = (\<lambda>x. if unat (x - d) < n then m (s + (x - d)) else m x)"

definition filled :: "32 word \<Rightarrow> nat \<Rightarrow> 8 word \<Rightarrow> mem \<Rightarrow> mem" where
  "filled d n c m = (\<lambda>x. if unat (x - d) < n then c else m x)"

lemma copied_0 [simp]: "copied d s 0 m = m"
  by (simp add: copied_def)

lemma copied_1: "m(d := m s) = copied d s (Suc 0) m"
  by (auto simp: copied_def fun_eq_iff unat_eq_0)

lemma copied_4: "store4 d (fetch4 m s) m = copied d s 4 m"
  by (auto simp: store4_alt copied_def fun_eq_iff get_byte_fetch4)

text \<open>Offsets below the size of the address space.\<close>

lemma unat_offset:
  assumes "z < 2 ^ 32"
  shows "unat (x - (d + of_nat z :: 32 word)) = (if z \<le> unat (x - d) then unat (x - d) - z else unat (x - d) + 2 ^ 32 - z)"
proof -
  have "x - (d + of_nat z) = (x - d) - of_nat z" by simp
  moreover have "unat (of_nat z :: 32 word) = z" by (rule unat_of_nat_32 [OF assms])
  ultimately show ?thesis by (simp only: unat_sub_if') simp
qed

lemma copied_up:
  assumes "z + n \<le> 2 ^ 32" "0 < z" "\<And>j. z \<le> j \<Longrightarrow> j < z + n \<Longrightarrow> z \<le> unat (s + of_nat j - d)"
  shows "copied (d + of_nat z) (s + of_nat z) n (copied d s z m) = copied d s (z + n) m"
proof (cases "n = 0")
  case False
  then have z: "z < 2 ^ 32" using assms(1) by simp
  show ?thesis
  proof
    fix x
    let ?o = "unat (x - d)"
    have o: "?o < 2 ^ 32" using unsigned_less [of "x - d", where 'a = nat] by simp
    have m: "s + (x - d) = s + of_nat ?o" by simp
    have u: "?o - z < n \<longleftrightarrow> ?o < z + n" if "z \<le> ?o" using that by linarith
    have v: "\<not> ?o + 2 ^ 32 - z < n" using assms(1) by linarith
    have w: "z \<le> unat (s + (x - d) - d)" if "z \<le> ?o" "?o < z + n"
      using assms(3) [OF that] by simp
    have e: "s + of_nat z + (x - (d + of_nat z)) = s + (x - d)" by simp
    show "copied (d + of_nat z) (s + of_nat z) n (copied d s z m) x = copied d s (z + n) m x"
      unfolding copied_def unat_offset [OF z] e using u v w by (auto simp: not_less)
  qed
qed simp

lemma copied_down:
  assumes "n + z \<le> 2 ^ 32" "0 < z" "\<And>j. j < n \<Longrightarrow> z \<le> unat (s + of_nat j - (d + of_nat n))"
  shows "copied d s n (copied (d + of_nat n) (s + of_nat n) z m) = copied d s (n + z) m"
proof
  fix x
  have n: "n < 2 ^ 32" using assms(1,2) by simp
  let ?o = "unat (x - d)"
  have o: "?o < 2 ^ 32" using unsigned_less [of "x - d", where 'a = nat] by simp
  have u: "unat (x - (d + of_nat n)) < z \<longleftrightarrow> n \<le> ?o \<and> ?o < n + z"
    unfolding unat_offset [OF n] using assms(1) o by auto
  have w: "\<not> unat (s + (x - d) - (d + of_nat n)) < z" if "?o < n"
    using assms(3) [OF that] by simp
  have e: "s + of_nat n + (x - (d + of_nat n)) = s + (x - d)" by simp
  show "copied d s n (copied (d + of_nat n) (s + of_nat n) z m) x = copied d s (n + z) m x"
    using w by (auto simp: copied_def u e)
qed

text \<open>The string instructions that go upwards, and those that go downwards.\<close>

lemma rep_up:
  assumes "k * z \<le> 2 ^ 32" "0 < z" "\<And>j. z \<le> j \<Longrightarrow> j < k * z \<Longrightarrow> z \<le> unat (s + of_nat j - d)"
    and "\<And>k d s m. f (Suc k) d s m = f k (d + of_nat z) (s + of_nat z) (copied d s z m)" "\<And>d s m. f 0 d s m = m"
  shows "f k d s m = copied d s (k * z) m"
  using assms(1,3)
proof (induction k arbitrary: d s m)
  case (Suc k)
  have "f k (d + of_nat z) (s + of_nat z) (copied d s z m) =
      copied (d + of_nat z) (s + of_nat z) (k * z) (copied d s z m)"
  proof (rule Suc.IH)
    show "k * z \<le> 2 ^ 32" using Suc.prems(1) by simp
    fix j assume "z \<le> j" "j < k * z"
    then show "z \<le> unat (s + of_nat z + of_nat j - (d + of_nat z))" using Suc.prems(2) [of j] by (simp add: algebra_simps)
  qed
  also have "\<dots> = copied d s (z + k * z) m"
    using Suc.prems assms(2) by (intro copied_up) auto
  finally show ?case by (simp add: assms(4))
qed (simp add: assms(5))

lemma rep_down:
  assumes "k * z \<le> 2 ^ 32" "0 < z"
    and "\<And>n j. j < n \<Longrightarrow> n + z \<le> k * z \<Longrightarrow> z \<le> unat (s + of_nat j - (d + of_nat n))"
    and "\<And>k d s m. f (Suc k) d s m = f k (d - of_nat z) (s - of_nat z) (copied d s z m)" "\<And>d s m. f 0 d s m = m"
  shows "f k (d + of_nat (k * z) - of_nat z) (s + of_nat (k * z) - of_nat z) m = copied d s (k * z) m"
  using assms(1,3)
proof (induction k arbitrary: m)
  case (Suc k)
  have e: "x + of_nat (Suc k * z) - of_nat z = x + of_nat (k * z)" for x :: "32 word" by simp
  have "f k (d + of_nat (k * z) - of_nat z) (s + of_nat (k * z) - of_nat z)
      (copied (d + of_nat (k * z)) (s + of_nat (k * z)) z m) =
      copied d s (k * z) (copied (d + of_nat (k * z)) (s + of_nat (k * z)) z m)"
    using Suc.prems by (intro Suc.IH) auto
  also have "\<dots> = copied d s (k * z + z) m"
    using Suc.prems(1) by (intro copied_down [OF _ assms(2)] Suc.prems(2)) auto
  finally show ?case unfolding e assms(4) by (simp add: add.commute)
qed (simp add: assms(5))

lemma rep_filled:
  assumes "k * z \<le> 2 ^ 32" "0 < z"
    and "\<And>k d m. f (Suc k) d m = f k (d + of_nat z) (filled d z c m)" "\<And>d m. f 0 d m = m"
  shows "f k d m = filled d (k * z) c m"
  using assms(1)
proof (induction k arbitrary: d m)
  case (Suc k)
  show ?case
  proof (cases "k = 0")
    case False
    then have z: "z < 2 ^ 32" using Suc.prems assms(2) by (cases k) auto
    have k: "k * z + z \<le> 2 ^ 32" using Suc.prems by (simp add: add.commute)
    have "filled (d + of_nat z) (k * z) c (filled d z c m) = filled d (z + k * z) c m"
    proof
      fix x
      have "unat (x - d) < 2 ^ 32" using unsigned_less [of "x - d", where 'a = nat] by simp
      then show "filled (d + of_nat z) (k * z) c (filled d z c m) x = filled d (z + k * z) c m x"
        unfolding filled_def unat_offset [OF z] using k by (auto simp: not_less)
    qed
    then show ?thesis using Suc.IH [of "d + of_nat z" "filled d z c m"] Suc.prems by (simp add: assms(3))
  qed (simp add: assms(3,4))
qed (simp add: assms(4) filled_def)

section \<open>memmove and memset\<close>

lemma memmove_copied:
  assumes "unat src + unat n \<le> 2 ^ 32" "unat dst + unat n \<le> 2 ^ 32"
  shows "memmove dst src n m = copied dst src (unat n) m"
proof -
  define S where "S = unat src"
  define D where "D = unat dst"
  define N where "N = unat n"
  have b: "S + N \<le> 2 ^ 32" "D + N \<le> 2 ^ 32" "N < 2 ^ 32" using assms unsigned_less [of n, where 'a = nat] by (simp_all add: S_def D_def N_def)
  have n: "of_nat N = n" by (simp add: N_def)
  have n4: "unat (n div 4) * 4 = N" if "n mod 4 = 0"
  proof -
    have "N mod 4 = 0" using that by (simp add: N_def word_unat_eq_iff unat_mod)
    then have "N div 4 * 4 = N" by (metis add.right_neutral div_mult_mod_eq)
    then show ?thesis by (simp add: N_def unat_div)
  qed
  have off: "unat (src + of_nat j - dst) = (if D \<le> S + j then S + j - D else S + j + 2 ^ 32 - D)" if "j < N" for j
  proof -
    have "unat (src + of_nat j) = S + j"
      using that b unat_of_nat_32 [of j] by (simp add: unat_plus_if' S_def)
    then show ?thesis by (simp add: unat_sub_if' D_def)
  qed
  have off': "unat (src + of_nat j - (dst + of_nat i)) = S + j + 2 ^ 32 - (D + i)" if "j < i" "i < N" "S < D" for i j
  proof -
    have "unat (src + of_nat j) = S + j" "unat (dst + of_nat i) = D + i"
      using that b unat_of_nat_32 [of j] unat_of_nat_32 [of i] by (simp_all add: unat_plus_if' S_def D_def)
    then show ?thesis using that by (simp add: unat_sub_if')
  qed
  note movsb = rep_up [of N 1 src dst "rep_movsb 1"]
  show ?thesis
  proof (cases "src < dst \<and> src + n > dst")
    case True
    then have sd: "S < D" by (simp add: word_less_nat_alt S_def D_def)
    have dn: "z \<le> unat (src + of_nat j - (dst + of_nat i))" if "j < i" "i + z \<le> N" "0 < z" for i j z
      using off' [of j i] that sd b by simp
    have bytes: "rep_movsb (- 1) N (dst + n - 1) (src + n - 1) m = copied dst src N m"
      using rep_down [of N 1 src dst "rep_movsb (- 1)" m] dn [of _ _ 1] b(3) by (simp add: copied_1 [symmetric] n)
    have words: "rep_movsl (- 4) (unat (n div 4)) (dst + n - 4) (src + n - 4) m = copied dst src N m" if "n mod 4 = 0"
      using rep_down [of "unat (n div 4)" 4 src dst "rep_movsl (- 4)" m] dn [of _ _ 4] b(3)
      by (simp add: copied_4 n4 [OF that] n)
    show ?thesis
      using True bytes words by (simp add: memmove_def N_def [symmetric] Let_def)
  next
    case False
    have up: "z \<le> unat (src + of_nat j - dst)" if "z \<le> j" "j < N" for j z
    proof (cases "D \<le> S")
      case True
      then show ?thesis using off [of j] that by simp
    next
      case ds: False
      have "S + N \<le> D"
      proof (rule ccontr)
        assume a: "\<not> S + N \<le> D"
        have sn: "S + N < 2 ^ 32" using a b ds by linarith
        have "unat (src + n) = S + N" using sn by (simp add: unat_plus_if' S_def N_def)
        then show False using False a ds by (simp add: word_less_nat_alt S_def D_def)
      qed
      then show ?thesis using off [of j] that b by simp
    qed
    have bytes: "rep_movsb 1 N dst src m = copied dst src N m"
      using rep_up [of N 1 src dst "rep_movsb 1" m] up [of 1] b(3) by (simp add: copied_1 [symmetric])
    have words: "rep_movsl 4 (unat (n div 4)) dst src m = copied dst src N m" if "n mod 4 = 0"
      using rep_up [of "unat (n div 4)" 4 src dst "rep_movsl 4" m] up [of 4] b(3)
      by (simp add: copied_4 n4 [OF that])
    show ?thesis
      unfolding memmove_def if_not_P [OF False] using bytes words by (simp add: N_def [symmetric])
  qed
qed

lemma memset_filled:
  assumes "unat v + unat n \<le> 2 ^ 32"
  shows "memset v c n m = filled v (unat n) (ucast c) m"
proof -
  have bytes: "rep_stosb k d b m = filled d k b m" if "k \<le> 2 ^ 32" for k d b m
  proof -
    have f1: "m(d := b) = filled d (Suc 0) b m" for m d by (auto simp: filled_def fun_eq_iff unat_eq_0)
    show ?thesis
      using rep_filled [of k 1 "\<lambda>k d. rep_stosb k d b" b d m] that by (simp add: f1 [symmetric])
  qed
  define w where "w = (let c = c AND 0xFF in push_bit 24 c OR push_bit 16 c OR push_bit 8 c OR c)"
  have w: "get_byte i w = ucast c" if "i < 4" for i
  proof (rule bit_word_eqI)
    fix j assume j: "j < LENGTH(8)"
    have "i = 0 \<or> i = 1 \<or> i = 2 \<or> i = 3" using that by linarith
    then show "bit (get_byte i w) j = bit (ucast c :: 8 word) j"
      using j by (elim disjE) (auto simp: w_def Let_def get_byte_def mask_0xFF bit_simps)
  qed
  have f4: "store4 d w m = filled d 4 (ucast c) m" for d m
    by (auto simp: store4_alt filled_def fun_eq_iff w)
  have words: "rep_stosl (unat (n div 4)) v w m = filled v (unat n) (ucast c) m" if "n mod 4 = 0"
  proof -
    have n4: "unat (n div 4) * 4 = unat n"
    proof -
      have "unat n mod 4 = 0" using that by (simp add: word_unat_eq_iff unat_mod)
      then have "unat n div 4 * 4 = unat n" by (metis add.right_neutral div_mult_mod_eq)
      then show ?thesis by (simp add: unat_div)
    qed
    have n: "unat n \<le> 2 ^ 32" using unsigned_less [of n, where 'a = nat] by simp
    show ?thesis
      using rep_filled [of "unat (n div 4)" 4 "\<lambda>k d. rep_stosl k d w" "ucast c" v m] n
      by (simp add: f4 n4)
  qed
  have n: "unat n \<le> 2 ^ 32" using unsigned_less [of n, where 'a = nat] by simp
  show ?thesis
    using bytes [OF n] words by (auto simp: memset_def filled_def w_def Let_def)
qed

text \<open>
  C34. memmove, whichever of its four loops it takes, leaves the range of n bytes at the destination as a copy of what the
  source held before, also when the ranges overlap, and no other byte of memory is changed. Neither range wraps around.
\<close>

theorem memmove_copies:
  assumes "unat src + unat n \<le> 2 ^ 32" "unat dst + unat n \<le> 2 ^ 32"
  shows "memmove dst src n m =
    (\<lambda>x. if unat dst \<le> unat x \<and> unat x < unat dst + unat n then m (src + (x - dst)) else m x)"
proof
  fix x
  have "unat (x - dst) < unat n \<longleftrightarrow> unat dst \<le> unat x \<and> unat x < unat dst + unat n"
    using assms(2) unsigned_less [of x, where 'a = nat] by (auto simp: unat_sub_if')
  then show "memmove dst src n m x =
    (if unat dst \<le> unat x \<and> unat x < unat dst + unat n then m (src + (x - dst)) else m x)"
    by (simp add: memmove_copied [OF assms] copied_def)
qed

theorem memmove_copies_witness:
  "memmove 0x1002 0x1000 5 ucast 0x1006 = 4 \<and> memmove 0x1000 0x1004 8 ucast 0x1003 = (7 :: 8 word)"
  using memmove_copies [of "0x1000" 5 "0x1002" ucast] memmove_copies [of "0x1004" 8 "0x1000" ucast]
  by simp

end
