(* ===== verification/Printfmt_Props.thy ===== *)
theory Printfmt_Props
  imports Printfmt Strings_Props
begin

text \<open>
  What lib/printfmt.c prints: numbers, the bounds of the buffer, and that strtol reads back what was printed.
\<close>

section \<open>What printing keeps\<close>

definition keeps :: "('s \<Rightarrow> bool) \<Rightarrow> (32 word \<Rightarrow> 's \<Rightarrow> 's) \<Rightarrow> bool" where
  "keeps I putch \<longleftrightarrow> (\<forall>c s. I s \<longrightarrow> I (putch c s))"

lemma keepsD: "keeps I putch \<Longrightarrow> I s \<Longrightarrow> I (putch c s)"
  by (simp add: keeps_def)

lemma put_n_keeps: "keeps I putch \<Longrightarrow> I s \<Longrightarrow> I (put_n putch k c s)"
  unfolding put_n_def by (induction k arbitrary: s) (auto simp: keepsD)

lemma fold_keeps: "keeps I putch \<Longrightarrow> I s \<Longrightarrow> I (fold putch cs s)"
  by (induction cs arbitrary: s) (auto simp: keepsD)

lemma printnum_keeps: "printnum putch num base w pc s = Some t \<Longrightarrow> keeps I putch \<Longrightarrow> I s \<Longrightarrow> I t"
proof (induction rule: printnum.raw_induct [rotated, consumes 1])
  case (1 f putch num base w pc s t)
  obtain u where u: "(if num \<ge> ucast base then f putch (num div ucast base) base (w - 1) pc s
      else Some (put_n putch (nat (sint (w - 1))) (scast pc) s)) = Some u"
    "t = putch (digit_char (num mod ucast base)) u"
    using 1(2) by (auto simp: bind_eq_Some_conv split: if_split_asm)
  have "I u"
  proof (cases "num \<ge> ucast base")
    case True
    then show ?thesis using u(1) 1(1,3,4) by simp
  next
    case False
    then show ?thesis using u(1) put_n_keeps [OF 1(3,4)] by auto
  qed
  then show ?case unfolding u(2) by (rule keepsD [OF 1(3)])
qed

lemma str_loop_keeps: "str_loop rd putch af p prec w s = Some (v, t) \<Longrightarrow> keeps I putch \<Longrightarrow> I s \<Longrightarrow> I t"
proof (induction rd putch af p prec w s "(v, t)" arbitrary: v t rule: str_loop.raw_induct [rotated, consumes 1])
  case (1 f rd putch af p prec w s v t)
  note IH = 1(1) and eq = 1(2) and k = 1(3,4)
  have "I (if af \<and> c then putch 63 s else putch d s)" for c d using keepsD [OF k] by simp
  then show ?case using eq k IH by (auto simp: Let_def split: if_split_asm)
qed

lemma print_string_keeps: "print_string rd putch af pc prec w p s = Some t \<Longrightarrow> keeps I putch \<Longrightarrow> I s \<Longrightarrow> I t"
proof -
  assume a: "print_string rd putch af pc prec w p s = Some t" "keeps I putch" "I s"
  define ws where "ws = (if sint w > 0 \<and> pc \<noteq> 45 then
      (let w = w - strnlen (rd s) p prec
       in (if sint w > 0 then 0 else w, put_n putch (nat (sint w)) (scast pc) s))
     else (w, s))"
  have i: "I (snd ws)" using put_n_keeps [OF a(2,3)] a(3) by (simp add: ws_def Let_def)
  obtain v u where u: "str_loop rd putch af p prec (fst ws) (snd ws) = Some (v, u)"
    "t = put_n putch (nat (sint v)) 32 u"
    using a(1) by (auto simp: print_string_def ws_def [symmetric] Let_def bind_eq_Some_conv case_prod_beta)
  show ?thesis unfolding u(2) by (rule put_n_keeps [OF a(2) str_loop_keeps [OF u(1) a(2) i]])
qed

lemma print_error_keeps: "print_error rd putch err s = Some t \<Longrightarrow> keeps I putch \<Longrightarrow> I s \<Longrightarrow> I t"
  by (auto simp: print_error_def Let_def split: if_split_asm option.split_asm
      dest: printnum_keeps print_string_keeps fold_keeps)

lemma convert_keeps:
  assumes "convert rd putch ch fl ap s = Some (Some (ap', t))" "keeps I putch" "I s"
  shows "I t"
proof -
  have k: "\<And>c u. I u \<Longrightarrow> I (putch c u)" by (rule keepsD [OF assms(2)])
  have n: "\<And>num base w pc u. printnum putch num base w pc u = Some t \<Longrightarrow> I u \<Longrightarrow> I t"
    using printnum_keeps assms(2) by metis
  have p: "\<And>rd' af pc prec w p. print_string rd' putch af pc prec w p s = Some t \<Longrightarrow> I t"
    using print_string_keeps assms(2,3) by metis
  have e: "\<And>err. print_error rd putch err s = Some t \<Longrightarrow> I t"
    using print_error_keeps assms(2,3) by metis
  show ?thesis
    using assms(1) unfolding convert_def Let_def case_prod_beta
    by (auto split: if_split_asm dest: p e intro: n [OF _ k [OF assms(3)]] n [OF _ assms(3)] n [OF _ k [OF k [OF assms(3)]]] k [OF assms(3)])
qed

lemma pf_loop_keeps: "pf_loop rd putch st fmt ap s = Some t \<Longrightarrow> keeps I putch \<Longrightarrow> I s \<Longrightarrow> I t"
proof (induction rule: pf_loop.raw_induct [rotated, consumes 1])
  case (1 f rd putch st fmt ap s t)
  obtain r where r: "pf_step rd putch st fmt ap s = Some r"
    "(case r of Stop s \<Rightarrow> Some s | Next st fmt ap s \<Rightarrow> f rd putch st fmt ap s) = Some t"
    using 1(2) by (auto simp: bind_eq_Some_conv)
  have i: "case r of Stop u \<Rightarrow> I u | Next _ _ _ u \<Rightarrow> I u"
    using r(1) 1(4) keepsD [OF 1(3,4)] convert_keeps [OF _ 1(3,4)]
    unfolding pf_step_def Let_def case_prod_beta
    by (auto split: option.split_asm if_split_asm)
  then show ?case using r(2) 1(1,3) by (cases r) auto
qed

section \<open>The bounds of the buffer\<close>

definition in_buffer :: "32 word \<Rightarrow> 32 word \<Rightarrow> mem \<Rightarrow> sprintbuf \<Rightarrow> bool" where
  "in_buffer buf ebuf m b \<longleftrightarrow>
     sb_ebuf b = ebuf \<and> unat buf \<le> unat (sb_buf b) \<and> unat (sb_buf b) \<le> unat ebuf \<and>
     (sb_buf b = ebuf \<or> unat (sb_buf b) = unat buf + unat (sb_cnt b)) \<and>
     (\<forall>x. unat x < unat buf \<or> unat ebuf \<le> unat x \<longrightarrow> sb_mem b x = m x)"

lemma sprintputch_keeps: "keeps (in_buffer buf ebuf m) sprintputch"
  unfolding keeps_def
proof (intro allI impI)
  fix c b assume i: "in_buffer buf ebuf m b"
  show "in_buffer buf ebuf m (sprintputch c b)"
  proof (cases "sb_buf b < sb_ebuf b")
    case True
    have s: "unat (sb_buf b + 1) = Suc (unat (sb_buf b))" by (rule unat_Suc_less [OF True])
    have l: "unat (sb_buf b) < unat ebuf" using True i by (simp add: in_buffer_def word_less_nat_alt)
    then have e: "unat (sb_buf b) = unat buf + unat (sb_cnt b)" using i by (auto simp: in_buffer_def)
    have c: "unat (sb_cnt b + 1) = Suc (unat (sb_cnt b))"
      by (rule unat_Suc_less [of _ ebuf]) (use l e in \<open>simp add: word_less_nat_alt\<close>)
    show ?thesis
      using i True l e s c by (auto simp: sprintputch_def in_buffer_def)
  next
    case False
    then have "sb_buf b = ebuf" using i by (simp add: in_buffer_def word_less_nat_alt word_unat_eq_iff)
    then show ?thesis using i False by (simp add: sprintputch_def in_buffer_def)
  qed
qed

text \<open>
  C33. Whatever the format and the arguments, vsnprintf writes no byte outside the n bytes of the buffer and leaves a NUL inside; when
  the NUL is not in the last byte, the result is its position.
\<close>

theorem vsnprintf_bounds:
  assumes "vsnprintf buf n fmt ap m = Some (r, m')" "buf \<noteq> 0" "0 < sint n" "unat buf + unat n \<le> 2 ^ 32"
  shows "(\<forall>x. unat x < unat buf \<or> unat buf + unat n \<le> unat x \<longrightarrow> m' x = m x) \<and>
    (\<exists>k < unat n. m' (buf + of_nat k) = 0 \<and> (k < unat n - 1 \<longrightarrow> r = int k))"
proof -
  let ?e = "buf + n - 1"
  have n: "0 < unat n" "unat n < 2 ^ 31"
  proof -
    have "n \<noteq> 0" using assms(3) by auto
    then show "0 < unat n" by (simp add: unat_gt_0)
    show "unat n < 2 ^ 31" using assms(3) by (intro sint_nonneg) simp
  qed
  have e: "unat ?e = unat buf + unat n - 1"
  proof -
    have "unat (n - 1) = unat n - 1" using n(1) by (intro unat_minus_one) auto
    moreover have "buf + n - 1 = buf + (n - 1)" by simp
    ultimately show ?thesis using n assms(4) by (simp only: unat_plus_if') simp
  qed
  obtain b where b: "pf_loop sb_mem sprintputch None fmt ap
      \<lparr>sb_mem = m, sb_buf = buf, sb_ebuf = ?e, sb_cnt = 0\<rparr> = Some b"
    "r = sint (sb_cnt b)" "m' = (sb_mem b)(sb_buf b := 0)"
    using assms(1-3) by (auto simp: vsnprintf_def vprintfmt_def split: if_split_asm)
  have "in_buffer buf ?e m \<lparr>sb_mem = m, sb_buf = buf, sb_ebuf = ?e, sb_cnt = 0\<rparr>"
    using e n by (auto simp: in_buffer_def)
  then have i: "in_buffer buf ?e m b" by (rule pf_loop_keeps [OF b(1) sprintputch_keeps])
  let ?k = "unat (sb_buf b) - unat buf"
  have k: "unat buf \<le> unat (sb_buf b)" "?k < unat n" using i e n by (auto simp: in_buffer_def)
  then have kb: "buf + of_nat ?k = sb_buf b" by (simp add: of_nat_diff)
  have "r = int ?k" if "?k < unat n - 1"
  proof -
    have "unat (sb_buf b) < unat ?e" using that e k(1) by linarith
    then have "?k = unat (sb_cnt b)" using i by (auto simp: in_buffer_def)
    then show ?thesis using that n(2) b(2) sint_small [of ?k] by simp
  qed
  then have "\<exists>k < unat n. m' (buf + of_nat k) = 0 \<and> (k < unat n - 1 \<longrightarrow> r = int k)"
    using k(2) kb by (intro exI [of _ ?k]) (simp add: b(3))
  moreover have "m' x = m x" if "unat x < unat buf \<or> unat buf + unat n \<le> unat x" for x
    using that i e n k by (auto simp: b(3) in_buffer_def)
  ultimately show ?thesis by blast
qed

section \<open>Digits\<close>

fun digits :: "nat \<Rightarrow> nat \<Rightarrow> nat list" where
  "digits b n = (if b < 2 \<or> n < b then [n] else digits b (n div b) @ [n mod b])"

declare digits.simps [simp del]

lemma digits_small: "n < b \<Longrightarrow> digits b n = [n]"
  by (subst digits.simps) simp

lemma digits_step: "2 \<le> b \<Longrightarrow> b \<le> n \<Longrightarrow> digits b n = digits b (n div b) @ [n mod b]"
  by (subst digits.simps) simp

lemma digits_ne: "digits b n \<noteq> []"
  by (subst digits.simps) simp

lemma unat_ucast_64: "unat (ucast (w :: 32 word) :: 64 word) = unat w"
proof -
  have "unat w < 2 ^ 64" using unsigned_less [of w, where 'a = nat] by simp
  then show ?thesis by (simp add: unsigned_ucast_eq take_bit_nat_eq_self)
qed

lemma sint_minus_1: "- (2 ^ 31) < sint (w :: 32 word) \<Longrightarrow> sint (w - 1) = sint w - 1"
proof -
  assume a: "- (2 ^ 31) < sint w"
  have "sint w < 2 ^ 31" using sint_lt [of w] by simp
  moreover have "word_of_int (sint w - 1) = w - 1" by simp
  ultimately show ?thesis using a sint_of_int [of "sint w - 1"] by simp
qed

lemma digits_value: "2 \<le> b \<Longrightarrow> foldl (\<lambda>v d. v * b + d) 0 (digits b n) = n"
proof (induction n rule: less_induct)
  case (less n)
  show ?case
  proof (cases "n < b")
    case False
    then have "n div b < n" using less.prems by (intro div_less_dividend) simp_all
    then show ?thesis using False less by (simp add: digits_step)
  qed (simp add: digits_small)
qed

lemma digits_bound: "2 \<le> b \<Longrightarrow> d \<in> set (digits b n) \<Longrightarrow> d < b"
proof (induction n rule: less_induct)
  case (less n)
  show ?case
  proof (cases "n < b")
    case True
    then show ?thesis using less.prems by (simp add: digits_small)
  next
    case False
    then have "n div b < n" using less.prems by (intro div_less_dividend) simp_all
    then show ?thesis using False less.prems less.IH [of "n div b"] by (auto simp: digits_step)
  qed
qed

lemma digits_hd: "2 \<le> b \<Longrightarrow> hd (digits b n) = 0 \<longrightarrow> digits b n = [0]"
proof (induction n rule: less_induct)
  case (less n)
  show ?case
  proof (cases "n < b")
    case False
    then have "n div b < n" "n div b \<noteq> 0" using less.prems by (auto simp: div_eq_0_iff intro: div_less_dividend)
    then have "hd (digits b (n div b)) \<noteq> 0"
    proof -
      have "digits b (n div b) \<noteq> [0]"
      proof
        assume z: "digits b (n div b) = [0]"
        show False using digits_value [OF less.prems, of "n div b"] \<open>n div b \<noteq> 0\<close> unfolding z by simp
      qed
      then show ?thesis using less.IH [OF \<open>n div b < n\<close> less.prems] by blast
    qed
    moreover have "digits b n = digits b (n div b) @ [n mod b]" by (rule digits_step) (use False less.prems in simp_all)
    ultimately show ?thesis using digits_ne [of b "n div b"] by (metis hd_append2)
  qed (simp add: digits_small)
qed

lemma digits_length: "2 \<le> b \<Longrightarrow> n < b ^ Suc k \<Longrightarrow> length (digits b n) \<le> Suc k"
proof (induction k arbitrary: n)
  case 0
  then show ?case by (simp add: digits_small)
next
  case (Suc k)
  show ?case
  proof (cases "n < b")
    case False
    have "n div b < b ^ Suc k" using Suc.prems by (simp add: div_less_iff_less_mult mult.commute)
    then show ?thesis using False Suc by (simp add: digits_step)
  qed (simp add: digits_small)
qed

text \<open>printnum puts the pad characters that the width leaves, then the digits, the most significant first.\<close>

definition digit_chars :: "nat \<Rightarrow> nat \<Rightarrow> 32 word list" where
  "digit_chars b n = map (\<lambda>d. digit_char (of_nat d)) (digits b n)"

lemma printnum_digits:
  assumes "2 \<le> unat base" "unat num < unat base ^ Suc k" "- (2 ^ 31) + int k < sint w"
  shows "printnum putch num base w pc s =
    Some (fold putch (digit_chars (unat base) (unat num))
      (put_n putch (nat (sint w - int (length (digits (unat base) (unat num))))) (scast pc) s))"
  using assms(2,3)
proof (induction k arbitrary: num w)
  case (0 num w)
  note b = unat_ucast_64 [of base]
  have nz: "base \<noteq> 0" using assms(1) by auto
  have lt: "unat num < unat base" using 0(1) by simp
  then have "\<not> ucast base \<le> num" "num mod ucast base = num" by (simp_all add: word_le_nat_alt b word_unat_eq_iff unat_mod)
  moreover have "sint (w - 1) = sint w - 1" using 0(2) by (intro sint_minus_1) simp
  ultimately show ?case using lt nz by (subst printnum.simps) (simp add: digits_small digit_chars_def)
next
  case (Suc k num w)
  note b = unat_ucast_64 [of base]
  have nz: "base \<noteq> 0" using assms(1) by auto
  have w: "sint (w - 1) = sint w - 1" using Suc.prems(2) by (intro sint_minus_1) simp
  show ?case
  proof (cases "unat num < unat base")
    case True
    then have "\<not> ucast base \<le> num" "num mod ucast base = num" by (simp_all add: word_le_nat_alt b word_unat_eq_iff unat_mod)
    then show ?thesis using True nz w by (subst printnum.simps) (simp add: digits_small digit_chars_def)
  next
    case False
    let ?q = "num div ucast base"
    have q: "unat ?q = unat num div unat base" by (simp add: unat_div b)
    have "unat ?q < unat base ^ Suc k"
      using Suc.prems(1) assms(1) by (simp add: q div_less_iff_less_mult mult.commute)
    then have ih: "printnum putch ?q base (w - 1) pc s = Some (fold putch (digit_chars (unat base) (unat ?q))
        (put_n putch (nat (sint (w - 1) - int (length (digits (unat base) (unat ?q))))) (scast pc) s))"
      using Suc.prems(2) w by (intro Suc.IH) simp_all
    have m: "num mod ucast base = of_nat (unat num mod unat base)"
    proof -
      have "num mod ucast base = of_nat (unat (num mod ucast base))" by simp
      then show ?thesis by (simp only: unat_mod b)
    qed
    have le: "ucast base \<le> num" using False by (simp add: word_le_nat_alt b)
    have d: "digits (unat base) (unat num) = digits (unat base) (unat ?q) @ [unat num mod unat base]"
      using False assms(1) by (simp add: digits_step q)
    show ?thesis
      using nz le by (subst printnum.simps) (simp add: ih d w m digit_chars_def diff_diff_eq)
  qed
qed

section \<open>Reading numbers\<close>

lemma digit_of_char: "d < 16 \<Longrightarrow> digit_of (ucast (digit_char (of_nat d))) = Some (of_nat d)"
proof -
  have "\<forall>d \<in> set [0..<16]. digit_of (ucast (digit_char (of_nat d))) = Some (of_nat d)"
    by code_simp
  moreover assume "d < 16"
  ultimately show ?thesis by simp
qed

lemma digits_loop_ok:
  assumes "\<And>i. i < length ds \<Longrightarrow> digit_of (m (s + of_nat i)) = Some (of_nat (ds ! i)) \<and> ds ! i < b"
    and "digit_of (m (s + of_nat (length ds))) = None" "b < 2 ^ 31"
  shows "digits_loop m (of_nat b) s (of_nat v) =
    Some (s + of_nat (length ds), of_nat (foldl (\<lambda>v d. v * b + d) v ds))"
  using assms(1,2)
proof (induction ds arbitrary: s v)
  case Nil
  then show ?case by (subst digits_loop.simps) simp
next
  case (Cons d ds)
  have d: "digit_of (m s) = Some (of_nat d)" "d < b" using Cons.prems(1) [of 0] by simp_all
  have "digits_loop m (of_nat b) (s + 1) (of_nat (v * b + d)) =
      Some (s + 1 + of_nat (length ds), of_nat (foldl (\<lambda>v d. v * b + d) (v * b + d) ds))"
  proof (rule Cons.IH)
    show "digit_of (m (s + 1 + of_nat i)) = Some (of_nat (ds ! i)) \<and> ds ! i < b" if "i < length ds" for i
      using Cons.prems(1) [of "Suc i"] that by (simp add: add.assoc)
    show "digit_of (m (s + 1 + of_nat (length ds))) = None" using Cons.prems(2) by (simp add: add.assoc)
  qed
  then show ?case
    using d assms(3) by (subst digits_loop.simps) (simp add: sint_small add.assoc)
qed

section \<open>Printing a decimal number and reading it back\<close>

text \<open>Characters put into a buffer that has room for them.\<close>

lemma fold_sprintputch:
  assumes "unat (sb_buf b) + length cs \<le> unat (sb_ebuf b)"
  shows "fold sprintputch cs b = b\<lparr>sb_mem := (\<lambda>x. if unat (x - sb_buf b) < length cs
      then ucast (cs ! unat (x - sb_buf b)) else sb_mem b x),
    sb_buf := sb_buf b + of_nat (length cs), sb_cnt := sb_cnt b + of_nat (length cs)\<rparr>"
  using assms
proof (induction cs arbitrary: b)
  case (Cons c cs)
  have lt: "sb_buf b < sb_ebuf b" using Cons.prems by (simp add: word_less_nat_alt)
  have s: "unat (sb_buf b + 1) = Suc (unat (sb_buf b))" by (rule unat_Suc_less [OF lt])
  let ?b = "sprintputch c b"
  have p: "?b = b\<lparr>sb_mem := (sb_mem b)(sb_buf b := ucast c), sb_buf := sb_buf b + 1, sb_cnt := sb_cnt b + 1\<rparr>"
    using lt by (simp add: sprintputch_def)
  have l: "length cs < 2 ^ 32 - 1"
    using Cons.prems unsigned_less [of "sb_ebuf b", where 'a = nat] by simp
  have m: "(if unat (x - (sb_buf b + 1)) < length cs then ucast (cs ! unat (x - (sb_buf b + 1)))
        else ((sb_mem b)(sb_buf b := ucast c)) x) =
      (if unat (x - sb_buf b) < Suc (length cs) then ucast ((c # cs) ! unat (x - sb_buf b)) else sb_mem b x)" for x
  proof (cases "x = sb_buf b")
    case True
    have "unat (- 1 :: 32 word) = 2 ^ 32 - 1" using unat_sub_if' [of "0 :: 32 word" 1] by simp
    then show ?thesis using True l by simp
  next
    case False
    then have "unat (x - sb_buf b) = Suc (unat (x - (sb_buf b + 1)))"
      using unat_minus_one [of "x - sb_buf b"] unat_gt_0 [of "x - sb_buf b"] by (simp add: diff_diff_eq)
    then show ?thesis using False by simp
  qed
  have "fold sprintputch cs ?b = ?b\<lparr>sb_mem := (\<lambda>x. if unat (x - sb_buf ?b) < length cs
      then ucast (cs ! unat (x - sb_buf ?b)) else sb_mem ?b x),
    sb_buf := sb_buf ?b + of_nat (length cs), sb_cnt := sb_cnt ?b + of_nat (length cs)\<rparr>"
    by (rule Cons.IH) (use Cons.prems s in \<open>simp add: p\<close>)
  also have "(\<lambda>x. if unat (x - sb_buf ?b) < length cs then ucast (cs ! unat (x - sb_buf ?b)) else sb_mem ?b x) =
      (\<lambda>x. if unat (x - sb_buf b) < length (c # cs) then ucast ((c # cs) ! unat (x - sb_buf b)) else sb_mem b x)"
  proof -
    have pb: "sb_buf ?b = sb_buf b + 1" "sb_mem ?b = (sb_mem b)(sb_buf b := ucast c)" by (simp_all add: p)
    show ?thesis unfolding pb by (rule ext) (simp only: m list.size add_Suc_right add_0_right)
  qed
  finally show ?case by (simp add: p add.assoc)
qed simp

text \<open>The characters of a signed number.\<close>

definition dec_chars :: "32 word \<Rightarrow> 32 word list" where
  "dec_chars v = (if sint v < 0 then 45 # digit_chars 10 (nat (- sint v)) else digit_chars 10 (nat (sint v)))"

lemma dec_length: "length (dec_chars v) \<le> 11" "dec_chars v \<noteq> []"
proof -
  have "sint v < 2 ^ 31" "- (2 ^ 31) \<le> sint v" using sint_lt [of v] sint_ge [of v] by simp_all
  then have "nat (- sint v) < 10 ^ Suc 9" "nat (sint v) < 10 ^ Suc 9" by simp_all
  then have "length (digits 10 (nat (- sint v))) \<le> 10" "length (digits 10 (nat (sint v))) \<le> 10"
    using digits_length [of 10 "nat (- sint v)" 9] digits_length [of 10 "nat (sint v)" 9] by simp_all
  then show "length (dec_chars v) \<le> 11" by (simp add: dec_chars_def digit_chars_def)
  show "dec_chars v \<noteq> []" by (simp add: dec_chars_def digit_chars_def digits_ne)
qed

lemma scast_64:
  fixes v :: "32 word"
  shows "sint (scast v :: 64 word) = sint v"
    and "sint v < 0 \<Longrightarrow> unat (- scast v :: 64 word) = nat (- sint v)"
    and "0 \<le> sint v \<Longrightarrow> unat (scast v :: 64 word) = nat (sint v)"
proof -
  have r: "sint v < 2 ^ 31" "- (2 ^ 31) \<le> sint v" using sint_lt [of v] sint_ge [of v] by simp_all
  have e: "(scast v :: 64 word) = word_of_int (sint v)" by simp
  have u: "unat (word_of_int k :: 64 word) = nat k" if "0 \<le> k" "k < 2 ^ 64" for k
    using that by (simp add: unat_eq_nat_uint uint_word_of_int)
  have "signed_take_bit 63 (sint v) = sint v" using r by (intro signed_take_bit_int_eq_self) simp_all
  then show "sint (scast v :: 64 word) = sint v" unfolding e using sint_sbintrunc' [where 'a = 64, of "sint v"] by simp
  show "0 \<le> sint v \<Longrightarrow> unat (scast v :: 64 word) = nat (sint v)" unfolding e using r by (intro u) simp_all
  have "(- scast v :: 64 word) = word_of_int (- sint v)" unfolding e by simp
  then show "sint v < 0 \<Longrightarrow> unat (- scast v :: 64 word) = nat (- sint v)" using r u [of "- sint v"] by simp
qed

lemma printnum_dec:
  assumes "unat num < 10 ^ 10"
  shows "printnum putch num 10 (- 1) 32 s = Some (fold putch (digit_chars 10 (unat num)) s)"
  using printnum_digits [of 10 num 9 "- 1" putch 32 s] assms by (simp add: put_n_def)

lemma convert_d:
  assumes "fetch4 (rd s) ap = v"
  shows "convert rd putch 100 pf_init ap s = Some (Some (ap + 4, fold putch (dec_chars v) s))"
proof -
  have r: "sint v < 2 ^ 31" "- (2 ^ 31) \<le> sint v" using sint_lt [of v] sint_ge [of v] by simp_all
  have bd: "nat (- sint v) < 10 ^ 10" "nat (sint v) < 10 ^ 10" using r by simp_all
  have g: "getint (rd s) 0 ap = (scast v, ap + 4)" by (simp add: getint_def va_arg32_def assms)
  show ?thesis
  proof (cases "sint v < 0")
    case True
    then have "printnum putch (- scast v) 10 (- 1) 32 (putch 45 s) =
        Some (fold putch (digit_chars 10 (nat (- sint v))) (putch 45 s))"
      using printnum_dec [of "- scast v"] scast_64(2) [OF True] bd by simp
    then show ?thesis using True by (simp add: convert_def pf_init_def g scast_64(1) dec_chars_def)
  next
    case False
    then have "printnum putch (scast v) 10 (- 1) 32 s = Some (fold putch (digit_chars 10 (nat (sint v))) s)"
      using printnum_dec [of "scast v"] scast_64(3) [of v] False bd by simp
    then show ?thesis using False by (simp add: convert_def pf_init_def g scast_64(1) dec_chars_def)
  qed
qed

lemma print_dec:
  assumes "rd s fmt = 37" "rd s (fmt + 1) = 100" "fetch4 (rd s) ap = v"
    and "rd (fold putch (dec_chars v) s) (fmt + 2) = 0"
  shows "vprintfmt rd putch fmt ap s = Some (fold putch (dec_chars v) s)"
proof -
  have 1: "pf_step rd putch None fmt ap s = Some (Next (Some pf_init) (fmt + 1) ap s)"
    by (simp add: pf_step_def assms(1))
  have 2: "pf_step rd putch (Some pf_init) (fmt + 1) ap s =
      Some (Next None (fmt + 2) (ap + 4) (fold putch (dec_chars v) s))"
    by (simp add: pf_step_def assms(2) convert_d [where rd = rd and s = s, OF assms(3)])
  have 3: "pf_step rd putch None (fmt + 2) (ap + 4) (fold putch (dec_chars v) s) =
      Some (Stop (fold putch (dec_chars v) s))"
    by (simp add: pf_step_def assms(4))
  show ?thesis
    unfolding vprintfmt_def
    by (subst pf_loop.simps, simp add: 1, subst pf_loop.simps, simp add: 2, subst pf_loop.simps, simp add: 3)
qed

text \<open>The memory in which the characters stand at an address, followed by a NUL.\<close>

definition with_string :: "32 word \<Rightarrow> 32 word list \<Rightarrow> mem \<Rightarrow> mem" where
  "with_string a cs m = (\<lambda>x. if unat (x - a) < length cs then ucast (cs ! unat (x - a)) else m x)(a + of_nat (length cs) := 0)"

lemma snprintf_dec:
  assumes "m fmt = 37" "m (fmt + 1) = 100" "m (fmt + 2) = 0" "fetch4 m ap = v"
    and "buf \<noteq> 0" "12 \<le> sint n" "unat buf + unat n \<le> 2 ^ 32"
    and "unat (fmt + 2) < unat buf \<or> unat buf + unat n \<le> unat (fmt + 2)"
  shows "snprintf buf n fmt ap m = Some (int (length (dec_chars v)), with_string buf (dec_chars v) m)"
proof -
  let ?cs = "dec_chars v" and ?e = "buf + n - 1"
  let ?b = "\<lparr>sb_mem = m, sb_buf = buf, sb_ebuf = ?e, sb_cnt = 0\<rparr>"
  have s: "sint n = int (unat n)" "unat n < 2 ^ 31" by (rule sint_nonneg, use assms(6) in simp)+
  have n: "12 \<le> unat n" "unat n < 2 ^ 31" using assms(6) s by linarith+
  have e: "unat ?e = unat buf + (unat n - 1)"
  proof -
    have "unat (n - 1) = unat n - 1" using n(1) by (intro unat_minus_one) auto
    moreover have "buf + n - 1 = buf + (n - 1)" by simp
    ultimately show ?thesis using n assms(7) by (simp only: unat_plus_if') simp
  qed
  have f: "fold sprintputch ?cs ?b = ?b\<lparr>sb_mem := (\<lambda>x. if unat (x - buf) < length ?cs
      then ucast (?cs ! unat (x - buf)) else m x), sb_buf := buf + of_nat (length ?cs), sb_cnt := of_nat (length ?cs)\<rparr>"
  proof (subst fold_sprintputch)
    show "unat (sb_buf ?b) + length ?cs \<le> unat (sb_ebuf ?b)" using e n(1) dec_length(1) [of v] by simp
  qed (simp cong: if_cong)
  have "\<not> unat (fmt + 2 - buf) < length ?cs"
    using assms(7,8) n dec_length(1) [of v] unsigned_less [of "fmt + 2", where 'a = nat] by (auto simp: unat_sub_if')
  then have "vprintfmt sb_mem sprintputch fmt ap ?b = Some (fold sprintputch ?cs ?b)"
    using assms(1-4) by (intro print_dec) (simp_all add: f)
  then show ?thesis
    using assms(5,6) dec_length(1) [of v] by (simp add: snprintf_def vsnprintf_def f with_string_def sint_small)
qed

lemma with_string_nth:
  assumes "length cs < 2 ^ 32"
  shows "i < length cs \<Longrightarrow> with_string a cs m (a + of_nat i) = ucast (cs ! i)"
    and "with_string a cs m (a + of_nat (length cs)) = 0"
proof -
  show "with_string a cs m (a + of_nat i) = ucast (cs ! i)" if "i < length cs"
  proof -
    have u: "unat (of_nat i :: 32 word) = i" "unat (of_nat (length cs) :: 32 word) = length cs"
      using that assms by (simp_all only: unat_of_nat_32)
    then have "(of_nat i :: 32 word) \<noteq> of_nat (length cs)" using that by (metis less_irrefl)
    then show ?thesis using that u by (simp add: with_string_def)
  qed
qed (simp add: with_string_def)

lemma digits_loop_digits:
  assumes "\<And>i. i < length (digits 10 k) \<Longrightarrow> m (s + of_nat i) = ucast (digit_chars 10 k ! i)"
    and "m (s + of_nat (length (digits 10 k))) = 0"
  shows "digits_loop m 10 s 0 = Some (s + of_nat (length (digits 10 k)), of_nat k)"
proof -
  have "digits_loop m (of_nat 10) s (of_nat 0) =
      Some (s + of_nat (length (digits 10 k)), of_nat (foldl (\<lambda>v d. v * 10 + d) 0 (digits 10 k)))"
  proof (rule digits_loop_ok)
    fix i assume i: "i < length (digits 10 k)"
    have b: "digits 10 k ! i < 10" using digits_bound [of 10 _ k] i by simp
    then show "digit_of (m (s + of_nat i)) = Some (of_nat (digits 10 k ! i)) \<and> digits 10 k ! i < 10"
      using assms(1) [OF i] i by (simp add: digit_chars_def digit_of_char)
  qed (simp_all add: assms(2) digit_of_def)
  then show ?thesis by (simp add: digits_value)
qed

lemma strtol_dec: "strtol buf 0 10 (with_string buf (dec_chars v) m) = Some (v, with_string buf (dec_chars v) m)"
proof -
  let ?m = "with_string buf (dec_chars v) m"
  note len = dec_length [of v]
  have l: "length (dec_chars v) < 2 ^ 32" using len(1) by simp
  note nth = with_string_nth [OF l, where a = buf and m = m]
  show ?thesis
  proof (cases "sint v < 0")
    case True
    let ?k = "nat (- sint v)"
    have c: "dec_chars v = 45 # digit_chars 10 ?k" using True by (simp add: dec_chars_def)
    have m0: "?m buf = 45" using nth(1) [of 0] by (simp add: c)
    have d: "digits_loop ?m 10 (buf + 1) 0 = Some (buf + 1 + of_nat (length (digits 10 ?k)), of_nat ?k)"
    proof (rule digits_loop_digits)
      show "?m (buf + 1 + of_nat i) = ucast (digit_chars 10 ?k ! i)" if "i < length (digits 10 ?k)" for i
        using nth(1) [of "Suc i"] that by (simp add: c digit_chars_def add.assoc)
      show "?m (buf + 1 + of_nat (length (digits 10 ?k))) = 0"
        using nth(2) by (simp add: c digit_chars_def add.assoc)
    qed
    have s: "skip_blanks ?m buf = Some buf" by (subst skip_blanks.simps) (simp add: m0)
    have "- of_nat ?k = v"
    proof -
      have "(of_nat ?k :: 32 word) = word_of_int (- sint v)" by (subst of_nat_nat) (use True in simp_all)
      then show ?thesis by simp
    qed
    then show ?thesis by (simp add: strtol_def s m0 d)
  next
    case False
    let ?k = "nat (sint v)"
    have c: "dec_chars v = digit_chars 10 ?k" using False by (simp add: dec_chars_def)
    have d: "digits_loop ?m 10 buf 0 = Some (buf + of_nat (length (digits 10 ?k)), of_nat ?k)"
    proof (rule digits_loop_digits)
      show "?m (buf + of_nat i) = ucast (digit_chars 10 ?k ! i)" if "i < length (digits 10 ?k)" for i
        using nth(1) [of i] that by (simp add: c digit_chars_def)
      show "?m (buf + of_nat (length (digits 10 ?k))) = 0" using nth(2) by (simp add: c digit_chars_def)
    qed
    have "digit_of (?m buf) \<noteq> None"
    proof -
      have "0 < length (digits 10 ?k)" using digits_ne [of 10 ?k] by simp
      then have "?m buf = ucast (digit_char (of_nat (digits 10 ?k ! 0)))" "digits 10 ?k ! 0 < 10"
        using nth(1) [of 0] digits_bound [of 10 "digits 10 ?k ! 0" ?k] by (simp_all add: c digit_chars_def)
      then show ?thesis by (simp add: digit_of_char)
    qed
    then have m0: "?m buf \<noteq> 32" "?m buf \<noteq> 9" "?m buf \<noteq> 43" "?m buf \<noteq> 45" by (auto simp: digit_of_def)
    have s: "skip_blanks ?m buf = Some buf" by (subst skip_blanks.simps) (simp add: m0)
    have "of_nat ?k = v"
    proof -
      have "(of_nat ?k :: 32 word) = word_of_int (sint v)" by (subst of_nat_nat) (use False in simp_all)
      then show ?thesis by simp
    qed
    then show ?thesis by (simp add: strtol_def s m0 d)
  qed
qed

text \<open>
  C32. What snprintf prints with %d, strtol reads back in base 10: every 32-bit number survives, the least one
  included, and the result of snprintf is the position of the final NUL. The buffer has at least 12 bytes and does not
  overlap the end of the format.
\<close>

theorem print_then_parse:
  assumes "m fmt = 37" "m (fmt + 1) = 100" "m (fmt + 2) = 0" "fetch4 m ap = v"
    and "buf \<noteq> 0" "12 \<le> sint n" "unat buf + unat n \<le> 2 ^ 32"
    and "unat (fmt + 2) < unat buf \<or> unat buf + unat n \<le> unat (fmt + 2)"
  shows "\<exists>len m'. snprintf buf n fmt ap m = Some (len, m') \<and> 0 < len \<and> len \<le> 11 \<and> m' (buf + of_int len) = 0 \<and>
    strtol buf 0 10 m' = Some (v, m')"
  using snprintf_dec [OF assms] strtol_dec [of buf v m] dec_length [of v] with_string_nth(2) [of "dec_chars v" buf m]
  by (intro exI [of _ "int (length (dec_chars v))"] exI [of _ "with_string buf (dec_chars v) m"]) simp

text \<open>A memory with the format %d at address 256 and every other byte 128.\<close>

definition d_memory :: mem where
  "d_memory = (\<lambda>_. 128)(256 := 37, 257 := 100, 258 := 0)"

theorem print_then_parse_witness:
  "\<exists>len m'. snprintf 512 16 256 1024 d_memory = Some (len, m') \<and> strtol 512 0 10 m' = Some (0x80808080, m')"
proof -
  have "fetch4 d_memory 1024 = 0x80808080" by (simp add: fetch4_def d_memory_def)
  then show ?thesis
    using print_then_parse [of d_memory 256 1024 "0x80808080" 512 16] by (simp add: d_memory_def) blast
qed

theorem vsnprintf_bounds_witness:
  "\<exists>r m'. vsnprintf 512 16 256 1024 d_memory = Some (r, m') \<and> m' 528 = 128 \<and> (\<exists>k < 16. m' (512 + of_nat k) = 0)"
proof -
  have f: "fetch4 d_memory 1024 = 0x80808080" by (simp add: fetch4_def d_memory_def)
  obtain r m' where v: "vsnprintf 512 16 256 1024 d_memory = Some (r, m')"
    using snprintf_dec [OF _ _ _ f, of 256 512 16] by (simp add: d_memory_def snprintf_def)
  then show ?thesis using vsnprintf_bounds [OF v] by (auto simp: d_memory_def)
qed

text \<open>
  C37. For every number and every base from 2 to 16 printnum returns, and it prints the number right-aligned in the width: the pad
  characters that the width leaves, then the digits in that base, the most significant one first.
\<close>

theorem printnum_correct:
  assumes "2 \<le> unat base" "unat base \<le> 16" "- (2 ^ 31) + 63 < sint w"
  shows "\<exists>ds t. printnum putch num base w pc s = Some t \<and>
    t = fold putch (replicate (nat (sint w - int (length ds))) (scast pc) @
      map (\<lambda>d. ucast (chars ''0123456789abcdef'' ! d)) ds) s \<and>
    foldl (\<lambda>v d. v * unat base + d) 0 ds = unat num \<and> (\<forall>d \<in> set ds. d < unat base) \<and>
    (hd ds = 0 \<longrightarrow> ds = [0])"
proof -
  let ?ds = "digits (unat base) (unat num)"
  have "(2 :: nat) ^ Suc 63 \<le> unat base ^ Suc 63" using assms(1) by (rule power_mono) simp
  then have "unat num < unat base ^ Suc 63" using unsigned_less [of num, where 'a = nat] by simp
  then have p: "printnum putch num base w pc s =
      Some (fold putch (digit_chars (unat base) (unat num)) (put_n putch (nat (sint w - int (length ?ds))) (scast pc) s))"
    by (rule printnum_digits [OF assms(1)]) (use assms(3) in simp)
  have b: "\<forall>d \<in> set ?ds. d < unat base" using digits_bound [OF assms(1)] by blast
  have c: "digit_chars (unat base) (unat num) = map (\<lambda>d. ucast (chars ''0123456789abcdef'' ! d)) ?ds"
  proof -
    have "digit_char (of_nat d) = ucast (chars ''0123456789abcdef'' ! d)" if "d \<in> set ?ds" for d
    proof -
      have "d < 2 ^ 64" using b that assms(2) by fastforce
      then have "unat (of_nat d :: 64 word) = d" by (simp add: unat_of_nat take_bit_nat_eq_self)
      then show ?thesis by (simp add: digit_char_def)
    qed
    then show ?thesis by (simp add: digit_chars_def)
  qed
  have h: "hd ?ds = 0 \<longrightarrow> ?ds = [0]" by (rule digits_hd [OF assms(1)])
  show ?thesis
    using p b c h digits_value [OF assms(1)]
    by (intro exI [of _ ?ds] exI [of _ "fold putch (digit_chars (unat base) (unat num))
      (put_n putch (nat (sint w - int (length ?ds))) (scast pc) s)"]) (simp add: put_n_def)
qed

text \<open>printnum with a function that collects the characters.\<close>

theorem printnum_correct_witness:
  "printnum (\<lambda>c cs. cs @ [c]) 255 16 4 48 [] = Some [48, 48, 102, 102]"
proof -
  obtain ds where ds: "printnum (\<lambda>c cs. cs @ [c]) 255 16 4 48 [] =
      Some (fold (\<lambda>c cs. cs @ [c]) (replicate (nat (4 - int (length ds))) 48 @
        map (\<lambda>d. ucast (chars ''0123456789abcdef'' ! d)) ds) [])"
    "foldl (\<lambda>v d. v * 16 + d) 0 ds = 255" "\<forall>d \<in> set ds. d < 16" "hd ds = 0 \<longrightarrow> ds = [0]"
    using printnum_correct [of 16 4 "\<lambda>c cs. cs @ [c]" 255 48 "[]"] by auto
  have up: "v \<le> foldl (\<lambda>v d. v * 16 + d) v xs" for v :: nat and xs
  proof (induction xs arbitrary: v)
    case (Cons x xs)
    have "v \<le> v * 16 + x" by simp
    then show ?case using Cons [of "v * 16 + x"] by simp
  qed simp
  have "ds = [15, 15]"
  proof (cases ds)
    case (Cons a as)
    then have a: "a < 16" "a = 0 \<longrightarrow> as = []" using ds(3,4) by auto
    show ?thesis
    proof (cases as)
      case bs: (Cons b bs)
      show ?thesis
      proof (cases bs)
        case Nil
        then have "a * 16 + b = 255" "b < 16" using ds(2,3) Cons bs by auto
        then have "a = 15 \<and> b = 15" using a(1) by presburger
        then show ?thesis using Nil Cons bs by simp
      next
        case (Cons c cs)
        then have "(a * 16 + b) * 16 + c \<le> 255"
          using up [of "(a * 16 + b) * 16 + c" cs] ds(2) \<open>ds = a # as\<close> bs by simp
        then show ?thesis using a bs by simp
      qed
    qed (use ds(2) Cons a in simp)
  qed (use ds(2) in simp)
  moreover have "((\<lambda>cs. cs @ [48]) ^^ 2) [] = [48, 48 :: 32 word]" by (simp add: eval_nat_numeral)
  ultimately show ?thesis using ds(1) by (simp add: chars_def)
qed

end
