(* ===== verification/Ulib.thy ===== *)
theory Ulib
  imports Syscall
begin

text \<open>
  The user library on top of the kernel: the system call stubs of lib/syscall.c, page fault
  handlers (lib/pgfault.c), copy-on-write fork (lib/fork.c), reference counts of pages
  (lib/pageref.c) and messages (lib/ipc.c). The code runs in the current environment and its
  state is the kernel's: a user access goes through the page directory in CR3 and needs PTE_U, a
  system call is the kernel's dispatcher. The library's variables are in the record ulib.
  An access the page tables refuse ends in Fault, a user panic in Panicked. Local variables
  live in registers, so the stack page is a page like any other. Definitions only.
\<close>

section \<open>User accesses to memory\<close>

definition uload :: "32 word \<Rightarrow> kstate \<Rightarrow> (32 word, kstate) kres" where
  "uload va s =
     (case vtrans s va of
        None \<Rightarrow> Exit Fault s
      | Some (f, perm) \<Rightarrow>
          if perm AND PTE_U = 0 then Exit Fault s
          else Ret (mem s f (unat (PGOFF va) div 4)) s)"

definition ustore :: "32 word \<Rightarrow> 32 word \<Rightarrow> kstate \<Rightarrow> (unit, kstate) kres" where
  "ustore va w s =
     (case vtrans s va of
        None \<Rightarrow> Exit Fault s
      | Some (f, perm) \<Rightarrow>
          if perm AND PTE_U = 0 \<or> perm AND PTE_W = 0 then Exit Fault s
          else Ret () (store f (unat (PGOFF va) div 4) w s))"

text \<open>The arrays uvpt and uvpd: the page tables, seen through the directory's entry for itself.\<close>

definition uvpt :: "32 word \<Rightarrow> kstate \<Rightarrow> (32 word, kstate) kres" where
  "uvpt pn = uload (UVPT + 4 * pn)"

definition uvpd :: "32 word \<Rightarrow> kstate \<Rightarrow> (32 word, kstate) kres" where
  "uvpd i = uload (UVPT + 4 * PGNUM UVPT + 4 * i)"

text \<open>
  memcpy of whole words between pages that do not overlap, the case memmove (lib/string.c)
  copies with rep movsl: n words, upwards.
\<close>

fun ucopy :: "nat \<Rightarrow> 32 word \<Rightarrow> 32 word \<Rightarrow> kstate \<Rightarrow> (unit, kstate) kres" where
  "ucopy 0 dst src s = Ret () s"
| "ucopy (Suc n) dst src s =
     kbind (uload src s) (\<lambda>w s. kbind (ustore dst w s) (\<lambda>_. ucopy n (dst + 4) (src + 4)))"

section \<open>System call stubs (lib/syscall.c)\<close>

definition usyscall ::
    "sys_io \<Rightarrow> 32 word \<Rightarrow> bool \<Rightarrow> 32 word \<Rightarrow> 32 word \<Rightarrow> 32 word \<Rightarrow> 32 word \<Rightarrow> 32 word \<Rightarrow> kstate
      \<Rightarrow> (int, kstate) kres" where
  "usyscall io num check a1 a2 a3 a4 a5 s =
     kbind (syscall io num a1 a2 a3 a4 a5 s) (\<lambda>ret s.
       if check \<and> ret > 0 then Exit (Panicked ''syscall %d returned %d (> 0)'') s else Ret ret s)"

definition usys_cputs :: "sys_io \<Rightarrow> 32 word \<Rightarrow> 32 word \<Rightarrow> kstate \<Rightarrow> (int, kstate) kres" where
  "usys_cputs io str len = usyscall io 0 False str len 0 0 0"

definition usys_cgetc :: "sys_io \<Rightarrow> kstate \<Rightarrow> (int, kstate) kres" where
  "usys_cgetc io = usyscall io 1 False 0 0 0 0 0"

definition usys_getenvid :: "sys_io \<Rightarrow> kstate \<Rightarrow> (int, kstate) kres" where
  "usys_getenvid io = usyscall io 2 False 0 0 0 0 0"

definition usys_env_destroy :: "sys_io \<Rightarrow> 32 word \<Rightarrow> kstate \<Rightarrow> (int, kstate) kres" where
  "usys_env_destroy io envid = usyscall io 3 True envid 0 0 0 0"

definition usys_page_alloc :: "sys_io \<Rightarrow> 32 word \<Rightarrow> 32 word \<Rightarrow> 32 word \<Rightarrow> kstate \<Rightarrow> (int, kstate) kres" where
  "usys_page_alloc io envid va perm = usyscall io 4 True envid va perm 0 0"

definition usys_page_map ::
    "sys_io \<Rightarrow> 32 word \<Rightarrow> 32 word \<Rightarrow> 32 word \<Rightarrow> 32 word \<Rightarrow> 32 word \<Rightarrow> kstate \<Rightarrow> (int, kstate) kres" where
  "usys_page_map io srcenv srcva dstenv dstva perm = usyscall io 5 True srcenv srcva dstenv dstva perm"

definition usys_page_unmap :: "sys_io \<Rightarrow> 32 word \<Rightarrow> 32 word \<Rightarrow> kstate \<Rightarrow> (int, kstate) kres" where
  "usys_page_unmap io envid va = usyscall io 6 True envid va 0 0 0"

definition usys_exofork :: "sys_io \<Rightarrow> kstate \<Rightarrow> (int, kstate) kres" where
  "usys_exofork io = usyscall io 7 False 0 0 0 0 0"

definition usys_env_set_status :: "sys_io \<Rightarrow> 32 word \<Rightarrow> 32 word \<Rightarrow> kstate \<Rightarrow> (int, kstate) kres" where
  "usys_env_set_status io envid status = usyscall io 8 True envid status 0 0 0"

definition usys_env_set_trapframe :: "sys_io \<Rightarrow> 32 word \<Rightarrow> 32 word \<Rightarrow> kstate \<Rightarrow> (int, kstate) kres" where
  "usys_env_set_trapframe io envid tf = usyscall io 9 True envid tf 0 0 0"

definition usys_env_set_pgfault_upcall :: "sys_io \<Rightarrow> 32 word \<Rightarrow> 32 word \<Rightarrow> kstate \<Rightarrow> (int, kstate) kres" where
  "usys_env_set_pgfault_upcall io envid upcall = usyscall io 10 True envid upcall 0 0 0"

definition usys_yield :: "sys_io \<Rightarrow> kstate \<Rightarrow> (int, kstate) kres" where
  "usys_yield io = usyscall io 11 False 0 0 0 0 0"

definition usys_ipc_try_send ::
    "sys_io \<Rightarrow> 32 word \<Rightarrow> 32 word \<Rightarrow> 32 word \<Rightarrow> 32 word \<Rightarrow> kstate \<Rightarrow> (int, kstate) kres" where
  "usys_ipc_try_send io envid value srcva perm = usyscall io 12 False envid value srcva perm 0"

definition usys_ipc_recv :: "sys_io \<Rightarrow> 32 word \<Rightarrow> kstate \<Rightarrow> (int, kstate) kres" where
  "usys_ipc_recv io dstva = usyscall io 13 True dstva 0 0 0 0"

definition usys_gettime :: "sys_io \<Rightarrow> kstate \<Rightarrow> (int, kstate) kres" where
  "usys_gettime io = usyscall io 14 False 0 0 0 0 0"

section \<open>Variables of the library\<close>

text \<open>The pointer to the page fault handler, 0 at first, and thisenv, an index into envs.\<close>

record ulib =
  pgfault_ptr :: "32 word"
  thisenv :: nat

section \<open>Page fault handlers (lib/pgfault.c)\<close>

text \<open>upcall is the address of _pgfault_upcall of lib/pfentry.S.\<close>

definition set_pgfault_handler ::
    "sys_io \<Rightarrow> 32 word \<Rightarrow> 32 word \<Rightarrow> ulib \<Rightarrow> kstate \<Rightarrow> (ulib, kstate) kres" where
  "set_pgfault_handler io upcall handler u s =
     kbind (if pgfault_ptr u = 0
            then kbind (usys_page_alloc io 0 (UXSTACKTOP - PGSIZE) (PTE_W OR PTE_U OR PTE_P) s) (\<lambda>r s.
                   if r < 0 then Exit (Panicked ''set_pgfault_handler:sys_page_alloc failed'') s
                   else Ret () s)
            else Ret () s) (\<lambda>_ s.
       kbind (usys_env_set_pgfault_upcall io 0 upcall s) (\<lambda>r s.
         if r < 0 then Exit (Panicked ''set_pgfault_handler:sys_env_set_pgfault_upcall failed'') s
         else Ret (u\<lparr>pgfault_ptr := handler\<rparr>) s))"

section \<open>Copy-on-write fork (lib/fork.c)\<close>

text \<open>The test of the page tables that pgfault makes, read in the order of the source.\<close>

definition is_cow :: "32 word \<Rightarrow> 32 word \<Rightarrow> kstate \<Rightarrow> (bool, kstate) kres" where
  "is_cow addr err s =
     (if err AND FEC_WR = 0 then Ret False s
      else kbind (uvpd (PDX addr) s) (\<lambda>e s.
        if e AND PTE_P = 0 then Ret False s
        else kbind (uvpt (PGNUM addr) s) (\<lambda>w. Ret (w AND PTE_P \<noteq> 0 \<and> w AND PTE_COW \<noteq> 0))))"

definition pgfault :: "sys_io \<Rightarrow> 32 word \<Rightarrow> 32 word \<Rightarrow> kstate \<Rightarrow> (unit, kstate) kres" where
  "pgfault io fault_va err s =
     kbind (is_cow fault_va err s) (\<lambda>ok s.
       if \<not> ok then Exit (Panicked ''not copy-on-write'') s
       else
         (let addr = ROUNDDOWN fault_va PGSIZE
          in kbind (usys_page_alloc io 0 PFTEMP (PTE_W OR PTE_U OR PTE_P) s) (\<lambda>r s.
               if r < 0 then Exit (Panicked ''sys_page_alloc'') s
               else kbind (ucopy 1024 PFTEMP addr s) (\<lambda>_ s.
                 kbind (usys_page_map io 0 PFTEMP 0 addr (PTE_W OR PTE_U OR PTE_P) s) (\<lambda>r s.
                   if r < 0 then Exit (Panicked ''sys_page_map'') s
                   else kbind (usys_page_unmap io 0 PFTEMP s) (\<lambda>r s.
                     if r < 0 then Exit (Panicked ''sys_page_unmap'') s else Ret () s))))))"

definition duppage :: "sys_io \<Rightarrow> 32 word \<Rightarrow> 32 word \<Rightarrow> kstate \<Rightarrow> (int, kstate) kres" where
  "duppage io envid pn s =
     kbind (uvpt pn s) (\<lambda>pte s.
       let addr = pn * PGSIZE
       in if pte AND PTE_SHARE \<noteq> 0 then
            kbind (usys_page_map io 0 addr envid addr (pte AND PTE_SYSCALL) s) (\<lambda>r s.
              if r \<noteq> 0 then Exit (Panicked ''duppage share'') s else Ret 0 s)
          else if pte AND PTE_W \<noteq> 0 \<or> pte AND PTE_COW \<noteq> 0 then
            kbind (usys_page_map io 0 addr envid addr (PTE_COW OR PTE_U OR PTE_P) s) (\<lambda>r s.
              if r < 0 then Exit (Panicked ''error'') s
              else kbind (usys_page_map io 0 addr 0 addr (PTE_COW OR PTE_U OR PTE_P) s) (\<lambda>r s.
                     if r < 0 then Exit (Panicked ''error'') s else Ret 0 s))
          else kbind (usys_page_map io 0 addr envid addr (PTE_U OR PTE_P) s) (\<lambda>_. Ret 0))"

text \<open>The body of fork's loop for the page pn, and the number of pages below USTACKTOP.\<close>

definition fork_page :: "sys_io \<Rightarrow> 32 word \<Rightarrow> nat \<Rightarrow> kstate \<Rightarrow> (unit, kstate) kres" where
  "fork_page io envid pn s =
     (let addr = of_nat pn * PGSIZE
      in kbind (uvpd (PDX addr) s) (\<lambda>e s.
           if e AND PTE_P = 0 then Ret () s
           else kbind (uvpt (PGNUM addr) s) (\<lambda>w s.
             if w AND PTE_P = 0 \<or> w AND PTE_U = 0 then Ret () s
             else kbind (duppage io envid (PGNUM addr) s) (\<lambda>_. Ret ()))))"

definition NFORK :: nat where "NFORK = unat (PGNUM USTACKTOP)"

definition fork :: "sys_io \<Rightarrow> 32 word \<Rightarrow> 32 word \<Rightarrow> ulib \<Rightarrow> kstate \<Rightarrow> (int \<times> ulib, kstate) kres" where
  "fork io upcall handler u s =
     kbind (set_pgfault_handler io upcall handler u s) (\<lambda>u s.
       kbind (usys_exofork io s) (\<lambda>envid s.
         if envid = 0 then
           kbind (usys_getenvid io s) (\<lambda>id. Ret (0, u\<lparr>thisenv := unat (ENVX (word_of_int id))\<rparr>))
         else if envid < 0 then Exit (Panicked ''sys_exofork: %i'') s
         else
           (let child = word_of_int envid
            in kbind (kforeach (fork_page io child) [0..<NFORK] s) (\<lambda>_ s.
               kbind (usys_page_alloc io child (UXSTACKTOP - PGSIZE) (PTE_U OR PTE_W OR PTE_P) s) (\<lambda>r s.
                 if r < 0 then Exit (Panicked ''1'') s
                 else kbind (usys_env_set_pgfault_upcall io child upcall s) (\<lambda>_ s.
                   kbind (usys_env_set_status io child 2 s) (\<lambda>r s.
                     if r < 0 then Exit (Panicked ''sys_env_set_status'') s
                     else Ret (envid, u) s)))))))"

definition sfork :: "kstate \<Rightarrow> (int, kstate) kres" where
  "sfork s = Exit (Panicked ''sfork not implemented'') s"

section \<open>Reference counts and messages (lib/pageref.c, lib/ipc.c)\<close>

text \<open>The user's read-only view of pages and envs is the kernel's array itself.\<close>

definition pageref :: "32 word \<Rightarrow> kstate \<Rightarrow> (int, kstate) kres" where
  "pageref v s =
     kbind (uvpd (PDX v) s) (\<lambda>e s.
       if e AND PTE_P = 0 then Ret 0 s
       else kbind (uvpt (PGNUM v) s) (\<lambda>pte s.
         if pte AND PTE_P = 0 then Ret 0 s
         else Ret (int (unat (pp_ref (pages s (unat (PGNUM pte)))))) s))"

text \<open>
  The stores through from_env_store and perm_store are returned, 0 when the call fails; a caller
  that passes NULL ignores them. pg is 0 for no page.
\<close>

definition ipc_recv ::
    "sys_io \<Rightarrow> 32 word \<Rightarrow> ulib \<Rightarrow> kstate \<Rightarrow> (int \<times> 32 word \<times> 32 word, kstate) kres" where
  "ipc_recv io pg u s =
     kbind (usys_ipc_recv io (if pg = 0 then 0xFFFFFFFF else pg) s) (\<lambda>ret s.
       if ret \<noteq> 0 then Ret (ret, 0, 0) s
       else (let e = envs s (thisenv u)
             in Ret (sint (env_ipc_value e), env_ipc_from e, env_ipc_perm e) s))"

fun ipc_send :: "nat \<Rightarrow> sys_io \<Rightarrow> 32 word \<Rightarrow> 32 word \<Rightarrow> 32 word \<Rightarrow> 32 word \<Rightarrow> kstate \<Rightarrow> (unit, kstate) kres" where
  "ipc_send fuel io to_env val pg perm s =
     kbind (usys_ipc_try_send io to_env val (if pg = 0 then 0xFFFFFFFF else pg) perm s) (\<lambda>ret s.
       if ret = 0 then Ret () s
       else if ret \<noteq> - E_IPC_NOT_RECV then Exit (Panicked ''not E_IPC_NOT_RECV, %i'') s
       else kbind (usys_yield io s) (\<lambda>_ s.
              if fuel = 0 then Exit Spins s else ipc_send (fuel - 1) io to_env val pg perm s))"

declare ipc_send.simps [simp del]

definition ipc_find_env :: "EnvType \<Rightarrow> kstate \<Rightarrow> 32 word" where
  "ipc_find_env type s =
     (case List.find (\<lambda>i. env_type (envs s i) = type) [0..<NENV] of
        None \<Rightarrow> 0 | Some i \<Rightarrow> env_id (envs s i))"

text \<open>wait (lib/wait.c), until the environment is free or the slot is another's.\<close>

fun wait :: "nat \<Rightarrow> sys_io \<Rightarrow> 32 word \<Rightarrow> kstate \<Rightarrow> (unit, kstate) kres" where
  "wait fuel io envid s =
     (if envid = 0 then Exit (Panicked ''assertion failed: envid != 0'') s
      else (let e = envs s (unat (ENVX envid))
            in if env_id e = envid \<and> env_status e \<noteq> ENV_FREE
               then kbind (usys_yield io s) (\<lambda>_ s. if fuel = 0 then Exit Spins s else wait (fuel - 1) io envid s)
               else Ret () s))"

declare wait.simps [simp del]

end
