(* ===== verification/Ulib_Lemmas.thy ===== *)
theory Ulib_Lemmas
  imports Ulib Syscall_Props
begin

text \<open>
  Lemmas for programs that manage their own address space: what an environment sees of
  its page tables, writes to data pages, reference counts of data pages, and the page
  calls on the caller's own space.
\<close>

section \<open>The environment that runs\<close>

text \<open>
  Environment c runs in directory d, whose entry for UVPT is d itself, and the user may
  use its page tables.
\<close>

definition runs_in :: "kstate \<Rightarrow> nat set \<Rightarrow> nat \<Rightarrow> nat \<Rightarrow> bool" where
  "runs_in s D c d \<longleftrightarrow> curenv s = Some c \<and> env_pgdir (envs s c) = Some d \<and> d \<in> D \<and> cr3 s = d \<and>
     mem s d (unat (PDX UVPT)) = page2pa d OR PTE_P OR PTE_U \<and>
     (\<forall>i < NUSER. present (mem s d i) \<longrightarrow> bit (mem s d i) 1 \<and> bit (mem s d i) 2)"

text \<open>No user mapping reaches a page that serves as a table.\<close>

definition data_only :: "kstate \<Rightarrow> nat set \<Rightarrow> bool" where
  "data_only s D \<longleftrightarrow>
     (\<forall>d \<in> D. \<forall>va w. user_va va \<longrightarrow> vm_map s d va = Some w \<longrightarrow> \<not> table_frame s D (frame w))"

lemma runs_in_grow:
  assumes "runs_in s D c d" "vm_frame s t" "dirs_grow s D xs t"
  shows "runs_in t D c d"
proof -
  have d: "d \<in> D" using assms(1) by (simp add: runs_in_def)
  have ge: "\<not> unat (PDX UVPT) < NUSER" by (simp add: NUSER_eq unat_PDX layout_values)
  have "mem t d i = mem s d i \<or> (i < NUSER \<and> \<not> present (mem s d i) \<and>
      (\<exists>x \<in> set xs. mem t d i = page2pa x OR PTE_P OR PTE_W OR PTE_U))" for i
    using assms(3) d unfolding dirs_grow_def by blast
  then have "mem t d (unat (PDX UVPT)) = mem s d (unat (PDX UVPT))"
    "\<forall>i < NUSER. present (mem t d i) \<longrightarrow> bit (mem t d i) 1 \<and> bit (mem t d i) 2"
    using ge assms(1) new_pde_bits unfolding runs_in_def by metis+
  then show ?thesis
    using assms(1) vm_frame_sel [OF assms(2)] by (simp add: runs_in_def)
qed

subsection \<open>Translation of user addresses\<close>

lemma vtrans_user:
  assumes run: "runs_in s D c d" and va: "user_va va" and m: "vm_map s d va = Some w"
  shows "\<exists>perm. vtrans s va = Some (frame w, perm) \<and> (\<forall>n. bit perm n \<longrightarrow> bit w n) \<and>
    bit perm 1 = bit w 1 \<and> bit perm 2 = bit w 2"
proof -
  have d: "d \<in> D" "cr3 s = d" using run by (simp_all add: runs_in_def)
  note sl = vm_map_slot [OF m d(1) va]
  let ?e = "mem s d (unat (PDX va))"
  have e: "present ?e" "bit ?e 1" "bit ?e 2"
    using sl(1) run by (simp_all add: pt_slot_def runs_in_def)
  have "vtrans s va = Some (frame w, ?e AND w)"
    using sl e(1) by (simp add: vtrans_def Let_def d frame_def present_def)
  then show ?thesis using e by (simp add: bit_and_iff)
qed

lemma uload_user:
  assumes "runs_in s D c d" "user_va va" "vm_map s d va = Some w" "bit w 2"
  shows "uload va s = Ret (mem s (frame w) (unat (PGOFF va) div 4)) s"
  using vtrans_user [OF assms(1-3)] assms(4) and_PTE(3) by (auto simp: uload_def)

lemma ustore_user:
  assumes "runs_in s D c d" "user_va va" "vm_map s d va = Some w" "bit w 1" "bit w 2"
  shows "ustore va v s = Ret () (store (frame w) (unat (PGOFF va) div 4) v s)"
proof -
  obtain perm where "vtrans s va = Some (frame w, perm)" "bit perm 1" "bit perm 2"
    using vtrans_user [OF assms(1-3)] assms(4,5) by blast
  then show ?thesis using and_PTE(2,3) [of perm] by (simp add: ustore_def)
qed

subsection \<open>The self map\<close>

lemma UVPT_index:
  assumes "p < 2 ^ 20"
  shows "unat (PDX (UVPT + 4 * of_nat p)) = unat (PDX UVPT)" "unat (PTX (UVPT + 4 * of_nat p)) = p div 1024"
    "unat (PGOFF (UVPT + 4 * of_nat p)) div 4 = p mod 1024"
proof -
  have u: "unat (UVPT + 4 * of_nat p) = 0xEF400000 + 4 * p"
  proof -
    have "UVPT + 4 * of_nat p = of_nat (0xEF400000 + 4 * p)" by (simp add: layout_values)
    moreover have "0xEF400000 + 4 * p < 2 ^ 32" using assms by simp
    ultimately show ?thesis using unat_of_nat_32 by metis
  qed
  have "(0xEF400000 + 4 * p) div 4194304 = 957" using assms by simp
  then show "unat (PDX (UVPT + 4 * of_nat p)) = unat (PDX UVPT)"
    unfolding unat_PDX u by (simp add: layout_values)
  have shift: "(a * m + r) div m = a + r div m" "(a * m + r) mod m = r mod m" if "0 < m" for a m r :: nat
    using that by simp_all
  have "(0xEF400000 + 4 * p) div 4096 = 979968 + 4 * p div (4 * 1024)"
    using shift(1) [of 4096 979968 "4 * p"] by simp
  then have "(0xEF400000 + 4 * p) div 4096 = 979968 + p div 1024" by simp
  moreover have "p div 1024 < 1024" using assms by simp
  ultimately show "unat (PTX (UVPT + 4 * of_nat p)) = p div 1024"
    unfolding unat_PTX u using shift(2) [of 1024 957 "p div 1024"] by simp
  have "unat (PGOFF (UVPT + 4 * of_nat p)) = (0xEF400000 + 4 * p) mod 4096"
    unfolding unat_PGOFF u by simp
  also have "\<dots> = 4 * p mod (4 * 1024)" using shift(2) [of 4096 979968 "4 * p"] by simp
  also have "\<dots> = 4 * (p mod 1024)" by (simp only: mult_mod_right)
  also have "\<dots> div 4 = p mod 1024" by simp
  finally show "unat (PGOFF (UVPT + 4 * of_nat p)) div 4 = p mod 1024" by simp
qed

lemma self_entry:
  assumes "vm_inv s D k xs" "runs_in s D c d"
  shows "d < 2 ^ 20" "unat (PGNUM (page2pa d OR PTE_P OR PTE_U)) = d" "bit (page2pa d OR PTE_P OR PTE_U) 0"
    "bit (page2pa d OR PTE_P OR PTE_U) 2" "\<not> bit (page2pa d OR PTE_P OR PTE_U) 1"
proof -
  show d: "d < 2 ^ 20"
    using assms vm_inv_npages [OF assms(1)] by (auto simp: runs_in_def vm_inv_def tables_ok_def)
  show "unat (PGNUM (page2pa d OR PTE_P OR PTE_U)) = d"
    using frame_page2pa_or [OF d, of "PTE_P OR PTE_U"] by (simp add: or.assoc frame_def)
  show "bit (page2pa d OR PTE_P OR PTE_U) 0" "bit (page2pa d OR PTE_P OR PTE_U) 2"
    "\<not> bit (page2pa d OR PTE_P OR PTE_U) 1"
    by (simp_all add: bit_or_iff layout_defs page2pa_def bit_push_bit_iff bit_numeral_rec numeral_2_eq_2)
qed

lemma uvpd_user:
  assumes inv: "vm_inv s D k xs" and run: "runs_in s D c d"
  shows "uvpd (PDX va) s = Ret (mem s d (unat (PDX va))) s"
proof -
  note se = self_entry [OF inv run]
  let ?q = "957 * 1024 + unat (PDX va)"
  have lt: "unat (PDX va) < 1024" by (rule PDX_less)
  have split: "(957 * 1024 + r) div 1024 = 957" "(957 * 1024 + r) mod 1024 = r" if "r < 1024" for r :: nat
    using that div_mult_self3 [of 1024 957 r] mod_mult_self3 [of 957 1024 r] by (simp_all del: div_mult_self3 mod_mult_self3)
  have q: "?q < 2 ^ 20" "?q div 1024 = 957" "?q mod 1024 = unat (PDX va)"
    using lt split by (simp, blast+)
  have "PGNUM UVPT = 0xEF400" by (simp add: PGNUM_def layout_values)
  then have a: "UVPT + 4 * PGNUM UVPT + 4 * PDX va = UVPT + 4 * of_nat ?q"
    by (simp add: algebra_simps)
  have m: "mem s d (unat (PDX UVPT)) = page2pa d OR PTE_P OR PTE_U" and c: "cr3 s = d"
    using run by (simp_all add: runs_in_def)
  have u957: "unat (PDX UVPT) = 957" by (simp add: unat_PDX layout_values)
  have "vtrans s (UVPT + 4 * of_nat ?q) = Some (d, page2pa d OR PTE_P OR PTE_U)"
    unfolding vtrans_def UVPT_index(1,2) [OF q(1)] q(2) Let_def c
    using m se by (simp add: u957 and_PTE)
  then show ?thesis
    using UVPT_index(3) [OF q(1)] q(3) se(4) and_PTE(3) by (simp add: uvpd_def a uload_def)
qed

lemma uvpt_user:
  assumes inv: "vm_inv s D k xs" and run: "runs_in s D c d" and va: "user_va va"
    and pr: "present (mem s d (unat (PDX va)))"
  shows "uvpt (PGNUM va) s = Ret (mem s (frame (mem s d (unat (PDX va)))) (unat (PTX va))) s"
proof -
  note se = self_entry [OF inv run]
  let ?q = "unat (PGNUM va)" and ?e = "mem s d (unat (PDX va))"
  have q: "?q < 2 ^ 20" "?q div 1024 = unat (PDX va)" "?q mod 1024 = unat (PTX va)"
    using PGNUM_less by (simp_all add: unat_PGNUM unat_PDX unat_PTX div_4194304)
  have m: "mem s d (unat (PDX UVPT)) = page2pa d OR PTE_P OR PTE_U" and c: "cr3 s = d"
    and e: "bit ?e 2" using run pr va by (simp_all add: runs_in_def user_va_def)
  have "UVPT + 4 * PGNUM va = UVPT + 4 * of_nat ?q" by simp
  moreover have "vtrans s (UVPT + 4 * of_nat ?q) = Some (frame ?e, (page2pa d OR PTE_P OR PTE_U) AND ?e)"
    unfolding vtrans_def UVPT_index(1,2) [OF q(1)] q(2) Let_def c
    using m se pr by (simp add: and_PTE frame_def present_def)
  ultimately show ?thesis
    using UVPT_index(3) [OF q(1)] q(3) se(4) e and_PTE(3) [of "(page2pa d OR PTE_P OR PTE_U) AND ?e"]
    by (simp add: uvpt_def uload_def bit_and_iff)
qed

section \<open>Writes to data pages\<close>

lemma vm_agree:
  assumes inv: "vm_inv s D k xs" and m: "\<And>q. table_frame s D q \<Longrightarrow> mem t q = mem s q"
    and sel: "npages t = npages s" "pages t = pages s" "page_free_list t = page_free_list s"
  shows "vm_inv t D k xs" and "\<And>d va. d \<in> D \<Longrightarrow> user_va va \<Longrightarrow> vm_map t d va = vm_map s d va"
    and "\<And>q. table_frame t D q \<longleftrightarrow> table_frame s D q"
proof -
  have dir: "mem t d = mem s d" if "d \<in> D" for d using m that by (simp add: table_frame_def)
  have tab: "mem t (frame (mem s d i)) = mem s (frame (mem s d i))"
    if "d \<in> D" "i < NUSER" "present (mem s d i)" for d i
    using m that by (auto simp: table_frame_def)
  show "table_frame t D q \<longleftrightarrow> table_frame s D q" for q
    using dir unfolding table_frame_def by (intro disj_cong bex_cong refl ex_cong) simp
  show "vm_map t d va = vm_map s d va" if "d \<in> D" "user_va va" for d va
    using dir [OF that(1)] tab [OF that(1), of "unat (PDX va)"] that(2)
    by (auto simp: vm_map_def Let_def user_va_def)
  have "is_ref t D (d, i, j) p \<longleftrightarrow> is_ref s D (d, i, j) p" for d i j p
  proof (cases "d \<in> D \<and> i < NUSER \<and> present (mem s d i)")
    case True
    then show ?thesis by (simp only: is_ref_def prod.case dir [of d] tab [of d i])
  next
    case False
    then show ?thesis using dir unfolding is_ref_def prod.case by metis
  qed
  then have refs: "refs t D p = refs s D p" for p by (auto simp: refs_def)
  have "tables_ok t D \<longleftrightarrow> tables_ok s D"
    unfolding tables_ok_def sel
    by (intro conj_cong refl ball_cong all_cong) (simp_all add: dir tab)
  then show "vm_inv t D k xs"
    using inv unfolding vm_inv_def by (simp add: free_list_ok_def counts_ok_def refs sel)
qed

text \<open>The state with frame f overwritten by g.\<close>

definition with_frame :: "nat \<Rightarrow> (nat \<Rightarrow> 32 word) \<Rightarrow> kstate \<Rightarrow> kstate" where
  "with_frame f g s = s\<lparr>mem := (mem s)(f := g)\<rparr>"

lemma with_frame_sel [simp]:
  "mem (with_frame f g s) = (mem s)(f := g)" "npages (with_frame f g s) = npages s"
  "pages (with_frame f g s) = pages s" "page_free_list (with_frame f g s) = page_free_list s"
  "envs (with_frame f g s) = envs s" "curenv (with_frame f g s) = curenv s" "cr3 (with_frame f g s) = cr3 s"
  by (simp_all add: with_frame_def)

lemma with_frame_data:
  assumes "vm_inv s D k xs" "\<not> table_frame s D f"
  shows "vm_inv (with_frame f g s) D k xs"
    "\<And>d va. d \<in> D \<Longrightarrow> user_va va \<Longrightarrow> vm_map (with_frame f g s) d va = vm_map s d va"
    "\<And>q. table_frame (with_frame f g s) D q \<longleftrightarrow> table_frame s D q"
    "runs_in s D c d \<Longrightarrow> runs_in (with_frame f g s) D c d"
proof -
  have m: "mem (with_frame f g s) q = mem s q" if "table_frame s D q" for q using that assms(2) by auto
  note ag = vm_agree [OF assms(1) m, simplified]
  show "vm_inv (with_frame f g s) D k xs"
    "\<And>d va. d \<in> D \<Longrightarrow> user_va va \<Longrightarrow> vm_map (with_frame f g s) d va = vm_map s d va"
    "\<And>q. table_frame (with_frame f g s) D q \<longleftrightarrow> table_frame s D q"
    using ag by blast+
  show "runs_in s D c d \<Longrightarrow> runs_in (with_frame f g s) D c d"
    using assms(2) by (auto simp: runs_in_def table_frame_def)
qed

lemma in_page:
  assumes "PGOFF a = 0" "r < 4096"
  shows "PGNUM (a + of_nat r) = PGNUM a" "unat (PGOFF (a + of_nat r)) = r"
proof -
  have a: "unat a mod 4096 = 0" using assms(1) unat_PGOFF [of a] by simp
  then obtain q where q: "unat a = 4096 * q" by auto
  have "unat a < 4096 * 1048576" using unat_32_less [of a] by simp
  then have "4096 * q + r < 2 ^ 32" using q assms(2) by simp
  then have u: "unat (a + of_nat r) = 4096 * q + r"
    using unat_of_nat_32 [of "4096 * q + r"] by (simp flip: q)
  show "PGNUM (a + of_nat r) = PGNUM a"
    using assms(2) by (simp add: word_unat_eq_iff unat_PGNUM u q)
  show "unat (PGOFF (a + of_nat r)) = r"
    using assms(2) by (simp add: unat_PGOFF u)
qed

lemma vm_map_page: "PGNUM a = PGNUM b \<Longrightarrow> vm_map s d a = vm_map s d b"
  using page_index_eq [of a b] by (simp add: vm_map_def)

lemma user_va_page: "PGNUM a = PGNUM b \<Longrightarrow> user_va a = user_va b"
  using page_index_eq [of a b] by (simp add: user_va_def)

definition copy_words :: "nat \<Rightarrow> (nat \<Rightarrow> 32 word) \<Rightarrow> (nat \<Rightarrow> 32 word) \<Rightarrow> nat \<Rightarrow> 32 word" where
  "copy_words n f g i = (if i < n then f i else g i)"

lemma ucopy_effect:
  assumes inv: "vm_inv s D k xs" and run: "runs_in s D c d" and dt: "\<not> table_frame s D fd"
    and dst: "PGOFF dst = 0" "user_va dst" "vm_map s d dst = Some wd" "bit wd 1" "bit wd 2" "frame wd = fd"
    and src: "PGOFF src = 0" "user_va src" "vm_map s d src = Some ws" "bit ws 2" "frame ws = fs" "fs \<noteq> fd"
  shows "ucopy 1024 dst src s = Ret () (with_frame fd (copy_words 1024 (mem s fs) (mem s fd)) s)"
proof -
  let ?put = "\<lambda>m. with_frame fd (copy_words m (mem s fs) (mem s fd)) s"
  have d: "d \<in> D" using run by (simp add: runs_in_def)
  have step: "m + n = 1024 \<Longrightarrow>
      ucopy n (dst + of_nat (4 * m)) (src + of_nat (4 * m)) (?put m) = Ret () (?put 1024)" for n m
  proof (induction n arbitrary: m)
    case 0
    then show ?case by simp
  next
    case (Suc n)
    then have m: "4 * m < 4096" by simp
    note pd = in_page [OF dst(1) m] and ps = in_page [OF src(1) m]
    note wf = with_frame_data [OF inv dt]
    have off: "unat (PGOFF (dst + of_nat (4 * m))) div 4 = m" "unat (PGOFF (src + of_nat (4 * m))) div 4 = m"
      unfolding pd(2) ps(2) by simp_all
    have sa: "user_va (src + of_nat (4 * m))" "vm_map (?put m) d (src + of_nat (4 * m)) = Some ws"
      using wf(2) [OF d src(2)] user_va_page [OF ps(1)] vm_map_page [OF ps(1)] src(2,3) by simp_all
    have da: "user_va (dst + of_nat (4 * m))" "vm_map (?put m) d (dst + of_nat (4 * m)) = Some wd"
      using wf(2) [OF d dst(2)] user_va_page [OF pd(1)] vm_map_page [OF pd(1)] dst(2,3) by simp_all
    have ld: "uload (src + of_nat (4 * m)) (?put m) = Ret (mem s fs m) (?put m)"
      using uload_user [OF wf(4) [OF run] sa src(4)] src(5,6) off(2) by simp
    have "(copy_words m (mem s fs) (mem s fd))(m := mem s fs m) = copy_words (Suc m) (mem s fs) (mem s fd)"
      by (auto simp: copy_words_def fun_eq_iff less_Suc_eq)
    then have st: "ustore (dst + of_nat (4 * m)) (mem s fs m) (?put m) = Ret () (?put (Suc m))"
      using ustore_user [OF wf(4) [OF run] da dst(4,5), of "mem s fs m"] dst(6) off(1)
      by (simp add: store_def with_frame_def)
    have nx: "a + of_nat (4 * m) + 4 = a + of_nat (4 * Suc m)" for a :: "32 word" by simp
    show ?case
      unfolding ucopy.simps ld st kbind.simps nx using Suc.IH [of "Suc m"] Suc.prems by simp
  qed
  have "copy_words 0 f g = g" for f g by (simp add: copy_words_def fun_eq_iff)
  then have "?put 0 = s" by (simp add: with_frame_def)
  then show ?thesis using step [of 0 1024] by simp
qed

section \<open>Pages that stay data\<close>

lemma xs_small: "vm_inv s D k xs \<Longrightarrow> \<forall>x \<in> set xs. x < 2 ^ 20"
  using free_page_lt by blast

lemma data_only_step:
  assumes only: "data_only s D" and inv: "vm_inv s D k xs" and grow: "dirs_grow s D xs t"
    and maps: "\<And>d va w. d \<in> D \<Longrightarrow> user_va va \<Longrightarrow> vm_map t d va = Some w \<Longrightarrow>
      (\<exists>d' \<in> D. \<exists>va' w'. user_va va' \<and> vm_map s d' va' = Some w' \<and> frame w' = frame w) \<or>
      \<not> table_frame t D (frame w)"
  shows "data_only t D"
  unfolding data_only_def
proof (intro ballI allI impI)
  fix d va w assume a: "d \<in> D" "user_va va" "vm_map t d va = Some w"
  show "\<not> table_frame t D (frame w)"
  proof
    assume tf: "table_frame t D (frame w)"
    then obtain d' va' w' where w': "d' \<in> D" "user_va va'" "vm_map s d' va' = Some w'" "frame w' = frame w"
      using maps [OF a] by blast
    have "\<not> table_frame s D (frame w')" using only w'(1-3) by (auto simp: data_only_def)
    moreover have "frame w' \<notin> set xs" by (rule mapped_page(2) [OF inv w'(1-3)])
    ultimately show False using table_frame_grow [OF grow xs_small [OF inv] tf] w'(4) by simp
  qed
qed

lemma is_ref_data:
  assumes "\<not> table_frame s D p"
  shows "is_ref s D (d, i, j) p \<longleftrightarrow> d \<in> D \<and> i < NUSER \<and> j < 1024 \<and>
    (\<exists>w. vm_map s d (PGADDR (of_nat i) (of_nat j) 0) = Some w \<and> frame w = p)"
proof -
  have ix: "unat (PDX (PGADDR (of_nat i) (of_nat j) 0)) = i" "unat (PTX (PGADDR (of_nat i) (of_nat j) 0)) = j"
    if "i < NUSER" "j < 1024"
    using PDX_PGADDR [of i j] that by (simp_all add: NUSER_eq)
  show ?thesis
    using assms ix by (auto simp: is_ref_def table_frame_def vm_map_def Let_def split: if_splits)
qed

lemma ref_eq: "vm_inv s D k xs \<Longrightarrow> p < npages s \<Longrightarrow> unat (pp_ref (pages s p)) = card (refs s D p) + k p"
  by (simp add: vm_inv_def counts_ok_def)

text \<open>A data page that a single mapping refers to has count 1.\<close>

lemma single_ref:
  assumes inv: "vm_inv s D k xs" and p: "p < npages s" "k p = 0" "\<not> table_frame s D p"
    and one: "\<And>d' va' w. d' \<in> D \<Longrightarrow> user_va va' \<Longrightarrow> vm_map s d' va' = Some w \<Longrightarrow> frame w = p \<Longrightarrow>
      d' = d \<and> PGNUM va' = PGNUM va"
  shows "unat (pp_ref (pages s p)) \<le> 1"
proof -
  have "refs s D p \<subseteq> {(d, unat (PDX va), unat (PTX va))}"
  proof
    fix r assume r: "r \<in> refs s D p"
    obtain d' i j where rd: "r = (d', i, j)" by (cases r)
    let ?a = "PGADDR (of_nat i) (of_nat j) 0"
    obtain w where w: "d' \<in> D" "i < NUSER" "j < 1024" "vm_map s d' ?a = Some w" "frame w = p"
      using r is_ref_data [OF p(3)] by (auto simp: refs_def rd)
    have ix: "unat (PDX ?a) = i" "unat (PTX ?a) = j" using PDX_PGADDR [of i j] w(2,3) by (simp_all add: NUSER_eq)
    have "user_va ?a" using ix w(2) by (simp only: user_va_def)
    then have "d' = d \<and> PGNUM ?a = PGNUM va" by (rule one [OF w(1) _ w(4,5)])
    then show "r \<in> {(d, unat (PDX va), unat (PTX va))}"
      using ix page_index_eq [of ?a va] by (simp add: rd)
  qed
  then have "card (refs s D p) \<le> 1" using card_mono [of "{(d, unat (PDX va), unat (PTX va))}"] by fastforce
  then show ?thesis using ref_eq [OF inv p(1)] p(2) by simp
qed

text \<open>Removing a mapping writes to a page table only.\<close>

lemma page_remove_data:
  assumes inv: "vm_inv s D k xs" and d: "d \<in> D" and va: "user_va va"
  shows "\<exists>t ys. page_remove d va s = Ret () t \<and> vm_inv t D k ys \<and> vm_frame s t \<and>
    (\<forall>d' \<in> D. \<forall>va'. user_va va' \<longrightarrow>
       vm_map t d' va' = (if d' = d \<and> PGNUM va' = PGNUM va then None else vm_map s d' va')) \<and>
    (\<forall>d \<in> D. mem t d = mem s d) \<and> (\<forall>q. \<not> table_frame s D q \<longrightarrow> mem t q = mem s q)"
proof (cases "vm_map s d va")
  case None
  then have "vm_map s d va' = None" if "PGNUM va' = PGNUM va" for va'
    using vm_map_page [OF that] by simp
  then show ?thesis
    using page_remove_unmapped [OF assms None] inv by (intro exI [of _ s] exI [of _ xs]) auto
next
  case (Some w)
  let ?f = "frame (mem s d (unat (PDX va)))" and ?j = "unat (PTX va)"
  note sl = vm_map_slot [OF Some d va]
  from page_remove_mapped [OF assms Some] obtain t ys u where
    t: "page_remove d va s = Ret () t" "vm_inv t D k ys" and op: "only_pages s u" and
    td: "t = (store ?f ?j 0 u)\<lparr>invlpgs := (if tlb_active s d then va # invlpgs s else invlpgs s)\<rparr>"
    by metis
  have m: "mem t = mem (store ?f ?j 0 s)"
    using only_pages_sel(1) [OF op] by (simp add: td)
  have f: "?f \<notin> D" "table_frame s D ?f"
    using pt_slot_table(1) [OF inv sl(1)] sl(1) by (auto simp: table_frame_def pt_slot_def)
  have "vm_map t d' va' = vm_map (store ?f ?j 0 s) d' va'" for d' va' by (rule vm_map_cong [OF m])
  then have "\<forall>d' \<in> D. \<forall>va'. user_va va' \<longrightarrow>
       vm_map t d' va' = (if d' = d \<and> PGNUM va' = PGNUM va then None else vm_map s d' va')"
    using store_vm_map [OF inv sl(1), of _ _ 0] by (auto simp: page_index_eq)
  moreover have "vm_frame s t"
    unfolding td by (rule vm_frame_trans [OF vm_frame_trans [OF only_pages_frame [OF op] store_frame] invlpgs_frame])
  moreover have "(\<forall>d \<in> D. mem t d = mem s d) \<and> (\<forall>q. \<not> table_frame s D q \<longrightarrow> mem t q = mem s q)"
    using f unfolding m by (auto simp del: fun_upd_apply intro: fun_upd_other)
  ultimately show ?thesis using t by blast
qed

section \<open>Page calls from user code\<close>

lemma usys_alloc [simp]:
  "sys_page_alloc e va p s = Ret r t \<Longrightarrow> r \<le> 0 \<Longrightarrow> usys_page_alloc io e va p s = Ret r t"
  by (simp add: usys_page_alloc_def usyscall_def syscall_def)

lemma usys_map [simp]:
  "sys_page_map e va e' va' p s = Ret r t \<Longrightarrow> r \<le> 0 \<Longrightarrow> usys_page_map io e va e' va' p s = Ret r t"
  by (simp add: usys_page_map_def usyscall_def syscall_def)

lemma usys_unmap [simp]:
  "sys_page_unmap e va s = Ret r t \<Longrightarrow> r \<le> 0 \<Longrightarrow> usys_page_unmap io e va s = Ret r t"
  by (simp add: usys_page_unmap_def usyscall_def syscall_def)

lemma sys_page_unmap_self:
  assumes inv: "vm_inv s D k xs" and run: "runs_in s D c d" and va: "va < UTOP" "PGOFF va = 0"
  shows "\<exists>t ys. sys_page_unmap 0 va s = Ret 0 t \<and> vm_inv t D k ys \<and> vm_frame s t \<and>
    (\<forall>d' \<in> D. \<forall>va'. user_va va' \<longrightarrow>
       vm_map t d' va' = (if d' = d \<and> PGNUM va' = PGNUM va then None else vm_map s d' va')) \<and>
    (\<forall>d \<in> D. mem t d = mem s d) \<and> (\<forall>q. \<not> table_frame s D q \<longrightarrow> mem t q = mem s q)"
proof -
  have c: "curenv s = Some c" "env_pgdir (envs s c) = Some d" "d \<in> D" using run by (simp_all add: runs_in_def)
  have nv: "\<not> (va \<ge> UTOP \<or> PGOFF va \<noteq> 0)" using va by simp
  have "env_target s c 0 True = Some c" by (simp add: env_target_def)
  then have "sys_page_unmap 0 va s = kbind (page_remove d va s) (\<lambda>_. Ret 0)"
    using c nv by (simp add: sys_page_unmap_def on_env_target)
  then show ?thesis using page_remove_data [OF inv c(3) user_va_UTOP [OF va(1)]] by auto
qed

section \<open>The page fault handler\<close>

lemma ROUNDDOWN_facts:
  "PGNUM (ROUNDDOWN va PGSIZE) = PGNUM va" "PGOFF (ROUNDDOWN va PGSIZE) = 0" "ROUNDDOWN va PGSIZE \<le> va"
proof -
  have u: "unat (ROUNDDOWN va PGSIZE) = unat va - unat va mod 4096"
  proof -
    have "va mod 4096 \<le> va" by (simp add: word_le_nat_alt unat_mod)
    then show ?thesis by (simp add: ROUNDDOWN_def PGSIZE_def unat_sub unat_mod)
  qed
  have d: "(n - n mod 4096) div 4096 = n div 4096" "(n - n mod 4096) mod 4096 = 0" for n :: nat
    by (simp_all add: minus_mod_eq_mult_div)
  show "PGNUM (ROUNDDOWN va PGSIZE) = PGNUM va" by (simp add: word_unat_eq_iff unat_PGNUM u d)
  have "unat (PGOFF (ROUNDDOWN va PGSIZE)) = 0" unfolding unat_PGOFF u d ..
  then show "PGOFF (ROUNDDOWN va PGSIZE) = 0" by (simp add: unat_eq_0)
  show "ROUNDDOWN va PGSIZE \<le> va" by (simp add: word_le_nat_alt u)
qed

lemma is_cow_user:
  assumes inv: "vm_inv s D k xs" and run: "runs_in s D c d" and va: "user_va va"
  shows "is_cow va err s =
    Ret (bit err 1 \<and> (case vm_map s d va of None \<Rightarrow> False | Some w \<Rightarrow> bit w 11)) s"
proof (cases "bit err 1 \<and> present (mem s d (unat (PDX va)))")
  case False
  then show ?thesis
    using uvpd_user [OF inv run, of va]
    by (auto simp: is_cow_def vm_map_def Let_def present_bit and_PTE0)
next
  case True
  then show ?thesis
    using uvpd_user [OF inv run, of va] uvpt_user [OF inv run va]
    by (auto simp: is_cow_def vm_map_def Let_def present_bit and_PTE0)
qed

abbreviation PTE_RW :: "32 word" where "PTE_RW \<equiv> PTE_W OR PTE_U OR PTE_P"

lemma rw_perm: "\<not> perm_bad PTE_RW" "low_perm PTE_RW"
  by (simp_all add: perm_bad_def layout_values layout_defs low_perm_def PTE_ADDR_def)

lemma page2pa_low: "n < 12 \<Longrightarrow> \<not> bit (page2pa p) n"
  by (simp add: page2pa_def bit_push_bit_iff)

lemma rw_bits: "bit (page2pa p OR PTE_RW OR PTE_P) 1" "bit (page2pa p OR PTE_RW OR PTE_P) 2"
  "\<not> bit (page2pa p OR PTE_RW OR PTE_P) 11"
  using page2pa_low [of 11 p] by (simp_all add: bit_or_iff layout_defs bit_numeral_rec numeral_2_eq_2)

lemma PFTEMP_facts: "PFTEMP < UTOP" "PGOFF PFTEMP = 0" "user_va PFTEMP"
  by (simp_all add: layout_values PGOFF_def user_va_UTOP)

end
