(* ===== verification/Fork_Lemmas.thy ===== *)
theory Fork_Lemmas
  imports Ulib_Lemmas
begin

text \<open>
  Lemmas for copy-on-write (lib/fork.c): what the page fault handler does, and the invariant
  of fork's loop over the pages of the parent. The theorems are in Fork_Props.
\<close>

section \<open>The page fault handler\<close>

lemma pgfault_start:
  assumes "vm_inv s D k xs" "runs_in s D c d" "user_va va" "vm_map s d va = Some w" "bit w 11" "bit err 1"
  shows "pgfault io va err s =
     kbind (usys_page_alloc io 0 PFTEMP PTE_RW s) (\<lambda>r s.
       if r < 0 then Exit (Panicked ''sys_page_alloc'') s
       else kbind (ucopy 1024 PFTEMP (ROUNDDOWN va PGSIZE) s) (\<lambda>_ s.
         kbind (usys_page_map io 0 PFTEMP 0 (ROUNDDOWN va PGSIZE) PTE_RW s) (\<lambda>r s.
           if r < 0 then Exit (Panicked ''sys_page_map'') s
           else kbind (usys_page_unmap io 0 PFTEMP s) (\<lambda>r s.
             if r < 0 then Exit (Panicked ''sys_page_unmap'') s else Ret () s))))"
  using is_cow_user [OF assms(1-3), of err] assms(4-6) by (simp add: pgfault_def Let_def)

text \<open>Moving the page mapped at PFTEMP, which has no other mapping, to another address.\<close>

lemma move_temp:
  assumes inv: "vm_inv s D k xs" and run: "runs_in s D c d"
    and m: "vm_map s d PFTEMP = Some (page2pa pp OR PTE_RW OR PTE_P)" and pp: "pp < npages s" "k pp = 0"
    and data: "\<not> table_frame s D pp"
    and one: "\<And>d' va' w. d' \<in> D \<Longrightarrow> user_va va' \<Longrightarrow> vm_map s d' va' = Some w \<Longrightarrow> frame w = pp \<Longrightarrow>
      d' = d \<and> PGNUM va' = PGNUM PFTEMP"
    and a: "a < UTOP" "PGOFF a = 0" "vm_map s d a = Some w" "PGNUM a \<noteq> PGNUM PFTEMP"
  shows "\<exists>t u ys. usys_page_map io 0 PFTEMP 0 a PTE_RW s = Ret 0 t \<and> usys_page_unmap io 0 PFTEMP t = Ret 0 u \<and>
    vm_inv u D k ys \<and> vm_frame s u \<and> dirs_grow s D xs u \<and> data_same s D xs u \<and>
    (\<forall>d' \<in> D. \<forall>va'. user_va va' \<longrightarrow>
       vm_map u d' va' = (if d' = d \<and> PGNUM va' = PGNUM a then Some (page2pa pp OR PTE_RW OR PTE_P)
                          else if d' = d \<and> PGNUM va' = PGNUM PFTEMP then None else vm_map s d' va'))"
proof -
  have d: "d \<in> D" "curenv s = Some c" "env_pgdir (envs s c) = Some d" using run by (simp_all add: runs_in_def)
  have fr: "frame (page2pa pp OR PTE_RW OR PTE_P) = pp"
    using pp(1) vm_inv_npages [OF inv] by (simp add: frame_new_pte rw_perm)
  have tgt: "env_target s c 0 True = Some c" by (simp add: env_target_def)
  have "unat (pp_ref (pages s pp)) \<le> 1" by (rule single_ref [OF inv pp data one])
  then have ref: "\<And>w. vm_map s d PFTEMP = Some w \<Longrightarrow> unat (pp_ref (pages s (frame w))) < 65535"
    using m fr by simp
  have pres: "present (mem s d (unat (PDX a)))"
    using vm_map_slot(1) [OF a(3) d(1) user_va_UTOP [OF a(1)]] by (simp add: pt_slot_def)
  have w: "\<not> (PTE_RW AND PTE_W \<noteq> 0 \<and> (page2pa pp OR PTE_RW OR PTE_P) AND PTE_W = 0)"
    using rw_bits(1) [of pp] by (simp add: and_PTE0)
  from sys_page_map_ref [OF inv d(2) ref tgt d(3,1) tgt d(3,1) PFTEMP_facts(1,2) a(1,2) rw_perm(1)]
  obtain t where t: "sys_page_map 0 PFTEMP 0 a PTE_RW s = Ret 0 t"
    and sh: "shared s D k xs (page2pa pp OR PTE_RW OR PTE_P) d a PTE_RW 0 t"
    using m w pres by auto
  obtain zs where invt: "vm_inv t D k zs" and frt: "vm_frame s t" and growt: "dirs_grow s D xs t"
    and samet: "data_same s D xs t"
    and mapt: "\<forall>d' \<in> D. \<forall>va'. user_va va' \<longrightarrow>
       vm_map t d' va' = (if d' = d \<and> PGNUM va' = PGNUM a then Some (page2pa pp OR PTE_RW OR PTE_P) else vm_map s d' va')"
    using sh fr by (auto simp: shared_def)
  note runt = runs_in_grow [OF run frt growt]
  from sys_page_unmap_self [OF invt runt PFTEMP_facts(1,2)] obtain u ys where
    u: "sys_page_unmap 0 PFTEMP t = Ret 0 u" "vm_inv u D k ys" "vm_frame t u"
      "\<forall>d' \<in> D. \<forall>va'. user_va va' \<longrightarrow>
         vm_map u d' va' = (if d' = d \<and> PGNUM va' = PGNUM PFTEMP then None else vm_map t d' va')"
    and dirs: "\<forall>d \<in> D. mem u d = mem t d" and mu: "\<forall>q. \<not> table_frame t D q \<longrightarrow> mem u q = mem t q"
    by blast
  have "dirs_grow s D xs u" using growt dirs by (simp add: dirs_grow_def)
  moreover have "data_same s D xs u"
    unfolding data_same_def
  proof (intro allI impI)
    fix q assume q: "\<not> table_frame s D q" "q \<notin> set xs"
    then have "\<not> table_frame t D q" using table_frame_grow [OF growt xs_small [OF inv]] by blast
    then show "mem u q = mem s q" using mu samet q by (simp add: data_same_def)
  qed
  ultimately show ?thesis
    using t u(1,2,4) vm_frame_trans [OF frt u(3)] mapt a(4)
    by (intro exI [of _ t] exI [of _ u] exI [of _ ys]) auto
qed

lemma sys_page_alloc_room:
  assumes "vm_inv s D k xs" "curenv s = Some c" "env_target s c envid True = Some e"
    and "env_pgdir (envs s e) = Some d" "d \<in> D" "va < UTOP" "\<not> perm_bad perm" "vm_map s d va = None"
    and "xs \<noteq> []" "present (mem s d (unat (PDX va))) \<or> tl xs \<noteq> []"
  obtains t ys pp where "sys_page_alloc envid va perm s = Ret 0 t" "vm_inv t D k ys" "vm_frame s t"
    "pp \<in> set xs" "pp \<notin> set ys" "\<not> table_frame t D pp" "mem t pp = (\<lambda>_. 0)"
    "\<forall>d' \<in> D. \<forall>va'. user_va va' \<longrightarrow>
       vm_map t d' va' = (if d' = d \<and> PGNUM va' = PGNUM va
                          then Some (page2pa pp OR perm OR PTE_P) else vm_map s d' va')"
    "data_same s D xs t" "dirs_grow s D xs t" "set ys \<subseteq> set xs" "length xs \<le> length ys + 2"
proof -
  from sys_page_alloc_effect [OF assms(1-7)] obtain r t ys where
    t: "sys_page_alloc envid va perm s = Ret r t" "vm_inv t D k ys" "vm_frame s t"
      "r = (if xs \<noteq> [] \<and> (present (mem s d (unat (PDX va))) \<or> tl xs \<noteq> []) then 0 else - E_NO_MEM)"
      "if r = 0 then (\<exists>pp \<in> set xs. mem t pp = (\<lambda>_. 0) \<and>
         (\<forall>d' \<in> D. \<forall>va'. user_va va' \<longrightarrow>
            vm_map t d' va' = (if d' = d \<and> PGNUM va' = PGNUM va
                               then Some (page2pa pp OR perm OR PTE_P) else vm_map s d' va')) \<and>
         pp \<notin> set ys \<and> \<not> table_frame t D pp)
       else same_maps s t D"
      "data_same s D xs t" "dirs_grow s D xs t"
      "\<forall>q \<in> set ys. q \<in> set xs \<or> (\<exists>w. vm_map s d va = Some w \<and> q = frame w)"
      "length xs \<le> length ys + 2"
    by blast
  have r: "r = 0" using t(4) assms(9,10) by simp
  obtain pp where pp: "pp \<in> set xs" "mem t pp = (\<lambda>_. 0)" "pp \<notin> set ys" "\<not> table_frame t D pp"
    "\<forall>d' \<in> D. \<forall>va'. user_va va' \<longrightarrow>
       vm_map t d' va' = (if d' = d \<and> PGNUM va' = PGNUM va
                          then Some (page2pa pp OR perm OR PTE_P) else vm_map s d' va')"
    using t(5) r by auto
  moreover have "set ys \<subseteq> set xs" using t(8) assms(8) by auto
  ultimately show thesis using t(1,9) by (intro that [OF _ t(2,3) pp(1,3,4,2) _ t(6,7)]) (simp_all add: r)
qed

lemma pgfault_effect:
  assumes inv: "vm_inv s D k xs" and run: "runs_in s D c d" and only: "data_only s D"
    and va: "va < UTOP" "PGNUM va \<noteq> PGNUM PFTEMP" "vm_map s d va = Some w" "bit w 11" "bit w 2" "bit err 1"
    and tmp: "vm_map s d PFTEMP = None"
    and room: "xs \<noteq> []" "present (mem s d (unat (PDX PFTEMP))) \<or> tl xs \<noteq> []"
  shows "\<exists>t ys pp. pgfault io va err s = Ret () t \<and> vm_inv t D k ys \<and> runs_in t D c d \<and> data_only t D \<and>
    pp \<in> set xs \<and> vm_frame s t \<and> data_same s D xs t \<and> (\<forall>i < 1024. mem t pp i = mem s (frame w) i) \<and>
    (\<forall>d' \<in> D. \<forall>va'. user_va va' \<longrightarrow>
       vm_map t d' va' = (if d' = d \<and> PGNUM va' = PGNUM va then Some (page2pa pp OR PTE_RW OR PTE_P)
                          else vm_map s d' va'))"
proof -
  let ?a = "ROUNDDOWN va PGSIZE"
  note a = ROUNDDOWN_facts [of va]
  have uva: "user_va va" by (rule user_va_UTOP [OF va(1)])
  have a': "?a < UTOP" "user_va ?a" using a(3) va(1) user_va_page [OF a(1)] uva by auto
  have ma: "vm_map s d' ?a = vm_map s d' va" for d' by (rule vm_map_page [OF a(1)])
  have d: "d \<in> D" "curenv s = Some c" "env_pgdir (envs s c) = Some d" using run by (simp_all add: runs_in_def)
  have tgt: "env_target s c 0 True = Some c" by (simp add: env_target_def)
  have wd: "\<not> table_frame s D (frame w)" using only d(1) uva va(3) by (auto simp: data_only_def)
  have wx: "frame w \<notin> set xs" by (rule mapped_page(2) [OF inv d(1) uva va(3)])
  obtain t ys pp where t: "sys_page_alloc 0 PFTEMP PTE_RW s = Ret 0 t" "vm_inv t D k ys" "vm_frame s t"
    and pp: "pp \<in> set xs" "pp \<notin> set ys" "\<not> table_frame t D pp"
    and mt: "\<forall>d' \<in> D. \<forall>va'. user_va va' \<longrightarrow>
          vm_map t d' va' = (if d' = d \<and> PGNUM va' = PGNUM PFTEMP
                             then Some (page2pa pp OR PTE_RW OR PTE_P) else vm_map s d' va')"
    and same: "data_same s D xs t" and grow: "dirs_grow s D xs t" and sub: "set ys \<subseteq> set xs"
    using sys_page_alloc_room [OF inv d(2) tgt d(3,1) PFTEMP_facts(1) rw_perm(1) tmp room] by metis
  note runt = runs_in_grow [OF run t(3) grow]
  have np: "pp < npages t" "k pp = 0" "pp < 2 ^ 20"
    using free_unreferenced(2,3) [OF inv pp(1)] vm_frame_sel(1) [OF t(3)] free_page_lt [OF inv pp(1)] by simp_all
  have fr: "frame (page2pa pp OR PTE_RW OR PTE_P) = pp" using np(3) by (simp add: frame_new_pte rw_perm)
  have mtmp: "vm_map t d PFTEMP = Some (page2pa pp OR PTE_RW OR PTE_P)"
    using mt d(1) PFTEMP_facts(3) by simp
  have mta: "vm_map t d ?a = Some w" using mt d(1) a' a(1) va(2,3) ma by simp
  let ?c = "copy_words 1024 (mem t (frame w)) (mem t pp)"
  let ?t = "with_frame pp ?c t"
  have cp: "ucopy 1024 PFTEMP ?a t = Ret () ?t"
    by (rule ucopy_effect [OF t(2) runt pp(3) PFTEMP_facts(2,3) mtmp rw_bits(1,2) fr a(2) a'(2) mta va(5) refl])
      (use wx pp(1) in auto)
  note wf = with_frame_data [OF t(2) pp(3)]
  have one: "d' = d \<and> PGNUM va' = PGNUM PFTEMP"
    if "d' \<in> D" "user_va va'" "vm_map ?t d' va' = Some v" "frame v = pp" for d' va' v
  proof (rule ccontr)
    assume "\<not> ?thesis"
    then have "vm_map s d' va' = Some v" using that wf(2) [OF that(1,2)] mt by auto
    then show False using mapped_page(2) [OF inv that(1,2)] that(4) pp(1) by simp
  qed
  have "\<exists>t' u zs. usys_page_map io 0 PFTEMP 0 ?a PTE_RW ?t = Ret 0 t' \<and> usys_page_unmap io 0 PFTEMP t' = Ret 0 u \<and>
    vm_inv u D k zs \<and> vm_frame ?t u \<and> dirs_grow ?t D ys u \<and> data_same ?t D ys u \<and>
    (\<forall>d' \<in> D. \<forall>va'. user_va va' \<longrightarrow>
       vm_map u d' va' = (if d' = d \<and> PGNUM va' = PGNUM ?a then Some (page2pa pp OR PTE_RW OR PTE_P)
                          else if d' = d \<and> PGNUM va' = PGNUM PFTEMP then None else vm_map ?t d' va'))"
    by (rule move_temp [OF wf(1) wf(4) [OF runt], where w = w])
      (use mtmp mta wf(2) [OF d(1)] PFTEMP_facts(3) a' np pp(3) wf(3) one a(1,2) va(2) in auto)
  then obtain t' u zs where u: "usys_page_map io 0 PFTEMP 0 ?a PTE_RW ?t = Ret 0 t'"
      "usys_page_unmap io 0 PFTEMP t' = Ret 0 u" "vm_inv u D k zs" "vm_frame ?t u"
    and growu: "dirs_grow ?t D ys u" and sameu: "data_same ?t D ys u"
    and mu: "\<forall>d' \<in> D. \<forall>va'. user_va va' \<longrightarrow>
       vm_map u d' va' = (if d' = d \<and> PGNUM va' = PGNUM ?a then Some (page2pa pp OR PTE_RW OR PTE_P)
                          else if d' = d \<and> PGNUM va' = PGNUM PFTEMP then None else vm_map ?t d' va')"
    by blast
  have go: "pgfault io va err s = Ret () u"
    using pgfault_start [OF inv run uva va(3,4,6), of io] t(1) cp u(1,2) by simp
  have maps: "vm_map u d' va' = (if d' = d \<and> PGNUM va' = PGNUM va then Some (page2pa pp OR PTE_RW OR PTE_P)
        else vm_map s d' va')" if "d' \<in> D" "user_va va'" for d' va'
    using mu mt that wf(2) [OF that] a(1) va(2) tmp vm_map_page [of va' PFTEMP s d] by auto
  have ppt: "\<not> table_frame u D pp"
    using table_frame_grow [OF growu xs_small [OF wf(1)]] wf(3) pp(2,3) by blast
  have nt: "\<not> table_frame u D q" "mem u q = mem s q" if q: "\<not> table_frame s D q" "q \<notin> set xs" for q
  proof -
    have qt: "\<not> table_frame t D q" using table_frame_grow [OF grow xs_small [OF inv]] q by blast
    then show "\<not> table_frame u D q"
      using table_frame_grow [OF growu xs_small [OF wf(1)]] wf(3) q(2) sub by blast
    have "mem u q = mem ?t q" using sameu qt wf(3) q(2) sub by (auto simp: data_same_def)
    then show "mem u q = mem s q" using same q pp(1) by (auto simp: data_same_def)
  qed
  have "data_only u D"
    unfolding data_only_def
  proof (intro ballI allI impI)
    fix d' va' v assume v: "d' \<in> D" "user_va va'" "vm_map u d' va' = Some v"
    show "\<not> table_frame u D (frame v)"
    proof (cases "d' = d \<and> PGNUM va' = PGNUM va")
      case True
      then have "v = page2pa pp OR PTE_RW OR PTE_P" using maps [OF v(1,2)] v(3) by simp
      then show ?thesis using fr ppt by simp
    next
      case False
      then have "vm_map s d' va' = Some v" using maps [OF v(1,2)] v(3) by auto
      then show ?thesis
        using nt(1) only v(1,2) mapped_page(2) [OF inv v(1,2)] by (auto simp: data_only_def)
    qed
  qed
  moreover have "mem u pp i = mem s (frame w) i" if "i < 1024" for i
  proof -
    have "mem u pp = ?c" using sameu pp(2,3) wf(3) by (simp add: data_same_def)
    moreover have "mem t (frame w) = mem s (frame w)" using same wd wx by (simp add: data_same_def)
    ultimately show ?thesis using that by (simp add: copy_words_def)
  qed
  moreover have "vm_frame s u"
    by (rule vm_frame_trans [OF vm_frame_trans [OF t(3)] u(4)],
        rule vm_frame_I [where p = "pages t" and f = "page_free_list t" and m = "mem ?t" and l = "invlpgs t"])
      (simp add: with_frame_def)
  moreover have "runs_in u D c d"
    by (rule runs_in_grow [OF wf(4) [OF runt] u(4) growu])
  moreover have "data_same s D xs u" using nt(2) by (simp add: data_same_def)
  ultimately show ?thesis using go u(3) pp(1) maps by blast
qed

section \<open>The loop of fork\<close>

text \<open>The entries fork gives the child and leaves the parent for a user page with entry w.\<close>

definition dup_perm :: "32 word \<Rightarrow> 32 word" where
  "dup_perm w = (if bit w 10 then w AND PTE_SYSCALL
                 else if bit w 1 \<or> bit w 11 then PTE_COW OR PTE_U OR PTE_P else PTE_U OR PTE_P)"

definition child_pte :: "32 word \<Rightarrow> 32 word" where
  "child_pte w = page2pa (frame w) OR dup_perm w OR PTE_P"

definition parent_pte :: "32 word \<Rightarrow> 32 word" where
  "parent_pte w = (if bit w 2 \<and> \<not> bit w 10 \<and> (bit w 1 \<or> bit w 11)
                   then page2pa (frame w) OR (PTE_COW OR PTE_U OR PTE_P) OR PTE_P else w)"

text \<open>Every mapped page could be mapped as often again without its count overflowing.\<close>

definition refs_half :: "kstate \<Rightarrow> nat set \<Rightarrow> bool" where
  "refs_half s D \<longleftrightarrow> (\<forall>d \<in> D. \<forall>va w. user_va va \<longrightarrow> vm_map s d va = Some w \<longrightarrow>
     2 * unat (pp_ref (pages s (frame w))) < 65535)"

text \<open>The state in which the loop starts: the child's directory x is empty, counts have room.\<close>

definition fork_base :: "kstate \<Rightarrow> nat set \<Rightarrow> (nat \<Rightarrow> nat) \<Rightarrow> nat list \<Rightarrow> nat \<Rightarrow> nat \<Rightarrow> bool" where
  "fork_base s D k xs d x \<longleftrightarrow> vm_inv s D k xs \<and> data_only s D \<and> d \<in> D \<and> x \<in> D \<and> x \<noteq> d \<and>
     (\<forall>va. user_va va \<longrightarrow> vm_map s x va = None) \<and> refs_half s D"

text \<open>
  What holds throughout: no mapping leads to a page that was not mapped there in the parent, and
  the only pages taken are the child's page tables.
\<close>

definition tables_of :: "kstate \<Rightarrow> nat \<Rightarrow> nat" where
  "tables_of s x = card {i. i < NUSER \<and> present (mem s x i)}"

definition fork_mid :: "kstate \<Rightarrow> nat set \<Rightarrow> (nat \<Rightarrow> nat) \<Rightarrow> nat list \<Rightarrow> nat \<Rightarrow> nat \<Rightarrow> kstate \<Rightarrow> nat list \<Rightarrow> bool" where
  "fork_mid s D k xs d x t ys \<longleftrightarrow> vm_inv t D k ys \<and> set ys \<subseteq> set xs \<and> vm_frame s t \<and>
     dirs_grow s D xs t \<and> data_same s D xs t \<and> length xs \<le> length ys + tables_of t x \<and>
     (\<forall>d' \<in> D. \<forall>va w. user_va va \<longrightarrow> vm_map t d' va = Some w \<longrightarrow>
        (\<exists>w'. vm_map s (if d' = x then d else d') va = Some w' \<and> frame w' = frame w))"

lemma fork_mid_start: "fork_base s D k xs d x \<Longrightarrow> fork_mid s D k xs d x s xs"
  by (auto simp: fork_base_def fork_mid_def)

lemma tables_of_le: "tables_of s x \<le> NUSER"
  using card_mono [of "{..<NUSER}" "{i. i < NUSER \<and> present (mem s x i)}"] by (auto simp: tables_of_def)

lemma tables_of_less:
  assumes "i < NUSER" "\<not> present (mem s x i)"
  shows "tables_of s x < NUSER"
proof -
  have "{i. i < NUSER \<and> present (mem s x i)} \<subset> {..<NUSER}" using assms by auto
  then show ?thesis using psubset_card_mono [of "{..<NUSER}"] by (simp add: tables_of_def)
qed

lemma tables_of_grow:
  assumes "dirs_grow s D xs t" "x \<in> D"
  shows "tables_of s x \<le> tables_of t x"
    and "i < NUSER \<Longrightarrow> \<not> present (mem s x i) \<Longrightarrow> present (mem t x i) \<Longrightarrow> tables_of s x < tables_of t x"
proof -
  have sub: "{i. i < NUSER \<and> present (mem s x i)} \<subseteq> {i. i < NUSER \<and> present (mem t x i)}"
  proof
    fix i assume i: "i \<in> {i. i < NUSER \<and> present (mem s x i)}"
    then have "mem t x i = mem s x i" using assms unfolding dirs_grow_def by blast
    then show "i \<in> {i. i < NUSER \<and> present (mem t x i)}" using i by simp
  qed
  then show "tables_of s x \<le> tables_of t x" unfolding tables_of_def by (intro card_mono) simp_all
  show "tables_of s x < tables_of t x" if "i < NUSER" "\<not> present (mem s x i)" "present (mem t x i)"
    unfolding tables_of_def using that sub by (intro psubset_card_mono) auto
qed

lemma dirs_grow_trans:
  assumes "dirs_grow s D xs t" "dirs_grow t D ys u" "set ys \<subseteq> set xs"
  shows "dirs_grow s D xs u"
  unfolding dirs_grow_def
proof (intro ballI allI)
  fix d i assume d: "d \<in> D"
  let ?new = "\<lambda>x. page2pa x OR PTE_P OR PTE_W OR PTE_U"
  have st: "mem t d i = mem s d i \<or> (i < NUSER \<and> \<not> present (mem s d i) \<and> (\<exists>x \<in> set xs. mem t d i = ?new x))"
    using assms(1) d unfolding dirs_grow_def by blast
  have tu: "mem u d i = mem t d i \<or> (i < NUSER \<and> \<not> present (mem t d i) \<and> (\<exists>x \<in> set ys. mem u d i = ?new x))"
    using assms(2) d unfolding dirs_grow_def by blast
  have "present (?new x)" for x by simp
  then show "mem u d i = mem s d i \<or> (i < NUSER \<and> \<not> present (mem s d i) \<and> (\<exists>x \<in> set xs. mem u d i = ?new x))"
    using st tu assms(3) by (metis subsetD)
qed

lemma contents_trans:
  assumes "dirs_grow s D xs t" "data_same s D xs t" "data_same t D ys u" "set ys \<subseteq> set xs" "vm_inv s D k xs"
  shows "data_same s D xs u"
  unfolding data_same_def
proof (intro allI impI)
  fix q assume q: "\<not> table_frame s D q" "q \<notin> set xs"
  then have "\<not> table_frame t D q" using table_frame_grow [OF assms(1) xs_small [OF assms(5)]] by blast
  then show "mem u q = mem s q" using assms(2-4) q by (auto simp: data_same_def)
qed

lemma fork_refs:
  assumes base: "fork_base s D k xs d x" and mid: "fork_mid s D k xs d x t ys"
    and m: "d' \<in> D" "user_va va" "vm_map t d' va = Some w"
  shows "unat (pp_ref (pages t (frame w))) < 65535"
proof -
  let ?f = "frame w"
  let ?o = "\<lambda>d'. if d' = x then d else d'"
  have inv: "vm_inv s D k xs" "vm_inv t D k ys" and grow: "dirs_grow s D xs t" and np: "npages t = npages s"
    and dx: "d \<in> D" "x \<in> D"
    using base mid vm_frame_sel(1) [of s t] by (simp_all add: fork_base_def fork_mid_def)
  have old: "\<exists>w'. vm_map s (?o d') va = Some w' \<and> frame w' = frame w"
    if "d' \<in> D" "user_va va" "vm_map t d' va = Some w" for d' va w
    using mid that unfolding fork_mid_def by blast
  obtain w' where w': "vm_map s (?o d') va = Some w'" "frame w' = ?f" using old [OF m] by blast
  have od: "?o d' \<in> D" using m(1) dx by simp
  have nt: "\<not> table_frame s D ?f"
  proof -
    have "data_only s D" using base by (simp add: fork_base_def)
    then have "\<not> table_frame s D (frame w')" using od m(2) w'(1) unfolding data_only_def by blast
    then show ?thesis by (simp add: w'(2))
  qed
  have fx: "?f \<notin> set xs" "?f < npages s" using mapped_page [OF inv(1) od m(2) w'(1)] w'(2) by simp_all
  have nt': "\<not> table_frame t D ?f" using table_frame_grow [OF grow xs_small [OF inv(1)]] nt fx by blast
  let ?g = "\<lambda>(d' :: nat, i :: nat, j :: nat). (x, i, j)"
  have sub: "refs t D ?f \<subseteq> refs s D ?f \<union> ?g ` refs s D ?f"
  proof
    fix r assume r: "r \<in> refs t D ?f"
    obtain d1 i j where rd: "r = (d1, i, j)" by (cases r)
    let ?a = "PGADDR (of_nat i) (of_nat j) 0"
    obtain v where v: "d1 \<in> D" "i < NUSER" "j < 1024" "vm_map t d1 ?a = Some v" "frame v = ?f"
      using r is_ref_data [OF nt'] by (auto simp: refs_def rd)
    have "user_va ?a" using PDX_PGADDR(1) [of i j] v(2,3) by (simp only: user_va_def NUSER_eq)
    then obtain v' where "vm_map s (?o d1) ?a = Some v'" "frame v' = ?f" using old [OF v(1) _ v(4)] v(5) by auto
    then have "(?o d1, i, j) \<in> refs s D ?f"
      using is_ref_data [OF nt] v(1-3) dx by (auto simp: refs_def)
    then show "r \<in> refs s D ?f \<union> ?g ` refs s D ?f"
      unfolding rd by (cases "d1 = x") (force intro: image_eqI)+
  qed
  have fin: "finite (refs s D ?f)" using inv(1) finite_refs by (simp add: vm_inv_def)
  have "card (refs t D ?f) \<le> card (refs s D ?f) + card (?g ` refs s D ?f)"
    by (rule order_trans [OF card_mono [OF _ sub] card_Un_le]) (use fin in simp)
  also have "\<dots> \<le> card (refs s D ?f) + card (refs s D ?f)"
    by (rule add_left_mono [OF card_image_le [OF fin]])
  finally have "unat (pp_ref (pages t ?f)) \<le> 2 * unat (pp_ref (pages s ?f))"
    using ref_eq [OF inv(1) fx(2)] ref_eq [OF inv(2)] fx(2) np by simp
  moreover have "2 * unat (pp_ref (pages s ?f)) < 65535"
  proof -
    have "refs_half s D" using base by (simp add: fork_base_def)
    then have "2 * unat (pp_ref (pages s (frame w'))) < 65535" using od m(2) w'(1) unfolding refs_half_def by blast
    then show ?thesis by (simp add: w'(2))
  qed
  ultimately show ?thesis by simp
qed

text \<open>One call of sys_page_map in the loop, at the same address in the parent or the child.\<close>

lemma fork_map:
  assumes base: "fork_base s D k xs d x" and mid: "fork_mid s D k xs d x t ys" and run: "runs_in t D c d"
    and de: "env_target t c envid True = Some e" "env_pgdir (envs t e) = Some dd" "dd = d \<or> dd = x"
    and va: "va < UTOP" "PGOFF va = 0" "vm_map t d va = Some w" "dd = x \<Longrightarrow> vm_map t x va = None"
    and perm: "\<not> perm_bad perm" "bit perm 1 \<Longrightarrow> bit w 1"
  shows "\<exists>r u zs. usys_page_map io 0 va envid va perm t = Ret r u \<and> fork_mid s D k xs d x u zs \<and>
    runs_in u D c d \<and> vm_frame t u \<and> set zs \<subseteq> set ys \<and> (r = 0 \<or> r < 0 \<and> u = t \<and> ys = [] \<and> dd = x \<and> length xs < NUSER) \<and>
    (\<forall>d' \<in> D. \<forall>va'. user_va va' \<longrightarrow>
       vm_map u d' va' = (if r = 0 \<and> d' = dd \<and> PGNUM va' = PGNUM va
                          then Some (page2pa (frame w) OR perm OR PTE_P) else vm_map t d' va'))"
proof -
  have b: "vm_inv s D k xs" "d \<in> D" "x \<in> D" "x \<noteq> d" using base by (simp_all add: fork_base_def)
  have m: "vm_inv t D k ys" "set ys \<subseteq> set xs" "vm_frame s t" "dirs_grow s D xs t" "data_same s D xs t"
      "length xs \<le> length ys + tables_of t x"
    and old: "\<And>d' va w. d' \<in> D \<Longrightarrow> user_va va \<Longrightarrow> vm_map t d' va = Some w \<Longrightarrow>
        \<exists>w'. vm_map s (if d' = x then d else d') va = Some w' \<and> frame w' = frame w"
    using mid unfolding fork_mid_def by blast+
  have dd: "dd \<in> D" using de(3) b by auto
  have c: "curenv t = Some c" "env_pgdir (envs t c) = Some d" using run by (simp_all add: runs_in_def)
  have uva: "user_va va" by (rule user_va_UTOP [OF va(1)])
  have self: "env_target t c 0 True = Some c" by (simp add: env_target_def)
  have ref: "\<And>w. vm_map t d va = Some w \<Longrightarrow> unat (pp_ref (pages t (frame w))) < 65535"
    by (rule fork_refs [OF base mid b(2) uva])
  have fw: "frame w < 2 ^ 20" "frame w \<notin> set ys"
    using mapped_page [OF m(1) b(2) uva va(3)] vm_inv_npages [OF m(1)] by simp_all
  have nw: "\<not> (perm AND PTE_W \<noteq> 0 \<and> w AND PTE_W = 0)" using perm(2) by (auto simp: and_PTE0)
  from sys_page_map_ref [OF m(1) c(1) ref self c(2) b(2) de(1,2) dd va(1,2,1,2) perm(1)] nw va(3)
  obtain r u where u: "sys_page_map 0 va envid va perm t = Ret r u"
      "r = (if present (mem t dd (unat (PDX va))) \<or> ys \<noteq> [] then 0 else - E_NO_MEM)"
    and sh: "shared t D k ys w dd va perm r u"
    by (auto split: option.splits)
  have pr: "dd = d \<Longrightarrow> present (mem t dd (unat (PDX va)))"
    using vm_map_slot(1) [OF va(3) b(2) uva] by (simp add: pt_slot_def)
  have r: "r = 0 \<or> r < 0 \<and> u = t \<and> ys = [] \<and> dd = x \<and> length xs < NUSER"
  proof (cases "r = 0")
    case False
    then have z: "r < 0" "u = t" "ys = []" "\<not> present (mem t dd (unat (PDX va)))"
      using u(2) sh by (auto simp: shared_def error_defs split: if_splits)
    then have "dd = x" using pr de(3) by auto
    then have "tables_of t x < NUSER" using z(4) uva tables_of_less [of "unat (PDX va)" t x] by (simp add: user_va_def)
    then show ?thesis using z m(6) \<open>dd = x\<close> by simp
  qed simp
  obtain zs where zs: "vm_inv u D k zs"
      "\<forall>q \<in> set zs. q \<in> set ys \<or> (\<exists>w'. vm_map t dd va = Some w' \<and> q = frame w' \<and> q \<noteq> frame w)"
      "length ys \<le> length zs + of_bool (r = 0 \<and> \<not> present (mem t dd (unat (PDX va))))"
    and fr: "vm_frame t u" and same: "data_same t D ys u" and grow: "dirs_grow t D ys u"
    and maps: "\<forall>d' \<in> D. \<forall>va'. user_va va' \<longrightarrow>
        vm_map u d' va' = (if r = 0 \<and> d' = dd \<and> PGNUM va' = PGNUM va
                           then Some (page2pa (frame w) OR perm OR PTE_P) else vm_map t d' va')"
    using sh unfolding shared_def by blast
  have sub: "set zs \<subseteq> set ys"
  proof
    fix q assume "q \<in> set zs"
    then show "q \<in> set ys" using zs(2) de(3) va(3,4) by auto
  qed
  have pte: "frame (page2pa (frame w) OR perm OR PTE_P) = frame w"
    by (rule frame_new_pte [OF fw(1) perm_ok_low [OF perm(1)]])
  have "length xs \<le> length zs + tables_of u x"
  proof (cases "r = 0 \<and> \<not> present (mem t dd (unat (PDX va)))")
    case False
    then have "length ys \<le> length zs" using zs(3) by (auto split: if_splits)
    then show ?thesis using tables_of_grow(1) [OF grow b(3)] m(6) by linarith
  next
    case True
    then have x: "dd = x" using pr de(3) by auto
    then have "vm_map u x va \<noteq> None" using maps dd uva True by simp
    then have "present (mem u x (unat (PDX va)))" by (auto simp: vm_map_def Let_def split: if_splits)
    then have "tables_of t x < tables_of u x"
      using tables_of_grow(2) [OF grow b(3)] True x uva by (simp add: user_va_def)
    moreover have "length ys \<le> length zs + 1" using zs(3) True by simp
    ultimately show ?thesis using m(6) by linarith
  qed
  then have "fork_mid s D k xs d x u zs"
    unfolding fork_mid_def
  proof (intro conjI ballI allI impI)
    show "vm_inv u D k zs" "set zs \<subseteq> set xs" "vm_frame s u" "dirs_grow s D xs u" "data_same s D xs u"
      using zs(1) sub m(2) vm_frame_trans [OF m(3) fr] dirs_grow_trans [OF m(4) grow m(2)]
        contents_trans [OF m(4,5) same m(2) b(1)] by auto
    fix d' va' v assume v: "d' \<in> D" "user_va va'" "vm_map u d' va' = Some v"
    show "\<exists>w'. vm_map s (if d' = x then d else d') va' = Some w' \<and> frame w' = frame v"
    proof (cases "r = 0 \<and> d' = dd \<and> PGNUM va' = PGNUM va")
      case False
      then have "vm_map t d' va' = Some v" using maps v by auto
      then show ?thesis by (rule old [OF v(1,2)])
    next
      case True
      then have fv: "frame v = frame w" using maps v pte by auto
      obtain w' where w': "vm_map s d va = Some w'" "frame w' = frame w" using old [OF b(2) uva va(3)] b(4) by auto
      have "(if d' = x then d else d') = d" using True de(3) by auto
      then show ?thesis using w' fv vm_map_page [of va' va s d] True by auto
    qed
  qed
  then show ?thesis
    using usys_map [OF u(1)] r runs_in_grow [OF run fr grow] fr sub maps by (metis less_imp_le order_refl)
qed

lemma cow_perm: "\<not> perm_bad (PTE_COW OR PTE_U OR PTE_P)" "\<not> bit (PTE_COW OR PTE_U OR PTE_P) 1"
  "\<not> perm_bad (PTE_U OR PTE_P)" "\<not> bit (PTE_U OR PTE_P) 1"
  by (simp_all add: perm_bad_def layout_values layout_defs bit_numeral_rec numeral_2_eq_2)

lemma share_perm: "bit w 0 \<Longrightarrow> bit w 2 \<Longrightarrow> \<not> perm_bad (w AND PTE_SYSCALL)"
proof -
  assume b: "bit w 0" "bit w 2"
  have "(w AND PTE_SYSCALL) AND NOT PTE_SYSCALL = 0"
    by (rule bit_word_eqI) (simp add: bit_simps)
  moreover have "bit PTE_SYSCALL 0" "bit PTE_SYSCALL 2"
    by (simp_all add: layout_values bit_numeral_rec numeral_2_eq_2)
  ultimately show ?thesis using b by (simp flip: perm_bad_alt add: and_PTE0 bit_and_iff)
qed

text \<open>duppage on a page the user may read and the child does not have yet.\<close>

lemma duppage_effect:
  assumes base: "fork_base s D k xs d x" and mid: "fork_mid s D k xs d x t ys" and run: "runs_in t D c d"
    and de: "env_target t c envid True = Some e" "env_pgdir (envs t e) = Some x" "c \<noteq> e"
    and va: "va < UTOP" "PGOFF va = 0" "va = PGNUM va * PGSIZE" "vm_map t d va = Some w" "bit w 2" "vm_map t x va = None"
  shows "(\<exists>u zs. duppage io envid (PGNUM va) t = Ret 0 u \<and> fork_mid s D k xs d x u zs \<and> runs_in u D c d \<and>
      vm_frame t u \<and> set zs \<subseteq> set ys \<and>
      (\<forall>d' \<in> D. \<forall>va'. user_va va' \<longrightarrow>
         vm_map u d' va' =
           (if PGNUM va' = PGNUM va \<and> d' = d then Some (parent_pte w)
            else if PGNUM va' = PGNUM va \<and> d' = x then vm_map u x va
            else vm_map t d' va')) \<and>
      (vm_map u x va = Some (child_pte w) \<or> vm_map u x va = None \<and> ys = []))
    \<or> length xs < NUSER \<and> (\<exists>m u. duppage io envid (PGNUM va) t = Exit (Panicked m) u)"
proof -
  have b: "vm_inv s D k xs" "d \<in> D" "x \<in> D" "x \<noteq> d" using base by (simp_all add: fork_base_def)
  have inv: "vm_inv t D k ys" using mid by (simp add: fork_mid_def)
  have uva: "user_va va" by (rule user_va_UTOP [OF va(1)])
  note sl = vm_map_slot [OF va(4) b(2) uva]
  have w0: "bit w 0" using sl(3) by (simp add: present_bit)
  have pt: "uvpt (PGNUM va) t = Ret w t"
    using uvpt_user [OF inv run uva] sl(1,2) by (simp add: pt_slot_def)
  have eqd: "vm_map t d va' = Some w" "vm_map t x va' = None" if "PGNUM va' = PGNUM va" for va'
    using vm_map_page [OF that] va(4,6) by simp_all
  note map1 = fork_map [OF base mid run de(1,2) disjI2 [OF refl] va(1,2,4) va(6), of _ io]
  consider (share) "bit w 10" | (cow) "\<not> bit w 10" "bit w 1 \<or> bit w 11" | (ro) "\<not> bit w 10" "\<not> bit w 1" "\<not> bit w 11"
    by blast
  then show ?thesis
  proof cases
    case share
    have ip: "bit (w AND PTE_SYSCALL) 1 \<Longrightarrow> bit w 1" by (simp add: bit_and_iff)
    from map1 [OF share_perm [OF w0 va(5)] ip] obtain r u zs where
      u: "usys_page_map io 0 va envid va (w AND PTE_SYSCALL) t = Ret r u" and
      f: "fork_mid s D k xs d x u zs" "runs_in u D c d" "vm_frame t u" "set zs \<subseteq> set ys"
      "r = 0 \<or> r < 0 \<and> u = t \<and> ys = [] \<and> x = x \<and> length xs < NUSER"
      "\<forall>d' \<in> D. \<forall>va'. user_va va' \<longrightarrow>
         vm_map u d' va' = (if r = 0 \<and> d' = x \<and> PGNUM va' = PGNUM va
                            then Some (page2pa (frame w) OR (w AND PTE_SYSCALL) OR PTE_P) else vm_map t d' va')"
      by blast
    have run': "duppage io envid (PGNUM va) t = (if r \<noteq> 0 then Exit (Panicked ''duppage share'') u else Ret 0 u)"
      using share pt u va(3) by (simp add: duppage_def and_PTE0)
    show ?thesis
    proof (cases "r = 0")
      case False
      then show ?thesis using run' f(5) by auto
    next
      case True
      have ux: "vm_map u x va = Some (child_pte w)"
        using f(6) b(3) uva True share by (simp add: child_pte_def dup_perm_def)
      have "\<forall>d' \<in> D. \<forall>va'. user_va va' \<longrightarrow>
         vm_map u d' va' =
           (if PGNUM va' = PGNUM va \<and> d' = d then Some (parent_pte w)
            else if PGNUM va' = PGNUM va \<and> d' = x then vm_map u x va
            else vm_map t d' va')"
        using f(6) True share ux eqd b(4) by (auto simp: parent_pte_def child_pte_def dup_perm_def)
      then show ?thesis using run' True f(1-4) ux by auto
    qed
  next
    case ro
    from map1 [OF cow_perm(3)] cow_perm(4) obtain r u zs where
      u: "usys_page_map io 0 va envid va (PTE_U OR PTE_P) t = Ret r u" and
      f: "fork_mid s D k xs d x u zs" "runs_in u D c d" "vm_frame t u" "set zs \<subseteq> set ys"
      "r = 0 \<or> r < 0 \<and> u = t \<and> ys = [] \<and> x = x \<and> length xs < NUSER"
      "\<forall>d' \<in> D. \<forall>va'. user_va va' \<longrightarrow>
         vm_map u d' va' = (if r = 0 \<and> d' = x \<and> PGNUM va' = PGNUM va
                            then Some (page2pa (frame w) OR (PTE_U OR PTE_P) OR PTE_P) else vm_map t d' va')"
      by blast
    have run': "duppage io envid (PGNUM va) t = Ret 0 u"
      using ro pt u va(3) by (simp add: duppage_def and_PTE0)
    have ux: "vm_map u x va = (if r = 0 then Some (child_pte w) else None)"
      using f(6) b(3) uva ro va(6) by (simp add: child_pte_def dup_perm_def)
    have "\<forall>d' \<in> D. \<forall>va'. user_va va' \<longrightarrow>
       vm_map u d' va' =
         (if PGNUM va' = PGNUM va \<and> d' = d then Some (parent_pte w)
          else if PGNUM va' = PGNUM va \<and> d' = x then vm_map u x va
          else vm_map t d' va')"
      using f(6) ro ux eqd b(4) by (auto simp: parent_pte_def child_pte_def dup_perm_def)
    then show ?thesis using run' f(1-5) ux by auto
  next
    case cow
    let ?cow = "PTE_COW OR PTE_U OR PTE_P"
    from map1 [OF cow_perm(1)] cow_perm(2) obtain r u zs where
      u: "usys_page_map io 0 va envid va ?cow t = Ret r u" and
      f: "fork_mid s D k xs d x u zs" "runs_in u D c d" "vm_frame t u" "set zs \<subseteq> set ys"
      "r = 0 \<or> r < 0 \<and> u = t \<and> ys = [] \<and> x = x \<and> length xs < NUSER"
      "\<forall>d' \<in> D. \<forall>va'. user_va va' \<longrightarrow>
         vm_map u d' va' = (if r = 0 \<and> d' = x \<and> PGNUM va' = PGNUM va
                            then Some (page2pa (frame w) OR ?cow OR PTE_P) else vm_map t d' va')"
      by blast
    show ?thesis
    proof (cases "r < 0")
      case True
      then have "duppage io envid (PGNUM va) t = Exit (Panicked ''error'') u"
        using cow pt u va(3) by (auto simp: duppage_def and_PTE0)
      then show ?thesis using f(5) True by auto
    next
      case False
      then have r: "r = 0" using f(5) by auto
      have me: "env_target u c 0 True = Some c" by (simp add: env_target_def)
      have mine: "env_pgdir (envs u c) = Some d" using f(2) by (simp add: runs_in_def)
      have mu: "vm_map u d va = Some w" using f(6) b(2,4) uva va(4) by simp
      have "d = x \<Longrightarrow> vm_map u x va = None" using b(4) by simp
      from fork_map [OF base f(1,2) me mine disjI1 [OF refl] va(1,2) mu this cow_perm(1)] cow_perm(2)
      obtain r' v vs where v: "usys_page_map io 0 va 0 va ?cow u = Ret r' v" and
        g: "fork_mid s D k xs d x v vs" "runs_in v D c d" "vm_frame u v" "set vs \<subseteq> set zs"
        "r' = 0 \<or> r' < 0 \<and> v = u \<and> zs = [] \<and> d = x \<and> length xs < NUSER"
        "\<forall>d' \<in> D. \<forall>va'. user_va va' \<longrightarrow>
           vm_map v d' va' = (if r' = 0 \<and> d' = d \<and> PGNUM va' = PGNUM va
                              then Some (page2pa (frame w) OR ?cow OR PTE_P) else vm_map u d' va')"
        by blast
      have r': "r' = 0" using g(5) b(4) by auto
      have run': "duppage io envid (PGNUM va) t = Ret 0 v"
        using cow pt u v va(3) r r' by (auto simp: duppage_def and_PTE0)
      have vx: "vm_map v x va = Some (child_pte w)"
        using g(6) f(6) b(3,4) uva r cow by (auto simp: child_pte_def dup_perm_def)
      have "\<forall>d' \<in> D. \<forall>va'. user_va va' \<longrightarrow>
         vm_map v d' va' =
           (if PGNUM va' = PGNUM va \<and> d' = d then Some (parent_pte w)
            else if PGNUM va' = PGNUM va \<and> d' = x then vm_map v x va
            else vm_map t d' va')"
        using g(6) f(6) r r' cow va(5) vx b(4) by (auto simp: parent_pte_def child_pte_def dup_perm_def)
      then show ?thesis
        using run' g(1,2,4) f(4) vm_frame_trans [OF f(3) g(3)] vx by blast
    qed
  qed
qed

text \<open>
  After n pages: the parent's entries below n have become parent_pte, the child's are
  child_pte, unless memory has run out.
\<close>

definition child_want :: "kstate \<Rightarrow> nat \<Rightarrow> nat \<Rightarrow> 32 word \<Rightarrow> 32 word option" where
  "child_want s d n va =
     (if unat (PGNUM va) < n
      then (case vm_map s d va of None \<Rightarrow> None | Some w \<Rightarrow> if bit w 2 then Some (child_pte w) else None)
      else None)"

definition forked :: "kstate \<Rightarrow> nat set \<Rightarrow> (nat \<Rightarrow> nat) \<Rightarrow> nat list \<Rightarrow> nat \<Rightarrow> nat \<Rightarrow> nat \<Rightarrow> kstate \<Rightarrow> nat list \<Rightarrow> bool" where
  "forked s D k xs d x n t ys \<longleftrightarrow> fork_mid s D k xs d x t ys \<and>
     (\<forall>va. user_va va \<longrightarrow>
        vm_map t d va = (if unat (PGNUM va) < n then map_option parent_pte (vm_map s d va) else vm_map s d va)) \<and>
     (\<forall>d' \<in> D. \<forall>va. d' \<noteq> d \<longrightarrow> d' \<noteq> x \<longrightarrow> user_va va \<longrightarrow> vm_map t d' va = vm_map s d' va) \<and>
     (\<forall>va. user_va va \<longrightarrow> vm_map t x va = child_want s d n va \<or> vm_map t x va = None \<and> ys = [])"

lemma page_of_nat:
  assumes "n < 2 ^ 20"
  shows "PGNUM (of_nat n * PGSIZE) = of_nat n" "PGOFF (of_nat n * PGSIZE) = 0" "unat (of_nat n * PGSIZE) = n * 4096"
proof -
  have "of_nat n * PGSIZE = (of_nat (n * 4096) :: 32 word)" by (simp add: PGSIZE_def)
  moreover have "n * 4096 < 2 ^ 32" using assms by simp
  ultimately show u: "unat (of_nat n * PGSIZE) = n * 4096" using unat_of_nat_32 by metis
  have "unat (of_nat n :: 32 word) = n" using assms by (simp add: unat_of_nat_32)
  then show "PGNUM (of_nat n * PGSIZE) = of_nat n" by (simp add: word_unat_eq_iff unat_PGNUM u)
  have "unat (PGOFF (of_nat n * PGSIZE)) = 0" unfolding unat_PGOFF u by simp
  then show "PGOFF (of_nat n * PGSIZE) = 0" by (simp add: unat_eq_0)
qed

lemma NFORK_eq: "NFORK = 976894"
  by (simp add: NFORK_def unat_PGNUM layout_values)

text \<open>A page fork leaves alone.\<close>

lemma forked_skip:
  assumes f: "forked s D k xs d x n t ys" and n: "unat (PGNUM va) = n"
    and skip: "\<And>w. vm_map s d va = Some w \<Longrightarrow> \<not> bit w 2"
  shows "forked s D k xs d x (Suc n) t ys"
proof -
  have same: "vm_map s d va' = vm_map s d va" if "unat (PGNUM va') = n" for va'
    using that n vm_map_page [of va' va s d] by (simp add: word_unat_eq_iff)
  have "map_option parent_pte (vm_map s d va) = vm_map s d va"
    using skip by (cases "vm_map s d va") (auto simp: parent_pte_def)
  moreover have "child_want s d (Suc n) va' = child_want s d n va'" for va'
    using same [of va'] skip by (auto simp: child_want_def less_Suc_eq split: option.splits)
  ultimately show ?thesis
    using f same unfolding forked_def by (auto simp: less_Suc_eq)
qed

lemma env_target_cong: "envs t = envs s \<Longrightarrow> env_target t c e b = env_target s c e b"
  by (simp only: env_target_def)

lemma fork_page_step:
  assumes base: "fork_base s D k xs d x" and run: "runs_in s D c d"
    and de: "env_target s c envid True = Some e" "env_pgdir (envs s e) = Some x" "c \<noteq> e"
    and n: "n < NFORK" and f: "forked s D k xs d x n t ys"
  shows "(\<exists>u zs. fork_page io envid n t = Ret () u \<and> forked s D k xs d x (Suc n) u zs) \<or>
    length xs < NUSER \<and> (\<exists>m u. fork_page io envid n t = Exit (Panicked m) u)"
proof -
  let ?va = "of_nat n * PGSIZE :: 32 word"
  have n20: "n < 2 ^ 20" using n by (simp add: NFORK_eq)
  note p = page_of_nat [OF n20]
  have un: "unat (PGNUM ?va) = n" using p(1) n20 by (simp add: unat_of_nat_32)
  have va: "?va < UTOP" using n by (simp add: word_less_nat_alt p(3) NFORK_eq layout_values)
  have uva: "user_va ?va" by (rule user_va_UTOP [OF va])
  have bd: "d \<in> D" "x \<in> D" "x \<noteq> d" using base by (simp_all add: fork_base_def)
  have mid: "fork_mid s D k xs d x t ys" and md: "vm_map t d ?va = vm_map s d ?va"
    using f uva un by (simp_all add: forked_def)
  have inv: "vm_inv t D k ys" and fr: "vm_frame s t" and grow: "dirs_grow s D xs t"
    using mid by (simp_all add: fork_mid_def)
  note runt = runs_in_grow [OF run fr grow]
  have pd: "uvpd (PDX ?va) t = Ret (mem t d (unat (PDX ?va))) t" by (rule uvpd_user [OF inv runt])
  show ?thesis
  proof (cases "\<exists>w. vm_map t d ?va = Some w \<and> bit w 2")
    case False
    then have "forked s D k xs d x (Suc n) t ys"
      by (intro forked_skip [OF f un]) (simp add: md)
    moreover have "fork_page io envid n t = Ret () t"
      using False pd uvpt_user [OF inv runt uva]
      by (auto simp: fork_page_def Let_def and_PTE0 vm_map_def present_bit)
    ultimately show ?thesis by blast
  next
    case True
    then obtain w where w: "vm_map t d ?va = Some w" "bit w 2" by blast
    note sl = vm_map_slot [OF w(1) bd(1) uva]
    have go: "fork_page io envid n t = kbind (duppage io envid (PGNUM ?va) t) (\<lambda>_. Ret ())"
      using pd uvpt_user [OF inv runt uva] sl w(2)
      by (simp add: fork_page_def Let_def and_PTE0 present_bit pt_slot_def)
    have det: "env_target t c envid True = Some e" "env_pgdir (envs t e) = Some x"
      using de vm_frame_sel(2) [OF fr] env_target_cong [of t s] by simp_all
    have "child_want s d n ?va = None" by (simp add: child_want_def un)
    then have mx: "vm_map t x ?va = None" using f uva unfolding forked_def by metis
    have vae: "?va = PGNUM ?va * PGSIZE" by (simp only: p(1))
    consider u zs where "duppage io envid (PGNUM ?va) t = Ret 0 u" "fork_mid s D k xs d x u zs"
        "set zs \<subseteq> set ys"
        "\<forall>d' \<in> D. \<forall>va'. user_va va' \<longrightarrow>
           vm_map u d' va' =
             (if PGNUM va' = PGNUM ?va \<and> d' = d then Some (parent_pte w)
              else if PGNUM va' = PGNUM ?va \<and> d' = x then vm_map u x ?va
              else vm_map t d' va')"
        "vm_map u x ?va = Some (child_pte w) \<or> vm_map u x ?va = None \<and> ys = []"
      | m u where "length xs < NUSER" "duppage io envid (PGNUM ?va) t = Exit (Panicked m) u"
      using duppage_effect [OF base mid runt det de(3) va p(2) vae w mx, of io] by blast
    then show ?thesis
    proof cases
      case 2
      then show ?thesis using go by simp
    next
      case (1 u zs)
      have eqn: "PGNUM va' = PGNUM ?va \<longleftrightarrow> unat (PGNUM va') = n" for va'
        using un by (simp add: word_unat_eq_iff)
      have sd: "vm_map s d va' = Some w" if "unat (PGNUM va') = n" for va'
        using that eqn md w(1) vm_map_page [of va' ?va s d] by simp
      have "vm_map u d va = (if unat (PGNUM va) < Suc n then map_option parent_pte (vm_map s d va) else vm_map s d va)"
        if "user_va va" for va
        using 1(4) that f bd sd [of va] eqn [of va] unfolding forked_def by (auto simp: less_Suc_eq)
      moreover have "vm_map u d' va = vm_map s d' va" if "d' \<in> D" "d' \<noteq> d" "d' \<noteq> x" "user_va va" for d' va
        using 1(4) that f unfolding forked_def by auto
      moreover have "vm_map u x va = child_want s d (Suc n) va \<or> vm_map u x va = None \<and> zs = []"
        if "user_va va" for va
      proof (cases "unat (PGNUM va) = n")
        case True
        then have "child_want s d (Suc n) va = Some (child_pte w)" using sd w(2) by (simp add: child_want_def)
        moreover have "vm_map u x va = vm_map u x ?va" using vm_map_page True eqn by blast
        ultimately show ?thesis using 1(3,5) by auto
      next
        case False
        then have "child_want s d (Suc n) va = child_want s d n va" by (simp add: child_want_def less_Suc_eq)
        moreover have "vm_map u x va = vm_map t x va" using 1(4) bd(2) that False eqn by simp
        ultimately show ?thesis using f that 1(3) unfolding forked_def by fastforce
      qed
      ultimately have "forked s D k xs d x (Suc n) u zs" using 1(2) unfolding forked_def by blast
      then show ?thesis using go 1(1) by auto
    qed
  qed
qed

lemma fork_loop:
  assumes base: "fork_base s D k xs d x" and run: "runs_in s D c d"
    and de: "env_target s c envid True = Some e" "env_pgdir (envs s e) = Some x" "c \<noteq> e"
  shows "n \<le> NFORK \<Longrightarrow>
    (\<exists>u zs. kforeach (fork_page io envid) [0..<n] s = Ret () u \<and> forked s D k xs d x n u zs) \<or>
    length xs < NUSER \<and> (\<exists>m u. kforeach (fork_page io envid) [0..<n] s = Exit (Panicked m) u)"
proof (induction n)
  case 0
  have "child_want s d 0 va = None" for va by (simp add: child_want_def)
  then have "forked s D k xs d x 0 s xs"
    using base fork_mid_start [OF base] by (auto simp: forked_def fork_base_def)
  then show ?case by auto
next
  case (Suc n)
  then consider u zs where "kforeach (fork_page io envid) [0..<n] s = Ret () u" "forked s D k xs d x n u zs"
    | m u where "length xs < NUSER" "kforeach (fork_page io envid) [0..<n] s = Exit (Panicked m) u"
    by auto
  then show ?case
  proof cases
    case (1 u zs)
    then show ?thesis
      using fork_page_step [OF base run de _ 1(2), of io] Suc.prems
      by (auto simp: kforeach_append)
  qed (simp add: kforeach_append)
qed

end
