(* ===== verification/Fork_Props.thy ===== *)
theory Fork_Props
  imports Fork_Lemmas
begin

text \<open>
  Copy-on-write: the page fault handler gives the faulting environment a copy of its own,
  and fork gives the child the parent's memory without letting either write what the
  other sees.
\<close>

section \<open>The states user programs run in\<close>

definition user_ok :: "kstate \<Rightarrow> nat set \<Rightarrow> (nat \<Rightarrow> nat) \<Rightarrow> nat list \<Rightarrow> nat \<Rightarrow> nat \<Rightarrow> bool" where
  "user_ok s D k xs c d \<longleftrightarrow> vm_inv s D k xs \<and> runs_in s D c d \<and> data_only s D \<and> refs_half s D \<and>
     kernel_dir_ok s \<and> \<not> table_frame s D (kern_pgdir s) \<and> kern_pgdir s \<notin> set xs"

lemma user_ok_set_env:
  assumes "user_ok s D k xs c d" "env_pgdir e' = env_pgdir (envs s i)"
  shows "user_ok (set_env i e' s) D k xs c d"
proof -
  have m: "vm_map (set_env i e' s) d va = vm_map s d va" for d va by (simp add: vm_map_def)
  have t: "table_frame (set_env i e' s) D q = table_frame s D q" for q by (simp add: table_frame_def)
  have "page_free_list (set_env i e' s) = page_free_list s" by simp
  then have "vm_inv (set_env i e' s) D k xs" using assms(1) vm_inv_cong [of "set_env i e' s" s] by (simp add: user_ok_def)
  then show ?thesis
    using assms by (cases "c = i") (simp_all add: user_ok_def runs_in_def data_only_def refs_half_def kernel_dir_ok_def m t)
qed

lemma ref_le:
  assumes inv: "vm_inv s D k xs" "vm_inv t D k ys" and np: "npages t = npages s" "f < npages s"
    and nt: "\<not> table_frame s D f" "\<not> table_frame t D f"
    and old: "\<And>d va w. d \<in> D \<Longrightarrow> user_va va \<Longrightarrow> vm_map t d va = Some w \<Longrightarrow> frame w = f \<Longrightarrow>
      \<exists>w'. vm_map s d va = Some w' \<and> frame w' = f"
  shows "unat (pp_ref (pages t f)) \<le> unat (pp_ref (pages s f))"
proof -
  have "refs t D f \<subseteq> refs s D f"
  proof
    fix r assume r: "r \<in> refs t D f"
    obtain d i j where rd: "r = (d, i, j)" by (cases r)
    obtain v where v: "d \<in> D" "i < NUSER" "j < 1024" "vm_map t d (PGADDR (of_nat i) (of_nat j) 0) = Some v" "frame v = f"
      using r is_ref_data [OF nt(2)] by (auto simp: refs_def rd)
    have "user_va (PGADDR (of_nat i) (of_nat j) 0)"
      using PDX_PGADDR(1) [of i j] v(2,3) by (simp only: user_va_def NUSER_eq)
    then show "r \<in> refs s D f"
      using old [OF v(1) _ v(4,5)] is_ref_data [OF nt(1)] v(1-3) by (auto simp: refs_def rd)
  qed
  moreover have "finite (refs s D f)" using inv(1) finite_refs by (simp add: vm_inv_def)
  ultimately show ?thesis
    using card_mono ref_eq [OF inv(1) np(2)] ref_eq [OF inv(2)] np by simp
qed

section \<open>Installing the page fault handler\<close>

text \<open>A page of the current environment, allocated at an address it has not mapped.\<close>

lemma alloc_user_ok:
  assumes ok: "user_ok s D k xs c d" and va: "va < UTOP" "vm_map s d va = None" and room: "2 \<le> length xs"
    and perm: "\<not> perm_bad perm"
  obtains t ys where "usys_page_alloc io 0 va perm s = Ret 0 t" "user_ok t D k ys c d" "vm_frame s t"
    "\<And>d' va'. d' \<in> D \<Longrightarrow> user_va va' \<Longrightarrow> d' \<noteq> d \<or> PGNUM va' \<noteq> PGNUM va \<Longrightarrow> vm_map t d' va' = vm_map s d' va'"
    "data_same s D xs t" "dirs_grow s D xs t" "set ys \<subseteq> set xs" "length xs \<le> length ys + 2"
proof -
  have inv: "vm_inv s D k xs" and run: "runs_in s D c d" and only: "data_only s D" and half: "refs_half s D"
    and ker: "kernel_dir_ok s" "\<not> table_frame s D (kern_pgdir s)" "kern_pgdir s \<notin> set xs"
    using ok by (simp_all add: user_ok_def)
  have d: "d \<in> D" "curenv s = Some c" "env_pgdir (envs s c) = Some d" using run by (simp_all add: runs_in_def)
  have tgt: "env_target s c 0 True = Some c" by (simp add: env_target_def)
  have ne: "xs \<noteq> []" "present (mem s d (unat (PDX va))) \<or> tl xs \<noteq> []" using room by (cases xs; auto)+
  obtain t ys pp where t: "sys_page_alloc 0 va perm s = Ret 0 t" "vm_inv t D k ys" "vm_frame s t"
    and pp: "pp \<in> set xs" "pp \<notin> set ys" "\<not> table_frame t D pp"
    and mt: "\<forall>d' \<in> D. \<forall>va'. user_va va' \<longrightarrow>
          vm_map t d' va' = (if d' = d \<and> PGNUM va' = PGNUM va
                             then Some (page2pa pp OR perm OR PTE_P) else vm_map s d' va')"
    and same: "data_same s D xs t" and grow: "dirs_grow s D xs t" and sub: "set ys \<subseteq> set xs"
    and len: "length xs \<le> length ys + 2"
    by (rule sys_page_alloc_room [OF inv d(2) tgt d(3,1) va(1) perm va(2) ne])
  have np: "npages t = npages s" "kern_pgdir t = kern_pgdir s" using vm_frame_sel [OF t(3)] by simp_all
  have ppx: "pp < npages t" "k pp = 0" "pp < 2 ^ 20"
    using free_unreferenced(2,3) [OF inv pp(1)] np free_page_lt [OF inv pp(1)] by simp_all
  have fr: "frame (page2pa pp OR perm OR PTE_P) = pp" by (rule frame_new_pte [OF ppx(3) perm_ok_low [OF perm]])
  have old: "vm_map s d' va' = Some w" if "d' \<in> D" "user_va va'" "vm_map t d' va' = Some w" "frame w \<noteq> pp" for d' va' w
    using mt that fr by (auto split: if_splits)
  have new: "d' = d \<and> PGNUM va' = PGNUM va" if "d' \<in> D" "user_va va'" "vm_map t d' va' = Some w" "frame w = pp" for d' va' w
  proof (rule ccontr)
    assume "\<not> ?thesis"
    then have "vm_map s d' va' = Some w" using that mt by auto
    then show False using mapped_page(2) [OF inv that(1,2)] that(4) pp(1) by simp
  qed
  have nt: "\<not> table_frame t D q" if "\<not> table_frame s D q" "q \<notin> set xs" for q
    using table_frame_grow [OF grow xs_small [OF inv]] that by blast
  have oldt: "\<not> table_frame s D (frame w)" "frame w \<notin> set xs" "frame w < npages s"
    if "d' \<in> D" "user_va va'" "vm_map s d' va' = Some w" for d' va' w
    using only that mapped_page [OF inv that] by (auto simp: data_only_def)
  have "data_only t D"
    unfolding data_only_def
  proof (intro ballI allI impI)
    fix d' va' w assume w: "d' \<in> D" "user_va va'" "vm_map t d' va' = Some w"
    show "\<not> table_frame t D (frame w)"
    proof (cases "frame w = pp")
      case True
      then show ?thesis using pp(3) by simp
    next
      case False
      show ?thesis using nt oldt [OF w(1,2) old [OF w False]] by blast
    qed
  qed
  moreover have "refs_half t D"
    unfolding refs_half_def
  proof (intro ballI allI impI)
    fix d' va' w assume w: "d' \<in> D" "user_va va'" "vm_map t d' va' = Some w"
    show "2 * unat (pp_ref (pages t (frame w))) < 65535"
    proof (cases "frame w = pp")
      case True
      have "unat (pp_ref (pages t pp)) \<le> 1" by (rule single_ref [OF t(2) ppx(1,2) pp(3) new])
      then show ?thesis using True by simp
    next
      case False
      note o = old [OF w False]
      have ex: "\<exists>w'. vm_map s d2 va2 = Some w' \<and> frame w' = frame w"
        if "d2 \<in> D" "user_va va2" "vm_map t d2 va2 = Some v" "frame v = frame w" for d2 va2 v
        using old [OF that(1-3)] that(4) False by auto
      have "unat (pp_ref (pages t (frame w))) \<le> unat (pp_ref (pages s (frame w)))"
        by (rule ref_le [OF inv t(2) np(1) oldt(3) [OF w(1,2) o] oldt(1) [OF w(1,2) o]
              nt [OF oldt(1,2) [OF w(1,2) o]] ex])
      moreover have "2 * unat (pp_ref (pages s (frame w))) < 65535" using half w(1,2) o unfolding refs_half_def by blast
      ultimately show ?thesis by simp
    qed
  qed
  moreover have "kernel_dir_ok t" "\<not> table_frame t D (kern_pgdir t)" "kern_pgdir t \<notin> set ys"
    using ker np same nt sub by (auto simp: kernel_dir_ok_def data_same_def)
  ultimately have "user_ok t D k ys c d"
    using t(2) runs_in_grow [OF run t(3) grow] by (simp add: user_ok_def)
  then show thesis
    by (intro that [of t ys]) (use t(1,3) mt same grow sub len in auto)
qed

lemma usys_upcall:
  assumes "curenv s = Some c" "env_target s c envid True = Some e"
  shows "usys_env_set_pgfault_upcall io envid f s = Ret 0 (set_env e ((envs s e)\<lparr>env_pgfault_upcall := f\<rparr>) s)"
  using assms by (simp add: usys_env_set_pgfault_upcall_def usyscall_def syscall_def
      sys_env_set_pgfault_upcall_def on_env_target)

text \<open>
  The handler installed: at most two pages are taken, and no mapping changes except that
  of the page for the exception stack.
\<close>

definition handled :: "kstate \<Rightarrow> nat set \<Rightarrow> nat list \<Rightarrow> nat \<Rightarrow> nat \<Rightarrow> kstate \<Rightarrow> nat list \<Rightarrow> bool" where
  "handled s D xs c d t ys \<longleftrightarrow>
     (\<forall>d' \<in> D. \<forall>va. user_va va \<longrightarrow> d' \<noteq> d \<or> PGNUM va \<noteq> PGNUM (UXSTACKTOP - PGSIZE) \<longrightarrow>
        vm_map t d' va = vm_map s d' va) \<and>
     data_same s D xs t \<and> dirs_grow s D xs t \<and> set ys \<subseteq> set xs \<and> length xs \<le> length ys + 2 \<and>
     env_free_list t = env_free_list s \<and> (\<forall>i. i \<noteq> c \<longrightarrow> envs t i = envs s i)"

lemma set_pgfault_handler_effect:
  assumes ok: "user_ok s D k xs c d" and room: "2 \<le> length xs"
    and stk: "pgfault_ptr u = 0 \<Longrightarrow> vm_map s d (UXSTACKTOP - PGSIZE) = None"
  shows "\<exists>u' t ys. set_pgfault_handler io upcall h u s = Ret u' t \<and> user_ok t D k ys c d \<and> handled s D xs c d t ys"
proof -
  have fin: "\<exists>u' t'. set_pgfault_handler io upcall h u s = Ret u' t' \<and> user_ok t' D k ys c d \<and> handled s D xs c d t' ys"
    if go: "(if pgfault_ptr u = 0
            then kbind (usys_page_alloc io 0 (UXSTACKTOP - PGSIZE) PTE_RW s) (\<lambda>r s.
                   if r < 0 then Exit (Panicked ''set_pgfault_handler:sys_page_alloc failed'') s
                   else Ret () s)
            else Ret () s) = Ret () t"
      and t: "user_ok t D k ys c d" "handled s D xs c d t ys" for t ys
  proof -
    have c: "curenv t = Some c" using t(1) by (simp add: user_ok_def runs_in_def)
    have tgt: "env_target t c 0 True = Some c" by (simp add: env_target_def)
    let ?t = "set_env c ((envs t c)\<lparr>env_pgfault_upcall := upcall\<rparr>) t"
    have "set_pgfault_handler io upcall h u s = Ret (u\<lparr>pgfault_ptr := h\<rparr>) ?t"
      unfolding set_pgfault_handler_def go by (simp add: usys_upcall [OF c tgt])
    moreover have "user_ok ?t D k ys c d" by (rule user_ok_set_env [OF t(1)]) simp
    moreover have "handled s D xs c d ?t ys"
      using t(2) by (simp add: handled_def vm_map_def data_same_def dirs_grow_def)
    ultimately show ?thesis by blast
  qed
  show ?thesis
  proof (cases "pgfault_ptr u = 0")
    case False
    have "handled s D xs c d s xs" by (simp add: handled_def)
    then show ?thesis using fin [of s xs] False ok by auto
  next
    case True
    have va: "UXSTACKTOP - PGSIZE < UTOP" by (simp add: layout_values PGSIZE_def)
    obtain t ys where t: "usys_page_alloc io 0 (UXSTACKTOP - PGSIZE) PTE_RW s = Ret 0 t" "user_ok t D k ys c d"
      "vm_frame s t"
      "\<And>d' va'. d' \<in> D \<Longrightarrow> user_va va' \<Longrightarrow> d' \<noteq> d \<or> PGNUM va' \<noteq> PGNUM (UXSTACKTOP - PGSIZE) \<Longrightarrow>
         vm_map t d' va' = vm_map s d' va'"
      "data_same s D xs t" "dirs_grow s D xs t" "set ys \<subseteq> set xs" "length xs \<le> length ys + 2"
      by (rule alloc_user_ok [OF ok va stk [OF True] room rw_perm(1)]) blast
    have "handled s D xs c d t ys"
      using t(4-8) vm_frame_sel [OF t(3)] by (simp add: handled_def)
    then show ?thesis using fin [of t ys] True t(1,2) by auto
  qed
qed

section \<open>The child\<close>

lemma exofork_base:
  assumes ok: "user_ok s D k (x # ys) c d" and e: "env_free_list s = Some e" "e < NENV" "e \<noteq> c"
  obtains t where "usys_exofork io s = Ret (sint (env_id (envs t e))) t" "0 < sint (env_id (envs t e))"
    "fork_base t (insert x D) k ys d x" "runs_in t (insert x D) c d" "x \<notin> D"
    "env_target t c (env_id (envs t e)) True = Some e" "env_pgdir (envs t e) = Some x"
    "\<And>d' va. d' \<in> D \<Longrightarrow> user_va va \<Longrightarrow> vm_map t d' va = vm_map s d' va"
    "mem t = (mem s)(x := new_dir x s)" "\<And>q. table_frame t (insert x D) q \<Longrightarrow> table_frame s D q \<or> q = x"
proof -
  have inv: "vm_inv s D k (x # ys)" and run: "runs_in s D c d" and only: "data_only s D" and half: "refs_half s D"
    and ker: "kernel_dir_ok s" using ok by (simp_all add: user_ok_def)
  have c: "curenv s = Some c" "d \<in> D" using run by (simp_all add: runs_in_def)
  obtain t where t: "sys_exofork s = Ret (sint (env_id (envs t e))) t" "0 < sint (env_id (envs t e))"
    "env_pgdir (envs t e) = Some x" "vm_inv t (insert x D) k ys"
    "\<And>va. user_va va \<Longrightarrow> vm_map t x va = None"
    "\<And>d va. d \<in> D \<Longrightarrow> user_va va \<Longrightarrow> vm_map t d va = vm_map s d va"
    "\<And>i. i \<noteq> e \<Longrightarrow> envs t i = envs s i" "mem t = (mem s)(x := new_dir x s)" "npages t = npages s"
    "\<And>p. p \<noteq> x \<Longrightarrow> pp_ref (pages t p) = pp_ref (pages s p)" "curenv t = Some c" "cr3 t = cr3 s"
    "env_target t c (env_id (envs t e)) True = Some e"
    by (rule sys_exofork_effect [OF inv ker c(1) e]) blast
  have xD: "x \<notin> D" using free_not_table(1) [OF inv, of x] by simp
  have dir: "mem t d' = mem s d'" if "d' \<in> D" for d' using that xD t(8) by auto
  have tf: "table_frame s D q \<or> q = x" if "table_frame t (insert x D) q" for q
    using that dir new_dir_user [OF ker, of _ x] by (auto simp: table_frame_def t(8))
  have old: "d' \<in> D" "vm_map s d' va = Some w" if "d' \<in> insert x D" "user_va va" "vm_map t d' va = Some w" for d' va w
    using that t(5,6) by (cases "d' = x"; auto)+
  have ne: "\<not> table_frame s D (frame w)" "frame w \<noteq> x" if "d' \<in> D" "user_va va" "vm_map s d' va = Some w" for d' va w
    using only mapped_page(2) [OF inv that] that by (auto simp: data_only_def)
  have "data_only t (insert x D)"
    unfolding data_only_def
  proof (intro ballI allI impI)
    fix d' va w assume w: "d' \<in> insert x D" "user_va va" "vm_map t d' va = Some w"
    show "\<not> table_frame t (insert x D) (frame w)" using tf ne [OF old(1) [OF w] w(2) old(2) [OF w]] by blast
  qed
  moreover have "refs_half t (insert x D)"
    unfolding refs_half_def
  proof (intro ballI allI impI)
    fix d' va w assume w: "d' \<in> insert x D" "user_va va" "vm_map t d' va = Some w"
    have "2 * unat (pp_ref (pages s (frame w))) < 65535"
      using half old(1) [OF w] w(2) old(2) [OF w] unfolding refs_half_def by blast
    then show "2 * unat (pp_ref (pages t (frame w))) < 65535"
      using t(10) [OF ne(2) [OF old(1) [OF w] w(2) old(2) [OF w]]] by simp
  qed
  ultimately have "fork_base t (insert x D) k ys d x"
    using t(4,5) c(2) xD by (auto simp: fork_base_def)
  moreover have "runs_in t (insert x D) c d"
    using run t(7) [of c] t(11,12) dir [OF c(2)] e(3) by (simp add: runs_in_def)
  moreover have "usys_exofork io s = Ret (sint (env_id (envs t e))) t"
    by (simp add: usys_exofork_def usyscall_def syscall_def t(1))
  ultimately show thesis by (intro that [of t]) (use t tf xD in auto)
qed

text \<open>
  The last steps: the child's exception stack, its page fault entry point, and its start.
\<close>

lemma fork_finish:
  assumes base: "fork_base s D k xs d x" and mid: "fork_mid s D k xs d x t ys" and c: "curenv s = Some c"
    and de: "env_target s c envid True = Some e" "env_pgdir (envs s e) = Some x"
  shows "(\<exists>u. kbind (usys_page_alloc io envid (UXSTACKTOP - PGSIZE) (PTE_U OR PTE_W OR PTE_P) t) (\<lambda>r s.
        if r < 0 then Exit (Panicked ''1'') s
        else kbind (usys_env_set_pgfault_upcall io envid upcall s) (\<lambda>_ s.
          kbind (usys_env_set_status io envid 2 s) (\<lambda>r s.
            if r < 0 then Exit (Panicked ''sys_env_set_status'') s else Ret (v, u') s))) = Ret (v, u') u \<and>
      ys \<noteq> [] \<and> (\<exists>zs. vm_inv u D k zs) \<and> data_same s D xs u \<and> envs u e = (envs s e)\<lparr>env_pgfault_upcall := upcall, env_status := ENV_RUNNABLE\<rparr> \<and>
      (\<forall>d' \<in> D. \<forall>va. user_va va \<longrightarrow> d' \<noteq> x \<or> PGNUM va \<noteq> PGNUM (UXSTACKTOP - PGSIZE) \<longrightarrow> vm_map u d' va = vm_map t d' va)) \<or>
    length ys \<le> 1 \<and> (\<exists>m u. kbind (usys_page_alloc io envid (UXSTACKTOP - PGSIZE) (PTE_U OR PTE_W OR PTE_P) t) (\<lambda>r s.
        if r < 0 then Exit (Panicked ''1'') s
        else kbind (usys_env_set_pgfault_upcall io envid upcall s) (\<lambda>_ s.
          kbind (usys_env_set_status io envid 2 s) (\<lambda>r s.
            if r < 0 then Exit (Panicked ''sys_env_set_status'') s else Ret (v, u') s))) = Exit (Panicked m) u)"
proof -
  let ?st = "UXSTACKTOP - PGSIZE" and ?p = "PTE_U OR PTE_W OR PTE_P"
  have b: "vm_inv s D k xs" "x \<in> D" using base by (simp_all add: fork_base_def)
  have m: "vm_inv t D k ys" "vm_frame s t" "dirs_grow s D xs t" "data_same s D xs t" "set ys \<subseteq> set xs"
    using mid by (simp_all add: fork_mid_def)
  have ev: "envs t = envs s" "curenv t = Some c" using vm_frame_sel [OF m(2)] c by simp_all
  have tgt: "env_target t c envid True = Some e" using de(1) env_target_cong [OF ev(1)] by simp
  have pd: "env_pgdir (envs t e) = Some x" using de(2) ev(1) by simp
  have va: "?st < UTOP" by (simp add: layout_values PGSIZE_def)
  have perm: "\<not> perm_bad ?p" by (simp add: perm_bad_def layout_values layout_defs)
  from sys_page_alloc_effect [OF m(1) ev(2) tgt pd b(2) va perm] obtain r v zs where
    v: "sys_page_alloc envid ?st ?p t = Ret r v" "vm_inv v D k zs" "vm_frame t v"
      "r = (if ys \<noteq> [] \<and> (present (mem t x (unat (PDX ?st))) \<or> tl ys \<noteq> []) then 0 else - E_NO_MEM)"
      "if r = 0 then (\<exists>pp \<in> set ys. mem v pp = (\<lambda>_. 0) \<and>
         (\<forall>d' \<in> D. \<forall>va'. user_va va' \<longrightarrow>
            vm_map v d' va' = (if d' = x \<and> PGNUM va' = PGNUM ?st
                               then Some (page2pa pp OR ?p OR PTE_P) else vm_map t d' va')) \<and>
         pp \<notin> set zs \<and> \<not> table_frame v D pp)
       else same_maps t v D"
      "data_same t D ys v"
    by blast
  have al: "usys_page_alloc io envid ?st ?p t = Ret r v"
    by (rule usys_alloc [OF v(1)]) (simp add: v(4) error_defs)
  show ?thesis
  proof (cases "r = 0")
    case False
    then have "r < 0" using v(4) by (simp add: error_defs split: if_splits)
    moreover have "length ys \<le> 1" using False v(4) by (cases ys; cases "tl ys") (auto split: if_splits)
    ultimately show ?thesis by (simp add: al)
  next
    case True
    have vv: "envs v = envs s" "curenv v = Some c" using vm_frame_sel [OF v(3)] ev by simp_all
    have tv: "env_target v c envid True = Some e" using de(1) env_target_cong [OF vv(1)] by simp
    let ?v1 = "set_env e ((envs v e)\<lparr>env_pgfault_upcall := upcall\<rparr>) v"
    have tv1: "env_target ?v1 c envid True = Some e" using tv by (auto simp: env_target_def Let_def split: if_splits)
    let ?u = "set_env e ((envs ?v1 e)\<lparr>env_status := ENV_RUNNABLE\<rparr>) ?v1"
    have c1: "curenv ?v1 = Some c" using vv(2) by simp
    have st: "usys_env_set_status io envid 2 ?v1 = Ret 0 ?u"
      using on_env_target [OF c1] tv1
      by (simp add: usys_env_set_status_def usyscall_def syscall_def sys_env_set_status_def status_of_int_def)
    have "vm_inv ?u D k zs" using v(2) vm_inv_cong [of ?u v] by simp
    moreover have "data_same s D xs ?u"
      using contents_trans [OF m(3,4) v(6) m(5) b(1)] by (simp add: data_same_def)
    moreover have "envs ?u e = (envs s e)\<lparr>env_pgfault_upcall := upcall, env_status := ENV_RUNNABLE\<rparr>"
      using vv(1) by simp
    moreover have "vm_map ?u d' va = vm_map t d' va"
      if "d' \<in> D" "user_va va" "d' \<noteq> x \<or> PGNUM va \<noteq> PGNUM ?st" for d' va
    proof -
      have "vm_map ?u d' va = vm_map v d' va" by (rule vm_map_cong) simp
      then show ?thesis using v(5) that True by auto
    qed
    moreover have "ys \<noteq> []" using v(4) True by (auto simp: error_defs split: if_splits)
    ultimately show ?thesis
      by (intro disjI1 exI [of _ ?u]) (auto simp: al True usys_upcall [OF vv(2) tv] st)
  qed
qed

section \<open>What fork guarantees\<close>

text \<open>
  A page of the parent with entry w, and the entries p and q that parent and child have for it
  after fork: the same page; shared with the same rights if w says so; otherwise the child cannot
  write it, and if w was writable or copy-on-write neither can, and both are marked.
\<close>

definition cow_pair :: "32 word \<Rightarrow> 32 word \<Rightarrow> 32 word \<Rightarrow> bool" where
  "cow_pair w p q \<longleftrightarrow> frame p = frame w \<and> frame q = frame w \<and> q AND PTE_U \<noteq> 0 \<and>
     (if w AND PTE_SHARE \<noteq> 0 then p = w \<and> (q AND PTE_W = 0 \<longleftrightarrow> w AND PTE_W = 0)
      else if w AND PTE_W \<noteq> 0 \<or> w AND PTE_COW \<noteq> 0
      then p AND PTE_W = 0 \<and> q AND PTE_W = 0 \<and> p AND PTE_COW \<noteq> 0 \<and> q AND PTE_COW \<noteq> 0
      else p = w \<and> q AND PTE_W = 0 \<and> q AND PTE_COW = 0)"

lemma flag_bits:
  "bit PTE_SYSCALL 1" "bit PTE_SYSCALL 2" "\<not> bit PTE_P 1" "\<not> bit PTE_P 2" "\<not> bit PTE_P 11"
  "bit PTE_U 2" "\<not> bit PTE_U 1" "\<not> bit PTE_U 11" "bit PTE_COW 11" "\<not> bit PTE_COW 1"
  by (simp_all add: layout_values layout_defs bit_numeral_rec numeral_2_eq_2)

lemma low_perm_dup: "low_perm (dup_perm w)" "low_perm (PTE_COW OR PTE_U OR PTE_P)"
proof -
  have "low_perm (w AND PTE_SYSCALL)"
  proof -
    have "(w AND PTE_SYSCALL) AND NOT 0xFFF = w AND (PTE_SYSCALL AND NOT 0xFFF)" by (simp only: and.assoc)
    also have "PTE_SYSCALL AND NOT 0xFFF = 0" by (simp add: layout_values)
    finally show ?thesis by (simp add: low_perm_def PTE_ADDR_def)
  qed
  then show "low_perm (dup_perm w)" "low_perm (PTE_COW OR PTE_U OR PTE_P)"
    by (auto simp: dup_perm_def) (simp_all add: low_perm_def PTE_ADDR_def layout_defs)
qed

lemma cow_pair_ptes:
  assumes "bit w 2" "frame w < 2 ^ 20"
  shows "cow_pair w (parent_pte w) (child_pte w)"
proof -
  have "frame (child_pte w) = frame w" "frame (parent_pte w) = frame w"
    using frame_new_pte [OF assms(2)] low_perm_dup by (simp_all add: child_pte_def parent_pte_def)
  moreover have "bit (child_pte w) 2 \<and> (bit w 10 \<longrightarrow> bit (child_pte w) 1 = bit w 1 \<and> parent_pte w = w) \<and>
      (\<not> bit w 10 \<longrightarrow> \<not> bit (child_pte w) 1 \<and>
        (if bit w 1 \<or> bit w 11 then bit (child_pte w) 11 \<and> bit (parent_pte w) 11 \<and> \<not> bit (parent_pte w) 1
         else \<not> bit (child_pte w) 11 \<and> parent_pte w = w))"
    using assms(1) flag_bits page2pa_low [of 1 "frame w"] page2pa_low [of 11 "frame w"]
    by (auto simp: child_pte_def parent_pte_def dup_perm_def bit_and_iff bit_or_iff)
  ultimately show ?thesis unfolding cow_pair_def and_PTE and_PTE0 by auto
qed

lemma fork_effect:
  assumes ok: "user_ok s D k xs c d" and e: "env_free_list s = Some e" "e < NENV" "e \<noteq> c"
    and stk: "pgfault_ptr u = 0 \<Longrightarrow> vm_map s d (UXSTACKTOP - PGSIZE) = None" and room: "NUSER + 5 \<le> length xs"
  shows "\<exists>u' t x zs. fork io upcall h u s = Ret (sint (env_id (envs t e)), u') t \<and> 0 < sint (env_id (envs t e)) \<and>
    env_status (envs t e) = ENV_RUNNABLE \<and> env_pgfault_upcall (envs t e) = upcall \<and>
    env_pgdir (envs t e) = Some x \<and> x \<notin> D \<and> vm_inv t (insert x D) k zs \<and> data_same s D xs t \<and>
    (\<forall>va < USTACKTOP. vm_map t d va = map_option parent_pte (vm_map s d va) \<and>
       vm_map t x va = (case vm_map s d va of None \<Rightarrow> None | Some w \<Rightarrow> if bit w 2 then Some (child_pte w) else None)) \<and>
    (\<forall>d' \<in> D. d' \<noteq> d \<longrightarrow> (\<forall>va. user_va va \<longrightarrow> vm_map t d' va = vm_map s d' va))"
proof -
  have inv: "vm_inv s D k xs" using ok by (simp add: user_ok_def)
  have "2 \<le> length xs" using room by simp
  then obtain u1 s1 ys1 where s1: "set_pgfault_handler io upcall h u s = Ret u1 s1" "user_ok s1 D k ys1 c d"
    and hd: "handled s D xs c d s1 ys1"
    using set_pgfault_handler_effect [OF ok _ stk] by blast
  have h: "\<And>d' va. d' \<in> D \<Longrightarrow> user_va va \<Longrightarrow> d' \<noteq> d \<or> PGNUM va \<noteq> PGNUM (UXSTACKTOP - PGSIZE) \<Longrightarrow>
        vm_map s1 d' va = vm_map s d' va"
    "data_same s D xs s1" "dirs_grow s D xs s1" "set ys1 \<subseteq> set xs" "length xs \<le> length ys1 + 2"
    "env_free_list s1 = Some e" "envs s1 e = envs s e"
    using hd e unfolding handled_def by auto
  obtain x ys where ys1: "ys1 = x # ys" using h(5) room by (cases ys1) auto
  obtain s2 where s2: "usys_exofork io s1 = Ret (sint (env_id (envs s2 e))) s2" "0 < sint (env_id (envs s2 e))"
    "fork_base s2 (insert x D) k ys d x" "runs_in s2 (insert x D) c d" "x \<notin> D"
    "env_target s2 c (env_id (envs s2 e)) True = Some e" "env_pgdir (envs s2 e) = Some x"
    "\<And>d' va. d' \<in> D \<Longrightarrow> user_va va \<Longrightarrow> vm_map s2 d' va = vm_map s1 d' va"
    "mem s2 = (mem s1)(x := new_dir x s1)" "\<And>q. table_frame s2 (insert x D) q \<Longrightarrow> table_frame s1 D q \<or> q = x"
    by (rule exofork_base [OF s1(2) [unfolded ys1] h(6) e(2,3)]) blast
  let ?id = "env_id (envs s2 e)"
  have w: "word_of_int (sint ?id) = ?id" by simp
  have len: "NUSER + 2 \<le> length ys" using h(5) room by (simp add: ys1)
  obtain s3 zs where s3: "kforeach (fork_page io ?id) [0..<NFORK] s2 = Ret () s3"
    and fk: "forked s2 (insert x D) k ys d x NFORK s3 zs"
    using fork_loop [OF s2(3,4,6,7), of NFORK io] e(3) len by auto
  have mid: "fork_mid s2 (insert x D) k ys d x s3 zs" using fk by (simp add: forked_def)
  then have "2 \<le> length zs" using tables_of_le [of s3 x] len by (simp add: fork_mid_def)
  have c2: "curenv s2 = Some c" using s2(4) by (simp add: runs_in_def)
  from fork_finish [OF s2(3) mid c2 s2(6,7), of io upcall "sint ?id" u1] \<open>2 \<le> length zs\<close> obtain t vs where
    t: "kbind (usys_page_alloc io ?id (UXSTACKTOP - PGSIZE) (PTE_U OR PTE_W OR PTE_P) s3) (\<lambda>r s.
        if r < 0 then Exit (Panicked ''1'') s
        else kbind (usys_env_set_pgfault_upcall io ?id upcall s) (\<lambda>_ s.
          kbind (usys_env_set_status io ?id 2 s) (\<lambda>r s.
            if r < 0 then Exit (Panicked ''sys_env_set_status'') s else Ret (sint ?id, u1) s))) = Ret (sint ?id, u1) t"
      "zs \<noteq> []" "vm_inv t (insert x D) k vs" "data_same s2 (insert x D) ys t"
      "envs t e = (envs s2 e)\<lparr>env_pgfault_upcall := upcall, env_status := ENV_RUNNABLE\<rparr>"
      "\<forall>d' \<in> insert x D. \<forall>va. user_va va \<longrightarrow> d' \<noteq> x \<or> PGNUM va \<noteq> PGNUM (UXSTACKTOP - PGSIZE) \<longrightarrow>
         vm_map t d' va = vm_map s3 d' va"
    by fastforce
  have id: "env_id (envs t e) = ?id" using t(5) by simp
  have run: "fork io upcall h u s = Ret (sint (env_id (envs t e)), u1) t"
    using s2(2) t(1) unfolding fork_def s1(1) kbind.simps s2(1) id by (simp add: s3 Let_def)
  have dD: "d \<in> D" using ok by (simp add: user_ok_def runs_in_def)
  have low: "user_va va" "unat (PGNUM va) < NFORK" "PGNUM va \<noteq> PGNUM (UXSTACKTOP - PGSIZE)" if "va < USTACKTOP" for va
  proof -
    have l: "unat va < 0xEE7FE000" using that by (simp add: word_less_nat_alt layout_values)
    show "user_va va" using that by (intro user_va_UTOP) (simp add: layout_values word_less_nat_alt)
    show lt: "unat (PGNUM va) < NFORK" unfolding unat_PGNUM NFORK_eq using l by simp
    have "unat (PGNUM (UXSTACKTOP - PGSIZE)) = 976895" by (simp add: unat_PGNUM layout_values PGSIZE_def)
    then show "PGNUM va \<noteq> PGNUM (UXSTACKTOP - PGSIZE)" using lt by (auto simp: NFORK_eq)
  qed
  have maps: "vm_map t d va = map_option parent_pte (vm_map s d va) \<and>
       vm_map t x va = (case vm_map s d va of None \<Rightarrow> None | Some w \<Rightarrow> if bit w 2 then Some (child_pte w) else None)"
    if va: "va < USTACKTOP" for va
  proof -
    note l = low [OF va]
    have "vm_map s2 d va = vm_map s d va" using s2(8) h(1) dD l by simp
    moreover have "vm_map t d va = vm_map s3 d va" "vm_map t x va = vm_map s3 x va" using t(6) dD l by auto
    ultimately show ?thesis using fk l t(2) by (simp add: forked_def child_want_def)
  qed
  have other: "vm_map t d' va = vm_map s d' va" if "d' \<in> D" "d' \<noteq> d" "user_va va" for d' va
  proof -
    have "d' \<noteq> x" using that(1) s2(5) by auto
    then show ?thesis using t(6) fk s2(8) h(1) that by (simp add: forked_def)
  qed
  have "data_same s D xs t"
    unfolding data_same_def
  proof (intro allI impI)
    fix q assume q: "\<not> table_frame s D q" "q \<notin> set xs"
    then have q1: "\<not> table_frame s1 D q" "q \<noteq> x" "q \<notin> set ys"
      using table_frame_grow [OF h(3) xs_small [OF inv]] h(4) by (auto simp: ys1)
    then have "\<not> table_frame s2 (insert x D) q" using s2(10) by blast
    then have "mem t q = mem s2 q" using t(4) q1(3) by (simp add: data_same_def)
    then show "mem t q = mem s q" using s2(9) q1(2) h(2) q by (simp add: data_same_def)
  qed
  then show ?thesis
    using run s2(2,5,7) t(3,5) id maps other
    by (intro exI [of _ u1] exI [of _ t] exI [of _ x] exI [of _ vs]) simp
qed

section \<open>A machine with memory for a child\<close>

text \<open>
  1100 frames: 0 is the kernel's directory, 1 that of the running environment 0, 2 its page
  table, which maps page 0 writable and page 1 copy-on-write to the frames 3 and 4; the rest is free.
\<close>

definition fork_link :: "nat \<Rightarrow> nat option" where
  "fork_link p = (if 5 \<le> p \<and> p < 1099 then Some (p + 1) else None)"

definition demo_fork :: kstate where
  "demo_fork = (blank_state 1100 160)\<lparr>page_free_list := Some 5, curenv := Some 0, cr3 := 1,
     pages := (\<lambda>p. \<lparr>pp_link = fork_link p, pp_ref = (if p < 5 then 1 else 0)\<rparr>),
     mem := (\<lambda>_ _. 0)(1 := (\<lambda>_. 0)(0 := 0x2007, 957 := 0x1005), 2 := (\<lambda>_. 0)(0 := 0x3007, 1 := 0x4805)),
     env_free_list := Some 1,
     envs := (\<lambda>_. blank_env)(0 := blank_env\<lparr>env_id := 0x1000, env_status := ENV_RUNNING, env_pgdir := Some 1\<rparr>)\<rparr>"

abbreviation fork_handles :: "nat \<Rightarrow> nat" where
  "fork_handles p \<equiv> (if p = 0 then 1 else 0)"

lemma demo_fork_sel [simp]:
  "npages demo_fork = 1100" "curenv demo_fork = Some 0" "cr3 demo_fork = 1" "kern_pgdir demo_fork = 0"
  "page_free_list demo_fork = Some 5" "env_free_list demo_fork = Some 1"
  "pp_link (pages demo_fork p) = fork_link p" "pp_ref (pages demo_fork p) = (if p < 5 then 1 else 0)"
  "env_pgdir (envs demo_fork 0) = Some 1"
  "mem demo_fork = (\<lambda>_ _. 0)(1 := (\<lambda>_. 0)(0 := 0x2007, 957 := 0x1005), 2 := (\<lambda>_. 0)(0 := 0x3007, 1 := 0x4805))"
  by (simp_all add: demo_fork_def blank_state_def)

lemma fork_chain: "5 \<le> a \<Longrightarrow> a < 1100 \<Longrightarrow> chain fork_link (Some a) [a..<1100]"
proof (induction "1099 - a" arbitrary: a)
  case 0
  then have a: "a = 1099" by simp
  have "[1099..<1100] = [1099 :: nat]" by (simp add: upt_rec)
  then show ?case unfolding a by (simp add: fork_link_def)
next
  case (Suc n)
  then have "[a..<1100] = a # [Suc a..<1100]" by (intro upt_conv_Cons) simp
  moreover have "chain fork_link (Some (Suc a)) [Suc a..<1100]" using Suc by simp
  moreover have "fork_link a = Some (Suc a)" using Suc by (simp add: fork_link_def)
  ultimately show ?case by (simp only: chain.simps)
qed

lemma demo_fork_ptes [simp]:
  "present 0x2007" "frame 0x2007 = 2" "present 0x4805" "frame 0x4805 = 4"
  by (simp_all add: present_def PTE_P_def frame_def unat_PGNUM)

lemma demo_fork_refs:
  "refs demo_fork {1} p =
     (if p = 1 then {(1, 1024, 0)} else if p = 2 then {(1, 0, 1024)}
      else if p = 3 then {(1, 0, 0)} else if p = 4 then {(1, 0, 1)} else {})"
  by (auto simp: refs_def is_ref_def NUSER_eq split: if_splits)

lemma demo_fork_inv: "vm_inv demo_fork {1} fork_handles [5..<1100]"
proof -
  have "free_list_ok demo_fork [5..<1100]"
  proof -
    have "fork_link p = None" if "\<not> (5 \<le> p \<and> p < 1100)" for p using that by (auto simp: fork_link_def)
    then show ?thesis using fork_chain [of 5] by (auto simp: free_list_ok_def simp del: upt_rec_numeral)
  qed
  moreover have "tables_ok demo_fork {1}"
    by (auto simp: tables_ok_def NUSER_eq split: if_splits)
  moreover have "counts_ok demo_fork {1} fork_handles"
    unfolding counts_ok_def demo_fork_refs by auto
  ultimately show ?thesis by (simp add: vm_inv_def)
qed

lemma demo_fork_map:
  "user_va va \<Longrightarrow> vm_map demo_fork 1 va =
    (if unat (PGNUM va) = 0 then Some 0x3007 else if unat (PGNUM va) = 1 then Some 0x4805 else None)"
  by (auto simp: vm_map_def user_va_def NUSER_eq unat_PDX unat_PTX unat_PGNUM div_4194304)

lemma demo_fork_ok: "user_ok demo_fork {1} fork_handles [5..<1100] 0 1"
proof -
  have tab: "table_frame demo_fork {1} q \<longleftrightarrow> q = 1 \<or> q = 2" for q
    by (auto simp: table_frame_def NUSER_eq split: if_splits)
  have "runs_in demo_fork {1} 0 1"
  proof -
    have i: "unat (PDX UVPT) = 957" by (simp add: unat_PDX layout_values)
    have w: "(0x1005 :: 32 word) = page2pa 1 OR PTE_P OR PTE_U" by (simp add: page2pa_def layout_defs)
    have b: "bit (0x2007 :: 32 word) 1" "bit (0x2007 :: 32 word) 2" by (simp_all add: bit_numeral_rec numeral_2_eq_2)
    show ?thesis unfolding runs_in_def i using b by (auto simp: w NUSER_eq)
  qed
  moreover have "data_only demo_fork {1}"
    unfolding data_only_def tab using demo_fork_map by (auto simp del: demo_fork_sel split: if_splits)
  moreover have "refs_half demo_fork {1}"
    unfolding refs_half_def by (simp del: demo_fork_sel(10))
  moreover have "kernel_dir_ok demo_fork"
    unfolding kernel_dir_ok_def by simp
  moreover have "\<not> table_frame demo_fork {1} (kern_pgdir demo_fork)"
    unfolding tab by simp
  moreover have "kern_pgdir demo_fork \<notin> set [5..<1100]"
    by simp
  ultimately show ?thesis
    using demo_fork_inv unfolding user_ok_def by blast
qed

section \<open>The theorems\<close>

text \<open>
  C3. fork: with enough free memory for a page directory, the page tables of an address space and the exception
  stacks, it creates a runnable child in a new address space and returns its identifier. Below USTACKTOP the
  child maps exactly the pages the parent can use, and to the same frames; no contents change. Pages
  marked PTE_SHARE stay shared with their rights; of all other pages none is writable for the child,
  and those that were writable or copy-on-write are copy-on-write and read-only for both. No other
  environment's mappings change.
\<close>

theorem fork_correct:
  assumes "user_ok s D k xs c d" "env_free_list s = Some e" "e < NENV" "e \<noteq> c"
    and "pgfault_ptr u = 0 \<longrightarrow> vm_map s d (UXSTACKTOP - PGSIZE) = None" "NUSER + 5 \<le> length xs"
  shows "\<exists>u' t x zs. fork io upcall handler u s = Ret (sint (env_id (envs t e)), u') t \<and>
    0 < sint (env_id (envs t e)) \<and> env_status (envs t e) = ENV_RUNNABLE \<and>
    env_pgfault_upcall (envs t e) = upcall \<and> env_pgdir (envs t e) = Some x \<and> x \<notin> D \<and>
    vm_inv t (insert x D) k zs \<and> data_same s D xs t \<and>
    (\<forall>va < USTACKTOP.
       case vm_map s d va of
         None \<Rightarrow> vm_map t d va = None \<and> vm_map t x va = None
       | Some w \<Rightarrow>
           if w AND PTE_U = 0 then vm_map t d va = Some w \<and> vm_map t x va = None
           else \<exists>p q. vm_map t d va = Some p \<and> vm_map t x va = Some q \<and> cow_pair w p q) \<and>
    (\<forall>d' \<in> D. d' \<noteq> d \<longrightarrow> (\<forall>va. user_va va \<longrightarrow> vm_map t d' va = vm_map s d' va))"
proof -
  have stk: "pgfault_ptr u = 0 \<Longrightarrow> vm_map s d (UXSTACKTOP - PGSIZE) = None" using assms(5) by blast
  from fork_effect [OF assms(1-4) stk assms(6), where io = io and upcall = upcall and h = handler] obtain u' t x zs where
    t: "fork io upcall handler u s = Ret (sint (env_id (envs t e)), u') t \<and> 0 < sint (env_id (envs t e)) \<and>
      env_status (envs t e) = ENV_RUNNABLE \<and> env_pgfault_upcall (envs t e) = upcall \<and>
      env_pgdir (envs t e) = Some x \<and> x \<notin> D \<and> vm_inv t (insert x D) k zs \<and> data_same s D xs t"
    and maps: "\<forall>va < USTACKTOP. vm_map t d va = map_option parent_pte (vm_map s d va) \<and>
       vm_map t x va = (case vm_map s d va of None \<Rightarrow> None | Some w \<Rightarrow> if bit w 2 then Some (child_pte w) else None)"
    and other: "\<forall>d' \<in> D. d' \<noteq> d \<longrightarrow> (\<forall>va. user_va va \<longrightarrow> vm_map t d' va = vm_map s d' va)"
    by blast
  have inv: "vm_inv s D k xs" and d: "d \<in> D" using assms(1) by (simp_all add: user_ok_def runs_in_def)
  have "case vm_map s d va of
         None \<Rightarrow> vm_map t d va = None \<and> vm_map t x va = None
       | Some w \<Rightarrow>
           if w AND PTE_U = 0 then vm_map t d va = Some w \<and> vm_map t x va = None
           else \<exists>p q. vm_map t d va = Some p \<and> vm_map t x va = Some q \<and> cow_pair w p q"
    if va: "va < USTACKTOP" for va
  proof (cases "vm_map s d va")
    case None
    then show ?thesis using maps va by simp
  next
    case (Some w)
    have "user_va va" using va by (intro user_va_UTOP) (simp add: layout_values word_less_nat_alt)
    then have "frame w < 2 ^ 20" using mapped_page(1) [OF inv d _ Some] vm_inv_npages [OF inv] by simp
    then show ?thesis
      using maps va Some cow_pair_ptes [of w] by (auto simp: and_PTE0 parent_pte_def)
  qed
  then show ?thesis using t other by blast
qed

theorem fork_correct_witness:
  "\<forall>io. \<exists>u' t x q. fork io 0x800020 0x800100 \<lparr>pgfault_ptr = 0, thisenv = 0\<rparr> demo_fork = Ret (sint (env_id (envs t 1)), u') t \<and>
     env_status (envs t 1) = ENV_RUNNABLE \<and> env_pgdir (envs t 1) = Some x \<and>
     vm_map t x 0 = Some q \<and> frame q = 3 \<and> q AND PTE_W = 0"
proof
  fix io
  have ux: "user_va (UXSTACKTOP - PGSIZE)" by (intro user_va_UTOP) (simp add: layout_values PGSIZE_def)
  have st: "vm_map demo_fork 1 (UXSTACKTOP - PGSIZE) = None"
    unfolding demo_fork_map [OF ux] by (simp add: unat_PGNUM layout_values PGSIZE_def)
  have z: "vm_map demo_fork 1 0 = Some 0x3007" using demo_fork_map [of 0] user_va_0 by (simp add: unat_PGNUM)
  have lt: "(0 :: 32 word) < USTACKTOP" by (simp add: layout_values)
  have "\<exists>u' t x zs. fork io 0x800020 0x800100 \<lparr>pgfault_ptr = 0, thisenv = 0\<rparr> demo_fork
      = Ret (sint (env_id (envs t 1)), u') t \<and>
    0 < sint (env_id (envs t 1)) \<and> env_status (envs t 1) = ENV_RUNNABLE \<and>
    env_pgfault_upcall (envs t 1) = 0x800020 \<and> env_pgdir (envs t 1) = Some x \<and> x \<notin> {1} \<and>
    vm_inv t (insert x {1}) fork_handles zs \<and> data_same demo_fork {1} [5..<1100] t \<and>
    (\<forall>va < USTACKTOP.
       case vm_map demo_fork 1 va of
         None \<Rightarrow> vm_map t 1 va = None \<and> vm_map t x va = None
       | Some w \<Rightarrow>
           if w AND PTE_U = 0 then vm_map t 1 va = Some w \<and> vm_map t x va = None
           else \<exists>p q. vm_map t 1 va = Some p \<and> vm_map t x va = Some q \<and> cow_pair w p q) \<and>
    (\<forall>d' \<in> {1}. d' \<noteq> 1 \<longrightarrow> (\<forall>va. user_va va \<longrightarrow> vm_map t d' va = vm_map demo_fork d' va))"
    by (rule fork_correct [OF demo_fork_ok]) (use st in \<open>simp_all add: NENV_def NUSER_eq\<close>)
  then obtain u' t x where t: "fork io 0x800020 0x800100 \<lparr>pgfault_ptr = 0, thisenv = 0\<rparr> demo_fork
      = Ret (sint (env_id (envs t 1)), u') t" "env_status (envs t 1) = ENV_RUNNABLE" "env_pgdir (envs t 1) = Some x"
    and m: "\<forall>va < USTACKTOP.
       case vm_map demo_fork 1 va of
         None \<Rightarrow> vm_map t 1 va = None \<and> vm_map t x va = None
       | Some w \<Rightarrow>
           if w AND PTE_U = 0 then vm_map t 1 va = Some w \<and> vm_map t x va = None
           else \<exists>p q. vm_map t 1 va = Some p \<and> vm_map t x va = Some q \<and> cow_pair w p q"
    by blast
  have fl: "(0x3007 :: 32 word) AND PTE_U \<noteq> 0" "(0x3007 :: 32 word) AND PTE_SHARE = 0" "(0x3007 :: 32 word) AND PTE_W \<noteq> 0"
    by (simp_all add: layout_defs)
  obtain p q where "vm_map t x 0 = Some q" "cow_pair 0x3007 p q"
    using m [rule_format, OF lt] fl(1) unfolding z by auto
  then show "\<exists>u' t x q. fork io 0x800020 0x800100 \<lparr>pgfault_ptr = 0, thisenv = 0\<rparr> demo_fork = Ret (sint (env_id (envs t 1)), u') t \<and>
     env_status (envs t 1) = ENV_RUNNABLE \<and> env_pgdir (envs t 1) = Some x \<and>
     vm_map t x 0 = Some q \<and> frame q = 3 \<and> q AND PTE_W = 0"
    using t fl by (auto simp: cow_pair_def)
qed

text \<open>
  C4. The page fault handler, on a write to a copy-on-write page, with memory left: it maps a page that was free,
  readable and writable, at the faulting page, with the contents of the old one. No other mapping
  of this or any other environment changes, nor the contents of any page in use.
\<close>

theorem pgfault_correct:
  assumes "vm_inv s D k xs" "runs_in s D c d" "data_only s D"
    and "va < UTOP" "PGNUM va \<noteq> PGNUM PFTEMP" "vm_map s d va = Some w"
    and "w AND PTE_COW \<noteq> 0" "w AND PTE_U \<noteq> 0" "err AND FEC_WR \<noteq> 0" "vm_map s d PFTEMP = None" "2 \<le> length xs"
  shows "\<exists>t ys pp. pgfault io va err s = Ret () t \<and> vm_inv t D k ys \<and> pp \<in> set xs \<and> data_same s D xs t \<and>
    (\<forall>i < 1024. mem t pp i = mem s (frame w) i) \<and>
    (\<forall>d' \<in> D. \<forall>va'. user_va va' \<longrightarrow>
       vm_map t d' va' = (if d' = d \<and> PGNUM va' = PGNUM va then Some (page2pa pp OR PTE_RW OR PTE_P)
                          else vm_map s d' va'))"
proof -
  have room: "xs \<noteq> []" "present (mem s d (unat (PDX PFTEMP))) \<or> tl xs \<noteq> []" using assms(11) by (cases xs; auto)+
  show ?thesis
    using pgfault_effect [OF assms(1-6) _ _ _ assms(10) room, of err io] assms(7-9) unfolding and_PTE by blast
qed

theorem pgfault_correct_witness:
  "\<forall>io. \<exists>t pp. pgfault io 0x1234 2 demo_fork = Ret () t \<and> pp \<in> set [5..<1100] \<and>
     vm_map t 1 0x1234 = Some (page2pa pp OR PTE_RW OR PTE_P) \<and> vm_map t 1 0 = Some 0x3007"
proof
  fix io
  have u: "user_va 0x1234" "user_va 0" by (intro user_va_UTOP, simp add: layout_values)+
  have m: "vm_map demo_fork 1 0x1234 = Some 0x4805" "vm_map demo_fork 1 0 = Some 0x3007" "vm_map demo_fork 1 PFTEMP = None"
    using demo_fork_map [OF u(1)] demo_fork_map [OF u(2)] demo_fork_map [OF PFTEMP_facts(3)]
    by (simp_all add: unat_PGNUM layout_values)
  have ne: "PGNUM 0 \<noteq> PGNUM 0x1234" and ne': "PGNUM 0x1234 \<noteq> PGNUM PFTEMP" and va: "(0x1234 :: 32 word) < UTOP"
    by (simp_all add: PGNUM_def layout_values)
  have fl: "(0x4805 :: 32 word) AND PTE_COW \<noteq> 0" "(0x4805 :: 32 word) AND PTE_U \<noteq> 0" "(2 :: 32 word) AND FEC_WR \<noteq> 0"
    by (simp_all add: layout_defs)
  have ok: "runs_in demo_fork {1} 0 1" "data_only demo_fork {1}" using demo_fork_ok by (simp_all only: user_ok_def)
  have len: "2 \<le> length [5..<1100]" by simp
  have "\<exists>t ys pp. pgfault io 0x1234 2 demo_fork = Ret () t \<and> vm_inv t {1} fork_handles ys \<and> pp \<in> set [5..<1100] \<and>
    data_same demo_fork {1} [5..<1100] t \<and> (\<forall>i < 1024. mem t pp i = mem demo_fork (frame 0x4805) i) \<and>
    (\<forall>d' \<in> {1}. \<forall>va'. user_va va' \<longrightarrow>
       vm_map t d' va' = (if d' = 1 \<and> PGNUM va' = PGNUM 0x1234 then Some (page2pa pp OR PTE_RW OR PTE_P)
                          else vm_map demo_fork d' va'))"
    by (rule pgfault_correct [OF demo_fork_inv ok va ne' m(1) fl m(3) len])
  then obtain t pp where t: "pgfault io 0x1234 2 demo_fork = Ret () t" "pp \<in> set [5..<1100]"
    and all: "\<forall>d' \<in> {1}. \<forall>va'. user_va va' \<longrightarrow>
       vm_map t d' va' = (if d' = 1 \<and> PGNUM va' = PGNUM 0x1234 then Some (page2pa pp OR PTE_RW OR PTE_P)
                          else vm_map demo_fork d' va')"
    by blast
  note mt = bspec [OF all singletonI, rule_format]
  have "vm_map t 1 0x1234 = Some (page2pa pp OR PTE_RW OR PTE_P)" "vm_map t 1 0 = Some 0x3007"
    using mt [OF u(1)] mt [OF u(2)] m(2) ne by (simp_all only: simp_thms if_True if_False)
  then show "\<exists>t pp. pgfault io 0x1234 2 demo_fork = Ret () t \<and> pp \<in> set [5..<1100] \<and>
     vm_map t 1 0x1234 = Some (page2pa pp OR PTE_RW OR PTE_P) \<and> vm_map t 1 0 = Some 0x3007"
    using t by blast
qed

end
