(* ===== verification/Kdebug.thy ===== *)
theory Kdebug
  imports Pmap Strings "HOL-Library.Signed_Division"
begin

text \<open>
  The STABS debugging information of kern/kdebug.c (inc/stab.h, kern/kdebug.h): the binary search
  for the entry of a type that contains an address, the description of an instruction address and
  the look-up of a function by name. The tables are in memory as the kernel sees it, and
  a table is its base address; the bounds of the kernel's own tables, which the linker
  provides, are parameters. A read of an address that is not mapped is outside the model.
\<close>

section \<open>The table\<close>

record Stab =
  n_strx :: "32 word"
  n_type :: "8 word"
  n_other :: "8 word"
  n_desc :: "16 word"
  n_value :: "32 word"

definition N_FUN :: "8 word" where "N_FUN = 0x24"
definition N_SLINE :: "8 word" where "N_SLINE = 0x44"
definition N_SO :: "8 word" where "N_SO = 0x64"
definition N_SOL :: "8 word" where "N_SOL = 0x84"
definition N_PSYM :: "8 word" where "N_PSYM = 0xa0"

text \<open>The element i of the table at base, 12 bytes long, and the number of elements between two addresses.\<close>

definition stab_at :: "mem \<Rightarrow> 32 word \<Rightarrow> int \<Rightarrow> Stab" where
  "stab_at m base i =
     (let a = base + 12 * word_of_int i
      in \<lparr>n_strx = fetch4 m a, n_type = m (a + 4), n_other = m (a + 5),
          n_desc = ucast (m (a + 6)) OR push_bit 8 (ucast (m (a + 7))), n_value = fetch4 m (a + 8)\<rparr>)"

definition stab_count :: "32 word \<Rightarrow> 32 word \<Rightarrow> int" where
  "stab_count base limit = sint (limit - base) div 12"

section \<open>stab_binsearch\<close>

text \<open>The inner loop: downwards from m to an entry of the type, or to the one before l.\<close>

function stab_back :: "(int \<Rightarrow> Stab) \<Rightarrow> 8 word \<Rightarrow> int \<Rightarrow> int \<Rightarrow> int" where
  "stab_back stabs ty l m = (if m \<ge> l \<and> n_type (stabs m) \<noteq> ty then stab_back stabs ty l (m - 1) else m)"
  by pat_completeness auto
termination by (relation "measure (\<lambda>(stabs, ty, l, m). nat (m - l + 1))") auto

declare stab_back.simps [simp del]

lemma stab_back_result:
  "stab_back stabs ty l m \<le> m \<and> (\<forall>i. stab_back stabs ty l m < i \<and> i \<le> m \<longrightarrow> n_type (stabs i) \<noteq> ty) \<and>
   (l \<le> stab_back stabs ty l m \<longrightarrow> n_type (stabs (stab_back stabs ty l m)) = ty) \<and>
   (l \<le> m + 1 \<longrightarrow> l - 1 \<le> stab_back stabs ty l m)"
proof (induction stabs ty l m rule: stab_back.induct)
  case (1 stabs ty l m)
  show ?case
  proof (cases "m \<ge> l \<and> n_type (stabs m) \<noteq> ty")
    case True
    then have "stab_back stabs ty l m = stab_back stabs ty l (m - 1)" by (subst stab_back.simps) simp
    then show ?thesis using 1 [OF True] True by (smt (verit))
  next
    case False
    then have "stab_back stabs ty l m = m" by (subst stab_back.simps) (simp only: if_False)
    then show ?thesis using False by auto
  qed
qed

lemma half_between: "l \<le> r \<Longrightarrow> l \<le> (l + r) sdiv 2 \<and> (l + r) sdiv 2 \<le> (r :: int)"
  by (cases "l + r \<ge> 0") (auto simp: signed_divide_int_def sgn_if)

text \<open>The state of the outer loop: region_left, region_right, l, r, any_matches and addr.\<close>

record bsearch =
  bs_left :: int
  bs_right :: int
  bs_l :: int
  bs_r :: int
  bs_any :: bool
  bs_addr :: "32 word"

definition bs_step :: "(int \<Rightarrow> Stab) \<Rightarrow> 8 word \<Rightarrow> bsearch \<Rightarrow> bsearch" where
  "bs_step stabs ty b =
     (let true_m = (bs_l b + bs_r b) sdiv 2; m = stab_back stabs ty (bs_l b) true_m
      in if m < bs_l b then b\<lparr>bs_l := true_m + 1\<rparr>
         else if n_value (stabs m) < bs_addr b then b\<lparr>bs_any := True, bs_left := m, bs_l := true_m + 1\<rparr>
         else if n_value (stabs m) > bs_addr b then b\<lparr>bs_any := True, bs_right := m - 1, bs_r := m - 1\<rparr>
         else b\<lparr>bs_any := True, bs_left := m, bs_l := m, bs_addr := bs_addr b + 1\<rparr>)"

definition bs_mid :: "(int \<Rightarrow> Stab) \<Rightarrow> 8 word \<Rightarrow> bsearch \<Rightarrow> int" where
  "bs_mid stabs ty b = stab_back stabs ty (bs_l b) ((bs_l b + bs_r b) sdiv 2)"

text \<open>
  After an exact match the left end may stay where it is, but then the address has moved on,
  and the same entry is no exact match again.
\<close>

definition bs_measure :: "(int \<Rightarrow> Stab) \<Rightarrow> 8 word \<Rightarrow> bsearch \<Rightarrow> nat" where
  "bs_measure stabs ty b =
     2 * nat (bs_r b - bs_l b + 1) + (if n_value (stabs (bs_mid stabs ty b)) = bs_addr b then 1 else 0)"

lemma bs_step_measure:
  assumes "bs_l b \<le> bs_r b"
  shows "bs_measure stabs ty (bs_step stabs ty b) < bs_measure stabs ty b"
proof -
  let ?t = "(bs_l b + bs_r b) sdiv 2" and ?m = "bs_mid stabs ty b"
  have t: "bs_l b \<le> ?t" "?t \<le> bs_r b" using half_between [OF assms] by simp_all
  have m: "?m \<le> ?t" using stab_back_result [of stabs ty "bs_l b" ?t] by (simp add: bs_mid_def)
  consider "?m < bs_l b" | "bs_l b \<le> ?m" "n_value (stabs ?m) < bs_addr b" | "bs_l b \<le> ?m" "n_value (stabs ?m) > bs_addr b"
    | "bs_l b \<le> ?m" "n_value (stabs ?m) = bs_addr b" by fastforce
  then show ?thesis
  proof cases
    case 4
    let ?b = "bs_step stabs ty b"
    have b: "bs_l ?b = ?m" "bs_r ?b = bs_r b" "bs_addr ?b = bs_addr b + 1"
      using 4 by (simp_all add: bs_step_def bs_mid_def Let_def)
    show ?thesis
    proof (cases "?m = bs_l b")
      case True
      then have "bs_mid stabs ty ?b = ?m" using b by (simp add: bs_mid_def)
      then show ?thesis using b 4 True by (simp add: bs_measure_def)
    next
      case False
      then show ?thesis using b 4 t m by (auto simp: bs_measure_def)
    qed
  qed (use t m in \<open>auto simp: bs_measure_def bs_step_def bs_mid_def Let_def\<close>)
qed

function bs_loop :: "(int \<Rightarrow> Stab) \<Rightarrow> 8 word \<Rightarrow> bsearch \<Rightarrow> bsearch" where
  "bs_loop stabs ty b = (if bs_l b \<le> bs_r b then bs_loop stabs ty (bs_step stabs ty b) else b)"
  by pat_completeness auto
termination by (relation "measure (\<lambda>(stabs, ty, b). bs_measure stabs ty b)") (auto intro: bs_step_measure)

declare bs_loop.simps [simp del]

text \<open>The last loop, downwards from region_right to region_left, and the search.\<close>

function bs_last :: "(int \<Rightarrow> Stab) \<Rightarrow> 8 word \<Rightarrow> int \<Rightarrow> int \<Rightarrow> int" where
  "bs_last stabs ty left l = (if l > left \<and> n_type (stabs l) \<noteq> ty then bs_last stabs ty left (l - 1) else l)"
  by pat_completeness auto
termination by (relation "measure (\<lambda>(stabs, ty, left, l). nat (l - left))") auto

declare bs_last.simps [simp del]

definition stab_binsearch :: "(int \<Rightarrow> Stab) \<Rightarrow> int \<Rightarrow> int \<Rightarrow> 8 word \<Rightarrow> 32 word \<Rightarrow> int \<times> int" where
  "stab_binsearch stabs left right ty addr =
     (let b = bs_loop stabs ty \<lparr>bs_left = left, bs_right = right, bs_l = left, bs_r = right, bs_any = False, bs_addr = addr\<rparr>
      in if \<not> bs_any b then (bs_left b, bs_left b - 1)
         else (bs_last stabs ty (bs_left b) (bs_right b), bs_right b))"


section \<open>debuginfo_eip and find_function\<close>

text \<open>A string pointer; None is the literal ''<unknown>''.\<close>

record Eipdebuginfo =
  eip_file :: "32 word option"
  eip_line :: int
  eip_fn_name :: "32 word option"
  eip_fn_namelen :: int
  eip_fn_addr :: "32 word"
  eip_fn_narg :: int

definition unknown_info :: "32 word \<Rightarrow> Eipdebuginfo" where
  "unknown_info addr = \<lparr>eip_file = None, eip_line = 0, eip_fn_name = None, eip_fn_namelen = 9,
     eip_fn_addr = addr, eip_fn_narg = 0\<rparr>"

record stab_tables =
  st_stabs :: "32 word"
  st_stab_end :: "32 word"
  st_stabstr :: "32 word"
  st_stabstr_end :: "32 word"

text \<open>
  The tables to search: the kernel's own, or the user program's, whose bounds are at USTABDATA. The
  check covers the first entry only. Inl is the return code of a refused address.
\<close>

definition find_tables :: "stab_tables \<Rightarrow> mem \<Rightarrow> 32 word \<Rightarrow> kstate \<Rightarrow> (int + stab_tables, kstate) kres" where
  "find_tables kern m addr s =
     (if addr \<ge> ULIM then Ret (Inr kern) s
      else (case curenv s of
          None \<Rightarrow> Exit Fault s
        | Some e \<Rightarrow>
            kbind (user_mem_check e USTABDATA 16 PTE_U s) (\<lambda>r s.
              if r \<noteq> 0 then Ret (Inl (- 1)) s
              else
                (let t = \<lparr>st_stabs = fetch4 m USTABDATA, st_stab_end = fetch4 m (USTABDATA + 4),
                          st_stabstr = fetch4 m (USTABDATA + 8), st_stabstr_end = fetch4 m (USTABDATA + 12)\<rparr>
                 in kbind (user_mem_check e (st_stabs t) 12 PTE_U s) (\<lambda>r s.
                      if r \<noteq> 0 then Ret (Inl (- 1)) s
                      else kbind (user_mem_check e (st_stabstr t) (st_stabstr_end t - st_stabstr t) PTE_U s) (\<lambda>r s.
                        if r \<noteq> 0 then Ret (Inl (- 1)) s else Ret (Inr t) s))))))"

text \<open>Backwards from the line's entry to the one that names its source file.\<close>

function stab_file :: "(int \<Rightarrow> Stab) \<Rightarrow> int \<Rightarrow> int \<Rightarrow> int" where
  "stab_file stabs lfile lline =
     (if lline \<ge> lfile \<and> n_type (stabs lline) \<noteq> N_SOL \<and> (n_type (stabs lline) \<noteq> N_SO \<or> n_value (stabs lline) = 0)
      then stab_file stabs lfile (lline - 1) else lline)"
  by pat_completeness auto
termination by (relation "measure (\<lambda>(stabs, lfile, lline). nat (lline - lfile + 1))") auto

declare stab_file.simps [simp del]

text \<open>The number of parameter entries from lline up to, but without, rfun.\<close>

function stab_args :: "(int \<Rightarrow> Stab) \<Rightarrow> int \<Rightarrow> int \<Rightarrow> int" where
  "stab_args stabs rfun lline =
     (if lline < rfun \<and> n_type (stabs lline) = N_PSYM then 1 + stab_args stabs rfun (lline + 1) else 0)"
  by pat_completeness auto
termination by (relation "measure (\<lambda>(stabs, rfun, lline). nat (rfun - lline))") auto

declare stab_args.simps [simp del]

text \<open>strfind(name, ':') - name; None when the string never ends.\<close>

definition name_length :: "mem \<Rightarrow> 32 word option \<Rightarrow> 32 word option" where
  "name_length m name =
     (case name of None \<Rightarrow> Some 9 | Some a \<Rightarrow> map_option (\<lambda>e. e - a) (strfind m a 0x3A))"

definition describe :: "mem \<Rightarrow> stab_tables \<Rightarrow> 32 word \<Rightarrow> (int \<times> Eipdebuginfo) option" where
  "describe m t addr =
     (let info = unknown_info addr; stabs = stab_at m (st_stabs t); len = st_stabstr_end t - st_stabstr t;
          text = \<lambda>i. if n_strx (stabs i) < len then Some (st_stabstr t + n_strx (stabs i)) else None
      in if st_stabstr_end t \<le> st_stabstr t \<or> m (st_stabstr_end t - 1) \<noteq> 0 then Some (- 1, info)
         else (case stab_binsearch stabs 0 (stab_count (st_stabs t) (st_stab_end t) - 1) N_SO addr of (lfile, rfile) \<Rightarrow>
           if lfile = 0 then Some (- 1, info)
           else (case stab_binsearch stabs lfile rfile N_FUN addr of (lfun, rfun) \<Rightarrow>
             (let found = lfun \<le> rfun;
                  info = (if found then info\<lparr>eip_fn_name := text lfun, eip_fn_addr := n_value (stabs lfun)\<rparr>
                          else info\<lparr>eip_fn_addr := addr\<rparr>);
                  addr = (if found then addr - n_value (stabs lfun) else addr);
                  (l, r) = (if found then (lfun, rfun) else (lfile, rfile))
              in case name_length m (eip_fn_name info) of
                   None \<Rightarrow> None
                 | Some n \<Rightarrow>
                     (let info = info\<lparr>eip_fn_namelen := sint n\<rparr>
                      in case stab_binsearch stabs l r N_SLINE addr of (lline, rline) \<Rightarrow>
                           if lline > rline then Some (- 1, info)
                           else
                             (let k = stab_file stabs lfile lline
                              in Some (0, info\<lparr>eip_line := uint (n_desc (stabs lline)),
                                   eip_file := (if k \<ge> lfile then text k else None),
                                   eip_fn_narg := (if lfun < rfun then stab_args stabs rfun (lfun + 1) else 0)\<rparr>)))))))"

text \<open>A string that never ends keeps the processor in strfind for ever.\<close>

definition debuginfo_eip ::
    "stab_tables \<Rightarrow> mem \<Rightarrow> 32 word \<Rightarrow> kstate \<Rightarrow> (int \<times> Eipdebuginfo, kstate) kres" where
  "debuginfo_eip kern m addr s =
     kbind (find_tables kern m addr s) (\<lambda>t s.
       case t of
         Inl r \<Rightarrow> Ret (r, unknown_info addr) s
       | Inr t \<Rightarrow> (case describe m t addr of None \<Rightarrow> Exit Spins s | Some x \<Rightarrow> Ret x s))"

fun find_in :: "mem \<Rightarrow> 32 word \<Rightarrow> 32 word \<Rightarrow> stab_tables \<Rightarrow> int list \<Rightarrow> 32 word option" where
  "find_in m fname len t [] = Some 0"
| "find_in m fname len t (i # is) =
     (let stab = stab_at m (st_stabs t) i; str = st_stabstr t + n_strx stab
      in case strfind m str 0x3A of
           None \<Rightarrow> None
         | Some e \<Rightarrow>
             if n_type stab = N_FUN \<and> len = e - str \<and> strncmp m fname str (e - str) = 0 then Some (n_value stab)
             else find_in m fname len t is)"

definition find_function :: "stab_tables \<Rightarrow> mem \<Rightarrow> 32 word \<Rightarrow> 32 word option" where
  "find_function kern m fname =
     (case strlen m fname of
        None \<Rightarrow> None
      | Some len \<Rightarrow> find_in m fname len kern (map int [0..<nat (stab_count (st_stabs kern) (st_stab_end kern))]))"

section \<open>What the search finds\<close>

text \<open>
  The contract in the comment of the source: l is the entry of the type that contains the address and r is
  just before the next entry of the type.
\<close>

definition typed_in :: "(int \<Rightarrow> Stab) \<Rightarrow> 8 word \<Rightarrow> int \<Rightarrow> int \<Rightarrow> int set" where
  "typed_in stabs ty L R = {i. L \<le> i \<and> i \<le> R \<and> n_type (stabs i) = ty}"

definition brackets :: "(int \<Rightarrow> Stab) \<Rightarrow> 8 word \<Rightarrow> int \<Rightarrow> int \<Rightarrow> 32 word \<Rightarrow> int \<Rightarrow> int \<Rightarrow> bool" where
  "brackets stabs ty L R addr l r \<longleftrightarrow>
     l \<in> typed_in stabs ty L R \<and> n_value (stabs l) \<le> addr \<and> l \<le> r \<and> r \<le> R \<and>
     typed_in stabs ty (l + 1) r = {} \<and>
     (r < R \<longrightarrow> n_type (stabs (r + 1)) = ty \<and> addr < n_value (stabs (r + 1)))"

definition bs_inv :: "(int \<Rightarrow> Stab) \<Rightarrow> 8 word \<Rightarrow> int \<Rightarrow> int \<Rightarrow> 32 word \<Rightarrow> bsearch \<Rightarrow> bool" where
  "bs_inv stabs ty L R addr b \<longleftrightarrow>
     L \<le> bs_l b \<and> bs_r b \<le> R \<and> bs_right b = bs_r b \<and>
     (bs_r b = R \<or> L \<le> bs_r b + 1 \<and> bs_r b < R \<and> n_type (stabs (bs_r b + 1)) = ty \<and> addr < n_value (stabs (bs_r b + 1))) \<and>
     (bs_left b = L \<and> typed_in stabs ty L (bs_l b - 1) = {} \<and> (\<not> bs_any b \<longrightarrow> bs_r b = R) \<and> bs_addr b = addr \<and>
        (bs_any b \<longrightarrow> bs_r b < R) \<or>
      bs_any b \<and> L \<le> bs_left b \<and> bs_left b \<le> bs_r b \<and> bs_left b \<le> bs_l b \<and> n_type (stabs (bs_left b)) = ty \<and>
        n_value (stabs (bs_left b)) \<le> addr \<and> typed_in stabs ty (bs_left b + 1) (bs_l b - 1) = {}) \<and>
     (bs_addr b = addr \<or> bs_addr b = addr + 1 \<and> (\<exists>i \<in> typed_in stabs ty L R. n_value (stabs i) = addr))"

lemma word_less_inc: "addr + 1 \<noteq> 0 \<Longrightarrow> (v < addr + 1) = (v \<le> (addr :: 32 word))"
  using unatSuc [of addr] by (simp add: word_less_nat_alt word_le_nat_alt add.commute less_Suc_eq_le)

lemma typed_in_iff: "i \<in> typed_in stabs ty L R \<longleftrightarrow> L \<le> i \<and> i \<le> R \<and> n_type (stabs i) = ty"
  by (simp add: typed_in_def)

lemma typed_in_empty: "typed_in stabs ty L R = {} \<longleftrightarrow> (\<forall>i. L \<le> i \<and> i \<le> R \<longrightarrow> n_type (stabs i) \<noteq> ty)"
  by (auto simp: typed_in_def)

lemma bs_step_inv:
  assumes inv: "bs_inv stabs ty L R addr b" and le: "bs_l b \<le> bs_r b" and nz: "addr + 1 \<noteq> 0"
    and apart: "\<And>i j. i \<in> typed_in stabs ty L R \<Longrightarrow> j \<in> typed_in stabs ty L R \<Longrightarrow> n_value (stabs i) = addr
      \<Longrightarrow> n_value (stabs j) \<noteq> addr + 1"
  shows "bs_inv stabs ty L R addr (bs_step stabs ty b)"
proof -
  let ?t = "(bs_l b + bs_r b) sdiv 2" and ?m = "bs_mid stabs ty b"
  have t: "bs_l b \<le> ?t" "?t \<le> bs_r b" using half_between [OF le] by simp_all
  have m: "?m \<le> ?t" "\<And>i. ?m < i \<Longrightarrow> i \<le> ?t \<Longrightarrow> n_type (stabs i) \<noteq> ty" "bs_l b \<le> ?m \<Longrightarrow> n_type (stabs ?m) = ty"
    using stab_back_result [of stabs ty "bs_l b" ?t] by (simp_all add: bs_mid_def)
  have range: "L \<le> bs_l b" "bs_r b \<le> R" and eq: "bs_right b = bs_r b" using inv by (simp_all add: bs_inv_def)
  have addr: "bs_addr b = addr \<or> bs_addr b = addr + 1 \<and> (\<exists>i \<in> typed_in stabs ty L R. n_value (stabs i) = addr)"
    using inv by (simp add: bs_inv_def)
  have in_m: "?m \<in> typed_in stabs ty L R" if "bs_l b \<le> ?m" using that m t range by (simp add: typed_in_iff)
  have addr': "bs_addr b = addr \<or> bs_addr b = addr + 1" using addr by blast
  have inc: "(v < addr + 1) = (v \<le> addr)" for v using word_less_inc [OF nz] .
  have below: "n_value (stabs i) \<le> addr" if "n_value (stabs i) < bs_addr b" for i
    using addr' that by (elim disjE) (simp_all only: inc order_less_imp_le)
  have above: "n_value (stabs i) > addr" if "n_value (stabs i) > bs_addr b" for i
    using addr' that inc [of addr] by (elim disjE) (simp, metis order.refl order_less_trans)
  have at_addr: "bs_addr b = addr" if "bs_l b \<le> ?m" "n_value (stabs ?m) = bs_addr b"
    using addr apart in_m [OF that(1)] that(2) by metis
  consider (none) "?m < bs_l b" | (less) "bs_l b \<le> ?m" "n_value (stabs ?m) < bs_addr b"
    | (greater) "bs_l b \<le> ?m" "n_value (stabs ?m) > bs_addr b"
    | (exact) "bs_l b \<le> ?m" "n_value (stabs ?m) = bs_addr b" by fastforce
  then show ?thesis
  proof cases
    case none
    then have b: "bs_step stabs ty b = b\<lparr>bs_l := ?t + 1\<rparr>" by (simp add: bs_step_def bs_mid_def Let_def)
    have "n_type (stabs i) \<noteq> ty" if "bs_l b \<le> i" "i \<le> ?t" for i using m(2) none that by simp
    then show ?thesis using inv t unfolding b by (simp add: bs_inv_def typed_in_empty) (smt (verit))
  next
    case less
    then have b: "bs_step stabs ty b = b\<lparr>bs_any := True, bs_left := ?m, bs_l := ?t + 1\<rparr>"
      by (simp add: bs_step_def bs_mid_def Let_def)
    have gap: "\<forall>i. ?m + 1 \<le> i \<and> i < ?t + 1 \<longrightarrow> n_type (stabs i) \<noteq> ty" using m(2) by simp
    have v: "n_value (stabs ?m) \<le> addr" using below [OF less(2)] .
    show ?thesis using inv t m(1,3) less v gap range unfolding b bs_inv_def by (simp add: typed_in_empty)
  next
    case greater
    then have b: "bs_step stabs ty b = b\<lparr>bs_any := True, bs_right := ?m - 1, bs_r := ?m - 1\<rparr>"
      by (simp add: bs_step_def bs_mid_def Let_def)
    have "bs_left b \<noteq> ?m" if "n_value (stabs (bs_left b)) \<le> addr"
      using that above [OF greater(2)] by auto
    then show ?thesis
      using inv t m greater above unfolding b by (simp add: bs_inv_def typed_in_empty) (smt (verit))
  next
    case exact
    then have b: "bs_step stabs ty b = b\<lparr>bs_any := True, bs_left := ?m, bs_l := ?m, bs_addr := bs_addr b + 1\<rparr>"
      by (simp add: bs_step_def bs_mid_def Let_def)
    have v: "bs_addr b = addr" "n_value (stabs ?m) = addr" using exact at_addr by simp_all
    then have ex: "\<exists>i \<in> typed_in stabs ty L R. n_value (stabs i) = addr" using in_m exact(1) by blast
    have gap: "\<forall>i. ?m + 1 \<le> i \<and> i < ?m \<longrightarrow> n_type (stabs i) \<noteq> ty" by auto
    show ?thesis using inv t m(1,3) exact(1) v ex gap range unfolding b bs_inv_def by (simp add: typed_in_empty)
  qed
qed

lemma bs_loop_inv:
  assumes "bs_inv stabs ty L R addr b" "addr + 1 \<noteq> 0"
    and "\<And>i j. i \<in> typed_in stabs ty L R \<Longrightarrow> j \<in> typed_in stabs ty L R \<Longrightarrow> n_value (stabs i) = addr
      \<Longrightarrow> n_value (stabs j) \<noteq> addr + 1"
  shows "bs_inv stabs ty L R addr (bs_loop stabs ty b) \<and> \<not> bs_l (bs_loop stabs ty b) \<le> bs_r (bs_loop stabs ty b)"
  using assms(1)
proof (induction "bs_measure stabs ty b" arbitrary: b rule: less_induct)
  case less
  show ?case
  proof (cases "bs_l b \<le> bs_r b")
    case True
    then have e: "bs_loop stabs ty b = bs_loop stabs ty (bs_step stabs ty b)" by (subst bs_loop.simps) simp
    have "bs_inv stabs ty L R addr (bs_step stabs ty b)"
      by (rule bs_step_inv [OF less(2) True assms(2)]) (rule assms(3))
    then show ?thesis unfolding e by (rule less(1) [OF bs_step_measure [OF True]])
  next
    case False
    then have "bs_loop stabs ty b = b" by (subst bs_loop.simps) simp
    then show ?thesis using less(2) False by simp
  qed
qed


lemma bs_last_none: "typed_in stabs ty (left + 1) l = {} \<Longrightarrow> bs_last stabs ty left l = min left l"
proof (induction stabs ty left l rule: bs_last.induct)
  case (1 stabs ty left l)
  show ?case
  proof (cases "l > left")
    case True
    then have t: "n_type (stabs l) \<noteq> ty" using 1(2) by (auto simp: typed_in_empty)
    then have "bs_last stabs ty left l = bs_last stabs ty left (l - 1)" using True by (subst bs_last.simps) simp
    moreover have "typed_in stabs ty (left + 1) (l - 1) = {}" using 1(2) by (auto simp: typed_in_empty)
    ultimately show ?thesis using 1 True t by simp
  next
    case False
    then show ?thesis by (subst bs_last.simps) simp
  qed
qed

text \<open>
  C8. stab_binsearch, in a table whose entries of the type are in the order of their addresses and with no
  entry exactly one byte after one for the address: if the range has no entry of the type it returns a
  left end above the right one; if one is at or below the address it returns the last such entry and the
  end just before the next one. If all are above the address, the right end is
  just before the first of them and the left end is not above it, contrary to the comment.
\<close>

theorem stab_binsearch_correct:
  assumes sorted: "\<And>i j. i \<in> typed_in stabs ty L R \<Longrightarrow> j \<in> typed_in stabs ty L R \<Longrightarrow> i < j
      \<Longrightarrow> n_value (stabs i) \<le> n_value (stabs j)"
    and apart: "\<And>i j. i \<in> typed_in stabs ty L R \<Longrightarrow> j \<in> typed_in stabs ty L R \<Longrightarrow> n_value (stabs i) = addr
      \<Longrightarrow> n_value (stabs j) \<noteq> addr + 1"
    and "addr + 1 \<noteq> 0"
  shows "case stab_binsearch stabs L R ty addr of (l, r) \<Rightarrow>
    if typed_in stabs ty L R = {} then l = L \<and> r = L - 1
    else if \<exists>i \<in> typed_in stabs ty L R. n_value (stabs i) \<le> addr then brackets stabs ty L R addr l r
    else l = min L r \<and> r + 1 \<in> typed_in stabs ty L R \<and> typed_in stabs ty L r = {}"
proof -
  let ?init = "\<lparr>bs_left = L, bs_right = R, bs_l = L, bs_r = R, bs_any = False, bs_addr = addr\<rparr>"
  let ?b = "bs_loop stabs ty ?init"
  have "bs_inv stabs ty L R addr ?init" by (auto simp add: bs_inv_def typed_in_empty)
  then have "bs_inv stabs ty L R addr ?b \<and> \<not> bs_l ?b \<le> bs_r ?b"
    by (rule bs_loop_inv [OF _ assms(3)]) (rule apart)
  then have b: "bs_inv stabs ty L R addr ?b" "bs_r ?b < bs_l ?b" by (simp_all only: not_le)
  have rr: "bs_right ?b = bs_r ?b" using b(1) unfolding bs_inv_def by blast
  have part: "n_type (stabs i) \<noteq> ty" if "typed_in stabs ty L (bs_l ?b - 1) = {}" "L \<le> i" "i \<le> bs_r ?b" for i
    using that b(2) by (simp add: typed_in_empty)
  have nxt: "bs_r ?b = R \<or> bs_r ?b + 1 \<in> typed_in stabs ty L R \<and> bs_r ?b < R \<and> addr < n_value (stabs (bs_r ?b + 1))"
    using b(1) by (auto simp: bs_inv_def typed_in_iff)
  consider (untouched) "bs_left ?b = L" "typed_in stabs ty L (bs_l ?b - 1) = {}" "\<not> bs_any ?b \<longrightarrow> bs_r ?b = R"
      "bs_any ?b \<longrightarrow> bs_r ?b < R"
    | (found) "bs_any ?b" "bs_left ?b \<in> typed_in stabs ty L R" "bs_left ?b \<le> bs_r ?b" "bs_r ?b \<le> R"
      "n_value (stabs (bs_left ?b)) \<le> addr" "typed_in stabs ty (bs_left ?b + 1) (bs_l ?b - 1) = {}"
    using b(1) unfolding bs_inv_def typed_in_iff by (elim conjE disjE) auto
  then show ?thesis
  proof cases
    case untouched
    show ?thesis
    proof (cases "bs_any ?b")
      case False
      then have "typed_in stabs ty L R = {}" using untouched part by (auto simp: typed_in_empty)
      then show ?thesis using False untouched by (simp add: stab_binsearch_def Let_def)
    next
      case True
      have e: "typed_in stabs ty L (bs_r ?b) = {}" using part untouched(2) by (auto simp: typed_in_empty)
      then have "bs_last stabs ty L (bs_r ?b) = min L (bs_r ?b)"
        by (intro bs_last_none) (auto simp: typed_in_empty)
      then have "stab_binsearch stabs L R ty addr = (min L (bs_r ?b), bs_r ?b)"
        using True untouched(1) by (simp add: stab_binsearch_def rr Let_def)
      moreover have "addr < n_value (stabs i)" if "i \<in> typed_in stabs ty L R" for i
      proof -
        have "bs_r ?b + 1 \<le> i" using e that by (force simp: typed_in_iff typed_in_empty)
        then show ?thesis using nxt True untouched(4) sorted [of "bs_r ?b + 1" i] that by (cases "bs_r ?b + 1 = i") auto
      qed
      then have "\<not> (\<exists>i \<in> typed_in stabs ty L R. n_value (stabs i) \<le> addr)" by (meson linorder_not_less)
      moreover have "bs_r ?b + 1 \<in> typed_in stabs ty L R" using nxt True untouched(4) by auto
      ultimately show ?thesis using e by (simp only: prod.case) (metis empty_iff)
    qed
  next
    case found
    have e: "typed_in stabs ty (bs_left ?b + 1) (bs_r ?b) = {}" using found(6) b(2) by (simp add: typed_in_empty)
    then have "bs_last stabs ty (bs_left ?b) (bs_r ?b) = bs_left ?b"
      using found(3) by (simp add: bs_last_none)
    then have "stab_binsearch stabs L R ty addr = (bs_left ?b, bs_r ?b)"
      using found(1) by (simp add: stab_binsearch_def rr Let_def)
    moreover have "brackets stabs ty L R addr (bs_left ?b) (bs_r ?b)"
      using found e nxt by (auto simp: brackets_def typed_in_iff)
    ultimately show ?thesis using found(2,5) by auto
  qed
qed


text \<open>The table of the comment in the source, and the search it describes.\<close>

definition example_stabs :: "int \<Rightarrow> Stab" where
  "example_stabs i =
     (let v = (case map_of [(0, 0xf0100000), (13, 0xf0100040), (117, 0xf0100176), (118, 0xf0100178),
                 (555, 0xf0100652), (556, 0xf0100654), (657, 0xf0100849)] i of None \<Rightarrow> 0 | Some v \<Rightarrow> v)
      in \<lparr>n_strx = 0, n_type = (if v = 0 then N_SLINE else N_SO), n_other = 0, n_desc = 0, n_value = v\<rparr>)"

lemma example_typed: "typed_in example_stabs N_SO 0 657 = {0, 13, 117, 118, 555, 556, 657}"
  by (auto simp: typed_in_def example_stabs_def Let_def N_SO_def N_SLINE_def split: if_splits)

lemma example_value: "i \<in> {0, 13, 117, 118, 555, 556, 657} \<Longrightarrow>
    n_value (example_stabs i) = the (map_of [(0, 0xf0100000), (13, 0xf0100040), (117, 0xf0100176), (118, 0xf0100178),
                 (555, 0xf0100652), (556, 0xf0100654), (657, 0xf0100849)] i)"
  by (auto simp: example_stabs_def)

theorem stab_binsearch_correct_witness: "stab_binsearch example_stabs 0 657 N_SO 0xf0100184 = (118, 554)"
proof -
  let ?T = "typed_in example_stabs N_SO 0 657" and ?a = "0xf0100184 :: 32 word"
  have sorted: "n_value (example_stabs i) \<le> n_value (example_stabs j)" if "i \<in> ?T" "j \<in> ?T" "i < j" for i j
    using that unfolding example_typed by (auto simp: example_value)
  have apart: "n_value (example_stabs j) \<noteq> ?a + 1" if "i \<in> ?T" "j \<in> ?T" "n_value (example_stabs i) = ?a" for i j
    using that unfolding example_typed by (auto simp: example_value)
  have ne: "?T \<noteq> {}" and ex: "\<exists>i \<in> ?T. n_value (example_stabs i) \<le> ?a"
    unfolding example_typed by (simp_all add: example_value)
  have "case stab_binsearch example_stabs 0 657 N_SO ?a of (l, r) \<Rightarrow>
    if ?T = {} then l = 0 \<and> r = 0 - 1
    else if \<exists>i \<in> ?T. n_value (example_stabs i) \<le> ?a then brackets example_stabs N_SO 0 657 ?a l r
    else l = min 0 r \<and> r + 1 \<in> ?T \<and> typed_in example_stabs N_SO 0 r = {}"
    by (rule stab_binsearch_correct) (fact sorted, fact apart, simp)
  then obtain l r where e: "stab_binsearch example_stabs 0 657 N_SO ?a = (l, r)"
    and b: "brackets example_stabs N_SO 0 657 ?a l r"
    using ne ex by (simp only: if_False if_True split: prod.splits)
  have l: "l \<in> ?T" "n_value (example_stabs l) \<le> ?a" and lr: "l \<le> r" "r \<le> 657"
    and none: "typed_in example_stabs N_SO (l + 1) r = {}"
    and nxt: "r < 657 \<longrightarrow> n_type (example_stabs (r + 1)) = N_SO \<and> ?a < n_value (example_stabs (r + 1))"
    using b unfolding brackets_def by blast+
  have gap: "\<not> (l < i \<and> i \<le> r)" if "i \<in> ?T" for i
    using that none l(1) lr(2) unfolding typed_in_empty typed_in_iff by fastforce
  have nxt': "r + 1 \<in> ?T \<and> ?a < n_value (example_stabs (r + 1))" if "r < 657"
    using nxt that l(1) lr(1) by (simp add: typed_in_iff)
  have "l \<in> {0, 13, 117, 118}" using l unfolding example_typed by (auto simp: example_value)
  moreover from this have "r < 555" using gap [of 555] unfolding example_typed by auto
  moreover from this have "r + 1 \<in> {555, 556, 657}" using nxt' unfolding example_typed by (auto simp: example_value)
  ultimately show ?thesis unfolding e using gap [of 118] unfolding example_typed by auto
qed

text \<open>
  Two entries one byte apart: the search for the address of the first one ends at the
  second, because addr is incremented after an exact match and then matches again.
\<close>

theorem stab_binsearch_next_byte:
  "stab_binsearch (\<lambda>i. \<lparr>n_strx = 0, n_type = N_SLINE, n_other = 0, n_desc = 0, n_value = 0x10 + of_int i\<rparr>) 0 1 N_SLINE 0x10
     = (1, 1)"
  by code_simp

end
