(* ===== verification/Pipe.thy ===== *)
theory Pipe
  imports Prelude
begin

text \<open>
  Pipes (lib/pipe.c): a buffer of 32 bytes in a page that a reader and a writer share. Environments are preempted anywhere, so
  devpipe_read and devpipe_write, with _pipeisclosed inside, are programs of single steps, each with at most one access to something another
  environment changes. What closes a pipe are the mappings of its pages in all environments: devpipe_close and dup (lib/fd.c)
  take two system calls each and fork (lib/fork.c) one for every page, and other steps come in between. pipe_step interleaves them; a context switch counts env_runs.
  The positions are the 32-bit integers of the source, and the buffer is indexed by their signed remainder.
\<close>

section \<open>State\<close>

definition PIPEBUFSIZ :: int where "PIPEBUFSIZ = 32"

text \<open>The reader, the writer, and environments that only hold ends of the pipe. The pages are the descriptor of either end and the data.\<close>

datatype actor = Reader | Writer | Other nat
datatype pipe_page = Fd_r | Fd_w | Data

text \<open>A page mapped in an environment for a descriptor number.\<close>

type_synonym pipe_map = "actor \<times> nat \<times> pipe_page"

text \<open>
  Where the two functions are: at the head of the for loop, in the test of the while loop,
  in _pipeisclosed (before n, the first and the second pageref, and nn), before the byte is moved and before the position is advanced.
\<close>

datatype rpc = R_idle | R_for | R_while | R_closed | R_ref1 | R_ref2 | R_again | R_take | R_inc
datatype wpc = W_idle | W_for | W_while | W_closed | W_ref1 | W_ref2 | W_again | W_store | W_inc

text \<open>
  Between the system calls of devpipe_close, dup and fork: what is left to do. fork goes on with the pages not yet copied to the child.
\<close>

datatype apc = Idle | Closing nat | Dupping nat nat | Forking actor "(nat \<times> pipe_page) list"

text \<open>
  The structure Pipe; the locals of the two calls; the environment that runs, how often each has been run (the low 32 bits are env_runs) and the mappings;
  whether _pipeisclosed reads the count of the descriptor first, which C leaves to the compiler; and, for the properties, the bytes whose transfer is
  complete on either side, over all calls, the value the last call returned and whether an environment has begun to fork.
\<close>

record pipe_sys =
  p_rpos :: "32 word"
  p_wpos :: "32 word"
  p_buf :: "int \<Rightarrow> 8 word"
  r_pc :: rpc
  r_n :: nat
  r_i :: nat
  r_byte :: "8 word"
  r_runs :: "32 word"
  r_ref1 :: nat
  r_ref2 :: nat
  r_ret :: "int option"
  w_pc :: wpc
  w_data :: "8 word list"
  w_i :: nat
  w_runs :: "32 word"
  w_ref1 :: nat
  w_ref2 :: nat
  w_ret :: "int option"
  cur :: actor
  runs :: "actor \<Rightarrow> nat"
  maps :: "pipe_map list"
  a_pc :: "actor \<Rightarrow> apc"
  fd_first :: bool
  sent :: "8 word list"
  received :: "8 word list"
  forked :: bool

text \<open>The index of C: the remainder has the sign of the position.\<close>

definition pipe_slot :: "32 word \<Rightarrow> int" where
  "pipe_slot pos = (let p = sint pos in if p \<ge> 0 then p mod PIPEBUFSIZ else - ((- p) mod PIPEBUFSIZ))"

text \<open>pageref: pp_ref of the page, which the kernel keeps equal to the number of its mappings in all environments (the memory invariant of Pmap_Inv).\<close>

definition page_refs :: "pipe_page \<Rightarrow> pipe_map list \<Rightarrow> nat" where
  "page_refs pg ms = length (filter (\<lambda>(a, i, q). q = pg) ms)"

text \<open>The page whose count _pipeisclosed reads first or second, for the descriptor page fd.\<close>

definition first_page :: "pipe_page \<Rightarrow> pipe_sys \<Rightarrow> pipe_page" where
  "first_page fd p = (if fd_first p then fd else Data)"

definition second_page :: "pipe_page \<Rightarrow> pipe_sys \<Rightarrow> pipe_page" where
  "second_page fd p = (if fd_first p then Data else fd)"

definition env_runs32 :: "actor \<Rightarrow> pipe_sys \<Rightarrow> 32 word" where
  "env_runs32 a p = of_nat (runs p a)"

section \<open>devpipe_read and devpipe_write, step by step\<close>

definition read_return :: "int \<Rightarrow> pipe_sys \<Rightarrow> pipe_sys" where
  "read_return r p = p\<lparr>r_pc := R_idle, r_ret := Some r\<rparr>"

definition devpipe_read_start :: "nat \<Rightarrow> pipe_sys \<Rightarrow> pipe_sys" where
  "devpipe_read_start n p = p\<lparr>r_pc := R_for, r_n := n, r_i := 0, r_ret := None\<rparr>"

text \<open>_pipeisclosed in devpipe_read: yes means that it returns 0, no that it tries again.\<close>

definition pipeisclosed_r :: "pipe_sys \<Rightarrow> pipe_sys" where
  "pipeisclosed_r p =
     (case r_pc p of
        R_closed \<Rightarrow> p\<lparr>r_runs := env_runs32 Reader p, r_pc := R_ref1\<rparr>
      | R_ref1 \<Rightarrow> p\<lparr>r_ref1 := page_refs (first_page Fd_r p) (maps p), r_pc := R_ref2\<rparr>
      | R_ref2 \<Rightarrow> p\<lparr>r_ref2 := page_refs (second_page Fd_r p) (maps p), r_pc := R_again\<rparr>
      | R_again \<Rightarrow>
          if r_runs p = env_runs32 Reader p
          then (if r_ref1 p = r_ref2 p then read_return 0 p else p\<lparr>r_pc := R_while\<rparr>)
          else p\<lparr>r_pc := R_closed\<rparr>
      | _ \<Rightarrow> p)"

definition devpipe_read :: "pipe_sys \<Rightarrow> pipe_sys" where
  "devpipe_read p =
     (case r_pc p of
        R_idle \<Rightarrow> p
      | R_for \<Rightarrow> if r_i p < r_n p then p\<lparr>r_pc := R_while\<rparr> else read_return (int (r_i p)) p
      | R_while \<Rightarrow>
          if p_rpos p = p_wpos p then
            (if r_i p > 0 then read_return (int (r_i p)) p else p\<lparr>r_pc := R_closed\<rparr>)
          else p\<lparr>r_pc := R_take\<rparr>
      | R_take \<Rightarrow> p\<lparr>r_byte := p_buf p (pipe_slot (p_rpos p)), r_pc := R_inc\<rparr>
      | R_inc \<Rightarrow> p\<lparr>p_rpos := p_rpos p + 1, received := received p @ [r_byte p], r_i := r_i p + 1, r_pc := R_for\<rparr>
      | _ \<Rightarrow> pipeisclosed_r p)"

definition write_return :: "int \<Rightarrow> pipe_sys \<Rightarrow> pipe_sys" where
  "write_return r p = p\<lparr>w_pc := W_idle, w_ret := Some r\<rparr>"

definition devpipe_write_start :: "8 word list \<Rightarrow> pipe_sys \<Rightarrow> pipe_sys" where
  "devpipe_write_start bs p = p\<lparr>w_pc := W_for, w_data := bs, w_i := 0, w_ret := None\<rparr>"

definition pipeisclosed_w :: "pipe_sys \<Rightarrow> pipe_sys" where
  "pipeisclosed_w p =
     (case w_pc p of
        W_closed \<Rightarrow> p\<lparr>w_runs := env_runs32 Writer p, w_pc := W_ref1\<rparr>
      | W_ref1 \<Rightarrow> p\<lparr>w_ref1 := page_refs (first_page Fd_w p) (maps p), w_pc := W_ref2\<rparr>
      | W_ref2 \<Rightarrow> p\<lparr>w_ref2 := page_refs (second_page Fd_w p) (maps p), w_pc := W_again\<rparr>
      | W_again \<Rightarrow>
          if w_runs p = env_runs32 Writer p
          then (if w_ref1 p = w_ref2 p then write_return 0 p else p\<lparr>w_pc := W_while\<rparr>)
          else p\<lparr>w_pc := W_closed\<rparr>
      | _ \<Rightarrow> p)"

definition devpipe_write :: "pipe_sys \<Rightarrow> pipe_sys" where
  "devpipe_write p =
     (case w_pc p of
        W_idle \<Rightarrow> p
      | W_for \<Rightarrow> if w_i p < length (w_data p) then p\<lparr>w_pc := W_while\<rparr> else write_return (int (w_i p)) p
      | W_while \<Rightarrow> if p_wpos p \<ge> p_rpos p + 32 then p\<lparr>w_pc := W_closed\<rparr> else p\<lparr>w_pc := W_store\<rparr>
      | W_store \<Rightarrow> p\<lparr>p_buf := (p_buf p)(pipe_slot (p_wpos p) := w_data p ! w_i p), w_pc := W_inc\<rparr>
      | W_inc \<Rightarrow> p\<lparr>p_wpos := p_wpos p + 1, sent := sent p @ [w_data p ! w_i p], w_i := w_i p + 1, w_pc := W_for\<rparr>
      | _ \<Rightarrow> pipeisclosed_w p)"

section \<open>Closing, duplicating and forking\<close>

text \<open>sys_page_map and sys_page_unmap at a descriptor number of an environment.\<close>

definition map_page :: "pipe_map \<Rightarrow> pipe_sys \<Rightarrow> pipe_sys" where
  "map_page m p = (if m \<in> set (maps p) then p else p\<lparr>maps := m # maps p\<rparr>)"

definition unmap_fd :: "actor \<Rightarrow> nat \<Rightarrow> pipe_sys \<Rightarrow> pipe_sys" where
  "unmap_fd a i p = p\<lparr>maps := filter (\<lambda>(b, j, pg). \<not> (b = a \<and> j = i \<and> pg \<noteq> Data)) (maps p)\<rparr>"

definition unmap_data :: "actor \<Rightarrow> nat \<Rightarrow> pipe_sys \<Rightarrow> pipe_sys" where
  "unmap_data a i p = p\<lparr>maps := filter (\<lambda>(b, j, pg). \<not> (b = a \<and> j = i \<and> pg = Data)) (maps p)\<rparr>"

definition go_on :: "actor \<Rightarrow> apc \<Rightarrow> pipe_sys \<Rightarrow> pipe_sys" where
  "go_on a pc p = p\<lparr>a_pc := (a_pc p)(a := pc)\<rparr>"

text \<open>The descriptor page at a number, if any.\<close>

definition end_at :: "pipe_map list \<Rightarrow> actor \<Rightarrow> nat \<Rightarrow> pipe_page option" where
  "end_at ms a i = (if (a, i, Fd_r) \<in> set ms then Some Fd_r else if (a, i, Fd_w) \<in> set ms then Some Fd_w else None)"

text \<open>The first system call of devpipe_close, of dup to a closed number, and the pages fork goes through in the order of their addresses.\<close>

definition pipe_close_fd :: "actor \<Rightarrow> nat \<Rightarrow> pipe_sys \<Rightarrow> pipe_sys" where
  "pipe_close_fd a i p = go_on a (Closing i) (unmap_fd a i p)"

definition dup_data :: "actor \<Rightarrow> nat \<Rightarrow> nat \<Rightarrow> pipe_sys \<Rightarrow> pipe_sys" where
  "dup_data a i j p = go_on a (Dupping i j) (map_page (a, j, Data) p)"

definition shared_pages :: "actor \<Rightarrow> pipe_map list \<Rightarrow> (nat \<times> pipe_page) list" where
  "shared_pages a ms =
     (let own = map snd (filter (\<lambda>(b, i, pg). b = a) ms)
      in sort_key fst (filter (\<lambda>(i, pg). pg \<noteq> Data) own) @ sort_key fst (filter (\<lambda>(i, pg). pg = Data) own))"

definition fork_begin :: "actor \<Rightarrow> actor \<Rightarrow> pipe_sys \<Rightarrow> pipe_sys" where
  "fork_begin a c p = go_on a (Forking c (shared_pages a (maps p))) (p\<lparr>forked := True\<rparr>)"

text \<open>The second system call of devpipe_close and of dup, and the next one of fork.\<close>

definition pipe_close_data :: "actor \<Rightarrow> nat \<Rightarrow> pipe_sys \<Rightarrow> pipe_sys" where
  "pipe_close_data a i p = go_on a Idle (unmap_data a i p)"

definition dup_fd :: "actor \<Rightarrow> nat \<Rightarrow> nat \<Rightarrow> pipe_sys \<Rightarrow> pipe_sys" where
  "dup_fd a i j p = go_on a Idle (case end_at (maps p) a i of Some pg \<Rightarrow> map_page (a, j, pg) p | None \<Rightarrow> p)"

definition fork_next :: "actor \<Rightarrow> actor \<Rightarrow> (nat \<times> pipe_page) list \<Rightarrow> pipe_sys \<Rightarrow> pipe_sys" where
  "fork_next a c ms p = (case ms of [] \<Rightarrow> go_on a Idle p | m # ms \<Rightarrow> go_on a (Forking c ms) (map_page (c, m) p))"

definition pipe_act :: "actor \<Rightarrow> pipe_sys \<Rightarrow> pipe_sys" where
  "pipe_act a p =
     (case a_pc p a of
        Idle \<Rightarrow> p
      | Closing i \<Rightarrow> pipe_close_data a i p
      | Dupping i j \<Rightarrow> dup_fd a i j p
      | Forking c ms \<Rightarrow> fork_next a c ms p)"

text \<open>The kernel frees an environment at once; a call it was in is over.\<close>

definition pipe_destroy :: "actor \<Rightarrow> pipe_sys \<Rightarrow> pipe_sys" where
  "pipe_destroy a p =
     (let p = go_on a Idle (p\<lparr>maps := filter (\<lambda>(b, j, pg). b \<noteq> a) (maps p)\<rparr>)
      in case a of Reader \<Rightarrow> p\<lparr>r_pc := R_idle\<rparr> | Writer \<Rightarrow> p\<lparr>w_pc := W_idle\<rparr> | Other _ \<Rightarrow> p)"

section \<open>The interleavings\<close>

text \<open>
  The ends as they are when no environment is closing, duplicating or forking: at a descriptor number there is nothing, or one
  of the two descriptors and the data. Any such state, with the pipe empty, is a start.
\<close>

definition ends_ok :: "pipe_map list \<Rightarrow> bool" where
  "ends_ok ms \<longleftrightarrow> distinct ms \<and>
     (\<forall>a i pg. (a, i, pg) \<in> set ms \<longrightarrow> (a, i, Data) \<in> set ms) \<and> (\<forall>a i. (a, i, Fd_r) \<notin> set ms \<or> (a, i, Fd_w) \<notin> set ms)"

definition pipe_init :: "bool \<Rightarrow> pipe_map list \<Rightarrow> pipe_sys" where
  "pipe_init order ms = \<lparr>p_rpos = 0, p_wpos = 0, p_buf = (\<lambda>_. 0), r_pc = R_idle, r_n = 0, r_i = 0, r_byte = 0,
     r_runs = 0, r_ref1 = 0, r_ref2 = 0, r_ret = None,
     w_pc = W_idle, w_data = [], w_i = 0, w_runs = 0, w_ref1 = 0, w_ref2 = 0, w_ret = None, cur = Writer, runs = (\<lambda>_. 0), maps = ms,
     a_pc = (\<lambda>_. Idle), fd_first = order, sent = [], received = [], forked = False\<rparr>"

text \<open>An environment between its calls.\<close>

definition at_rest :: "pipe_sys \<Rightarrow> actor \<Rightarrow> bool" where
  "at_rest p a \<longleftrightarrow> a_pc p a = Idle \<and> (a = Reader \<longrightarrow> r_pc p = R_idle) \<and> (a = Writer \<longrightarrow> w_pc p = W_idle)"

text \<open>env_run: also the running environment can be run again.\<close>

definition pipe_switch :: "actor \<Rightarrow> pipe_sys \<Rightarrow> pipe_sys" where
  "pipe_switch a p = p\<lparr>cur := a, runs := (runs p)(a := runs p a + 1)\<rparr>"

inductive pipe_step :: "pipe_sys \<Rightarrow> pipe_sys \<Rightarrow> bool" where
  switch: "pipe_step p (pipe_switch a p)"
| reader: "cur p = Reader \<Longrightarrow> r_pc p \<noteq> R_idle \<Longrightarrow> pipe_step p (devpipe_read p)"
| writer: "cur p = Writer \<Longrightarrow> w_pc p \<noteq> W_idle \<Longrightarrow> pipe_step p (devpipe_write p)"
| call_read: "cur p = Reader \<Longrightarrow> at_rest p Reader \<Longrightarrow> end_at (maps p) Reader i = Some Fd_r \<Longrightarrow> pipe_step p (devpipe_read_start n p)"
| call_write: "cur p = Writer \<Longrightarrow> at_rest p Writer \<Longrightarrow> end_at (maps p) Writer i = Some Fd_w \<Longrightarrow> length bs < 2 ^ 31 \<Longrightarrow>
    pipe_step p (devpipe_write_start bs p)"
| close: "at_rest p (cur p) \<Longrightarrow> pipe_step p (pipe_close_fd (cur p) i p)"
| dup: "at_rest p (cur p) \<Longrightarrow> end_at (maps p) (cur p) i \<noteq> None \<Longrightarrow> (\<forall>pg. (cur p, j, pg) \<notin> set (maps p)) \<Longrightarrow>
    pipe_step p (dup_data (cur p) i j p)"
| fork: "at_rest p (cur p) \<Longrightarrow> (\<forall>i pg. (c, i, pg) \<notin> set (maps p)) \<Longrightarrow> pipe_step p (fork_begin (cur p) c p)"
| act: "a_pc p (cur p) \<noteq> Idle \<Longrightarrow> pipe_step p (pipe_act (cur p) p)"
| destroy: "at_rest p (cur p) \<Longrightarrow> pipe_step p (pipe_destroy a p)"

inductive pipe_reachable :: "pipe_sys \<Rightarrow> bool" where
  init: "ends_ok ms \<Longrightarrow> pipe_reachable (pipe_init order ms)"
| step: "pipe_reachable p \<Longrightarrow> pipe_step p q \<Longrightarrow> pipe_reachable q"


text \<open>No environment has the end of the pipe open.\<close>

definition end_closed :: "pipe_page \<Rightarrow> pipe_sys \<Rightarrow> bool" where
  "end_closed pg p \<longleftrightarrow> (\<forall>a i. (a, i, pg) \<notin> set (maps p))"

section \<open>The invariant\<close>













lemmas pipe_acts = pipe_close_data_def dup_fd_def fork_next_def

lemmas mapping_calls = pipe_switch_def pipe_close_fd_def dup_data_def fork_begin_def pipe_act_def pipe_acts go_on_def unmap_fd_def unmap_data_def map_page_def









section \<open>The counts\<close>

lemma page_refs_card: "distinct ms \<Longrightarrow> page_refs pg ms = card {(a, i). (a, i, pg) \<in> set ms}"
proof -
  assume "distinct ms"
  then have "page_refs pg ms = card {(a, i, q). (a, i, q) \<in> set ms \<and> q = pg}"
    by (simp add: page_refs_def distinct_card [symmetric]) (rule arg_cong [of _ _ card], auto)
  also have "\<dots> = card ((\<lambda>(a, i). (a, i, pg)) ` {(a, i). (a, i, pg) \<in> set ms})"
    by (rule arg_cong [of _ _ card]) auto
  also have "\<dots> = card {(a, i). (a, i, pg) \<in> set ms}" by (rule card_image) (auto simp: inj_on_def)
  finally show ?thesis .
qed















section \<open>The recheck of the runs\<close>





















section \<open>Reachable states\<close>











section \<open>The theorems\<close>


text \<open>
  The other direction: when the last writer has closed its end and no environment is in the middle of a close or dup, the
  next check of an empty pipe says so.
\<close>

theorem pipe_eof_seen:
  assumes "distinct (maps p)" "end_closed Fd_w p" "\<forall>a i. (a, i, Data) \<in> set (maps p) \<longleftrightarrow> (a, i, Fd_r) \<in> set (maps p)"
    and "r_pc p = R_closed"
  shows "r_ret ((devpipe_read ^^ 4) p) = Some 0"
proof -
  have "page_refs Fd_r (maps p) = page_refs Data (maps p)" using assms(1,3) by (simp add: page_refs_card)
  then show ?thesis
    using assms(4) by (simp add: numeral_eq_Suc devpipe_read_def pipeisclosed_r_def first_page_def second_page_def env_runs32_def read_return_def)
qed

text \<open>A run of the pipe: the steps in the order given; one that is not possible is left out.\<close>

datatype pipe_event = Switch actor | Read nat nat | Write nat "8 word list" | RStep | WStep | Close nat | Dup nat nat | Fork actor | Act
  | Destroy actor

definition pipe_do :: "pipe_event \<Rightarrow> pipe_sys \<Rightarrow> pipe_sys" where
  "pipe_do e p =
     (case e of
        Switch a \<Rightarrow> pipe_switch a p
      | Read i n \<Rightarrow> if cur p = Reader \<and> at_rest p Reader \<and> end_at (maps p) Reader i = Some Fd_r then devpipe_read_start n p else p
      | Write i bs \<Rightarrow>
          if cur p = Writer \<and> at_rest p Writer \<and> end_at (maps p) Writer i = Some Fd_w \<and> length bs < 2 ^ 31 then devpipe_write_start bs p else p
      | RStep \<Rightarrow> if cur p = Reader \<and> r_pc p \<noteq> R_idle then devpipe_read p else p
      | WStep \<Rightarrow> if cur p = Writer \<and> w_pc p \<noteq> W_idle then devpipe_write p else p
      | Close i \<Rightarrow> if at_rest p (cur p) then pipe_close_fd (cur p) i p else p
      | Dup i j \<Rightarrow>
          if at_rest p (cur p) \<and> end_at (maps p) (cur p) i \<noteq> None \<and> (\<forall>m \<in> set (maps p). fst m \<noteq> cur p \<or> fst (snd m) \<noteq> j)
          then dup_data (cur p) i j p else p
      | Fork c \<Rightarrow> if at_rest p (cur p) \<and> (\<forall>m \<in> set (maps p). fst m \<noteq> c) then fork_begin (cur p) c p else p
      | Act \<Rightarrow> if a_pc p (cur p) \<noteq> Idle then pipe_act (cur p) p else p
      | Destroy a \<Rightarrow> if at_rest p (cur p) then pipe_destroy a p else p)"

lemma pipe_do_reachable: "pipe_reachable p \<Longrightarrow> pipe_reachable (pipe_do e p)"
proof -
  assume reach: "pipe_reachable p"
  have "pipe_do e p = p \<or> pipe_step p (pipe_do e p)"
  proof (cases e)
    case (Dup i j)
    have "\<forall>pg. (cur p, j, pg) \<notin> set (maps p)" if "\<forall>m \<in> set (maps p). fst m \<noteq> cur p \<or> fst (snd m) \<noteq> j"
      using that by force
    then show ?thesis using pipe_step.dup [of p i j] Dup by (simp add: pipe_do_def)
  next
    case (Fork c)
    have "\<forall>i pg. (c, i, pg) \<notin> set (maps p)" if "\<forall>m \<in> set (maps p). fst m \<noteq> c"
      using that by force
    then show ?thesis using pipe_step.fork [of p c] Fork by (simp add: pipe_do_def)
  qed (auto simp: pipe_do_def intro: pipe_step.intros)
  then show ?thesis using reach pipe_reachable.step by metis
qed

definition pipe_run :: "bool \<Rightarrow> pipe_map list \<Rightarrow> pipe_event list \<Rightarrow> pipe_sys" where
  "pipe_run order ms es = fold pipe_do es (pipe_init order ms)"

lemma pipe_run_reachable:
  assumes "ends_ok ms"
  shows "pipe_reachable (pipe_run order ms es)"
proof -
  have "pipe_reachable p \<Longrightarrow> pipe_reachable (fold pipe_do es p)" for p
    by (induction es arbitrary: p) (simp_all add: pipe_do_reachable)
  then show ?thesis using pipe_reachable.init [OF assms] by (simp add: pipe_run_def)
qed

lemmas pipe_exec = pipe_run_def pipe_do_def pipe_init_def devpipe_read_def devpipe_write_def devpipe_read_start_def
  devpipe_write_start_def read_return_def write_return_def pipeisclosed_r_def pipeisclosed_w_def at_rest_def mapping_calls
  pipe_destroy_def end_at_def first_page_def second_page_def env_runs32_def page_refs_def pipe_slot_def PIPEBUFSIZ_def

text \<open>A reader and a writer with one end each.\<close>

definition two_ends :: "pipe_map list" where
  "two_ends = [(Reader, 0, Fd_r), (Reader, 0, Data), (Writer, 1, Fd_w), (Writer, 1, Data)]"

lemma two_ends_ok: "ends_ok two_ends"
  by (auto simp: ends_ok_def two_ends_def)




text \<open>
  The end of file can overtake the data: if the writer sends its last bytes and closes its
  end after the reader has seen the pipe empty and before it asks whether the pipe is closed,
  the read returns 0 although bytes are in the pipe.
\<close>

theorem pipe_eof_overtakes:
  "\<exists>p. pipe_reachable p \<and> r_n p = 1 \<and> r_ret p = Some 0 \<and> received p = [] \<and> sent p = [65]"
proof (intro exI conjI)
  let ?p = "pipe_run True two_ends [Switch Reader, Read 0 1, RStep, RStep, Switch Writer, Write 1 [65], WStep, WStep, WStep, WStep, WStep,
    Close 1, Act, Switch Reader, RStep, RStep, RStep, RStep]"
  show "pipe_reachable ?p" by (rule pipe_run_reachable [OF two_ends_ok])
  show "r_n ?p = 1" "r_ret ?p = Some 0" "received ?p = []" "sent ?p = [65]"
    by (simp_all add: two_ends_def pipe_exec)
qed

text \<open>
  fork maps the descriptor pages, which have the lower addresses, before the data pages. While an environment that holds both ends forks, the
  descriptor of the reading end is found as often as the data, and a read by another environment returns 0 although
  the writing end is open; no switch to another environment has to come between the reads of the counts.
\<close>

theorem pipe_fork_race:
  "\<exists>p. pipe_reachable p \<and> r_n p = 1 \<and> r_ret p = Some 0 \<and> (Writer, 1, Fd_w) \<in> set (maps p) \<and> (Writer, 1, Data) \<in> set (maps p)"
proof (intro exI conjI)
  let ?ms = "[(Reader, 0, Fd_r), (Reader, 0, Data), (Writer, 0, Fd_r), (Writer, 0, Data), (Writer, 1, Fd_w), (Writer, 1, Data)]"
  let ?p = "pipe_run True ?ms [Fork (Other 0), Act, Switch Reader, Read 0 1, RStep, RStep, RStep, RStep, RStep, RStep]"
  have "ends_ok ?ms" by (auto simp: ends_ok_def)
  then show "pipe_reachable ?p" by (rule pipe_run_reachable)
  show "r_n ?p = 1" "r_ret ?p = Some 0" "(Writer, 1, Fd_w) \<in> set (maps ?p)" "(Writer, 1, Data) \<in> set (maps ?p)"
    by (simp_all add: pipe_exec shared_pages_def)
qed

text \<open>From byte 2^31 on the position is negative and the byte is stored before the buffer.\<close>

theorem pipe_slot_negative: "pipe_slot 0x80000001 = - 31"
  by (simp add: pipe_slot_def PIPEBUFSIZ_def sint_alt)

end
