(* ===== verification/Fd.thy ===== *)
theory Fd
  imports Ulib
begin

text \<open>
  File descriptors (lib/fd.c) and the creation of pipes (lib/pipe.c), run over the kernel
  model. A descriptor is a page at FDTABLE with the structure Fd, and its device's data
  page is at FILEDATA. The table of devices is a parameter: a device is a record of
  functions, as struct Dev is. The messages printed on a bad descriptor are left out, and a
  structure Stat is returned by value. Definitions only.
\<close>

section \<open>Addresses and structures\<close>

definition MAXFD :: nat where "MAXFD = 32"
definition FDTABLE :: "32 word" where "FDTABLE = 0xD0000000"
definition FILEDATA :: "32 word" where "FILEDATA = FDTABLE + of_nat MAXFD * PGSIZE"

definition INDEX2FD :: "int \<Rightarrow> 32 word" where "INDEX2FD i = FDTABLE + word_of_int i * PGSIZE"
definition INDEX2DATA :: "int \<Rightarrow> 32 word" where "INDEX2DATA i = FILEDATA + word_of_int i * PGSIZE"

definition fd2num :: "32 word \<Rightarrow> int" where "fd2num fd = sint ((fd - FDTABLE) div PGSIZE)"
definition fd2data :: "32 word \<Rightarrow> 32 word" where "fd2data fd = INDEX2DATA (fd2num fd)"

text \<open>The fields of struct Fd, 32-bit words of the descriptor's page.\<close>

definition fd_dev_id_at :: "32 word \<Rightarrow> 32 word" where "fd_dev_id_at fd = fd"
definition fd_offset_at :: "32 word \<Rightarrow> 32 word" where "fd_offset_at fd = fd + 4"
definition fd_omode_at :: "32 word \<Rightarrow> 32 word" where "fd_omode_at fd = fd + 8"

text \<open>st_dev is the number of the device.\<close>

record Stat =
  st_name :: string
  st_size :: int
  st_isdir :: bool
  st_dev :: "32 word"

record Dev =
  dev_id :: "32 word"
  dev_read :: "(32 word \<Rightarrow> 32 word \<Rightarrow> 32 word \<Rightarrow> kstate \<Rightarrow> (int, kstate) kres) option"
  dev_write :: "(32 word \<Rightarrow> 32 word \<Rightarrow> 32 word \<Rightarrow> kstate \<Rightarrow> (int, kstate) kres) option"
  dev_close :: "(32 word \<Rightarrow> kstate \<Rightarrow> (int, kstate) kres) option"
  dev_stat :: "(32 word \<Rightarrow> Stat \<Rightarrow> kstate \<Rightarrow> (int \<times> Stat, kstate) kres) option"
  dev_trunc :: "(32 word \<Rightarrow> 32 word \<Rightarrow> kstate \<Rightarrow> (int, kstate) kres) option"

section \<open>Descriptors\<close>

text \<open>The test of the page tables that fd_alloc, fd_lookup and dup make.\<close>

definition page_mapped :: "32 word \<Rightarrow> kstate \<Rightarrow> (bool, kstate) kres" where
  "page_mapped va s =
     kbind (uvpd (PDX va) s) (\<lambda>e s.
       if e AND PTE_P = 0 then Ret False s
       else kbind (uvpt (PGNUM va) s) (\<lambda>w. Ret (w AND PTE_P \<noteq> 0)))"

text \<open>The result of fd_alloc and what it stores, 0 on error.\<close>

fun fd_scan :: "int list \<Rightarrow> kstate \<Rightarrow> (int \<times> 32 word, kstate) kres" where
  "fd_scan [] s = Ret (- E_MAX_OPEN, 0) s"
| "fd_scan (i # is) s =
     kbind (page_mapped (INDEX2FD i) s) (\<lambda>m s. if \<not> m then Ret (0, INDEX2FD i) s else fd_scan is s)"

definition fd_alloc :: "kstate \<Rightarrow> (int \<times> 32 word, kstate) kres" where
  "fd_alloc = fd_scan (map int [0..<MAXFD])"

definition fd_lookup :: "int \<Rightarrow> kstate \<Rightarrow> (int + 32 word, kstate) kres" where
  "fd_lookup fdnum s =
     (if fdnum < 0 \<or> fdnum \<ge> int MAXFD then Ret (Inl (- E_INVAL)) s
      else kbind (page_mapped (INDEX2FD fdnum) s) (\<lambda>m.
             Ret (if m then Inr (INDEX2FD fdnum) else Inl (- E_INVAL))))"

definition dev_lookup :: "Dev list \<Rightarrow> 32 word \<Rightarrow> int + Dev" where
  "dev_lookup devtab devid =
     (case List.find (\<lambda>d. dev_id d = devid) devtab of None \<Rightarrow> Inl (- E_INVAL) | Some d \<Rightarrow> Inr d)"

definition fd_close :: "sys_io \<Rightarrow> Dev list \<Rightarrow> 32 word \<Rightarrow> bool \<Rightarrow> kstate \<Rightarrow> (int, kstate) kres" where
  "fd_close io devtab fd must_exist s =
     kbind (fd_lookup (fd2num fd) s) (\<lambda>r s.
       case r of
         Inl r \<Rightarrow> Ret (if must_exist then r else 0) s
       | Inr fd2 \<Rightarrow>
           if fd \<noteq> fd2 then Ret 0 s
           else kbind (uload (fd_dev_id_at fd) s) (\<lambda>devid s.
                  kbind (case dev_lookup devtab devid of
                           Inl r \<Rightarrow> Ret r s
                         | Inr dev \<Rightarrow> (case dev_close dev of None \<Rightarrow> Ret 0 s | Some f \<Rightarrow> f fd s)) (\<lambda>r s.
                    kbind (usys_page_unmap io 0 fd s) (\<lambda>_. Ret r))))"

definition close :: "sys_io \<Rightarrow> Dev list \<Rightarrow> int \<Rightarrow> kstate \<Rightarrow> (int, kstate) kres" where
  "close io devtab fdnum s =
     kbind (fd_lookup fdnum s) (\<lambda>r s.
       case r of Inl r \<Rightarrow> Ret r s | Inr fd \<Rightarrow> fd_close io devtab fd True s)"

definition close_all :: "sys_io \<Rightarrow> Dev list \<Rightarrow> kstate \<Rightarrow> (unit, kstate) kres" where
  "close_all io devtab = kforeach (\<lambda>i s. kbind (close io devtab i s) (\<lambda>_. Ret ())) (map int [0..<MAXFD])"

text \<open>One page map of dup: the page and its rights, as the page table gives them.\<close>

definition dup_page :: "sys_io \<Rightarrow> 32 word \<Rightarrow> 32 word \<Rightarrow> kstate \<Rightarrow> (int, kstate) kres" where
  "dup_page io ova nva s =
     kbind (uvpt (PGNUM ova) s) (\<lambda>pte. usys_page_map io 0 ova 0 nva (pte AND PTE_SYSCALL))"

definition dup :: "sys_io \<Rightarrow> Dev list \<Rightarrow> int \<Rightarrow> int \<Rightarrow> kstate \<Rightarrow> (int, kstate) kres" where
  "dup io devtab oldfdnum newfdnum s =
     kbind (fd_lookup oldfdnum s) (\<lambda>r s.
       case r of
         Inl r \<Rightarrow> Ret r s
       | Inr oldfd \<Rightarrow>
           kbind (close io devtab newfdnum s) (\<lambda>_ s.
             let newfd = INDEX2FD newfdnum; ova = fd2data oldfd; nva = fd2data newfd;
                 err = \<lambda>r s. kbind (usys_page_unmap io 0 newfd s) (\<lambda>_ s.
                               kbind (usys_page_unmap io 0 nva s) (\<lambda>_. Ret r))
             in kbind (page_mapped ova s) (\<lambda>m s.
                  kbind (if m then dup_page io ova nva s else Ret 0 s) (\<lambda>r s.
                    if r < 0 then err r s
                    else kbind (dup_page io oldfd newfd s) (\<lambda>r s.
                           if r < 0 then err r s else Ret newfdnum s)))))"

section \<open>Operations on open files\<close>

definition with_dev :: "Dev list \<Rightarrow> int \<Rightarrow> (32 word \<Rightarrow> Dev \<Rightarrow> kstate \<Rightarrow> ('a, kstate) kres) \<Rightarrow> (int \<Rightarrow> 'a) \<Rightarrow> kstate
    \<Rightarrow> ('a, kstate) kres" where
  "with_dev devtab fdnum f fail s =
     kbind (fd_lookup fdnum s) (\<lambda>r s.
       case r of
         Inl r \<Rightarrow> Ret (fail r) s
       | Inr fd \<Rightarrow>
           kbind (uload (fd_dev_id_at fd) s) (\<lambda>devid s.
             case dev_lookup devtab devid of Inl r \<Rightarrow> Ret (fail r) s | Inr dev \<Rightarrow> f fd dev s))"

definition read :: "Dev list \<Rightarrow> int \<Rightarrow> 32 word \<Rightarrow> 32 word \<Rightarrow> kstate \<Rightarrow> (int, kstate) kres" where
  "read devtab fdnum buf n =
     with_dev devtab fdnum (\<lambda>fd dev s.
       kbind (uload (fd_omode_at fd) s) (\<lambda>omode s.
         if omode AND O_ACCMODE = O_WRONLY then Ret (- E_INVAL) s
         else (case dev_read dev of None \<Rightarrow> Ret (- E_NOT_SUPP) s | Some f \<Rightarrow> f fd buf n s))) (\<lambda>r. r)"

text \<open>Every round but the last reads at least one byte.\<close>

fun readn_loop :: "nat \<Rightarrow> Dev list \<Rightarrow> int \<Rightarrow> 32 word \<Rightarrow> 32 word \<Rightarrow> 32 word \<Rightarrow> kstate \<Rightarrow> (int, kstate) kres" where
  "readn_loop fuel devtab fdnum buf n tot s =
     (if \<not> tot < n then Ret (sint tot) s
      else kbind (read devtab fdnum (buf + tot) (n - tot) s) (\<lambda>m s.
             if m < 0 then Ret m s
             else if m = 0 then Ret (sint tot) s
             else if fuel = 0 then Exit Spins s
             else readn_loop (fuel - 1) devtab fdnum buf n (tot + word_of_int m) s))"

declare readn_loop.simps [simp del]

definition readn :: "Dev list \<Rightarrow> int \<Rightarrow> 32 word \<Rightarrow> 32 word \<Rightarrow> kstate \<Rightarrow> (int, kstate) kres" where
  "readn devtab fdnum buf n = readn_loop (unat n) devtab fdnum buf n 0"

definition fd_write :: "Dev list \<Rightarrow> int \<Rightarrow> 32 word \<Rightarrow> 32 word \<Rightarrow> kstate \<Rightarrow> (int, kstate) kres" where
  "fd_write devtab fdnum buf n =
     with_dev devtab fdnum (\<lambda>fd dev s.
       kbind (uload (fd_omode_at fd) s) (\<lambda>omode s.
         if omode AND O_ACCMODE = O_RDONLY then Ret (- E_INVAL) s
         else (case dev_write dev of None \<Rightarrow> Ret (- E_NOT_SUPP) s | Some f \<Rightarrow> f fd buf n s))) (\<lambda>r. r)"

definition seek :: "int \<Rightarrow> 32 word \<Rightarrow> kstate \<Rightarrow> (int, kstate) kres" where
  "seek fdnum offset s =
     kbind (fd_lookup fdnum s) (\<lambda>r s.
       case r of
         Inl r \<Rightarrow> Ret r s
       | Inr fd \<Rightarrow> kbind (ustore (fd_offset_at fd) offset s) (\<lambda>_. Ret 0))"

definition ftruncate :: "Dev list \<Rightarrow> int \<Rightarrow> 32 word \<Rightarrow> kstate \<Rightarrow> (int, kstate) kres" where
  "ftruncate devtab fdnum newsize =
     with_dev devtab fdnum (\<lambda>fd dev s.
       kbind (uload (fd_omode_at fd) s) (\<lambda>omode s.
         if omode AND O_ACCMODE = O_RDONLY then Ret (- E_INVAL) s
         else (case dev_trunc dev of None \<Rightarrow> Ret (- E_NOT_SUPP) s | Some f \<Rightarrow> f fd newsize s))) (\<lambda>r. r)"

definition fstat :: "Dev list \<Rightarrow> int \<Rightarrow> Stat \<Rightarrow> kstate \<Rightarrow> (int \<times> Stat, kstate) kres" where
  "fstat devtab fdnum st =
     with_dev devtab fdnum (\<lambda>fd dev s.
       case dev_stat dev of
         None \<Rightarrow> Ret (- E_NOT_SUPP, st) s
       | Some f \<Rightarrow> f fd \<lparr>st_name = [], st_size = 0, st_isdir = False, st_dev = dev_id dev\<rparr> s) (\<lambda>r. (r, st))"

section \<open>Making and closing pipes (lib/pipe.c)\<close>

definition devpipe_id :: "32 word" where "devpipe_id = 0x70"

text \<open>An allocated descriptor page; Inl is the error.\<close>

definition pipe_fd :: "sys_io \<Rightarrow> kstate \<Rightarrow> (int + 32 word, kstate) kres" where
  "pipe_fd io s =
     kbind (fd_alloc s) (\<lambda>(r, fd) s.
       if r < 0 then Ret (Inl r) s
       else kbind (usys_page_alloc io 0 fd (PTE_P OR PTE_W OR PTE_U OR PTE_SHARE) s) (\<lambda>r.
              Ret (if r < 0 then Inl r else Inr fd)))"

text \<open>The result, and the two descriptors when it is 0.\<close>

definition pipe :: "sys_io \<Rightarrow> kstate \<Rightarrow> (int \<times> int \<times> int, kstate) kres" where
  "pipe io s =
     kbind (pipe_fd io s) (\<lambda>r s.
       case r of
         Inl r \<Rightarrow> Ret (r, 0, 0) s
       | Inr fd0 \<Rightarrow>
           (let err1 = \<lambda>r s. kbind (usys_page_unmap io 0 fd0 s) (\<lambda>_. Ret (r, 0, 0))
            in kbind (pipe_fd io s) (\<lambda>r s.
                 case r of
                   Inl r \<Rightarrow> err1 r s
                 | Inr fd1 \<Rightarrow>
                     (let va = fd2data fd0;
                          err2 = \<lambda>r s. kbind (usys_page_unmap io 0 fd1 s) (\<lambda>_. err1 r)
                      in kbind (usys_page_alloc io 0 va (PTE_P OR PTE_W OR PTE_U OR PTE_SHARE) s) (\<lambda>r s.
                           if r < 0 then err2 r s
                           else kbind (usys_page_map io 0 va 0 (fd2data fd1) (PTE_P OR PTE_W OR PTE_U OR PTE_SHARE) s) (\<lambda>r s.
                             if r < 0 then kbind (usys_page_unmap io 0 va s) (\<lambda>_. err2 r)
                             else kbind (ustore (fd_dev_id_at fd0) devpipe_id s) (\<lambda>_ s.
                               kbind (ustore (fd_omode_at fd0) O_RDONLY s) (\<lambda>_ s.
                               kbind (ustore (fd_dev_id_at fd1) devpipe_id s) (\<lambda>_ s.
                               kbind (ustore (fd_omode_at fd1) O_WRONLY s) (\<lambda>_ s.
                                 Ret (0, fd2num fd0, fd2num fd1) s))))))))))"

definition devpipe_close :: "sys_io \<Rightarrow> 32 word \<Rightarrow> kstate \<Rightarrow> (int, kstate) kres" where
  "devpipe_close io fd s =
     kbind (usys_page_unmap io 0 fd s) (\<lambda>_. usys_page_unmap io 0 (fd2data fd))"

text \<open>The positions are the first two words of the pipe.\<close>

definition devpipe_stat :: "32 word \<Rightarrow> Stat \<Rightarrow> kstate \<Rightarrow> (int \<times> Stat, kstate) kres" where
  "devpipe_stat fd st s =
     (let p = fd2data fd
      in kbind (uload (p + 4) s) (\<lambda>wpos s. kbind (uload p s) (\<lambda>rpos s.
           Ret (0, st\<lparr>st_name := ''<pipe>'', st_size := sint (wpos - rpos), st_isdir := False, st_dev := devpipe_id\<rparr>) s)))"

text \<open>_pipeisclosed, for the environment thisenv.\<close>

fun pipe_closed_loop :: "nat \<Rightarrow> 32 word \<Rightarrow> 32 word \<Rightarrow> ulib \<Rightarrow> kstate \<Rightarrow> (bool, kstate) kres" where
  "pipe_closed_loop fuel fd p u s =
     (let n = env_runs (envs s (thisenv u))
      in kbind (pageref fd s) (\<lambda>a s. kbind (pageref p s) (\<lambda>b s.
           if n = env_runs (envs s (thisenv u)) then Ret (a = b) s
           else if fuel = 0 then Exit Spins s else pipe_closed_loop (fuel - 1) fd p u s)))"

declare pipe_closed_loop.simps [simp del]

definition pipeisclosed :: "int \<Rightarrow> ulib \<Rightarrow> kstate \<Rightarrow> (int, kstate) kres" where
  "pipeisclosed fdnum u s =
     kbind (fd_lookup fdnum s) (\<lambda>r s.
       case r of
         Inl r \<Rightarrow> Ret r s
       | Inr fd \<Rightarrow> kbind (pipe_closed_loop 1 fd (fd2data fd) u s) (\<lambda>b. Ret (of_bool b)))"

end
