(* ===== verification/Fd_Props.thy ===== *)
theory Fd_Props
  imports Fd Fork_Props
begin

text \<open>
  What fd_alloc, fd_lookup and dup do to the page tables.
\<close>

section \<open>Descriptor addresses\<close>

lemma fd_addr:
  assumes "i < 64"
  shows "unat (INDEX2FD (int i)) = 0xD0000000 + i * 4096"
proof -
  have "INDEX2FD (int i) = of_nat (0xD0000000 + i * 4096)"
    by (simp add: INDEX2FD_def FDTABLE_def PGSIZE_def mult.commute)
  then show ?thesis using assms unat_of_nat_32 [of "0xD0000000 + i * 4096"] by simp
qed

lemma data_addr: "INDEX2DATA (int i) = INDEX2FD (int (i + 32))"
  by (simp add: INDEX2DATA_def INDEX2FD_def FILEDATA_def MAXFD_def PGSIZE_def algebra_simps)

lemma fd_page_facts:
  assumes "i < 64"
  shows "INDEX2FD (int i) < UTOP" "PGOFF (INDEX2FD (int i)) = 0" "user_va (INDEX2FD (int i))"
    "unat (PGNUM (INDEX2FD (int i))) = 0xD0000 + i" "unat (PDX (INDEX2FD (int i))) = 832"
proof -
  note u = fd_addr [OF assms]
  show lt: "INDEX2FD (int i) < UTOP" using u assms by (simp add: word_less_nat_alt layout_values)
  show "user_va (INDEX2FD (int i))" by (rule user_va_UTOP [OF lt])
  have d: "(0xD0000000 + i * 4096) div 4096 = 0xD0000 + i" "(0xD0000000 + i * 4096) mod 4096 = 0" by simp_all
  show "unat (PGNUM (INDEX2FD (int i))) = 0xD0000 + i" unfolding unat_PGNUM u d ..
  have "unat (PGOFF (INDEX2FD (int i))) = 0" unfolding unat_PGOFF u d ..
  then show "PGOFF (INDEX2FD (int i)) = 0" by (simp add: unat_eq_0)
  have "(0xD0000000 + i * 4096) div 4194304 = 832" using assms by simp
  then show "unat (PDX (INDEX2FD (int i))) = 832" unfolding unat_PDX u .
qed

lemma fd_same_page: "i < 64 \<Longrightarrow> j < 64 \<Longrightarrow> PGNUM (INDEX2FD (int i)) = PGNUM (INDEX2FD (int j)) \<longleftrightarrow> i = j"
  by (simp add: word_unat_eq_iff fd_page_facts)

lemma fd2num_INDEX2FD: "i < 64 \<Longrightarrow> fd2num (INDEX2FD (int i)) = int i"
proof -
  assume i: "i < 64"
  have "INDEX2FD (int i) - FDTABLE = of_nat (i * 4096)" by (simp add: INDEX2FD_def PGSIZE_def mult.commute)
  then have "unat ((INDEX2FD (int i) - FDTABLE) div PGSIZE) = i"
    using i unat_of_nat_32 [of "i * 4096"] by (simp add: unat_div PGSIZE_def)
  then show ?thesis using i by (simp add: fd2num_def sint_alt)
qed

lemma fd2data_INDEX2FD: "i < 32 \<Longrightarrow> fd2data (INDEX2FD (int i)) = INDEX2FD (int (i + 32))"
  by (simp add: fd2data_def fd2num_INDEX2FD data_addr)

section \<open>Finding descriptors\<close>

lemma page_mapped_user:
  assumes inv: "vm_inv s D k xs" and run: "runs_in s D c d" and va: "user_va va"
  shows "page_mapped va s = Ret (vm_map s d va \<noteq> None) s"
proof (cases "present (mem s d (unat (PDX va)))")
  case False
  then show ?thesis
    using uvpd_user [OF inv run, of va] by (simp add: page_mapped_def vm_map_def Let_def present_bit and_PTE0)
next
  case True
  then show ?thesis
    using uvpd_user [OF inv run, of va] uvpt_user [OF inv run va True]
    by (simp add: page_mapped_def vm_map_def Let_def present_bit and_PTE0)
qed

lemma fd_scan_find:
  assumes "vm_inv s D k xs" "runs_in s D c d" "\<forall>i \<in> set is. i < 64"
  shows "fd_scan (map int is) s =
    (case List.find (\<lambda>i. vm_map s d (INDEX2FD (int i)) = None) is of
       None \<Rightarrow> Ret (- E_MAX_OPEN, 0) s | Some i \<Rightarrow> Ret (0, INDEX2FD (int i)) s)"
  using assms(3)
proof (induction "is")
  case Nil
  then show ?case by simp
next
  case (Cons i "is")
  have "user_va (INDEX2FD (int i))" using Cons.prems by (intro fd_page_facts(3)) simp
  then show ?case using Cons page_mapped_user [OF assms(1,2)] by simp
qed

lemma fd_alloc_find:
  assumes "vm_inv s D k xs" "runs_in s D c d"
  shows "fd_alloc s =
    (case List.find (\<lambda>i. vm_map s d (INDEX2FD (int i)) = None) [0..<32] of
       None \<Rightarrow> Ret (- E_MAX_OPEN, 0) s | Some i \<Rightarrow> Ret (0, INDEX2FD (int i)) s)"
  unfolding fd_alloc_def MAXFD_def by (rule fd_scan_find [OF assms]) auto

lemma fd_lookup_user:
  assumes "vm_inv s D k xs" "runs_in s D c d"
  shows "fd_lookup n s =
    Ret (if 0 \<le> n \<and> n < 32 \<and> vm_map s d (INDEX2FD n) \<noteq> None then Inr (INDEX2FD n) else Inl (- E_INVAL)) s"
proof (cases "0 \<le> n \<and> n < 32")
  case False
  then show ?thesis by (auto simp: fd_lookup_def MAXFD_def)
next
  case True
  then have "nat n < 64" by auto
  then have "user_va (INDEX2FD n)" using fd_page_facts(3) [of "nat n"] True by simp
  then show ?thesis using True page_mapped_user [OF assms] by (simp add: fd_lookup_def MAXFD_def)
qed

text \<open>
  C26. fd_alloc gives the smallest descriptor number whose page is not mapped, without changing
  anything, and E_MAX_OPEN only when all 32 are mapped.
\<close>

theorem fd_alloc_least:
  assumes "vm_inv s D k xs" "runs_in s D c d"
  shows "(\<forall>i < MAXFD. vm_map s d (INDEX2FD (int i)) \<noteq> None) \<and> fd_alloc s = Ret (- E_MAX_OPEN, 0) s \<or>
    (\<exists>i < MAXFD. fd_alloc s = Ret (0, INDEX2FD (int i)) s \<and> vm_map s d (INDEX2FD (int i)) = None \<and>
       (\<forall>j < i. vm_map s d (INDEX2FD (int j)) \<noteq> None))"
proof (cases "List.find (\<lambda>i. vm_map s d (INDEX2FD (int i)) = None) [0..<32]")
  case None
  then have "\<forall>i < MAXFD. vm_map s d (INDEX2FD (int i)) \<noteq> None" by (auto simp: find_None_iff MAXFD_def)
  then show ?thesis using None fd_alloc_find [OF assms] by simp
next
  case (Some i)
  then have "i < MAXFD \<and> vm_map s d (INDEX2FD (int i)) = None \<and> (\<forall>j < i. vm_map s d (INDEX2FD (int j)) \<noteq> None)"
    unfolding find_Some_iff by (auto simp: MAXFD_def)
  then show ?thesis using Some fd_alloc_find [OF assms] by auto
qed

section \<open>Sharing a descriptor\<close>

text \<open>The count of a data page after one more mapping of it.\<close>

lemma ref_le_Suc:
  assumes inv: "vm_inv s D k xs" "vm_inv t D k ys" and np: "npages t = npages s" "f < npages s"
    and nt: "\<not> table_frame s D f" "\<not> table_frame t D f"
    and old: "\<And>d va w. d \<in> D \<Longrightarrow> user_va va \<Longrightarrow> vm_map t d va = Some w \<Longrightarrow> frame w = f \<Longrightarrow>
      (d = d0 \<and> PGNUM va = PGNUM va0) \<or> (\<exists>w'. vm_map s d va = Some w' \<and> frame w' = f)"
  shows "unat (pp_ref (pages t f)) \<le> Suc (unat (pp_ref (pages s f)))"
proof -
  let ?r = "(d0, unat (PDX va0), unat (PTX va0))"
  have "refs t D f \<subseteq> insert ?r (refs s D f)"
  proof
    fix r assume r: "r \<in> refs t D f"
    obtain d i j where rd: "r = (d, i, j)" by (cases r)
    let ?a = "PGADDR (of_nat i) (of_nat j) 0"
    obtain v where v: "d \<in> D" "i < NUSER" "j < 1024" "vm_map t d ?a = Some v" "frame v = f"
      using r is_ref_data [OF nt(2)] by (auto simp: refs_def rd)
    have ix: "unat (PDX ?a) = i" "unat (PTX ?a) = j" using PDX_PGADDR [of i j] v(2,3) by (simp_all add: NUSER_eq)
    have "user_va ?a" using ix v(2) by (simp only: user_va_def)
    then consider "d = d0" "PGNUM ?a = PGNUM va0" | w' where "vm_map s d ?a = Some w'" "frame w' = f"
      using old [OF v(1) _ v(4,5)] by blast
    then show "r \<in> insert ?r (refs s D f)"
    proof cases
      case 1
      then show ?thesis using ix page_index_eq [of ?a va0] by (simp add: rd)
    next
      case 2
      then show ?thesis using is_ref_data [OF nt(1)] v(1-3) by (auto simp: refs_def rd)
    qed
  qed
  moreover have fin: "finite (refs s D f)" using inv(1) finite_refs by (simp add: vm_inv_def)
  ultimately have "card (refs t D f) \<le> card (insert ?r (refs s D f))" by (intro card_mono) simp_all
  also have "\<dots> \<le> Suc (card (refs s D f))" using fin by (simp add: card_insert_if)
  finally have "card (refs t D f) \<le> Suc (card (refs s D f))" .
  then show ?thesis using ref_eq [OF inv(1) np(2)] ref_eq [OF inv(2)] np by simp
qed


definition share_pte :: "32 word \<Rightarrow> 32 word" where
  "share_pte w = page2pa (frame w) OR (w AND PTE_SYSCALL) OR PTE_P"

lemma dup_page_effect:
  assumes inv: "vm_inv s D k xs" and run: "runs_in s D c d"
    and ova: "ova < UTOP" "PGOFF ova = 0" "vm_map s d ova = Some w" "bit w 2" "unat (pp_ref (pages s (frame w))) < 65535"
    and nva: "nva < UTOP" "PGOFF nva = 0" "present (mem s d (unat (PDX nva)))" "vm_map s d nva = None"
  shows "\<exists>t ys. dup_page io ova nva s = Ret 0 t \<and> vm_inv t D k ys \<and> vm_frame s t \<and> data_same s D xs t \<and>
    dirs_grow s D xs t \<and> set ys \<subseteq> set xs \<and>
    (\<forall>d' \<in> D. \<forall>va'. user_va va' \<longrightarrow>
       vm_map t d' va' = (if d' = d \<and> PGNUM va' = PGNUM nva then Some (share_pte w) else vm_map s d' va'))"
proof -
  have d: "d \<in> D" "curenv s = Some c" "env_pgdir (envs s c) = Some d" using run by (simp_all add: runs_in_def)
  have uva: "user_va ova" by (rule user_va_UTOP [OF ova(1)])
  note sl = vm_map_slot [OF ova(3) d(1) uva]
  have w0: "bit w 0" using sl(3) by (simp add: present_bit)
  have pt: "uvpt (PGNUM ova) s = Ret w s" using uvpt_user [OF inv run uva] sl(1,2) by (simp add: pt_slot_def)
  have tgt: "env_target s c 0 True = Some c" by (simp add: env_target_def)
  have ref: "\<And>w. vm_map s d ova = Some w \<Longrightarrow> unat (pp_ref (pages s (frame w))) < 65535" using ova(3,5) by simp
  have wr: "\<not> ((w AND PTE_SYSCALL) AND PTE_W \<noteq> 0 \<and> w AND PTE_W = 0)"
    unfolding and_PTE and_PTE0 by (simp add: bit_and_iff)
  from sys_page_map_ref [OF inv d(2) ref tgt d(3,1) tgt d(3,1) ova(1,2) nva(1,2) share_perm [OF w0 ova(4)]]
  obtain t where t: "sys_page_map 0 ova 0 nva (w AND PTE_SYSCALL) s = Ret 0 t"
    and sh: "shared s D k xs w d nva (w AND PTE_SYSCALL) 0 t"
    using ova(3) wr nva(3) by auto
  have "dup_page io ova nva s = Ret 0 t" using pt t by (simp add: dup_page_def)
  then show ?thesis using sh nva(4) unfolding shared_def share_pte_def by auto
qed

lemma close_unmapped:
  "vm_inv s D k xs \<Longrightarrow> runs_in s D c d \<Longrightarrow> vm_map s d (INDEX2FD n) = None \<Longrightarrow> close io devtab n s = Ret (- E_INVAL) s"
  by (simp add: close_def fd_lookup_user)

lemma dup_effect:
  assumes inv: "vm_inv s D k xs" and run: "runs_in s D c d" and only: "data_only s D" and half: "refs_half s D"
    and i: "i < 32" "j < 32" and old: "vm_map s d (INDEX2FD (int i)) = Some w" "bit w 2"
    and new: "vm_map s d (INDEX2FD (int j)) = None" "vm_map s d (INDEX2FD (int (j + 32))) = None"
    and data: "\<And>v. vm_map s d (INDEX2FD (int (i + 32))) = Some v \<Longrightarrow> bit v 2"
  shows "\<exists>t ys. dup io devtab (int i) (int j) s = Ret (int j) t \<and> vm_inv t D k ys \<and> set ys \<subseteq> set xs \<and>
    (\<forall>d' \<in> D. \<forall>va. user_va va \<longrightarrow> vm_map t d' va =
       (if d' = d \<and> PGNUM va = PGNUM (INDEX2FD (int j)) then Some (share_pte w)
        else if d' = d \<and> PGNUM va = PGNUM (INDEX2FD (int (j + 32)))
          then map_option share_pte (vm_map s d (INDEX2FD (int (i + 32))))
        else vm_map s d' va)) \<and> data_same s D xs t"
proof -
  let ?o = "INDEX2FD (int i)" and ?n = "INDEX2FD (int j)" and ?a = "INDEX2FD (int (i + 32))"
    and ?b = "INDEX2FD (int (j + 32))"
  have lt: "i < 64" "j < 64" "i + 32 < 64" "j + 32 < 64" using i by simp_all
  note po = fd_page_facts [OF lt(1)] and pn = fd_page_facts [OF lt(2)] and pa = fd_page_facts [OF lt(3)] and pb = fd_page_facts [OF lt(4)]
  have ij: "i \<noteq> j" using old(1) new(1) by auto
  have "i \<noteq> j + 32" "j \<noteq> j + 32" using i by simp_all
  then have ne: "PGNUM ?o \<noteq> PGNUM ?b" "PGNUM ?n \<noteq> PGNUM ?b" "PGNUM ?o \<noteq> PGNUM ?n"
    using fd_same_page [OF lt(1,4)] fd_same_page [OF lt(2,4)] fd_same_page [OF lt(1,2)] ij by blast+
  have d: "d \<in> D" using run by (simp add: runs_in_def)
  have pres: "present (mem s d 832)"
    using vm_map_slot(1) [OF old(1) d po(3)] po(5) by (simp add: pt_slot_def)
  have fit: "unat (pp_ref (pages s (frame v))) < 65534" if "user_va va" "vm_map s d va = Some v" for va v
    using half d that unfolding refs_half_def by fastforce
  have start: "dup io devtab (int i) (int j) s =
     (let err = \<lambda>r s. kbind (usys_page_unmap io 0 ?n s) (\<lambda>_ s. kbind (usys_page_unmap io 0 ?b s) (\<lambda>_. Ret r))
      in kbind (if vm_map s d ?a \<noteq> None then dup_page io ?a ?b s else Ret 0 s) (\<lambda>r s.
                    if r < 0 then err r s
                    else kbind (dup_page io ?o ?n s) (\<lambda>r s. if r < 0 then err r s else Ret (int j) s)))"
    using i old(1) close_unmapped [OF inv run new(1), of io devtab]
    by (simp add: dup_def fd_lookup_user [OF inv run] fd2data_INDEX2FD [OF i(1)] fd2data_INDEX2FD [OF i(2)]
        page_mapped_user [OF inv run pa(3)] Let_def del: of_nat_add cong: if_cong)
  have "\<exists>u zs. (if vm_map s d ?a \<noteq> None then dup_page io ?a ?b s else Ret 0 s) = Ret 0 u \<and> vm_inv u D k zs \<and>
      vm_frame s u \<and> data_same s D xs u \<and> dirs_grow s D xs u \<and> set zs \<subseteq> set xs \<and>
      (\<forall>d' \<in> D. \<forall>va. user_va va \<longrightarrow> vm_map u d' va =
         (if d' = d \<and> PGNUM va = PGNUM ?b then map_option share_pte (vm_map s d ?a) else vm_map s d' va))"
  proof (cases "vm_map s d ?a")
    case None
    have "vm_map s d va = None" if "PGNUM va = PGNUM ?b" for va using vm_map_page [OF that] new(2) by simp
    then show ?thesis using None inv by (intro exI [of _ s] exI [of _ xs]) auto
  next
    case (Some v)
    have r: "unat (pp_ref (pages s (frame v))) < 65535" using fit [OF pa(3) Some] by simp
    have "present (mem s d (unat (PDX ?b)))" using pres pb(5) by simp
    from dup_page_effect [OF inv run pa(1,2) Some data [OF Some] r pb(1,2) this new(2), of io]
    show ?thesis by (simp only: Some option.map option.distinct not_False_eq_True if_True)
  qed
  then obtain u zs where u: "(if vm_map s d ?a \<noteq> None then dup_page io ?a ?b s else Ret 0 s) = Ret 0 u" "vm_inv u D k zs"
      "vm_frame s u" "data_same s D xs u" "dirs_grow s D xs u" "set zs \<subseteq> set xs"
    and mu: "\<forall>d' \<in> D. \<forall>va. user_va va \<longrightarrow> vm_map u d' va =
         (if d' = d \<and> PGNUM va = PGNUM ?b then map_option share_pte (vm_map s d ?a) else vm_map s d' va)"
    by blast
  note runu = runs_in_grow [OF run u(3,5)]
  have mo: "vm_map u d ?o = Some w" and mn: "vm_map u d ?n = None"
    using mu d po(3) pn(3) ne old(1) new(1) by simp_all
  have ft: "\<not> table_frame s D (frame w)" "frame w \<notin> set xs" "frame w < npages s"
    using only d po(3) old(1) mapped_page [OF inv d po(3) old(1)] unfolding data_only_def by blast+
  have ref: "unat (pp_ref (pages u (frame w))) < 65535"
  proof -
    have "unat (pp_ref (pages u (frame w))) \<le> Suc (unat (pp_ref (pages s (frame w))))"
    proof (rule ref_le_Suc [OF inv u(2) _ ft(3,1)])
      show "npages u = npages s" using vm_frame_sel(1) [OF u(3)] .
      show "\<not> table_frame u D (frame w)" using table_frame_grow [OF u(5) xs_small [OF inv]] ft by blast
      show "(d' = d \<and> PGNUM va = PGNUM ?b) \<or> (\<exists>w'. vm_map s d' va = Some w' \<and> frame w' = frame w)"
        if "d' \<in> D" "user_va va" "vm_map u d' va = Some v" "frame v = frame w" for d' va v
        using mu that by (auto split: if_splits)
    qed
    then show ?thesis using fit [OF po(3) old(1)] by simp
  qed
  have presu: "present (mem u d (unat (PDX ?n)))"
    using vm_map_slot(1) [OF mo d po(3)] po(5) pn(5) by (simp add: pt_slot_def)
  obtain t ys where t: "dup_page io ?o ?n u = Ret 0 t" "vm_inv t D k ys" "data_same u D zs t" "set ys \<subseteq> set zs"
    and mt: "\<forall>d' \<in> D. \<forall>va. user_va va \<longrightarrow>
       vm_map t d' va = (if d' = d \<and> PGNUM va = PGNUM ?n then Some (share_pte w) else vm_map u d' va)"
    using dup_page_effect [OF u(2) runu po(1,2) mo old(2) ref pn(1,2) presu mn, of io] by blast
  have "data_same s D xs t"
    unfolding data_same_def
  proof (intro allI impI)
    fix q assume q: "\<not> table_frame s D q" "q \<notin> set xs"
    then have "\<not> table_frame u D q" using table_frame_grow [OF u(5) xs_small [OF inv]] by blast
    then show "mem t q = mem s q" using t(3) u(4,6) q by (auto simp: data_same_def)
  qed
  moreover have "dup io devtab (int i) (int j) s = Ret (int j) t" using start u(1) t(1) by simp
  ultimately show ?thesis using t(2,4) u(6) mt mu ne(2) by (intro exI [of _ t] exI [of _ ys]) auto
qed

text \<open>
  C7. dup of an open descriptor to a closed one: afterwards the new descriptor's page and, if
  the old one has a data page, its data page are the same frames with the same rights, so that offset and
  contents are shared. No other mapping of any environment changes and no contents do.
\<close>

theorem dup_shares:
  assumes "vm_inv s D k xs" "runs_in s D c d" "data_only s D" "refs_half s D"
    and "i < MAXFD" "j < MAXFD" "vm_map s d (INDEX2FD (int i)) = Some w" "w AND PTE_U \<noteq> 0"
    and "vm_map s d (INDEX2FD (int j)) = None" "vm_map s d (INDEX2DATA (int j)) = None"
    and "\<forall>v. vm_map s d (INDEX2DATA (int i)) = Some v \<longrightarrow> v AND PTE_U \<noteq> 0"
  shows "\<exists>t ys. dup io devtab (int i) (int j) s = Ret (int j) t \<and> vm_inv t D k ys \<and>
    (\<forall>d' \<in> D. \<forall>va. user_va va \<longrightarrow> vm_map t d' va =
       (if d' = d \<and> PGNUM va = PGNUM (INDEX2FD (int j)) then Some (share_pte w)
        else if d' = d \<and> PGNUM va = PGNUM (INDEX2DATA (int j))
          then map_option share_pte (vm_map s d (INDEX2DATA (int i)))
        else vm_map s d' va)) \<and> data_same s D xs t"
proof -
  have b: "i < 32" "j < 32" "bit w 2" using assms(5,6,8) by (simp_all add: MAXFD_def and_PTE)
  have dat: "\<And>v. vm_map s d (INDEX2FD (int (i + 32))) = Some v \<Longrightarrow> bit v 2"
    using assms(11) unfolding and_PTE data_addr by blast
  show ?thesis
    using dup_effect [OF assms(1-4) b(1,2) assms(7) b(3) assms(9) assms(10) [unfolded data_addr] dat, of io devtab]
    unfolding data_addr by blast
qed


section \<open>An environment with descriptor 0 open\<close>

definition demo_fd :: kstate where
  "demo_fd = (blank_state 6 6)\<lparr>page_free_list := Some 5, curenv := Some 0, cr3 := 1,
     pages := (\<lambda>p. \<lparr>pp_link = None, pp_ref = (if p < 5 then 1 else 0)\<rparr>),
     mem := (\<lambda>_ _. 0)(1 := (\<lambda>_. 0)(832 := 0x2007, 957 := 0x1005), 2 := (\<lambda>_. 0)(0 := 0x3407, 32 := 0x4407)),
     envs := (\<lambda>_. blank_env)(0 := blank_env\<lparr>env_id := 0x1000, env_status := ENV_RUNNING, env_pgdir := Some 1\<rparr>)\<rparr>"

lemma demo_fd_sel [simp]:
  "npages demo_fd = 6" "curenv demo_fd = Some 0" "cr3 demo_fd = 1" "page_free_list demo_fd = Some 5"
  "pp_link (pages demo_fd p) = None" "pp_ref (pages demo_fd p) = (if p < 5 then 1 else 0)"
  "env_pgdir (envs demo_fd 0) = Some 1"
  "mem demo_fd = (\<lambda>_ _. 0)(1 := (\<lambda>_. 0)(832 := 0x2007, 957 := 0x1005), 2 := (\<lambda>_. 0)(0 := 0x3407, 32 := 0x4407))"
  by (simp_all add: demo_fd_def blank_state_def)

lemma demo_fd_ptes [simp]:
  "present 0x3407" "frame 0x3407 = 3" "present 0x4407" "frame 0x4407 = 4"
  by (simp_all add: present_def PTE_P_def frame_def unat_PGNUM)

lemma demo_fd_refs:
  "refs demo_fd {1} p =
     (if p = 1 then {(1, 1024, 0)} else if p = 2 then {(1, 832, 1024)}
      else if p = 3 then {(1, 832, 0)} else if p = 4 then {(1, 832, 32)} else {})"
  by (auto simp: refs_def is_ref_def NUSER_eq split: if_splits)

lemma demo_fd_inv: "vm_inv demo_fd {1} fork_handles [5]"
proof -
  have "free_list_ok demo_fd [5]" by (auto simp: free_list_ok_def)
  moreover have "tables_ok demo_fd {1}" by (auto simp: tables_ok_def NUSER_eq split: if_splits)
  moreover have "counts_ok demo_fd {1} fork_handles" unfolding counts_ok_def demo_fd_refs by auto
  ultimately show ?thesis by (simp add: vm_inv_def)
qed

lemma demo_fd_map:
  "vm_map demo_fd 1 va =
    (if unat (PDX va) = 832 \<and> unat (PTX va) = 0 then Some 0x3407
     else if unat (PDX va) = 832 \<and> unat (PTX va) = 32 then Some 0x4407
     else if unat (PDX va) = 957 then vm_map demo_fd 1 va else None)"
  by (auto simp: vm_map_def)

lemma demo_fd_user:
  assumes "user_va va"
  shows "vm_map demo_fd 1 va =
    (if unat (PGNUM va) = 0xD0000 then Some 0x3407 else if unat (PGNUM va) = 0xD0020 then Some 0x4407 else None)"
proof -
  have u: "unat (PDX va) = unat (PGNUM va) div 1024" "unat (PTX va) = unat (PGNUM va) mod 1024" 
    by (simp_all add: unat_PDX unat_PTX unat_PGNUM div_4194304)
  have iff: "n div 1024 = 832 \<and> n mod 1024 = r \<longleftrightarrow> n = 851968 + r" if "r < 1024" for n r :: nat
  proof
    assume "n div 1024 = 832 \<and> n mod 1024 = r"
    then show "n = 851968 + r" using div_mult_mod_eq [of n 1024] by simp
  next
    assume n: "n = 851968 + r"
    have "n = r + 832 * 1024" using n by simp
    then show "n div 1024 = 832 \<and> n mod 1024 = r" using that by (simp only: div_mult_self1 mod_mult_self1) simp
  qed
  show ?thesis
    using assms iff [of 0 "unat (PGNUM va)"] iff [of 32 "unat (PGNUM va)"] demo_fd_map [of va]
    unfolding user_va_def NUSER_eq u by auto
qed


lemma demo_fd_ok: "runs_in demo_fd {1} 0 1" "data_only demo_fd {1}" "refs_half demo_fd {1}"
proof -
  have tab: "table_frame demo_fd {1} q \<longleftrightarrow> q = 1 \<or> q = 2" for q
    by (auto simp: table_frame_def NUSER_eq split: if_splits)
  have i: "unat (PDX UVPT) = 957" by (simp add: unat_PDX layout_values)
  have w: "(0x1005 :: 32 word) = page2pa 1 OR PTE_P OR PTE_U" by (simp add: page2pa_def layout_defs)
  have b: "bit (0x2007 :: 32 word) 1" "bit (0x2007 :: 32 word) 2" by (simp_all add: bit_numeral_rec numeral_2_eq_2)
  show "runs_in demo_fd {1} 0 1" unfolding runs_in_def i using b by (auto simp: w NUSER_eq)
  show "data_only demo_fd {1}"
    unfolding data_only_def tab using demo_fd_user by (auto simp del: demo_fd_sel split: if_splits)
  show "refs_half demo_fd {1}" unfolding refs_half_def by (simp del: demo_fd_sel(8))
qed

lemma demo_fd_pages:
  "vm_map demo_fd 1 (INDEX2FD (int 0)) = Some 0x3407" "vm_map demo_fd 1 (INDEX2FD (int 1)) = None"
  "vm_map demo_fd 1 (INDEX2DATA (int 0)) = Some 0x4407" "vm_map demo_fd 1 (INDEX2DATA (int 1)) = None"
proof -
  have m: "vm_map demo_fd 1 (INDEX2FD (int i)) =
      (if i = 0 then Some 0x3407 else if i = 32 then Some 0x4407 else None)" if "i < 64" for i
    using demo_fd_user [OF fd_page_facts(3) [OF that]] fd_page_facts(4) [OF that] by simp
  show "vm_map demo_fd 1 (INDEX2FD (int 0)) = Some 0x3407" "vm_map demo_fd 1 (INDEX2FD (int 1)) = None"
    using m [of 0] m [of 1] by simp_all
  show "vm_map demo_fd 1 (INDEX2DATA (int 0)) = Some 0x4407" "vm_map demo_fd 1 (INDEX2DATA (int 1)) = None"
    unfolding data_addr using m [of 32] m [of 33] by simp_all
qed

theorem fd_alloc_least_witness: "fd_alloc demo_fd = Ret (0, INDEX2FD 1) demo_fd"
proof -
  have one: "1 < MAXFD" by (simp add: MAXFD_def)
  from fd_alloc_least [OF demo_fd_inv demo_fd_ok(1)] obtain i where
    "fd_alloc demo_fd = Ret (0, INDEX2FD (int i)) demo_fd" "vm_map demo_fd 1 (INDEX2FD (int i)) = None"
    "\<forall>j < i. vm_map demo_fd 1 (INDEX2FD (int j)) \<noteq> None"
    using demo_fd_pages(2) one by blast
  moreover from this have "i = 1" using demo_fd_pages(1,2) by (metis less_one linorder_neqE_nat option.distinct(1))
  ultimately show ?thesis by simp
qed

theorem dup_shares_witness:
  "\<forall>io devtab. \<exists>t. dup io devtab 0 1 demo_fd = Ret 1 t \<and>
     vm_map t 1 (INDEX2FD 1) = Some (share_pte 0x3407) \<and> vm_map t 1 (INDEX2DATA 1) = Some (share_pte 0x4407)"
proof (intro allI)
  fix io devtab
  have u: "(0x3407 :: 32 word) AND PTE_U \<noteq> 0" "(0x4407 :: 32 word) AND PTE_U \<noteq> 0" by (simp_all add: layout_defs)
  have i: "0 < MAXFD" "1 < MAXFD" by (simp_all add: MAXFD_def)
  have data: "\<forall>v. vm_map demo_fd 1 (INDEX2DATA (int 0)) = Some v \<longrightarrow> v AND PTE_U \<noteq> 0"
    using demo_fd_pages(3) u(2) by simp
  obtain t where t: "dup io devtab (int 0) (int 1) demo_fd = Ret (int 1) t"
    and m: "\<forall>d' \<in> {1}. \<forall>va. user_va va \<longrightarrow> vm_map t d' va =
       (if d' = 1 \<and> PGNUM va = PGNUM (INDEX2FD (int 1)) then Some (share_pte 0x3407)
        else if d' = 1 \<and> PGNUM va = PGNUM (INDEX2DATA (int 1))
          then map_option share_pte (vm_map demo_fd 1 (INDEX2DATA (int 0)))
        else vm_map demo_fd d' va)"
    using dup_shares [OF demo_fd_inv demo_fd_ok i demo_fd_pages(1) u(1) demo_fd_pages(2,4) data, of io devtab] by blast
  have a: "user_va (INDEX2FD (int 1))" "user_va (INDEX2DATA (int 1))"
    "PGNUM (INDEX2DATA (int 1)) \<noteq> PGNUM (INDEX2FD (int 1))"
    unfolding data_addr using fd_page_facts(3) [of 1] fd_page_facts(3) [of 33] fd_same_page [of 33 1] by simp_all
  note mt = bspec [OF m singletonI, rule_format]
  have "vm_map t 1 (INDEX2FD (int 1)) = Some (share_pte 0x3407)"
    "vm_map t 1 (INDEX2DATA (int 1)) = Some (share_pte 0x4407)"
    using mt [OF a(1)] mt [OF a(2)] a(3) demo_fd_pages(3) by (simp_all only: simp_thms if_True if_False option.map)
  then show "\<exists>t. dup io devtab 0 1 demo_fd = Ret 1 t \<and>
     vm_map t 1 (INDEX2FD 1) = Some (share_pte 0x3407) \<and> vm_map t 1 (INDEX2DATA 1) = Some (share_pte 0x4407)"
    using t by auto
qed

end
