(* ===== verification/Boot_Map.thy ===== *)
theory Boot_Map
  imports Pmap_Map "HOL-Library.Sublist"
begin

text \<open>
  boot_map_region of kern/pmap.c: the kernel's own part of a page directory. The invariant
  kmap_inv describes a directory under construction: its entry for itself, page tables of
  its own in the slots above UTOP, nothing below, and enough free pages for the tables that are missing
  and r more.
\<close>

section \<open>The kernel's directory\<close>

definition self_slot :: nat where "self_slot = unat (PDX UVPT)"

lemma self_slot_eq: "self_slot = 957"
  by (simp add: self_slot_def unat_PDX layout_values)

definition table_pde :: "nat \<Rightarrow> 32 word" where
  "table_pde x = page2pa x OR PTE_P OR PTE_W OR PTE_U"

definition missing :: "kstate \<Rightarrow> nat \<Rightarrow> nat set" where
  "missing s d = {i. NUSER \<le> i \<and> i < 1024 \<and> i \<noteq> self_slot \<and> mem s d i = 0}"

definition kmap_inv :: "nat \<Rightarrow> kstate \<Rightarrow> nat \<Rightarrow> nat list \<Rightarrow> bool" where
  "kmap_inv r s d xs \<longleftrightarrow> free_list_ok s xs \<and> d < npages s \<and> d \<notin> set xs \<and>
     mem s d self_slot = page2pa d OR PTE_U OR PTE_P \<and>
     (\<forall>i < 1024. i \<noteq> self_slot \<longrightarrow> mem s d i \<noteq> 0 \<longrightarrow>
        NUSER \<le> i \<and> (\<exists>x. mem s d i = table_pde x \<and> x < npages s \<and> x \<notin> set xs \<and> x \<noteq> d)) \<and>
     (\<forall>i < 1024. \<forall>j < 1024. i \<noteq> self_slot \<and> j \<noteq> self_slot \<and> mem s d i \<noteq> 0 \<and> mem s d i = mem s d j \<longrightarrow> i = j) \<and>
     card (missing s d) + r \<le> length xs"

lemma table_pde_decode: "x < 2 ^ 20 \<Longrightarrow> present (table_pde x) \<and> frame (table_pde x) = x \<and> table_pde x \<noteq> 0"
  using new_pde_decode [of x] present_0 unfolding table_pde_def by metis

lemma table_pde_inj: "x < 2 ^ 20 \<Longrightarrow> y < 2 ^ 20 \<Longrightarrow> table_pde x = table_pde y \<longleftrightarrow> x = y"
  using table_pde_decode by metis

text \<open>A slot the region may use.\<close>

definition kslot :: "nat \<Rightarrow> bool" where "kslot i \<longleftrightarrow> NUSER \<le> i \<and> i < 1024 \<and> i \<noteq> self_slot"

lemma kmap_table:
  assumes "kmap_inv r s d xs" "i < 1024" "i \<noteq> self_slot" "mem s d i \<noteq> 0"
  shows "present (mem s d i)" "frame (mem s d i) < npages s" "frame (mem s d i) \<notin> set xs" "frame (mem s d i) \<noteq> d"
    "mem s d i = table_pde (frame (mem s d i))" "NUSER \<le> i"
proof -
  obtain x where x: "mem s d i = table_pde x" "x < npages s" "x \<notin> set xs" "x \<noteq> d" and i: "NUSER \<le> i"
    using assms unfolding kmap_inv_def by blast
  have "x < 2 ^ 20" using x(2) assms(1) by (simp add: kmap_inv_def free_list_ok_def)
  note t = table_pde_decode [OF this]
  show "present (mem s d i)" "frame (mem s d i) < npages s" "frame (mem s d i) \<notin> set xs" "frame (mem s d i) \<noteq> d"
    "mem s d i = table_pde (frame (mem s d i))" "NUSER \<le> i"
    using t x i by simp_all
qed

lemma kmap_table_unique:
  assumes "kmap_inv r s d xs" "i < 1024" "i \<noteq> self_slot" "mem s d i \<noteq> 0" "j < 1024" "j \<noteq> self_slot" "mem s d j \<noteq> 0"
    "frame (mem s d i) = frame (mem s d j)"
  shows "i = j"
proof -
  have "mem s d i = mem s d j"
    using kmap_table(5) [OF assms(1-4)] kmap_table(5) [OF assms(1,5-7)] assms(8) by metis
  then show ?thesis using assms unfolding kmap_inv_def by blast
qed

section \<open>The walk\<close>

lemma kmap_walk_hit:
  assumes "kmap_inv r s d xs" "kslot (unat (PDX va))" "mem s d (unat (PDX va)) \<noteq> 0"
  shows "pgdir_walk d va True s = Ret (Some (frame (mem s d (unat (PDX va))), unat (PTX va))) s"
proof -
  let ?e = "mem s d (unat (PDX va))"
  have t: "present ?e" "frame ?e < npages s" using kmap_table [OF assms(1)] assms(2,3) by (simp_all add: kslot_def)
  then obtain kva where "KADDR (npages s) (PTE_ADDR ?e) = Some kva" "kva_frame kva = frame ?e"
    using KADDR_Some [of "PTE_ADDR ?e" "npages s"] by (auto simp: frame_def PGNUM_PTE_ADDR)
  then show ?thesis using t(1) by (simp add: pgdir_walk_def Let_def present_def)
qed

lemma new_pt_entry: "d \<noteq> x \<Longrightarrow> mem (new_pt d i x s) d j = (if j = i then table_pde x else mem s d j)"
  by (simp add: new_pt_mem table_pde_def)

lemma kmap_new_pt:
  assumes inv: "kmap_inv r s d (x # xs)" and i: "kslot i" and zero: "mem s d i = 0"
  shows "kmap_inv r (new_pt d i x s) d xs"
proof -
  have fl: "free_list_ok s (x # xs)" and xd: "x \<noteq> d" using inv by (auto simp: kmap_inv_def)
  have x: "x < npages s" "x < 2 ^ 20" "x \<notin> set xs" using fl by (auto simp: free_list_ok_def)
  note e = new_pt_entry [OF xd [symmetric], of i s]
  have ne: "frame (mem s d j) \<noteq> x" if "j < 1024" "j \<noteq> self_slot" "mem s d j \<noteq> 0" for j
    using kmap_table(3) [OF inv that] by auto
  have old: "NUSER \<le> j \<and> (\<exists>y. mem s d j = table_pde y \<and> y < npages s \<and> y \<notin> set xs \<and> y \<noteq> d)"
    if "j < 1024" "j \<noteq> self_slot" "mem s d j \<noteq> 0" for j
    using kmap_table [OF inv that] by auto
  have other: "mem s d j \<noteq> table_pde x" if "j < 1024" "j \<noteq> self_slot" "mem s d j \<noteq> 0" for j
    using ne [OF that] table_pde_decode [OF x(2)] by metis
  have nz: "table_pde x \<noteq> 0" using table_pde_decode [OF x(2)] by blast
  have uniq: "a = b" if "a < 1024" "b < 1024" "a \<noteq> self_slot" "b \<noteq> self_slot" "mem (new_pt d i x s) d a \<noteq> 0"
      "mem (new_pt d i x s) d a = mem (new_pt d i x s) d b" for a b
  proof (cases "a = i \<or> b = i")
    case True
    then show ?thesis using that other [of a] other [of b] nz zero by (auto simp: e split: if_splits)
  next
    case False
    then have "mem s d a \<noteq> 0" "mem s d a = mem s d b" using that by (simp_all add: e)
    then show ?thesis using inv that(1-4) unfolding kmap_inv_def by blast
  qed
  have "missing s d = insert i (missing (new_pt d i x s) d)"
    using i zero table_pde_decode [OF x(2)] by (auto simp: missing_def e kslot_def)
  moreover have "i \<notin> missing (new_pt d i x s) d" using table_pde_decode [OF x(2)] by (simp add: missing_def e)
  moreover have "finite (missing (new_pt d i x s) d)" by (simp add: missing_def)
  ultimately have "card (missing (new_pt d i x s) d) + r \<le> length xs"
    using inv by (simp add: kmap_inv_def)
  moreover have "\<forall>j < 1024. j \<noteq> self_slot \<longrightarrow> mem (new_pt d i x s) d j \<noteq> 0 \<longrightarrow>
        NUSER \<le> j \<and> (\<exists>y. mem (new_pt d i x s) d j = table_pde y \<and> y < npages s \<and> y \<notin> set xs \<and> y \<noteq> d)"
    using old x xd i by (auto simp: e kslot_def)
  moreover have "mem (new_pt d i x s) d self_slot = page2pa d OR PTE_U OR PTE_P"
    using inv i by (simp add: e kmap_inv_def kslot_def)
  moreover have "\<forall>a < 1024. \<forall>b < 1024. a \<noteq> self_slot \<and> b \<noteq> self_slot \<and> mem (new_pt d i x s) d a \<noteq> 0 \<and>
      mem (new_pt d i x s) d a = mem (new_pt d i x s) d b \<longrightarrow> a = b"
    using uniq by blast
  moreover have "d < npages s" "d \<notin> set xs" using inv by (simp_all add: kmap_inv_def)
  ultimately show ?thesis
    unfolding kmap_inv_def new_pt_sel using new_pt_free_list [OF fl] by blast
qed

lemma kmap_new_pt_map:
  assumes inv: "kmap_inv r s d (x # xs)" and i: "kslot i" and zero: "mem s d i = 0"
    and va: "unat (PDX va) \<noteq> self_slot"
  shows "vm_map (new_pt d i x s) d va = vm_map s d va"
proof -
  have fl: "free_list_ok s (x # xs)" and xd: "x \<noteq> d" using inv by (auto simp: kmap_inv_def)
  have x20: "x < 2 ^ 20" using fl by (auto simp: free_list_ok_def)
  note e = new_pt_entry [OF xd [symmetric], of i s]
  let ?j = "unat (PDX va)"
  have j: "?j < 1024" by (rule PDX_less)
  have zx: "mem (new_pt d i x s) x l = 0" for l using xd by (simp add: new_pt_mem)
  show ?thesis
  proof (cases "?j = i")
    case True
    then show ?thesis using zero zx table_pde_decode [OF x20] by (simp add: vm_map_def Let_def e)
  next
    case False
    show ?thesis
    proof (cases "mem s d ?j = 0")
      case True
      then show ?thesis using False by (simp add: vm_map_def Let_def e)
    next
      case nz: False
      note t = kmap_table [OF inv j va nz]
      have "mem (new_pt d i x s) (frame (mem s d ?j)) = mem s (frame (mem s d ?j))"
        using t(3,4) by (simp add: new_pt_mem)
      then show ?thesis using False by (simp add: vm_map_def Let_def e)
    qed
  qed
qed

section \<open>Writing an entry\<close>

lemma kmap_store:
  assumes inv: "kmap_inv r s d xs" and i: "kslot i" and nz: "mem s d i \<noteq> 0"
  shows "kmap_inv r (store (frame (mem s d i)) j w s) d xs"
proof -
  have "frame (mem s d i) \<noteq> d" using kmap_table(4) [OF inv _ _ nz] i by (simp add: kslot_def)
  then have e: "mem (store (frame (mem s d i)) j w s) d = mem s d" by simp
  show ?thesis using inv unfolding kmap_inv_def missing_def free_list_ok_store store_sel(3) e .
qed

lemma kmap_store_map:
  assumes inv: "kmap_inv r s d xs" and va: "kslot (unat (PDX va))" "mem s d (unat (PDX va)) \<noteq> 0"
    and va': "unat (PDX va') \<noteq> self_slot" and w: "present w"
  shows "vm_map (store (frame (mem s d (unat (PDX va)))) (unat (PTX va)) w s) d va' =
    (if PGNUM va' = PGNUM va then Some w else vm_map s d va')"
proof -
  let ?i = "unat (PDX va)" and ?i' = "unat (PDX va')"
  have i: "?i < 1024" "?i \<noteq> self_slot" using va(1) by (simp_all add: kslot_def)
  note t = kmap_table [OF inv i va(2)]
  have same: "frame (mem s d ?i') = frame (mem s d ?i) \<longleftrightarrow> ?i' = ?i" if "mem s d ?i' \<noteq> 0"
    using kmap_table_unique [OF inv PDX_less va' that i va(2)] by auto
  show ?thesis
  proof (cases "mem s d ?i' = 0")
    case True
    then have "PGNUM va' \<noteq> PGNUM va" using va(2) page_index_eq [of va' va] by auto
    then show ?thesis using True t(4) by (simp add: vm_map_def Let_def)
  next
    case False
    then show ?thesis
      using t(1,4) w same [OF False] page_index_eq [of va' va] by (auto simp: vm_map_def Let_def)
  qed
qed

text \<open>One round of the loop: the table is there afterwards, and the entry is written.\<close>

lemma kmap_step:
  assumes inv: "kmap_inv r s d xs" and va: "kslot (unat (PDX va))" and w: "present w"
  shows "\<exists>f t ys. pgdir_walk d va True s = Ret (Some (f, unat (PTX va))) t \<and>
    kmap_inv r (store f (unat (PTX va)) w t) d ys \<and> suffix ys xs \<and> vm_frame s (store f (unat (PTX va)) w t) \<and>
    (\<forall>va'. unat (PDX va') \<noteq> self_slot \<longrightarrow>
       vm_map (store f (unat (PTX va)) w t) d va' = (if PGNUM va' = PGNUM va then Some w else vm_map s d va')) \<and>
    mem (store f (unat (PTX va)) w t) d (unat (PDX va)) \<noteq> 0 \<and>
    (\<forall>i. i \<noteq> unat (PDX va) \<longrightarrow> mem (store f (unat (PTX va)) w t) d i = mem s d i)"
proof (cases "mem s d (unat (PDX va)) = 0")
  case False
  have nd: "frame (mem s d (unat (PDX va))) \<noteq> d"
    using kmap_table(4) [OF inv _ _ False] va by (simp add: kslot_def)
  show ?thesis
    using kmap_walk_hit [OF inv va False] kmap_store [OF inv va False] kmap_store_map [OF inv va False _ w] False nd
    by (auto simp: store_frame)
next
  case True
  have "card (missing s d) + r \<le> length xs" using inv by (simp add: kmap_inv_def)
  moreover have "unat (PDX va) \<in> missing s d" using va True by (simp add: missing_def kslot_def)
  moreover have "finite (missing s d)" by (simp add: missing_def)
  ultimately obtain x ys where xs: "xs = x # ys" by (cases xs) auto
  have fl: "free_list_ok s (x # ys)" and xd: "x \<noteq> d" using inv xs by (auto simp: kmap_inv_def)
  have x20: "x < 2 ^ 20" using fl by (auto simp: free_list_ok_def)
  let ?t = "new_pt d (unat (PDX va)) x s"
  have np: "\<not> present (mem s d (unat (PDX va)))" using True by simp
  have invt: "kmap_inv r ?t d ys" using kmap_new_pt [OF _ va True] inv xs by simp
  note e = new_pt_entry [OF xd [symmetric], of "unat (PDX va)" s]
  have en: "mem ?t d (unat (PDX va)) \<noteq> 0" "frame (mem ?t d (unat (PDX va))) = x"
    using table_pde_decode [OF x20] by (simp_all add: e)
  have mt: "vm_map ?t d va' = vm_map s d va'" if "unat (PDX va') \<noteq> self_slot" for va'
    using kmap_new_pt_map [OF _ va True that] inv xs by simp
  have walk: "pgdir_walk d va True s = Ret (Some (x, unat (PTX va))) ?t" by (rule pgdir_walk_new [OF fl np])
  have st: "kmap_inv r (store x (unat (PTX va)) w ?t) d ys" using kmap_store [OF invt va en(1)] en(2) by simp
  have mp: "vm_map (store x (unat (PTX va)) w ?t) d va' = (if PGNUM va' = PGNUM va then Some w else vm_map s d va')"
    if "unat (PDX va') \<noteq> self_slot" for va'
    using kmap_store_map [OF invt va en(1) that w] en(2) mt [OF that] by simp
  have dirs: "mem (store x (unat (PTX va)) w ?t) d i = mem ?t d i" for i using xd by simp
  have "vm_frame s (store x (unat (PTX va)) w ?t)" by (rule vm_frame_trans [OF new_pt_frame store_frame])
  moreover have "\<forall>i. i \<noteq> unat (PDX va) \<longrightarrow> mem (store x (unat (PTX va)) w ?t) d i = mem s d i"
    unfolding dirs e by simp
  moreover have "suffix ys xs" using xs by (simp add: suffix_Cons)
  moreover have "mem (store x (unat (PTX va)) w ?t) d (unat (PDX va)) \<noteq> 0" unfolding dirs by (rule en(1))
  ultimately show ?thesis using walk st mp by blast
qed


section \<open>The loop\<close>

text \<open>The entry of a page of the region that starts at va and is mapped from pa on.\<close>

definition region_pte :: "32 word \<Rightarrow> 32 word \<Rightarrow> 32 word \<Rightarrow> 32 word \<Rightarrow> 32 word" where
  "region_pte pa perm va va' = (pa + (PGNUM va' - PGNUM va) * PGSIZE) OR perm OR PTE_P"

lemma of_nat_unat_32: "of_nat (unat w) = (w :: 32 word)"
  by simp

lemma page_step:
  assumes "unat (PGNUM va) + k < 2 ^ 20" "PGOFF va = 0"
  shows "unat (PGNUM (va + of_nat k * PGSIZE)) = unat (PGNUM va) + k" "PGOFF (va + of_nat k * PGSIZE) = 0"
proof -
  have m: "unat va mod 4096 = 0" using assms(2) unat_PGOFF [of va] by simp
  have d: "unat va = 4096 * unat (PGNUM va)" using m div_mult_mod_eq [of "unat va" 4096] by (simp add: unat_PGNUM)
  have "va = of_nat (4096 * unat (PGNUM va))" using d by (metis of_nat_unat_32)
  then have "va + of_nat k * PGSIZE = of_nat (4096 * unat (PGNUM va)) + of_nat k * 4096" by (metis PGSIZE_def)
  then have e: "va + of_nat k * PGSIZE = of_nat (4096 * (unat (PGNUM va) + k))" by (simp add: algebra_simps)
  have "4096 * (unat (PGNUM va) + k) < 2 ^ 32" using assms(1) by simp
  then have u: "unat (va + of_nat k * PGSIZE) = 4096 * (unat (PGNUM va) + k)"
    unfolding e by (rule unat_of_nat_32)
  show "unat (PGNUM (va + of_nat k * PGSIZE)) = unat (PGNUM va) + k" unfolding unat_PGNUM u by simp
  have "unat (PGOFF (va + of_nat k * PGSIZE)) = 0" unfolding unat_PGOFF u by simp
  then show "PGOFF (va + of_nat k * PGSIZE) = 0" by (simp add: unat_eq_0)
qed

text \<open>All pages from va, m of them, are in slots the region may use.\<close>

definition region_ok :: "32 word \<Rightarrow> nat \<Rightarrow> bool" where
  "region_ok va m \<longleftrightarrow> PGOFF va = 0 \<and> unat (PGNUM va) + m \<le> 2 ^ 20 \<and>
     (\<forall>k < m. kslot ((unat (PGNUM va) + k) div 1024))"

lemma boot_map_loop_effect:
  assumes "kmap_inv r s d xs" "region_ok va (k + n)" "n \<le> fuel"
    and "n > 0 \<Longrightarrow> (k + n - 1) * 4096 < unat sz" "unat sz \<le> (k + n) * 4096" "(k + n) * 4096 < 2 ^ 32"
  shows "\<exists>t ys. boot_map_loop fuel d va sz pa perm (of_nat k * PGSIZE) s = Ret () t \<and> kmap_inv r t d ys \<and>
    suffix ys xs \<and> vm_frame s t \<and>
    (\<forall>va'. unat (PDX va') \<noteq> self_slot \<longrightarrow> vm_map t d va' =
       (if unat (PGNUM va) + k \<le> unat (PGNUM va') \<and> unat (PGNUM va') < unat (PGNUM va) + k + n
        then Some (region_pte pa perm va va') else vm_map s d va')) \<and>
    (\<forall>j. (\<forall>l < n. j \<noteq> (unat (PGNUM va) + k + l) div 1024) \<longrightarrow> mem t d j = mem s d j) \<and>
    (\<forall>l < n. mem t d ((unat (PGNUM va) + k + l) div 1024) \<noteq> 0)"
  using assms
proof (induction n arbitrary: k s xs fuel)
  case 0
  have "unat (of_nat k * PGSIZE :: 32 word) = k * 4096"
    using 0(6) unat_of_nat_32 [of "k * 4096"] by (simp add: PGSIZE_def)
  then have "\<not> of_nat k * PGSIZE < sz" using 0(5) by (simp add: word_less_nat_alt)
  then have "boot_map_loop fuel d va sz pa perm (of_nat k * PGSIZE) s = Ret () s"
    by (subst boot_map_loop.simps) simp
  then show ?case using 0(1) by auto
next
  case (Suc n)
  let ?i = "of_nat k * PGSIZE :: 32 word" and ?va = "va + of_nat k * PGSIZE" and ?p = "unat (PGNUM va)"
  have p: "?p + k < 2 ^ 20" "PGOFF va = 0" and slot: "kslot ((?p + k) div 1024)"
    using Suc.prems(2) by (auto simp: region_ok_def)
  note ps = page_step [OF p]
  have dx: "unat (PDX ?va) = (?p + k) div 1024" using ps(1) by (simp add: unat_PDX unat_PGNUM div_4194304)
  have sl: "kslot (unat (PDX ?va))" using slot dx by simp
  have pres: "present ((pa + ?i) OR perm OR PTE_P)" by simp
  have rp: "(pa + ?i) OR perm OR PTE_P = region_pte pa perm va va'" if "PGNUM va' = PGNUM ?va" for va'
  proof -
    have "PGNUM ?va - PGNUM va = of_nat k"
      using ps(1) by (metis add_diff_cancel_left' of_nat_add of_nat_unat_32)
    then show ?thesis using that by (simp add: region_pte_def)
  qed
  have lt: "?i < sz"
  proof -
    have "unat ?i = k * 4096" using Suc.prems(6) unat_of_nat_32 [of "k * 4096"] by (simp add: PGSIZE_def)
    then show ?thesis using Suc.prems(4) by (simp add: word_less_nat_alt)
  qed
  obtain f u zs where u: "pgdir_walk d ?va True s = Ret (Some (f, unat (PTX ?va))) u"
    "kmap_inv r (store f (unat (PTX ?va)) ((pa + ?i) OR perm OR PTE_P) u) d zs" "suffix zs xs"
    "vm_frame s (store f (unat (PTX ?va)) ((pa + ?i) OR perm OR PTE_P) u)"
    and mu: "\<And>va'. unat (PDX va') \<noteq> self_slot \<Longrightarrow>
       vm_map (store f (unat (PTX ?va)) ((pa + ?i) OR perm OR PTE_P) u) d va' =
         (if PGNUM va' = PGNUM ?va then Some ((pa + ?i) OR perm OR PTE_P) else vm_map s d va')"
    and du: "mem (store f (unat (PTX ?va)) ((pa + ?i) OR perm OR PTE_P) u) d (unat (PDX ?va)) \<noteq> 0"
      "\<forall>i. i \<noteq> unat (PDX ?va) \<longrightarrow> mem (store f (unat (PTX ?va)) ((pa + ?i) OR perm OR PTE_P) u) d i = mem s d i"
    using kmap_step [OF Suc.prems(1) sl pres] by metis
  let ?u = "store f (unat (PTX ?va)) ((pa + ?i) OR perm OR PTE_P) u"
  have nxt: "?i + PGSIZE = of_nat (Suc k) * PGSIZE" by (simp add: algebra_simps)
  have fu: "fuel \<noteq> 0" "n \<le> fuel - 1" using Suc.prems(3) by auto
  have run: "boot_map_loop fuel d va sz pa perm ?i s = boot_map_loop (fuel - 1) d va sz pa perm (of_nat (Suc k) * PGSIZE) ?u"
    by (subst boot_map_loop.simps) (simp only: lt fu(1) u(1) kbind.simps option.case prod.case nxt not_True_eq_False if_False)
  have "\<exists>t ys. boot_map_loop (fuel - 1) d va sz pa perm (of_nat (Suc k) * PGSIZE) ?u = Ret () t \<and> kmap_inv r t d ys \<and>
    suffix ys zs \<and> vm_frame ?u t \<and>
    (\<forall>va'. unat (PDX va') \<noteq> self_slot \<longrightarrow> vm_map t d va' =
       (if ?p + Suc k \<le> unat (PGNUM va') \<and> unat (PGNUM va') < ?p + Suc k + n
        then Some (region_pte pa perm va va') else vm_map ?u d va')) \<and>
    (\<forall>j. (\<forall>l < n. j \<noteq> (?p + Suc k + l) div 1024) \<longrightarrow> mem t d j = mem ?u d j) \<and>
    (\<forall>l < n. mem t d ((?p + Suc k + l) div 1024) \<noteq> 0)"
    by (rule Suc.IH [OF u(2) _ fu(2)]) (use Suc.prems(2,4-6) in \<open>simp_all add: algebra_simps\<close>)
  then obtain t ys where t: "boot_map_loop (fuel - 1) d va sz pa perm (of_nat (Suc k) * PGSIZE) ?u = Ret () t"
      "kmap_inv r t d ys" "suffix ys zs" "vm_frame ?u t"
    and mt: "\<And>va'. unat (PDX va') \<noteq> self_slot \<Longrightarrow> vm_map t d va' =
       (if ?p + Suc k \<le> unat (PGNUM va') \<and> unat (PGNUM va') < ?p + Suc k + n
        then Some (region_pte pa perm va va') else vm_map ?u d va')"
    and dt: "\<And>j. (\<forall>l < n. j \<noteq> (?p + Suc k + l) div 1024) \<Longrightarrow> mem t d j = mem ?u d j"
      "\<And>l. l < n \<Longrightarrow> mem t d ((?p + Suc k + l) div 1024) \<noteq> 0"
    by blast
  have "vm_map t d va' =
      (if ?p + k \<le> unat (PGNUM va') \<and> unat (PGNUM va') < ?p + k + Suc n
       then Some (region_pte pa perm va va') else vm_map s d va')" if v: "unat (PDX va') \<noteq> self_slot" for va'
  proof (cases "unat (PGNUM va') = ?p + k")
    case True
    then have e: "PGNUM va' = PGNUM ?va" using ps(1) by (simp add: word_unat_eq_iff)
    show ?thesis using mt [OF v] mu [OF v] True e rp [OF e] by simp
  next
    case False
    then have "PGNUM va' \<noteq> PGNUM ?va" using ps(1) by metis
    then show ?thesis using mt [OF v] mu [OF v] False by auto
  qed
  moreover have "mem t d j = mem s d j" if j: "\<forall>l < Suc n. j \<noteq> (?p + k + l) div 1024" for j
  proof -
    have "\<forall>l < n. j \<noteq> (?p + Suc k + l) div 1024"
    proof (intro allI impI)
      fix l assume "l < n"
      then show "j \<noteq> (?p + Suc k + l) div 1024" using j [rule_format, of "Suc l"] by simp
    qed
    moreover have "j \<noteq> unat (PDX ?va)" using j [rule_format, of 0] dx by simp
    ultimately show ?thesis using dt(1) du(2) by metis
  qed
  moreover have "mem t d ((?p + k + l) div 1024) \<noteq> 0" if "l < Suc n" for l
  proof (cases l)
    case 0
    have "mem t d (unat (PDX ?va)) \<noteq> 0"
    proof (cases "\<forall>l < n. unat (PDX ?va) \<noteq> (?p + Suc k + l) div 1024")
      case True
      then show ?thesis using dt(1) du(1) by metis
    next
      case False
      then show ?thesis using dt(2) by metis
    qed
    then show ?thesis using 0 dx by simp
  next
    case (Suc m)
    then show ?thesis using dt(2) [of m] that by simp
  qed
  moreover have "vm_frame s t" by (rule vm_frame_trans [OF u(4) t(4)])
  moreover have "suffix ys xs" using t(3) u(3) by (rule suffix_order.trans)
  ultimately show ?case using run t(1,2) by (intro exI [of _ t] exI [of _ ys]) simp
qed


lemma region_effect:
  assumes "kmap_inv r s d xs" "region_ok va n" "unat sz \<le> n * 4096" "n * 4096 < unat sz + 4096" "n * 4096 < 2 ^ 32"
  shows "\<exists>t ys. boot_map_region d va sz pa perm s = Ret () t \<and> kmap_inv r t d ys \<and> suffix ys xs \<and> vm_frame s t \<and>
    (\<forall>va'. unat (PDX va') \<noteq> self_slot \<longrightarrow> vm_map t d va' =
       (if unat (PGNUM va) \<le> unat (PGNUM va') \<and> unat (PGNUM va') < unat (PGNUM va) + n
        then Some (region_pte pa perm va va') else vm_map s d va')) \<and>
    (\<forall>j. (\<forall>l < n. j \<noteq> (unat (PGNUM va) + l) div 1024) \<longrightarrow> mem t d j = mem s d j) \<and>
    (\<forall>l < n. mem t d ((unat (PGNUM va) + l) div 1024) \<noteq> 0)"
proof -
  have "n \<le> 2 ^ 20" using assms(5) by simp
  moreover have "(0 + n - 1) * 4096 < unat sz" if "n > 0" using assms(4) that by (cases n) simp_all
  ultimately show ?thesis
    using boot_map_loop_effect [of r s d xs va 0 n "2 ^ 20" sz pa perm] assms by (simp add: boot_map_region_def)
qed

end
