(* ===== verification/Mem_Init.thy ===== *)
theory Mem_Init
  imports Pmap Kclock
begin

text \<open>
  The start of the memory management in kern/pmap.c: the size of the memory, the kernel's
  directory and its regions (mem_init), and the self-checks of the free list, of the page
  allocator and of the kernel's mappings. mem_init is in two parts: mem_init_data, up to
  page_init, and mem_init_map, the regions. cmos is the contents of the CMOS memory, end_sym and bootstack are
  the linker's symbols. Definitions only.
\<close>

section \<open>The size of the memory\<close>

definition NVRAM_BASELO :: nat where "NVRAM_BASELO = 0x0E + 7"
definition NVRAM_EXTLO :: nat where "NVRAM_EXTLO = 0x0E + 9"

definition nvram_read :: "(nat \<Rightarrow> 8 word) \<Rightarrow> nat \<Rightarrow> nat" where
  "nvram_read cmos r = unat (cmos r) + 256 * unat (cmos (r + 1))"

definition i386_detect_memory :: "(nat \<Rightarrow> 8 word) \<Rightarrow> kstate \<Rightarrow> kstate" where
  "i386_detect_memory cmos s =
     (let basemem = nvram_read cmos NVRAM_BASELO * 1024 div unat PGSIZE;
          extmem = nvram_read cmos NVRAM_EXTLO * 1024 div unat PGSIZE
      in s\<lparr>npages_basemem := basemem,
           npages := (if extmem \<noteq> 0 then unat (EXTPHYSMEM div PGSIZE) + extmem else basemem)\<rparr>)"

section \<open>mem_init\<close>

text \<open>The sizes of the structures PageInfo and Env in bytes.\<close>

definition sizeof_PageInfo :: "32 word" where "sizeof_PageInfo = 8"
definition sizeof_Env :: "32 word" where "sizeof_Env = 120"
definition NVSYSCALLS :: "32 word" where "NVSYSCALLS = 1"

text \<open>The addresses of the arrays: the variables pages, envs and vsys.\<close>

record arrays =
  pages_kva :: "32 word"
  envs_kva :: "32 word"
  vsys_kva :: "32 word"

definition paddr :: "32 word \<Rightarrow> kstate \<Rightarrow> (32 word, kstate) kres" where
  "paddr kva s =
     (case PADDR kva of None \<Rightarrow> Exit (Panicked ''PADDR called with invalid kva'') s | Some pa \<Rightarrow> Ret pa s)"

definition zero_pages :: "kstate \<Rightarrow> kstate" where
  "zero_pages s = s\<lparr>pages := (\<lambda>_. \<lparr>pp_link = None, pp_ref = 0\<rparr>)\<rparr>"

text \<open>
  Up to page_init. The array pages is cleared twice: the second memset, of the size of envs, is
  for envs but names pages, so that envs keeps what the memory held.
\<close>

definition mem_init_data :: "32 word \<Rightarrow> (nat \<Rightarrow> 8 word) \<Rightarrow> kstate \<Rightarrow> (arrays, kstate) kres" where
  "mem_init_data end_sym cmos s =
     (let s = i386_detect_memory cmos s
      in kbind (boot_alloc end_sym PGSIZE s) (\<lambda>dir s.
         let d = kva_frame dir; s = s\<lparr>kern_pgdir := d, mem := (mem s)(d := (\<lambda>_. 0))\<rparr>
         in kbind (paddr dir s) (\<lambda>pa s.
            let s = store d (unat (PDX UVPT)) (pa OR PTE_U OR PTE_P) s
            in kbind (boot_alloc end_sym (of_nat (npages s) * sizeof_PageInfo) s) (\<lambda>pgs s.
               let s = zero_pages s
               in kbind (boot_alloc end_sym (sizeof_Env * of_nat NENV) s) (\<lambda>evs s.
                  let s = zero_pages s
                  in kbind (boot_alloc end_sym (NVSYSCALLS * 4) s) (\<lambda>vs s.
                     kbind (page_init end_sym s) (\<lambda>_ s.
                       Ret \<lparr>pages_kva = pgs, envs_kva = evs, vsys_kva = vs\<rparr> s)))))))"

text \<open>boot_map_region of an array, whose physical address PADDR gives.\<close>

definition map_array :: "32 word \<Rightarrow> 32 word \<Rightarrow> 32 word \<Rightarrow> 32 word \<Rightarrow> kstate \<Rightarrow> (unit, kstate) kres" where
  "map_array va sz kva perm s =
     kbind (paddr kva s) (\<lambda>pa s. boot_map_region (kern_pgdir s) va sz pa perm s)"

definition mem_init_map :: "arrays \<Rightarrow> 32 word \<Rightarrow> kstate \<Rightarrow> (unit, kstate) kres" where
  "mem_init_map a bootstack s =
     (let np = of_nat (npages s) * sizeof_PageInfo; ne = of_nat NENV * sizeof_Env
      in kbind (map_array UPAGES np (pages_kva a) PTE_U s) (\<lambda>_ s.
         kbind (map_array (pages_kva a) np (pages_kva a) PTE_W s) (\<lambda>_ s.
         kbind (map_array UENVS ne (envs_kva a) PTE_U s) (\<lambda>_ s.
         kbind (map_array (envs_kva a) ne (envs_kva a) PTE_W s) (\<lambda>_ s.
         kbind (map_array UVSYS (ROUNDUP (NVSYSCALLS * 4) PGSIZE) (vsys_kva a) PTE_U s) (\<lambda>_ s.
         kbind (map_array (KSTACKTOP - KSTKSIZE) KSTKSIZE bootstack PTE_W s) (\<lambda>_ s.
           boot_map_region (kern_pgdir s) KERNBASE (NOT KERNBASE + 1) 0 PTE_W s)))))))"

section \<open>Self-checks\<close>

subsection \<open>The free list\<close>

text \<open>for (pp = p; pp; pp = pp->pp_link): the link is read after the body; a cyclic list never ends.\<close>

fun for_pages :: "nat \<Rightarrow> (nat \<Rightarrow> kstate \<Rightarrow> (unit, kstate) kres) \<Rightarrow> nat option \<Rightarrow> kstate \<Rightarrow> (unit, kstate) kres" where
  "for_pages fuel body p s =
     (case p of
        None \<Rightarrow> Ret () s
      | Some pp \<Rightarrow>
          if fuel = 0 then Exit Spins s
          else kbind (body pp s) (\<lambda>_ s. for_pages (fuel - 1) body (pp_link (pages s pp)) s))"

declare for_pages.simps [simp del]

text \<open>
  The two tails tp[0] and tp[1]: the local pp1 or pp2 (None), or the link of a page. The loop
  appends each page to the list of its kind.
\<close>

record tails =
  low_head :: "nat option"
  high_head :: "nat option"
  tp0 :: "nat option"
  tp1 :: "nat option"

definition set_tail :: "bool \<Rightarrow> nat option \<Rightarrow> tails \<Rightarrow> kstate \<Rightarrow> tails \<times> kstate" where
  "set_tail high p t s =
     (case if high then tp1 t else tp0 t of
        None \<Rightarrow> (if high then t\<lparr>high_head := p\<rparr> else t\<lparr>low_head := p\<rparr>, s)
      | Some q \<Rightarrow> (t, set_link q p s))"

definition is_high :: "nat \<Rightarrow> bool" where "is_high pp \<longleftrightarrow> PDX (page2pa pp) \<ge> 1"

fun relink_loop :: "nat \<Rightarrow> nat option \<Rightarrow> tails \<Rightarrow> kstate \<Rightarrow> (tails, kstate) kres" where
  "relink_loop fuel p t s =
     (case p of
        None \<Rightarrow> Ret t s
      | Some pp \<Rightarrow>
          if fuel = 0 then Exit Spins s
          else (case set_tail (is_high pp) (Some pp) t s of (t, s) \<Rightarrow>
                  relink_loop (fuel - 1) (pp_link (pages s pp))
                    (if is_high pp then t\<lparr>tp1 := Some pp\<rparr> else t\<lparr>tp0 := Some pp\<rparr>) s))"

declare relink_loop.simps [simp del]

definition relink :: "kstate \<Rightarrow> (unit, kstate) kres" where
  "relink s =
     kbind (relink_loop (npages s) (page_free_list s) \<lparr>low_head = None, high_head = None, tp0 = None, tp1 = None\<rparr> s) (\<lambda>t s.
       case set_tail True None t s of (t, s) \<Rightarrow>
         case set_tail False (high_head t) t s of (t, s) \<Rightarrow> Ret () (s\<lparr>page_free_list := low_head t\<rparr>))"

text \<open>memset(page2kva(pp), 0x97, 128)\<close>

definition poison :: "nat \<Rightarrow> kstate \<Rightarrow> (unit, kstate) kres" where
  "poison pp s =
     (case page2kva (npages s) pp of
        None \<Rightarrow> Exit (Panicked ''KADDR called with invalid pa'') s
      | Some kva \<Rightarrow> Ret () (s\<lparr>mem := (mem s)(pp := (\<lambda>i. if i < 32 then 0x97979797 else mem s pp i))\<rparr>))"

definition check_free_page :: "32 word \<Rightarrow> nat \<Rightarrow> kstate \<Rightarrow> (unit, kstate) kres" where
  "check_free_page first_free_page pp s =
     kbind (kassert ''pp < pages + npages'' (pp < npages s) s) (\<lambda>_ s.
     kbind (kassert ''page2pa(pp) != 0'' (page2pa pp \<noteq> 0) s) (\<lambda>_ s.
     kbind (kassert ''page2pa(pp) != IOPHYSMEM'' (page2pa pp \<noteq> IOPHYSMEM) s) (\<lambda>_ s.
     kbind (kassert ''page2pa(pp) != EXTPHYSMEM - PGSIZE'' (page2pa pp \<noteq> EXTPHYSMEM - PGSIZE) s) (\<lambda>_ s.
     kbind (kassert ''page2pa(pp) != EXTPHYSMEM'' (page2pa pp \<noteq> EXTPHYSMEM) s) (\<lambda>_ s.
       if page2pa pp < EXTPHYSMEM then Ret () s
       else (case page2kva (npages s) pp of
               None \<Rightarrow> Exit (Panicked ''KADDR called with invalid pa'') s
             | Some kva \<Rightarrow> kassert ''page2kva(pp) >= first_free_page'' (kva \<ge> first_free_page) s))))))"

text \<open>Whether the list has a page below and one from EXTPHYSMEM on: the counters nfree_basemem and nfree_extmem.\<close>

fun list_has :: "nat \<Rightarrow> (nat \<Rightarrow> bool) \<Rightarrow> nat option \<Rightarrow> kstate \<Rightarrow> bool" where
  "list_has fuel P p s =
     (case p of None \<Rightarrow> False
      | Some pp \<Rightarrow> if fuel = 0 then False else P pp \<or> list_has (fuel - 1) P (pp_link (pages s pp)) s)"

declare list_has.simps [simp del]

definition check_page_free_list :: "32 word \<Rightarrow> bool \<Rightarrow> kstate \<Rightarrow> (unit, kstate) kres" where
  "check_page_free_list end_sym only_low_memory s =
     (if page_free_list s = None then Exit (Panicked ''page_free_list is a null pointer!'') s
      else kbind (if only_low_memory then relink s else Ret () s) (\<lambda>_ s.
           kbind (for_pages (npages s)
                    (\<lambda>pp s. if only_low_memory \<and> is_high pp then Ret () s else poison pp s) (page_free_list s) s) (\<lambda>_ s.
           kbind (boot_alloc end_sym 0 s) (\<lambda>first_free_page s.
           kbind (for_pages (npages s) (check_free_page first_free_page) (page_free_list s) s) (\<lambda>_ s.
           kbind (kassert ''nfree_basemem > 0'' (list_has (npages s) (\<lambda>pp. page2pa pp < EXTPHYSMEM) (page_free_list s) s) s) (\<lambda>_ s.
             kassert ''nfree_extmem > 0'' (list_has (npages s) (\<lambda>pp. \<not> page2pa pp < EXTPHYSMEM) (page_free_list s) s) s))))))"

subsection \<open>The page allocator\<close>

fun count_free :: "nat \<Rightarrow> nat option \<Rightarrow> kstate \<Rightarrow> (nat, kstate) kres" where
  "count_free fuel p s =
     (case p of
        None \<Rightarrow> Ret 0 s
      | Some pp \<Rightarrow>
          if fuel = 0 then Exit Spins s
          else kbind (count_free (fuel - 1) (pp_link (pages s pp)) s) (\<lambda>n. Ret (Suc n)))"

declare count_free.simps [simp del]

text \<open>assert((pp = page_alloc(flags)))\<close>

definition must_alloc :: "32 word \<Rightarrow> kstate \<Rightarrow> (nat, kstate) kres" where
  "must_alloc fl s =
     kbind (page_alloc fl s) (\<lambda>r s.
       case r of None \<Rightarrow> Exit (Panicked ''page_alloc'') s | Some pp \<Rightarrow> Ret pp s)"

definition must_fail :: "kstate \<Rightarrow> (unit, kstate) kres" where
  "must_fail s = kbind (page_alloc 0 s) (\<lambda>r. kassert ''!page_alloc(0)'' (r = None))"

text \<open>Three pages, all different, of the physical memory.\<close>

definition alloc_three :: "kstate \<Rightarrow> (nat \<times> nat \<times> nat, kstate) kres" where
  "alloc_three s =
     kbind (must_alloc 0 s) (\<lambda>pp0 s. kbind (must_alloc 0 s) (\<lambda>pp1 s. kbind (must_alloc 0 s) (\<lambda>pp2 s.
     kbind (kassert ''pp1 != pp0'' (pp1 \<noteq> pp0) s) (\<lambda>_ s.
     kbind (kassert ''pp2 != pp1 && pp2 != pp0'' (pp2 \<noteq> pp1 \<and> pp2 \<noteq> pp0) s) (\<lambda>_. Ret (pp0, pp1, pp2))))))"

definition free_three :: "nat \<Rightarrow> nat \<Rightarrow> nat \<Rightarrow> kstate \<Rightarrow> (unit, kstate) kres" where
  "free_three pp0 pp1 pp2 s =
     kbind (page_free pp0 s) (\<lambda>_ s. kbind (page_free pp1 s) (\<lambda>_. page_free pp2))"

definition check_page_alloc :: "kstate \<Rightarrow> (unit, kstate) kres" where
  "check_page_alloc s =
     kbind (count_free (npages s) (page_free_list s) s) (\<lambda>nfree s.
     kbind (alloc_three s) (\<lambda>(pp0, pp1, pp2) s.
     let limit = of_nat (npages s) * PGSIZE
     in kbind (kassert ''page2pa(pp0) < npages*PGSIZE'' (page2pa pp0 < limit) s) (\<lambda>_ s.
        kbind (kassert ''page2pa(pp1) < npages*PGSIZE'' (page2pa pp1 < limit) s) (\<lambda>_ s.
        kbind (kassert ''page2pa(pp2) < npages*PGSIZE'' (page2pa pp2 < limit) s) (\<lambda>_ s.
        let fl = page_free_list s; s = s\<lparr>page_free_list := None\<rparr>
        in kbind (must_fail s) (\<lambda>_ s.
           kbind (free_three pp0 pp1 pp2 s) (\<lambda>_ s.
           kbind (alloc_three s) (\<lambda>(pp0, pp1, pp2) s.
           kbind (must_fail s) (\<lambda>_ s.
           kbind (memset_page pp0 0x01010101 s) (\<lambda>_ s.
           kbind (page_free pp0 s) (\<lambda>_ s.
           kbind (must_alloc ALLOC_ZERO s) (\<lambda>pp s.
           kbind (kassert ''pp && pp0 == pp'' (pp0 = pp) s) (\<lambda>_ s.
           kbind (kassert ''c[i] == 0'' (\<forall>i \<in> {0..<1024}. mem s pp i = 0) s) (\<lambda>_ s.
           let s = s\<lparr>page_free_list := fl\<rparr>
           in kbind (free_three pp0 pp1 pp2 s) (\<lambda>_ s.
              kbind (count_free (npages s) (page_free_list s) s) (\<lambda>n.
                kassert ''nfree == 0'' (nfree = n)))))))))))))))))"

subsection \<open>The kernel's mappings\<close>

text \<open>The physical address of the page that contains va, or all ones.\<close>

definition check_va2pa :: "nat \<Rightarrow> 32 word \<Rightarrow> kstate \<Rightarrow> (32 word, kstate) kres" where
  "check_va2pa pgdir va s =
     (let pde = mem s pgdir (unat (PDX va))
      in if pde AND PTE_P = 0 then Ret (NOT 0) s
         else (case KADDR (npages s) (PTE_ADDR pde) of
                 None \<Rightarrow> Exit (Panicked ''KADDR called with invalid pa'') s
               | Some p \<Rightarrow>
                   (let pte = mem s (kva_frame p) (unat (PTX va))
                    in if pte AND PTE_P = 0 then Ret (NOT 0) s else Ret (PTE_ADDR pte) s)))"

text \<open>The offsets 0, PGSIZE, ... below n.\<close>

definition page_offsets :: "32 word \<Rightarrow> 32 word list" where
  "page_offsets n = map (\<lambda>k. of_nat k * PGSIZE) [0..<unat (ROUNDUP n PGSIZE div PGSIZE)]"

definition check_region :: "32 word \<Rightarrow> 32 word \<Rightarrow> 32 word \<Rightarrow> kstate \<Rightarrow> (unit, kstate) kres" where
  "check_region va n pa =
     kforeach (\<lambda>i s. kbind (check_va2pa (kern_pgdir s) (va + i) s) (\<lambda>r.
                 kassert ''check_va2pa'' (r = pa + i))) (page_offsets n)"

definition check_pde :: "nat \<Rightarrow> kstate \<Rightarrow> (unit, kstate) kres" where
  "check_pde i s =
     (let pde = mem s (kern_pgdir s) i
      in if i \<in> {unat (PDX UVPT), unat (PDX (KSTACKTOP - 1)), unat (PDX UPAGES), unat (PDX UENVS), unat (PDX UVSYS)}
         then Ret () s
         else if i \<ge> unat (PDX KERNBASE)
         then kbind (kassert ''pgdir[i] & PTE_P'' (pde AND PTE_P \<noteq> 0) s) (\<lambda>_.
                kassert ''pgdir[i] & PTE_W'' (pde AND PTE_W \<noteq> 0))
         else kassert ''pgdir[i] == 0'' (pde = 0) s)"

definition check_kern_pgdir :: "arrays \<Rightarrow> 32 word \<Rightarrow> kstate \<Rightarrow> (unit, kstate) kres" where
  "check_kern_pgdir a bootstack s =
     kbind (paddr (pages_kva a) s) (\<lambda>ppa s.
     kbind (check_region UPAGES (of_nat (npages s) * sizeof_PageInfo) ppa s) (\<lambda>_ s.
     kbind (paddr (envs_kva a) s) (\<lambda>epa s.
     kbind (check_region UENVS (of_nat NENV * sizeof_Env) epa s) (\<lambda>_ s.
     kbind (check_region KERNBASE (of_nat (npages s) * PGSIZE) 0 s) (\<lambda>_ s.
     kbind (paddr bootstack s) (\<lambda>bpa s.
     kbind (check_region (KSTACKTOP - KSTKSIZE) KSTKSIZE bpa s) (\<lambda>_ s.
     kbind (check_va2pa (kern_pgdir s) (KSTACKTOP - PTSIZE) s) (\<lambda>r s.
     kbind (kassert ''check_va2pa(pgdir, KSTACKTOP - PTSIZE) == ~0'' (r = NOT 0) s) (\<lambda>_.
       kforeach check_pde [0..<NPDENTRIES])))))))))"


subsection \<open>Page tables\<close>

definition must_insert :: "nat \<Rightarrow> 32 word \<Rightarrow> 32 word \<Rightarrow> kstate \<Rightarrow> (unit, kstate) kres" where
  "must_insert pp va perm s =
     kbind (page_insert (kern_pgdir s) pp va perm s) (\<lambda>r. kassert ''page_insert == 0'' (r = 0))"

definition must_not_insert :: "nat \<Rightarrow> 32 word \<Rightarrow> 32 word \<Rightarrow> kstate \<Rightarrow> (unit, kstate) kres" where
  "must_not_insert pp va perm s =
     kbind (page_insert (kern_pgdir s) pp va perm s) (\<lambda>r. kassert ''page_insert < 0'' (r < 0))"

definition maps_to :: "32 word \<Rightarrow> 32 word \<Rightarrow> kstate \<Rightarrow> (unit, kstate) kres" where
  "maps_to va pa s = kbind (check_va2pa (kern_pgdir s) va s) (\<lambda>r. kassert ''check_va2pa'' (r = pa))"

definition ref_is :: "nat \<Rightarrow> 16 word \<Rightarrow> kstate \<Rightarrow> (unit, kstate) kres" where
  "ref_is pp n s = kassert ''pp_ref'' (pp_ref (pages s pp) = n) s"

text \<open>assert of a flag of *pgdir_walk(kern_pgdir, va, 0), set or clear.\<close>

definition pte_flag :: "32 word \<Rightarrow> 32 word \<Rightarrow> bool \<Rightarrow> kstate \<Rightarrow> (unit, kstate) kres" where
  "pte_flag va flag b s =
     kbind (pgdir_walk (kern_pgdir s) va False s) (\<lambda>p s.
       case p of
         None \<Rightarrow> Exit Fault s
       | Some (f, j) \<Rightarrow> kassert ''*pgdir_walk & flag'' ((mem s f j AND flag \<noteq> 0) = b) s)"

text \<open>pgdir_walk gives the entry of the table that the directory names.\<close>

definition walk_is :: "32 word \<Rightarrow> bool \<Rightarrow> kstate \<Rightarrow> (unit, kstate) kres" where
  "walk_is va create s =
     kbind (pgdir_walk (kern_pgdir s) va create s) (\<lambda>p s.
       case KADDR (npages s) (PTE_ADDR (mem s (kern_pgdir s) (unat (PDX va)))) of
         None \<Rightarrow> Exit (Panicked ''KADDR called with invalid pa'') s
       | Some t \<Rightarrow> kassert ''ptep == ptep1 + PTX(va)'' (p = Some (kva_frame t, unat (PTX va))) s)"

definition dir_entry_is :: "nat \<Rightarrow> kstate \<Rightarrow> (unit, kstate) kres" where
  "dir_entry_is pp s =
     kassert ''PTE_ADDR(kern_pgdir[0]) == page2pa(pp0)'' (PTE_ADDR (mem s (kern_pgdir s) 0) = page2pa pp) s"

definition clear_dir :: "nat \<Rightarrow> kstate \<Rightarrow> kstate" where
  "clear_dir i s = store (kern_pgdir s) i 0 s"

definition check_insert :: "nat \<Rightarrow> nat \<Rightarrow> nat \<Rightarrow> kstate \<Rightarrow> (unit, kstate) kres" where
  "check_insert pp0 pp1 pp2 s =
     kbind (must_fail s) (\<lambda>_ s.
     kbind (page_lookup (kern_pgdir s) 0 s) (\<lambda>(r, _) s. kbind (kassert ''page_lookup == NULL'' (r = None) s) (\<lambda>_ s.
     kbind (must_not_insert pp1 0 PTE_W s) (\<lambda>_ s.
     kbind (page_free pp0 s) (\<lambda>_ s. kbind (must_insert pp1 0 PTE_W s) (\<lambda>_ s.
     kbind (dir_entry_is pp0 s) (\<lambda>_ s. kbind (maps_to 0 (page2pa pp1) s) (\<lambda>_ s.
     kbind (ref_is pp1 1 s) (\<lambda>_ s. kbind (ref_is pp0 1 s) (\<lambda>_ s.
     kbind (must_insert pp2 PGSIZE PTE_W s) (\<lambda>_ s. kbind (maps_to PGSIZE (page2pa pp2) s) (\<lambda>_ s.
     kbind (ref_is pp2 1 s) (\<lambda>_ s. kbind (must_fail s) (\<lambda>_ s.
     kbind (must_insert pp2 PGSIZE PTE_W s) (\<lambda>_ s. kbind (maps_to PGSIZE (page2pa pp2) s) (\<lambda>_ s.
     kbind (ref_is pp2 1 s) (\<lambda>_ s. kbind (must_fail s) (\<lambda>_ s.
     kbind (walk_is PGSIZE False s) (\<lambda>_ s.
     kbind (must_insert pp2 PGSIZE (PTE_W OR PTE_U) s) (\<lambda>_ s. kbind (maps_to PGSIZE (page2pa pp2) s) (\<lambda>_ s.
     kbind (ref_is pp2 1 s) (\<lambda>_ s. kbind (pte_flag PGSIZE PTE_U True s) (\<lambda>_ s.
     kbind (kassert ''kern_pgdir[0] & PTE_U'' (mem s (kern_pgdir s) 0 AND PTE_U \<noteq> 0) s) (\<lambda>_ s.
     kbind (must_insert pp2 PGSIZE PTE_W s) (\<lambda>_ s. kbind (pte_flag PGSIZE PTE_W True s) (\<lambda>_ s.
     kbind (pte_flag PGSIZE PTE_U False s) (\<lambda>_ s. kbind (must_not_insert pp0 PTSIZE PTE_W s) (\<lambda>_ s.
     kbind (must_insert pp1 PGSIZE PTE_W s) (\<lambda>_. pte_flag PGSIZE PTE_U False)))))))))))))))))))))))))))))"

text \<open>From the removals on; pp1 is mapped at 0 and PGSIZE.\<close>

definition check_remove :: "nat \<Rightarrow> nat \<Rightarrow> nat \<Rightarrow> kstate \<Rightarrow> (unit, kstate) kres" where
  "check_remove pp0 pp1 pp2 s =
     kbind (maps_to 0 (page2pa pp1) s) (\<lambda>_ s. kbind (maps_to PGSIZE (page2pa pp1) s) (\<lambda>_ s.
     kbind (ref_is pp1 2 s) (\<lambda>_ s. kbind (ref_is pp2 0 s) (\<lambda>_ s.
     kbind (must_alloc 0 s) (\<lambda>pp s. kbind (kassert ''pp == pp2'' (pp = pp2) s) (\<lambda>_ s.
     kbind (page_remove (kern_pgdir s) 0 s) (\<lambda>_ s. kbind (maps_to 0 (NOT 0) s) (\<lambda>_ s.
     kbind (maps_to PGSIZE (page2pa pp1) s) (\<lambda>_ s. kbind (ref_is pp1 1 s) (\<lambda>_ s. kbind (ref_is pp2 0 s) (\<lambda>_ s.
     kbind (must_insert pp1 PGSIZE 0 s) (\<lambda>_ s.
     kbind (kassert ''pp1->pp_ref'' (pp_ref (pages s pp1) \<noteq> 0) s) (\<lambda>_ s.
     kbind (kassert ''pp1->pp_link == NULL'' (pp_link (pages s pp1) = None) s) (\<lambda>_ s.
     kbind (page_remove (kern_pgdir s) PGSIZE s) (\<lambda>_ s. kbind (maps_to 0 (NOT 0) s) (\<lambda>_ s.
     kbind (maps_to PGSIZE (NOT 0) s) (\<lambda>_ s. kbind (ref_is pp1 0 s) (\<lambda>_ s. kbind (ref_is pp2 0 s) (\<lambda>_ s.
     kbind (must_alloc 0 s) (\<lambda>pp s. kbind (kassert ''pp == pp1'' (pp = pp1) s) (\<lambda>_ s.
     kbind (must_fail s) (\<lambda>_ s.
     kbind (dir_entry_is pp0 s) (\<lambda>_ s.
     let s = clear_dir 0 s
     in kbind (ref_is pp0 1 s) (\<lambda>_ s. Ret () (set_ref pp0 0 s)))))))))))))))))))))))))"

definition check_walk :: "nat \<Rightarrow> kstate \<Rightarrow> (unit, kstate) kres" where
  "check_walk pp0 s =
     (let va = PGSIZE * of_nat NPDENTRIES + PGSIZE
      in kbind (page_free pp0 s) (\<lambda>_ s.
         kbind (walk_is va True s) (\<lambda>_ s.
         let s = set_ref pp0 0 (clear_dir (unat (PDX va)) s)
         in kbind (memset_page pp0 0xFFFFFFFF s) (\<lambda>_ s.
            kbind (page_free pp0 s) (\<lambda>_ s.
            kbind (pgdir_walk (kern_pgdir s) 0 True s) (\<lambda>_ s.
            kbind (kassert ''(ptep[i] & PTE_P) == 0'' (\<forall>i \<in> {0..<NPTENTRIES}. mem s pp0 i AND PTE_P = 0) s) (\<lambda>_ s.
              Ret () (set_ref pp0 0 (clear_dir 0 s)))))))))"

definition check_page :: "kstate \<Rightarrow> (unit, kstate) kres" where
  "check_page s =
     kbind (alloc_three s) (\<lambda>(pp0, pp1, pp2) s.
     let fl = page_free_list s; s = s\<lparr>page_free_list := None\<rparr>
     in kbind (check_insert pp0 pp1 pp2 s) (\<lambda>_ s.
        kbind (check_remove pp0 pp1 pp2 s) (\<lambda>_ s.
        kbind (check_walk pp0 s) (\<lambda>_ s.
          free_three pp0 pp1 pp2 (s\<lparr>page_free_list := fl\<rparr>)))))"

text \<open>
  With the directory installed: *(uint32_t *)PGSIZE is the first word of the page that PGSIZE is
  mapped to.
\<close>

definition vm_word :: "kstate \<Rightarrow> 32 word \<Rightarrow> nat option" where
  "vm_word s va =
     (let pde = mem s (cr3 s) (unat (PDX va)); pte = mem s (unat (PGNUM pde)) (unat (PTX va))
      in if pde AND PTE_P \<noteq> 0 \<and> pte AND PTE_P \<noteq> 0 then Some (unat (PGNUM pte)) else None)"

definition word_at_is :: "32 word \<Rightarrow> 32 word \<Rightarrow> kstate \<Rightarrow> (unit, kstate) kres" where
  "word_at_is va w s =
     (case vm_word s va of
        None \<Rightarrow> Exit Fault s
      | Some f \<Rightarrow> kassert ''*(uint32_t *)PGSIZE'' (mem s f 0 = w) s)"


definition check_page_installed_pgdir :: "kstate \<Rightarrow> (unit, kstate) kres" where
  "check_page_installed_pgdir s =
     kbind (must_alloc 0 s) (\<lambda>pp0 s. kbind (must_alloc 0 s) (\<lambda>pp1 s. kbind (must_alloc 0 s) (\<lambda>pp2 s.
     kbind (page_free pp0 s) (\<lambda>_ s.
     kbind (memset_page pp1 0x01010101 s) (\<lambda>_ s. kbind (memset_page pp2 0x02020202 s) (\<lambda>_ s.
     kbind (page_insert (kern_pgdir s) pp1 PGSIZE PTE_W s) (\<lambda>_ s. kbind (ref_is pp1 1 s) (\<lambda>_ s.
     kbind (word_at_is PGSIZE 0x01010101 s) (\<lambda>_ s.
     kbind (page_insert (kern_pgdir s) pp2 PGSIZE PTE_W s) (\<lambda>_ s. kbind (word_at_is PGSIZE 0x02020202 s) (\<lambda>_ s.
     kbind (ref_is pp2 1 s) (\<lambda>_ s. kbind (ref_is pp1 0 s) (\<lambda>_ s.
     case vm_word s PGSIZE of
       None \<Rightarrow> Exit Fault s
     | Some f \<Rightarrow>
         let s = store f 0 0x03030303 s
         in kbind (kassert ''*(uint32_t *)page2kva(pp2) == 0x03030303U'' (mem s pp2 0 = 0x03030303) s) (\<lambda>_ s.
            kbind (page_remove (kern_pgdir s) PGSIZE s) (\<lambda>_ s. kbind (ref_is pp2 0 s) (\<lambda>_ s.
            kbind (dir_entry_is pp0 s) (\<lambda>_ s.
            let s = clear_dir 0 s
            in kbind (ref_is pp0 1 s) (\<lambda>_ s. page_free pp0 (set_ref pp0 0 s)))))))))))))))))))"

section \<open>mem_init as a whole\<close>

text \<open>lcr3 is the assignment of cr3; the bits of cr0 are not modelled.\<close>

definition mem_init :: "32 word \<Rightarrow> 32 word \<Rightarrow> (nat \<Rightarrow> 8 word) \<Rightarrow> kstate \<Rightarrow> (arrays, kstate) kres" where
  "mem_init end_sym bootstack cmos s =
     kbind (mem_init_data end_sym cmos s) (\<lambda>a s.
     kbind (check_page_free_list end_sym True s) (\<lambda>_ s.
     kbind (check_page_alloc s) (\<lambda>_ s.
     kbind (check_page s) (\<lambda>_ s.
     kbind (mem_init_map a bootstack s) (\<lambda>_ s.
     kbind (check_kern_pgdir a bootstack s) (\<lambda>_ s.
     let s = s\<lparr>cr3 := kern_pgdir s\<rparr>
     in kbind (check_page_free_list end_sym False s) (\<lambda>_ s.
        kbind (check_page_installed_pgdir s) (\<lambda>_ s. Ret a s))))))))"

end
