(* ===== verification/Kern_Map.thy ===== *)
theory Kern_Map
  imports Pmap_Props Boot_Map Mem_Init
begin

text \<open>
  mem_init's second half (kern/pmap.c): the regions of the kernel's address space. The
  specification kernel_layout is the table of inc/memlayout.h; mem_init_map builds it, and
  check_kern_pgdir accepts what it builds.
\<close>

section \<open>Composing regions\<close>

text \<open>A mapping with the n pages from va on replaced.\<close>

definition over :: "32 word \<Rightarrow> nat \<Rightarrow> 32 word \<Rightarrow> 32 word \<Rightarrow> (32 word \<Rightarrow> 32 word option) \<Rightarrow> 32 word \<Rightarrow> 32 word option" where
  "over va n pa perm m va' =
     (if unat (PGNUM va) \<le> unat (PGNUM va') \<and> unat (PGNUM va') < unat (PGNUM va) + n
      then Some (region_pte pa perm va va') else m va')"

definition slots :: "32 word \<Rightarrow> nat \<Rightarrow> nat set" where
  "slots va n = (\<lambda>l. (unat (PGNUM va) + l) div 1024) ` {..<n}"

definition kmap_at :: "nat \<Rightarrow> nat list \<Rightarrow> nat \<Rightarrow> (32 word \<Rightarrow> 32 word option) \<Rightarrow> nat set \<Rightarrow> kstate \<Rightarrow> bool" where
  "kmap_at r zs d m N s \<longleftrightarrow>
     (\<exists>xs. kmap_inv r s d xs \<and> suffix xs zs) \<and> kern_pgdir s = d \<and>
     (\<forall>va. unat (PDX va) \<noteq> self_slot \<longrightarrow> vm_map s d va = m va) \<and>
     (\<forall>j < 1024. j \<noteq> self_slot \<longrightarrow> (mem s d j \<noteq> 0) = (j \<in> N))"

lemma region_step:
  assumes k: "kmap_at r zs d m N s" and ok: "region_ok va n"
    and sz: "unat sz \<le> n * 4096" "n * 4096 < unat sz + 4096" "n * 4096 < 2 ^ 32"
  shows "\<exists>t. boot_map_region d va sz pa perm s = Ret () t \<and> vm_frame s t \<and>
     kmap_at r zs d (over va n pa perm m) (N \<union> slots va n) t"
proof -
  obtain xs where xs: "kmap_inv r s d xs" "suffix xs zs" using k by (auto simp: kmap_at_def)
  obtain t ys where t: "boot_map_region d va sz pa perm s = Ret () t" "kmap_inv r t d ys" "suffix ys xs" "vm_frame s t"
    and m: "\<And>va'. unat (PDX va') \<noteq> self_slot \<Longrightarrow> vm_map t d va' =
       (if unat (PGNUM va) \<le> unat (PGNUM va') \<and> unat (PGNUM va') < unat (PGNUM va) + n
        then Some (region_pte pa perm va va') else vm_map s d va')"
    and o: "\<And>j. (\<forall>l < n. j \<noteq> (unat (PGNUM va) + l) div 1024) \<Longrightarrow> mem t d j = mem s d j"
    and z: "\<forall>l < n. mem t d ((unat (PGNUM va) + l) div 1024) \<noteq> 0"
    using region_effect [OF xs(1) ok sz, of pa perm] by blast
  have "(mem t d j \<noteq> 0) = (j \<in> N \<union> slots va n)" if j: "j < 1024" "j \<noteq> self_slot" for j
  proof (cases "j \<in> slots va n")
    case True
    then show ?thesis using z by (auto simp: slots_def)
  next
    case False
    then have "mem t d j = mem s d j" by (intro o) (auto simp: slots_def)
    then show ?thesis using False j k by (simp add: kmap_at_def)
  qed
  moreover have "vm_map t d va' = over va n pa perm m va'" if "unat (PDX va') \<noteq> self_slot" for va'
    using m [OF that] k that by (simp add: over_def kmap_at_def)
  moreover have "kern_pgdir t = d" using vm_frame_sel [OF t(4)] k by (simp add: kmap_at_def)
  moreover have "suffix ys zs" using t(3) xs(2) by (rule suffix_order.trans)
  ultimately show ?thesis using t(1,2,4) unfolding kmap_at_def by blast
qed

text \<open>The number of pages of sz bytes.\<close>

definition page_count :: "32 word \<Rightarrow> nat" where "page_count sz = (unat sz + 4095) div 4096"

lemma page_count_bounds: "unat sz \<le> page_count sz * 4096" "page_count sz * 4096 < unat sz + 4096"
  unfolding page_count_def by linarith+

lemma array_step:
  assumes k: "kmap_at r zs d m N s" and ok: "region_ok va (page_count sz)" and sz: "unat sz < 2 ^ 31" and kva: "KERNBASE \<le> kva"
  shows "\<exists>t. map_array va sz kva perm s = Ret () t \<and> vm_frame s t \<and>
     kmap_at r zs d (over va (page_count sz) (kva - KERNBASE) perm m) (N \<union> slots va (page_count sz)) t"
proof -
  have "page_count sz * 4096 < 2 ^ 32" using sz page_count_bounds(2) [of sz] by simp
  note r = region_step [OF k ok page_count_bounds this, of "kva - KERNBASE" perm]
  have "kern_pgdir s = d" using k by (simp add: kmap_at_def)
  moreover have "paddr kva s = Ret (kva - KERNBASE) s" using kva by (simp add: paddr_def PADDR_def not_less)
  ultimately show ?thesis using r by (simp add: map_array_def)
qed

section \<open>The layout\<close>

text \<open>The physical memory from pa on, seen from base on.\<close>

definition window :: "32 word \<Rightarrow> 32 word \<Rightarrow> 32 word \<Rightarrow> 32 word \<Rightarrow> 32 word" where
  "window base pa perm va = (pa + (PTE_ADDR va - base)) OR perm OR PTE_P"

definition within :: "32 word \<Rightarrow> nat \<Rightarrow> 32 word \<Rightarrow> bool" where
  "within base n va \<longleftrightarrow> base \<le> va \<and> unat va < unat base + n * 4096"

definition pages_size :: "nat \<Rightarrow> 32 word" where "pages_size np = of_nat np * sizeof_PageInfo"
definition envs_size :: "32 word" where "envs_size = of_nat NENV * sizeof_Env"

definition kernel_layout :: "arrays \<Rightarrow> 32 word \<Rightarrow> nat \<Rightarrow> 32 word \<Rightarrow> 32 word option" where
  "kernel_layout a bootstack np va =
     (if KERNBASE \<le> va then Some (window KERNBASE 0 PTE_W va)
      else if KSTACKTOP - KSTKSIZE \<le> va then Some (window (KSTACKTOP - KSTKSIZE) (bootstack - KERNBASE) PTE_W va)
      else if within UPAGES (page_count (pages_size np)) va then Some (window UPAGES (pages_kva a - KERNBASE) PTE_U va)
      else if within UENVS (page_count envs_size) va then Some (window UENVS (envs_kva a - KERNBASE) PTE_U va)
      else if within UVSYS 1 va then Some (window UVSYS (vsys_kva a - KERNBASE) PTE_U va)
      else None)"

lemma PTE_ADDR_mult: "PTE_ADDR va = PGNUM va * PGSIZE"
proof -
  have "PGSIZE = 2 ^ 12" by (simp add: PGSIZE_def)
  then show ?thesis by (simp add: PTE_ADDR_alt PGNUM_def push_bit_eq_mult)
qed

lemma aligned_PTE_ADDR: "PGOFF va = 0 \<Longrightarrow> PTE_ADDR va = va"
proof -
  assume "PGOFF va = 0"
  then have "take_bit 12 va = 0" by (simp add: PGOFF_alt)
  then show "PTE_ADDR va = va" using bits_ident [of 12 va] by (simp add: PTE_ADDR_alt)
qed

lemma region_pte_window: "PGOFF base = 0 \<Longrightarrow> region_pte pa perm base va = window base pa perm va"
  using aligned_PTE_ADDR [of base] by (simp add: region_pte_def window_def PTE_ADDR_mult algebra_simps)

lemma page_range:
  assumes "PGOFF base = 0"
  shows "unat (PGNUM base) \<le> unat (PGNUM va) \<and> unat (PGNUM va) < unat (PGNUM base) + n \<longleftrightarrow> within base n va"
proof -
  have "unat base mod 4096 = 0" using assms unat_PGOFF [of base] by simp
  then obtain b where b: "unat base = 4096 * b" by (auto simp: mod_eq_0_iff_dvd elim: dvdE)
  have "unat va = 4096 * (unat va div 4096) + unat va mod 4096" "unat va mod 4096 < 4096" by simp_all
  then show ?thesis unfolding within_def word_le_nat_alt unat_PGNUM b by (simp, linarith)
qed

lemma over_within:
  "PGOFF base = 0 \<Longrightarrow> over base n pa perm m va = (if within base n va then Some (window base pa perm va) else m va)"
  by (simp add: over_def page_range region_pte_window)

section \<open>mem_init's regions\<close>

lemma region_okI:
  assumes "PGOFF va = 0" "lo * 1024 \<le> unat (PGNUM va)" "unat (PGNUM va) + n \<le> hi * 1024" "NUSER \<le> lo" "hi \<le> 1024"
    "self_slot < lo \<or> hi \<le> self_slot"
  shows "region_ok va n"
proof -
  have "kslot ((unat (PGNUM va) + k) div 1024)" if "k < n" for k
  proof -
    have "lo \<le> (unat (PGNUM va) + k) div 1024" "(unat (PGNUM va) + k) div 1024 < hi"
      using assms(2,3) that by (simp_all add: less_eq_div_iff_mult_less_eq div_less_iff_less_mult)
    then show ?thesis using assms(4-6) by (auto simp: kslot_def)
  qed
  then show ?thesis using assms by (simp add: region_ok_def)
qed

text \<open>The arrays lie above KERNBASE, page-aligned, and end below the top.\<close>

definition array_at :: "32 word \<Rightarrow> 32 word \<Rightarrow> bool" where
  "array_at kva sz \<longleftrightarrow> KERNBASE \<le> kva \<and> PGOFF kva = 0 \<and> unat kva + unat sz < 2 ^ 32"

definition arrays_ok :: "arrays \<Rightarrow> nat \<Rightarrow> bool" where
  "arrays_ok a np \<longleftrightarrow> np \<le> 65536 \<and> array_at (pages_kva a) (pages_size np) \<and> array_at (envs_kva a) envs_size \<and>
     array_at (vsys_kva a) PGSIZE"

lemma fixed_offsets: "PGOFF UPAGES = 0" "PGOFF UENVS = 0" "PGOFF UVSYS = 0" "PGOFF (KSTACKTOP - KSTKSIZE) = 0" "PGOFF KERNBASE = 0"
  by (simp_all add: layout_values layout_defs PGOFF_def)

lemma fixed_pages: "unat (PGNUM UPAGES) = 956 * 1024" "unat (PGNUM UENVS) = 955 * 1024" "unat (PGNUM UVSYS) = 954 * 1024"
  "unat (PGNUM (KSTACKTOP - KSTKSIZE)) = 960 * 1024 - 8" "unat (PGNUM KERNBASE) = 960 * 1024"
  by (simp_all add: unat_PGNUM layout_values layout_defs)

lemma envs_size_eq: "envs_size = 122880"
  by (simp add: envs_size_def sizeof_Env_def NENV_def)

lemma unat_pages_size: "np \<le> 65536 \<Longrightarrow> unat (pages_size np) = np * 8"
proof -
  assume "np \<le> 65536"
  moreover have "pages_size np = of_nat (np * 8)" by (simp add: pages_size_def sizeof_PageInfo_def)
  ultimately show "unat (pages_size np) = np * 8" using unat_of_nat_32 [of "np * 8"] by simp
qed

lemma array_ok:
  assumes "array_at kva sz"
  shows "region_ok kva (page_count sz)" and "960 * 1024 \<le> unat (PGNUM kva)"
proof -
  have u: "unat kva + unat sz < 2 ^ 32" "PGOFF kva = 0" "unat kva \<ge> 0xF0000000"
    using assms by (simp_all add: array_at_def word_le_nat_alt layout_defs)
  show lo: "960 * 1024 \<le> unat (PGNUM kva)" using u(3) by (simp add: unat_PGNUM less_eq_div_iff_mult_less_eq)
  have "unat kva mod 4096 = 0" using u(2) unat_PGOFF [of kva] by simp
  then obtain b where b: "unat kva = 4096 * b" by (auto simp: mod_eq_0_iff_dvd elim: dvdE)
  have "b + page_count sz \<le> 1024 * 1024" using u(1) page_count_bounds(2) [of sz] unfolding b by simp
  then have "unat (PGNUM kva) + page_count sz \<le> 1024 * 1024" by (simp add: unat_PGNUM b)
  then show "region_ok kva (page_count sz)"
    by (intro region_okI [OF u(2) lo, where hi=1024]) (simp_all add: NUSER_eq self_slot_eq)
qed

lemma fixed_regions:
  assumes "np \<le> 65536"
  shows "region_ok UPAGES (page_count (pages_size np))" "region_ok UENVS (page_count envs_size)" "region_ok UVSYS 1"
    "region_ok (KSTACKTOP - KSTKSIZE) 8" "region_ok KERNBASE 65536"
proof -
  have n: "page_count (pages_size np) \<le> 128" using assms by (simp add: page_count_def unat_pages_size)
  show "region_ok UPAGES (page_count (pages_size np))"
    by (rule region_okI [where lo=956 and hi=957]) (use n in \<open>simp_all add: fixed_offsets fixed_pages NUSER_eq self_slot_eq\<close>)
  show "region_ok UENVS (page_count envs_size)"
    by (rule region_okI [where lo=955 and hi=956])
      (simp_all add: fixed_offsets fixed_pages NUSER_eq self_slot_eq page_count_def envs_size_eq)
  show "region_ok UVSYS 1"
    by (rule region_okI [where lo=954 and hi=955]) (simp_all add: fixed_offsets fixed_pages NUSER_eq self_slot_eq)
  show "region_ok (KSTACKTOP - KSTKSIZE) 8"
    by (rule region_okI [where lo=959 and hi=960]) (simp_all add: fixed_offsets fixed_pages NUSER_eq self_slot_eq)
  show "region_ok KERNBASE 65536"
    by (rule region_okI [where lo=960 and hi=1024]) (simp_all add: fixed_offsets fixed_pages NUSER_eq self_slot_eq)
qed

text \<open>The directory slots of the layout.\<close>

definition layout_slots :: "nat \<Rightarrow> nat set" where
  "layout_slots np = {i. i = 954 \<or> i = 955 \<or> (i = 956 \<and> 0 < np) \<or> 959 \<le> i}"

lemma slots_one:
  assumes "unat (PGNUM va) = i * 1024" "n \<le> 1024"
  shows "slots va n = (if n = 0 then {} else {i})"
proof -
  have "(i * 1024 + l) div 1024 = i" if "l < n" for l using that assms(2) by simp
  then show ?thesis using assms(1) by (auto simp: slots_def)
qed

lemma slots_stack: "slots (KSTACKTOP - KSTKSIZE) 8 = {959}"
proof -
  have "(960 * 1024 - 8 + l) div 1024 = 959" if "l < 8" for l :: nat using that by simp
  then show ?thesis unfolding slots_def fixed_pages by (auto intro!: image_eqI [of _ _ 0])
qed

lemma slots_kern: "slots KERNBASE 65536 = {i. 960 \<le> i \<and> i < 1024}"
proof -
  have "i \<in> slots KERNBASE 65536" if "960 \<le> i" "i < 1024" for i
  proof -
    have "(i - 960) * 1024 < 65536" "i = (960 * 1024 + (i - 960) * 1024) div 1024" using that by simp_all
    then show ?thesis unfolding slots_def fixed_pages by blast
  qed
  moreover have "960 \<le> (960 * 1024 + l) div 1024 \<and> (960 * 1024 + l) div 1024 < 1024" if "l < 65536" for l :: nat
    using that by (simp add: less_eq_div_iff_mult_less_eq div_less_iff_less_mult)
  ultimately show ?thesis unfolding slots_def fixed_pages by auto
qed

lemma slots_array: "array_at kva sz \<Longrightarrow> i \<in> slots kva (page_count sz) \<Longrightarrow> 960 \<le> i"
  using array_ok(2) [of kva sz] by (auto simp: slots_def less_eq_div_iff_mult_less_eq)

lemma array_within: "array_at kva sz \<Longrightarrow> within kva n va \<Longrightarrow> KERNBASE \<le> va"
  by (auto simp: array_at_def within_def)

lemma within_kern: "within KERNBASE 65536 va \<longleftrightarrow> KERNBASE \<le> va"
  using unat_32_less [of va] by (auto simp: within_def layout_defs)

lemma within_stack: "within (KSTACKTOP - KSTKSIZE) 8 va \<longleftrightarrow> KSTACKTOP - KSTKSIZE \<le> va \<and> va < KERNBASE"
  by (auto simp: within_def layout_values layout_defs word_less_nat_alt)

lemma layout_over:
  assumes "arrays_ok a np"
  shows "over KERNBASE 65536 0 PTE_W (over (KSTACKTOP - KSTKSIZE) 8 (bootstack - KERNBASE) PTE_W
    (over UVSYS 1 (vsys_kva a - KERNBASE) PTE_U
     (over (envs_kva a) (page_count envs_size) (envs_kva a - KERNBASE) PTE_W
      (over UENVS (page_count envs_size) (envs_kva a - KERNBASE) PTE_U
       (over (pages_kva a) (page_count (pages_size np)) (pages_kva a - KERNBASE) PTE_W
        (over UPAGES (page_count (pages_size np)) (pages_kva a - KERNBASE) PTE_U (\<lambda>_. None))))))) va
    = kernel_layout a bootstack np va"
proof -
  have ar: "array_at (pages_kva a) (pages_size np)" "array_at (envs_kva a) envs_size" "PGOFF (pages_kva a) = 0" "PGOFF (envs_kva a) = 0"
    and np: "np \<le> 65536" using assms by (simp_all add: arrays_ok_def array_at_def)
  note sp = fixed_offsets ar(3,4)
  have n: "page_count (pages_size np) \<le> 128" "page_count envs_size = 30" 
    using np by (simp_all add: page_count_def unat_pages_size envs_size_eq)
  have k: "\<not> within (pages_kva a) m va" "\<not> within (envs_kva a) m va" if "\<not> KERNBASE \<le> va" for m
    using array_within [OF ar(1)] array_within [OF ar(2)] that by blast+
  have b: "unat UPAGES = 956 * 4194304" "unat UENVS = 955 * 4194304" "unat UVSYS = 954 * 4194304" by (simp_all add: layout_values)
  have dis: "\<not> (within UPAGES (page_count (pages_size np)) va \<and> within UENVS (page_count envs_size) va)"
    "\<not> (within UPAGES (page_count (pages_size np)) va \<and> within UVSYS 1 va)"
    "\<not> (within UENVS (page_count envs_size) va \<and> within UVSYS 1 va)"
    using n unfolding within_def word_le_nat_alt b by simp_all
  have st: "\<not> within UPAGES (page_count (pages_size np)) va" "\<not> within UENVS (page_count envs_size) va" "\<not> within UVSYS 1 va"
    if "KSTACKTOP - KSTKSIZE \<le> va"
    using that n unfolding within_def word_le_nat_alt b by (simp_all add: layout_values)
  show ?thesis
    unfolding over_within [OF sp(1)] over_within [OF sp(2)] over_within [OF sp(3)] over_within [OF sp(4)] over_within [OF sp(5)]
      over_within [OF sp(6)] over_within [OF sp(7)] within_kern within_stack kernel_layout_def
    using k dis by (auto simp: not_le)
qed

lemma kmap_at_cong:
  assumes "kmap_at r zs d m N s" "\<And>va. m va = m' va" "\<And>j. j < 1024 \<Longrightarrow> j \<noteq> self_slot \<Longrightarrow> j \<in> N \<longleftrightarrow> j \<in> N'"
  shows "kmap_at r zs d m' N' s"
  using assms by (auto simp: kmap_at_def)


text \<open>One more region, then the rest.\<close>

lemma array_bind:
  assumes "kmap_at r zs d m N s" "region_ok va n" "n = page_count sz" "unat sz < 2 ^ 31" "KERNBASE \<le> kva"
    and "\<And>t. vm_frame s t \<Longrightarrow> kmap_at r zs d (over va n (kva - KERNBASE) perm m) (N \<union> slots va n) t \<Longrightarrow>
      \<exists>u. f t = Ret () u \<and> vm_frame t u \<and> P u"
  shows "\<exists>u. kbind (map_array va sz kva perm s) (\<lambda>_. f) = Ret () u \<and> vm_frame s u \<and> P u"
proof -
  obtain t where t: "map_array va sz kva perm s = Ret () t" "vm_frame s t"
    "kmap_at r zs d (over va n (kva - KERNBASE) perm m) (N \<union> slots va n) t"
    using array_step [OF assms(1) _ assms(4,5), of va perm] assms(2,3) by blast
  with assms(6) [OF t(2,3)] show ?thesis by (auto intro: vm_frame_trans)
qed

lemma layout_slots_eq:
  assumes "arrays_ok a np" "j < 1024"
  shows "j \<in> {} \<union> slots UPAGES (page_count (pages_size np)) \<union> slots (pages_kva a) (page_count (pages_size np)) \<union>
      slots UENVS (page_count envs_size) \<union> slots (envs_kva a) (page_count envs_size) \<union> slots UVSYS 1 \<union>
      slots (KSTACKTOP - KSTKSIZE) 8 \<union> slots KERNBASE 65536 \<longleftrightarrow> j \<in> layout_slots np"
proof -
  have np: "np \<le> 65536" and ar: "array_at (pages_kva a) (pages_size np)" "array_at (envs_kva a) envs_size"
    using assms(1) by (simp_all add: arrays_ok_def)
  have pos: "page_count (pages_size np) = 0 \<longleftrightarrow> np = 0"
    using np by (simp add: page_count_def unat_pages_size) linarith
  have nb: "page_count (pages_size np) \<le> 1024" "page_count envs_size \<le> 1024" "page_count envs_size \<noteq> 0"
    using np by (simp_all add: page_count_def unat_pages_size envs_size_eq)
  have sv: "slots UVSYS 1 = {954}"
    by (rule slots_one [OF fixed_pages(3), of 1, THEN trans]) simp_all
  show ?thesis
    unfolding slots_stack slots_kern sv slots_one [OF fixed_pages(1) nb(1)] slots_one [OF fixed_pages(2) nb(2)]
    using assms(2) slots_array [OF ar(1), of j] slots_array [OF ar(2), of j] pos nb(3) by (auto simp: layout_slots_def)
qed

lemma kern_region:
  assumes "kmap_at r zs d m N s"
  shows "\<exists>t. boot_map_region (kern_pgdir s) KERNBASE (NOT KERNBASE + 1) 0 PTE_W s = Ret () t \<and> vm_frame s t \<and>
     kmap_at r zs d (over KERNBASE 65536 0 PTE_W m) (N \<union> slots KERNBASE 65536) t"
proof -
  have "kern_pgdir s = d" using assms by (simp add: kmap_at_def)
  moreover have "unat (NOT KERNBASE + 1) = 65536 * 4096" by (simp add: layout_defs)
  ultimately show ?thesis
    using region_step [OF assms fixed_regions(5) [of 0], of "NOT KERNBASE + 1" 0 PTE_W] by simp
qed

lemma mem_init_map_effect:
  assumes k: "kmap_at r zs d (\<lambda>_. None) {} s" and a: "arrays_ok a (npages s)" and b: "KERNBASE \<le> bootstack"
  shows "\<exists>t. mem_init_map a bootstack s = Ret () t \<and> vm_frame s t \<and>
    kmap_at r zs d (kernel_layout a bootstack (npages s)) (layout_slots (npages s)) t"
proof -
  have np: "npages s \<le> 65536" using a by (simp add: arrays_ok_def)
  have ar: "array_at (pages_kva a) (pages_size (npages s))" "array_at (envs_kva a) envs_size" "KERNBASE \<le> vsys_kva a"
    "KERNBASE \<le> pages_kva a" "KERNBASE \<le> envs_kva a"
    using a by (simp_all add: arrays_ok_def array_at_def)
  have sz: "unat (pages_size (npages s)) < 2 ^ 31" "unat envs_size < 2 ^ 31" "unat (ROUNDUP (NVSYSCALLS * 4) PGSIZE) < 2 ^ 31"
      "unat KSTKSIZE < 2 ^ 31"
    using np by (simp_all add: unat_pages_size envs_size_eq NVSYSCALLS_def ROUNDUP_def ROUNDDOWN_def PGSIZE_def layout_values)
  have one: "1 = page_count (ROUNDUP (NVSYSCALLS * 4) PGSIZE)" "8 = page_count KSTKSIZE"
    by (simp_all add: page_count_def NVSYSCALLS_def ROUNDUP_def ROUNDDOWN_def PGSIZE_def layout_values)
  note fr = fixed_regions [OF np]
  show ?thesis
    unfolding mem_init_map_def Let_def pages_size_def [symmetric] envs_size_def [symmetric]
    apply (rule array_bind [OF k fr(1) refl sz(1) ar(4)])
    apply (erule array_bind [OF _ array_ok(1) [OF ar(1)] refl sz(1) ar(4)])
    apply (erule array_bind [OF _ fr(2) refl sz(2) ar(5)])
    apply (erule array_bind [OF _ array_ok(1) [OF ar(2)] refl sz(2) ar(5)])
    apply (erule array_bind [OF _ fr(3) one(1) sz(3) ar(3)])
    apply (erule array_bind [OF _ fr(4) one(2) sz(4) b])
    apply (drule kern_region, elim exE conjE)
    apply (intro exI conjI, assumption+)
    apply (erule kmap_at_cong [OF _ layout_over [OF a] layout_slots_eq [OF a]])
    by assumption
qed

section \<open>check_kern_pgdir\<close>

lemma kforeach_skip: "(\<And>x. x \<in> set xs \<Longrightarrow> f x s = Ret () s) \<Longrightarrow> kforeach f xs s = Ret () s"
  by (induction xs) simp_all

lemma PGOFF_mult: "PGOFF (x * PGSIZE) = 0"
proof -
  have "PGSIZE = 2 ^ 12" by (simp add: PGSIZE_def)
  then have "x * PGSIZE = push_bit 12 x" by (simp add: push_bit_eq_mult)
  then show ?thesis by (simp add: PGOFF_alt take_bit_push_bit)
qed

lemma aligned_mult: "PGOFF a = 0 \<Longrightarrow> a = PGNUM a * PGSIZE"
  by (metis aligned_PTE_ADDR PTE_ADDR_mult)

lemma PGOFF_add: "PGOFF a = 0 \<Longrightarrow> PGOFF b = 0 \<Longrightarrow> PGOFF (a + b) = 0"
  by (metis aligned_mult PGOFF_mult distrib_right)

lemma PGOFF_sub: "PGOFF a = 0 \<Longrightarrow> PGOFF b = 0 \<Longrightarrow> PGOFF (a - b) = 0"
  by (metis aligned_mult PGOFF_mult left_diff_distrib)

lemma window_addr:
  assumes "PGOFF base = 0" "PGOFF pa = 0" "low_perm perm"
  shows "PTE_ADDR (window base pa perm (base + of_nat k * PGSIZE)) = pa + of_nat k * PGSIZE"
proof -
  have "PTE_ADDR (base + of_nat k * PGSIZE) = base + of_nat k * PGSIZE" "PTE_ADDR (pa + of_nat k * PGSIZE) = pa + of_nat k * PGSIZE"
    using assms by (simp_all add: aligned_PTE_ADDR PGOFF_add PGOFF_mult)
  moreover have "low_perm (perm OR PTE_P)" using assms(3) by simp
  ultimately show ?thesis by (simp add: window_def PTE_ADDR_or_low or.assoc)
qed

lemma check_va2pa_effect:
  assumes "kmap_inv r s d xs" "unat (PDX va) \<noteq> self_slot"
  shows "check_va2pa d va s = Ret (case vm_map s d va of None \<Rightarrow> NOT 0 | Some pte \<Rightarrow> PTE_ADDR pte) s"
proof (cases "mem s d (unat (PDX va)) = 0")
  case True
  then show ?thesis by (simp add: check_va2pa_def vm_map_def Let_def present_def)
next
  case False
  note t = kmap_table [OF assms(1) PDX_less assms(2) False]
  obtain kva where "KADDR (npages s) (PTE_ADDR (mem s d (unat (PDX va)))) = Some kva" "kva_frame kva = frame (mem s d (unat (PDX va)))"
    using KADDR_Some [of "PTE_ADDR (mem s d (unat (PDX va)))" "npages s"] t(2) by (auto simp: frame_def PGNUM_PTE_ADDR)
  then show ?thesis using t(1) by (simp add: check_va2pa_def vm_map_def Let_def present_def)
qed

lemma kmap_check:
  assumes k: "kmap_at r zs d m N s" and va: "unat (PDX va) \<noteq> self_slot"
  shows "check_va2pa (kern_pgdir s) va s = Ret (case m va of None \<Rightarrow> NOT 0 | Some pte \<Rightarrow> PTE_ADDR pte) s"
proof -
  obtain xs where "kmap_inv r s d xs" using k by (auto simp: kmap_at_def)
  from check_va2pa_effect [OF this va] show ?thesis using k va by (simp add: kmap_at_def)
qed

lemma page_offsets_eq:
  assumes "unat n < 2 ^ 31"
  shows "page_offsets n = map (\<lambda>k. of_nat k * PGSIZE) [0..<page_count n]"
proof -
  have u: "unat n + 4095 < 2 ^ 32" using assms by simp
  have "ROUNDUP n PGSIZE = page_addr (page_count n)"
    using ROUNDUP_page [of n] u by (simp add: page_count_def)
  moreover have "page_count n < 2 ^ 20" using assms by (simp add: page_count_def)
  then have "unat (page_addr (page_count n) div PGSIZE) = page_count n"
    by (simp add: unat_div unat_page_addr PGSIZE_def)
  ultimately show ?thesis by (simp add: page_offsets_def)
qed

lemma check_region_ok:
  assumes k: "kmap_at r zs d m N s" and sz: "unat n < 2 ^ 31" and al: "PGOFF va = 0" "PGOFF pa = 0" "low_perm perm"
    and m: "\<And>k. k < page_count n \<Longrightarrow> m (va + of_nat k * PGSIZE) = Some (window va pa perm (va + of_nat k * PGSIZE)) \<and>
              unat (PDX (va + of_nat k * PGSIZE)) \<noteq> self_slot"
  shows "check_region va n pa s = Ret () s"
  unfolding check_region_def page_offsets_eq [OF sz]
proof (rule kforeach_skip)
  fix i assume "i \<in> set (map (\<lambda>k. of_nat k * PGSIZE) [0..<page_count n])"
  then obtain j where j: "j < page_count n" "i = of_nat j * PGSIZE" by auto
  show "kbind (check_va2pa (kern_pgdir s) (va + i) s) (\<lambda>r. kassert ''check_va2pa'' (r = pa + i)) = Ret () s"
    using m [OF j(1)] kmap_check [OF k, of "va + i"] window_addr [OF al, of j] unfolding j(2) by (simp add: kassert_def)
qed

text \<open>The k-th page of a region is in the region, and not in the directory's own slot.\<close>

lemma nth_page:
  assumes "region_ok va n" "k < n"
  shows "unat (PDX (va + of_nat k * PGSIZE)) \<noteq> self_slot"
    and "unat (va + of_nat k * PGSIZE) = unat va + k * 4096"
proof -
  have r: "unat (PGNUM va) + k < 2 ^ 20" "PGOFF va = 0" and s: "kslot ((unat (PGNUM va) + k) div 1024)"
    using assms by (auto simp: region_ok_def)
  note ps = page_step [OF r]
  have "unat (PDX (va + of_nat k * PGSIZE)) = (unat (PGNUM va) + k) div 1024"
    using ps(1) by (simp add: unat_PDX unat_PGNUM div_4194304)
  then show "unat (PDX (va + of_nat k * PGSIZE)) \<noteq> self_slot" using s by (simp add: kslot_def)
  have "unat (va + of_nat k * PGSIZE) mod 4096 = 0" "unat va mod 4096 = 0"
    using ps(2) r(2) unat_PGOFF [of "va + of_nat k * PGSIZE"] unat_PGOFF [of va] by simp_all
  then show "unat (va + of_nat k * PGSIZE) = unat va + k * 4096"
    using ps(1) div_mult_mod_eq [of "unat (va + of_nat k * PGSIZE)" 4096] div_mult_mod_eq [of "unat va" 4096]
    unfolding unat_PGNUM by linarith
qed

lemma nth_within: "region_ok va n \<Longrightarrow> k < n \<Longrightarrow> within va n (va + of_nat k * PGSIZE)"
  using nth_page(2) [of va n k] by (simp add: within_def word_le_nat_alt)

lemma layout_regions:
  assumes np: "np \<le> 65536"
  shows "within UPAGES (page_count (pages_size np)) va \<Longrightarrow> kernel_layout a b np va = Some (window UPAGES (pages_kva a - KERNBASE) PTE_U va)"
    and "within UENVS (page_count envs_size) va \<Longrightarrow> kernel_layout a b np va = Some (window UENVS (envs_kva a - KERNBASE) PTE_U va)"
    and "within (KSTACKTOP - KSTKSIZE) 8 va \<Longrightarrow> kernel_layout a b np va = Some (window (KSTACKTOP - KSTKSIZE) (b - KERNBASE) PTE_W va)"
    and "within KERNBASE 65536 va \<Longrightarrow> kernel_layout a b np va = Some (window KERNBASE 0 PTE_W va)"
proof -
  have n: "page_count (pages_size np) \<le> 128" "page_count envs_size = 30"
    using np by (simp_all add: page_count_def unat_pages_size envs_size_eq)
  have b: "unat UPAGES = 956 * 4194304" "unat UENVS = 955 * 4194304" "unat UVSYS = 954 * 4194304"
    "unat KERNBASE = 960 * 4194304" "unat (KSTACKTOP - KSTKSIZE) = 960 * 4194304 - 32768"
    by (simp_all add: layout_values layout_defs)
  show "within UPAGES (page_count (pages_size np)) va \<Longrightarrow> kernel_layout a b np va = Some (window UPAGES (pages_kva a - KERNBASE) PTE_U va)"
    "within UENVS (page_count envs_size) va \<Longrightarrow> kernel_layout a b np va = Some (window UENVS (envs_kva a - KERNBASE) PTE_U va)"
    "within (KSTACKTOP - KSTKSIZE) 8 va \<Longrightarrow> kernel_layout a b np va = Some (window (KSTACKTOP - KSTKSIZE) (b - KERNBASE) PTE_W va)"
    using n unfolding within_def kernel_layout_def word_le_nat_alt b by auto
  show "within KERNBASE 65536 va \<Longrightarrow> kernel_layout a b np va = Some (window KERNBASE 0 PTE_W va)"
    by (simp add: kernel_layout_def within_def)
qed

lemma layout_check:
  assumes k: "kmap_at r zs d (kernel_layout a b np) (layout_slots np) s" and ar: "PGOFF kva = 0" "unat n < 2 ^ 31"
    and va: "PGOFF va = 0" "region_ok va (page_count n)"
    and lay: "\<And>va'. within va (page_count n) va' \<Longrightarrow> kernel_layout a b np va' = Some (window va (kva - KERNBASE) perm va')"
    and perm: "low_perm perm"
  shows "check_region va n (kva - KERNBASE) s = Ret () s"
proof (rule check_region_ok [OF k ar(2) va(1) _ perm])
  show "PGOFF (kva - KERNBASE) = 0" using ar(1) by (simp add: PGOFF_sub fixed_offsets)
  show "kernel_layout a b np (va + of_nat k * PGSIZE) = Some (window va (kva - KERNBASE) perm (va + of_nat k * PGSIZE)) \<and>
      unat (PDX (va + of_nat k * PGSIZE)) \<noteq> self_slot" if "k < page_count n" for k
    using lay [OF nth_within [OF va(2) that]] nth_page(1) [OF va(2) that] by blast
qed

lemma pde_ok:
  assumes k: "kmap_at r zs d m (layout_slots np) s" and i: "i < 1024"
  shows "check_pde i s = Ret () s"
proof -
  obtain xs where inv: "kmap_inv r s d xs" and d: "kern_pgdir s = d" using k by (auto simp: kmap_at_def)
  have c: "unat (PDX UVPT) = 957" "unat (PDX (KSTACKTOP - 1)) = 959" "unat (PDX UPAGES) = 956" "unat (PDX UENVS) = 955"
    "unat (PDX UVSYS) = 954" "unat (PDX KERNBASE) = 960" by (simp_all add: unat_PDX layout_values layout_defs)
  show ?thesis
  proof (cases "i \<in> {954, 955, 956, 957, 959}")
    case True
    then show ?thesis by (auto simp: check_pde_def c)
  next
    case False
    then have s: "i \<noteq> self_slot" by (simp add: self_slot_eq)
    have nz: "(mem s d i \<noteq> 0) = (960 \<le> i)" using k i s False by (auto simp: kmap_at_def layout_slots_def)
    have "mem s d i AND PTE_P \<noteq> 0 \<and> mem s d i AND PTE_W \<noteq> 0" if "960 \<le> i"
    proof -
      have e: "mem s d i = table_pde (frame (mem s d i))" using kmap_table(5) [OF inv i s] nz that by simp
      then show ?thesis
        using new_pde_bits(1) [of "frame (mem s d i)"] kmap_table(1) [OF inv i s] nz that unfolding and_PTE table_pde_def present_bit by metis
    qed
    then show ?thesis using False nz d by (auto simp: check_pde_def c kassert_def Let_def)
  qed
qed

lemma check_kern_pgdir_effect:
  assumes k: "kmap_at r zs d (kernel_layout a b (npages s)) (layout_slots (npages s)) s"
    and a: "arrays_ok a (npages s)" and b: "KERNBASE \<le> b" "PGOFF b = 0"
  shows "check_kern_pgdir a b s = Ret () s"
proof -
  have np: "npages s \<le> 65536" and al: "PGOFF (pages_kva a) = 0" "PGOFF (envs_kva a) = 0" "KERNBASE \<le> pages_kva a" "KERNBASE \<le> envs_kva a"
    using a by (simp_all add: arrays_ok_def array_at_def)
  note fr = fixed_regions [OF np] and lr = layout_regions [OF np]
  have perm: "low_perm PTE_U" "low_perm PTE_W" by simp_all
  have mem_sz: "unat (of_nat (npages s) * PGSIZE) = npages s * 4096"
  proof -
    have "of_nat (npages s) * PGSIZE = of_nat (npages s * 4096)" by (simp add: PGSIZE_def)
    then show ?thesis using np unat_of_nat_32 [of "npages s * 4096"] by simp
  qed
  then have mem_n: "page_count (of_nat (npages s) * PGSIZE) = npages s" by (simp add: page_count_def)
  have "region_ok KERNBASE (npages s)" using fr(5) np by (auto simp: region_ok_def)
  moreover have "within KERNBASE 65536 va" if "within KERNBASE (npages s) va" for va
    using that np by (simp add: within_def)
  ultimately have c3: "check_region KERNBASE (of_nat (npages s) * PGSIZE) 0 s = Ret () s"
    using layout_check [OF k fixed_offsets(5) _ fixed_offsets(5), of "of_nat (npages s) * PGSIZE" PTE_W] lr(4) perm mem_sz mem_n np
    by simp
  have c1: "check_region UPAGES (pages_size (npages s)) (pages_kva a - KERNBASE) s = Ret () s"
    by (rule layout_check [OF k al(1) _ fixed_offsets(1) fr(1) lr(1) perm(1)]) (use np in \<open>simp_all add: unat_pages_size\<close>)
  have c2: "check_region UENVS envs_size (envs_kva a - KERNBASE) s = Ret () s"
    by (rule layout_check [OF k al(2) _ fixed_offsets(2) fr(2) lr(2) perm(1)]) (simp_all add: envs_size_eq)
  have e8: "page_count KSTKSIZE = 8" by (simp add: page_count_def layout_values)
  have c4: "check_region (KSTACKTOP - KSTKSIZE) KSTKSIZE (b - KERNBASE) s = Ret () s"
    by (rule layout_check [OF k b(2) _ fixed_offsets(4) _ _ perm(2)])
      (use fr(4) lr(3) in \<open>simp_all add: e8, simp add: layout_values\<close>)
  have g: "unat (PDX (KSTACKTOP - PTSIZE)) \<noteq> self_slot" by (simp add: unat_PDX layout_values layout_defs self_slot_eq)
  have "kernel_layout a b (npages s) (KSTACKTOP - PTSIZE) = None"
  proof -
    have "page_count (pages_size (npages s)) \<le> 128" "page_count envs_size = 30"
      using np by (simp_all add: page_count_def unat_pages_size envs_size_eq)
    then show ?thesis by (simp add: kernel_layout_def within_def layout_values layout_defs)
  qed
  then have c5: "check_va2pa (kern_pgdir s) (KSTACKTOP - PTSIZE) s = Ret (NOT 0) s"
    using kmap_check [OF k g] by simp
  have c6: "kforeach check_pde [0..<NPDENTRIES] s = Ret () s"
    by (rule kforeach_skip) (use pde_ok [OF k] in \<open>simp add: NPDENTRIES_def\<close>)
  have p: "paddr kva s = Ret (kva - KERNBASE) s" if "KERNBASE \<le> kva" for kva
    using that by (simp add: paddr_def PADDR_def not_less)
  show ?thesis
    unfolding check_kern_pgdir_def pages_size_def [symmetric] envs_size_def [symmetric]
    using c1 c2 c3 c4 c5 c6 p [OF al(3)] p [OF al(4)] p [OF b(1)] by (simp add: kassert_def)
qed

end
