(* ===== verification/Mem_Check.thy ===== *)
theory Mem_Check
  imports Pmap_Props Mem_Init
begin

text \<open>
  The self-checks of kern/pmap.c run to their end. The state during a check is written in one form,
  chk: hidden pages that keep their links while the free list is put aside, the free list, the
  reference counts and the memory. The operations of the page allocator and of the page tables are
  rewritten on this form, so that a check is evaluated step by step.
\<close>

section \<open>The state during a check\<close>

definition head :: "nat list \<Rightarrow> nat option" where
  "head xs = (case xs of [] \<Rightarrow> None | x # ys \<Rightarrow> Some x)"

lemma head_simps [simp]: "head [] = None" "head (x # xs) = Some x"
  by (simp_all add: head_def)

fun next_in :: "nat list \<Rightarrow> nat \<Rightarrow> nat option" where
  "next_in [] p = None"
| "next_in (x # xs) p = (if p = x then head xs else next_in xs p)"

lemma same_option [simp]: "(case v of None \<Rightarrow> None | Some q \<Rightarrow> Some q) = v"
  by (cases v) simp_all

lemma next_in_None: "p \<notin> set xs \<Longrightarrow> next_in xs p = None"
  by (induction xs) auto

definition chk :: "nat list \<Rightarrow> nat list \<Rightarrow> (nat \<Rightarrow> 16 word) \<Rightarrow> (nat \<Rightarrow> nat \<Rightarrow> 32 word) \<Rightarrow> 32 word list \<Rightarrow> kstate \<Rightarrow> kstate" where
  "chk h xs R M I s =
     s\<lparr>pages := (\<lambda>p. \<lparr>pp_link = (case next_in h p of None \<Rightarrow> next_in xs p | Some q \<Rightarrow> Some q), pp_ref = R p\<rparr>),
       page_free_list := head xs, mem := M, invlpgs := I\<rparr>"

lemma chk_sel [simp]:
  "npages (chk h xs R M I s) = npages s" "mem (chk h xs R M I s) = M"
  "pp_ref (pages (chk h xs R M I s) p) = R p"
  "page_free_list (chk h xs R M I s) = head xs"
  "kern_pgdir (chk h xs R M I s) = kern_pgdir s" "curenv (chk h xs R M I s) = curenv s" 
  "cr3 (chk h xs R M I s) = cr3 s"
  by (simp_all add: chk_def)

lemma chain_next:
  assumes "chain f (head xs) xs" "distinct xs" "p \<in> set xs"
  shows "f p = next_in xs p"
  using assms
proof (induction xs)
  case Nil
  then show ?case by simp
next
  case (Cons x xs)
  have "f x = head xs" "chain f (head xs) xs" using Cons.prems(1) by (cases xs; simp)+
  then show ?case using Cons by auto
qed

lemma chain_head: "chain f o1 xs \<Longrightarrow> o1 = head xs"
  by (cases xs) auto

lemma chk_self:
  assumes "free_list_ok s xs"
  shows "chk [] xs (\<lambda>p. pp_ref (pages s p)) (mem s) (invlpgs s) s = s"
proof -
  have "chain (\<lambda>i. pp_link (pages s i)) (head xs) xs" and h: "page_free_list s = head xs"
    using assms chain_head unfolding free_list_ok_def by metis+
  then have "pp_link (pages s p) = next_in xs p" for p
    using assms chain_next [of "\<lambda>i. pp_link (pages s i)" xs p] next_in_None [of p xs]
    by (cases "p \<in> set xs") (auto simp: free_list_ok_def)
  then have "(\<lambda>p. \<lparr>pp_link = next_in xs p, pp_ref = pp_ref (pages s p)\<rparr>) = pages s"
    by (intro ext) simp
  then show ?thesis using h by (simp add: chk_def)
qed

lemma chain_next_in: "distinct xs \<Longrightarrow> chain (next_in xs) (head xs) xs"
proof (induction xs)
  case Nil
  then show ?case by simp
next
  case (Cons x xs)
  then have "chain (\<lambda>p. if p = x then head xs else next_in xs p) (head xs) xs"
    by (intro chain_cong [THEN iffD1, OF _ Cons.IH]) auto
  moreover have "next_in (x # xs) = (\<lambda>p. if p = x then head xs else next_in xs p)" by (intro ext) simp
  ultimately show ?case by simp
qed

lemma chk_free_list:
  assumes "distinct xs" "npages s \<le> 2 ^ 20" "\<forall>x \<in> set xs. x < npages s \<and> R x = 0"
  shows "free_list_ok (chk [] xs R M I s) xs"
  using assms chain_next_in [OF assms(1)] by (auto simp: free_list_ok_def chk_def next_in_None)

section \<open>Operations\<close>

lemma chk_hide [simp]: "(chk [] xs R M I s)\<lparr>page_free_list := None\<rparr> = chk xs [] R M I s"
  by (rule kstate.equality) (auto simp: chk_def split: option.splits)

lemma chk_show [simp]: "(chk xs [] R M I s)\<lparr>page_free_list := head xs\<rparr> = chk [] xs R M I s"
  by (rule kstate.equality) (auto simp: chk_def split: option.splits)

lemma chk_ref [simp]: "set_ref p r (chk h xs R M I s) = chk h xs (R(p := r)) M I s"
  by (rule kstate.equality) (auto simp: chk_def set_ref_def)

lemma chk_inc [simp]: "inc_ref p (chk h xs R M I s) = chk h xs (R(p := R p + 1)) M I s"
  by (simp add: inc_ref_def)

lemma chk_store [simp]: "store f i w (chk h xs R M I s) = chk h xs R (M(f := (M f)(i := w))) I s"
  by (rule kstate.equality) (auto simp: chk_def store_def)

lemma chk_tlb [simp]:
  "curenv s = None \<Longrightarrow> tlb_invalidate d va (chk h xs R M I s) = chk h xs R M (va # I) s"
  by (simp add: chk_def tlb_invalidate_def)

lemma page2kva_ok: "x < np \<Longrightarrow> np \<le> 2 ^ 20 \<Longrightarrow> \<exists>kva. page2kva np x = Some kva"
  by (simp add: page2kva_def KADDR_def unat_PGNUM_page2pa)

lemma chk_memset [simp]:
  assumes "x < npages s" "npages s \<le> 2 ^ 20"
  shows "memset_page x w (chk h xs R M I s) = Ret () (chk h xs R (M(x := (\<lambda>_. w))) I s)"
  using page2kva_ok [OF assms] by (auto simp: memset_page_def chk_def)

lemma chk_alloc [simp]:
  "page_alloc fl (chk h [] R M I s) = Ret None (chk h [] R M I s)"
  "\<lbrakk>x \<notin> set h; x \<notin> set xs; x < npages s; npages s \<le> 2 ^ 20\<rbrakk> \<Longrightarrow>
   page_alloc fl (chk h (x # xs) R M I s) =
     Ret (Some x) (chk h xs R (if fl AND ALLOC_ZERO \<noteq> 0 then M(x := (\<lambda>_. 0)) else M) I s)"
proof -
  show "page_alloc fl (chk h [] R M I s) = Ret None (chk h [] R M I s)"
    by (simp add: page_alloc_def)
  assume a: "x \<notin> set h" "x \<notin> set xs" "x < npages s" "npages s \<le> 2 ^ 20"
  have l: "pp_link (pages (chk h (x # xs) R M I s) x) = head xs"
    using a by (simp add: chk_def next_in_None)
  have s2: "set_link x None ((chk h (x # xs) R M I s)\<lparr>page_free_list := head xs\<rparr>) = chk h xs R M I s"
    using a by (intro kstate.equality ext) (auto simp: chk_def set_link_def next_in_None split: option.splits)
  obtain kva where "page2kva (npages s) x = Some kva" using page2kva_ok a by blast
  then show "page_alloc fl (chk h (x # xs) R M I s) =
     Ret (Some x) (chk h xs R (if fl AND ALLOC_ZERO \<noteq> 0 then M(x := (\<lambda>_. 0)) else M) I s)"
    using a by (simp add: page_alloc_def l s2)
qed

lemma chk_free [simp]:
  assumes "x \<notin> set h" "x \<notin> set xs" "R x = 0"
  shows "page_free x (chk h xs R M I s) = Ret () (chk h (x # xs) R M I s)"
proof -
  have "pp_link (pages (chk h xs R M I s) x) = None"
    using assms by (simp add: chk_def next_in_None)
  moreover have "(set_link x (head xs) (chk h xs R M I s))\<lparr>page_free_list := Some x\<rparr> = chk h (x # xs) R M I s"
    using assms by (intro kstate.equality ext) (auto simp: chk_def set_link_def next_in_None split: option.splits)
  ultimately show ?thesis using assms by (simp add: page_free_def)
qed

lemma chk_link: "x \<notin> set h \<Longrightarrow> x \<notin> set xs \<Longrightarrow> pp_link (pages (chk h xs R M I s) x) = None"
  by (simp add: chk_def next_in_None)

section \<open>The page allocator's check\<close>

text \<open>Three pages, different from each other and from the others around.\<close>

definition three :: "nat \<Rightarrow> nat \<Rightarrow> nat \<Rightarrow> nat list \<Rightarrow> kstate \<Rightarrow> bool" where
  "three a b c xs s \<longleftrightarrow> a \<noteq> b \<and> a \<noteq> c \<and> b \<noteq> c \<and> {a, b, c} \<inter> set xs = {} \<and>
     a < npages s \<and> b < npages s \<and> c < npages s \<and> npages s \<le> 2 ^ 20"

lemma threeD:
  assumes "three a b c xs s"
  shows "a \<noteq> b" "b \<noteq> a" "a \<noteq> c" "c \<noteq> a" "b \<noteq> c" "c \<noteq> b" "a \<notin> set xs" "b \<notin> set xs" "c \<notin> set xs"
    "a < npages s" "b < npages s" "c < npages s" "npages s \<le> 2 ^ 20" "a < 2 ^ 20" "b < 2 ^ 20" "c < 2 ^ 20"
  using assms by (auto simp: three_def)

lemma three_rev: "three a b c xs s \<Longrightarrow> three c b a xs s"
  by (auto simp: three_def)

lemma alloc_three_chk:
  assumes "three a b c xs s" "three a b c h s"
  shows "alloc_three (chk h (a # b # c # xs) R M I s) = Ret (a, b, c) (chk h xs R M I s)"
  using threeD [OF assms(1)] threeD [OF assms(2)]
  by (simp add: alloc_three_def must_alloc_def kassert_def)

lemma free_three_chk:
  assumes "three a b c xs s" "three a b c h s" "R a = 0" "R b = 0" "R c = 0"
  shows "free_three a b c (chk h xs R M I s) = Ret () (chk h (c # b # a # xs) R M I s)"
  using threeD [OF assms(1)] threeD [OF assms(2)] assms(3-5)
  by (simp add: free_three_def)

lemma must_fail_chk: "must_fail (chk h [] R M I s) = Ret () (chk h [] R M I s)"
  by (simp add: must_fail_def kassert_def)

lemma count_free_chk:
  "length xs \<le> fuel \<Longrightarrow> distinct xs \<Longrightarrow> (\<And>x. x \<in> set xs \<Longrightarrow> pp_link (pages s x) = next_in xs x) \<Longrightarrow>
   count_free fuel (head xs) s = Ret (length xs) s"
proof (induction xs arbitrary: fuel)
  case Nil
  then show ?case by (simp add: count_free.simps)
next
  case (Cons x xs)
  have l: "pp_link (pages s x) = head xs" using Cons.prems(3) [of x] by simp
  have "pp_link (pages s y) = next_in xs y" if "y \<in> set xs" for y
    using Cons.prems(3) [of y] Cons.prems(2) that by auto
  then have "count_free (fuel - 1) (head xs) s = Ret (length xs) s"
    using Cons.prems(1,2) by (intro Cons.IH) auto
  then show ?case using Cons.prems(1) l by (subst count_free.simps) simp
qed

lemma count_chk:
  assumes "distinct xs" "\<forall>x \<in> set xs. x < npages s"
  shows "count_free (npages s) (head xs) (chk [] xs R M I s) = Ret (length xs) (chk [] xs R M I s)"
proof -
  have "card (set xs) \<le> card {..<npages s}" using assms(2) by (intro card_mono) auto
  then have "length xs \<le> npages s" using assms(1) distinct_card by fastforce
  then show ?thesis by (intro count_free_chk) (simp_all add: assms(1) chk_def)
qed

lemma page_below:
  assumes "x < np" "np < 2 ^ 20"
  shows "page2pa x < of_nat np * PGSIZE"
proof -
  have "of_nat np * PGSIZE = (of_nat (np * 4096) :: 32 word)" by (simp add: PGSIZE_def)
  then have "unat (of_nat np * PGSIZE :: 32 word) = np * 4096" using assms unat_of_nat_32 [of "np * 4096"] by simp
  then show ?thesis using assms by (simp add: word_less_nat_alt unat_page2pa)
qed

lemma check_page_alloc_chk:
  assumes t: "three a b c xs s" and d: "distinct xs" "\<forall>x \<in> set xs. x < npages s" and np: "npages s < 2 ^ 20"
    and R: "R a = 0" "R b = 0" "R c = 0"
  shows "check_page_alloc (chk [] (a # b # c # xs) R M I s) =
    Ret () (chk [] (a # b # c # xs) R (M(c := (\<lambda>_. 0))) I s)"
proof -
  note td = threeD [OF t]
  have t0: "three a b c [] s" using t by (simp add: three_def)
  have n1: "count_free (npages s) (Some a) (chk [] (a # b # c # xs) R M I s) = Ret (Suc (Suc (Suc (length xs)))) (chk [] (a # b # c # xs) R M I s)" for M
    using count_chk [of "a # b # c # xs" s R M I] d td by simp
  show ?thesis
    unfolding check_page_alloc_def Let_def
    using td by (simp add: n1 alloc_three_chk [OF t t0] page_below [OF td(10) np] page_below [OF td(11) np] page_below [OF td(12) np] kassert_def must_fail_chk
       free_three_chk [OF t0 t R] alloc_three_chk [OF three_rev [OF t0] three_rev [OF t]] R must_alloc_def ALLOC_ZERO_def
       free_three_chk [OF three_rev [OF t] three_rev [OF t0] R(3,2,1)])
qed

section \<open>The page tables' check\<close>

text \<open>Entries built of a page and flags.\<close>

lemma KADDR_page: "x < np \<Longrightarrow> np \<le> 2 ^ 20 \<Longrightarrow> KADDR np (page2pa x) = Some (page2pa x + KERNBASE)"
  by (simp add: KADDR_def unat_PGNUM_page2pa)

lemma pa2page_page: "x < np \<Longrightarrow> np \<le> 2 ^ 20 \<Longrightarrow> pa2page np (page2pa x) = Some x"
  by (simp add: pa2page_def unat_PGNUM_page2pa)

lemma kva_frame_page: "x < 2 ^ 20 \<Longrightarrow> kva_frame (page2pa x + KERNBASE) = x"
  by (simp add: kva_frame_def unat_PGNUM_page2pa)

lemma entry_addr:
  "PTE_ADDR (page2pa x OR PTE_P OR PTE_W OR PTE_U) = page2pa x" "PTE_ADDR (page2pa x OR PTE_W OR PTE_P) = page2pa x"
  "PTE_ADDR (page2pa x OR (PTE_W OR PTE_U) OR PTE_P) = page2pa x" "PTE_ADDR (page2pa x OR PTE_P) = page2pa x"
  by (simp_all add: PTE_ADDR_or_low PTE_ADDR_page2pa)

lemma page_bits: "\<not> bit (page2pa x) 0" "\<not> bit (page2pa x) 1" "\<not> bit (page2pa x) 2"
  by (simp_all add: page2pa_def bit_push_bit_iff)

lemma low_flag_bits: "bit PTE_P 0" "\<not> bit PTE_P 1" "\<not> bit PTE_P 2" "\<not> bit PTE_W 0" "bit PTE_W 1" "\<not> bit PTE_W 2"
  "\<not> bit PTE_U 0" "\<not> bit PTE_U 1" "bit PTE_U 2"
  by (simp_all add: layout_defs bit_numeral_rec numeral_2_eq_2)

lemma entry_flags:
  "(page2pa x OR PTE_P OR PTE_W OR PTE_U) AND PTE_P \<noteq> 0" "(page2pa x OR PTE_P OR PTE_W OR PTE_U) AND PTE_U \<noteq> 0"
  "(page2pa x OR PTE_W OR PTE_P) AND PTE_P \<noteq> 0" "(page2pa x OR PTE_W OR PTE_P) AND PTE_U = 0"
  "(page2pa x OR PTE_W OR PTE_P) AND PTE_W \<noteq> 0" "(page2pa x OR (PTE_W OR PTE_U) OR PTE_P) AND PTE_P \<noteq> 0"
  "(page2pa x OR (PTE_W OR PTE_U) OR PTE_P) AND PTE_U \<noteq> 0" "(page2pa x OR PTE_P) AND PTE_P \<noteq> 0"
  unfolding and_PTE and_PTE0 bit_or_iff using page_bits [of x] low_flag_bits by blast+

lemma check_slots: "unat (PDX 0) = 0" "unat (PTX 0) = 0" "unat (PDX PGSIZE) = 0" "unat (PTX PGSIZE) = 1" "unat (PDX PTSIZE) = 1"
  by (simp_all add: unat_PDX unat_PTX layout_defs)

lemma not_page: "page2pa x \<noteq> NOT 0" "NOT 0 \<noteq> page2pa x"
proof -
  have "bit (NOT 0 :: 32 word) 0" by simp
  then show "page2pa x \<noteq> NOT 0" "NOT 0 \<noteq> page2pa x" using page_bits(1) by metis+
qed

lemma PTE_P_nonzero: "PTE_P \<noteq> 0"
  by (simp add: PTE_P_def)

lemma zero_upd: "(\<lambda>_. 0)(i := 0) = (\<lambda>_. 0)"
  by auto

lemmas check_simps = kassert_def must_fail_def must_alloc_def must_insert_def must_not_insert_def maps_to_def ref_is_def
  pte_flag_def walk_is_def dir_entry_is_def clear_dir_def check_va2pa_def page_lookup_def pgdir_walk_def page_insert_def
  page_remove_def page_decref_def E_NO_MEM_def Let_def ALLOC_ZERO_def KADDR_page pa2page_page kva_frame_page entry_addr
  entry_flags PTE_P_nonzero zero_upd check_slots not_page chk_link

text \<open>The kernel's directory k with its first two slots empty.\<close>

definition quiet_dir :: "nat \<Rightarrow> nat \<Rightarrow> nat \<Rightarrow> (nat \<Rightarrow> nat \<Rightarrow> 32 word) \<Rightarrow> kstate \<Rightarrow> bool" where
  "quiet_dir a b c M s \<longleftrightarrow> kern_pgdir s \<notin> {a, b, c} \<and> curenv s = None \<and> M (kern_pgdir s) 0 = 0 \<and> M (kern_pgdir s) (Suc 0) = 0"

definition table_entry :: "nat \<Rightarrow> 32 word" where
  "table_entry x = page2pa x OR PTE_P OR PTE_W OR PTE_U"

lemma check_insert_chk:
  assumes t: "three a b c h s" and q: "quiet_dir a b c M s" and R: "R a = 0" "R b = 0" "R c = 0"
  shows "check_insert a b c (chk h [] R M I s) =
    Ret () (chk h [c] (R(a := 1, b := 2, c := 0))
      (M(kern_pgdir s := (M (kern_pgdir s))(0 := table_entry a),
         a := (\<lambda>_. 0)(0 := page2pa b OR PTE_W OR PTE_P, 1 := page2pa b OR PTE_W OR PTE_P)))
      (PGSIZE # PGSIZE # PGSIZE # PGSIZE # I) s)"
proof -
  have k: "kern_pgdir s \<noteq> a" "kern_pgdir s \<noteq> b" "kern_pgdir s \<noteq> c" "a \<noteq> kern_pgdir s" "b \<noteq> kern_pgdir s" "c \<noteq> kern_pgdir s"
    "curenv s = None" "M (kern_pgdir s) 0 = 0" "M (kern_pgdir s) (Suc 0) = 0" using q by (auto simp: quiet_dir_def)
  show ?thesis
    using threeD [OF t] k R by (simp add: check_insert_def check_simps table_entry_def)
qed

lemma check_remove_chk:
  assumes t: "three a b c h s" and k: "kern_pgdir s \<notin> {a, b, c}" "curenv s = None"
    and M: "M (kern_pgdir s) 0 = table_entry a" "M (kern_pgdir s) (Suc 0) = 0"
      "M a = (\<lambda>_. 0)(0 := page2pa b OR PTE_W OR PTE_P, 1 := page2pa b OR PTE_W OR PTE_P)"
    and R: "R a = 1" "R b = 2" "R c = 0"
  shows "check_remove a b c (chk h [c] R M I s) =
    Ret () (chk h [] (R(b := 0, a := 0)) (M(a := (\<lambda>_. 0), kern_pgdir s := (M (kern_pgdir s))(0 := 0))) (PGSIZE # PGSIZE # 0 # I) s)"
proof -
  have k: "kern_pgdir s \<noteq> a" "kern_pgdir s \<noteq> b" "kern_pgdir s \<noteq> c" "a \<noteq> kern_pgdir s" "b \<noteq> kern_pgdir s" "c \<noteq> kern_pgdir s"
    "curenv s = None" using k by auto
  show ?thesis
    using threeD [OF t] k R M by (simp add: check_remove_def check_simps table_entry_def)
qed

lemma check_walk_chk:
  assumes t: "three a b c h s" and k: "kern_pgdir s \<notin> {a, b, c}" "curenv s = None"
    and M: "M (kern_pgdir s) 0 = 0" "M (kern_pgdir s) (Suc 0) = 0" and R: "R a = 0"
  shows "check_walk a (chk h [] R M I s) = Ret () (chk h [] (R(a := 0)) (M(a := (\<lambda>_. 0), kern_pgdir s := (M (kern_pgdir s))(Suc 0 := 0, 0 := 0))) I s)"
proof -
  have k: "kern_pgdir s \<noteq> a" "kern_pgdir s \<noteq> b" "kern_pgdir s \<noteq> c" "a \<noteq> kern_pgdir s" "b \<noteq> kern_pgdir s" "c \<noteq> kern_pgdir s"
    "curenv s = None" using k by auto
  have va: "unat (PDX (PGSIZE * of_nat NPDENTRIES + PGSIZE)) = 1" "unat (PTX (PGSIZE * of_nat NPDENTRIES + PGSIZE)) = 1"
    by (simp_all add: unat_PDX unat_PTX layout_defs NPDENTRIES_def)
  show ?thesis
    using threeD [OF t] k R M by (simp add: check_walk_def check_simps va)
qed
text \<open>
  The whole check: the three pages go back to the list in the opposite order; of the memory only they are changed.
\<close>

lemma check_page_chk:
  assumes t: "three a b c xs s" and q: "quiet_dir a b c M s" and R: "R a = 0" "R b = 0" "R c = 0"
  shows "\<exists>I'. check_page (chk [] (a # b # c # xs) R M I s) =
    Ret () (chk [] (c # b # a # xs) R (M(a := (\<lambda>_. 0))) I' s)"
proof -
  have t0: "three a b c [] s" using t by (simp add: three_def)
  have k: "kern_pgdir s \<notin> {a, b, c}" "curenv s = None" "M (kern_pgdir s) 0 = 0" "M (kern_pgdir s) (Suc 0) = 0"
    using q by (simp_all add: quiet_dir_def)
  have ka: "kern_pgdir s \<noteq> a" "a \<noteq> b" "a \<noteq> c" "b \<noteq> c" using k(1) threeD [OF t] by auto
  let ?d = "kern_pgdir s"
  let ?M1 = "M(?d := (M ?d)(0 := table_entry a), a := (\<lambda>_. 0)(0 := page2pa b OR PTE_W OR PTE_P, 1 := page2pa b OR PTE_W OR PTE_P))"
  let ?I1 = "PGSIZE # PGSIZE # PGSIZE # PGSIZE # I"
  let ?R1 = "R(a := 1, b := 2, c := 0)"
  let ?M2 = "?M1(a := (\<lambda>_. 0), ?d := (?M1 ?d)(0 := 0))"
  have s1: "check_insert a b c (chk xs [] R M I s) = Ret () (chk xs [c] ?R1 ?M1 ?I1 s)"
    by (rule check_insert_chk [OF t q R])
  have s2: "check_remove a b c (chk xs [c] ?R1 ?M1 ?I1 s) = Ret () (chk xs [] (?R1(b := 0, a := 0)) ?M2 (PGSIZE # PGSIZE # 0 # ?I1) s)"
    by (rule check_remove_chk [OF t k(1,2)]) (use ka k(4) in simp_all)
  have s3: "check_walk a (chk xs [] (?R1(b := 0, a := 0)) ?M2 (PGSIZE # PGSIZE # 0 # ?I1) s) =
     Ret () (chk xs [] (?R1(b := 0, a := 0, a := 0)) (?M2(a := (\<lambda>_. 0), ?d := (?M2 ?d)(Suc 0 := 0, 0 := 0))) (PGSIZE # PGSIZE # 0 # ?I1) s)"
    by (rule check_walk_chk [OF t k(1,2)]) (use ka k(4) in simp_all)
  have e: "?R1(b := 0, a := 0, a := 0) = R" "?M2(a := (\<lambda>_. 0), ?d := (?M2 ?d)(Suc 0 := 0, 0 := 0)) = M(a := (\<lambda>_. 0))"
    using R k(3,4) ka by (auto simp: fun_eq_iff)
  show ?thesis
    by (rule exI [of _ "PGSIZE # PGSIZE # 0 # ?I1"])
      (simp only: check_page_def Let_def alloc_three_chk [OF t t0] kbind.simps prod.case chk_sel chk_hide s1 s2 s3 e chk_show
         free_three_chk [OF t t0 R])
qed

section \<open>With the directory installed\<close>

lemma entry_page:
  "x < 2 ^ 20 \<Longrightarrow> unat (PGNUM (page2pa x OR PTE_P OR PTE_W OR PTE_U)) = x"
  "x < 2 ^ 20 \<Longrightarrow> unat (PGNUM (page2pa x OR PTE_W OR PTE_P)) = x"
  by (simp_all add: PGNUM_or_low unat_PGNUM_page2pa)

lemma check_installed_chk:
  assumes t: "three a b c xs s" and q: "quiet_dir a b c M s" and R: "R a = 0" "R b = 0" "R c = 0" and cr: "cr3 s = kern_pgdir s"
  shows "check_page_installed_pgdir (chk [] (a # b # c # xs) R M I s) =
    Ret () (chk [] (a # c # b # xs) (R(b := 0, c := 0, a := 0))
      (M(b := (\<lambda>_. 0x01010101), c := (\<lambda>_. 0x02020202)(0 := 0x03030303), a := (\<lambda>_. 0)(1 := 0), kern_pgdir s := (M (kern_pgdir s))(0 := 0)))
      (PGSIZE # PGSIZE # I) s)"
proof -
  have k: "kern_pgdir s \<noteq> a" "kern_pgdir s \<noteq> b" "kern_pgdir s \<noteq> c" "a \<noteq> kern_pgdir s" "b \<noteq> kern_pgdir s" "c \<noteq> kern_pgdir s"
    "curenv s = None" "M (kern_pgdir s) 0 = 0" "M (kern_pgdir s) (Suc 0) = 0" using q by (auto simp: quiet_dir_def)
  show ?thesis
    using threeD [OF t] k R cr by (simp add: check_page_installed_pgdir_def vm_word_def word_at_is_def entry_page check_simps)
qed

end
