(* ===== verification/Free_Check.thy ===== *)
theory Free_Check
  imports Mem_Check
begin

text \<open>
  check_page_free_list of kern/pmap.c: the free list is sorted in place into the pages that the
  first page directory maps and the others (relink), and the loops over it run to their end.
\<close>

section \<open>The free list in two parts\<close>

text \<open>Consecutive pages of the list are linked; the link of the last one is open.\<close>

fun seg :: "(nat \<Rightarrow> nat option) \<Rightarrow> nat list \<Rightarrow> bool" where
  "seg f [] = True"
| "seg f [x] = True"
| "seg f (x # y # ys) = (f x = Some y \<and> seg f (y # ys))"

lemma seg_cong: "(\<And>x. x \<in> set (butlast xs) \<Longrightarrow> f x = g x) \<Longrightarrow> seg f xs = seg g xs"
  by (induction f xs rule: seg.induct) auto

lemma seg_append:
  "xs \<noteq> [] \<Longrightarrow> ys \<noteq> [] \<Longrightarrow> seg f (xs @ ys) \<longleftrightarrow> seg f xs \<and> f (last xs) = head ys \<and> seg f ys"
proof (induction f xs rule: seg.induct)
  case (2 f x)
  then show ?case by (cases ys) auto
qed auto

lemma last_not_butlast: "distinct xs \<Longrightarrow> last xs \<notin> set (butlast xs)"
  by (induction xs) (auto split: if_splits)

lemma seg_upd: "x \<notin> set (butlast xs) \<Longrightarrow> seg (f(x := v)) xs = seg f xs"
  by (rule seg_cong) auto

lemma seg_snoc: "distinct xs \<Longrightarrow> seg f xs \<Longrightarrow> xs \<noteq> [] \<Longrightarrow> seg (f(last xs := Some y)) (xs @ [y])"
  by (simp add: seg_append seg_upd last_not_butlast)

lemma chain_seg: "chain f (head xs) xs \<longleftrightarrow> seg f xs \<and> (xs \<noteq> [] \<longrightarrow> f (last xs) = None)"
  by (induction f xs rule: seg.induct) auto

definition end_of :: "nat list \<Rightarrow> nat option" where
  "end_of xs = (if xs = [] then None else Some (last xs))"

definition of_kind :: "bool \<Rightarrow> nat list \<Rightarrow> nat list" where
  "of_kind h xs = filter (\<lambda>p. is_high p = h) xs"

lemma of_kind_simps [simp]:
  "of_kind h [] = []" "of_kind h (xs @ ys) = of_kind h xs @ of_kind h ys"
  "of_kind h (x # xs) = (if is_high x = h then x # of_kind h xs else of_kind h xs)"
  by (simp_all add: of_kind_def)

lemma set_of_kind [simp]: "set (of_kind h xs) = {x \<in> set xs. is_high x = h}"
  by (auto simp: of_kind_def)

lemma distinct_of_kind [simp]: "distinct xs \<Longrightarrow> distinct (of_kind h xs)"
  by (simp add: of_kind_def)

text \<open>The pages ps are sorted into the two lists, the rest xs is still linked.\<close>

definition split_at :: "nat list \<Rightarrow> nat list \<Rightarrow> tails \<Rightarrow> kstate \<Rightarrow> bool" where
  "split_at ps xs t s \<longleftrightarrow>
     seg (\<lambda>p. pp_link (pages s p)) (of_kind False ps) \<and> seg (\<lambda>p. pp_link (pages s p)) (of_kind True ps) \<and>
     chain (\<lambda>p. pp_link (pages s p)) (head xs) xs \<and>
     low_head t = head (of_kind False ps) \<and> high_head t = head (of_kind True ps) \<and>
     tp0 t = end_of (of_kind False ps) \<and> tp1 t = end_of (of_kind True ps)"

text \<open>Only links are written, on the pages of the list.\<close>

definition only_links :: "nat list \<Rightarrow> kstate \<Rightarrow> kstate \<Rightarrow> bool" where
  "only_links xs s t \<longleftrightarrow> (\<exists>g. t = s\<lparr>pages := g\<rparr> \<and> (\<forall>p. pp_ref (g p) = pp_ref (pages s p)) \<and>
     (\<forall>p. p \<notin> set xs \<longrightarrow> g p = pages s p))"

lemma only_links_refl: "only_links xs s s"
  unfolding only_links_def by (rule exI [of _ "pages s"]) simp

lemma only_links_trans: "only_links xs s t \<Longrightarrow> only_links xs t u \<Longrightarrow> only_links xs s u"
  by (auto simp: only_links_def)

lemma only_links_set: "p \<in> set xs \<Longrightarrow> only_links xs s (set_link p v s)"
  by (auto simp: only_links_def set_link_def)

lemma head_snoc: "head (xs @ [y]) = (if xs = [] then Some y else head xs)"
  by (cases xs) simp_all

lemma links_set [simp]: "(\<lambda>p. pp_link (pages (set_link q v s) p)) = (\<lambda>p. pp_link (pages s p))(q := v)"
  by auto

text \<open>One page is appended to the list of its kind.\<close>

lemma set_tail_step:
  assumes sp: "split_at ps (x # xs) t s" and d: "distinct (ps @ x # xs)"
  shows "\<exists>t' s'. set_tail (is_high x) (Some x) t s = (t', s') \<and> only_links ps s s' \<and>
    pp_link (pages s' x) = head xs \<and>
    split_at (ps @ [x]) xs (if is_high x then t'\<lparr>tp1 := Some x\<rparr> else t'\<lparr>tp0 := Some x\<rparr>) s'"
proof -
  have nx: "pp_link (pages s x) = head xs" using sp chain_head by (simp add: split_at_def) blast
  show ?thesis
proof (cases "of_kind (is_high x) ps = []")
  case True
  then show ?thesis
    using sp d nx by (cases "is_high x")
      (auto simp: split_at_def set_tail_def end_of_def head_snoc only_links_refl)
next
  case False
  let ?q = "last (of_kind (is_high x) ps)"
  have q: "?q \<in> set (of_kind (is_high x) ps)" using False by (rule last_in_set)
  then have q': "?q \<in> set ps" "is_high ?q = is_high x" by simp_all
  have dk: "distinct (of_kind h ps)" for h using d by simp
  have nq: "?q \<noteq> x" "?q \<notin> set xs" "?q \<notin> set (of_kind (\<not> is_high x) ps)" using q' d by auto
  have tl: "(if is_high x then tp1 t else tp0 t) = Some ?q"
    using sp False by (cases "is_high x") (simp_all add: split_at_def end_of_def)
  then have run: "set_tail (is_high x) (Some x) t s = (t, set_link ?q (Some x) s)" by (simp add: set_tail_def)
  have other: "seg ((\<lambda>p. pp_link (pages s p))(?q := Some x)) (of_kind (\<not> is_high x) ps)"
  proof -
    have "?q \<notin> set (butlast (of_kind (\<not> is_high x) ps))" using nq(3) by (auto dest: in_set_butlastD)
    from seg_upd [OF this] show ?thesis using sp by (cases "is_high x") (simp_all add: split_at_def)
  qed
  have same: "seg ((\<lambda>p. pp_link (pages s p))(?q := Some x)) (of_kind (is_high x) ps @ [x])"
    using sp False by (intro seg_snoc dk) (cases "is_high x"; simp add: split_at_def)+
  have rest: "chain ((\<lambda>p. pp_link (pages s p))(?q := Some x)) (head xs) xs"
    using sp nq(2) nx by (simp add: split_at_def)
  have "pp_link (pages (set_link ?q (Some x) s) x) = head xs"
    using nq(1) nx by simp
  moreover have "split_at (ps @ [x]) xs (if is_high x then t\<lparr>tp1 := Some x\<rparr> else t\<lparr>tp0 := Some x\<rparr>) (set_link ?q (Some x) s)"
    using sp other same rest False unfolding split_at_def links_set
    by (cases "is_high x") (auto simp: end_of_def head_snoc)
  ultimately show ?thesis using run only_links_set [OF q'(1)] by blast
qed
qed

lemma relink_loop_effect:
  assumes "split_at ps xs t s" "distinct (ps @ xs)" "length xs \<le> fuel"
  shows "\<exists>t' s'. relink_loop fuel (head xs) t s = Ret t' s' \<and> only_links (ps @ xs) s s' \<and> split_at (ps @ xs) [] t' s'"
  using assms
proof (induction xs arbitrary: ps t s fuel)
  case Nil
  then show ?case by (simp add: relink_loop.simps only_links_refl)
next
  case (Cons x xs)
  obtain t' s' where st: "set_tail (is_high x) (Some x) t s = (t', s')" "only_links ps s s'" "pp_link (pages s' x) = head xs"
    and inv: "split_at (ps @ [x]) xs (if is_high x then t'\<lparr>tp1 := Some x\<rparr> else t'\<lparr>tp0 := Some x\<rparr>) s'"
    using set_tail_step [OF Cons.prems(1,2)] by blast
  obtain t2 s2 where r: "relink_loop (fuel - 1) (head xs) (if is_high x then t'\<lparr>tp1 := Some x\<rparr> else t'\<lparr>tp0 := Some x\<rparr>) s' = Ret t2 s2"
      "only_links (ps @ x # xs) s' s2" "split_at (ps @ x # xs) [] t2 s2"
  proof -
    have "distinct ((ps @ [x]) @ xs)" "length xs \<le> fuel - 1" using Cons.prems(2,3) by auto
    from Cons.IH [OF inv this] that show ?thesis by fastforce
  qed
  have run: "relink_loop fuel (head (x # xs)) t s = Ret t2 s2"
    using r(1) st Cons.prems(3) by (subst relink_loop.simps) simp
  have "only_links (ps @ x # xs) s s'" using st(2) by (auto simp: only_links_def)
  then show ?case using run r(2,3) only_links_trans by blast
qed

text \<open>The list afterwards: the low pages first, in their order, then the others.\<close>

definition low_first :: "nat list \<Rightarrow> nat list" where "low_first xs = of_kind False xs @ of_kind True xs"

lemma set_low_first [simp]: "set (low_first xs) = set xs"
  by (auto simp: low_first_def)

lemma distinct_low_first: "distinct xs \<Longrightarrow> distinct (low_first xs)"
  by (auto simp: low_first_def)

lemma length_low_first [simp]: "length (low_first xs) = length xs"
  by (induction xs) (auto simp: low_first_def)

lemma chain_close: "distinct xs \<Longrightarrow> seg f xs \<Longrightarrow> xs \<noteq> [] \<Longrightarrow> chain (f(last xs := None)) (head xs) xs"
  by (simp add: chain_seg seg_upd last_not_butlast)

lemma chain_join:
  assumes "seg f xs" "chain f (head ys) ys" "distinct (xs @ ys)" "xs \<noteq> []"
  shows "chain (f(last xs := head ys)) (head (xs @ ys)) (xs @ ys)"
proof -
  have "last xs \<notin> set ys" using assms(3) last_in_set [OF assms(4)] by auto
  then have c: "chain (f(last xs := head ys)) (head ys) ys" using assms(2) by simp
  have s: "seg (f(last xs := head ys)) xs" using assms(1,3) by (simp add: seg_upd last_not_butlast)
  show ?thesis
  proof (cases "ys = []")
    case True
    then show ?thesis using s by (simp add: chain_seg)
  next
    case False
    then show ?thesis using c s assms(4) by (simp add: chain_seg seg_append)
  qed
qed

lemma relink_effect:
  assumes f: "free_list_ok s xs"
  shows "\<exists>t. relink s = Ret () t \<and> free_list_ok t (low_first xs) \<and> only_pages s t \<and>
    (\<forall>p. pp_ref (pages t p) = pp_ref (pages s p))"
proof -
  have c: "chain (\<lambda>p. pp_link (pages s p)) (head xs) xs" and h: "page_free_list s = head xs" and d: "distinct xs"
    using f chain_head unfolding free_list_ok_def by metis+
  have "card (set xs) \<le> card {..<npages s}" using f by (intro card_mono) (auto simp: free_list_ok_def)
  then have len: "length xs \<le> npages s" using d by (simp add: distinct_card)
  let ?t0 = "\<lparr>low_head = None, high_head = None, tp0 = None, tp1 = None\<rparr>"
  have "split_at [] xs ?t0 s" using c by (simp add: split_at_def end_of_def)
  then obtain t s1 where l: "relink_loop (npages s) (head xs) ?t0 s = Ret t s1" "only_links xs s s1" "split_at xs [] t s1"
    using relink_loop_effect [of "[]" xs ?t0 s "npages s"] d len by auto
  let ?L = "of_kind False xs" and ?H = "of_kind True xs"
  have sg: "seg (\<lambda>p. pp_link (pages s1 p)) ?L" "seg (\<lambda>p. pp_link (pages s1 p)) ?H"
    and tt: "low_head t = head ?L" "high_head t = head ?H" "tp0 t = end_of ?L" "tp1 t = end_of ?H"
    using l(3) by (simp_all add: split_at_def)
  define s2 where "s2 = (if ?H = [] then s1 else set_link (last ?H) None s1)"
  have st2: "set_tail True None t s1 = (t, s2)"
    using tt by (cases "?H = []") (simp_all add: set_tail_def end_of_def s2_def)
  have o2: "only_links xs s s2"
    using l(2) only_links_set [of "last ?H" xs s1 None] last_in_set [of ?H] only_links_trans by (auto simp: s2_def)
  have dis: "distinct ?L" "distinct ?H" "set ?L \<inter> set ?H = {}" using d by auto
  have k2: "(\<lambda>p. pp_link (pages s2 p)) = (if ?H = [] then (\<lambda>p. pp_link (pages s1 p)) else (\<lambda>p. pp_link (pages s1 p))(last ?H := None))"
    by (auto simp: s2_def)
  have cH: "chain (\<lambda>p. pp_link (pages s2 p)) (head ?H) ?H"
    unfolding k2 using chain_close [OF dis(2) sg(2)] by simp
  have sL: "seg (\<lambda>p. pp_link (pages s2 p)) ?L"
  proof (cases "?H = []")
    case False
    then have "last ?H \<notin> set (butlast ?L)" using dis(3) last_in_set [OF False] by (blast dest: in_set_butlastD)
    then show ?thesis unfolding k2 using sg(1) False by (simp add: seg_upd)
  qed (use sg(1) k2 in simp)
  define s3 where "s3 = (if ?L = [] then s2 else set_link (last ?L) (head ?H) s2)"
  define t3 where "t3 = (if ?L = [] then t\<lparr>low_head := head ?H\<rparr> else t)"
  have st3: "set_tail False (high_head t) t s2 = (t3, s3)"
    using tt by (cases "?L = []") (simp_all add: set_tail_def end_of_def s3_def t3_def)
  have o3: "only_links xs s s3"
    using o2 only_links_set [of "last ?L" xs s2 "head ?H"] last_in_set [of ?L] only_links_trans by (auto simp: s3_def)
  have k3: "(\<lambda>p. pp_link (pages s3 p)) = (if ?L = [] then (\<lambda>p. pp_link (pages s2 p)) else (\<lambda>p. pp_link (pages s2 p))(last ?L := head ?H))"
    by (auto simp: s3_def)
  have c3: "chain (\<lambda>p. pp_link (pages s3 p)) (head (low_first xs)) (low_first xs)"
  proof (cases "?L = []")
    case True
    then show ?thesis unfolding k3 using cH by (simp add: low_first_def)
  next
    case False
    then show ?thesis unfolding k3 using chain_join [OF sL cH] dis by (simp add: low_first_def)
  qed
  have hd3: "low_head t3 = head (low_first xs)"
    using tt by (cases ?L) (simp_all add: t3_def low_first_def)
  let ?u = "s3\<lparr>page_free_list := head (low_first xs)\<rparr>"
  have "relink s = Ret () ?u" using h l(1) st2 st3 hd3 by (simp add: relink_def)
  moreover have "free_list_ok ?u (low_first xs)"
    using o3 f c3 distinct_low_first [OF d] by (auto simp: free_list_ok_def only_links_def)
  moreover have "only_pages s ?u" "\<forall>p. pp_ref (pages ?u p) = pp_ref (pages s p)"
    using o3 by (auto simp: only_links_def only_pages_def)
  ultimately show ?thesis by blast
qed

lemma chk_more [simp]:
  "invlpgs (chk h xs R M I s) = I" "nextfree (chk h xs R M I s) = nextfree s" "envs (chk h xs R M I s) = envs s"
  "npages_basemem (chk h xs R M I s) = npages_basemem s" "env_free_list (chk h xs R M I s) = env_free_list s"
  by (simp_all add: chk_def)

lemma relink_chk:
  assumes "distinct xs" "npages s \<le> 2 ^ 20" "\<forall>x \<in> set xs. x < npages s \<and> R x = 0"
  shows "relink (chk [] xs R M I s) = Ret () (chk [] (low_first xs) R M I s)"
proof -
  let ?s = "chk [] xs R M I s"
  obtain t where t: "relink ?s = Ret () t" "free_list_ok t (low_first xs)" "only_pages ?s t"
    "\<forall>p. pp_ref (pages t p) = R p"
    using relink_effect [OF chk_free_list [OF assms, of M I]] by auto
  obtain P F where u: "t = ?s\<lparr>pages := P, page_free_list := F\<rparr>"
    using t(3) unfolding only_pages_def by blast
  have "mem t = M" "invlpgs t = I" by (simp_all add: u)
  then have "t = chk [] (low_first xs) R M I t" using chk_self [OF t(2)] t(4) by simp
  also have "\<dots> = chk [] (low_first xs) R M I s" by (simp add: u chk_def)
  finally show ?thesis using t(1) by simp
qed

section \<open>Loops over the free list\<close>

text \<open>A loop whose body changes only the memory.\<close>

lemma link_in_list: "distinct (ys @ x # xs) \<Longrightarrow> pp_link (pages (chk [] (ys @ x # xs) R M I s) x) = head xs"
  by (induction ys) (auto simp: chk_def)

lemma for_pages_chk:
  assumes "distinct (ys @ xs)" "length xs \<le> fuel"
    and "\<And>x M. x \<in> set xs \<Longrightarrow> body x (chk [] (ys @ xs) R M I s) = Ret () (chk [] (ys @ xs) R (F x M) I s)"
  shows "for_pages fuel body (head xs) (chk [] (ys @ xs) R M I s) = Ret () (chk [] (ys @ xs) R (fold F xs M) I s)"
  using assms
proof (induction xs arbitrary: ys M fuel)
  case Nil
  then show ?case by (simp add: for_pages.simps)
next
  case (Cons x xs)
  have l: "pp_link (pages (chk [] (ys @ x # xs) R (F x M) I s) x) = head xs"
    by (rule link_in_list [OF Cons.prems(1)])
  have "for_pages (fuel - 1) body (head xs) (chk [] ((ys @ [x]) @ xs) R (F x M) I s) =
      Ret () (chk [] ((ys @ [x]) @ xs) R (fold F xs (F x M)) I s)"
    by (rule Cons.IH) (use Cons.prems in auto)
  then show ?case
    using Cons.prems(2,3) l by (subst for_pages.simps) simp
qed

lemma list_has_chk:
  assumes "distinct (ys @ xs)" "length xs \<le> fuel"
  shows "list_has fuel P (head xs) (chk [] (ys @ xs) R M I s) \<longleftrightarrow> (\<exists>x \<in> set xs. P x)"
  using assms
proof (induction xs arbitrary: ys fuel)
  case Nil
  then show ?case by (simp add: list_has.simps)
next
  case (Cons x xs)
  have l: "pp_link (pages (chk [] (ys @ x # xs) R M I s) x) = head xs"
    by (rule link_in_list [OF Cons.prems(1)])
  have "list_has (fuel - 1) P (head xs) (chk [] ((ys @ [x]) @ xs) R M I s) \<longleftrightarrow> (\<exists>x \<in> set xs. P x)"
    by (rule Cons.IH) (use Cons.prems in auto)
  then show ?case using Cons.prems(2) l by (subst list_has.simps) simp
qed

section \<open>check_page_free_list\<close>

definition poisoned :: "nat \<Rightarrow> (nat \<Rightarrow> nat \<Rightarrow> 32 word) \<Rightarrow> nat \<Rightarrow> nat \<Rightarrow> 32 word" where
  "poisoned x M = M(x := (\<lambda>i. if i < 32 then 0x97979797 else M x i))"

text \<open>A page that may be free: it exists, is none of those the check names, and lies after the kernel.\<close>

definition may_be_free :: "kstate \<Rightarrow> nat \<Rightarrow> bool" where
  "may_be_free s x \<longleftrightarrow> x < npages s \<and> x \<notin> {0, 160, 255, 256} \<and> (256 \<le> x \<longrightarrow> kva_frame (nextfree s) \<le> x)"

definition free_pages_ok :: "nat list \<Rightarrow> kstate \<Rightarrow> bool" where
  "free_pages_ok xs s \<longleftrightarrow> distinct xs \<and> (\<forall>x \<in> set xs. may_be_free s x) \<and> (\<exists>x \<in> set xs. x < 256) \<and> (\<exists>x \<in> set xs. 256 \<le> x) \<and>
     npages s \<le> 65536 \<and> KERNBASE \<le> nextfree s \<and> PGOFF (nextfree s) = 0"

lemma page2pa_eq: "x < 2 ^ 20 \<Longrightarrow> w = of_nat (y * 4096) \<Longrightarrow> y < 2 ^ 20 \<Longrightarrow> page2pa x = w \<longleftrightarrow> x = y"
  using page2pa_inj [of x y] by (simp add: page2pa_def push_bit_eq_mult mult.commute)

lemma low_page: "x < 2 ^ 20 \<Longrightarrow> page2pa x < EXTPHYSMEM \<longleftrightarrow> x < 256"
  by (simp add: word_less_nat_alt unat_page2pa EXTPHYSMEM_def)

lemma high_kva:
  assumes "x < npages s" "npages s \<le> 65536" "KERNBASE \<le> nextfree s" "PGOFF (nextfree s) = 0" "kva_frame (nextfree s) \<le> x"
  shows "\<exists>kva. page2kva (npages s) x = Some kva \<and> nextfree s \<le> kva"
proof -
  have x20: "x < 2 ^ 20" using assms(1,2) by simp
  have u: "unat (page2pa x + KERNBASE) = x * 4096 + 0xF0000000"
    using assms(1,2) x20 by (subst unat_add_lem [THEN iffD1]) (simp_all add: unat_page2pa layout_defs)
  have n: "unat (nextfree s - KERNBASE) = unat (nextfree s) - 0xF0000000" "0xF0000000 \<le> unat (nextfree s)"
    using assms(3) unat_sub [OF assms(3)] by (simp_all add: layout_defs word_le_nat_alt)
  have "unat (nextfree s) mod 4096 = 0" using assms(4) unat_PGOFF [of "nextfree s"] by simp
  then obtain m where m: "unat (nextfree s) = 4096 * m" by (auto simp: mod_eq_0_iff_dvd elim: dvdE)
  have "(4096 * m - 0xF0000000) div 4096 \<le> x"
    using assms(5) n(1) m by (simp add: kva_frame_def unat_PGNUM)
  moreover have "4096 * m - 0xF0000000 = 4096 * (m - 983040)" by (simp add: diff_mult_distrib2)
  ultimately have "m - 983040 \<le> x" by simp
  then have "unat (nextfree s) \<le> unat (page2pa x + KERNBASE)" unfolding u m by simp
  then show ?thesis using assms(1) x20 by (simp add: page2kva_def KADDR_def unat_PGNUM_page2pa word_le_nat_alt)
qed

lemma check_free_page_chk:
  assumes ok: "free_pages_ok xs s" and x: "x \<in> set xs" and k: "free_pages_ok xs (chk [] ys R M I s)"
  shows "check_free_page (nextfree s) x (chk [] ys R M I s) = Ret () (chk [] ys R M I s)"
proof -
  have m: "may_be_free s x" and s: "npages s \<le> 65536" "KERNBASE \<le> nextfree s" "PGOFF (nextfree s) = 0"
    using ok x by (auto simp: free_pages_ok_def)
  have x20: "x < 2 ^ 20" and xs: "x < npages s" "x \<notin> {0, 160, 255, 256}" using m s(1) by (auto simp: may_be_free_def)
  have ne: "page2pa x \<noteq> 0" "page2pa x \<noteq> IOPHYSMEM" "page2pa x \<noteq> EXTPHYSMEM - PGSIZE" "page2pa x \<noteq> EXTPHYSMEM"
    using xs page2pa_eq [OF x20, of 0 0] page2pa_eq [OF x20, of IOPHYSMEM 160]
      page2pa_eq [OF x20, of "EXTPHYSMEM - PGSIZE" 255] page2pa_eq [OF x20, of EXTPHYSMEM 256]
    by (simp_all add: layout_defs)
  show ?thesis
  proof (cases "x < 256")
    case True
    then show ?thesis using ne xs low_page [OF x20] by (simp add: check_free_page_def kassert_def)
  next
    case False
    then have "kva_frame (nextfree s) \<le> x" using m by (simp add: may_be_free_def)
    from high_kva [OF xs(1) s this] show ?thesis
      using ne xs low_page [OF x20] False by (auto simp: check_free_page_def kassert_def)
  qed
qed

lemma poison_chk:
  assumes "x < npages s" "npages s \<le> 2 ^ 20"
  shows "poison x (chk h xs R M I s) = Ret () (chk h xs R (poisoned x M) I s)"
proof -
  have "(chk h xs R M I s)\<lparr>mem := N\<rparr> = chk h xs R N I s" for N by (simp add: chk_def)
  then show ?thesis using page2kva_ok [OF assms] by (auto simp: poison_def poisoned_def cong: if_cong)
qed

lemma boot_alloc_none: "nextfree s \<noteq> 0 \<Longrightarrow> boot_alloc e 0 s = Ret (nextfree s) s"
  by (simp add: boot_alloc_def)

lemma fold_id: "fold (\<lambda>x M. M) xs M = M"
  by (induction xs arbitrary: M) simp_all

text \<open>The check on a list in its final order; the pages it may poison are poisoned.\<close>

lemma check_list_chk:
  assumes ok: "free_pages_ok xs s"
  shows "kbind (for_pages (npages s) (\<lambda>pp s. if low \<and> is_high pp then Ret () s else poison pp s) (head xs) (chk [] xs R M I s)) (\<lambda>_ s.
       kbind (boot_alloc e 0 s) (\<lambda>first s.
       kbind (for_pages (npages s) (check_free_page first) (page_free_list s) s) (\<lambda>_ s.
       kbind (kassert a (list_has (npages s) (\<lambda>pp. page2pa pp < EXTPHYSMEM) (page_free_list s) s) s) (\<lambda>_ s.
         kassert b (list_has (npages s) (\<lambda>pp. \<not> page2pa pp < EXTPHYSMEM) (page_free_list s) s) s))))
    = Ret () (chk [] xs R (fold (\<lambda>x M. if low \<and> is_high x then M else poisoned x M) xs M) I s)"
proof -
  have d: "distinct xs" and lt: "\<forall>x \<in> set xs. x < npages s" and np: "npages s \<le> 2 ^ 20" and nf: "nextfree s \<noteq> 0"
    using ok by (auto simp: free_pages_ok_def may_be_free_def layout_defs)
  have "card (set xs) \<le> card {..<npages s}" using lt by (intro card_mono) auto
  then have len: "length xs \<le> npages s" using d by (simp add: distinct_card)
  let ?F = "\<lambda>x M. if low \<and> is_high x then M else poisoned x M"
  have p: "for_pages (npages s) (\<lambda>pp s. if low \<and> is_high pp then Ret () s else poison pp s) (head xs) (chk [] xs R M I s)
      = Ret () (chk [] xs R (fold ?F xs M) I s)"
    using for_pages_chk [of "[]" xs "npages s" "\<lambda>pp s. if low \<and> is_high pp then Ret () s else poison pp s" R I s ?F M]
      d len lt poison_chk [OF _ np] by auto
  have "free_pages_ok xs (chk [] xs R M I s)" for M using ok by (simp add: free_pages_ok_def may_be_free_def)
  then have c: "for_pages (npages s) (check_free_page (nextfree s)) (head xs) (chk [] xs R M I s) = Ret () (chk [] xs R M I s)" for M
    using for_pages_chk [of "[]" xs "npages s" "check_free_page (nextfree s)" R I s "\<lambda>x M. M" M]
      d len check_free_page_chk [OF ok] by (simp add: fold_id)
  have "\<exists>x \<in> set xs. page2pa x < EXTPHYSMEM" "\<exists>x \<in> set xs. \<not> page2pa x < EXTPHYSMEM"
    using ok low_page lt np unfolding free_pages_ok_def by (metis not_le order.strict_trans2)+
  then have h: "list_has (npages s) (\<lambda>pp. page2pa pp < EXTPHYSMEM) (head xs) (chk [] xs R M I s)"
     "list_has (npages s) (\<lambda>pp. \<not> page2pa pp < EXTPHYSMEM) (head xs) (chk [] xs R M I s)" for M
    using list_has_chk [of "[]" xs "npages s"] d len by auto
  show ?thesis using h nf by (simp add: p c boot_alloc_none kassert_def)
qed

definition poison_all :: "bool \<Rightarrow> nat list \<Rightarrow> (nat \<Rightarrow> nat \<Rightarrow> 32 word) \<Rightarrow> nat \<Rightarrow> nat \<Rightarrow> 32 word" where
  "poison_all low xs M = fold (\<lambda>x M. if low \<and> is_high x then M else poisoned x M) xs M"

lemma poison_all_other: "q \<notin> set xs \<Longrightarrow> poison_all low xs M q = M q"
  unfolding poison_all_def by (induction xs arbitrary: M) (auto simp: poisoned_def)

lemma free_pages_ok_low_first: "free_pages_ok xs s \<Longrightarrow> free_pages_ok (low_first xs) s"
  by (simp add: free_pages_ok_def distinct_low_first)

lemma check_page_free_list_chk:
  assumes ok: "free_pages_ok xs s" and R: "\<forall>x \<in> set xs. R x = 0"
  shows "check_page_free_list e True (chk [] xs R M I s) = Ret () (chk [] (low_first xs) R (poison_all True (low_first xs) M) I s)"
    and "check_page_free_list e False (chk [] xs R M I s) = Ret () (chk [] xs R (poison_all False xs M) I s)"
proof -
  have ne: "head xs \<noteq> None" using ok by (cases xs) (auto simp: free_pages_ok_def)
  have "relink (chk [] xs R M I s) = Ret () (chk [] (low_first xs) R M I s)"
    by (rule relink_chk) (use ok R in \<open>auto simp: free_pages_ok_def may_be_free_def\<close>)
  then show "check_page_free_list e True (chk [] xs R M I s) = Ret () (chk [] (low_first xs) R (poison_all True (low_first xs) M) I s)"
    using ne check_list_chk [OF free_pages_ok_low_first [OF ok], of True R M I e]
    by (simp add: check_page_free_list_def poison_all_def)
  show "check_page_free_list e False (chk [] xs R M I s) = Ret () (chk [] xs R (poison_all False xs M) I s)"
    using ne check_list_chk [OF ok, of False R M I e] by (simp add: check_page_free_list_def poison_all_def)
qed

end
