(* ===== verification/Mem_Boot.thy ===== *)
theory Mem_Boot
  imports Env Kern_Map Free_Check
begin

text \<open>
  mem_init of kern/pmap.c as a whole: on a machine with enough memory it returns, so every
  self-check it contains passes, and it leaves the address space of inc/memlayout.h, a well-formed
  free list and no user mapping, which is the state that the properties of the page tables and of the environments start from.
\<close>

section \<open>The boot-time allocator\<close>

definition base_pages :: "(nat \<Rightarrow> 8 word) \<Rightarrow> nat" where "base_pages cmos = npages_basemem (i386_detect_memory cmos (blank_state 0 0))"
definition total_pages :: "(nat \<Rightarrow> 8 word) \<Rightarrow> nat" where "total_pages cmos = npages (i386_detect_memory cmos (blank_state 0 0))"

text \<open>The first page after the kernel, counted from KERNBASE.\<close>

definition kernel_pages :: "32 word \<Rightarrow> nat" where "kernel_pages e = (unat e - 0xF0000000 + 4095) div 4096"

text \<open>
  A machine the kernel runs on: the kernel is loaded above 1 MB, base memory is at most
  640 KB and has room for the page tables, and the memory holds the kernel and its arrays.
\<close>

definition machine_ok :: "32 word \<Rightarrow> (nat \<Rightarrow> 8 word) \<Rightarrow> bool" where
  "machine_ok e cmos \<longleftrightarrow> KERNBASE + EXTPHYSMEM < e \<and> 72 \<le> base_pages cmos \<and> base_pages cmos \<le> 160 \<and>
     1024 < total_pages cmos \<and>
     kernel_pages e + page_count (pages_size (total_pages cmos)) + 32 < total_pages cmos"

lemma detect_pages:
  "i386_detect_memory cmos s = s\<lparr>npages_basemem := base_pages cmos, npages := total_pages cmos\<rparr>"
  by (simp add: i386_detect_memory_def base_pages_def total_pages_def Let_def)

lemma total_pages_bound: "total_pages cmos \<le> 16639"
proof -
  have b: "unat (cmos n) < 256" for n using unsigned_less [of "cmos n"] by simp
  have n: "nvram_read cmos n \<le> 65535" for n using b [of n] b [of "n + 1"] by (simp add: nvram_read_def)
  have "nvram_read cmos r * 1024 div 4096 \<le> 16383" for r using n [of r] by simp
  moreover have "unat (PGSIZE :: 32 word) = 4096" "unat (EXTPHYSMEM div PGSIZE) = 256" by (simp_all add: layout_defs)
  ultimately show ?thesis
    by (simp add: total_pages_def i386_detect_memory_def Let_def le_trans [of _ 16383])
qed

text \<open>Addresses from KERNBASE on as pages.\<close>

definition kpage :: "nat \<Rightarrow> 32 word" where "kpage j = page_addr (983040 + j)"

lemma unat_kpage: "j < 65536 \<Longrightarrow> unat (kpage j) = 0xF0000000 + j * 4096"
  by (simp add: kpage_def unat_page_addr)

lemma page_addr_page2pa: "page_addr j = page2pa j"
  by (simp add: page_addr_def page2pa_def push_bit_eq_mult PGSIZE_def)

lemma kpage_pa: "kpage j - KERNBASE = page2pa j"
proof -
  have "kpage j = page_addr j + KERNBASE" by (simp add: kpage_def page_addr_def PGSIZE_def KERNBASE_def algebra_simps)
  then show ?thesis by (simp add: page_addr_page2pa)
qed

lemma kpage_facts:
  "j < 65536 \<Longrightarrow> KERNBASE \<le> kpage j" "j < 65536 \<Longrightarrow> PGOFF (kpage j) = 0" "j < 65536 \<Longrightarrow> kva_frame (kpage j) = j" "j < 65536 \<Longrightarrow> kpage j \<noteq> 0"
  "j < 65536 \<Longrightarrow> paddr (kpage j) s = Ret (page2pa j) s"
proof -
  show k: "KERNBASE \<le> kpage j" if "j < 65536" for j using unat_kpage [OF that] by (simp add: word_le_nat_alt layout_defs)
  show "PGOFF (kpage j) = 0" by (simp add: kpage_def page_addr_def PGOFF_mult)
  show "kva_frame (kpage j) = j" if "j < 65536"
    using that by (simp add: kva_frame_def kpage_pa unat_PGNUM_page2pa)
  show "kpage j \<noteq> 0" if "j < 65536" using k [OF that] by (auto simp: layout_defs)
  show "paddr (kpage j) s = Ret (page2pa j) s" if "j < 65536"
    using k [OF that] by (simp add: paddr_def PADDR_def not_less kpage_pa)
qed

lemma ROUNDUP_kernel:
  assumes "KERNBASE < e" "kernel_pages e < 65536"
  shows "ROUNDUP e PGSIZE = kpage (kernel_pages e)"
proof -
  have e: "0xF0000000 < unat e" using assms(1) by (simp add: word_less_nat_alt layout_defs)
  have "unat e - 0xF0000000 + 4095 < 65536 * 4096"
    using assms(2) by (simp add: kernel_pages_def div_less_iff_less_mult)
  then have "unat e + 4095 < 2 ^ 32" using e by simp
  moreover have "unat e + 4095 = (unat e - 0xF0000000 + 4095) + 983040 * 4096" using e by simp
  then have "(unat e + 4095) div 4096 = 983040 + kernel_pages e"
    unfolding kernel_pages_def by (metis add.commute div_mult_self1 zero_neq_numeral)
  ultimately show ?thesis by (simp add: ROUNDUP_page kpage_def)
qed

lemma boot_alloc_step:
  assumes "nextfree s = kpage j" "0 < unat n" "unat n < 2 ^ 31" "j + page_count n < npages s" "npages s < 65536"
  shows "boot_alloc e n s = Ret (kpage j) (s\<lparr>nextfree := kpage (j + page_count n)\<rparr>)"
proof -
  have j: "j < 65536" "j + page_count n < 65536" using assms(4,5) by simp_all
  have "page_count n < 2 ^ 20" using assms(4,5) by simp
  moreover have "ROUNDUP n PGSIZE = page_addr (page_count n)" using ROUNDUP_page [of n] assms(3) by (simp add: page_count_def)
  ultimately have nf: "kpage j + ROUNDUP n PGSIZE = kpage (j + page_count n)"
    by (simp add: kpage_def page_addr_def algebra_simps)
  have "KERNBASE + of_nat (npages s) * PGSIZE = kpage (npages s)"
    by (simp add: kpage_def page_addr_def KERNBASE_def PGSIZE_def algebra_simps)
  moreover have "kpage (j + page_count n) < kpage (npages s)"
    using assms(4,5) j by (simp add: word_less_nat_alt unat_kpage)
  moreover have "n \<noteq> 0" using assms(2) by auto
  ultimately show ?thesis
    using kpage_facts(4) [OF j(1)] assms(1) nf by (simp add: boot_alloc_def Let_def word_gt_0 not_le)
qed

lemma boot_alloc_first: "nextfree s = 0 \<Longrightarrow> ROUNDUP e PGSIZE \<noteq> 0 \<Longrightarrow> boot_alloc e n s = boot_alloc e n (s\<lparr>nextfree := ROUNDUP e PGSIZE\<rparr>)"
  by (simp add: boot_alloc_def Let_def)

section \<open>page_init leaves the rest of the state\<close>

lemma page_init_free_frame: "\<exists>p l. page_init_free n i e s = s\<lparr>pages := p, page_free_list := l\<rparr>"
proof (induction n arbitrary: i s)
  case 0
  show ?case by (intro exI [of _ "pages s"] exI [of _ "page_free_list s"]) simp
next
  case (Suc n)
  let ?s = "if i < npages_basemem s \<or> i \<ge> e then (set_link i (page_free_list s) (set_ref i 0 s))\<lparr>page_free_list := Some i\<rparr> else s"
  obtain p l where "page_init_free n (Suc i) e ?s = ?s\<lparr>pages := p, page_free_list := l\<rparr>" using Suc.IH by blast
  then show ?case by (intro exI [of _ p] exI [of _ l]) (simp add: set_link_def set_ref_def)
qed

lemma page_init_used_frame: "\<exists>p. page_init_used n i s = s\<lparr>pages := p\<rparr>"
proof (induction n arbitrary: i s)
  case 0
  show ?case by (intro exI [of _ "pages s"]) simp
next
  case (Suc n)
  obtain p where "page_init_used n (Suc i) (set_ref i 1 s) = (set_ref i 1 s)\<lparr>pages := p\<rparr>" using Suc.IH by blast
  then show ?case by (intro exI [of _ p]) (simp add: set_ref_def)
qed

lemma page_init_frame:
  assumes "page_init e s = Ret () t" "nextfree s \<noteq> 0"
  shows "\<exists>p l. t = s\<lparr>pages := p, page_free_list := l\<rparr>"
proof -
  have "boot_alloc e 0 s = Ret (nextfree s) s" using assms(2) by (rule boot_alloc_none)
  then obtain n i m where t: "t = page_init_used n i (set_ref 0 1 (page_init_free (npages s - 1) 1 m s))"
    using assms(1) by (auto simp: page_init_def Let_def split: option.splits)
  obtain p l where "page_init_free (npages s - 1) 1 m s = s\<lparr>pages := p, page_free_list := l\<rparr>"
    using page_init_free_frame by blast
  moreover obtain q where "page_init_used n i (set_ref 0 1 (s\<lparr>pages := p, page_free_list := l\<rparr>)) =
      (set_ref 0 1 (s\<lparr>pages := p, page_free_list := l\<rparr>))\<lparr>pages := q\<rparr>" using page_init_used_frame by blast
  ultimately have "t = s\<lparr>pages := q, page_free_list := l\<rparr>" unfolding t by (simp add: set_ref_def)
  then show ?thesis by blast
qed

section \<open>mem_init up to page_init\<close>

definition boot_frame :: "nat \<Rightarrow> 32 word" where "boot_frame d = page2pa d OR PTE_U OR PTE_P"

definition boot_dir :: "nat \<Rightarrow> nat \<Rightarrow> 32 word" where "boot_dir d = (\<lambda>_. 0)(self_slot := boot_frame d)"

text \<open>Where the arrays are; the first free page after them.\<close>

definition boot_arrays :: "32 word \<Rightarrow> nat \<Rightarrow> arrays" where
  "boot_arrays e np =
     (let k = kernel_pages e + 1; n = page_count (pages_size np)
      in \<lparr>pages_kva = kpage k, envs_kva = kpage (k + n), vsys_kva = kpage (k + n + 30)\<rparr>)"

definition first_free :: "32 word \<Rightarrow> nat \<Rightarrow> nat" where
  "first_free e np = kernel_pages e + page_count (pages_size np) + 32"

text \<open>The free pages, in the order page_init links them.\<close>

definition boot_list :: "nat \<Rightarrow> nat \<Rightarrow> nat \<Rightarrow> nat list" where
  "boot_list np base ff = rev (filter (\<lambda>p. p < base \<or> ff \<le> p) [1..<np])"

lemma mem_init_data_effect:
  assumes m: "machine_ok e cmos" and s: "nextfree s = 0" "page_free_list s = None"
  defines "np \<equiv> total_pages cmos"
  shows "\<exists>t. mem_init_data e cmos s = Ret (boot_arrays e np) t \<and>
     free_list_ok t (boot_list np (base_pages cmos) (first_free e np)) \<and>
     npages t = np \<and> kern_pgdir t = kernel_pages e \<and> nextfree t = kpage (first_free e np) \<and>
     mem t = (mem s)(kernel_pages e := boot_dir (kernel_pages e)) \<and>
     curenv t = curenv s \<and> cr3 t = cr3 s \<and> envs t = envs s"
proof -
  let ?k = "kernel_pages e" and ?n = "page_count (pages_size np)"
  have np: "np \<le> 16639" using total_pages_bound np_def by simp
  have e: "KERNBASE < e" using m by (simp add: machine_ok_def word_less_nat_alt layout_defs)
  have fit: "?k + ?n + 32 < np" "1024 < np" using m by (simp_all add: machine_ok_def np_def)
  then have k: "?k < 65536" using np by simp
  have sz: "unat (pages_size np) = np * 8" using np by (simp add: unat_pages_size)
  have ru: "ROUNDUP e PGSIZE = kpage ?k" "kpage ?k \<noteq> 0" using ROUNDUP_kernel [OF e k] kpage_facts(4) [OF k] by simp_all
  define s0 where "s0 = s\<lparr>npages_basemem := base_pages cmos, npages := np, nextfree := kpage ?k\<rparr>"
  have one: "page_count PGSIZE = 1" "page_count (sizeof_Env * of_nat NENV) = 30" "page_count (NVSYSCALLS * 4) = 1"
    by (simp_all add: page_count_def layout_defs sizeof_Env_def NENV_def NVSYSCALLS_def)
  have b0: "boot_alloc e PGSIZE (i386_detect_memory cmos s) = Ret (kpage ?k) (s0\<lparr>nextfree := kpage (?k + 1)\<rparr>)"
    using boot_alloc_first [of "i386_detect_memory cmos s" e PGSIZE] boot_alloc_step [of s0 ?k PGSIZE e] s ru fit np one
    by (simp add: detect_pages s0_def np_def [symmetric] PGSIZE_def)
  let ?M = "(mem s)(?k := boot_dir ?k)"
  define u where "u j p = s\<lparr>npages_basemem := base_pages cmos, npages := np, nextfree := kpage j, kern_pgdir := ?k,
     mem := ?M, pages := p\<rparr>" for j p
  have nps: "npages (u j p) = np" and nf: "nextfree (u j p) = kpage j" and nu: "(u j p)\<lparr>nextfree := kpage i\<rparr> = u i p" for i j p
    by (simp_all add: u_def)
  have zero: "(s0\<lparr>nextfree := kpage (?k + 1)\<rparr>)\<lparr>kern_pgdir := ?k, mem := (mem (s0\<lparr>nextfree := kpage (?k + 1)\<rparr>))(?k := (\<lambda>_. 0))\<rparr> =
      s0\<lparr>nextfree := kpage (?k + 1), kern_pgdir := ?k, mem := (mem s)(?k := (\<lambda>_. 0))\<rparr>"
    by (simp add: s0_def)
  have dir: "store ?k (unat (PDX UVPT)) (page2pa ?k OR PTE_U OR PTE_P) (s0\<lparr>nextfree := kpage (?k + 1), kern_pgdir := ?k, mem := (mem s)(?k := (\<lambda>_. 0))\<rparr>)
      = u (?k + 1) (pages s)"
    by (simp add: u_def s0_def store_def boot_dir_def boot_frame_def self_slot_def)
  have ffe: "first_free e np = ?k + 1 + ?n + 30 + 1" by (simp add: first_free_def)
  have b1: "boot_alloc e (pages_size np) (u (?k + 1) p) = Ret (kpage (?k + 1)) (u (?k + 1 + ?n) p)" for p
    using boot_alloc_step [of "u (?k + 1) p" "?k + 1" "pages_size np" e] fit np sz unfolding nps nf nu by simp
  have b2: "boot_alloc e (sizeof_Env * of_nat NENV) (u (?k + 1 + ?n) p) = Ret (kpage (?k + 1 + ?n)) (u (?k + 1 + ?n + 30) p)" for p
    using boot_alloc_step [of "u (?k + 1 + ?n) p" "?k + 1 + ?n" "sizeof_Env * of_nat NENV" e] fit np
    unfolding nps nf nu one(2) by (simp add: sizeof_Env_def NENV_def)
  have b3: "boot_alloc e (NVSYSCALLS * 4) (u (?k + 1 + ?n + 30) p) = Ret (kpage (?k + 1 + ?n + 30)) (u (first_free e np) p)" for p
    using boot_alloc_step [of "u (?k + 1 + ?n + 30) p" "?k + 1 + ?n + 30" "NVSYSCALLS * 4" e] fit np
    unfolding nps nf nu one(3) ffe by (simp add: NVSYSCALLS_def)
  have z: "zero_pages (u j p) = u j (\<lambda>_. \<lparr>pp_link = None, pp_ref = 0\<rparr>)" for j p
    by (simp add: zero_pages_def u_def)
  let ?u = "u (first_free e np) (\<lambda>_. \<lparr>pp_link = None, pp_ref = 0\<rparr>)"
  have ff: "first_free e np < 65536" using fit np by (simp add: first_free_def)
  have "\<exists>t. page_init e ?u = Ret () t \<and> free_list_ok t (boot_list np (base_pages cmos) (first_free e np))"
    using page_init_free_list [of ?u e] np fit s(2) kpage_facts(1) [OF ff] kpage_facts(3) [OF ff]
    by (simp add: u_def boot_list_def)
  then obtain t where t: "page_init e ?u = Ret () t" "free_list_ok t (boot_list np (base_pages cmos) (first_free e np))" by blast
  obtain p l where "t = ?u\<lparr>pages := p, page_free_list := l\<rparr>"
    using page_init_frame [OF t(1)] kpage_facts(4) [OF ff] by (auto simp: u_def)
  then have fr: "npages t = np" "kern_pgdir t = ?k" "nextfree t = kpage (first_free e np)" "mem t = ?M" "curenv t = curenv s" "cr3 t = cr3 s" "envs t = envs s"
    by (simp_all add: u_def)
  have "mem_init_data e cmos s = Ret (boot_arrays e np) t"
    unfolding mem_init_data_def Let_def b0 kbind.simps kpage_facts(3) [OF k] kpage_facts(5) [OF k] zero dir nps
      pages_size_def [symmetric] b1 b2 b3 z t(1)
    by (simp add: boot_arrays_def Let_def)
  then show ?thesis using t(2) fr by blast
qed

section \<open>The list of free pages\<close>

lemma high_page: "x < 2 ^ 20 \<Longrightarrow> is_high x \<longleftrightarrow> 1024 \<le> x"
  by (simp add: is_high_def word_le_nat_alt unat_PDX unat_page2pa) linarith

lemma machine_facts:
  assumes "machine_ok e cmos"
  defines "np \<equiv> total_pages cmos" and "base \<equiv> base_pages cmos" and "ff \<equiv> first_free e (total_pages cmos)"
  shows "np \<le> 16639" "1024 < np" "72 \<le> base" "base \<le> 160" "ff < np" "257 \<le> kernel_pages e" "kernel_pages e < ff"
proof -
  have "0xF0000000 + 0x100000 < unat e" using assms(1) by (simp add: machine_ok_def word_less_nat_alt layout_defs)
  then show "257 \<le> kernel_pages e" by (simp add: kernel_pages_def less_eq_div_iff_mult_less_eq)
  show "np \<le> 16639" "1024 < np" "72 \<le> base" "base \<le> 160" "ff < np" "kernel_pages e < ff"
    using assms(1) total_pages_bound [of cmos] by (simp_all add: machine_ok_def np_def base_def ff_def first_free_def)
qed

lemma boot_list_ok:
  assumes m: "machine_ok e cmos" and t: "npages t = total_pages cmos" "nextfree t = kpage (first_free e (total_pages cmos))"
  shows "free_pages_ok (boot_list (total_pages cmos) (base_pages cmos) (first_free e (total_pages cmos))) t"
    and "kernel_pages e \<notin> set (boot_list (total_pages cmos) (base_pages cmos) (first_free e (total_pages cmos)))"
proof -
  note f = machine_facts [OF m]
  have ff: "first_free e (total_pages cmos) < 65536" using f by simp
  let ?xs = "boot_list (total_pages cmos) (base_pages cmos) (first_free e (total_pages cmos))"
  have "1 \<in> set ?xs" "total_pages cmos - 1 \<in> set ?xs" using f by (auto simp: boot_list_def)
  moreover have "(1 :: nat) < 256" "256 \<le> total_pages cmos - 1" using f by simp_all
  ultimately have "\<exists>x \<in> set ?xs. x < 256" "\<exists>x \<in> set ?xs. 256 \<le> x" by blast+
  moreover have "\<forall>x \<in> set ?xs. may_be_free t x"
    using f t kpage_facts(3) [OF ff] by (auto simp: boot_list_def may_be_free_def)
  moreover have "distinct ?xs" by (simp add: boot_list_def)
  ultimately show "free_pages_ok ?xs t"
    using f t kpage_facts(1,2) [OF ff] by (simp add: free_pages_ok_def)
  show "kernel_pages e \<notin> set (boot_list (total_pages cmos) (base_pages cmos) (first_free e (total_pages cmos)))"
    using f by (auto simp: boot_list_def)
qed

text \<open>Sorted: page 1 is the last of the low pages, at least 70 come before it, and there are high ones.\<close>

lemma boot_list_shape:
  assumes m: "machine_ok e cmos"
  shows "\<exists>us hs. low_first (boot_list (total_pages cmos) (base_pages cmos) (first_free e (total_pages cmos))) = us @ 1 # hs \<and>
    70 \<le> length us \<and> hs \<noteq> [] \<and> (\<forall>x \<in> set hs. 1024 \<le> x)"
proof -
  note f = machine_facts [OF m]
  let ?P = "\<lambda>p. p < base_pages cmos \<or> first_free e (total_pages cmos) \<le> p" and ?np = "total_pages cmos"
  let ?V = "rev (filter ?P [2..<?np])"
  have bl: "boot_list ?np (base_pages cmos) (first_free e ?np) = ?V @ [1]"
  proof -
    have "[1..<?np] = 1 # [2..<?np]" using f upt_conv_Cons [of 1 ?np] by (simp add: numeral_2_eq_2)
    then have "filter ?P [1..<?np] = 1 # filter ?P [2..<?np]" using f by simp
    then show ?thesis unfolding boot_list_def by (metis rev.simps(2))
  qed
  have l1: "\<not> is_high 1" by (simp add: high_page)
  have "{2..71} \<subseteq> set (of_kind False ?V)" using f by (auto simp: high_page)
  then have "card {2..71::nat} \<le> card (set (of_kind False ?V))" by (intro card_mono) simp_all
  then have len: "70 \<le> length (of_kind False ?V)" using card_length [of "of_kind False ?V"] by simp
  have "?np - 1 \<in> set (of_kind True ?V)" using f by (auto simp: high_page)
  then have ne: "of_kind True ?V \<noteq> []" by force
  have "\<forall>x \<in> set (of_kind True ?V). 1024 \<le> x" using f by (auto simp: high_page)
  then show ?thesis
    using len ne l1 by (intro exI [of _ "of_kind False ?V"] exI [of _ "of_kind True ?V"]) (simp add: low_first_def bl)
qed

lemma suffix_keeps:
  assumes "suffix ys (us @ 1 # hs)" "length hs + 2 \<le> length ys"
  shows "1 \<in> set ys" "set hs \<subseteq> set ys" "set ys \<subseteq> set (us @ 1 # hs)"
proof -
  have "suffix (1 # hs) ys"
    by (rule suffix_length_suffix [OF _ assms(1)]) (use assms(2) in \<open>auto simp: suffix_def\<close>)
  then show "1 \<in> set ys" "set hs \<subseteq> set ys" by (auto simp: suffix_def)
  show "set ys \<subseteq> set (us @ 1 # hs)" using assms(1) by (rule set_mono_suffix)
qed

section \<open>The whole\<close>

lemma vm_map_outside:
  assumes "kmap_inv r s d xs" "\<forall>f. f \<notin> set xs \<longrightarrow> mem t f = mem s f" "unat (PDX va) \<noteq> self_slot"
  shows "vm_map t d va = vm_map s d va"
proof (cases "mem s d (unat (PDX va)) = 0")
  case True
  moreover have "d \<notin> set xs" using assms(1) by (simp add: kmap_inv_def)
  ultimately show ?thesis using assms(2) by (simp add: vm_map_def Let_def)
next
  case False
  then show ?thesis
    using kmap_table(3) [OF assms(1) PDX_less assms(3)] assms(1,2) by (simp add: vm_map_def Let_def kmap_inv_def)
qed

lemma boot_arrays_ok:
  assumes m: "machine_ok e cmos"
  shows "arrays_ok (boot_arrays e (total_pages cmos)) (total_pages cmos)"
proof -
  note f = machine_facts [OF m]
  have a: "array_at (kpage j) sz" if "j + page_count sz \<le> total_pages cmos" for j sz
  proof -
    have j: "j < 65536" using that f by simp
    have "unat sz \<le> page_count sz * 4096" by (rule page_count_bounds)
    then show ?thesis using that f kpage_facts [OF j] unat_kpage [OF j] by (simp add: array_at_def)
  qed
  have c: "page_count envs_size = 30" "page_count PGSIZE = 1" by (simp_all add: page_count_def envs_size_eq layout_defs)
  show ?thesis using f by (simp add: arrays_ok_def boot_arrays_def Let_def first_free_def a c)
qed

lemma three_cons: "3 \<le> length xs \<Longrightarrow> \<exists>a b c ys. xs = a # b # c # ys"
  by (auto simp: Suc_le_length_iff numeral_3_eq_3)

text \<open>
  Up to the regions: the self-checks pass, the first three pages of the list change places, and the directory
  has only its entry for itself.
\<close>

lemma mem_init_checks:
  assumes m: "machine_ok e cmos" and s: "nextfree s = 0" "page_free_list s = None" "curenv s = None"
  shows "\<exists>t0 us hs R M I. mem_init_data e cmos s = Ret (boot_arrays e (total_pages cmos)) t0 \<and>
     kbind (check_page_free_list e True t0) (\<lambda>_ s. kbind (check_page_alloc s) (\<lambda>_. check_page)) =
       Ret () (chk [] (us @ 1 # hs) R M I t0) \<and>
     free_pages_ok (us @ 1 # hs) t0 \<and> 70 \<le> length us \<and> hs \<noteq> [] \<and> (\<forall>x \<in> set hs. 1024 \<le> x) \<and>
     (\<forall>x \<in> set (us @ 1 # hs). R x = 0) \<and> kernel_pages e \<notin> set (us @ 1 # hs) \<and> M (kernel_pages e) = boot_dir (kernel_pages e) \<and>
     npages t0 = total_pages cmos \<and> kern_pgdir t0 = kernel_pages e \<and> curenv t0 = None \<and> nextfree t0 \<noteq> 0"
proof -
  let ?d = "kernel_pages e" and ?np = "total_pages cmos"
  let ?xs = "boot_list ?np (base_pages cmos) (first_free e ?np)"
  note f = machine_facts [OF m]
  obtain t0 where t0: "mem_init_data e cmos s = Ret (boot_arrays e ?np) t0" "free_list_ok t0 ?xs" "npages t0 = ?np" "kern_pgdir t0 = ?d"
      "nextfree t0 = kpage (first_free e ?np)" "mem t0 = (mem s)(?d := boot_dir ?d)" "curenv t0 = None"
    using mem_init_data_effect [OF m s(1,2)] s(3) by metis
  have ok: "free_pages_ok ?xs t0" and nd: "?d \<notin> set ?xs" using boot_list_ok [OF m t0(3,5)] by blast+
  obtain us hs where sh: "low_first ?xs = us @ 1 # hs" "70 \<le> length us" "hs \<noteq> []" "\<forall>x \<in> set hs. 1024 \<le> x"
    using boot_list_shape [OF m] by blast
  then obtain a b c W where us: "us = a # b # c # W" using three_cons [of us] by auto
  let ?R = "\<lambda>p. pp_ref (pages t0 p)" and ?I = "invlpgs t0"
  have R: "\<forall>x \<in> set ?xs. ?R x = 0" using t0(2) by (simp add: free_list_ok_def)
  have ch: "chk [] ?xs ?R (mem t0) ?I t0 = t0" by (rule chk_self [OF t0(2)])
  let ?M1 = "poison_all True (low_first ?xs) (mem t0)"
  have c1: "check_page_free_list e True t0 = Ret () (chk [] (a # b # c # W @ 1 # hs) ?R ?M1 ?I t0)"
    using check_page_free_list_chk(1) [OF ok R, of e "mem t0" ?I] ch sh(1) us by simp
  have okL: "free_pages_ok (a # b # c # W @ 1 # hs) t0" using free_pages_ok_low_first [OF ok] sh(1) us by simp
  then have three: "three a b c (W @ 1 # hs) t0" "distinct (W @ 1 # hs)" "\<forall>x \<in> set (W @ 1 # hs). x < npages t0" "npages t0 < 2 ^ 20"
    by (auto simp: free_pages_ok_def three_def may_be_free_def)
  have setL: "set (a # b # c # W @ 1 # hs) = set ?xs" using sh(1) us set_low_first [of ?xs] by simp
  then have Rz: "?R a = 0" "?R b = 0" "?R c = 0" "?d \<notin> {a, b, c}" using R nd by auto
  have c2: "check_page_alloc (chk [] (a # b # c # W @ 1 # hs) ?R ?M1 ?I t0) =
      Ret () (chk [] (a # b # c # W @ 1 # hs) ?R (?M1(c := (\<lambda>_. 0))) ?I t0)"
    by (rule check_page_alloc_chk [OF three Rz(1-3)])
  have Md: "(?M1(c := (\<lambda>_. 0))) ?d = boot_dir ?d"
    using nd Rz(4) t0(6) by (simp add: poison_all_other)
  have quiet: "quiet_dir a b c (?M1(c := (\<lambda>_. 0))) t0"
    using Md Rz(4) t0(4,7) by (simp add: quiet_dir_def boot_dir_def self_slot_eq)
  obtain I' where c3: "check_page (chk [] (a # b # c # W @ 1 # hs) ?R (?M1(c := (\<lambda>_. 0))) ?I t0) =
      Ret () (chk [] (c # b # a # W @ 1 # hs) ?R (?M1(c := (\<lambda>_. 0), a := (\<lambda>_. 0))) I' t0)"
    using check_page_chk [OF three(1) quiet Rz(1-3)] by blast
  have "free_pages_ok (c # b # a # W @ 1 # hs) t0" using okL by (auto simp: free_pages_ok_def)
  moreover have "kbind (check_page_free_list e True t0) (\<lambda>_ s. kbind (check_page_alloc s) (\<lambda>_. check_page)) =
       Ret () (chk [] (c # b # a # W @ 1 # hs) ?R (?M1(c := (\<lambda>_. 0), a := (\<lambda>_. 0))) I' t0)"
    by (simp only: c1 c2 c3 kbind.simps)
  moreover have "\<forall>x \<in> set (c # b # a # W @ 1 # hs). ?R x = 0" "?d \<notin> set (c # b # a # W @ 1 # hs)"
    using R nd setL by auto
  moreover have "(?M1(c := (\<lambda>_. 0), a := (\<lambda>_. 0))) ?d = boot_dir ?d" using Md Rz(4) by simp
  moreover have "nextfree t0 \<noteq> 0" using t0(5) kpage_facts(4) [of "first_free e ?np"] f by simp
  moreover have "70 \<le> length (c # b # a # W)" using sh(2) us by simp
  ultimately show ?thesis
    using t0(1,3,4,7) sh(3,4)
    by (intro exI [of _ t0] exI [of _ "c # b # a # W"] exI [of _ hs] exI [of _ ?R]
        exI [of _ "?M1(c := (\<lambda>_. 0), a := (\<lambda>_. 0))"] exI [of _ I']) simp
qed

text \<open>The directory that has only its own entry is ready for the regions.\<close>

lemma kmap_start:
  assumes f: "free_list_ok s zs" and d: "kern_pgdir s < npages s" "kern_pgdir s \<notin> set zs" "mem s (kern_pgdir s) = boot_dir (kern_pgdir s)"
    and r: "69 + r \<le> length zs"
  shows "kmap_at r zs (kern_pgdir s) (\<lambda>_. None) {} s"
proof -
  let ?d = "kern_pgdir s"
  have z: "mem s ?d j = 0" if "j \<noteq> self_slot" for j using d(3) that by (simp add: boot_dir_def)
  have self: "mem s ?d self_slot = page2pa ?d OR PTE_U OR PTE_P" by (simp add: d(3) boot_dir_def boot_frame_def)
  have "missing s ?d \<subseteq> {954..<1024} - {957}" by (auto simp: missing_def NUSER_eq self_slot_eq)
  then have "card (missing s ?d) \<le> card ({954..<1024} - {957 :: nat})" by (intro card_mono) simp_all
  moreover have "card ({954..<1024} - {957 :: nat}) = 69" by (subst card_Diff_singleton) simp_all
  ultimately have "card (missing s ?d) + r \<le> length zs" using r by simp
  then have "kmap_inv r s ?d zs" using f d(1,2) self z by (auto simp: kmap_inv_def)
  moreover have "vm_map s ?d va = None" if "unat (PDX va) \<noteq> self_slot" for va
    using z [OF that] by (simp add: vm_map_def)
  ultimately show ?thesis unfolding kmap_at_def using z by blast
qed

text \<open>After the regions: the rest of mem_init on a list that still has low and high pages.\<close>

lemma mem_init_rest:
  assumes k: "kmap_at r zs d m (layout_slots np) s" and cr: "cr3 s = d" and cur: "curenv s = None"
    and fp: "\<And>ys. suffix ys zs \<Longrightarrow> r \<le> length ys \<Longrightarrow> free_pages_ok ys s \<and> 3 \<le> length ys"
  shows "\<exists>t ys. kbind (check_page_free_list e False s) (\<lambda>_. check_page_installed_pgdir) = Ret () t \<and>
     free_list_ok t ys \<and> kern_pgdir t = d \<and> cr3 t = d \<and> d \<notin> set ys \<and> npages t = npages s \<and> mem t d = mem s d \<and>
     (\<forall>va. unat (PDX va) \<noteq> self_slot \<longrightarrow> vm_map t d va = m va)"
proof -
  obtain ys where inv: "kmap_inv r s d ys" and sf: "suffix ys zs" and d: "kern_pgdir s = d"
    and mp: "\<forall>va. unat (PDX va) \<noteq> self_slot \<longrightarrow> vm_map s d va = m va"
    and sl: "\<forall>j < 1024. j \<noteq> self_slot \<longrightarrow> (mem s d j \<noteq> 0) = (j \<in> layout_slots np)"
    using k by (auto simp: kmap_at_def)
  have fl: "free_list_ok s ys" and dn: "d \<notin> set ys" and "r \<le> length ys" using inv by (simp_all add: kmap_inv_def)
  then have ok: "free_pages_ok ys s" and "3 \<le> length ys" using fp [OF sf] by simp_all
  then obtain a b c W where ys: "ys = a # b # c # W" using three_cons by blast
  let ?R = "\<lambda>p. pp_ref (pages s p)"
  have ch: "chk [] ys ?R (mem s) (invlpgs s) s = s" by (rule chk_self [OF fl])
  have R: "\<forall>x \<in> set ys. ?R x = 0" using fl by (simp add: free_list_ok_def)
  let ?M = "poison_all False ys (mem s)"
  have c1: "check_page_free_list e False s = Ret () (chk [] (a # b # c # W) ?R ?M (invlpgs s) s)"
    using check_page_free_list_chk(2) [OF ok R, of e "mem s" "invlpgs s"] ch ys by simp
  have three: "three a b c W s" using ok ys by (auto simp: free_pages_ok_def three_def may_be_free_def)
  have Md: "?M d = mem s d" using dn by (rule poison_all_other)
  have z: "mem s d 0 = 0" "mem s d (Suc 0) = 0" using sl [rule_format, of 0] sl [rule_format, of "Suc 0"] by (simp_all add: layout_slots_def self_slot_eq)
  have quiet: "quiet_dir a b c ?M s" using Md z dn ys d cur by (auto simp: quiet_dir_def)
  let ?N = "?M(b := (\<lambda>_. 0x01010101), c := (\<lambda>_. 0x02020202)(0 := 0x03030303), a := (\<lambda>_. 0)(1 := 0), d := (?M d)(0 := 0))"
  let ?t = "chk [] (a # c # b # W) (?R(b := 0, c := 0, a := 0)) ?N (PGSIZE # PGSIZE # invlpgs s) s"
  have c2: "check_page_installed_pgdir (chk [] (a # b # c # W) ?R ?M (invlpgs s) s) = Ret () ?t"
    using check_installed_chk [OF three quiet, of ?R "invlpgs s"] R ys cr d by simp
  have set: "set (a # c # b # W) = set ys" using ys by auto
  have "distinct (a # c # b # W)" using ok ys by (auto simp: free_pages_ok_def)
  then have "free_list_ok ?t (a # c # b # W)"
    by (rule chk_free_list) (use fl R set in \<open>auto simp: free_list_ok_def\<close>)
  moreover have nd: "?N d = mem s d" using Md z by (auto simp: fun_eq_iff)
  moreover have "vm_map ?t d va = m va" if va: "unat (PDX va) \<noteq> self_slot" for va
  proof -
    have "mem ?t f = mem s f" if "f \<notin> set ys" for f
    proof (cases "f = d")
      case True
      then show ?thesis by (simp only: chk_sel nd)
    next
      case False
      have "f \<noteq> a" "f \<noteq> b" "f \<noteq> c" using that ys by auto
      then have "?N f = ?M f" using False by (simp only: fun_upd_other not_False_eq_True)
      then show ?thesis using poison_all_other [OF that] by (simp only: chk_sel)
    qed
    then have "\<forall>f. f \<notin> set ys \<longrightarrow> mem ?t f = mem s f" by blast
    from vm_map_outside [OF inv this va] mp [rule_format, OF va] show ?thesis by (rule trans)
  qed
  moreover have "kbind (check_page_free_list e False s) (\<lambda>_. check_page_installed_pgdir) = Ret () ?t"
    by (simp only: c1 c2 kbind.simps)
  moreover have "d \<notin> set (a # c # b # W)" using dn set by simp
  moreover have "kern_pgdir ?t = d" "cr3 ?t = d" "npages ?t = npages s" "mem ?t d = mem s d"
    using d cr nd by (simp_all only: chk_sel)
  ultimately show ?thesis by blast
qed

lemma kmap_at_cr3: "kmap_at r zs d m N (s\<lparr>cr3 := c\<rparr>) \<longleftrightarrow> kmap_at r zs d m N s"
proof -
  have "kmap_inv r (s\<lparr>cr3 := c\<rparr>) d xs = kmap_inv r s d xs" for xs
    by (simp add: kmap_inv_def free_list_ok_def missing_def)
  moreover have "vm_map (s\<lparr>cr3 := c\<rparr>) d va = vm_map s d va" for va by (simp add: vm_map_def)
  ultimately show ?thesis by (simp add: kmap_at_def)
qed

lemma mem_init_effect:
  assumes m: "machine_ok e cmos" and s: "nextfree s = 0" "page_free_list s = None" "curenv s = None"
    and b: "KERNBASE \<le> bootstack" "PGOFF bootstack = 0"
  shows "\<exists>t ys. mem_init e bootstack cmos s = Ret (boot_arrays e (total_pages cmos)) t \<and>
    (\<forall>va. unat (PDX va) \<noteq> self_slot \<longrightarrow>
       vm_map t (kern_pgdir t) va = kernel_layout (boot_arrays e (total_pages cmos)) bootstack (total_pages cmos) va) \<and>
    cr3 t = kern_pgdir t \<and> npages t = total_pages cmos \<and> free_list_ok t ys \<and> kern_pgdir t \<notin> set ys \<and> kernel_dir_ok t"
proof -
  let ?np = "total_pages cmos" and ?d = "kernel_pages e" and ?a = "boot_arrays e (total_pages cmos)"
  note f = machine_facts [OF m]
  obtain t0 us hs R M I where t0: "mem_init_data e cmos s = Ret ?a t0"
     "kbind (check_page_free_list e True t0) (\<lambda>_ s. kbind (check_page_alloc s) (\<lambda>_. check_page)) = Ret () (chk [] (us @ 1 # hs) R M I t0)"
     "free_pages_ok (us @ 1 # hs) t0" "70 \<le> length us" "hs \<noteq> []" "\<forall>x \<in> set hs. 1024 \<le> x"
     "\<forall>x \<in> set (us @ 1 # hs). R x = 0" "?d \<notin> set (us @ 1 # hs)" "M ?d = boot_dir ?d"
     "npages t0 = ?np" "kern_pgdir t0 = ?d" "curenv t0 = None" "nextfree t0 \<noteq> 0"
    using mem_init_checks [OF m s] by blast
  let ?zs = "us @ 1 # hs" and ?s = "chk [] (us @ 1 # hs) R M I t0" and ?r = "length hs + 2"
  have fl: "free_list_ok ?s ?zs"
    by (rule chk_free_list) (use t0(3,7) in \<open>auto simp: free_pages_ok_def may_be_free_def\<close>)
  have "kmap_at ?r ?zs ?d (\<lambda>_. None) {} ?s"
    using kmap_start [OF fl, of ?r] t0(4,8-11) f by simp
  then obtain s1 where s1: "mem_init_map ?a bootstack ?s = Ret () s1" "vm_frame ?s s1"
      and k: "kmap_at ?r ?zs ?d (kernel_layout ?a bootstack ?np) (layout_slots ?np) s1"
    using mem_init_map_effect [of ?r ?zs ?d ?s ?a bootstack] boot_arrays_ok [OF m] b(1) t0(10) by auto
  have fr: "npages s1 = ?np" "curenv s1 = None" "nextfree s1 = nextfree t0"
    using s1(2) t0(10,12) by (auto elim!: vm_frame_E)
  have c: "check_kern_pgdir ?a bootstack s1 = Ret () s1"
    using check_kern_pgdir_effect [of ?r ?zs ?d ?a bootstack s1] k boot_arrays_ok [OF m] b fr(1) by simp
  let ?s2 = "s1\<lparr>cr3 := kern_pgdir s1\<rparr>"
  have k2: "kmap_at ?r ?zs ?d (kernel_layout ?a bootstack ?np) (layout_slots ?np) ?s2"
    using k by (simp add: kmap_at_cr3)
  have fp: "free_pages_ok ys ?s2 \<and> 3 \<le> length ys" if "suffix ys ?zs" "?r \<le> length ys" for ys
  proof -
    have in_ys: "1 \<in> set ys" "set hs \<subseteq> set ys" "set ys \<subseteq> set ?zs" by (rule suffix_keeps [OF that])+
    have hd: "hd hs \<in> set hs" using t0(5) by simp
    then have "hd hs \<in> set ys" using in_ys(2) by blast
    moreover have "1024 \<le> hd hs" using t0(6) hd by blast
    then have "256 \<le> hd hs" by simp
    moreover have "distinct (us @ 1 # hs)" using t0(3) unfolding free_pages_ok_def by blast
    then have "distinct ys" using that(1) unfolding suffix_def by (metis distinct_append)
    moreover have "\<forall>x \<in> set ys. may_be_free ?s2 x"
    proof -
      have "may_be_free ?s2 x = may_be_free t0 x" for x using fr t0(10) by (simp add: may_be_free_def)
      moreover have "\<forall>x \<in> set ?zs. may_be_free t0 x" using t0(3) unfolding free_pages_ok_def by blast
      ultimately show ?thesis using in_ys(3) by blast
    qed
    moreover have "\<exists>x \<in> set ys. x < 256" using in_ys(1) by (intro bexI) simp_all
    ultimately show ?thesis
      using t0(3,5,10) that(2) fr by (cases hs) (auto simp: free_pages_ok_def)
  qed
  have d2: "kern_pgdir s1 = ?d" using k by (simp add: kmap_at_def)
  obtain t ys where t: "kbind (check_page_free_list e False ?s2) (\<lambda>_. check_page_installed_pgdir) = Ret () t"
    "free_list_ok t ys" "kern_pgdir t = ?d" "cr3 t = ?d" "?d \<notin> set ys" "npages t = npages ?s2" "mem t ?d = mem ?s2 ?d"
    "\<forall>va. unat (PDX va) \<noteq> self_slot \<longrightarrow> vm_map t ?d va = kernel_layout ?a bootstack ?np va"
    using mem_init_rest [OF k2 _ _ fp, of e] d2 fr(2) by auto
  have "mem s1 ?d i = 0" if "i < NUSER" for i
  proof -
    have i: "i < 1024" "i \<noteq> self_slot" "i \<notin> layout_slots ?np" using that by (auto simp: NUSER_eq self_slot_eq layout_slots_def)
    have "\<forall>j < 1024. j \<noteq> self_slot \<longrightarrow> (mem s1 ?d j \<noteq> 0) = (j \<in> layout_slots ?np)" using k unfolding kmap_at_def by blast
    then show ?thesis using i by blast
  qed
  then have "kernel_dir_ok t" using t(3,7) by (simp add: kernel_dir_ok_def)
  moreover have "mem_init e bootstack cmos s = Ret ?a t"
    using t0(1,2) s1(1) c t(1) unfolding mem_init_def kbind_eq_Ret Let_def by (auto simp: kbind_eq_Ret)
  ultimately show ?thesis using t fr(1) by (intro exI [of _ t] exI [of _ ys]) simp
qed

text \<open>
  C2. mem_init returns on every machine that holds the kernel, its arrays and 72 pages of base memory, whatever
  the memory contained: no assertion of its self-checks fails and no panic is reached. Afterwards the installed directory
  maps exactly the regions of inc/memlayout.h (all of physical memory from KERNBASE, the kernel's stack with the
  guard below it, and read-only windows on pages, envs and vsys), except for the slot of the directory
  itself; nothing below UTOP is mapped; and the free list is well formed, without the directory.
\<close>

theorem mem_init_boots:
  assumes "machine_ok e cmos" "nextfree s = 0" "page_free_list s = None" "curenv s = None"
    and "KERNBASE \<le> bootstack" "PGOFF bootstack = 0"
  shows "\<exists>t ys. mem_init e bootstack cmos s = Ret (boot_arrays e (total_pages cmos)) t \<and>
    (\<forall>va. unat (PDX va) \<noteq> self_slot \<longrightarrow>
       vm_map t (kern_pgdir t) va = kernel_layout (boot_arrays e (total_pages cmos)) bootstack (total_pages cmos) va) \<and>
    cr3 t = kern_pgdir t \<and> npages t = total_pages cmos \<and> free_list_ok t ys \<and> kern_pgdir t \<notin> set ys \<and> kernel_dir_ok t"
  by (rule mem_init_effect [OF assms])

definition demo_cmos :: "nat \<Rightarrow> 8 word" where
  "demo_cmos = (\<lambda>_. 0)(21 := 0x80, 22 := 2, 24 := 0xFC)"

lemma demo_machine: "machine_ok 0xF0200000 demo_cmos" "total_pages demo_cmos = 16384"
proof -
  have n: "nvram_read demo_cmos NVRAM_BASELO = 640" "nvram_read demo_cmos NVRAM_EXTLO = 64512"
    by (simp_all add: nvram_read_def demo_cmos_def NVRAM_BASELO_def NVRAM_EXTLO_def)
  then have t: "total_pages demo_cmos = 16384" "base_pages demo_cmos = 160"
    by (simp_all add: total_pages_def base_pages_def i386_detect_memory_def Let_def layout_defs)
  then show "machine_ok 0xF0200000 demo_cmos" "total_pages demo_cmos = 16384"
    by (simp_all add: machine_ok_def kernel_pages_def page_count_def unat_pages_size layout_defs)
qed

theorem mem_init_boots_witness:
  "\<exists>t. returns (mem_init 0xF0200000 0xF0110000 demo_cmos (blank_state 0 0)) \<and>
     mem_init 0xF0200000 0xF0110000 demo_cmos (blank_state 0 0) = Ret (boot_arrays 0xF0200000 16384) t \<and>
     vm_map t (kern_pgdir t) 0xF0100000 = Some 0x00100003 \<and> vm_map t (kern_pgdir t) 0x1000 = None"
proof -
  have s: "nextfree (blank_state 0 0) = 0" "page_free_list (blank_state 0 0) = None" "curenv (blank_state 0 0) = None"
    and b: "KERNBASE \<le> (0xF0110000 :: 32 word)" "PGOFF 0xF0110000 = 0"
    by (simp_all add: blank_state_def layout_defs PGOFF_def)
  obtain t where t: "mem_init 0xF0200000 0xF0110000 demo_cmos (blank_state 0 0) = Ret (boot_arrays 0xF0200000 16384) t"
    "\<forall>va. unat (PDX va) \<noteq> self_slot \<longrightarrow> vm_map t (kern_pgdir t) va = kernel_layout (boot_arrays 0xF0200000 16384) 0xF0110000 16384 va"
    using mem_init_boots [OF demo_machine(1) s b] unfolding demo_machine(2) by blast
  have n: "page_count (pages_size 16384) = 32" "page_count envs_size = 30"
    by (simp_all add: page_count_def unat_pages_size envs_size_eq)
  have "vm_map t (kern_pgdir t) 0xF0100000 = Some 0x00100003" "vm_map t (kern_pgdir t) 0x1000 = None"
    using t(2) by (simp_all add: kernel_layout_def window_def within_def n layout_values layout_defs PTE_ADDR_def unat_PDX self_slot_eq)
  then show ?thesis using t(1) by auto
qed

section \<open>One region\<close>

text \<open>
  C27. boot_map_region on a kernel directory with free pages for its missing tables: it maps every page of the
  region to the corresponding page from pa on, with the rights given, keeps the directory well
  formed and changes no other mapping; it touches only the directory entries of the region and
  takes pages only from the free list.
\<close>

theorem boot_map_region_correct:
  assumes "kmap_inv r s d xs" "region_ok va n" "unat sz \<le> n * 4096" "n * 4096 < unat sz + 4096" "n * 4096 < 2 ^ 32"
  shows "\<exists>t ys. boot_map_region d va sz pa perm s = Ret () t \<and> kmap_inv r t d ys \<and> suffix ys xs \<and> vm_frame s t \<and>
    (\<forall>va'. unat (PDX va') \<noteq> self_slot \<longrightarrow> vm_map t d va' =
       (if unat (PGNUM va) \<le> unat (PGNUM va') \<and> unat (PGNUM va') < unat (PGNUM va) + n
        then Some (region_pte pa perm va va') else vm_map s d va')) \<and>
    (\<forall>j. (\<forall>l < n. j \<noteq> (unat (PGNUM va) + l) div 1024) \<longrightarrow> mem t d j = mem s d j)"
  using region_effect [OF assms, of pa perm] by blast

definition region_state :: kstate where
  "region_state = chk [] [2..<80] (\<lambda>_. 0) ((\<lambda>_ _. 0)(1 := boot_dir 1)) [] ((blank_state 128 0)\<lparr>kern_pgdir := 1\<rparr>)"

theorem boot_map_region_correct_witness:
  "\<exists>t. boot_map_region 1 KERNBASE 0x1800 0 PTE_W region_state = Ret () t \<and>
     vm_map t 1 0xF0001234 = Some 0x1003 \<and> vm_map t 1 0xF0002000 = None"
proof -
  have dist: "distinct [2..<80 :: nat]" by (rule distinct_upt)
  have "free_list_ok region_state [2..<80]"
    unfolding region_state_def by (rule chk_free_list [OF dist]) (simp_all add: blank_state_def)
  moreover have k: "kern_pgdir region_state = 1" "npages region_state = 128" "mem region_state 1 = boot_dir 1"
    by (simp_all add: region_state_def blank_state_def)
  ultimately have "kmap_at 0 [2..<80] (kern_pgdir region_state) (\<lambda>_. None) {} region_state"
    by (intro kmap_start) simp_all
  then obtain xs where inv: "kmap_inv 0 region_state 1 xs" and none: "\<forall>va. unat (PDX va) \<noteq> self_slot \<longrightarrow> vm_map region_state 1 va = None"
    using k(1) by (auto simp: kmap_at_def)
  have ok: "region_ok KERNBASE 2" using fixed_regions(5) [of 0] by (auto simp: region_ok_def)
  obtain t where "boot_map_region 1 KERNBASE 0x1800 0 PTE_W region_state = Ret () t"
    "\<forall>va'. unat (PDX va') \<noteq> self_slot \<longrightarrow> vm_map t 1 va' =
       (if unat (PGNUM KERNBASE) \<le> unat (PGNUM va') \<and> unat (PGNUM va') < unat (PGNUM KERNBASE) + 2
        then Some (region_pte 0 PTE_W KERNBASE va') else vm_map region_state 1 va')"
    using boot_map_region_correct [OF inv ok, where sz = "0x1800" and pa = 0 and perm = PTE_W] by auto
  then show ?thesis
    using none by (intro exI [of _ t]) (simp add: unat_PDX unat_PGNUM self_slot_eq layout_defs region_pte_def PGNUM_def)
qed

end
