(* ===== verification/Alloc.thy ===== *)
theory Alloc
  imports Prelude
begin

text \<open>
  The kernel's test allocator (kern/alloc.c, kern/spinlock.c): first fit over a circular doubly
  linked list of free blocks. A pointer to a header is a number of headers: the static
  header base is 0 and the array space begins at 1 (the linker puts initialised data before the other), and
  p + n is the n-th header after p. The list loops take fuel: a walk visits a header at most twice before it
  is back where it began, and there are fewer than 2048.
\<close>

section \<open>Definitions\<close>

definition SPACE_SIZE :: nat where "SPACE_SIZE = 5 * 0x1000"
definition sizeof_Header :: nat where "sizeof_Header = 12"

record kheap =
  h_next :: "nat \<Rightarrow> nat"
  h_prev :: "nat \<Rightarrow> nat"
  h_size :: "nat \<Rightarrow> nat"
  freep :: "nat option"
  locked :: nat

abbreviation base :: nat where "base \<equiv> 0"
abbreviation space :: nat where "space \<equiv> 1"

text \<open>The initial values of the static variables; the lock is taken.\<close>

definition initial_heap :: kheap where
  "initial_heap = \<lparr>h_next = (\<lambda>_. 0)(base := space), h_prev = (\<lambda>_. 0)(base := space), h_size = (\<lambda>_. 0),
     freep = None, locked = 1\<rparr>"

text \<open>xchg(&lk->locked, 1) until it gives 0: on one processor a taken lock stays taken.\<close>

definition spin_lock :: "kheap \<Rightarrow> (unit, kheap) kres" where
  "spin_lock h = (if locked h \<noteq> 0 then Exit Spins h else Ret () (h\<lparr>locked := 1\<rparr>))"

definition spin_unlock :: "kheap \<Rightarrow> kheap" where
  "spin_unlock h = h\<lparr>locked := 0\<rparr>"

fun check_list_loop :: "nat \<Rightarrow> nat \<Rightarrow> nat \<Rightarrow> nat \<Rightarrow> kheap \<Rightarrow> (unit, kheap) kres" where
  "check_list_loop fuel fp prevp p h =
     (if p = fp then Ret () h
      else if fuel = 0 then Exit Spins h
      else if prevp \<noteq> h_prev h p then Exit (Panicked ''Corrupted list.'') h
      else check_list_loop (fuel - 1) fp p (h_next h p) h)"

declare check_list_loop.simps [simp del]

definition check_list :: "kheap \<Rightarrow> (unit, kheap) kres" where
  "check_list h =
     (case freep h of None \<Rightarrow> Exit Fault h | Some fp \<Rightarrow> check_list_loop 4096 fp fp (h_next h fp) h)"

definition units_for :: "8 word \<Rightarrow> nat" where
  "units_for nbytes = (unat nbytes + sizeof_Header - 1) div sizeof_Header + 1"

definition first_list :: "kheap \<Rightarrow> kheap" where
  "first_list h =
     (if freep h = None
      then h\<lparr>h_next := (h_next h)(space := base), h_prev := (h_prev h)(space := base),
             h_size := (h_size h)(space := (SPACE_SIZE - sizeof_Header) div sizeof_Header), freep := Some base\<rparr>
      else h)"

text \<open>The block p is big enough: it is unlinked, or its tail end is taken.\<close>

definition take_block :: "nat \<Rightarrow> nat \<Rightarrow> kheap \<Rightarrow> nat \<times> kheap" where
  "take_block n p h =
     (let h = h\<lparr>freep := Some (h_prev h p)\<rparr>
      in if h_size h p = n
         then (let h = h\<lparr>h_next := (h_next h)(h_prev h p := h_next h p)\<rparr>
               in (p, h\<lparr>h_prev := (h_prev h)(h_next h p := h_prev h p)\<rparr>))
         else (let h = h\<lparr>h_size := (h_size h)(p := h_size h p - n)\<rparr>;
                   q = p + h_size h p
               in (q, h\<lparr>h_size := (h_size h)(q := n)\<rparr>)))"

fun first_fit :: "nat \<Rightarrow> nat \<Rightarrow> nat \<Rightarrow> nat \<Rightarrow> kheap \<Rightarrow> (nat option, kheap) kres" where
  "first_fit fuel fp n p h =
     (if fuel = 0 then Exit Spins h
      else if h_size h p \<ge> n
      then (case take_block n p h of (q, h) \<Rightarrow> Ret (Some (q + 1)) (spin_unlock h))
      else if p = fp then Ret None (spin_unlock h)
      else first_fit (fuel - 1) fp n (h_next h p) h)"

declare first_fit.simps [simp del]

definition test_alloc :: "8 word \<Rightarrow> kheap \<Rightarrow> (nat option, kheap) kres" where
  "test_alloc nbytes h =
     kbind (spin_lock h) (\<lambda>_ h.
     let n = units_for nbytes; h = first_list h
     in kbind (check_list h) (\<lambda>_ h.
        case freep h of
          None \<Rightarrow> Exit Fault h
        | Some fp \<Rightarrow> first_fit 4096 fp n (h_next h fp) h))"

text \<open>The header after which bp belongs.\<close>

fun find_place :: "nat \<Rightarrow> nat \<Rightarrow> nat \<Rightarrow> kheap \<Rightarrow> (nat, kheap) kres" where
  "find_place fuel bp p h =
     (if p < bp \<and> bp < h_next h p then Ret p h
      else if fuel = 0 then Exit Spins h
      else if p \<ge> h_next h p \<and> (p < bp \<or> bp < h_next h p) then Ret p h
      else find_place (fuel - 1) bp (h_next h p) h)"

declare find_place.simps [simp del]

text \<open>
  When bp ends where the next block begins, bp takes over its size and links, but the neighbours are not
  told: the list still leads to the old header and bp is not in it.
\<close>

definition put_block :: "nat \<Rightarrow> nat \<Rightarrow> kheap \<Rightarrow> kheap" where
  "put_block bp p h =
     (let q = h_next h p
      in if bp + h_size h bp = q
         then h\<lparr>h_size := (h_size h)(bp := h_size h bp + h_size h q),
                h_next := (h_next h)(bp := h_next h q), h_prev := (h_prev h)(bp := h_prev h q)\<rparr>
         else if p + h_size h p = bp
         then h\<lparr>h_size := (h_size h)(p := h_size h p + h_size h bp)\<rparr>
         else (let h = h\<lparr>h_next := (h_next h)(bp := q), h_prev := (h_prev h)(bp := p)\<rparr>;
                   h = h\<lparr>h_prev := (h_prev h)(q := bp)\<rparr>
               in h\<lparr>h_next := (h_next h)(p := bp)\<rparr>))"

definition test_free :: "nat \<Rightarrow> kheap \<Rightarrow> (unit, kheap) kres" where
  "test_free ap h =
     kbind (spin_lock h) (\<lambda>_ h.
     let bp = ap - 1
     in case freep h of
          None \<Rightarrow> Exit Fault h
        | Some fp \<Rightarrow>
            kbind (find_place 4096 bp fp h) (\<lambda>p h.
              let h = (put_block bp p h)\<lparr>freep := Some p\<rparr>
              in kbind (check_list h) (\<lambda>_ h. Ret () (spin_unlock h))))"

section \<open>The lock\<close>

text \<open>
  The first call never returns: the lock is taken from the start.
\<close>

theorem test_alloc_spins: "test_alloc n initial_heap = Exit Spins initial_heap"
  by (simp add: test_alloc_def spin_lock_def initial_heap_def)

section \<open>The invariant\<close>

text \<open>y is the node after x, in address order, the last leading back to base.\<close>

definition is_next :: "nat set \<Rightarrow> nat \<Rightarrow> nat \<Rightarrow> bool" where
  "is_next N x y \<longleftrightarrow> y \<in> N \<and> (if \<exists>z \<in> N. x < z then x < y \<and> (\<forall>z \<in> N. x < z \<longrightarrow> y \<le> z) else y = 0)"

definition links :: "kheap \<Rightarrow> nat set \<Rightarrow> bool" where
  "links h N \<longleftrightarrow> (\<forall>x \<in> N. is_next N x (h_next h x) \<and> h_prev h (h_next h x) = x)"

text \<open>Blocks of the arena that do not overlap.\<close>

definition arranged :: "kheap \<Rightarrow> nat set \<Rightarrow> bool" where
  "arranged h A \<longleftrightarrow> (\<forall>x \<in> A. 1 \<le> x \<and> 0 < h_size h x \<and> x + h_size h x \<le> 1706) \<and>
     (\<forall>x \<in> A. \<forall>y \<in> A. x < y \<longrightarrow> x + h_size h x \<le> y)"

text \<open>N are the nodes of the free list with base, L the blocks that are handed out.\<close>

definition heap_inv :: "kheap \<Rightarrow> nat set \<Rightarrow> nat set \<Rightarrow> bool" where
  "heap_inv h N L \<longleftrightarrow> 0 \<in> N \<and> 0 \<notin> L \<and> N \<inter> L = {} \<and> arranged h ((N - {0}) \<union> L) \<and> h_size h 0 = 0 \<and>
     links h N \<and> (\<exists>fp. freep h = Some fp \<and> fp \<in> N)"

lemma heap_block:
  assumes "heap_inv h N L" "x \<in> N \<union> L" "x \<noteq> 0"
  shows "1 \<le> x" "0 < h_size h x" "x + h_size h x \<le> 1706"
    and "\<And>y. y \<in> N \<union> L \<Longrightarrow> x < y \<Longrightarrow> x + h_size h x \<le> y"
proof -
  have a: "arranged h ((N - {0}) \<union> L)" using assms(1) by (simp add: heap_inv_def)
  have x: "x \<in> (N - {0}) \<union> L" using assms(2,3) by blast
  show "1 \<le> x" "0 < h_size h x" "x + h_size h x \<le> 1706" using a x unfolding arranged_def by blast+
  show "x + h_size h x \<le> y" if "y \<in> N \<union> L" "x < y" for y
  proof -
    have "y \<in> (N - {0}) \<union> L" using that by auto
    then show ?thesis using a x that(2) unfolding arranged_def by blast
  qed
qed

lemma heap_bound: "heap_inv h N L \<Longrightarrow> x \<in> N \<Longrightarrow> x < 1706"
  using heap_block(2,3) [of h N L x] by (cases "x = 0") auto

lemma heap_finite: "heap_inv h N L \<Longrightarrow> finite N"
  using heap_bound by (intro finite_subset [of N "{..<1706}"]) auto

lemma heap_links:
  assumes "heap_inv h N L" "x \<in> N"
  shows "h_next h x \<in> N" "is_next N x (h_next h x)" "h_prev h (h_next h x) = x"
  using assms by (auto simp: heap_inv_def links_def is_next_def)

subsection \<open>Walks\<close>

abbreviation steps :: "kheap \<Rightarrow> nat \<Rightarrow> nat \<Rightarrow> nat" where
  "steps h i x \<equiv> ((h_next h) ^^ i) x"

lemma steps_in: "heap_inv h N L \<Longrightarrow> x \<in> N \<Longrightarrow> steps h i x \<in> N"
  by (induction i) (auto dest: heap_links(1))

lemma steps_Suc: "steps h (Suc i) x = steps h i (h_next h x)"
  by (simp add: funpow_swap1)

lemma steps_to_base:
  assumes "heap_inv h N L" "x \<in> N"
  shows "\<exists>i \<le> 1706 - x. 0 < i \<and> steps h i x = 0"
  using assms(2)
proof (induction "1706 - x" arbitrary: x rule: less_induct)
  case less
  note l = heap_links [OF assms(1) less.prems]
  have x: "x < 1706" by (rule heap_bound [OF assms(1) less.prems])
  show ?case
  proof (cases "\<exists>z \<in> N. x < z")
    case False
    then have "h_next h x = 0" using l(2) by (simp add: is_next_def)
    then show ?thesis using x by (intro exI [of _ 1]) simp
  next
    case True
    then have lt: "x < h_next h x" using l(2) by (simp add: is_next_def)
    then have "1706 - h_next h x < 1706 - x" using x by simp
    from less.hyps [OF this l(1)] obtain i where "i \<le> 1706 - h_next h x" "steps h i (h_next h x) = 0" by blast
    then show ?thesis using lt x by (intro exI [of _ "Suc i"]) (simp add: steps_Suc del: funpow.simps(2))
  qed
qed

lemma walk_from_base:
  assumes "heap_inv h N L" "y \<in> N"
  shows "\<exists>i \<le> y. steps h i 0 = y"
  using assms(2)
proof (induction y rule: less_induct)
  case (less y)
  show ?case
  proof (cases "y = 0")
    case False
    let ?z = "Max {z \<in> N. z < y}"
    have fin: "finite {z \<in> N. z < y}" using heap_finite [OF assms(1)] by simp
    have ne: "{z \<in> N. z < y} \<noteq> {}" using assms(1) False by (auto simp: heap_inv_def)
    have z: "?z \<in> N" "?z < y" using Max_in [OF fin ne] by auto
    have m: "w \<le> ?z" if "w \<in> N" "w < y" for w using Max_ge [OF fin] that by simp
    have "\<exists>w \<in> N. ?z < w" using less.prems z(2) by blast
    then have n: "?z < h_next h ?z" "\<forall>w \<in> N. ?z < w \<longrightarrow> h_next h ?z \<le> w"
      using heap_links(2) [OF assms(1) z(1)] by (simp_all add: is_next_def)
    have "h_next h ?z \<le> y" using n(2) less.prems z(2) by blast
    moreover have "\<not> h_next h ?z < y" using m [OF heap_links(1) [OF assms(1) z(1)]] n(1) by linarith
    ultimately have "h_next h ?z = y" by simp
    moreover obtain i where "i \<le> ?z" "steps h i 0 = ?z" using less.IH [OF z(2,1)] by blast
    ultimately show ?thesis using z(2) by (intro exI [of _ "Suc i"]) simp
  qed (auto intro: exI [of _ 0])
qed

lemma walk_reaches:
  assumes "heap_inv h N L" "x \<in> N" "y \<in> N"
  shows "\<exists>i < 4096. steps h i x = y"
proof -
  obtain i where i: "i \<le> 1706 - x" "steps h i x = 0" using steps_to_base [OF assms(1,2)] by blast
  obtain j where j: "j \<le> y" "steps h j 0 = y" using walk_from_base [OF assms(1,3)] by blast
  have "steps h (j + i) x = y" using i(2) j(2) by (simp add: funpow_add)
  moreover have "j + i < 4096" using i(1) j(1) heap_bound [OF assms(1,3)] by simp
  ultimately show ?thesis by blast
qed

subsection \<open>The loops\<close>

lemma check_list_loop_ok:
  assumes "heap_inv h N L" "q \<in> N" "steps h i q = fp" "i < fuel" "prevp = h_prev h q"
  shows "check_list_loop fuel fp prevp q h = Ret () h"
  using assms(2-5)
proof (induction i arbitrary: fuel prevp q)
  case 0
  then show ?case by (subst check_list_loop.simps) simp
next
  case (Suc i)
  note l = heap_links [OF assms(1) Suc.prems(1)]
  show ?case
  proof (cases "q = fp")
    case False
    have "check_list_loop (fuel - 1) fp q (h_next h q) h = Ret () h"
      by (rule Suc.IH [OF l(1)]) (use Suc.prems l(3) in \<open>simp_all add: steps_Suc del: funpow.simps\<close>)
    then show ?thesis using False Suc.prems by (subst check_list_loop.simps) simp
  qed (simp add: check_list_loop.simps)
qed

lemma check_list_ok:
  assumes "heap_inv h N L"
  shows "check_list h = Ret () h"
proof -
  obtain fp where fp: "freep h = Some fp" "fp \<in> N" using assms by (auto simp: heap_inv_def)
  note l = heap_links [OF assms fp(2)]
  obtain i where "i < 4096" "steps h i (h_next h fp) = fp" using walk_reaches [OF assms l(1) fp(2)] by blast
  then show ?thesis
    using check_list_loop_ok [OF assms l(1), of i fp 4096 fp] l(3) fp(1) by (simp add: check_list_def)
qed

lemma first_fit_cases:
  assumes "heap_inv h N L" "q \<in> N" "steps h i q = fp" "i < fuel"
  shows "(\<exists>x \<in> N. n \<le> h_size h x \<and> first_fit fuel fp n q h = (case take_block n x h of (q, h) \<Rightarrow> Ret (Some (q + 1)) (spin_unlock h))) \<or>
    (\<exists>k. steps h k q = fp \<and> (\<forall>j \<le> k. h_size h (steps h j q) < n) \<and> first_fit fuel fp n q h = Ret None (spin_unlock h))"
  using assms(2-4)
proof (induction i arbitrary: fuel q)
  case 0
  show ?case
  proof (cases "n \<le> h_size h q")
    case True
    then show ?thesis using 0 by (subst (1) first_fit.simps) auto
  next
    case False
    then show ?thesis using 0 by (subst (2) first_fit.simps) (auto intro: exI [of _ 0])
  qed
next
  case (Suc i)
  note l = heap_links [OF assms(1) Suc.prems(1)]
  have f: "fuel \<noteq> 0" "i < fuel - 1" using Suc.prems(3) by simp_all
  show ?case
  proof (cases "n \<le> h_size h q")
    case True
    then show ?thesis using f Suc.prems(1) by (subst (1) first_fit.simps) auto
  next
    case small: False
    show ?thesis
    proof (cases "q = fp")
      case True
      then show ?thesis using f small by (subst (2) first_fit.simps) (auto intro: exI [of _ 0])
    next
      case False
      have w: "steps h i (h_next h q) = fp" using Suc.prems(2) by (simp only: steps_Suc)
      have e: "first_fit fuel fp n q h = first_fit (fuel - 1) fp n (h_next h q) h"
        using f small False by (subst first_fit.simps) simp
      from Suc.IH [OF l(1) w f(2)] show ?thesis
      proof (elim disjE exE conjE)
        fix k
        assume k: "steps h k (h_next h q) = fp" "\<forall>j \<le> k. h_size h (steps h j (h_next h q)) < n"
          "first_fit (fuel - 1) fp n (h_next h q) h = Ret None (spin_unlock h)"
        have "h_size h (steps h j q) < n" if "j \<le> Suc k" for j
          using k(2) small that by (cases j) (simp_all add: steps_Suc del: funpow.simps(2))
        then show ?thesis using k(1,3) e by (intro disjI2 exI [of _ "Suc k"]) (simp add: steps_Suc del: funpow.simps(2))
      qed (use e in simp)
    qed
  qed
qed

section \<open>test_alloc\<close>

lemma walk_cycle:
  assumes "heap_inv h N L" "fp \<in> N" "steps h k (h_next h fp) = fp" "y \<in> N"
  shows "\<exists>j \<le> k. steps h j (h_next h fp) = y"
proof -
  obtain i where i: "steps h i fp = y" using walk_reaches [OF assms(1,2,4)] by blast
  have c: "steps h (Suc k) fp = fp" using assms(3) by (simp only: steps_Suc)
  have y: "steps h (i mod Suc k) fp = y" using funpow_mod_eq [OF c, of i] i by simp
  have lt: "i mod Suc k < Suc k" by simp
  show ?thesis
  proof (cases "i mod Suc k")
    case 0
    then show ?thesis using y assms(3) by (intro exI [of _ k]) simp
  next
    case (Suc j)
    then show ?thesis using y lt by (intro exI [of _ j]) (simp add: steps_Suc del: funpow.simps(2))
  qed
qed

text \<open>Removing a node that is not base.\<close>

lemma links_remove:
  assumes inv: "heap_inv h N L" and p: "p \<in> N" "p \<noteq> 0"
  shows "links (h\<lparr>h_next := (h_next h)(h_prev h p := h_next h p), h_prev := (h_prev h)(h_next h p := h_prev h p)\<rparr>) (N - {p})"
    and "h_prev h p \<in> N" "h_prev h p \<noteq> p"
proof -
  obtain i where "steps h i 0 = p" using walk_from_base [OF inv p(1)] by blast
  with p(2) obtain j where "steps h (Suc j) 0 = p" by (cases i) auto
  then have "h_next h (steps h j 0) = p" by simp
  moreover have w: "steps h j 0 \<in> N" using steps_in [OF inv] inv by (simp add: heap_inv_def)
  ultimately obtain q where q: "q \<in> N" "h_next h q = p" by blast
  then have pr: "h_prev h p = q" using heap_links(3) [OF inv q(1)] by simp
  have nq: "is_next N q p" using heap_links(2) [OF inv q(1)] q(2) by simp
  then have ltq: "q < p" "\<forall>z \<in> N. q < z \<longrightarrow> p \<le> z" using p(2) by (auto simp: is_next_def split: if_splits)
  show "h_prev h p \<in> N" "h_prev h p \<noteq> p" using pr q(1) ltq(1) by simp_all
  note np = heap_links [OF inv p(1)]
  have "is_next (N - {p}) x (if x = q then h_next h p else h_next h x) \<and>
     (if (if x = q then h_next h p else h_next h x) = h_next h p then q else h_prev h (if x = q then h_next h p else h_next h x)) = x"
    if x: "x \<in> N" "x \<noteq> p" for x
  proof (cases "x = q")
    case True
    have ne: "h_next h p \<noteq> p" using np(2) p(2) by (auto simp: is_next_def split: if_splits)
    have "is_next (N - {p}) q (h_next h p)"
    proof (cases "\<exists>z \<in> N. p < z")
      case t: True
      then have n: "p < h_next h p" "\<forall>z \<in> N. p < z \<longrightarrow> h_next h p \<le> z" using np(2) by (simp_all add: is_next_def)
      then have "\<exists>z \<in> N - {p}. q < z" using t ltq(1) by (auto intro: less_trans)
      moreover have "\<forall>z \<in> N - {p}. q < z \<longrightarrow> h_next h p \<le> z" using n(2) ltq(2) le_neq_implies_less by blast
      ultimately show ?thesis using n(1) ltq(1) np(1) ne by (simp add: is_next_def)
    next
      case f: False
      then have "h_next h p = 0" using np(2) by (simp add: is_next_def)
      moreover have "\<not> (\<exists>z \<in> N - {p}. q < z)" using f ltq(2) le_neq_implies_less by blast
      ultimately show ?thesis using inv p(2) by (simp add: is_next_def heap_inv_def)
    qed
    then show ?thesis using True by simp
  next
    case False
    note nx = heap_links [OF inv x(1)]
    have np': "h_next h x \<noteq> p" using nx(3) pr False by auto
    have ne: "h_next h x \<noteq> h_next h p" using nx(3) np(3) x(2) by auto
    have "is_next (N - {p}) x (h_next h x)"
    proof (cases "\<exists>z \<in> N. x < z")
      case True
      then have n: "x < h_next h x" "\<forall>z \<in> N. x < z \<longrightarrow> h_next h x \<le> z" using nx(2) by (simp_all add: is_next_def)
      then have "\<exists>z \<in> N - {p}. x < z" using nx(1) np' by blast
      then show ?thesis using n nx(1) np' by (simp add: is_next_def)
    next
      case f: False
      then show ?thesis using nx(2) p(2) inv by (auto simp: is_next_def heap_inv_def)
    qed
    then show ?thesis using False ne nx(3) by simp
  qed
  then show "links (h\<lparr>h_next := (h_next h)(h_prev h p := h_next h p), h_prev := (h_prev h)(h_next h p := h_prev h p)\<rparr>) (N - {p})"
    unfolding links_def pr by simp
qed

lemma links_cong: "h_next h = h_next h' \<Longrightarrow> h_prev h = h_prev h' \<Longrightarrow> links h N \<longleftrightarrow> links h' N"
  by (simp add: links_def)

lemma arranged_cong: "h_size h = h_size h' \<Longrightarrow> arranged h A \<longleftrightarrow> arranged h' A"
  by (simp add: arranged_def)

lemma take_block_effect:
  assumes inv: "heap_inv h N L" and x: "x \<in> N" and n: "0 < n" "n \<le> h_size h x"
  shows "\<exists>q h' N'. take_block n x h = (q, h') \<and> heap_inv h' N' (insert q L) \<and> q \<notin> L \<and> h_size h' q = n \<and>
    x \<le> q \<and> q + n \<le> x + h_size h x \<and> (\<forall>y \<in> L. h_size h' y = h_size h y) \<and> locked h' = locked h"
proof -
  have x0: "x \<noteq> 0" using inv n by (auto simp: heap_inv_def)
  note r = links_remove [OF inv x x0] and b = heap_block [OF inv _ x0]
  have N0: "0 \<in> N" "0 \<notin> L" "N \<inter> L = {}" "arranged h ((N - {0}) \<union> L)" "h_size h 0 = 0" "links h N"
    using inv by (simp_all add: heap_inv_def)
  show ?thesis
  proof (cases "n = h_size h x")
    case True
    let ?h = "h\<lparr>freep := Some (h_prev h x), h_next := (h_next h)(h_prev h x := h_next h x),
        h_prev := (h_prev h)(h_next h x := h_prev h x)\<rparr>"
    have nx: "h_prev h x \<noteq> x" by (rule r(3))
    have run: "take_block n x h = (x, ?h)"
      using True nx by (simp add: take_block_def Let_def)
    have "links ?h (N - {x})" using r(1) by (rule links_cong [THEN iffD1, rotated 2]) simp_all
    moreover have "(N - {x} - {0}) \<union> insert x L = (N - {0}) \<union> L" using x x0 by blast
    moreover have "arranged ?h ((N - {0}) \<union> L)" using N0(4) by (rule arranged_cong [THEN iffD1, rotated]) simp
    ultimately have "heap_inv ?h (N - {x}) (insert x L)"
      using N0 x0 r(2,3) by (auto simp: heap_inv_def)
    then show ?thesis
      using run True x N0(3) by (intro exI [of _ x] exI [of _ ?h] exI [of _ "N - {x}"]) auto
  next
    case False
    let ?m = "h_size h x - n" and ?q = "x + (h_size h x - n)"
    let ?h = "h\<lparr>freep := Some (h_prev h x), h_size := (h_size h)(x := ?m, ?q := n)\<rparr>"
    have m: "0 < ?m" using False n by simp
    have run: "take_block n x h = (?q, ?h)" using False by (simp add: take_block_def Let_def)
    have qs: "x < ?q" "?q + n = x + h_size h x" using m n by simp_all
    have nq: "?q \<noteq> y" if "y \<in> N \<union> L" for y
    proof
      assume e: "?q = y"
      then have "x + h_size h x \<le> y" using b(4) [OF _ that] x qs(1) by simp
      then show False using e n by simp
    qed
    have sz: "h_size ?h y = (if y = x then ?m else h_size h y)" if "y \<in> N \<union> L" for y
      using nq [OF that] by simp
    have old: "1 \<le> y \<and> 0 < h_size h y \<and> y + h_size h y \<le> 1706" if "y \<in> (N - {0}) \<union> L" for y
      using N0(4) that unfolding arranged_def by blast
    have apart: "y + h_size h y \<le> z" if "y \<in> (N - {0}) \<union> L" "z \<in> (N - {0}) \<union> L" "y < z" for y z
      using N0(4) that unfolding arranged_def by blast
    have xin: "x \<in> (N - {0}) \<union> L" using x x0 by blast
    have "arranged ?h (insert ?q ((N - {0}) \<union> L))"
      unfolding arranged_def
    proof (intro conjI ballI impI)
      fix y assume y: "y \<in> insert ?q ((N - {0}) \<union> L)"
      have "1 \<le> y \<and> 0 < h_size ?h y \<and> y + h_size ?h y \<le> 1706"
      proof (cases "y = ?q")
        case True
        then show ?thesis using old [OF xin] n qs by simp
      next
        case False
        then have yo: "y \<in> (N - {0}) \<union> L" using y by blast
        then have "h_size ?h y = (if y = x then ?m else h_size h y)" by (intro sz) blast
        then show ?thesis using old [OF yo] m by auto
      qed
      then show "1 \<le> y" "0 < h_size ?h y" "y + h_size ?h y \<le> 1706" by blast+
      fix z assume z: "z \<in> insert ?q ((N - {0}) \<union> L)" "y < z"
      show "y + h_size ?h y \<le> z"
      proof (cases "y = ?q")
        case True
        then have "z \<in> (N - {0}) \<union> L" using z by auto
        then have "x + h_size h x \<le> z" using apart [OF xin] True z(2) qs(1) by simp
        then show ?thesis using True qs(2) by simp
      next
        case yq: False
        then have yo: "y \<in> (N - {0}) \<union> L" using y by blast
        show ?thesis
        proof (cases "z = ?q")
          case True
          have "y + h_size h y \<le> x" if "y \<noteq> x"
          proof -
            have "\<not> x < y" using apart [OF xin yo] z(2) True n by auto
            then show ?thesis using apart [OF yo xin] that by simp
          qed
          moreover have e: "h_size ?h y = (if y = x then ?m else h_size h y)" using yo by (intro sz) blast
          ultimately show ?thesis unfolding e True by (cases "y = x") auto
        next
          case False
          then have "y + h_size h y \<le> z" using apart [OF yo] z by blast
          moreover have e: "h_size ?h y = (if y = x then ?m else h_size h y)" using yo by (intro sz) blast
          have "h_size ?h y \<le> h_size h y" unfolding e by simp
          ultimately show ?thesis by linarith
        qed
      qed
    qed
    moreover have "(N - {0}) \<union> insert ?q L = insert ?q ((N - {0}) \<union> L)" by blast
    moreover have "links ?h N" using N0(6) by (simp add: links_def)
    moreover have "h_size ?h 0 = 0" using N0(5) x0 qs by simp
    ultimately have "heap_inv ?h N (insert ?q L)"
      using N0(1-3) r(2) nq qs by (auto simp: heap_inv_def)
    moreover have "\<forall>y \<in> L. h_size ?h y = h_size h y" using sz x N0(3) by auto
    moreover have "?q \<notin> L" using nq by blast
    ultimately show ?thesis
      using run qs by (intro exI [of _ ?q] exI [of _ ?h] exI [of _ N]) auto
  qed
qed

lemma heap_inv_flags [simp]: "heap_inv (h\<lparr>locked := k\<rparr>) N L \<longleftrightarrow> heap_inv h N L"
  by (simp add: heap_inv_def arranged_def links_def)

lemma units_for_pos: "0 < units_for nb"
  by (simp add: units_for_def)

lemma test_alloc_effect:
  assumes inv: "heap_inv h N L" and lk: "locked h = 0"
  shows "\<exists>r h' N'. test_alloc nb h = Ret r h' \<and> locked h' = 0 \<and>
    (case r of
       None \<Rightarrow> heap_inv h' N L \<and> (\<forall>x \<in> N. h_size h x < units_for nb)
     | Some a \<Rightarrow> heap_inv h' N' (insert (a - 1) L) \<and> 0 < a \<and> a - 1 \<notin> L \<and> h_size h' (a - 1) = units_for nb \<and>
         (\<exists>x \<in> N. x \<le> a - 1 \<and> a - 1 + units_for nb \<le> x + h_size h x) \<and> (\<forall>y \<in> L. h_size h' y = h_size h y))"
proof -
  let ?h = "h\<lparr>locked := 1\<rparr>" and ?n = "units_for nb"
  have inv': "heap_inv ?h N L" using inv by simp
  obtain fp where fp: "freep h = Some fp" "fp \<in> N" using inv by (auto simp: heap_inv_def)
  have l: "h_next ?h fp \<in> N" using heap_links(1) [OF inv' fp(2)] .
  obtain i where i: "i < 4096" "steps ?h i (h_next ?h fp) = fp" using walk_reaches [OF inv' l fp(2)] by blast
  have run: "test_alloc nb h = first_fit 4096 fp ?n (h_next ?h fp) ?h"
    using lk fp check_list_ok [OF inv'] by (simp add: test_alloc_def spin_lock_def first_list_def)
  from first_fit_cases [OF inv' l i(2,1), of ?n] show ?thesis
  proof (elim disjE bexE exE conjE)
    fix x assume x: "x \<in> N" "?n \<le> h_size ?h x"
      "first_fit 4096 fp ?n (h_next ?h fp) ?h = (case take_block ?n x ?h of (q, h) \<Rightarrow> Ret (Some (q + 1)) (spin_unlock h))"
    obtain q h' N' where "take_block ?n x ?h = (q, h')" "heap_inv h' N' (insert q L)" "q \<notin> L" "h_size h' q = ?n"
       "x \<le> q" "q + ?n \<le> x + h_size ?h x" "\<forall>y \<in> L. h_size h' y = h_size ?h y"
      using take_block_effect [OF inv' x(1) units_for_pos x(2)] by blast
    then show ?thesis using run x(1,3)
      by (intro exI [of _ "Some (q + 1)"] exI [of _ "spin_unlock h'"] exI [of _ N']) (auto simp: spin_unlock_def)
  next
    fix k assume k: "steps ?h k (h_next ?h fp) = fp" "\<forall>j \<le> k. h_size ?h (steps ?h j (h_next ?h fp)) < ?n"
      "first_fit 4096 fp ?n (h_next ?h fp) ?h = Ret None (spin_unlock ?h)"
    have "h_size h y < ?n" if y: "y \<in> N" for y
    proof -
      obtain j where "j \<le> k" "steps ?h j (h_next ?h fp) = y" using walk_cycle [OF inv' fp(2) k(1) y] by blast
      then show ?thesis using k(2) by auto
    qed
    then show ?thesis using run k(3) inv
      by (intro exI [of _ None] exI [of _ "spin_unlock ?h"] exI [of _ N]) (auto simp: spin_unlock_def)
  qed
qed

section \<open>test_free\<close>

text \<open>The node before a block that is not in the list.\<close>

lemma place_of:
  assumes inv: "heap_inv h N L" and b: "bp \<in> L"
  obtains p where "p \<in> N" "p < bp" "\<forall>z \<in> N. z \<le> p \<or> bp < z"
proof -
  let ?P = "{z \<in> N. z < bp}"
  have n: "bp \<noteq> 0" "bp \<notin> N" using inv b by (auto simp: heap_inv_def)
  have fin: "finite ?P" using heap_finite [OF inv] by simp
  have ne: "?P \<noteq> {}" using inv n by (auto simp: heap_inv_def)
  have "Max ?P \<in> ?P" by (rule Max_in [OF fin ne])
  moreover have "z \<le> Max ?P \<or> bp < z" if "z \<in> N" for z
  proof (cases "z < bp")
    case True
    then show ?thesis using Max_ge [OF fin, of z] that by simp
  next
    case False
    then show ?thesis using n(2) that by (cases "z = bp") auto
  qed
  ultimately show ?thesis using that [of "Max ?P"] by blast
qed

lemma place_next:
  assumes inv: "heap_inv h N L" and p: "p \<in> N" "p < bp" "\<forall>z \<in> N. z \<le> p \<or> bp < z"
  shows "(\<exists>z \<in> N. p < z) \<and> bp < h_next h p \<and> (\<forall>z \<in> N. p < z \<longrightarrow> h_next h p \<le> z) \<or> \<not> (\<exists>z \<in> N. p < z) \<and> h_next h p = 0"
proof (cases "\<exists>z \<in> N. p < z")
  case True
  then have "p < h_next h p" "\<forall>z \<in> N. p < z \<longrightarrow> h_next h p \<le> z"
    using heap_links(2) [OF inv p(1)] by (simp_all add: is_next_def)
  then show ?thesis using True p(3) heap_links(1) [OF inv p(1)] leD by blast
next
  case False
  then show ?thesis using heap_links(2) [OF inv p(1)] by (simp add: is_next_def)
qed

lemma place_found:
  assumes inv: "heap_inv h N L" and p: "p \<in> N" "p < bp" "\<forall>z \<in> N. z \<le> p \<or> bp < z" and x: "x \<in> N"
  shows "(x < bp \<and> bp < h_next h x) \<or> (x \<ge> h_next h x \<and> (x < bp \<or> bp < h_next h x)) \<longleftrightarrow> x = p"
proof
  assume c: "(x < bp \<and> bp < h_next h x) \<or> (x \<ge> h_next h x \<and> (x < bp \<or> bp < h_next h x))"
  show "x = p"
  proof (cases "\<exists>z \<in> N. x < z")
    case True
    then have n: "x < h_next h x" "\<forall>z \<in> N. x < z \<longrightarrow> h_next h x \<le> z"
      using heap_links(2) [OF inv x] by (simp_all add: is_next_def)
    then have b: "x < bp" "bp < h_next h x" using c by auto
    have "x \<le> p" using p(3) x b(1) by (metis less_asym)
    moreover have "p \<le> x" using n(2) p(1,2) b(2) by (metis leI less_le_trans not_less_iff_gr_or_eq)
    ultimately show ?thesis by simp
  next
    case False
    then have "h_next h x = 0" using heap_links(2) [OF inv x] by (simp add: is_next_def)
    then have "x < bp" using c by auto
    then have "x \<le> p" using p(3) x by (metis less_asym)
    moreover have "p \<le> x" using False p(1) leI by blast
    ultimately show ?thesis by simp
  qed
next
  assume "x = p"
  then show "(x < bp \<and> bp < h_next h x) \<or> (x \<ge> h_next h x \<and> (x < bp \<or> bp < h_next h x))"
    using place_next [OF inv p] p(2) by auto
qed

lemma find_place_loop:
  assumes inv: "heap_inv h N L" and p: "p \<in> N" "p < bp" "\<forall>z \<in> N. z \<le> p \<or> bp < z"
    and x: "x \<in> N" "steps h i x = p" "i < fuel"
  shows "find_place fuel bp x h = Ret p h"
  using x
proof (induction i arbitrary: x fuel)
  case 0
  then show ?case using place_found [OF inv p p(1)] by (subst find_place.simps) auto
next
  case (Suc i)
  show ?case
  proof (cases "x = p")
    case True
    then show ?thesis using place_found [OF inv p p(1)] Suc.prems(3) by (subst find_place.simps) auto
  next
    case False
    have w: "steps h i (h_next h x) = p" using Suc.prems(2) by (simp only: steps_Suc)
    have "find_place (fuel - 1) bp (h_next h x) h = Ret p h"
      using Suc.IH [OF heap_links(1) [OF inv Suc.prems(1)] w, of "fuel - 1"] Suc.prems(3) by simp
    then show ?thesis using place_found [OF inv p Suc.prems(1)] False Suc.prems(3) by (subst find_place.simps) auto
  qed
qed

text \<open>The bytes of the arena that are free, in headers.\<close>

definition free_units :: "kheap \<Rightarrow> nat set \<Rightarrow> nat set" where
  "free_units h N = (\<Union>x \<in> N. {x..<x + h_size h x})"

lemma free_units_cong: "(\<And>x. x \<in> N \<Longrightarrow> h_size h' x = h_size h x) \<Longrightarrow> free_units h' N = free_units h N"
  by (simp add: free_units_def)

lemma links_insert:
  assumes inv: "heap_inv h N L" and b: "bp \<in> L" and p: "p \<in> N" "p < bp" "\<forall>z \<in> N. z \<le> p \<or> bp < z"
  defines "q \<equiv> h_next h p"
  shows "links (h\<lparr>h_next := (h_next h)(bp := q, p := bp), h_prev := (h_prev h)(bp := p, q := bp)\<rparr>) (insert bp N)"
proof -
  have nb: "bp \<notin> N" "bp \<noteq> 0" using inv b by (auto simp: heap_inv_def)
  note np = heap_links [OF inv p(1)]
  note pn = place_next [OF inv p, folded q_def]
  have q: "q \<in> N" "h_prev h q = p" using np q_def by simp_all
  have qb: "q \<noteq> bp" "p \<noteq> bp" using q(1) nb(1) p(1) by auto
  have b1: "is_next (insert bp N) bp q"
  proof (cases "\<exists>z \<in> N. p < z")
    case True
    then show ?thesis using pn p(2,3) q(1) by (auto simp: is_next_def dest: leD)
  next
    case False
    then show ?thesis using pn p(2) q(1) by (auto simp: is_next_def)
  qed
  have p1: "is_next (insert bp N) p bp" using p(2,3) by (auto simp: is_next_def)
  have x1: "is_next (insert bp N) x (h_next h x)" "h_next h x \<noteq> q" "h_next h x \<noteq> bp" if x: "x \<in> N" "x \<noteq> p" for x
  proof -
    note nx = heap_links [OF inv x(1)]
    show "h_next h x \<noteq> q" "h_next h x \<noteq> bp" using nx q(2) x(2) nb(1) by auto
    show "is_next (insert bp N) x (h_next h x)"
    proof (cases "\<exists>z \<in> N. x < z")
      case True
      then have n: "x < h_next h x" "\<forall>z \<in> N. x < z \<longrightarrow> h_next h x \<le> z" using nx(2) by (simp_all add: is_next_def)
      have "h_next h x \<le> bp" if "x < bp"
      proof -
        have "x < p" using p(3) x that by (metis le_neq_implies_less less_asym)
        then have "h_next h x \<le> p" using n(2) p(1) by blast
        then show ?thesis using p(2) by simp
      qed
      then show ?thesis using n nx(1) True by (auto simp: is_next_def)
    next
      case False
      then have "p \<le> x" using p(1) leI by blast
      then have "bp < x" using p(3) x by (metis le_antisym)
      then show ?thesis using False nx(2) by (auto simp: is_next_def)
    qed
  qed
  show ?thesis
    unfolding links_def
  proof
    fix x assume "x \<in> insert bp N"
    then consider "x = bp" | "x = p" "x \<noteq> bp" | "x \<in> N" "x \<noteq> p" "x \<noteq> bp" by blast
    then show "is_next (insert bp N) x (h_next (h\<lparr>h_next := (h_next h)(bp := q, p := bp), h_prev := (h_prev h)(bp := p, q := bp)\<rparr>) x) \<and>
      h_prev (h\<lparr>h_next := (h_next h)(bp := q, p := bp), h_prev := (h_prev h)(bp := p, q := bp)\<rparr>)
        (h_next (h\<lparr>h_next := (h_next h)(bp := q, p := bp), h_prev := (h_prev h)(bp := p, q := bp)\<rparr>) x) = x"
      by cases (use b1 p1 qb x1 heap_links(3) [OF inv] in \<open>auto\<close>)
  qed
qed

lemma arranged_subset: "arranged h A \<Longrightarrow> B \<subseteq> A \<Longrightarrow> (\<And>x. x \<in> B \<Longrightarrow> h_size h' x = h_size h x) \<Longrightarrow> arranged h' B"
  unfolding arranged_def by (metis subset_iff)

lemma put_block_effect:
  assumes inv: "heap_inv h N L" and b: "bp \<in> L" and p: "p \<in> N" "p < bp" "\<forall>z \<in> N. z \<le> p \<or> bp < z"
  shows "\<exists>N'. heap_inv ((put_block bp p h)\<lparr>freep := Some p\<rparr>) N' (L - {bp}) \<and> (\<forall>y \<in> L - {bp}. h_size (put_block bp p h) y = h_size h y) \<and>
    locked (put_block bp p h) = locked h \<and>
    free_units (put_block bp p h) N' = (if bp + h_size h bp \<in> N then free_units h N else free_units h N \<union> {bp..<bp + h_size h bp})"
proof -
  have N0: "0 \<in> N" "0 \<notin> L" "N \<inter> L = {}" "arranged h ((N - {0}) \<union> L)" "h_size h 0 = 0" "links h N"
    using inv by (simp_all add: heap_inv_def)
  have nb: "bp \<notin> N" "bp \<noteq> 0" using N0(2,3) b by auto
  note bb = heap_block [OF inv _ nb(2)] and pn = place_next [OF inv p] and np = heap_links [OF inv p(1)]
  let ?q = "h_next h p"
  have up: "bp + h_size h bp \<in> N \<longleftrightarrow> bp + h_size h bp = ?q"
  proof
    assume e: "bp + h_size h bp \<in> N"
    then have "\<exists>z \<in> N. p < z" using p(2) by (meson trans_less_add1)
    then have "bp < ?q" "?q \<le> bp + h_size h bp" using pn e p(2) by auto
    moreover have "bp + h_size h bp \<le> ?q" using bb(4) [of ?q] b np(1) \<open>bp < ?q\<close> by blast
    ultimately show "bp + h_size h bp = ?q" by simp
  qed (use np(1) in simp)
  show ?thesis
  proof (cases "bp + h_size h bp = ?q")
    case True
    let ?h = "put_block bp p h"
    have e: "?h = h\<lparr>h_size := (h_size h)(bp := h_size h bp + h_size h ?q), h_next := (h_next h)(bp := h_next h ?q), h_prev := (h_prev h)(bp := h_prev h ?q)\<rparr>"
      using True by (simp add: put_block_def Let_def)
    have "h_next h x \<noteq> bp" if "x \<in> N" for x using heap_links(1) [OF inv that] nb(1) by auto
    then have "links (?h\<lparr>freep := Some p\<rparr>) N" using N0(6) nb(1) unfolding links_def e by auto
    moreover have "arranged (?h\<lparr>freep := Some p\<rparr>) ((N - {0}) \<union> (L - {bp}))"
      by (rule arranged_subset [OF N0(4)]) (use nb e in auto)
    ultimately have "heap_inv (?h\<lparr>freep := Some p\<rparr>) N (L - {bp})"
      using N0 p(1) nb(2) e by (auto simp: heap_inv_def)
    moreover have "free_units ?h N = free_units h N" by (rule free_units_cong) (use nb(1) e in auto)
    ultimately show ?thesis using True up e by (intro exI [of _ N]) auto
  next
    case up': False
    show ?thesis
    proof (cases "p + h_size h p = bp")
      case True
      let ?h = "put_block bp p h"
      have p0: "p \<noteq> 0" using True N0(5) nb(2) by (metis add.right_neutral)
      have e: "?h = h\<lparr>h_size := (h_size h)(p := h_size h p + h_size h bp)\<rparr>"
        using True up' by (simp add: put_block_def Let_def)
      note pb = heap_block [OF inv _ p0]
      have pin: "p \<in> N \<union> L" "bp \<in> N \<union> L" using p(1) b by blast+
      have "arranged (?h\<lparr>freep := Some p\<rparr>) ((N - {0}) \<union> (L - {bp}))"
        unfolding arranged_def
      proof (intro conjI ballI impI)
        fix y assume y: "y \<in> (N - {0}) \<union> (L - {bp})"
        have yo: "y \<in> N \<union> L" "y \<noteq> 0" "y \<noteq> bp" using y N0(2) nb(1) by (cases "y = 0"; auto)+
        note yb = heap_block [OF inv yo(1,2)]
        have "1 \<le> y \<and> 0 < h_size ?h y \<and> y + h_size ?h y \<le> 1706"
          using yb(1-3) bb(3) [OF pin(2)] True by (cases "y = p") (simp_all add: e)
        then show "1 \<le> y" "0 < h_size (?h\<lparr>freep := Some p\<rparr>) y" "y + h_size (?h\<lparr>freep := Some p\<rparr>) y \<le> 1706" by simp_all
        fix z assume z: "z \<in> (N - {0}) \<union> (L - {bp})" "y < z"
        have zo: "z \<in> N \<union> L" "z \<noteq> bp" using z nb(1) by auto
        show "y + h_size (?h\<lparr>freep := Some p\<rparr>) y \<le> z"
        proof (cases "y = p")
          case yp: True
          have "bp \<le> z" using pb(4) [OF pin(1) zo(1)] z(2) True yp by simp
          then have "bp + h_size h bp \<le> z" using bb(4) [OF pin(2) zo(1)] zo(2) by simp
          then show ?thesis using yp True by (simp add: e)
        next
          case False
          then show ?thesis using yb(4) [OF zo(1) z(2)] by (simp add: e)
        qed
      qed
      moreover have "links (?h\<lparr>freep := Some p\<rparr>) N" using N0(6) by (simp add: e links_def)
      ultimately have "heap_inv (?h\<lparr>freep := Some p\<rparr>) N (L - {bp})"
        using N0 p(1) p0 e by (auto simp: heap_inv_def)
      moreover have "free_units ?h N = free_units h N \<union> {bp..<bp + h_size h bp}"
      proof -
        have "free_units ?h N = (\<Union>x \<in> N - {p}. {x..<x + h_size h x}) \<union> {p..<p + (h_size h p + h_size h bp)}"
          using p(1) by (auto simp: free_units_def e split: if_splits)
        moreover have "free_units h N = (\<Union>x \<in> N - {p}. {x..<x + h_size h x}) \<union> {p..<p + h_size h p}"
          using p(1) by (auto simp: free_units_def)
        moreover have "{p..<p + (h_size h p + h_size h bp)} = {p..<p + h_size h p} \<union> {bp..<bp + h_size h bp}"
          using True by auto
        ultimately show ?thesis by (simp add: Un_assoc)
      qed
      moreover have "\<forall>y \<in> L - {bp}. h_size ?h y = h_size h y" using N0(3) p(1) by (auto simp: e)
      ultimately show ?thesis using up up' by (intro exI [of _ N]) (simp add: e)
    next
      case False
      let ?h = "put_block bp p h"
      have e: "?h = h\<lparr>h_next := (h_next h)(bp := ?q, p := bp), h_prev := (h_prev h)(bp := p, ?q := bp)\<rparr>"
        using False up' by (simp add: put_block_def Let_def)
      have "links (?h\<lparr>freep := Some p\<rparr>) (insert bp N)"
        using links_insert [OF inv b p] unfolding e by (simp add: links_def)
      moreover have "(insert bp N - {0}) \<union> (L - {bp}) = (N - {0}) \<union> L" using b nb(2) by blast
      moreover have "arranged (?h\<lparr>freep := Some p\<rparr>) ((N - {0}) \<union> L)" by (rule arranged_subset [OF N0(4)]) (auto simp: e)
      ultimately have "heap_inv (?h\<lparr>freep := Some p\<rparr>) (insert bp N) (L - {bp})"
        using N0 p(1) nb(2) by (auto simp: heap_inv_def e)
      moreover have "free_units ?h (insert bp N) = free_units h N \<union> {bp..<bp + h_size h bp}"
        by (auto simp: free_units_def e)
      ultimately show ?thesis using up up' by (intro exI [of _ "insert bp N"]) (simp add: e)
    qed
  qed
qed

lemma free_units_flags [simp]: "free_units (h\<lparr>locked := k\<rparr>) N = free_units h N" "free_units (h\<lparr>freep := q\<rparr>) N = free_units h N"
  by (simp_all add: free_units_def)

lemma test_free_effect:
  assumes inv: "heap_inv h N L" and lk: "locked h = 0" and b: "bp \<in> L"
  shows "\<exists>h' N'. test_free (bp + 1) h = Ret () h' \<and> heap_inv h' N' (L - {bp}) \<and> locked h' = 0 \<and> (\<forall>y \<in> L - {bp}. h_size h' y = h_size h y) \<and>
    free_units h' N' = (if bp + h_size h bp \<in> N then free_units h N else free_units h N \<union> {bp..<bp + h_size h bp})"
proof -
  let ?h = "h\<lparr>locked := 1\<rparr>"
  have inv': "heap_inv ?h N L" using inv by simp
  obtain fp where fp: "freep h = Some fp" "fp \<in> N" using inv by (auto simp: heap_inv_def)
  obtain p where p: "p \<in> N" "p < bp" "\<forall>z \<in> N. z \<le> p \<or> bp < z" using place_of [OF inv b] by blast
  obtain i where i: "i < 4096" "steps ?h i fp = p" using walk_reaches [OF inv' fp(2) p(1)] by blast
  have find: "find_place 4096 bp fp ?h = Ret p ?h" by (rule find_place_loop [OF inv' p fp(2) i(2,1)])
  obtain N' where n: "heap_inv ((put_block bp p ?h)\<lparr>freep := Some p\<rparr>) N' (L - {bp})"
    "\<forall>y \<in> L - {bp}. h_size (put_block bp p ?h) y = h_size ?h y"
    "free_units (put_block bp p ?h) N' = (if bp + h_size ?h bp \<in> N then free_units ?h N else free_units ?h N \<union> {bp..<bp + h_size ?h bp})"
    using put_block_effect [OF inv' b p] by blast
  have "test_free (bp + 1) h = Ret () (spin_unlock ((put_block bp p ?h)\<lparr>freep := Some p\<rparr>))"
    using lk fp find check_list_ok [OF n(1)] by (simp add: test_free_def spin_lock_def Let_def)
  then show ?thesis
    using n by (intro exI [of _ "spin_unlock ((put_block bp p ?h)\<lparr>freep := Some p\<rparr>)"] exI [of _ N']) (simp add: spin_unlock_def)
qed

section \<open>Sequences of calls\<close>

text \<open>The heaps that calls reach once the lock is free, with the headers of the blocks handed out.\<close>

inductive heap_run :: "kheap \<Rightarrow> nat set \<Rightarrow> bool" where
  run_start: "heap_run (initial_heap\<lparr>locked := 0\<rparr>) {}"
| run_alloc: "heap_run h L \<Longrightarrow> test_alloc nb h = Ret (Some a) h' \<Longrightarrow> heap_run h' (insert (a - 1) L)"
| run_full: "heap_run h L \<Longrightarrow> test_alloc nb h = Ret None h' \<Longrightarrow> heap_run h' L"
| run_free: "heap_run h L \<Longrightarrow> bp \<in> L \<Longrightarrow> test_free (bp + 1) h = Ret () h' \<Longrightarrow> heap_run h' (L - {bp})"

lemma first_list_alloc:
  assumes "freep h = None" "locked h = 0"
  shows "test_alloc nb h = test_alloc nb (first_list h)"
proof -
  have "first_list (h\<lparr>locked := 1\<rparr>) = (first_list h)\<lparr>locked := 1\<rparr>" "first_list ((first_list h)\<lparr>locked := 1\<rparr>) = (first_list h)\<lparr>locked := 1\<rparr>"
    "locked (first_list h) = 0"
    using assms by (simp_all add: first_list_def)
  then show ?thesis using assms(2) by (simp add: test_alloc_def spin_lock_def)
qed

lemma first_list_inv: "heap_inv (first_list (initial_heap\<lparr>locked := 0\<rparr>)) {0, 1} {}"
  by (auto simp: heap_inv_def first_list_def initial_heap_def arranged_def links_def is_next_def SPACE_SIZE_def sizeof_Header_def)

lemma heap_run_inv: "heap_run h L \<Longrightarrow> locked h = 0 \<and> ((h = initial_heap\<lparr>locked := 0\<rparr> \<and> L = {}) \<or> (\<exists>N. heap_inv h N L))"
proof (induction rule: heap_run.induct)
  case run_start
  then show ?case by simp
next
  case (run_alloc h L nb a h')
  obtain h0 N where h0: "heap_inv h0 N L" "locked h0 = 0" "test_alloc nb h = test_alloc nb h0"
  proof (cases "h = initial_heap\<lparr>locked := 0\<rparr> \<and> L = {}")
    case True
    then show ?thesis
      using that [OF _ _ first_list_alloc [of h nb]] first_list_inv by (auto simp: initial_heap_def first_list_def)
  qed (use run_alloc.IH that in blast)
  then obtain N' where "heap_inv h' N' (insert (a - 1) L)" "locked h' = 0"
    using test_alloc_effect [OF h0(1,2), of nb] run_alloc.hyps(2) by auto
  then show ?case by blast
next
  case (run_full h L nb h')
  obtain h0 N where h0: "heap_inv h0 N L" "locked h0 = 0" "test_alloc nb h = test_alloc nb h0"
  proof (cases "h = initial_heap\<lparr>locked := 0\<rparr> \<and> L = {}")
    case True
    then show ?thesis
      using that [OF _ _ first_list_alloc [of h nb]] first_list_inv by (auto simp: initial_heap_def first_list_def)
  qed (use run_full.IH that in blast)
  then show ?case using test_alloc_effect [OF h0(1,2), of nb] run_full.hyps(2) by auto
next
  case (run_free h L bp h')
  then obtain N where "heap_inv h N L" by auto
  then show ?case using test_free_effect [of h N L bp] run_free by auto
qed

text \<open>
  C24. Once the lock is free, every sequence of calls of the kernel's allocator is safe: each call of
  test_alloc and each test_free of a block handed out returns (no walk over the list is
  endless, and the consistency check never panics), and the blocks handed out lie in the arena and never overlap.
\<close>

theorem allocator_safe:
  assumes "heap_run h L"
  shows "(\<forall>nb. \<exists>r h'. test_alloc nb h = Ret r h') \<and> (\<forall>bp \<in> L. \<exists>h'. test_free (bp + 1) h = Ret () h') \<and>
    (\<forall>x \<in> L. 1 \<le> x \<and> 0 < h_size h x \<and> x + h_size h x \<le> 1706) \<and> (\<forall>x \<in> L. \<forall>y \<in> L. x < y \<longrightarrow> x + h_size h x \<le> y)"
proof (cases "h = initial_heap\<lparr>locked := 0\<rparr> \<and> L = {}")
  case True
  have i: "freep h = None" "locked h = 0" "locked (first_list h) = 0" using True by (simp_all add: initial_heap_def first_list_def)
  have "\<exists>r h'. test_alloc nb h = Ret r h'" for nb
    using test_alloc_effect [OF first_list_inv, of nb] first_list_alloc [OF i(1,2), of nb] True i(3) by metis
  then show ?thesis using True by simp
next
  case False
  then obtain N where n: "heap_inv h N L" "locked h = 0" using heap_run_inv [OF assms] by blast
  have l: "\<exists>r h'. test_alloc nb h = Ret r h'" for nb using test_alloc_effect [OF n, of nb] by blast
  have f: "\<exists>h'. test_free (bp + 1) h = Ret () h'" if "bp \<in> L" for bp using test_free_effect [OF n that] by blast
  have "x \<noteq> 0" if "x \<in> L" for x using n(1) that by (auto simp: heap_inv_def)
  then show ?thesis using l f heap_block [OF n(1)] by (metis UnCI)
qed

lemma first_alloc:
  "\<exists>h. test_alloc 10 (initial_heap\<lparr>locked := 0\<rparr>) = Ret (Some 1705) h \<and> h_size h 1704 = 2 \<and> h_size h 1 = 1703"
  by (simp add: test_alloc_def spin_lock_def spin_unlock_def first_list_def initial_heap_def check_list_def check_list_loop.simps
      first_fit.simps take_block_def units_for_def SPACE_SIZE_def sizeof_Header_def Let_def)

theorem allocator_safe_witness:
  "\<exists>h. test_alloc 10 (initial_heap\<lparr>locked := 0\<rparr>) = Ret (Some 1705) h \<and> (\<exists>h'. test_free 1705 h = Ret () h') \<and>
     (\<exists>r h'. test_alloc 255 h = Ret r h')"
proof -
  obtain h where h: "test_alloc 10 (initial_heap\<lparr>locked := 0\<rparr>) = Ret (Some 1705) h" using first_alloc by blast
  have "heap_run h {1704}" using run_alloc [OF run_start h] by simp
  from allocator_safe [OF this] show ?thesis using h by auto
qed

text \<open>
  C25. test_free gives the block back, whole, unless a free block begins where it ends: then the header that
  test_free fills in stays out of the list, and the block is lost for good.
\<close>

theorem test_free_gives_back:
  assumes "heap_inv h N L" "locked h = 0" "bp \<in> L"
  shows "\<exists>h' N'. test_free (bp + 1) h = Ret () h' \<and> heap_inv h' N' (L - {bp}) \<and> locked h' = 0 \<and>
    free_units h' N' = (if bp + h_size h bp \<in> N then free_units h N else free_units h N \<union> {bp..<bp + h_size h bp})"
  using test_free_effect [OF assms] by blast

theorem test_free_gives_back_witness:
  "\<exists>h L h' N'. heap_run h L \<and> 1704 \<in> L \<and> test_free 1705 h = Ret () h' \<and> {1704..<1706} \<subseteq> free_units h' N'"
proof -
  obtain h where h: "test_alloc 10 (initial_heap\<lparr>locked := 0\<rparr>) = Ret (Some 1705) h" "h_size h 1704 = 2" using first_alloc by blast
  have run: "heap_run h {1704}" using run_alloc [OF run_start h(1)] by simp
  then obtain N where n: "heap_inv h N {1704}" "locked h = 0" using heap_run_inv by blast
  have nin: "1704 + h_size h 1704 \<notin> N" using heap_bound [OF n(1)] h(2) by fastforce
  obtain h' N' where "test_free (1704 + 1) h = Ret () h'"
    "free_units h' N' = (if 1704 + h_size h 1704 \<in> N then free_units h N else free_units h N \<union> {1704..<1704 + h_size h 1704})"
    using test_free_gives_back [OF n, of 1704] by blast
  then show ?thesis using run nin h(2) by (intro exI [of _ h] exI [of _ "{1704}"] exI [of _ h'] exI [of _ N']) auto
qed

text \<open>
  The loss happens: of two neighbours the upper one is freed first. Afterwards the list has the
  blocks 1 and 1704, and the headers 1702 and 1703 are in neither.
\<close>

definition two_blocks :: "(unit, kheap) kres" where
  "two_blocks =
     kbind (test_alloc 10 (initial_heap\<lparr>locked := 0\<rparr>)) (\<lambda>a h.
     kbind (test_alloc 10 h) (\<lambda>b h.
     kbind (test_free (the a) h) (\<lambda>_ h. test_free (the b) h)))"

theorem block_lost:
  "\<exists>h. two_blocks = Ret () h \<and> h_next h 0 = 1 \<and> h_next h 1 = 1704 \<and> h_next h 1704 = 0 \<and>
     h_size h 1 = 1701 \<and> h_size h 1704 = 2"
  by (simp add: two_blocks_def test_alloc_def test_free_def spin_lock_def spin_unlock_def first_list_def initial_heap_def check_list_def check_list_loop.simps
      first_fit.simps find_place.simps put_block_def take_block_def units_for_def SPACE_SIZE_def sizeof_Header_def Let_def)

end
