(* ===== verification/Output.thy ===== *)
theory Output
  imports Printfmt_Props Console
begin

text \<open>
  The functions that print formatted text: cprintf of the kernel (kern/printf.c), cprintf of the user library
  (lib/printf.c), which hands chunks of at most 255 characters to sys_cputs, and fprintf (lib/fprintf.c), which writes
  chunks of at most 256 to a descriptor. What vprintfmt prints is specified once, as the list of characters it passes to
  its putch; every function is proved to print exactly that list.
\<close>

section \<open>vprintfmt on related states\<close>

text \<open>putch' on the states of type 't does what putch does on the states of type 's.\<close>

definition sim :: "('s \<Rightarrow> 't \<Rightarrow> bool) \<Rightarrow> ('s \<Rightarrow> mem) \<Rightarrow> (32 word \<Rightarrow> 's \<Rightarrow> 's) \<Rightarrow> ('t \<Rightarrow> mem) \<Rightarrow> (32 word \<Rightarrow> 't \<Rightarrow> 't) \<Rightarrow> bool" where
  "sim R rd putch rd' putch' \<longleftrightarrow>
     (\<forall>s t. R s t \<longrightarrow> rd s = rd' t \<and> (\<forall>c. R (putch c s) (putch' c t)))"

lemma simD:
  assumes "sim R rd putch rd' putch'" "R s t"
  shows "rd s = rd' t" "R (putch c s) (putch' c t)"
  using assms by (auto simp: sim_def)

lemma put_n_sim: "sim R rd putch rd' putch' \<Longrightarrow> R s t \<Longrightarrow> R (put_n putch k c s) (put_n putch' k c t)"
  unfolding put_n_def by (induction k) (auto dest: simD(2))

lemma fold_sim: "sim R rd putch rd' putch' \<Longrightarrow> R s t \<Longrightarrow> R (fold putch cs s) (fold putch' cs t)"
  by (induction cs arbitrary: s t) (auto dest: simD(2))

lemma literal_sim: "sim R rd putch rd' putch' \<Longrightarrow> sim R (literal str) putch (literal str) putch'"
  by (auto simp: sim_def literal_def)

abbreviation follows :: "('s \<Rightarrow> 't \<Rightarrow> bool) \<Rightarrow> 's option \<Rightarrow> 't option \<Rightarrow> bool" where
  "follows R x y \<equiv> \<forall>s. x = Some s \<longrightarrow> (\<exists>t. y = Some t \<and> R s t)"

lemma printnum_sim:
  "printnum putch num base w pc s = Some s' \<Longrightarrow> sim R rd putch rd' putch' \<Longrightarrow> R s t \<Longrightarrow>
     \<exists>t'. printnum putch' num base w pc t = Some t' \<and> R s' t'"
proof (induction arbitrary: t rule: printnum.raw_induct [rotated, consumes 1])
  case (1 f putch num base w pc s s')
  have b: "base \<noteq> 0" using 1(2) by (auto split: if_split_asm)
  obtain u where u: "(if num \<ge> ucast base then f putch (num div ucast base) base (w - 1) pc s
      else Some (put_n putch (nat (sint (w - 1))) (scast pc) s)) = Some u"
    "s' = putch (digit_char (num mod ucast base)) u"
    using 1(2) by (auto simp: bind_eq_Some_conv split: if_split_asm)
  have "\<exists>v. (if num \<ge> ucast base then printnum putch' (num div ucast base) base (w - 1) pc t
      else Some (put_n putch' (nat (sint (w - 1))) (scast pc) t)) = Some v \<and> R u v"
  proof (cases "num \<ge> ucast base")
    case True
    then show ?thesis using u(1) 1(1,3,4) by simp
  next
    case False
    then show ?thesis using u(1) put_n_sim [OF 1(3,4)] by auto
  qed
  then obtain v where v: "(if num \<ge> ucast base then printnum putch' (num div ucast base) base (w - 1) pc t
      else Some (put_n putch' (nat (sint (w - 1))) (scast pc) t)) = Some v" "R u v" by blast
  have "printnum putch' num base w pc t = Some (putch' (digit_char (num mod ucast base)) v)"
    by (subst printnum.simps) (use b v(1) in \<open>simp only: if_False Option.bind_lunit\<close>)
  then show ?case using simD(2) [OF 1(3) v(2)] u(2) by blast
qed

lemma str_loop_sim:
  "str_loop rd putch af p prec w s = Some (v, s') \<Longrightarrow> sim R rd putch rd' putch' \<Longrightarrow> R s t \<Longrightarrow>
     \<exists>t'. str_loop rd' putch' af p prec w t = Some (v, t') \<and> R s' t'"
proof (induction rd putch af p prec w s "(v, s')" arbitrary: v s' t rule: str_loop.raw_induct [rotated, consumes 1])
  case (1 f rd putch af p prec w s v s')
  note eq = 1(2) and k = 1(3,4)
  have r: "rd s p = rd' t p" using simD(1) [OF k] by simp
  define s1 where "s1 = (if af \<and> (sint (scast (rd s p) :: 32 word) < 32 \<or> sint (scast (rd s p) :: 32 word) > 126) then putch 63 s else putch (scast (rd s p)) s)"
  define t1 where "t1 = (if af \<and> (sint (scast (rd s p) :: 32 word) < 32 \<or> sint (scast (rd s p) :: 32 word) > 126) then putch' 63 t else putch' (scast (rd s p)) t)"
  have "R (if b then putch c s else putch d s) (if b then putch' c t else putch' d t)" for b c d using simD(2) [OF k] by (cases b) simp_all
  then have i: "R s1 t1" unfolding s1_def t1_def by blast
  show ?case
  proof (cases "scast (rd s p) = (0 :: 32 word) \<or> \<not> (sint prec < 0 \<or> sint (prec - 1) \<ge> 0)")
    case True
    then have "v = w" "s' = s" using eq by (auto simp: Let_def split: if_split_asm)
    moreover have "str_loop rd' putch' af p prec w t = Some (w, t)"
      using True by (subst str_loop.simps) (auto simp: Let_def r)
    ultimately show ?thesis using k(2) by blast
  next
    case False
    then have "f rd putch af (p + 1) (if sint prec < 0 then prec else prec - 1) (w - 1) s1 = Some (v, s')"
      using eq by (simp add: Let_def s1_def split: if_split_asm)
    from 1(1) [OF this k(1) i] obtain t' where t: "str_loop rd' putch' af (p + 1) (if sint prec < 0 then prec else prec - 1) (w - 1) t1 = Some (v, t')" "R s' t'"
      by blast
    have "str_loop rd' putch' af p prec w t = str_loop rd' putch' af (p + 1) (if sint prec < 0 then prec else prec - 1) (w - 1) t1"
      using False by (subst str_loop.simps) (auto simp: Let_def r [symmetric] t1_def)
    then show ?thesis using t by metis
  qed
qed

lemma print_string_sim:
  assumes "print_string rd putch af pc prec w p s = Some s'" "sim R rd putch rd' putch'" "R s t"
  shows "\<exists>t'. print_string rd' putch' af pc prec w p t = Some t' \<and> R s' t'"
proof -
  define ws where "ws = (if sint w > 0 \<and> pc \<noteq> 45 then
      (let w = w - strnlen (rd s) p prec
       in (if sint w > 0 then 0 else w, put_n putch (nat (sint w)) (scast pc) s))
     else (w, s))"
  define wt where "wt = (if sint w > 0 \<and> pc \<noteq> 45 then
      (let w = w - strnlen (rd' t) p prec
       in (if sint w > 0 then 0 else w, put_n putch' (nat (sint w)) (scast pc) t))
     else (w, t))"
  have i: "fst wt = fst ws" "R (snd ws) (snd wt)"
    using put_n_sim [OF assms(2,3)] simD(1) [OF assms(2,3)] assms(3) by (auto simp: ws_def wt_def Let_def)
  obtain v u where u: "str_loop rd putch af p prec (fst ws) (snd ws) = Some (v, u)"
    "s' = put_n putch (nat (sint v)) 32 u"
    using assms(1) by (auto simp: print_string_def ws_def [symmetric] Let_def bind_eq_Some_conv case_prod_beta)
  obtain u' where u': "str_loop rd' putch' af p prec (fst wt) (snd wt) = Some (v, u')" "R u u'"
    using str_loop_sim [OF u(1) assms(2) i(2)] i(1) by metis
  have "print_string rd' putch' af pc prec w p t = Some (put_n putch' (nat (sint v)) 32 u')"
    by (simp add: print_string_def wt_def [symmetric] Let_def case_prod_beta u'(1))
  then show ?thesis using put_n_sim [OF assms(2) u'(2)] u(2) by blast
qed

lemma print_error_sim:
  assumes "print_error rd putch err s = Some s'" "sim R rd putch rd' putch'" "R s t"
  shows "\<exists>t'. print_error rd' putch' err t = Some t' \<and> R s' t'"
proof -
  define e where "e = (if sint err < 0 then - err else err)"
  have e0: "\<not> sint e < 0" using assms(1) by (auto simp: print_error_def e_def [symmetric] Let_def split: if_split_asm)
  show ?thesis
  proof (cases "if sint e \<ge> MAXERROR then None else error_string (unat e)")
    case None
    then have "printnum putch (ucast e) 10 (- 1) 32 (fold putch (map ucast (chars ''error '')) s) = Some s'"
      using assms(1) e0 by (simp add: print_error_def e_def [symmetric] Let_def)
    from printnum_sim [OF this assms(2) fold_sim [OF assms(2,3)]]
    show ?thesis using None e0 by (simp add: print_error_def e_def [symmetric] Let_def)
  next
    case (Some str)
    then have "print_string (literal str) putch False 32 (- 1) (- 1) 0 s = Some s'"
      using assms(1) e0 by (simp add: print_error_def e_def [symmetric] Let_def)
    from print_string_sim [OF this literal_sim [OF assms(2)] assms(3)]
    show ?thesis using Some e0 by (simp add: print_error_def e_def [symmetric] Let_def)
  qed
qed

lemma convert_none:
  "convert rd putch ch fl ap s = None \<longleftrightarrow> ch \<notin> {99, 105, 115, 100, 117, 111, 112, 120, 37}"
  unfolding convert_def Let_def case_prod_beta by simp

lemma convert_sim:
  assumes "convert rd putch ch fl ap s = Some (Some (ap', s'))" "sim R rd putch rd' putch'" "R s t"
  shows "\<exists>t'. convert rd' putch' ch fl ap t = Some (Some (ap', t')) \<and> R s' t'"
proof -
  have r: "rd' t = rd s" using simD(1) [OF assms(2,3)] by simp
  have p1: "R (putch c s) (putch' c t)" for c by (rule simD(2) [OF assms(2,3)])
  have p2: "R (putch d (putch c s)) (putch' d (putch' c t))" for c d by (rule simD(2) [OF assms(2) p1])
  have r2: "rd' (putch' d (putch' c t)) = rd (putch d (putch c s))" for c d using simD(1) [OF assms(2) p2] by simp
  note n = printnum_sim [OF _ assms(2)]
  have n0: "printnum putch num base w pc s = Some s' \<Longrightarrow> \<exists>t'. printnum putch' num base w pc t = Some t' \<and> R s' t'" for num base w pc
    by (rule n [OF _ assms(3)])
  have n1: "printnum putch num base w pc (putch c s) = Some s' \<Longrightarrow> \<exists>t'. printnum putch' num base w pc (putch' c t) = Some t' \<and> R s' t'"
    for num base w pc c by (rule n [OF _ p1])
  have n2: "printnum putch num base w pc (putch d (putch c s)) = Some s' \<Longrightarrow>
      \<exists>t'. printnum putch' num base w pc (putch' d (putch' c t)) = Some t' \<and> R s' t'" for num base w pc c d
    by (rule n [OF _ p2])
  have e: "print_error rd putch err s = Some s' \<Longrightarrow> \<exists>t'. print_error rd' putch' err t = Some t' \<and> R s' t'" for err
    by (rule print_error_sim [OF _ assms(2,3)])
  have q: "print_string rd putch af pc prec w p s = Some s' \<Longrightarrow> \<exists>t'. print_string rd' putch' af pc prec w p t = Some t' \<and> R s' t'"
    for af pc prec w p by (rule print_string_sim [OF _ assms(2,3)])
  have l: "print_string (literal str) putch af pc prec w p s = Some s' \<Longrightarrow> \<exists>t'. print_string (literal str) putch' af pc prec w p t = Some t' \<and> R s' t'"
    for str af pc prec w p by (rule print_string_sim [OF _ literal_sim [OF assms(2)] assms(3)])
  have "ch \<in> {99, 105, 115, 100, 117, 111, 112, 120, 37}"
    using assms(1) convert_none [of rd putch ch fl ap s] by (cases "ch \<in> {99, 105, 115, 100, 117, 111, 112, 120, 37}") simp_all
  then consider "ch = 99" | "ch = 105" | "ch = 115" | "ch = 100" | "ch = 117" | "ch = 111" | "ch = 112" | "ch = 120" | "ch = 37" by blast
  then show ?thesis
  proof cases
    case 1
    then show ?thesis using assms(1) p1 by (auto simp: convert_def r Let_def case_prod_beta)
  next
    case 2
    then show ?thesis using assms(1) e by (auto simp: convert_def r Let_def case_prod_beta)
  next
    case 3
    then show ?thesis using assms(1) q l by (auto simp: convert_def r Let_def case_prod_beta split: if_splits)
  next
    case 4
    then show ?thesis using assms(1) n0 n1 by (auto simp: convert_def r Let_def case_prod_beta split: if_splits)
  next
    case 5
    then show ?thesis using assms(1) n0 by (auto simp: convert_def r Let_def case_prod_beta)
  next
    case 6
    then show ?thesis using assms(1) n0 by (auto simp: convert_def r Let_def case_prod_beta)
  next
    case 7
    then show ?thesis using assms(1) n2 by (auto simp: convert_def r2 Let_def case_prod_beta)
  next
    case 8
    then show ?thesis using assms(1) n0 by (auto simp: convert_def r Let_def case_prod_beta)
  next
    case 9
    then show ?thesis using assms(1) p1 by (auto simp: convert_def r Let_def case_prod_beta)
  qed
qed

text \<open>Where a step of vprintfmt leads, on related states.\<close>

definition next_sim :: "('s \<Rightarrow> 't \<Rightarrow> bool) \<Rightarrow> 's pf_next \<Rightarrow> 't pf_next \<Rightarrow> bool" where
  "next_sim R a b \<longleftrightarrow>
     (case a of Stop s \<Rightarrow> (\<exists>t. b = Stop t \<and> R s t) | Next st fmt ap s \<Rightarrow> (\<exists>t. b = Next st fmt ap t \<and> R s t))"

lemma pf_step_sim:
  assumes "pf_step rd putch st fmt ap s = Some a" "sim R rd putch rd' putch'" "R s t"
  shows "\<exists>b. pf_step rd' putch' st fmt ap t = Some b \<and> next_sim R a b"
proof -
  have r: "rd' t = rd s" using simD(1) [OF assms(2,3)] by simp
  have p1: "R (putch c s) (putch' c t)" for c by (rule simD(2) [OF assms(2,3)])
  have r1: "rd' (putch' c t) = rd (putch c s)" for c using simD(1) [OF assms(2) p1] by simp
  show ?thesis
  proof (cases st)
    case None
    then show ?thesis using assms(1,3) p1 by (auto simp: pf_step_def next_sim_def r Let_def)
  next
    case (Some fl)
    show ?thesis
    proof (cases "rd s fmt = 45 \<or> rd s fmt = 48 \<or> (49 \<le> rd s fmt \<and> rd s fmt \<le> 57) \<or> rd s fmt = 42 \<or> rd s fmt = 46 \<or> rd s fmt = 35 \<or> rd s fmt = 108")
      case True
      then show ?thesis using assms(1,3) Some
        by (auto simp: pf_step_def next_sim_def r Let_def case_prod_beta split: if_splits)
    next
      case False
      then have eq: "pf_step rd putch st fmt ap s = (case convert rd putch (rd s fmt) fl ap s of
            Some r \<Rightarrow> map_option (\<lambda>(ap, s). Next None (fmt + 1) ap s) r
          | None \<Rightarrow> (let s = putch 37 s in map_option (\<lambda>fmt. Next None fmt ap s) (back_up (rd s) fmt)))"
        and eq': "pf_step rd' putch' st fmt ap t = (case convert rd' putch' (rd s fmt) fl ap t of
            Some r \<Rightarrow> map_option (\<lambda>(ap, s). Next None (fmt + 1) ap s) r
          | None \<Rightarrow> (let s = putch' 37 t in map_option (\<lambda>fmt. Next None fmt ap s) (back_up (rd' s) fmt)))"
        unfolding pf_step_def Some Let_def r by auto
      show ?thesis
      proof (cases "convert rd putch (rd s fmt) fl ap s")
        case None
        then have "convert rd' putch' (rd s fmt) fl ap t = None" using convert_none by metis
        then show ?thesis using None assms(1) p1 unfolding eq eq' by (auto simp: Let_def r1 next_sim_def)
      next
        case (Some x)
        then obtain ap' s' where x: "convert rd putch (rd s fmt) fl ap s = Some (Some (ap', s'))" "a = Next None (fmt + 1) ap' s'"
          using assms(1) unfolding eq by auto
        from convert_sim [OF x(1) assms(2,3)] show ?thesis unfolding eq' x(2) by (auto simp: next_sim_def)
      qed
    qed
  qed
qed

lemma pf_loop_sim:
  "pf_loop rd putch st fmt ap s = Some s' \<Longrightarrow> sim R rd putch rd' putch' \<Longrightarrow> R s t \<Longrightarrow>
     \<exists>t'. pf_loop rd' putch' st fmt ap t = Some t' \<and> R s' t'"
proof (induction arbitrary: t rule: pf_loop.raw_induct [rotated, consumes 1])
  case (1 f rd putch st fmt ap s s')
  obtain a where a: "pf_step rd putch st fmt ap s = Some a"
    "(case a of Stop s \<Rightarrow> Some s | Next st fmt ap s \<Rightarrow> f rd putch st fmt ap s) = Some s'"
    using 1(2) by (auto simp: bind_eq_Some_conv)
  obtain b where b: "pf_step rd' putch' st fmt ap t = Some b" "next_sim R a b"
    using pf_step_sim [OF a(1) 1(3,4)] by blast
  have eq: "pf_loop rd' putch' st fmt ap t = (case b of Stop s \<Rightarrow> Some s | Next st fmt ap s \<Rightarrow> pf_loop rd' putch' st fmt ap s)"
    by (subst pf_loop.simps) (simp add: b(1))
  show ?case
  proof (cases a)
    case (Stop u)
    then show ?thesis using a(2) b(2) by (auto simp: next_sim_def eq)
  next
    case (Next st' fmt' ap' u)
    then obtain v where v: "b = Next st' fmt' ap' v" "R u v" using b(2) by (auto simp: next_sim_def)
    have "f rd putch st' fmt' ap' u = Some s'" using a(2) Next by simp
    from 1(1) [OF this 1(3) v(2)] show ?thesis by (simp add: eq v(1))
  qed
qed

text \<open>So both print, or neither returns.\<close>

lemma vprintfmt_sim:
  assumes "sim R rd putch rd' putch'" "R s t"
  shows "rel_option R (vprintfmt rd putch fmt ap s) (vprintfmt rd' putch' fmt ap t)"
proof -
  have c: "sim (\<lambda>t s. R s t) rd' putch' rd putch" using assms(1) by (auto simp: sim_def)
  show ?thesis unfolding vprintfmt_def
    using pf_loop_sim [OF _ assms, of None fmt ap] pf_loop_sim [OF _ c assms(2), of None fmt ap]
    by (cases "pf_loop rd putch None fmt ap s"; cases "pf_loop rd' putch' None fmt ap t") auto
qed

text \<open>What vprintfmt prints: the characters it passes to putch.\<close>

definition printed :: "mem \<Rightarrow> 32 word \<Rightarrow> 32 word \<Rightarrow> 32 word list option" where
  "printed m fmt ap = vprintfmt (\<lambda>_. m) (\<lambda>c txt. txt @ [c]) fmt ap []"

lemma vprintfmt_printed:
  assumes "R s []" "\<And>s txt c. R s txt \<Longrightarrow> R (putch c s) (txt @ [c])"
  shows "rel_option R (vprintfmt (\<lambda>_. m) putch fmt ap s) (printed m fmt ap)"
  unfolding printed_def by (rule vprintfmt_sim) (use assms in \<open>simp_all add: sim_def\<close>)

section \<open>Definitions\<close>

text \<open>The kernel: characters go to the console, cnt counts them.\<close>

definition kputch :: "32 word \<Rightarrow> display \<times> 32 word \<Rightarrow> display \<times> 32 word" where
  "kputch ch s = (cputchar ch (fst s), snd s + 1)"

definition kvcprintf :: "mem \<Rightarrow> 32 word \<Rightarrow> 32 word \<Rightarrow> display \<Rightarrow> (int \<times> display) option" where
  "kvcprintf m fmt ap d = map_option (\<lambda>(d, cnt). (sint cnt, d)) (vprintfmt (\<lambda>_. m) kputch fmt ap (d, 0))"

text \<open>
  The user library. pb_out are the arguments of sys_cputs in the order of the calls. The format and the arguments are outside the
  buffer, so the memory they are read from does not change.
\<close>

record printbuf =
  pb_idx :: nat
  pb_cnt :: "32 word"
  pb_buf :: "nat \<Rightarrow> 8 word"
  pb_out :: "8 word list list"

definition sys_cputs_buf :: "printbuf \<Rightarrow> printbuf" where
  "sys_cputs_buf b = b\<lparr>pb_out := pb_out b @ [map (pb_buf b) [0..<pb_idx b]]\<rparr>"

definition putch :: "32 word \<Rightarrow> printbuf \<Rightarrow> printbuf" where
  "putch ch b =
     (let b = b\<lparr>pb_buf := (pb_buf b)(pb_idx b := ucast ch), pb_idx := pb_idx b + 1\<rparr>;
          b = (if pb_idx b = 256 - 1 then (sys_cputs_buf b)\<lparr>pb_idx := 0\<rparr> else b)
      in b\<lparr>pb_cnt := pb_cnt b + 1\<rparr>)"

definition vcprintf :: "(nat \<Rightarrow> 8 word) \<Rightarrow> mem \<Rightarrow> 32 word \<Rightarrow> 32 word \<Rightarrow> (int \<times> 8 word list list) option" where
  "vcprintf junk m fmt ap =
     map_option (\<lambda>b. (sint (pb_cnt b), pb_out (sys_cputs_buf b)))
       (vprintfmt (\<lambda>_. m) putch fmt ap \<lparr>pb_idx = 0, pb_cnt = 0, pb_buf = junk, pb_out = []\<rparr>)"

text \<open>fprintf. wr is the function write of the library with the state it acts on.\<close>

record 's fprintbuf =
  fb_idx :: nat
  fb_result :: "32 word"
  fb_error :: int
  fb_buf :: "nat \<Rightarrow> 8 word"
  fb_env :: 's

definition writebuf :: "(8 word list \<Rightarrow> 's \<Rightarrow> int \<times> 's) \<Rightarrow> 's fprintbuf \<Rightarrow> 's fprintbuf" where
  "writebuf wr b =
     (if fb_error b > 0 then
        (case wr (map (fb_buf b) [0..<fb_idx b]) (fb_env b) of (result, s) \<Rightarrow>
           let b = b\<lparr>fb_env := s\<rparr>;
               b = (if result > 0 then b\<lparr>fb_result := fb_result b + of_int result\<rparr> else b)
           in if result \<noteq> int (fb_idx b) then b\<lparr>fb_error := (if result < 0 then result else 0)\<rparr> else b)
      else b)"

definition fputch :: "(8 word list \<Rightarrow> 's \<Rightarrow> int \<times> 's) \<Rightarrow> 32 word \<Rightarrow> 's fprintbuf \<Rightarrow> 's fprintbuf" where
  "fputch wr ch b =
     (let b = b\<lparr>fb_buf := (fb_buf b)(fb_idx b := ucast ch), fb_idx := fb_idx b + 1\<rparr>
      in if fb_idx b = 256 then (writebuf wr b)\<lparr>fb_idx := 0\<rparr> else b)"

definition vfprintf :: "(8 word list \<Rightarrow> 's \<Rightarrow> int \<times> 's) \<Rightarrow> (nat \<Rightarrow> 8 word) \<Rightarrow> mem \<Rightarrow> 32 word \<Rightarrow> 32 word \<Rightarrow> 's \<Rightarrow> (int \<times> 's) option" where
  "vfprintf wr junk m fmt ap s =
     map_option
       (\<lambda>b. let b = (if fb_idx b > 0 then writebuf wr b else b)
             in (if fb_result b \<noteq> 0 then sint (fb_result b) else fb_error b, fb_env b))
       (vprintfmt (\<lambda>_. m) (fputch wr) fmt ap \<lparr>fb_idx = 0, fb_result = 0, fb_error = 1, fb_buf = junk, fb_env = s\<rparr>)"


section \<open>What is printed\<close>

text \<open>
  cprintf of the kernel shows on the console exactly what vprintfmt prints and returns how much.
\<close>

theorem kvcprintf_correct:
  "kvcprintf m fmt ap d = map_option (\<lambda>txt. (sint (of_nat (length txt) :: 32 word), fold cputchar txt d)) (printed m fmt ap)"
proof -
  have "rel_option (\<lambda>s txt. s = (fold cputchar txt d, of_nat (length txt)))
      (vprintfmt (\<lambda>_. m) kputch fmt ap (d, 0)) (printed m fmt ap)"
    by (rule vprintfmt_printed) (simp_all add: kputch_def)
  then show ?thesis unfolding kvcprintf_def
    by (cases "vprintfmt (\<lambda>_. m) kputch fmt ap (d, 0)"; cases "printed m fmt ap") auto
qed

definition pb_inv :: "printbuf \<Rightarrow> 32 word list \<Rightarrow> bool" where
  "pb_inv b txt \<longleftrightarrow> pb_idx b < 255 \<and> pb_cnt b = of_nat (length txt) \<and> (\<forall>c \<in> set (pb_out b). length c = 255) \<and>
     concat (pb_out b) @ map (pb_buf b) [0..<pb_idx b] = map ucast txt"

lemma map_upt_upd: "map (f(n := x)) [0..<Suc n] = map f [0..<n] @ [x]"
  by simp

lemma pb_inv_putch:
  assumes "pb_inv b txt"
  shows "pb_inv (putch c b) (txt @ [c])"
proof -
  have e: "concat (pb_out b) @ map ((pb_buf b)(pb_idx b := ucast c)) [0..<Suc (pb_idx b)] = map ucast (txt @ [c])"
    using assms unfolding map_upt_upd pb_inv_def by simp
  show ?thesis
  proof (cases "pb_idx b = 254")
    case True
    then have e': "concat (pb_out b) @ map ((pb_buf b)(254 := ucast c)) [0..<255] = map ucast (txt @ [c])" using e by simp
    have "putch c b = b\<lparr>pb_buf := (pb_buf b)(254 := ucast c), pb_idx := 0, pb_cnt := pb_cnt b + 1,
        pb_out := pb_out b @ [map ((pb_buf b)(254 := ucast c)) [0..<255]]\<rparr>"
      using True by (simp add: putch_def sys_cputs_buf_def Let_def)
    then show ?thesis using assms e' by (simp add: pb_inv_def del: upt_rec_numeral map_append) 
  next
    case False
    then have "putch c b = b\<lparr>pb_buf := (pb_buf b)(pb_idx b := ucast c), pb_idx := Suc (pb_idx b), pb_cnt := pb_cnt b + 1\<rparr>"
      by (simp add: putch_def Let_def)
    then show ?thesis using assms e False by (simp add: pb_inv_def del: upt_Suc map_append)
  qed
qed

text \<open>
  cprintf of the user library returns the number of characters printed and hands exactly these characters to sys_cputs, at most 255 at a time.
\<close>

theorem vcprintf_correct:
  "rel_option (\<lambda>(r, out) txt. r = sint (of_nat (length txt) :: 32 word) \<and> concat out = map ucast txt \<and> list_all (\<lambda>c. length c \<le> 255) out)
     (vcprintf junk m fmt ap) (printed m fmt ap)"
proof -
  let ?b = "\<lparr>pb_idx = 0, pb_cnt = 0, pb_buf = junk, pb_out = []\<rparr>"
  have "rel_option pb_inv (vprintfmt (\<lambda>_. m) putch fmt ap ?b) (printed m fmt ap)"
    by (rule vprintfmt_printed) (simp_all add: pb_inv_def [of ?b] pb_inv_putch)
  then show ?thesis unfolding vcprintf_def
    by (cases "vprintfmt (\<lambda>_. m) putch fmt ap ?b"; cases "printed m fmt ap")
      (auto simp: pb_inv_def sys_cputs_buf_def list_all_iff)
qed

text \<open>
  What becomes of chunks given to write one after the other until one is not accepted whole: the error flag, the number of
  bytes accepted, and the state.
\<close>

fun sent :: "(8 word list \<Rightarrow> 's \<Rightarrow> int \<times> 's) \<Rightarrow> 8 word list list \<Rightarrow> 's \<Rightarrow> int \<times> 32 word \<times> 's" where
  "sent wr [] s = (1, 0, s)"
| "sent wr (c # cs) s =
     (case wr c s of (r, s) \<Rightarrow>
        if r = int (length c) then (case sent wr cs s of (e, n, s) \<Rightarrow> (e, of_int r + n, s))
        else (min r 0, of_int (max r 0), s))"

lemma sent_snoc:
  "sent wr (cs @ [c]) s =
     (case sent wr cs s of (e, n, u) \<Rightarrow>
        if e > 0 then (case wr c u of (r, u) \<Rightarrow> (if r = int (length c) then 1 else min r 0, n + of_int (max r 0), u))
        else (e, n, u))"
proof (induction cs arbitrary: s)
  case Nil
  show ?case by (simp split: prod.split)
next
  case (Cons d cs)
  then show ?case by (simp split: prod.split)
qed

lemma sent_flag: "sent wr cs s = (e, n, u) \<Longrightarrow> e > 0 \<Longrightarrow> e = 1"
  by (induction cs arbitrary: s n) (auto split: prod.splits if_split_asm)

definition fb_inv :: "(8 word list \<Rightarrow> 's \<Rightarrow> int \<times> 's) \<Rightarrow> 's \<Rightarrow> 's fprintbuf \<Rightarrow> 32 word list \<Rightarrow> bool" where
  "fb_inv wr s b txt \<longleftrightarrow> fb_idx b < 256 \<and>
     (\<exists>out. (\<forall>c \<in> set out. length c = 256) \<and> concat out @ map (fb_buf b) [0..<fb_idx b] = map ucast txt \<and>
        sent wr out s = (fb_error b, fb_result b, fb_env b))"

text \<open>writebuf is one more chunk.\<close>

lemma writebuf_sent:
  assumes "sent wr out s = (fb_error b, fb_result b, fb_env b)"
  shows "sent wr (out @ [map (fb_buf b) [0..<fb_idx b]]) s =
    (fb_error (writebuf wr b), fb_result (writebuf wr b), fb_env (writebuf wr b))"
proof -
  have "fb_error b > 0 \<Longrightarrow> fb_error b = 1" by (rule sent_flag [OF assms])
  then show ?thesis unfolding sent_snoc assms
    by (auto simp: writebuf_def Let_def min_def max_def split: prod.split)
qed

lemma writebuf_sel [simp]: "fb_idx (writebuf wr b) = fb_idx b" "fb_buf (writebuf wr b) = fb_buf b"
  by (auto simp: writebuf_def Let_def split: prod.split)

lemma fb_inv_putch:
  assumes "fb_inv wr s b txt"
  shows "fb_inv wr s (fputch wr c b) (txt @ [c])"
proof -
  obtain out where out: "\<forall>c \<in> set out. length c = 256" "concat out @ map (fb_buf b) [0..<fb_idx b] = map ucast txt"
    "sent wr out s = (fb_error b, fb_result b, fb_env b)" and i: "fb_idx b < 256"
    using assms by (auto simp: fb_inv_def)
  define b' where "b' = b\<lparr>fb_buf := (fb_buf b)(fb_idx b := ucast c), fb_idx := Suc (fb_idx b)\<rparr>"
  have e: "concat out @ map (fb_buf b') [0..<fb_idx b'] = map ucast (txt @ [c])"
    using out(2) by (simp add: b'_def map_upt_upd del: upt_Suc)
  have st: "sent wr out s = (fb_error b', fb_result b', fb_env b')" using out(3) by (simp add: b'_def)
  show ?thesis
  proof (cases "fb_idx b = 255")
    case True
    then have p: "fputch wr c b = (writebuf wr b')\<lparr>fb_idx := 0\<rparr>" "fb_idx b' = 256"
      by (simp_all add: fputch_def b'_def Let_def)
    show ?thesis unfolding p(1) fb_inv_def
      by (intro conjI exI [of _ "out @ [map (fb_buf b') [0..<fb_idx b']]"])
        (use out(1) e writebuf_sent [OF st] p(2) in \<open>auto simp del: upt_rec_numeral\<close>)
  next
    case False
    then have p: "fputch wr c b = b'" by (simp add: fputch_def b'_def Let_def)
    show ?thesis unfolding p fb_inv_def
      by (intro conjI exI [of _ out]) (use out(1) e st i False in \<open>simp_all add: b'_def\<close>)
  qed
qed

text \<open>
  fprintf gives the characters to write in chunks of at most 256 until one is not accepted whole. It returns the number of bytes accepted, and only if that is 0
  the first error, or 1 when there was nothing to print.
\<close>

theorem vfprintf_correct:
  "rel_option (\<lambda>(r, s') txt. \<exists>out e n. concat out = map ucast txt \<and> list_all (\<lambda>c. 0 < length c \<and> length c \<le> 256) out \<and>
       sent wr out s = (e, n, s') \<and> r = (if n \<noteq> 0 then sint n else e))
     (vfprintf wr junk m fmt ap s) (printed m fmt ap)"
proof -
  let ?b = "\<lparr>fb_idx = 0, fb_result = 0, fb_error = 1, fb_buf = junk, fb_env = s\<rparr>"
  have "fb_inv wr s ?b []" unfolding fb_inv_def by (intro conjI exI [of _ "[]"]) simp_all
  then have r: "rel_option (fb_inv wr s) (vprintfmt (\<lambda>_. m) (fputch wr) fmt ap ?b) (printed m fmt ap)"
    by (rule vprintfmt_printed) (rule fb_inv_putch)
  show ?thesis
  proof (cases "printed m fmt ap")
    case None
    then show ?thesis using r by (simp add: vfprintf_def)
  next
    case (Some x)
    then obtain b where b: "vprintfmt (\<lambda>_. m) (fputch wr) fmt ap ?b = Some b" "fb_inv wr s b x"
      using r by (auto simp: option_rel_Some2)
    obtain out where out: "\<forall>c \<in> set out. length c = 256" "concat out @ map (fb_buf b) [0..<fb_idx b] = map ucast x"
      "sent wr out s = (fb_error b, fb_result b, fb_env b)" and i: "fb_idx b < 256"
      using b(2) by (auto simp: fb_inv_def)
    define b' where "b' = (if fb_idx b > 0 then writebuf wr b else b)"
    define out' where "out' = (if fb_idx b > 0 then out @ [map (fb_buf b) [0..<fb_idx b]] else out)"
    have "sent wr out' s = (fb_error b', fb_result b', fb_env b')" "concat out' = map ucast x"
      "list_all (\<lambda>c. 0 < length c \<and> length c \<le> 256) out'"
      using writebuf_sent [OF out(3)] out i by (auto simp: b'_def out'_def list_all_iff)
    moreover have "vfprintf wr junk m fmt ap s = Some (if fb_result b' \<noteq> 0 then sint (fb_result b') else fb_error b', fb_env b')"
      by (simp add: vfprintf_def b(1) b'_def Let_def)
    ultimately show ?thesis unfolding Some by (simp only: option.rel_inject prod.case) blast
  qed
qed

end
