(* ===== verification/Readline.thy ===== *)
theory Readline
  imports Console
begin

text \<open>
  lib/readline.c. The input is the list of results of getchar; a negative one is an error. The buffer is a function of
  the index, so that a store past its 1024 places would show.
\<close>

section \<open>Definitions\<close>

definition BUFLEN :: nat where "BUFLEN = 1024"

text \<open>How a call ends: it still waits for input, or it returns NULL or the buffer.\<close>

datatype rl_end = Waiting | Null | Line

record rl_result =
  rl_end :: rl_end
  rl_rest :: "int list"
  rl_buf :: "nat \<Rightarrow> 8 word"
  rl_echo :: "int list"
  rl_error :: "int option"

text \<open>One pass of the loop per character; out is what has been shown so far.\<close>

fun readline_loop :: "bool \<Rightarrow> nat \<Rightarrow> (nat \<Rightarrow> 8 word) \<Rightarrow> int list \<Rightarrow> int list \<Rightarrow> rl_result" where
  "readline_loop echoing i buf out [] = \<lparr>rl_end = Waiting, rl_rest = [], rl_buf = buf, rl_echo = out, rl_error = None\<rparr>"
| "readline_loop echoing i buf out (c # cs) =
     (if c < 0 then
        \<lparr>rl_end = Null, rl_rest = cs, rl_buf = buf, rl_echo = out, rl_error = (if c \<noteq> - E_EOF then Some c else None)\<rparr>
      else if (c = 8 \<or> c = 0x7F) \<and> i > 0 then
        readline_loop echoing (i - 1) buf (if echoing then out @ [8] else out) cs
      else if c \<ge> 32 \<and> i < BUFLEN - 1 then
        readline_loop echoing (i + 1) (buf(i := of_int c)) (if echoing then out @ [c] else out) cs
      else if c = 10 \<or> c = 13 then
        \<lparr>rl_end = Line, rl_rest = cs, rl_buf = buf(i := 0), rl_echo = (if echoing then out @ [10] else out), rl_error = None\<rparr>
      else readline_loop echoing i buf out cs)"

definition readline :: "bool \<Rightarrow> (nat \<Rightarrow> 8 word) \<Rightarrow> int list \<Rightarrow> rl_result" where
  "readline echoing buf cs = readline_loop echoing 0 buf [] cs"

section \<open>The line\<close>

text \<open>What a character does to the line on the screen.\<close>

definition edit :: "int \<Rightarrow> 8 word list \<Rightarrow> 8 word list" where
  "edit c l =
     (if (c = 8 \<or> c = 0x7F) \<and> l \<noteq> [] then butlast l
      else if c \<ge> 32 \<and> length l < 1023 then l @ [of_int c] else l)"

text \<open>The string that begins at index p of a buffer of 1024 bytes.\<close>

definition str_at :: "(nat \<Rightarrow> 8 word) \<Rightarrow> nat \<Rightarrow> 8 word list" where
  "str_at buf p = takeWhile (\<lambda>c. c \<noteq> 0) (map buf [p..<BUFLEN])"

definition holds_line :: "(nat \<Rightarrow> 8 word) \<Rightarrow> 8 word list \<Rightarrow> bool" where
  "holds_line buf l \<longleftrightarrow> length l \<le> 1023 \<and> (\<forall>j < length l. buf j = l ! j)"

lemma holds_line_edit:
  assumes "holds_line buf l" "0 \<le> c"
  shows "holds_line (if \<not> ((c = 8 \<or> c = 0x7F) \<and> l \<noteq> []) \<and> c \<ge> 32 \<and> length l < 1023 then buf(length l := of_int c) else buf) (edit c l)"
  using assms by (auto simp: holds_line_def edit_def nth_butlast nth_append less_Suc_eq)

lemma readline_loop_step:
  assumes "0 \<le> c" "c \<noteq> 10" "c \<noteq> 13"
  shows "\<exists>out'. readline_loop e (length l) buf out (c # cs) =
    readline_loop e (length (edit c l))
      (if \<not> ((c = 8 \<or> c = 0x7F) \<and> l \<noteq> []) \<and> c \<ge> 32 \<and> length l < 1023 then buf(length l := of_int c) else buf) out' cs"
  using assms by (auto simp: edit_def BUFLEN_def)

lemma str_at_line:
  assumes "holds_line buf l" "buf (length l) = 0" "0 \<notin> set l"
  shows "str_at buf 0 = l"
proof -
  have n: "length l < 1024" using assms(1) by (simp add: holds_line_def)
  have "[0..<BUFLEN] = [0..<length l] @ [length l..<BUFLEN]"
    using n upt_add_eq_append [of 0 "length l" "1024 - length l"] by (simp add: BUFLEN_def)
  moreover have "[length l..<BUFLEN] = length l # [Suc (length l)..<BUFLEN]"
    using n by (simp add: upt_conv_Cons BUFLEN_def)
  moreover have "map buf [0..<length l] = l" using assms(1) by (auto simp: holds_line_def intro: nth_equalityI)
  ultimately show ?thesis using assms(2,3)
    by (simp add: str_at_def takeWhile_append) 
qed

lemma edit_chars: "0 \<notin> set l \<Longrightarrow> 0 \<le> c \<Longrightarrow> c < 256 \<Longrightarrow> 0 \<notin> set (edit c l)"
proof -
  assume a: "0 \<notin> set l" "0 \<le> c" "c < 256"
  then have "uint (of_int c :: 8 word) = c" by (simp add: unsigned_of_int take_bit_eq_mod)
  then show ?thesis using a by (auto simp: edit_def dest: in_set_butlastD)
qed

lemma readline_loop_line:
  assumes "\<forall>c \<in> set cs. 0 \<le> c \<and> c < 256 \<and> c \<noteq> 10 \<and> c \<noteq> 13" "nl = 10 \<or> nl = 13" "holds_line buf l" "0 \<notin> set l"
  shows "let r = readline_loop e (length l) buf out (cs @ nl # rest)
    in rl_end r = Line \<and> rl_rest r = rest \<and> str_at (rl_buf r) 0 = fold edit cs l \<and> (\<forall>j \<ge> 1024. rl_buf r j = buf j)"
  using assms
proof (induction cs arbitrary: l buf out)
  case Nil
  have "str_at (buf(length l := 0)) 0 = l" using Nil by (intro str_at_line) (auto simp: holds_line_def)
  then show ?case using Nil by (auto simp: BUFLEN_def holds_line_def Let_def)
next
  case (Cons c cs)
  define b where "b = (if \<not> ((c = 8 \<or> c = 0x7F) \<and> l \<noteq> []) \<and> c \<ge> 32 \<and> length l < 1023 then buf(length l := of_int c) else buf)"
  have c: "0 \<le> c" "c < 256" "c \<noteq> 10" "c \<noteq> 13" using Cons.prems(1) by simp_all
  obtain out' where e: "readline_loop e (length l) buf out (c # cs @ nl # rest) = readline_loop e (length (edit c l)) b out' (cs @ nl # rest)"
    using readline_loop_step [OF c(1,3,4)] unfolding b_def by blast
  have h: "holds_line b (edit c l)" unfolding b_def by (rule holds_line_edit [OF Cons.prems(3) c(1)])
  have b: "\<forall>j \<ge> 1024. b j = buf j" using Cons.prems(3) by (simp add: b_def holds_line_def)
  have z: "0 \<notin> set (edit c l)" by (rule edit_chars [OF Cons.prems(4) c(1,2)])
  show ?case using Cons.IH [OF _ Cons.prems(2) h z, of out'] Cons.prems(1) b unfolding append_Cons e by (simp add: Let_def)
qed

text \<open>
  A line that is typed, with erasures, comes back as the string of the characters that are left; characters that do
  not fit are ignored, the rest of the input is not touched, and no byte past the buffer is written.
\<close>

theorem readline_correct:
  assumes "\<forall>c \<in> set cs. 0 \<le> c \<and> c < 256 \<and> c \<noteq> 10 \<and> c \<noteq> 13" "nl = 10 \<or> nl = 13"
  shows "let r = readline e buf (cs @ nl # rest)
    in rl_end r = Line \<and> rl_rest r = rest \<and> str_at (rl_buf r) 0 = fold edit cs [] \<and> (\<forall>j \<ge> 1024. rl_buf r j = buf j)"
  using readline_loop_line [OF assms, of buf "[]" e "[]" rest] by (simp add: readline_def holds_line_def)

theorem readline_correct_witness:
  "str_at (rl_buf (readline True (\<lambda>_. 1) [108, 120, 8, 115, 10, 99])) 0 = [108, 115]"
  using readline_correct [of "[108, 120, 8, 115]" 10 True "\<lambda>_. 1" "[99]"] by (simp add: Let_def edit_def)

text \<open>DEL erases a character, but as the first one on the line it is stored.\<close>

theorem readline_del_first: "str_at (rl_buf (readline e buf [0x7F, 10])) 0 = [0x7F]"
  using readline_loop_line [of "[0x7F]" 10 buf "[]" e "[]" "[]"] by (simp add: readline_def Let_def edit_def holds_line_def)

end
