(* ===== verification/Sh.thy ===== *)
theory Sh
  imports Readline Printfmt
begin

text \<open>
  The shell, user/sh.c: the tokenizer, which cuts the line into strings in place and is always one token ahead, and
  runcmd. A pointer into the line is its index in readline's buffer of 1024 bytes, None is NULL. The functions
  of the library that runcmd calls are a record of functions on a state. Debugging output is left out.
\<close>

section \<open>The tokenizer\<close>

definition WHITESPACE :: string where "WHITESPACE = [CHR 0x20, CHR 0x09, CHR 0x0D, CHR 0x0A]"
definition SYMBOLS :: string where "SYMBOLS = ''<|>&;()''"

text \<open>strchr(str, c) \<noteq> 0; the NUL at the end of str is not found.\<close>

definition in_string :: "string \<Rightarrow> 8 word \<Rightarrow> bool" where
  "in_string str c \<longleftrightarrow> c \<in> set (chars str)"

partial_function (option) skip_white :: "string \<Rightarrow> (nat \<Rightarrow> 8 word) \<Rightarrow> nat \<Rightarrow> (nat \<times> (nat \<Rightarrow> 8 word)) option" where
  "skip_white w buf s = (if in_string w (buf s) then skip_white w (buf(s := 0)) (s + 1) else Some (s, buf))"

partial_function (option) skip_word :: "(nat \<Rightarrow> 8 word) \<Rightarrow> nat \<Rightarrow> nat option" where
  "skip_word buf s =
     (if buf s \<noteq> 0 \<and> \<not> in_string (WHITESPACE @ SYMBOLS) (buf s) then skip_word buf (s + 1) else Some s)"

record sh_lexer =
  lx_buf :: "nat \<Rightarrow> 8 word"
  lx_nc :: "8 word"
  lx_np1 :: "nat option"
  lx_np2 :: "nat option"

text \<open>_gettoken(s, &np1, &np2), with its result in nc.\<close>

definition scan_token :: "nat option \<Rightarrow> sh_lexer \<Rightarrow> sh_lexer option" where
  "scan_token s lx =
     (case s of None \<Rightarrow> Some (lx\<lparr>lx_nc := 0\<rparr>)
      | Some s \<Rightarrow>
          Option.bind (skip_white WHITESPACE (lx_buf lx) s) (\<lambda>(s, buf).
            let t = buf s
            in if t = 0 then Some \<lparr>lx_buf = buf, lx_nc = 0, lx_np1 = None, lx_np2 = None\<rparr>
               else if in_string SYMBOLS t then
                 Some \<lparr>lx_buf = buf(s := 0), lx_nc = t, lx_np1 = Some s, lx_np2 = Some (s + 1)\<rparr>
               else map_option (\<lambda>e. \<lparr>lx_buf = buf, lx_nc = 119, lx_np1 = Some s, lx_np2 = Some e\<rparr>) (skip_word buf s)))"

definition gettoken_init :: "nat \<Rightarrow> sh_lexer \<Rightarrow> sh_lexer option" where
  "gettoken_init s lx = scan_token (Some s) lx"

definition gettoken :: "sh_lexer \<Rightarrow> (8 word \<times> nat option \<times> sh_lexer) option" where
  "gettoken lx = map_option (\<lambda>lx'. (lx_nc lx, lx_np1 lx, lx')) (scan_token (lx_np2 lx) lx)"

section \<open>runcmd\<close>

definition BUFSIZ :: nat where "BUFSIZ = 1024"
definition MAXARGS :: nat where "MAXARGS = 16"

datatype sh_msg =
  Too_many | No_word "8 word" | Open_failed "8 word" "8 word list" int | Pipe_failed int | Fork_failed int
  | Spawn_failed "8 word list" int

record 's sh_ops =
  op_open :: "8 word list \<Rightarrow> 32 word \<Rightarrow> 's \<Rightarrow> int \<times> 's"
  op_dup :: "int \<Rightarrow> int \<Rightarrow> 's \<Rightarrow> 's"
  op_close :: "int \<Rightarrow> 's \<Rightarrow> 's"
  op_pipe :: "'s \<Rightarrow> (int \<times> int \<times> int) \<times> 's"
  op_fork :: "'s \<Rightarrow> int \<times> 's"
  op_spawn :: "8 word list \<Rightarrow> 8 word list list \<Rightarrow> 's \<Rightarrow> int \<times> 's"
  op_close_all :: "'s \<Rightarrow> 's"
  op_wait :: "int \<Rightarrow> 's \<Rightarrow> 's"
  op_cprintf :: "sh_msg \<Rightarrow> 's \<Rightarrow> 's"

text \<open>exit, the return of runcmd, a panic, or a store past the end of one of runcmd's arrays.\<close>

datatype sh_end = Exits | Returns | Panics | Overruns

text \<open>The part after the label runit; argv are the argument strings.\<close>

definition runit :: "'s sh_ops \<Rightarrow> 8 word list list \<Rightarrow> int \<Rightarrow> 's \<Rightarrow> sh_end \<times> 's" where
  "runit ops argv pipe_child s =
     (case argv of [] \<Rightarrow> (Returns, s)
      | a0 # as \<Rightarrow>
          if take 1 a0 \<noteq> [47] \<and> 1 + length a0 + 1 > BUFSIZ \<or> length argv \<ge> MAXARGS then (Overruns, s)
          else (let path = (if take 1 a0 \<noteq> [47] then 47 # a0 else a0);
                    (r, s) = op_spawn ops path (path # as) s;
                    s = (if r < 0 then op_cprintf ops (Spawn_failed path r) s else s);
                    s = op_close_all ops s;
                    s = (if r \<ge> 0 then op_wait ops r s else s)
                in (Exits, if pipe_child \<noteq> 0 then op_wait ops pipe_child s else s)))"

text \<open>The redirection of descriptor d (0 or 1) to the file path.\<close>

definition redirect :: "'s sh_ops \<Rightarrow> 8 word \<Rightarrow> 8 word list \<Rightarrow> 's \<Rightarrow> bool \<times> 's" where
  "redirect ops c path s =
     (let d = (if c = 60 then 0 else 1); (fd, s) = op_open ops path (if c = 60 then O_RDONLY else O_WRONLY OR O_CREAT OR O_TRUNC) s
      in if fd < 0 then (False, op_cprintf ops (Open_failed c path fd) s)
         else (True, if fd \<noteq> d then op_close ops fd (op_dup ops fd d s) else s))"

text \<open>
  The case of a pipe: the right-hand side goes on (None) in the child, the left-hand side is run by the parent, whose pipe_child is given.
\<close>

definition make_pipe :: "'s sh_ops \<Rightarrow> 's \<Rightarrow> (sh_end + int option) \<times> 's" where
  "make_pipe ops s =
     (let ((r, p0, p1), s) = op_pipe ops s
      in if r < 0 then (Inl Exits, op_cprintf ops (Pipe_failed r) s)
         else (let (r, s) = op_fork ops s
               in if r < 0 then (Inl Exits, op_cprintf ops (Fork_failed r) s)
                  else if r = 0 then
                    (Inr None, op_close ops p1 (if p0 \<noteq> 0 then op_close ops p0 (op_dup ops p0 0 s) else s))
                  else
                    (Inr (Some r), op_close ops p0 (if p1 \<noteq> 1 then op_close ops p1 (op_dup ops p1 1 s) else s))))"

text \<open>The loop; argv are the indices of the arguments.\<close>

partial_function (option) sh_loop :: "'s sh_ops \<Rightarrow> nat list \<Rightarrow> sh_lexer \<Rightarrow> 's \<Rightarrow> (sh_end \<times> 's) option" where
  "sh_loop ops argv lx s =
     Option.bind (gettoken lx) (\<lambda>(c, t, lx).
       if c = 119 then
         (if length argv = MAXARGS then Some (Exits, op_cprintf ops Too_many s) else sh_loop ops (argv @ [the t]) lx s)
       else if c = 60 \<or> c = 62 then
         Option.bind (gettoken lx) (\<lambda>(c', t, lx).
           if c' \<noteq> 119 then Some (Exits, op_cprintf ops (No_word c) s)
           else (case redirect ops c (str_at (lx_buf lx) (the t)) s of (ok, s) \<Rightarrow>
                   if ok then sh_loop ops argv lx s else Some (Exits, s)))
       else if c = 124 then
         (case make_pipe ops s of
            (Inl e, s) \<Rightarrow> Some (e, s)
          | (Inr None, s) \<Rightarrow> sh_loop ops [] lx s
          | (Inr (Some child), s) \<Rightarrow> Some (runit ops (map (str_at (lx_buf lx)) argv) child s))
       else if c = 0 then Some (runit ops (map (str_at (lx_buf lx)) argv) 0 s)
       else Some (Panics, s))"

definition runcmd :: "'s sh_ops \<Rightarrow> (nat \<Rightarrow> 8 word) \<Rightarrow> nat \<Rightarrow> 's \<Rightarrow> (sh_end \<times> 's) option" where
  "runcmd ops buf p s =
     Option.bind (gettoken_init p \<lparr>lx_buf = buf, lx_nc = 0, lx_np1 = None, lx_np2 = None\<rparr>) (\<lambda>lx. sh_loop ops [] lx s)"

section \<open>Tokens of a string\<close>

definition is_word_char :: "8 word \<Rightarrow> bool" where
  "is_word_char c \<longleftrightarrow> \<not> in_string (WHITESPACE @ SYMBOLS) c"

text \<open>The tokens of a line with their strings; a symbol has the empty string.\<close>

function tokens :: "8 word list \<Rightarrow> (8 word \<times> 8 word list) list" where
  "tokens [] = []"
| "tokens (c # cs) =
     (if in_string WHITESPACE c then tokens cs
      else if in_string SYMBOLS c then (c, []) # tokens cs
      else (119, c # takeWhile is_word_char cs) # tokens (dropWhile is_word_char cs))"
  by pat_completeness auto
termination
  by (relation "measure length") (auto simp: length_dropWhile_le less_Suc_eq_le)

lemma chars_strings:
  "set (chars WHITESPACE) = {32, 9, 13, 10}" "set (chars SYMBOLS) = {60, 124, 62, 38, 59, 40, 41}"
  "chars (xs @ ys) = chars xs @ chars ys"
  by (auto simp: chars_def WHITESPACE_def SYMBOLS_def of_char_def)

lemma in_string_iff:
  "in_string WHITESPACE c \<longleftrightarrow> c \<in> {32, 9, 13, 10}" "in_string SYMBOLS c \<longleftrightarrow> c \<in> {60, 124, 62, 38, 59, 40, 41}"
  "is_word_char c \<longleftrightarrow> \<not> in_string WHITESPACE c \<and> \<not> in_string SYMBOLS c"
  by (auto simp: in_string_def is_word_char_def chars_strings)

lemma lex_skip: "tokens r = tokens (dropWhile (in_string WHITESPACE) r)"
  by (induction r) auto

section \<open>The tokenizer against the list of tokens\<close>

definition strz :: "(nat \<Rightarrow> 8 word) \<Rightarrow> nat \<Rightarrow> 8 word list \<Rightarrow> bool" where
  "strz buf s r \<longleftrightarrow> (\<forall>j < length r. buf (s + j) = r ! j) \<and> buf (s + length r) = 0 \<and> 0 \<notin> set r"

lemma strz_Cons: "strz buf s (c # r) \<longleftrightarrow> buf s = c \<and> c \<noteq> 0 \<and> strz buf (Suc s) r"
  by (auto simp: strz_def nth_Cons split: nat.splits)

lemma strz_cong: "(\<And>i. s \<le> i \<Longrightarrow> buf' i = buf i) \<Longrightarrow> strz buf' s r = strz buf s r"
  by (simp add: strz_def)

definition clear :: "nat \<Rightarrow> nat \<Rightarrow> (nat \<Rightarrow> 8 word) \<Rightarrow> nat \<Rightarrow> 8 word" where
  "clear s n buf = (\<lambda>i. if s \<le> i \<and> i < s + n then 0 else buf i)"

lemma clear_0 [simp]: "clear s 0 buf = buf"
  by (auto simp: clear_def fun_eq_iff)

lemma skip_white_eq:
  "\<not> in_string w 0 \<Longrightarrow> strz buf s r \<Longrightarrow>
     skip_white w buf s = Some (s + length (takeWhile (in_string w) r), clear s (length (takeWhile (in_string w) r)) buf)"
proof (induction r arbitrary: s buf)
  case Nil
  then have z: "buf s = 0" by (simp add: strz_def)
  show ?case using Nil(1) z by (subst skip_white.simps) simp
next
  case (Cons c r)
  then have c: "buf s = c" "strz buf (Suc s) r" by (simp_all add: strz_Cons)
  have z: "strz (buf(s := 0)) (Suc s) r" using c(2) strz_cong [of "Suc s" "buf(s := 0)" buf] by simp
  show ?case
  proof (cases "in_string w c")
    case True
    have "clear (Suc s) n (buf(s := 0)) = clear s (Suc n) buf" for n by (auto simp: clear_def fun_eq_iff)
    then show ?thesis using True c(1) Cons.IH [OF Cons.prems(1) z] by (subst skip_white.simps) (simp del: fun_upd_apply)
  next
    case False
    then show ?thesis using c(1) by (subst skip_white.simps) simp
  qed
qed

lemma skip_word_eq: "strz buf s r \<Longrightarrow> skip_word buf s = Some (s + length (takeWhile is_word_char r))"
proof (induction r arbitrary: s)
  case Nil
  then show ?case by (subst skip_word.simps) (simp add: strz_def)
next
  case (Cons c r)
  then show ?case by (subst skip_word.simps) (simp add: strz_Cons flip: is_word_char_def)
qed

lemma strz_drop: "strz buf s (xs @ r) \<Longrightarrow> strz buf (s + length xs) r"
proof (induction xs arbitrary: s)
  case (Cons x xs)
  then show ?case using Cons.IH [of "Suc s"] by (simp add: strz_Cons)
qed simp

text \<open>
  The word w at p is in the buffer and the tokenizer, at q with the string r before it, will not change it; or it has already
  ended it with a NUL.
\<close>

definition kept :: "(nat \<Rightarrow> 8 word) \<Rightarrow> nat \<Rightarrow> 8 word list \<Rightarrow> nat \<times> 8 word list \<Rightarrow> bool" where
  "kept buf q r a \<longleftrightarrow> (case a of (p, w) \<Rightarrow> 0 \<notin> set w \<and> (\<forall>j < length w. buf (p + j) = w ! j) \<and>
     (p + length w < q \<and> buf (p + length w) = 0 \<or> p + length w = q \<and> (r = [] \<or> \<not> is_word_char (hd r))))"

definition ended :: "(nat \<Rightarrow> 8 word) \<Rightarrow> nat \<Rightarrow> nat \<times> 8 word list \<Rightarrow> bool" where
  "ended buf q a \<longleftrightarrow> (case a of (p, w) \<Rightarrow> 0 \<notin> set w \<and> (\<forall>j < length w. buf (p + j) = w ! j) \<and> p + length w < q \<and> buf (p + length w) = 0)"

text \<open>The tokens toks are still to come; A are the words already given out.\<close>

definition lexing :: "sh_lexer \<Rightarrow> (8 word \<times> 8 word list) list \<Rightarrow> (nat \<times> 8 word list) set \<Rightarrow> bool" where
  "lexing lx toks A \<longleftrightarrow>
     (case toks of [] \<Rightarrow> lx_nc lx = 0 \<and> lx_np2 lx = None \<and> (\<forall>a \<in> A. ended (lx_buf lx) BUFLEN a)
      | (c, w) # rest \<Rightarrow> \<exists>p q r. lx_nc lx = c \<and> c \<noteq> 0 \<and> lx_np1 lx = Some p \<and> lx_np2 lx = Some q \<and> q + length r < BUFLEN \<and>
          strz (lx_buf lx) q r \<and> tokens r = rest \<and> (\<forall>a \<in> A. ended (lx_buf lx) q a) \<and>
          (c = 119 \<longrightarrow> kept (lx_buf lx) q r (p, w) \<and> p + length w = q))"

lemma scan_token_lexing:
  assumes "strz (lx_buf lx) q r" "q + length r < BUFLEN" "\<And>a. a \<in> A \<Longrightarrow> kept (lx_buf lx) q r a"
  shows "\<exists>lx'. scan_token (Some q) lx = Some lx' \<and> lexing lx' (tokens r) A"
proof -
  define v where "v = takeWhile (in_string WHITESPACE) r"
  define r' where "r' = dropWhile (in_string WHITESPACE) r"
  define n where "n = length v"
  define buf where "buf = clear q n (lx_buf lx)"
  have r: "r = v @ r'" by (simp add: v_def r'_def)
  have sw: "skip_white WHITESPACE (lx_buf lx) q = Some (q + n, buf)"
    using skip_white_eq [OF _ assms(1), of WHITESPACE] in_string_iff(1) [of 0] by (simp add: v_def n_def buf_def)
  have z: "strz buf (q + n) r'"
  proof -
    have "strz buf (q + n) r' = strz (lx_buf lx) (q + n) r'" by (rule strz_cong) (simp add: buf_def clear_def)
    then show ?thesis using strz_drop [of "lx_buf lx" q v r'] assms(1) r by (simp add: n_def)
  qed
  have lx: "tokens r = tokens r'" by (simp add: r'_def lex_skip [of r])
  have len: "q + n + length r' < BUFLEN" using assms(2) r by (simp add: n_def)
  have e: "ended buf' q' a" if a: "a \<in> A" and q': "q < q'" and b': "\<And>i. i < q \<Longrightarrow> buf' i = lx_buf lx i"
    and bq: "r = [] \<or> \<not> is_word_char (hd r) \<Longrightarrow> buf' q = 0" for a buf' q'
  proof -
    obtain p w where pw: "a = (p, w)" by fastforce
    have k: "0 \<notin> set w" "\<And>j. j < length w \<Longrightarrow> lx_buf lx (p + j) = w ! j" "p + length w \<le> q"
      "p + length w < q \<Longrightarrow> lx_buf lx (p + length w) = 0" "p + length w = q \<Longrightarrow> r = [] \<or> \<not> is_word_char (hd r)"
      using assms(3) [OF a] by (auto simp: kept_def pw)
    have "buf' (p + length w) = 0" using k(3-5) b' bq by (cases "p + length w = q") auto
    then show ?thesis using k(1-3) b' q' by (auto simp: ended_def pw)
  qed
  have b0: "i < q \<Longrightarrow> buf i = lx_buf lx i" for i by (simp add: buf_def clear_def)
  have bn: "n > 0 \<Longrightarrow> buf q = 0" by (simp add: buf_def clear_def)
  show ?thesis
  proof (cases r')
    case Nil
    then have t: "buf (q + n) = 0" using z by (simp add: strz_def)
    have "buf q = 0" using t bn by (cases "n = 0") simp_all
    then have "\<forall>a \<in> A. ended buf BUFLEN a" using e [OF _ _ b0] len by simp
    then show ?thesis using Nil by (simp add: scan_token_def sw t lx lexing_def)
  next
    case (Cons c cs)
    then have t: "buf (q + n) = c" "c \<noteq> 0" "strz buf (Suc (q + n)) cs" using z by (simp_all add: strz_Cons)
    have nw: "\<not> in_string WHITESPACE c" using Cons hd_dropWhile [of "in_string WHITESPACE" r] by (simp add: r'_def)
    show ?thesis
    proof (cases "in_string SYMBOLS c")
      case True
      have "c \<noteq> 119" using True by (auto simp: in_string_iff)
      moreover have "strz (buf(q + n := 0)) (Suc (q + n)) cs" using t(3) strz_cong [of "Suc (q + n)" "buf(q + n := 0)" buf] by simp
      moreover have "ended (buf(q + n := 0)) (Suc (q + n)) a" if "a \<in> A" for a
        by (rule e [OF that]) (use b0 bn in \<open>auto\<close>)
      ultimately show ?thesis using True Cons nw len t(1,2)
        by (auto simp: scan_token_def sw lx lexing_def simp del: fun_upd_apply)
    next
      case False
      have ww: "takeWhile is_word_char (c # cs) = c # takeWhile is_word_char cs" using nw False by (simp add: in_string_iff(3))
      define w where "w = takeWhile is_word_char (c # cs)"
      define r2 where "r2 = dropWhile is_word_char cs"
      have cs: "c # cs = w @ r2" using ww by (simp add: w_def r2_def)
      have z2: "strz buf (q + n + length w) r2" using strz_drop z Cons cs by metis
      have sk: "skip_word buf (q + n) = Some (q + n + length w)" using skip_word_eq [OF z] Cons by (simp add: w_def)
      have zw: "0 \<notin> set w" "\<forall>j < length w. buf (q + n + j) = w ! j"
        using z unfolding Cons cs by (auto simp: strz_def nth_append)
      have d: "r2 = [] \<or> \<not> is_word_char (hd r2)" using hd_dropWhile [of is_word_char cs] by (auto simp: r2_def)
      have "r = [] \<or> \<not> is_word_char (hd r) \<Longrightarrow> buf q = 0"
        using bn Cons r nw False by (cases v) (auto simp: n_def in_string_iff(3))
      then have "\<forall>a \<in> A. ended buf (q + n + length w) a" using e [OF _ _ b0] ww by (simp add: w_def)
      moreover have "q + n + length w + length r2 < BUFLEN" using len Cons cs by (metis add.assoc length_append)
      moreover have "tokens (c # cs) = (119, w) # tokens r2" using nw False ww by (simp add: w_def r2_def)
      ultimately show ?thesis using Cons nw False t(1,2) sk z2 zw d
        by (auto simp: scan_token_def sw lx lexing_def kept_def)
    qed
  qed
qed


lemma kept_ended: "ended buf q a \<Longrightarrow> kept buf q r a"
  by (auto simp: ended_def kept_def)

text \<open>One call of gettoken gives the next token.\<close>

lemma gettoken_token:
  assumes "lexing lx ((c, w) # toks) A"
  shows "\<exists>p lx'. gettoken lx = Some (c, Some p, lx') \<and> c \<noteq> 0 \<and> lexing lx' toks (if c = 119 then insert (p, w) A else A)"
proof -
  obtain p q r where l: "lx_nc lx = c" "c \<noteq> 0" "lx_np1 lx = Some p" "lx_np2 lx = Some q" "q + length r < BUFLEN"
    "strz (lx_buf lx) q r" "tokens r = toks" "\<forall>a \<in> A. ended (lx_buf lx) q a"
    "c = 119 \<longrightarrow> kept (lx_buf lx) q r (p, w) \<and> p + length w = q"
    using assms by (auto simp: lexing_def)
  have "kept (lx_buf lx) q r a" if "a \<in> (if c = 119 then insert (p, w) A else A)" for a
  proof (cases "a \<in> A")
    case True
    then have "ended (lx_buf lx) q a" using l(8) by blast
    then show ?thesis by (rule kept_ended)
  next
    case False
    then show ?thesis using l(9) that by (auto split: if_splits)
  qed
  from scan_token_lexing [of lx q r, OF l(6,5) this]
  obtain lx' where "scan_token (Some q) lx = Some lx'" "lexing lx' toks (if c = 119 then insert (p, w) A else A)"
    using l(7) by blast
  then show ?thesis using l(1-4) by (auto simp: gettoken_def)
qed

lemma gettoken_end:
  assumes "lexing lx [] A"
  shows "\<exists>t lx'. gettoken lx = Some (0, t, lx') \<and> lexing lx' [] A"
  using assms by (auto simp: gettoken_def scan_token_def lexing_def)

text \<open>A word that has been given out and followed by another call is the string at its place.\<close>

lemma str_at_ended:
  assumes "ended buf q (p, w)" "q \<le> BUFLEN"
  shows "str_at buf p = w"
proof -
  have e: "0 \<notin> set w" "\<forall>j < length w. buf (p + j) = w ! j" "p + length w < BUFLEN" "buf (p + length w) = 0"
    using assms by (auto simp: ended_def)
  have "[p..<BUFLEN] = [p..<p + length w] @ [p + length w..<BUFLEN]"
    using e(3) upt_add_eq_append [of p "p + length w" "BUFLEN - (p + length w)"] by simp
  moreover have "[p + length w..<BUFLEN] = (p + length w) # [Suc (p + length w)..<BUFLEN]"
    using e(3) by (simp add: upt_conv_Cons)
  moreover have "map buf [p..<p + length w] = w" using e(2) by (intro nth_equalityI) simp_all
  ultimately show ?thesis using e(1,4) by (simp add: str_at_def takeWhile_append)
qed

lemma lexing_str:
  assumes "lexing lx toks A" "(p, w) \<in> A"
  shows "str_at (lx_buf lx) p = w"
proof (cases toks)
  case Nil
  then show ?thesis using assms by (auto simp: lexing_def intro: str_at_ended)
next
  case (Cons t ts)
  then show ?thesis using assms by (auto simp: lexing_def intro!: str_at_ended [of _ _ p w] split: prod.splits)
qed

lemma args_str:
  assumes "lexing lx toks A" "length ps = length argv" "set (zip ps argv) \<subseteq> A"
  shows "map (str_at (lx_buf lx)) ps = argv"
  using assms(2,3) lexing_str [OF assms(1)] by (induction ps argv rule: list_induct2) auto

lemma gettoken_init_lexing:
  assumes "strz buf p l" "p + length l < BUFLEN"
  shows "\<exists>lx. gettoken_init p \<lparr>lx_buf = buf, lx_nc = nc, lx_np1 = a, lx_np2 = b\<rparr> = Some lx \<and> lexing lx (tokens l) {}"
  using scan_token_lexing [of "\<lparr>lx_buf = buf, lx_nc = nc, lx_np1 = a, lx_np2 = b\<rparr>" p l "{}"] assms
  by (simp add: gettoken_init_def)

section \<open>runcmd against the list of tokens\<close>

text \<open>The command over its tokens; argv are the arguments so far.\<close>

fun run_tokens :: "'s sh_ops \<Rightarrow> 8 word list list \<Rightarrow> (8 word \<times> 8 word list) list \<Rightarrow> 's \<Rightarrow> sh_end \<times> 's" where
  "run_tokens ops argv [] s = runit ops argv 0 s"
| "run_tokens ops argv ((c, w) # toks) s =
     (if c = 119 then
        (if length argv = MAXARGS then (Exits, op_cprintf ops Too_many s) else run_tokens ops (argv @ [w]) toks s)
      else if c = 60 \<or> c = 62 then
        (case toks of (c', path) # toks' \<Rightarrow>
           if c' \<noteq> 119 then (Exits, op_cprintf ops (No_word c) s)
           else (case redirect ops c path s of (ok, s) \<Rightarrow> if ok then run_tokens ops argv toks' s else (Exits, s))
         | [] \<Rightarrow> (Exits, op_cprintf ops (No_word c) s))
      else if c = 124 then
        (case make_pipe ops s of
           (Inl e, s) \<Rightarrow> (e, s)
         | (Inr None, s) \<Rightarrow> run_tokens ops [] toks s
         | (Inr (Some child), s) \<Rightarrow> runit ops argv child s)
      else (Panics, s))"

lemma sh_loop_tokens:
  assumes "lexing lx toks A" "length ps = length argv" "set (zip ps argv) \<subseteq> A"
  shows "sh_loop ops ps lx s = Some (run_tokens ops argv toks s)"
  using assms
proof (induction ops argv toks s arbitrary: lx ps A rule: run_tokens.induct)
  case (1 ops argv s)
  obtain t lx' where g: "gettoken lx = Some (0, t, lx')" "lexing lx' [] A" using gettoken_end [OF 1(1)] by blast
  have "map (str_at (lx_buf lx')) ps = argv" by (rule args_str [OF g(2) 1(2,3)])
  then show ?case by (subst sh_loop.simps) (simp add: g(1))
next
  case (2 ops argv c w toks s)
  obtain p lx1 where g: "gettoken lx = Some (c, Some p, lx1)" "c \<noteq> 0" "lexing lx1 toks (if c = 119 then insert (p, w) A else A)"
    using gettoken_token [OF "2.prems"(1)] by blast
  show ?case
  proof (cases "c = 119")
    case True
    show ?thesis
    proof (cases "length argv = MAXARGS")
      case True
      then show ?thesis using \<open>c = 119\<close> "2.prems"(2) by (subst sh_loop.simps) (simp add: g(1))
    next
      case False
      have "sh_loop ops (ps @ [p]) lx1 s = Some (run_tokens ops (argv @ [w]) toks s)"
        by (rule 2(1) [OF True False]) (use g(3) True "2.prems"(2,3) in auto)
      then show ?thesis using False True "2.prems"(2) by (subst sh_loop.simps) (simp add: g(1))
    qed
  next
    case nw: False
    then have l1: "lexing lx1 toks A" using g(3) by simp
    have argv: "map (str_at (lx_buf lx1)) ps = argv" by (rule args_str [OF l1 "2.prems"(2,3)])
    show ?thesis
    proof (cases "c = 60 \<or> c = 62")
      case True
      show ?thesis
      proof (cases toks)
        case Nil
        obtain t lx2 where "gettoken lx1 = Some (0, t, lx2)" using gettoken_end l1 Nil by blast
        then show ?thesis using Nil nw True by (subst sh_loop.simps) (simp add: g(1))
      next
        case (Cons x toks')
        obtain c' path where x: "x = (c', path)" by fastforce
        obtain p' lx2 where g2: "gettoken lx1 = Some (c', Some p', lx2)" "lexing lx2 toks' (if c' = 119 then insert (p', path) A else A)"
          using gettoken_token l1 Cons x by blast
        show ?thesis
        proof (cases "c' = 119")
          case False
          then show ?thesis using Cons x nw True by (subst sh_loop.simps) (simp add: g(1) g2(1))
        next
          case w: True
          then have l2: "lexing lx2 toks' (insert (p', path) A)" using g2(2) by simp
          have path: "str_at (lx_buf lx2) p' = path" by (rule lexing_str [OF l2]) simp
          obtain ok s' where rd: "redirect ops c path s = (ok, s')" by fastforce
          show ?thesis
          proof (cases ok)
            case False
            then show ?thesis using Cons x nw True w rd path by (subst sh_loop.simps) (simp add: g(1) g2(1))
          next
            case ok: True
            have "sh_loop ops ps lx2 s' = Some (run_tokens ops argv toks' s')"
              by (rule 2(2) [OF nw True Cons x [symmetric] _ rd [symmetric] ok l2 "2.prems"(2)]) (use w "2.prems"(3) in auto)
            then show ?thesis using ok Cons x nw True w rd path by (subst sh_loop.simps) (simp add: g(1) g2(1))
          qed
        qed
      qed
    next
      case nr: False
      show ?thesis
      proof (cases "c = 124")
        case True
        obtain x s' where mp: "make_pipe ops s = (x, s')" by fastforce
        show ?thesis
        proof (cases x)
          case (Inl e)
          then show ?thesis using nw nr True mp by (subst sh_loop.simps) (simp add: g(1))
        next
          case (Inr y)
          show ?thesis
          proof (cases y)
            case None
            have "sh_loop ops [] lx1 s' = Some (run_tokens ops [] toks s')"
              by (rule 2(3) [OF nw nr True mp [symmetric]]) (use Inr None l1 in auto)
            then show ?thesis using nw nr True mp Inr None by (subst sh_loop.simps) (simp add: g(1))
          next
            case (Some child)
            then show ?thesis using nw nr True mp Inr argv by (subst sh_loop.simps) (simp add: g(1))
          qed
        qed
      next
        case False
        then show ?thesis using nw nr g(2) by (subst sh_loop.simps) (simp add: g(1))
      qed
    qed
  qed
qed



definition line_of :: "8 word list \<Rightarrow> nat \<Rightarrow> 8 word" where
  "line_of l i = (if i < length l then l ! i else 0)"

lemma strz_line: "0 \<notin> set l \<Longrightarrow> strz (line_of l) 0 l"
  by (simp add: strz_def line_of_def)



lemma run_words:
  "length argv + length ws \<le> MAXARGS \<Longrightarrow> run_tokens ops argv (map (Pair 119) ws) s = runit ops (argv @ ws) 0 s"
  by (induction ws arbitrary: argv) auto

text \<open>
  A line of 16 words gets past the check of argc, and the NULL that ends argv is stored past the end of argv.
\<close>

theorem sixteen_args_overrun:
  assumes "strz buf p l" "p + length l < BUFLEN" "tokens l = map (Pair 119) ws" "length ws = 16"
  shows "runcmd ops buf p s = Some (Overruns, s)"
proof -
  obtain a as where "ws = a # as" using assms(4) by (cases ws) auto
  then have "runit ops ws 0 s = (Overruns, s)" using assms(4) by (simp add: runit_def MAXARGS_def)
  moreover obtain lx where "gettoken_init p \<lparr>lx_buf = buf, lx_nc = 0, lx_np1 = None, lx_np2 = None\<rparr> = Some lx" "lexing lx (tokens l) {}"
    using gettoken_init_lexing [OF assms(1,2)] by blast
  moreover have "run_tokens ops [] (map (Pair 119) ws) s = runit ops ws 0 s"
    using run_words [of "[]" ws ops s] assms(4) by (simp add: MAXARGS_def)
  ultimately show ?thesis using sh_loop_tokens [of _ "map (Pair 119) ws" "{}" "[]" "[]" ops s] assms(3) by (simp add: runcmd_def)
qed

lemma tokens_pairs: "tokens (concat (replicate n [97, 32])) = map (Pair 119) (replicate n [97])"
  by (induction n) (auto simp: in_string_iff)

theorem sixteen_args_overrun_witness:
  "runcmd (ops :: unit sh_ops) (line_of (concat (replicate 16 [97, 32]))) 0 () = Some (Overruns, ())"
  by (rule sixteen_args_overrun [OF strz_line _ tokens_pairs]) (simp_all add: BUFLEN_def length_concat sum_list_replicate)

end
