(* ===== verification/Monitor.thy ===== *)
theory Monitor
  imports Sh
begin

text \<open>
  The kernel monitor, kern/monitor.c: the command line is cut up in place like the shell's, the first word is looked up in the
  table of commands, and the command memory lists the runs of allocated and free pages.
\<close>

section \<open>Definitions\<close>

definition MON_WHITESPACE :: string where "MON_WHITESPACE = [CHR 0x09, CHR 0x0D, CHR 0x0A, CHR 0x20]"

definition mon_commands :: "(string \<times> string) list" where
  "mon_commands =
     [(''help'', ''Display this list of commands''),
      (''kerninfo'', ''Display information about the kernel''),
      (''test'', ''Display something''),
      (''backtrace'', ''Display stack backtrace''),
      (''timer_start'', ''Start the countdown''),
      (''timer_stop'', ''Display time in seconds since last start call''),
      (''memory'', ''Display physical page status'')]"

definition mon_help :: "string list" where
  "mon_help = map (\<lambda>(name, desc). name @ '' - '' @ desc @ [CHR 0x0A]) mon_commands"

partial_function (option) mon_skip_word :: "(nat \<Rightarrow> 8 word) \<Rightarrow> nat \<Rightarrow> nat option" where
  "mon_skip_word buf s =
     (if buf s \<noteq> 0 \<and> \<not> in_string MON_WHITESPACE (buf s) then mon_skip_word buf (s + 1) else Some s)"

text \<open>What a line leads to: nothing, a message, or the call of a command with its arguments.\<close>

datatype mon_act = No_command | Too_many_args | Unknown "8 word list" | Call nat "8 word list list"

text \<open>The index of the command with this name.\<close>

fun mon_find :: "8 word list \<Rightarrow> nat \<Rightarrow> (string \<times> string) list \<Rightarrow> nat option" where
  "mon_find name i [] = None"
| "mon_find name i (c # cs) = (if name = chars (fst c) then Some i else mon_find name (Suc i) cs)"

partial_function (option) mon_args :: "nat list \<Rightarrow> (nat \<Rightarrow> 8 word) \<Rightarrow> nat \<Rightarrow> (nat list option \<times> (nat \<Rightarrow> 8 word)) option" where
  "mon_args argv buf s =
     Option.bind (skip_white MON_WHITESPACE buf s) (\<lambda>(s, buf).
       if buf s = 0 then Some (Some argv, buf)
       else if length argv = MAXARGS - 1 then Some (None, buf)
       else Option.bind (mon_skip_word buf s) (\<lambda>e. mon_args (argv @ [s]) buf e))"

definition mon_runcmd :: "(nat \<Rightarrow> 8 word) \<Rightarrow> nat \<Rightarrow> mon_act option" where
  "mon_runcmd buf p =
     map_option (\<lambda>(argv, buf).
       case argv of
         None \<Rightarrow> Too_many_args
       | Some argv \<Rightarrow>
           (case map (str_at buf) argv of
              [] \<Rightarrow> No_command
            | a0 # as \<Rightarrow>
                (case mon_find a0 0 mon_commands of
                   Some i \<Rightarrow> Call i (a0 # as)
                 | None \<Rightarrow> Unknown a0)))
       (mon_args [] buf p)"

text \<open>
  mon_memory: refs says of each page whether its reference count is not zero. A run is printed as first..last or, if
  both are equal, first; the numbers count from 1.
\<close>

record mem_scan =
  ms_start :: nat
  ms_state :: bool
  ms_out :: "(nat \<times> nat \<times> bool) list"

definition mem_step :: "nat \<times> bool \<Rightarrow> mem_scan \<Rightarrow> mem_scan" where
  "mem_step a m =
     (case a of (i, ref_flag) \<Rightarrow>
        if ms_state m \<noteq> ref_flag
        then m\<lparr>ms_out := ms_out m @ [(ms_start m, i, ms_state m)], ms_start := i + 1, ms_state := ref_flag\<rparr>
        else m)"

definition mon_memory :: "bool list \<Rightarrow> (nat \<times> nat \<times> bool) list" where
  "mon_memory refs =
     (let m = fold mem_step (enumerate 0 refs) \<lparr>ms_start = 1, ms_state = True, ms_out = []\<rparr>
      in if ms_start m \<noteq> length refs then ms_out m @ [(ms_start m, length refs, ms_state m)] else ms_out m)"

text \<open>
  mon_backtrace: the frames along the frame_chain of saved frame pointers, each with its return address and four arguments, which
  debuginfo_eip describes. None means that the frame_chain does not end.
\<close>

partial_function (option) mon_backtrace :: "(32 word \<Rightarrow> 32 word) \<Rightarrow> 32 word \<Rightarrow> (32 word \<times> 32 word \<times> 32 word list) list option" where
  "mon_backtrace rd ebp =
     (if ebp = 0 then Some []
      else Option.bind (mon_backtrace rd (rd ebp)) (\<lambda>fs. Some ((ebp, rd (ebp + 4), map (\<lambda>i. rd (ebp + 4 * of_nat i)) [2..<6]) # fs)))"

section \<open>The command line\<close>

definition mon_word_char :: "8 word \<Rightarrow> bool" where
  "mon_word_char c \<longleftrightarrow> \<not> in_string MON_WHITESPACE c"

text \<open>The words of a line.\<close>

function line_words :: "8 word list \<Rightarrow> 8 word list list" where
  "line_words [] = []"
| "line_words (c # cs) =
     (if in_string MON_WHITESPACE c then line_words cs
      else (c # takeWhile mon_word_char cs) # line_words (dropWhile mon_word_char cs))"
  by pat_completeness auto
termination
  by (relation "measure length") (auto simp: length_dropWhile_le less_Suc_eq_le)

lemma mon_white: "in_string MON_WHITESPACE c \<longleftrightarrow> c \<in> {9, 13, 10, 32}"
  by (auto simp: in_string_def chars_def MON_WHITESPACE_def of_char_def)

lemma words_skip: "line_words r = line_words (dropWhile (in_string MON_WHITESPACE) r)"
  by (induction r) auto

lemma mon_skip_word_eq: "strz buf s r \<Longrightarrow> mon_skip_word buf s = Some (s + length (takeWhile mon_word_char r))"
proof (induction r arbitrary: s)
  case Nil
  then show ?case by (subst mon_skip_word.simps) (simp add: strz_def)
next
  case (Cons c r)
  then show ?case by (subst mon_skip_word.simps) (simp add: strz_Cons flip: mon_word_char_def)
qed

text \<open>
  w is at p, before s; what follows it is a NUL, or the character at s that will be cleared.
\<close>

definition found :: "(nat \<Rightarrow> 8 word) \<Rightarrow> nat \<Rightarrow> nat \<Rightarrow> 8 word list \<Rightarrow> bool" where
  "found buf s p w \<longleftrightarrow> 0 \<notin> set w \<and> (\<forall>j < length w. buf (p + j) = w ! j) \<and> (p + length w < s \<and> buf (p + length w) = 0 \<or> p + length w = s)"

lemma found_str:
  assumes "found buf s p w" "s < BUFLEN" "buf s = 0"
  shows "str_at buf p = w"
  using assms by (intro str_at_ended [of buf BUFLEN]) (auto simp: found_def ended_def)

lemma found_clear:
  assumes "found buf s p w" "strz buf s r" "r = [] \<or> in_string MON_WHITESPACE (hd r)"
    and "n = length (takeWhile (in_string MON_WHITESPACE) r)"
  shows "found (clear s n buf) (s + n) p w" "0 < n \<longrightarrow> p + length w < s + n"
proof -
  have "\<forall>j < length w. clear s n buf (p + j) = w ! j" using assms(1) by (auto simp: found_def clear_def)
  moreover have "p + length w < s + n \<and> clear s n buf (p + length w) = 0 \<or> p + length w = s + n"
  proof (cases "p + length w < s")
    case True
    then show ?thesis using assms(1) by (auto simp: found_def clear_def)
  next
    case False
    then have e: "p + length w = s" using assms(1) by (auto simp: found_def)
    then show ?thesis by (cases "n = 0") (simp_all add: clear_def)
  qed
  ultimately show "found (clear s n buf) (s + n) p w" using assms(1) by (simp add: found_def)
  show "0 < n \<longrightarrow> p + length w < s + n" using assms(1) by (auto simp: found_def)
qed

lemma mon_args_words:
  assumes "strz buf s r" "s + length r < BUFLEN" "length argv \<le> MAXARGS - 1"
    and "list_all2 (found buf s) argv ws" "r = [] \<or> in_string MON_WHITESPACE (hd r) \<or> argv = []"
  shows "\<exists>ps buf'. mon_args argv buf s = Some (ps, buf') \<and>
    (if length ws + length (line_words r) \<ge> MAXARGS then ps = None
     else \<exists>as. ps = Some as \<and> map (str_at buf') as = ws @ line_words r)"
  using assms
proof (induction "length r" arbitrary: r buf s argv ws rule: less_induct)
  case less
  define v where "v = takeWhile (in_string MON_WHITESPACE) r"
  define r' where "r' = dropWhile (in_string MON_WHITESPACE) r"
  define n where "n = length v"
  define b where "b = clear s n buf"
  have r: "r = v @ r'" by (simp add: v_def r'_def)
  have sw: "skip_white MON_WHITESPACE buf s = Some (s + n, b)"
    using skip_white_eq [OF _ less.prems(1), of MON_WHITESPACE] mon_white [of 0] by (simp add: v_def n_def b_def)
  have z: "strz b (s + n) r'"
  proof -
    have "strz b (s + n) r' = strz buf (s + n) r'" by (rule strz_cong) (simp add: b_def clear_def)
    then show ?thesis using strz_drop [of buf s v r'] less.prems(1) r by (simp add: n_def)
  qed
  have len: "s + n + length r' < BUFLEN" using less.prems(2) r by (simp add: n_def)
  have ws: "line_words r = line_words r'" by (simp add: r'_def words_skip [of r])
  have lws: "length argv = length ws" using less.prems(4) by (rule list_all2_lengthD)
  have f: "list_all2 (\<lambda>p w. found b (s + n) p w \<and> (0 < n \<longrightarrow> p + length w < s + n)) argv ws"
  proof (cases "argv = []")
    case False
    then have "\<And>p w. found buf s p w \<Longrightarrow> found b (s + n) p w \<and> (0 < n \<longrightarrow> p + length w < s + n)"
      using found_clear [OF _ less.prems(1)] less.prems(5) by (simp add: b_def n_def v_def)
    then show ?thesis using less.prems(4) by (rule list_all2_mono [rotated])
  qed (use lws in simp)
  show ?case
  proof (cases r')
    case Nil
    then have t: "b (s + n) = 0" using z by (simp add: strz_def)
    have "map (str_at b) argv = ws"
      using f by (rule list_all2_induct) (use found_str t len in auto)
    moreover have "mon_args argv buf s = Some (Some argv, b)"
      by (subst mon_args.simps) (simp add: sw t)
    moreover have "length ws < MAXARGS" using less.prems(3) lws by (simp add: MAXARGS_def)
    ultimately show ?thesis using Nil ws by simp
  next
    case (Cons c cs)
    then have t: "b (s + n) = c" "c \<noteq> 0" using z by (simp_all add: strz_Cons)
    have nw: "\<not> in_string MON_WHITESPACE c" using Cons hd_dropWhile [of "in_string MON_WHITESPACE" r] by (simp add: r'_def)
    define w where "w = c # takeWhile mon_word_char cs"
    define r2 where "r2 = dropWhile mon_word_char cs"
    have tw: "takeWhile mon_word_char (c # cs) = w" using nw by (simp add: mon_word_char_def w_def)
    have cs: "c # cs = w @ r2" by (simp add: w_def r2_def)
    have lw: "line_words r' = w # line_words r2" using Cons nw by (simp add: w_def r2_def)
    show ?thesis
    proof (cases "length argv = MAXARGS - 1")
      case True
      have "mon_args argv buf s = Some (None, b)" by (subst mon_args.simps) (simp add: sw t True)
      moreover have "length ws + length (line_words r) \<ge> MAXARGS" using True lws ws lw by (simp add: MAXARGS_def)
      ultimately show ?thesis by simp
    next
      case False
      have sk: "mon_skip_word b (s + n) = Some (s + n + length w)" using mon_skip_word_eq [OF z] Cons tw by simp
      have zw: "0 \<notin> set w" "\<forall>j < length w. b (s + n + j) = w ! j"
        using z unfolding Cons cs by (auto simp: strz_def nth_append)
      have z2: "strz b (s + n + length w) r2" using strz_drop z Cons cs by metis
      have d: "r2 = [] \<or> in_string MON_WHITESPACE (hd r2)"
        using hd_dropWhile [of mon_word_char cs] by (auto simp: r2_def mon_word_char_def)
      have f1: "list_all2 (found b (s + n + length w)) argv ws"
      proof (cases "argv = []")
        case False
        then have "0 < n" using less.prems(5) Cons r by (cases v) (auto simp: n_def nw)
        then have "found b (s + n + length w) p u" if "found b (s + n) p u \<and> (0 < n \<longrightarrow> p + length u < s + n)" for p u
          using that by (auto simp: found_def)
        then show ?thesis using f by (rule list_all2_mono [rotated])
      qed (use lws in simp)
      have f2: "list_all2 (found b (s + n + length w)) (argv @ [s + n]) (ws @ [w])"
        using zw lws by (simp add: list_all2_append f1) (simp add: found_def)
      have l2: "length r2 < length r" 
        using arg_cong [OF r, of length] Cons length_dropWhile_le [of mon_word_char cs] by (simp add: r2_def)
      have "s + n + length w + length r2 < BUFLEN" using len Cons cs by (metis add.assoc length_append)
      from less.hyps [OF l2 z2 this _ f2] d less.prems(3) False
      obtain ps b' where h: "mon_args (argv @ [s + n]) b (s + n + length w) = Some (ps, b')"
        "if length (ws @ [w]) + length (line_words r2) \<ge> MAXARGS then ps = None
         else \<exists>as. ps = Some as \<and> map (str_at b') as = (ws @ [w]) @ line_words r2" by force
      have "mon_args argv buf s = mon_args (argv @ [s + n]) b (s + n + length w)"
        by (subst mon_args.simps) (use False in \<open>simp add: sw t sk\<close>)
      moreover have "(ws @ [w]) @ line_words r2 = ws @ line_words r" "length (ws @ [w]) + length (line_words r2) = length ws + length (line_words r)"
        unfolding ws lw by simp_all
      ultimately show ?thesis using h unfolding ws lw by (intro exI [of _ ps] exI [of _ b']) (simp split: if_splits)
    qed
  qed
qed

text \<open>
  The monitor's command line: the words of the line, up to 15 of them, are the arguments of the command that the first one names; more words are refused,
  an unknown name is reported and an empty line does nothing.
\<close>

theorem mon_runcmd_correct:
  assumes "strz buf p l" "p + length l < BUFLEN"
  shows "mon_runcmd buf p = Some
    (if length (line_words l) \<ge> 16 then Too_many_args
     else if line_words l = [] then No_command
     else case mon_find (hd (line_words l)) 0 mon_commands of Some i \<Rightarrow> Call i (line_words l) | None \<Rightarrow> Unknown (hd (line_words l)))"
proof -
  obtain ps buf' where a: "mon_args [] buf p = Some (ps, buf')"
    "if length (line_words l) \<ge> 16 then ps = None else \<exists>as. ps = Some as \<and> map (str_at buf') as = line_words l"
    using mon_args_words [OF assms, of "[]" "[]"] unfolding MAXARGS_def by (simp only: append_Nil) auto
  show ?thesis
  proof (cases "length (line_words l) \<ge> 16")
    case True
    then show ?thesis using a by (simp add: mon_runcmd_def)
  next
    case False
    then obtain as where as: "ps = Some as" "map (str_at buf') as = line_words l" using a(2) by auto
    then show ?thesis using False a(1) unfolding as(2) [symmetric]
      by (cases "map (str_at buf') as") (simp_all add: mon_runcmd_def split: option.split)
  qed
qed

theorem mon_runcmd_correct_witness:
  "mon_runcmd (line_of (chars '' memory 7'')) 0 = Some (Call 6 [chars ''memory'', chars ''7''])"
proof -
  have l: "chars '' memory 7'' = [32, 109, 101, 109, 111, 114, 121, 32, 55]" "chars ''memory'' = [109, 101, 109, 111, 114, 121]" "chars ''7'' = [55]"
    by (simp_all add: chars_def of_char_def)
  have w: "line_words [32, 109, 101, 109, 111, 114, 121, 32, 55] = [[109, 101, 109, 111, 114, 121], [55]]"
    by (simp add: mon_white mon_word_char_def)
  have m: "mon_find [109, 101, 109, 111, 114, 121] 0 mon_commands = Some 6" by (simp add: mon_commands_def chars_def of_char_def)
  show ?thesis unfolding l
    using mon_runcmd_correct [OF strz_line, of "[32, 109, 101, 109, 111, 114, 121, 32, 55]"] by (simp only: w) (simp add: BUFLEN_def m)
qed

section \<open>The backtrace\<close>

text \<open>Saved frame pointers that lead to 0 through the places es.\<close>

fun frame_chain :: "(32 word \<Rightarrow> 32 word) \<Rightarrow> 32 word \<Rightarrow> 32 word list \<Rightarrow> bool" where
  "frame_chain rd ebp [] \<longleftrightarrow> ebp = 0"
| "frame_chain rd ebp (e # es) \<longleftrightarrow> ebp = e \<and> e \<noteq> 0 \<and> frame_chain rd (rd e) es"

theorem mon_backtrace_chain:
  "frame_chain rd ebp es \<Longrightarrow> mon_backtrace rd ebp = Some (map (\<lambda>e. (e, rd (e + 4), map (\<lambda>i. rd (e + 4 * of_nat i)) [2..<6])) es)"
proof (induction es arbitrary: ebp)
  case Nil
  then show ?case by (subst mon_backtrace.simps) simp
next
  case (Cons e es)
  then show ?case by (subst mon_backtrace.simps) (simp del: upt_rec_numeral)
qed

section \<open>The list of pages\<close>

definition expand :: "(nat \<times> nat \<times> bool) list \<Rightarrow> bool list" where
  "expand out = concat (map (\<lambda>(a, b, f). replicate (Suc b - a) f) out)"

lemma expand_simps [simp]:
  "expand [] = []" "expand (out @ [(a, b, f)]) = expand out @ replicate (Suc b - a) f"
  by (simp_all add: expand_def)

text \<open>After the pages refs: the runs written out and the one that is still open, which differs from the last one.\<close>

definition scanned :: "bool list \<Rightarrow> mem_scan \<Rightarrow> bool" where
  "scanned refs m \<longleftrightarrow> 0 < ms_start m \<and> ms_start m \<le> length refs \<and>
     refs = expand (ms_out m) @ replicate (Suc (length refs) - ms_start m) (ms_state m) \<and>
     (if expand (ms_out m) = [] then ms_start m = 1 else last (expand (ms_out m)) \<noteq> ms_state m)"

lemma scanned_step:
  assumes "scanned refs m"
  shows "scanned (refs @ [f]) (mem_step (length refs, f) m)"
proof -
  define n where "n = Suc (length refs) - ms_start m"
  have n: "0 < n" "Suc (length (refs @ [f])) - ms_start m = Suc n" using assms by (simp_all add: scanned_def n_def Suc_diff_le)
  have r: "refs = expand (ms_out m) @ replicate n (ms_state m)" using assms by (simp add: scanned_def n_def)
  show ?thesis
  proof (cases "ms_state m = f")
    case True
    then have a: "refs @ [f] = expand (ms_out m) @ replicate (Suc n) (ms_state m)"
      by (subst r) (simp add: replicate_append_same)
    have b: "mem_step (length refs, f) m = m" using True by (simp add: mem_step_def)
    have c: "0 < ms_start m" "ms_start m \<le> length (refs @ [f])" using assms by (simp_all add: scanned_def)
    have d: "if expand (ms_out m) = [] then ms_start m = 1 else last (expand (ms_out m)) \<noteq> ms_state m"
      using assms unfolding scanned_def by blast
    show ?thesis unfolding scanned_def b n(2) by (intro conjI) (fact a c d)+
  next
    case False
    then have "mem_step (length refs, f) m =
        m\<lparr>ms_out := ms_out m @ [(ms_start m, length refs, ms_state m)], ms_start := Suc (length refs), ms_state := f\<rparr>"
      by (simp add: mem_step_def)
    moreover have "expand (ms_out m @ [(ms_start m, length refs, ms_state m)]) = refs"
      by (subst (2) r) (simp add: n_def)
    moreover have "refs \<noteq> []" "last refs = ms_state m" using r n(1) by (metis append_is_Nil_conv gr0_conv_Suc last_appendR last_replicate neq0_conv replicate_empty)+
    ultimately show ?thesis using False by (simp add: scanned_def)
  qed
qed

lemma scanned_all:
  "scanned (True # refs) (fold mem_step (enumerate 0 (True # refs)) \<lparr>ms_start = 1, ms_state = True, ms_out = []\<rparr>)"
proof (induction refs rule: rev_induct)
  case Nil
  show ?case by (simp add: scanned_def mem_step_def)
next
  case (snoc f refs)
  have "enumerate 0 (True # refs @ [f]) = enumerate 0 (True # refs) @ [(length (True # refs), f)]"
    using enumerate_append_eq [of 0 "True # refs" "[f]"] by simp
  then show ?case using scanned_step [OF snoc, of f] by simp
qed

text \<open>
  The command memory prints, on every machine whose first page is in use, every page in the run it belongs to, except
  that a last page which is a run of its own is not printed at all.
\<close>

theorem mon_memory_correct:
  "expand (mon_memory (True # refs)) =
     (if refs = [] \<or> last refs \<noteq> last (True # butlast refs) then butlast (True # refs) else True # refs)"
proof -
  define m where "m = fold mem_step (enumerate 0 (True # refs)) \<lparr>ms_start = 1, ms_state = True, ms_out = []\<rparr>"
  define k where "k = Suc (length (True # refs)) - ms_start m"
  have sc: "scanned (True # refs) m" using scanned_all [of refs] by (simp only: m_def)
  then have s: "True # refs = expand (ms_out m) @ replicate k (ms_state m)"
    "if expand (ms_out m) = [] then ms_start m = 1 else last (expand (ms_out m)) \<noteq> ms_state m"
    unfolding scanned_def k_def by blast+
  have "ms_start m \<le> length (True # refs)" using sc unfolding scanned_def by blast
  then have k: "0 < k" "ms_start m = length (True # refs) \<longleftrightarrow> k = 1" unfolding k_def by linarith+
  have mm: "mon_memory (True # refs) = (if k = 1 then ms_out m else ms_out m @ [(ms_start m, length (True # refs), ms_state m)])"
    unfolding mon_memory_def m_def [symmetric] Let_def using k(2) by presburger
  have out: "expand (mon_memory (True # refs)) = (if k = 1 then expand (ms_out m) else True # refs)"
    unfolding mm by (cases "k = 1") (simp_all only: if_True if_False simp_thms expand_simps k_def [symmetric] s(1) [symmetric])
  show ?thesis
  proof (cases "k = 1")
    case True
    then have e: "True # refs = expand (ms_out m) @ [ms_state m]" using s(1) by simp
    then have "butlast (True # refs) = expand (ms_out m)" by simp
    moreover have "refs = [] \<or> last refs \<noteq> last (True # butlast refs)"
    proof (cases refs rule: rev_cases)
      case (snoc xs f)
      then have "expand (ms_out m) = True # xs" "ms_state m = f" using e by (metis append1_eq_conv append_Cons)+
      then show ?thesis using s(2) snoc by simp
    qed simp
    ultimately show ?thesis using out True by simp
  next
    case False
    then have "k = Suc (Suc (k - 2))" using k(1) by linarith
    then obtain j where j: "k = Suc (Suc j)" by blast
    have rep: "replicate (Suc (Suc j)) x = replicate j x @ [x, x]" for x :: bool by (induction j) simp_all
    have e: "True # refs = (expand (ms_out m) @ replicate j (ms_state m)) @ [ms_state m, ms_state m]"
      using s(1) unfolding j rep by (simp only: append_assoc)
    have "refs \<noteq> []" using arg_cong [OF e, of length] by auto
    then obtain xs x where x: "refs = xs @ [x]" by (cases refs rule: rev_cases) auto
    then have "(True # xs) @ [x] = ((expand (ms_out m) @ replicate j (ms_state m)) @ [ms_state m]) @ [ms_state m]" using e by simp
    then have xs: "refs = xs @ [ms_state m]" unfolding x append1_eq_conv by simp
    then have "True # xs = (expand (ms_out m) @ replicate j (ms_state m)) @ [ms_state m]" using e by simp
    then have "last (True # xs) = ms_state m" by (simp only: last_snoc)
    then have "refs \<noteq> []" "last refs = last (True # butlast refs)" using xs by simp_all
    then show ?thesis using out False by simp
  qed
qed

end
