(* ===== verification/Args.thy ===== *)
theory Args
  imports Bytes
begin

text \<open>
  lib/args.c, the parsing of command lines. argv is the list of the argc arguments, which the NULL at the end of the C array follows; moving
  the pointers down by one, as the code does with memmove, takes argument 1 out of the list. A pointer into an argument is the rest of the string from there on.
\<close>

section \<open>Definitions\<close>

record argstate =
  as_argv :: "8 word list list"
  as_curarg :: "8 word list option"
  as_value :: "8 word list option"

definition argstart :: "8 word list list \<Rightarrow> argstate" where
  "argstart argv = \<lparr>as_argv = argv, as_curarg = (if length argv > 1 then Some [] else None), as_value = None\<rparr>"

text \<open>argv[i] and the arguments without it.\<close>

definition shift_args :: "8 word list list \<Rightarrow> 8 word list list" where
  "shift_args argv = hd argv # drop 2 argv"

definition argnext :: "argstate \<Rightarrow> int \<times> argstate" where
  "argnext a =
     (let a = a\<lparr>as_value := None\<rparr>
      in case as_curarg a of
           None \<Rightarrow> (- 1, a)
         | Some (c # cs) \<Rightarrow> (uint c, a\<lparr>as_curarg := Some cs\<rparr>)
         | Some [] \<Rightarrow>
             if length (as_argv a) = 1 \<or> take 1 (as_argv a ! 1) \<noteq> [45] \<or> length (as_argv a ! 1) = 1
             then (- 1, a\<lparr>as_curarg := None\<rparr>)
             else (let cur = tl (as_argv a ! 1); a = a\<lparr>as_argv := shift_args (as_argv a)\<rparr>
                   in if cur = [45] then (- 1, a\<lparr>as_curarg := None\<rparr>)
                      else (uint (hd cur), a\<lparr>as_curarg := Some (tl cur)\<rparr>)))"

definition argnextvalue :: "argstate \<Rightarrow> 8 word list option \<times> argstate" where
  "argnextvalue a =
     (case as_curarg a of
        None \<Rightarrow> (None, a)
      | Some (c # cs) \<Rightarrow> (Some (c # cs), a\<lparr>as_value := Some (c # cs), as_curarg := Some []\<rparr>)
      | Some [] \<Rightarrow>
          if length (as_argv a) > 1
          then (Some (as_argv a ! 1), a\<lparr>as_value := Some (as_argv a ! 1), as_argv := shift_args (as_argv a)\<rparr>)
          else (None, a\<lparr>as_value := None, as_curarg := None\<rparr>))"

definition argvalue :: "argstate \<Rightarrow> 8 word list option \<times> argstate" where
  "argvalue a = (case as_value a of Some v \<Rightarrow> (Some v, a) | None \<Rightarrow> argnextvalue a)"

text \<open>The loop that the programs have: argnext until it is negative.\<close>

fun all_flags :: "nat \<Rightarrow> argstate \<Rightarrow> (int list \<times> argstate) option" where
  "all_flags 0 a = None"
| "all_flags (Suc n) a =
     (case argnext a of (r, a) \<Rightarrow>
        if r < 0 then Some ([], a) else map_option (\<lambda>(rs, a). (r # rs, a)) (all_flags n a))"

section \<open>Flags\<close>

text \<open>An argument of flags, and the end of the flags.\<close>

definition is_flag :: "8 word list \<Rightarrow> bool" where
  "is_flag arg \<longleftrightarrow> take 1 arg = [45] \<and> length arg > 1"

text \<open>What the arguments after the first one mean: the flags, and the arguments that are left.\<close>

fun flags_of :: "8 word list list \<Rightarrow> 8 word list \<times> 8 word list list" where
  "flags_of [] = ([], [])"
| "flags_of (arg # args) =
     (if \<not> is_flag arg then ([], arg # args)
      else if arg = [45, 45] then ([], args)
      else (case flags_of args of (fs, rest) \<Rightarrow> (tl arg @ fs, rest)))"

lemma is_flag_cases: "is_flag arg \<longleftrightarrow> (\<exists>c cs. arg = 45 # c # cs)"
  by (cases arg rule: remdups_adj.cases) (auto simp: is_flag_def)

lemma argnext_char: "as_curarg a = Some (c # cs) \<Longrightarrow> argnext a = (uint c, a\<lparr>as_value := None, as_curarg := Some cs\<rparr>)"
  by (simp add: argnext_def)

lemma argnext_flag:
  assumes "as_curarg a = Some []" "as_argv a = prog # (45 # c # cs) # args" "45 # c # cs \<noteq> [45, 45]"
  shows "argnext a = (uint c, a\<lparr>as_value := None, as_argv := prog # args, as_curarg := Some cs\<rparr>)"
  using assms by (auto simp: argnext_def shift_args_def Let_def)

lemma argnext_stop:
  assumes "as_curarg a = Some []" "as_argv a = prog # args" "args = [] \<or> \<not> is_flag (hd args)"
  shows "argnext a = (- 1, a\<lparr>as_value := None, as_curarg := None\<rparr>)"
  using assms by (cases args) (auto simp: argnext_def is_flag_def Let_def le_Suc_eq not_less)

lemma argnext_dashes:
  assumes "as_curarg a = Some []" "as_argv a = prog # [45, 45] # args"
  shows "argnext a = (- 1, a\<lparr>as_value := None, as_argv := prog # args, as_curarg := None\<rparr>)"
  using assms by (simp add: argnext_def shift_args_def Let_def)

text \<open>Enough calls for the characters that are left.\<close>

lemma all_flags_of:
  assumes "as_curarg a = Some cur" "as_argv a = prog # args" "length cur + length (concat args) < n"
  shows "\<exists>a'. all_flags n a = Some (map uint (cur @ fst (flags_of args)), a') \<and>
    as_argv a' = prog # snd (flags_of args) \<and> as_curarg a' = None"
  using assms
proof (induction n arbitrary: a cur args)
  case (Suc n)
  show ?case
  proof (cases cur)
    case (Cons c cs)
    have "length cs + length (concat args) < n" using Suc.prems(3) Cons by simp
    from Suc.IH [OF _ _ this, of "a\<lparr>as_value := None, as_curarg := Some cs\<rparr>"] Suc.prems(2)
    show ?thesis using Suc.prems(1) Cons by (auto simp: argnext_char)
  next
    case Nil
    note cur = Suc.prems(1) [unfolded Nil]
    show ?thesis
    proof (cases "args = [] \<or> \<not> is_flag (hd args)")
      case True
      then have "flags_of args = ([], args)" by (cases args) auto
      then show ?thesis using argnext_stop [OF cur Suc.prems(2) True] Suc.prems(2) Nil by simp
    next
      case False
      then obtain c cs args' where args: "args = (45 # c # cs) # args'" by (cases args) (auto simp: is_flag_cases)
      then have f: "is_flag (45 # c # cs)" by (auto simp: is_flag_cases)
      show ?thesis
      proof (cases "45 # c # cs = [45, 45]")
        case True
        then show ?thesis using argnext_dashes [OF cur] Suc.prems(2) args Nil f by simp
      next
        case ne: False
        have "length cs + length (concat args') < n" using Suc.prems(3) args by simp
        from Suc.IH [OF _ _ this, of "a\<lparr>as_value := None, as_argv := prog # args', as_curarg := Some cs\<rparr>"]
        obtain a' where "all_flags n (a\<lparr>as_value := None, as_argv := prog # args', as_curarg := Some cs\<rparr>) =
            Some (map uint (cs @ fst (flags_of args')), a')" "as_argv a' = prog # snd (flags_of args')" "as_curarg a' = None" by auto
        then show ?thesis using argnext_flag [OF cur _ ne] Suc.prems(2) args Nil f ne by (simp split: prod.split)
      qed
    qed
  qed
qed simp

text \<open>
  The loop over argnext ends and returns the characters of the leading flag arguments in order; -- and the first argument that is no flag end them,
  and afterwards argv holds the program's name and the arguments that are left.
\<close>

theorem argnext_flags:
  assumes "length (concat args) < n"
  shows "\<exists>a'. all_flags n (argstart (prog # args)) = Some (map uint (fst (flags_of args)), a') \<and> as_argv a' = prog # snd (flags_of args)"
proof (cases args)
  case Nil
  then show ?thesis using assms by (cases n) (simp_all add: argstart_def argnext_def)
next
  case (Cons arg as)
  then have "as_curarg (argstart (prog # args)) = Some []" "as_argv (argstart (prog # args)) = prog # args" by (simp_all add: argstart_def)
  from all_flags_of [OF this, of n] assms show ?thesis by auto
qed

theorem argnext_flags_witness:
  "\<exists>a'. all_flags 9 (argstart [chars ''sh'', chars ''-di'', chars ''-x'', chars ''f'']) = Some ([100, 105, 120], a') \<and>
     as_argv a' = [chars ''sh'', chars ''f'']"
proof -
  have l: "chars ''-di'' = [45, 100, 105]" "chars ''-x'' = [45, 120]" "chars ''f'' = [102]" by (simp_all add: chars_def of_char_def)
  show ?thesis
    using argnext_flags [of "[chars ''-di'', chars ''-x'', chars ''f'']" 9 "chars ''sh''"] unfolding l by (simp add: is_flag_def)
qed

text \<open>The value of a flag: the rest of its own argument, or the next one whatever it looks like.\<close>

theorem argvalue_attached: "as_curarg a = Some (c # cs) \<Longrightarrow> as_value a = None \<Longrightarrow> fst (argvalue a) = Some (c # cs)"
  by (simp add: argvalue_def argnextvalue_def)

theorem argvalue_separate:
  "as_curarg a = Some [] \<Longrightarrow> as_value a = None \<Longrightarrow> as_argv a = prog # v # args \<Longrightarrow>
     fst (argvalue a) = Some v \<and> as_argv (snd (argvalue a)) = prog # args"
  by (simp add: argvalue_def argnextvalue_def shift_args_def)

end
